(* ===== verification/Prelude.thy ===== *)
theory Prelude
  imports Main "HOL-Library.Word" "HOL-Library.Monad_Syntax"
begin

text \<open>
  Shared ground of the development: the C integers and pointers the sources use, the memory
  image of a machine word on the little-endian x86-64 host the program is built for, and the
  interfaces (locales) every wire codec of \<^verbatim>\<open>src/datautils.c\<close> is measured against.

  Conventions used by every theory.
  \<^item> A \<^verbatim>\<open>char *source\<close> that is read is the list of the bytes from the pointer to the end of the
    object it points into. Reading past the end is undefined behaviour: the model returns \<open>None\<close>.
  \<^item> A \<^verbatim>\<open>char *dest\<close> that is written is the list of the bytes written so far; the encoders only
    write at \<open>dest\<close> and return the advanced pointer, so they append.
  \<^item> \<open>None\<close> always means that the C execution has undefined behaviour (out-of-bounds read,
    shift by too much, signed overflow, violated assertion). Error codes and \<open>NULL\<close> results
    are ordinary values.
  \<^item> \<^verbatim>\<open>size_t\<close>, \<^verbatim>\<open>uint32_t\<close>, ... are words; \<^verbatim>\<open>int\<close> results of the walkers are \<open>int\<close>, and an
    addition that leaves the range of a 32-bit \<^verbatim>\<open>int\<close> is undefined.
\<close>

unbundle bit_operations_syntax

named_theorems wire_simps \<open>equations of encoders and decoders on wire images\<close>
named_theorems codec_defs \<open>definitions unfolded when a codec is opened\<close>

section \<open>Types\<close>

type_synonym byte = "8 word"
type_synonym u16 = "16 word"
type_synonym u32 = "32 word"
type_synonym u64 = "64 word"
type_synonym ptr = "byte list"
type_synonym 'a dec = "(('a \<times> ptr) option)"

section \<open>Reading through a pointer\<close>

text \<open>\<^verbatim>\<open>*p\<close>, \<^verbatim>\<open>p + n\<close> and \<^verbatim>\<open>memcpy(dest, p, n)\<close> with the advanced pointer.\<close>

definition deref :: "ptr \<Rightarrow> byte option" where
  "deref p = (case p of [] \<Rightarrow> None | b # _ \<Rightarrow> Some b)"

definition adv :: "nat \<Rightarrow> ptr \<Rightarrow> ptr option" where
  "adv n p = (if n \<le> length p then Some (drop n p) else None)"

definition memrd :: "nat \<Rightarrow> ptr \<Rightarrow> (byte list \<times> ptr) option" where
  "memrd n p = (if n \<le> length p then Some (take n p, drop n p) else None)"

lemma deref_simps [simp]:
  "deref [] = None" "deref (b # p) = Some b"
  by (simp_all add: deref_def)

lemma deref_append [simp]: "xs \<noteq> [] \<Longrightarrow> deref (xs @ ys) = Some (hd xs)"
  by (cases xs) simp_all

lemma adv_append [simp]: "adv (length xs) (xs @ ys) = Some ys"
  by (simp add: adv_def)

lemma adv_append_eq: "n = length xs \<Longrightarrow> adv n (xs @ ys) = Some ys"
  by simp

lemma adv_Some_iff: "adv n p = Some q \<longleftrightarrow> n \<le> length p \<and> q = drop n p"
  by (auto simp: adv_def)

lemma memrd_append [simp]: "memrd (length xs) (xs @ ys) = Some (xs, ys)"
  by (simp add: memrd_def)

lemma memrd_append_eq: "n = length xs \<Longrightarrow> memrd n (xs @ ys) = Some (xs, ys)"
  by simp

lemma memrd_Some_iff:
  "memrd n p = Some (xs, q) \<longleftrightarrow> n \<le> length p \<and> xs = take n p \<and> q = drop n p"
  by (auto simp: memrd_def)

lemma memrd_eq_Some: "n \<le> length p \<Longrightarrow> memrd n p = Some (take n p, drop n p)"
  by (simp add: memrd_def)

text \<open>\<^verbatim>\<open>memcmp\<close> of \<open>n\<close> bytes at two pointers (\<open>None\<close> for a null pointer): the difference of the first bytes that differ.\<close>

fun bytes_cmp :: "byte list \<Rightarrow> byte list \<Rightarrow> int" where
  "bytes_cmp (x # xs) (y # ys) = (if x \<noteq> y then uint x - uint y else bytes_cmp xs ys)"
| "bytes_cmp _ _ = 0"

definition memcmp :: "byte list option \<Rightarrow> byte list option \<Rightarrow> nat \<Rightarrow> int option" where
  "memcmp a b n =
     do { a \<leftarrow> a; b \<leftarrow> b;
          if n \<le> length a \<and> n \<le> length b then Some (bytes_cmp (take n a) (take n b)) else None }"

lemma bytes_cmp_0_iff: "length a = length b \<Longrightarrow> bytes_cmp a b = 0 \<longleftrightarrow> a = b"
  by (induction a b rule: bytes_cmp.induct) (auto simp: word_uint_eq_iff)

section \<open>The 32-bit signed \<^verbatim>\<open>int\<close>\<close>

definition INT_MAX :: int where "INT_MAX = 2147483647"
definition INT_MIN :: int where "INT_MIN = - 2147483648"

text \<open>Signed addition, undefined on overflow; conversion of a \<^verbatim>\<open>size_t\<close> to \<^verbatim>\<open>int\<close>.\<close>

definition iadd :: "int \<Rightarrow> int \<Rightarrow> int option" where
  "iadd a b = (if INT_MIN \<le> a + b \<and> a + b \<le> INT_MAX then Some (a + b) else None)"

definition int_of_size :: "u64 \<Rightarrow> int" where
  "int_of_size w = sint (ucast w :: u32)"

definition size_of_int :: "int \<Rightarrow> u64" where
  "size_of_int i = word_of_int i"

lemma iadd_Some [simp]:
  "INT_MIN \<le> a + b \<Longrightarrow> a + b \<le> INT_MAX \<Longrightarrow> iadd a b = Some (a + b)"
  by (simp add: iadd_def)

lemma iadd_SomeD: "iadd a b = Some c \<Longrightarrow> c = a + b"
  by (simp add: iadd_def split: if_splits)

lemma uint_mod_small: "0 \<le> i \<Longrightarrow> i < 2 ^ 64 \<Longrightarrow> uint (word_of_int i :: u64) = i"
  by (simp add: uint_word_of_int)

lemma size_of_int_nat [simp]: "size_of_int (int n) = of_nat n"
  by (simp add: size_of_int_def)

lemma unat_of_nat64: "n < 2 ^ 64 \<Longrightarrow> unat (of_nat n :: u64) = n"
  by (simp add: unat_of_nat)

lemma int_of_size_of_nat: "int n \<le> INT_MAX \<Longrightarrow> int_of_size (of_nat n) = int n"
proof -
  assume n: "int n \<le> INT_MAX"
  then have "n < 2 ^ 31" by (simp add: INT_MAX_def)
  moreover have "(ucast (of_nat n :: u64) :: u32) = of_nat n"
    using \<open>n < 2 ^ 31\<close> by (simp add: unsigned_of_nat take_bit_nat_eq_self)
  ultimately show ?thesis
    by (simp add: int_of_size_def sint_uint unsigned_of_nat signed_take_bit_int_eq_self
        take_bit_nat_eq_self)
qed

lemma unat_sub_len: "n \<le> unat (w :: u64) \<Longrightarrow> unat (w - of_nat n) = unat w - n"
proof -
  assume n: "n \<le> unat w"
  have "unat w < 2 ^ LENGTH(64)" by (rule unsigned_less)
  with n have "n < 2 ^ 64" by simp
  with n show ?thesis by (simp add: unat_sub unat_of_nat64 word_le_nat_alt)
qed

end
