(* ===== verification/ListHead.thy ===== *)
theory ListHead
  imports Prelude
begin

text \<open>
  The circular doubly linked lists of \<^verbatim>\<open>include/cNBT/list.h\<close> on an explicit heap. The other theories treat the children of an NBT node as a list;
  here the pointer operations that list stands for are modelled statement by statement: a pointer is an address or \<open>NULL\<close> (\<open>None\<close>), the heap gives
  the \<^verbatim>\<open>struct list_head\<close> at an allocated address, and an access through \<open>NULL\<close> or to an address that is not allocated is undefined. The
  iteration macros take the loop body as an argument and need not end on a heap that is not a list, so they are partial functions.

  \<open>dlist h head xs\<close> says that the sentinel \<open>head\<close> and the entries \<open>xs\<close> are linked in both directions.
\<close>

section \<open>The heap\<close>

type_synonym addr = nat
type_synonym lptr = "addr option"

record list_head =
  blink :: lptr
  flink :: lptr

type_synonym links = "addr \<rightharpoonup> list_head"

definition get_flink :: "links \<Rightarrow> lptr \<Rightarrow> lptr option" where
  "get_flink h p = do { a \<leftarrow> p; n \<leftarrow> h a; Some (flink n) }"

definition get_blink :: "links \<Rightarrow> lptr \<Rightarrow> lptr option" where
  "get_blink h p = do { a \<leftarrow> p; n \<leftarrow> h a; Some (blink n) }"

definition set_flink :: "lptr \<Rightarrow> lptr \<Rightarrow> links \<Rightarrow> links option" where
  "set_flink p v h = do { a \<leftarrow> p; n \<leftarrow> h a; Some (h(a \<mapsto> n\<lparr>flink := v\<rparr>)) }"

definition set_blink :: "lptr \<Rightarrow> lptr \<Rightarrow> links \<Rightarrow> links option" where
  "set_blink p v h = do { a \<leftarrow> p; n \<leftarrow> h a; Some (h(a \<mapsto> n\<lparr>blink := v\<rparr>)) }"

section \<open>Operations\<close>

definition INIT_LIST_HEAD :: "lptr \<Rightarrow> links \<Rightarrow> links option" where
  "INIT_LIST_HEAD head h = do { h \<leftarrow> set_blink head head h; set_flink head head h }"

text \<open>Both parameters are \<^verbatim>\<open>restrict\<close> and written through: they may not be the same object. The result is the heap and the pointer returned.\<close>

definition list_add_head :: "lptr \<Rightarrow> lptr \<Rightarrow> links \<Rightarrow> (links \<times> lptr) option" where
  "list_add_head new head h =
     (if new = head then None
      else do { f \<leftarrow> get_flink h head; h \<leftarrow> set_flink new f h;
                h \<leftarrow> set_blink new head h;
                f \<leftarrow> get_flink h new; h \<leftarrow> set_blink f new h;
                b \<leftarrow> get_blink h new; h \<leftarrow> set_flink b new h;
                Some (h, head) })"

definition list_add_tail :: "lptr \<Rightarrow> lptr \<Rightarrow> links \<Rightarrow> (links \<times> lptr) option" where
  "list_add_tail new head h =
     (if new = head then None
      else do { h \<leftarrow> set_flink new head h;
                b \<leftarrow> get_blink h head; h \<leftarrow> set_blink new b h;
                f \<leftarrow> get_flink h new; h \<leftarrow> set_blink f new h;
                b \<leftarrow> get_blink h new; h \<leftarrow> set_flink b new h;
                Some (h, head) })"

definition list_del :: "lptr \<Rightarrow> links \<Rightarrow> links option" where
  "list_del loc h = do {
     f \<leftarrow> get_flink h loc; b \<leftarrow> get_blink h loc; h \<leftarrow> set_blink f b h;
     b \<leftarrow> get_blink h loc; f \<leftarrow> get_flink h loc; h \<leftarrow> set_flink b f h;
     h \<leftarrow> set_flink loc None h;
     set_blink loc None h }"

definition list_empty :: "links \<Rightarrow> lptr \<Rightarrow> bool option" where
  "list_empty h head = do { f \<leftarrow> get_flink h head; Some (f = head) }"

text \<open>A loop body changes the heap and a state of its own. \<open>next\<close> is \<open>get_flink\<close> or \<open>get_blink\<close>.\<close>

type_synonym 's body = "lptr \<Rightarrow> links \<times> 's \<Rightarrow> (links \<times> 's) option"

partial_function (option) each_loop ::
  "(links \<Rightarrow> lptr \<Rightarrow> lptr option) \<Rightarrow> 's body \<Rightarrow> lptr \<Rightarrow> lptr \<Rightarrow> links \<times> 's \<Rightarrow> (links \<times> 's) option" where
  "each_loop nxt body head pos st =
     (if pos = head then Some st
      else do { st \<leftarrow> body pos st; pos \<leftarrow> nxt (fst st) pos; each_loop nxt body head pos st })"

partial_function (option) each_safe_loop ::
  "(links \<Rightarrow> lptr \<Rightarrow> lptr option) \<Rightarrow> 's body \<Rightarrow> lptr \<Rightarrow> lptr \<Rightarrow> lptr \<Rightarrow> links \<times> 's \<Rightarrow> (links \<times> 's) option" where
  "each_safe_loop nxt body head pos n st =
     (if pos = head then Some st
      else do { st \<leftarrow> body pos st; n' \<leftarrow> nxt (fst st) n; each_safe_loop nxt body head n n' st })"

definition list_for_each :: "'s body \<Rightarrow> lptr \<Rightarrow> links \<times> 's \<Rightarrow> (links \<times> 's) option" where
  "list_for_each body head st = do { pos \<leftarrow> get_flink (fst st) head; each_loop get_flink body head pos st }"

definition list_for_each_reverse :: "'s body \<Rightarrow> lptr \<Rightarrow> links \<times> 's \<Rightarrow> (links \<times> 's) option" where
  "list_for_each_reverse body head st = do { pos \<leftarrow> get_blink (fst st) head; each_loop get_blink body head pos st }"

definition list_for_each_safe :: "'s body \<Rightarrow> lptr \<Rightarrow> links \<times> 's \<Rightarrow> (links \<times> 's) option" where
  "list_for_each_safe body head st = do {
     pos \<leftarrow> get_flink (fst st) head; n \<leftarrow> get_flink (fst st) pos; each_safe_loop get_flink body head pos n st }"

definition list_for_each_reverse_safe :: "'s body \<Rightarrow> lptr \<Rightarrow> links \<times> 's \<Rightarrow> (links \<times> 's) option" where
  "list_for_each_reverse_safe body head st = do {
     pos \<leftarrow> get_blink (fst st) head; p \<leftarrow> get_blink (fst st) pos; each_safe_loop get_blink body head pos p st }"

definition list_length :: "links \<Rightarrow> lptr \<Rightarrow> u64 option" where
  "list_length h head = do { (h, accum) \<leftarrow> list_for_each (\<lambda>pos (h, accum). Some (h, accum + 1)) head (h, 0); Some accum }"

section \<open>Linked chains\<close>

definition linked :: "links \<Rightarrow> addr \<Rightarrow> addr \<Rightarrow> bool" where
  "linked h a b \<longleftrightarrow> get_flink h (Some a) = Some (Some b) \<and> get_blink h (Some b) = Some (Some a)"

fun chain :: "links \<Rightarrow> addr \<Rightarrow> addr list \<Rightarrow> addr \<Rightarrow> bool" where
  "chain h a [] z = linked h a z"
| "chain h a (x # xs) z = (linked h a x \<and> chain h x xs z)"

definition dlist :: "links \<Rightarrow> addr \<Rightarrow> addr list \<Rightarrow> bool" where
  "dlist h head xs \<longleftrightarrow> distinct (head # xs) \<and> chain h head xs head"

lemma chain_append: "chain h a (xs @ y # ys) z \<longleftrightarrow> chain h a xs y \<and> chain h y ys z"
  by (induction xs arbitrary: a) auto

lemma get_upd:
  "get_flink (h(a \<mapsto> n)) (Some b) = (if b = a then Some (flink n) else get_flink h (Some b))"
  "get_blink (h(a \<mapsto> n)) (Some b) = (if b = a then Some (blink n) else get_blink h (Some b))"
  by (simp_all add: get_flink_def get_blink_def)

lemma chain_cong:
  assumes "\<And>x. x \<in> set (a # xs) \<Longrightarrow> get_flink h' (Some x) = get_flink h (Some x)"
    and "\<And>x. x \<in> set (xs @ [z]) \<Longrightarrow> get_blink h' (Some x) = get_blink h (Some x)"
  shows "chain h' a xs z = chain h a xs z"
  using assms by (induction xs arbitrary: a) (auto simp: linked_def)

text \<open>The entries of a chain are allocated.\<close>

lemma linked_dom: "linked h a b \<Longrightarrow> a \<in> dom h \<and> b \<in> dom h"
  by (auto simp: linked_def get_flink_def get_blink_def split: Option.bind_splits)

lemma chain_dom: "chain h a xs z \<Longrightarrow> insert a (insert z (set xs)) \<subseteq> dom h"
  by (induction xs arbitrary: a) (auto dest: linked_dom)

lemma dlist_dom: "dlist h head xs \<Longrightarrow> set (head # xs) \<subseteq> dom h"
  using chain_dom [of h head xs head] by (auto simp: dlist_def)


section \<open>Effect of the operations on the links\<close>

text \<open>\<open>relinked h fs bs h'\<close>: \<open>h'\<close> is \<open>h\<close> with the front links \<open>fs\<close> and the back links \<open>bs\<close> changed; later changes come first.\<close>

definition relinked :: "links \<Rightarrow> (addr \<times> lptr) list \<Rightarrow> (addr \<times> lptr) list \<Rightarrow> links \<Rightarrow> bool" where
  "relinked h fs bs h' \<longleftrightarrow> dom h' = dom h \<and>
     (\<forall>x. get_flink h' (Some x) = (case map_of fs x of None \<Rightarrow> get_flink h (Some x) | Some v \<Rightarrow> Some v)) \<and>
     (\<forall>x. get_blink h' (Some x) = (case map_of bs x of None \<Rightarrow> get_blink h (Some x) | Some v \<Rightarrow> Some v))"

lemma relinked_refl: "relinked h [] [] h"
  by (simp add: relinked_def)

lemma relinked_dom: "relinked h fs bs h' \<Longrightarrow> dom h' = dom h"
  by (simp add: relinked_def)

lemma relinked_get:
  assumes "relinked h fs bs h'"
  shows "get_flink h' (Some x) = (case map_of fs x of None \<Rightarrow> get_flink h (Some x) | Some v \<Rightarrow> Some v)"
    and "get_blink h' (Some x) = (case map_of bs x of None \<Rightarrow> get_blink h (Some x) | Some v \<Rightarrow> Some v)"
  using assms by (simp_all add: relinked_def)

lemma set_flink_step:
  assumes "relinked h fs bs h1" and "a \<in> dom h"
  shows "\<exists>h2. set_flink (Some a) v h1 = Some h2 \<and> relinked h ((a, v) # fs) bs h2"
proof -
  from assms have "a \<in> dom h1" by (simp add: relinked_def)
  then obtain n where n: "h1 a = Some n" by blast
  moreover have "(case map_of bs a of None \<Rightarrow> get_blink h (Some a) | Some v \<Rightarrow> Some v) = Some (blink n)"
    using relinked_get(2) [OF assms(1), of a] n by (simp add: get_blink_def [of h1])
  then have "relinked h ((a, v) # fs) bs (h1(a \<mapsto> n\<lparr>flink := v\<rparr>))"
    using assms by (auto simp: relinked_def get_upd)
  ultimately show ?thesis by (simp add: set_flink_def)
qed

lemma set_blink_step:
  assumes "relinked h fs bs h1" and "a \<in> dom h"
  shows "\<exists>h2. set_blink (Some a) v h1 = Some h2 \<and> relinked h fs ((a, v) # bs) h2"
proof -
  from assms have "a \<in> dom h1" by (simp add: relinked_def)
  then obtain n where n: "h1 a = Some n" by blast
  moreover have "(case map_of fs a of None \<Rightarrow> get_flink h (Some a) | Some v \<Rightarrow> Some v) = Some (flink n)"
    using relinked_get(1) [OF assms(1), of a] n by (simp add: get_flink_def [of h1])
  then have "relinked h fs ((a, v) # bs) (h1(a \<mapsto> n\<lparr>blink := v\<rparr>))"
    using assms by (auto simp: relinked_def get_upd)
  ultimately show ?thesis by (simp add: set_blink_def)
qed

lemma list_add_head_links:
  assumes "linked h head f" and "new \<in> dom h" and "new \<noteq> head" and "new \<noteq> f"
  shows "\<exists>h'. list_add_head (Some new) (Some head) h = Some (h', Some head) \<and>
    relinked h [(head, Some new), (new, Some f)] [(f, Some new), (new, Some head)] h'"
proof -
  have dom: "head \<in> dom h" "f \<in> dom h" using linked_dom [OF assms(1)] by simp_all
  obtain h1 where h1: "set_flink (Some new) (Some f) h = Some h1" "relinked h [(new, Some f)] [] h1"
    using set_flink_step [OF relinked_refl assms(2)] by blast
  obtain h2 where h2: "set_blink (Some new) (Some head) h1 = Some h2" "relinked h [(new, Some f)] [(new, Some head)] h2"
    using set_blink_step [OF h1(2) assms(2)] by blast
  obtain h3 where h3: "set_blink (Some f) (Some new) h2 = Some h3"
    "relinked h [(new, Some f)] [(f, Some new), (new, Some head)] h3"
    using set_blink_step [OF h2(2) dom(2)] by blast
  obtain h4 where h4: "set_flink (Some head) (Some new) h3 = Some h4"
    "relinked h [(head, Some new), (new, Some f)] [(f, Some new), (new, Some head)] h4"
    using set_flink_step [OF h3(2) dom(1)] by blast
  have "list_add_head (Some new) (Some head) h = Some (h4, Some head)"
    using assms h1 h2(1) h3(1) h4(1) relinked_get [OF h2(2)] relinked_get [OF h3(2)]
    by (simp add: list_add_head_def linked_def)
  with h4(2) show ?thesis by blast
qed

lemma list_add_tail_links:
  assumes "linked h b head" and "new \<in> dom h" and "new \<noteq> head" and "new \<noteq> b"
  shows "\<exists>h'. list_add_tail (Some new) (Some head) h = Some (h', Some head) \<and>
    relinked h [(b, Some new), (new, Some head)] [(head, Some new), (new, Some b)] h'"
proof -
  have dom: "head \<in> dom h" "b \<in> dom h" using linked_dom [OF assms(1)] by simp_all
  obtain h1 where h1: "set_flink (Some new) (Some head) h = Some h1" "relinked h [(new, Some head)] [] h1"
    using set_flink_step [OF relinked_refl assms(2)] by blast
  obtain h2 where h2: "set_blink (Some new) (Some b) h1 = Some h2" "relinked h [(new, Some head)] [(new, Some b)] h2"
    using set_blink_step [OF h1(2) assms(2)] by blast
  obtain h3 where h3: "set_blink (Some head) (Some new) h2 = Some h3"
    "relinked h [(new, Some head)] [(head, Some new), (new, Some b)] h3"
    using set_blink_step [OF h2(2) dom(1)] by blast
  obtain h4 where h4: "set_flink (Some b) (Some new) h3 = Some h4"
    "relinked h [(b, Some new), (new, Some head)] [(head, Some new), (new, Some b)] h4"
    using set_flink_step [OF h3(2) dom(2)] by blast
  have "list_add_tail (Some new) (Some head) h = Some (h4, Some head)"
    using assms h1(1) h2(1) h3(1) h4(1) relinked_get [OF h1(2)] relinked_get [OF h2(2)] relinked_get [OF h3(2)]
    by (simp add: list_add_tail_def linked_def)
  with h4(2) show ?thesis by blast
qed

lemma list_del_links:
  assumes "linked h b x" and "linked h x f" and "x \<noteq> b" and "x \<noteq> f"
  shows "\<exists>h'. list_del (Some x) h = Some h' \<and>
    relinked h [(x, None), (b, Some f)] [(x, None), (f, Some b)] h'"
proof -
  have dom: "b \<in> dom h" "x \<in> dom h" "f \<in> dom h" using linked_dom [OF assms(1)] linked_dom [OF assms(2)] by simp_all
  obtain h1 where h1: "set_blink (Some f) (Some b) h = Some h1" "relinked h [] [(f, Some b)] h1"
    using set_blink_step [OF relinked_refl dom(3)] by blast
  obtain h2 where h2: "set_flink (Some b) (Some f) h1 = Some h2" "relinked h [(b, Some f)] [(f, Some b)] h2"
    using set_flink_step [OF h1(2) dom(1)] by blast
  obtain h3 where h3: "set_flink (Some x) None h2 = Some h3" "relinked h [(x, None), (b, Some f)] [(f, Some b)] h3"
    using set_flink_step [OF h2(2) dom(2)] by blast
  obtain h4 where h4: "set_blink (Some x) None h3 = Some h4"
    "relinked h [(x, None), (b, Some f)] [(x, None), (f, Some b)] h4"
    using set_blink_step [OF h3(2) dom(2)] by blast
  have "list_del (Some x) h = Some h4"
    using assms h1(1) h2(1) h3(1) h4(1) relinked_get [OF h1(2)]
    by (simp add: list_del_def linked_def)
  with h4(2) show ?thesis by blast
qed

section \<open>The list under the operations\<close>

lemma chain_relinked:
  assumes "relinked h fs bs h'" and "chain h a xs z"
    and "set (a # xs) \<inter> fst ` set fs = {}" and "set (xs @ [z]) \<inter> fst ` set bs = {}"
  shows "chain h' a xs z"
proof -
  have f: "map_of fs x = None" if "x \<in> set (a # xs)" for x using that assms(3) by (auto simp: map_of_eq_None_iff)
  have b: "map_of bs x = None" if "x \<in> set (xs @ [z])" for x using that assms(4) by (auto simp: map_of_eq_None_iff)
  have "chain h' a xs z = chain h a xs z"
    by (rule chain_cong) (simp_all only: relinked_get [OF assms(1)] f b option.case)
  with assms(2) show ?thesis by simp
qed

lemma linked_relinked:
  "relinked h fs bs h' \<Longrightarrow> map_of fs a = Some (Some b) \<Longrightarrow> map_of bs b = Some (Some a) \<Longrightarrow> linked h' a b"
  by (simp add: linked_def relinked_get)

lemma dlist_init: "head \<in> dom h \<Longrightarrow> \<exists>h'. INIT_LIST_HEAD (Some head) h = Some h' \<and> dlist h' head [] \<and> relinked h [(head, Some head)] [(head, Some head)] h'"
  using set_blink_step [OF relinked_refl, of head h "Some head"] set_flink_step [of h "[]" "[(head, Some head)]" _ head "Some head"]
    linked_relinked [of h "[(head, Some head)]" "[(head, Some head)]" _ head head]
  by (fastforce simp: INIT_LIST_HEAD_def dlist_def)

lemma dlist_add_head:
  assumes "dlist h head xs" and "new \<in> dom h" and "new \<notin> set (head # xs)"
  shows "\<exists>h'. list_add_head (Some new) (Some head) h = Some (h', Some head) \<and> dlist h' head (new # xs) \<and> dom h' = dom h"
proof (cases xs)
  case Nil
  with assms have "linked h head head" "new \<noteq> head" by (auto simp: dlist_def)
  from list_add_head_links [OF this(1) assms(2) this(2) this(2)] obtain h' where
    h': "list_add_head (Some new) (Some head) h = Some (h', Some head)"
      "relinked h [(head, Some new), (new, Some head)] [(head, Some new), (new, Some head)] h'" by blast
  from linked_relinked [OF h'(2), of head new] linked_relinked [OF h'(2), of new head] \<open>new \<noteq> head\<close>
  have "dlist h' head [new]" by (simp add: dlist_def)
  with h' Nil relinked_dom [OF h'(2)] show ?thesis by simp
next
  case (Cons x ys)
  with assms have x: "linked h head x" "chain h x ys head" "new \<noteq> head" "new \<noteq> x" "distinct (new # head # x # ys)"
    by (auto simp: dlist_def)
  from list_add_head_links [OF x(1) assms(2) x(3,4)] obtain h' where
    h': "list_add_head (Some new) (Some head) h = Some (h', Some head)"
      "relinked h [(head, Some new), (new, Some x)] [(x, Some new), (new, Some head)] h'" by blast
  have "linked h' head new" "linked h' new x"
    by (rule linked_relinked [OF h'(2)], use x in simp_all)+
  moreover have "chain h' x ys head" by (rule chain_relinked [OF h'(2) x(2)]) (use x in auto)
  ultimately have "dlist h' head (new # xs)" using x(5) by (auto simp: dlist_def Cons)
  with h' relinked_dom [OF h'(2)] show ?thesis by simp
qed

lemma dlist_add_tail:
  assumes "dlist h head xs" and "new \<in> dom h" and "new \<notin> set (head # xs)"
  shows "\<exists>h'. list_add_tail (Some new) (Some head) h = Some (h', Some head) \<and> dlist h' head (xs @ [new]) \<and> dom h' = dom h"
proof (cases xs rule: rev_cases)
  case Nil
  with assms have "linked h head head" "new \<noteq> head" by (auto simp: dlist_def)
  from list_add_tail_links [OF this(1) assms(2) this(2) this(2)] obtain h' where
    h': "list_add_tail (Some new) (Some head) h = Some (h', Some head)"
      "relinked h [(head, Some new), (new, Some head)] [(head, Some new), (new, Some head)] h'" by blast
  from linked_relinked [OF h'(2), of head new] linked_relinked [OF h'(2), of new head] \<open>new \<noteq> head\<close>
  have "dlist h' head [new]" by (simp add: dlist_def)
  with h' Nil relinked_dom [OF h'(2)] show ?thesis by simp
next
  case (snoc ys x)
  with assms have x: "linked h x head" "chain h head ys x" "new \<noteq> head" "new \<noteq> x" "distinct (new # head # x # ys)"
    by (auto simp: dlist_def chain_append)
  from list_add_tail_links [OF x(1) assms(2) x(3,4)] obtain h' where
    h': "list_add_tail (Some new) (Some head) h = Some (h', Some head)"
      "relinked h [(x, Some new), (new, Some head)] [(head, Some new), (new, Some x)] h'" by blast
  have "linked h' x new" "linked h' new head"
    by (rule linked_relinked [OF h'(2)], use x in simp_all)+
  moreover have "chain h' head ys x" by (rule chain_relinked [OF h'(2) x(2)]) (use x in auto)
  ultimately have "dlist h' head (xs @ [new])" using x(5) by (auto simp: dlist_def snoc chain_append)
  with h' relinked_dom [OF h'(2)] show ?thesis by simp
qed

text \<open>Removing an entry: a chain through it is closed over the gap.\<close>

lemma chain_remove:
  assumes "chain h a (xs @ x # ys) z" and "distinct (xs @ x # ys)" and "x \<noteq> a" and "x \<noteq> z"
    and "a \<notin> set (xs @ ys)" and "z \<notin> set (xs @ ys)"
  obtains h' where "list_del (Some x) h = Some h'"
    "relinked h [(x, None), (last (a # xs), Some (hd (ys @ [z])))] [(x, None), (hd (ys @ [z]), Some (last (a # xs)))] h'"
    "chain h' a (xs @ ys) z"
proof -
  let ?b = "last (a # xs)" and ?f = "hd (ys @ [z])"
  have b: "linked h ?b x" and f: "linked h x ?f"
    using assms(1) by (cases xs rule: rev_cases; cases ys; auto simp: chain_append)+
  have "x \<noteq> ?b" "x \<noteq> ?f"
    using assms by (cases xs rule: rev_cases; cases ys; auto)+
  from list_del_links [OF b f this] obtain h' where
    h': "list_del (Some x) h = Some h'" "relinked h [(x, None), (?b, Some ?f)] [(x, None), (?f, Some ?b)] h'" by blast
  have bf: "linked h' ?b ?f" by (rule linked_relinked [OF h'(2)]) (use \<open>x \<noteq> ?b\<close> \<open>x \<noteq> ?f\<close> in simp_all)
  have pre: "chain h' a us u" if "xs = us @ [u]" for us u
    by (rule chain_relinked [OF h'(2)]) (use assms that in \<open>cases ys; auto simp: chain_append\<close>)+
  have post: "chain h' v vs z" if "ys = v # vs" for v vs
    by (rule chain_relinked [OF h'(2)]) (use assms that in \<open>cases xs rule: rev_cases; auto simp: chain_append\<close>)+
  have "chain h' a (xs @ ys) z"
    using bf pre post by (cases xs rule: rev_cases; cases ys) (simp_all add: chain_append)
  with h' show thesis by (rule that)
qed


section \<open>Iteration\<close>

lemma each_loop_fold:
  assumes "chain h a xs z" and "z \<notin> set xs" and "\<forall>x \<in> set xs. \<forall>s. body (Some x) (h, s) = Some (h, g x s)"
  shows "\<exists>p. get_flink h (Some a) = Some p \<and> each_loop get_flink body (Some z) p (h, s) = Some (h, fold g xs s)"
  using assms
proof (induction xs arbitrary: a s)
  case Nil
  then show ?case by (auto simp: linked_def each_loop.simps)
next
  case (Cons x xs)
  from Cons.IH [of x "g x s"] Cons.prems obtain p where "get_flink h (Some x) = Some p"
    "each_loop get_flink body (Some z) p (h, g x s) = Some (h, fold g xs (g x s))"
    by auto
  with Cons.prems show ?case by (auto simp: linked_def each_loop.simps [of _ _ _ "Some x"])
qed

lemma each_loop_fold_reverse:
  assumes "chain h a xs z" and "a \<notin> set xs" and "\<forall>x \<in> set xs. \<forall>s. body (Some x) (h, s) = Some (h, g x s)"
  shows "\<exists>p. get_blink h (Some z) = Some p \<and> each_loop get_blink body (Some a) p (h, s) = Some (h, fold g (rev xs) s)"
  using assms
proof (induction xs arbitrary: z s rule: rev_induct)
  case Nil
  then show ?case by (auto simp: linked_def each_loop.simps)
next
  case (snoc x xs)
  from snoc.IH [of x "g x s"] snoc.prems obtain p where "get_blink h (Some x) = Some p"
    "each_loop get_blink body (Some a) p (h, g x s) = Some (h, fold g (rev xs) (g x s))"
    by (auto simp: chain_append)
  with snoc.prems show ?case by (auto simp: linked_def chain_append each_loop.simps [of _ _ _ "Some x"])
qed

lemma list_for_each_fold:
  assumes "dlist h head xs" and "\<And>x s. x \<in> set xs \<Longrightarrow> body (Some x) (h, s) = Some (h, g x s)"
  shows "list_for_each body (Some head) (h, s) = Some (h, fold g xs s)"
    and "list_for_each_reverse body (Some head) (h, s) = Some (h, fold g (rev xs) s)"
  using each_loop_fold [of h head xs head body g s] each_loop_fold_reverse [of h head xs head body g s] assms
  by (auto simp: dlist_def list_for_each_def list_for_each_reverse_def)

text \<open>One step of a safe loop: the body may take the current entry out of the list, as long as the chain from the previous entry that is kept
  to the rest stays linked.\<close>

definition discards :: "(addr \<Rightarrow> bool) \<Rightarrow> 's body \<Rightarrow> bool" where
  "discards keep body \<longleftrightarrow> (\<forall>x h s. body (Some x) (h, s) =
     (if keep x then Some (h, s) else do { h \<leftarrow> list_del (Some x) h; Some (h(x := None), s) }))"

lemma chain_freed: "x \<notin> set (a # xs @ [z]) \<Longrightarrow> chain (h(x := None)) a xs z = chain h a xs z"
  by (rule chain_cong) (auto simp: get_flink_def get_blink_def)

lemma each_safe_filter:
  assumes body: "discards keep body" and "chain h head (ks @ xs) head" and "distinct (head # ks @ xs)"
  shows "\<exists>h' p n. get_flink h (Some (last (head # ks))) = Some p \<and> get_flink h p = Some n \<and>
    each_safe_loop get_flink body (Some head) p n (h, s) = Some (h', s) \<and>
    dlist h' head (ks @ filter keep xs) \<and> dom h' = dom h - {x \<in> set xs. \<not> keep x}"
  using assms(2,3)
proof (induction xs arbitrary: ks h)
  case Nil
  have "linked h (last (head # ks)) head"
    using Nil.prems(1) by (cases ks rule: rev_cases) (auto simp: chain_append)
  moreover obtain n where "get_flink h (Some head) = Some n"
    using chain_dom [OF Nil.prems(1)] by (auto simp: get_flink_def)
  ultimately show ?case using Nil.prems by (auto simp: linked_def each_safe_loop.simps dlist_def)
next
  case (Cons x xs)
  have x: "linked h (last (head # ks)) x" using Cons.prems(1) by (cases ks rule: rev_cases) (auto simp: chain_append)
  let ?n = "hd (xs @ [head])"
  have n: "linked h x ?n" using Cons.prems(1) by (cases xs) (auto simp: chain_append)
  have neq: "x \<noteq> head" using Cons.prems(2) by auto
  show ?case
  proof (cases "keep x")
    case True
    have "chain h head ((ks @ [x]) @ xs) head" "distinct (head # (ks @ [x]) @ xs)" using Cons.prems by simp_all
    from Cons.IH [OF this] x n neq True body show ?thesis
      by (auto simp: linked_def discards_def each_safe_loop.simps [of _ _ _ "Some x"])
  next
    case False
    have "x \<noteq> last (head # ks)" "x \<noteq> ?n" using Cons.prems(2) by (cases ks rule: rev_cases; cases xs; auto)+
    obtain h1 where h1: "list_del (Some x) h = Some h1"
      "relinked h [(x, None), (last (head # ks), Some ?n)] [(x, None), (?n, Some (last (head # ks)))] h1"
      "chain h1 head (ks @ xs) head"
      by (rule chain_remove [OF Cons.prems(1)]) (use Cons.prems(2) in auto)
    let ?h = "h1(x := None)"
    have c: "chain ?h head (ks @ xs) head" using h1(3) Cons.prems(2) by (subst chain_freed) auto
    moreover have "distinct (head # ks @ xs)" using Cons.prems(2) by auto
    ultimately obtain h' p m where IH: "get_flink ?h (Some (last (head # ks))) = Some p" "get_flink ?h p = Some m"
      "each_safe_loop get_flink body (Some head) p m (?h, s) = Some (h', s)"
      "dlist h' head (ks @ filter keep xs)" "dom h' = dom ?h - {x \<in> set xs. \<not> keep x}"
      using Cons.IH by blast
    have "get_flink ?h (Some (last (head # ks))) = Some (Some ?n)"
      using relinked_get(1) [OF h1(2), of "last (head # ks)"] \<open>x \<noteq> last (head # ks)\<close>
      by (auto simp: get_flink_def split: if_splits)
    with IH(1) have "p = Some ?n" by simp
    with IH x n neq False body h1(1) relinked_dom [OF h1(2)] show ?thesis
      by (auto simp: linked_def discards_def each_safe_loop.simps [of _ _ _ "Some x"])
  qed
qed


text \<open>The loop of \<^verbatim>\<open>nbt_filter_inplace\<close> at the level of the links: \<open>keep\<close> says whether the filtered data of an entry is not \<open>NULL\<close>; other entries
  are unlinked and freed. The loop of \<^verbatim>\<open>nbt_free_list\<close> frees every entry without unlinking it; \<^verbatim>\<open>free\<close> of an address that is not allocated is
  undefined. \<open>collect\<close> records the entries it is called for.\<close>

definition filter_step :: "(addr \<Rightarrow> bool) \<Rightarrow> 's body" where
  "filter_step keep pos = (\<lambda>(h, s). do {
     x \<leftarrow> pos;
     if keep x then Some (h, s)
     else do { h \<leftarrow> list_del pos h; Some (h(x := None), s) } })"

definition free_step :: "addr list body" where
  "free_step pos = (\<lambda>(h, s). do { x \<leftarrow> pos; if h x = None then None else Some (h(x := None), s @ [x]) })"

definition collect :: "addr list body" where
  "collect pos = (\<lambda>(h, s). do { x \<leftarrow> pos; Some (h, s @ [x]) })"

lemma filter_step_discards: "discards keep (filter_step keep)"
  by (simp add: discards_def filter_step_def)

text \<open>The front links alone, which is all the freeing loop reads.\<close>

fun fpath :: "links \<Rightarrow> addr \<Rightarrow> addr list \<Rightarrow> addr \<Rightarrow> bool" where
  "fpath h p [] z = (p = z)"
| "fpath h p (x # xs) z = (p = x \<and> (\<exists>q. get_flink h (Some x) = Some (Some q) \<and> fpath h q xs z))"

lemma chain_fpath: "chain h a xs z \<Longrightarrow> \<exists>p. get_flink h (Some a) = Some (Some p) \<and> fpath h p xs z"
  by (induction xs arbitrary: a) (auto simp: linked_def)

lemma fpath_freed: "x \<notin> set xs \<Longrightarrow> fpath (h(x := None)) p xs z = fpath h p xs z"
  by (induction xs arbitrary: p) (auto simp: get_flink_def)

lemma each_safe_free:
  assumes "fpath h p xs z" and "distinct (z # xs)" and "z \<in> dom h"
  shows "\<exists>n. get_flink h (Some p) = Some n \<and>
    each_safe_loop get_flink free_step (Some z) (Some p) n (h, s) = Some (h |` (- set xs), s @ xs)"
  using assms
proof (induction xs arbitrary: h p s)
  case Nil
  then show ?case by (auto simp: get_flink_def each_safe_loop.simps)
next
  case (Cons x xs)
  then obtain q where q: "p = x" "get_flink h (Some x) = Some (Some q)" "fpath h q xs z" by auto
  then have alloc: "h x \<noteq> None" by (auto simp: get_flink_def split: Option.bind_splits)
  have "fpath (h(x := None)) q xs z" using q(3) Cons.prems(2) by (simp add: fpath_freed)
  moreover have "distinct (z # xs)" and "z \<in> dom (h(x := None))" using Cons.prems by auto
  ultimately have "\<exists>n. get_flink (h(x := None)) (Some q) = Some n \<and>
      each_safe_loop get_flink free_step (Some z) (Some q) n (h(x := None), s @ [x]) =
        Some (h(x := None) |` (- set xs), (s @ [x]) @ xs)"
    by (rule Cons.IH)
  then obtain n where n: "get_flink (h(x := None)) (Some q) = Some n"
    "each_safe_loop get_flink free_step (Some z) (Some q) n (h(x := None), s @ [x]) =
        Some (h(x := None) |` (- set xs), (s @ [x]) @ xs)" by blast
  have "h(x := None) |` (- set xs) = h |` (- set (x # xs))" by (auto simp: restrict_map_def fun_eq_iff)
  moreover have "free_step (Some x) (h, s) = Some (h(x := None), s @ [x])" using alloc by (auto simp: free_step_def)
  ultimately show ?case using n q Cons.prems(2) by (auto simp: each_safe_loop.simps [of _ _ _ "Some x"])
qed

lemma fold_append: "fold (\<lambda>x s. s @ [x]) xs s = s @ xs"
  by (induction xs arbitrary: s) simp_all

lemma fold_count: "fold (\<lambda>x s. s + 1) xs s = s + (of_nat (length xs) :: u64)"
  by (induction xs arbitrary: s) simp_all

lemma list_length_dlist: "dlist h head xs \<Longrightarrow> list_length h (Some head) = Some (of_nat (length xs))"
  using list_for_each_fold(1) [of h head xs "\<lambda>pos (h, accum). Some (h, accum + 1)" "\<lambda>x s. s + 1" "0 :: u64"]
  by (simp add: list_length_def fold_count)

lemma list_empty_dlist: "dlist h head xs \<Longrightarrow> list_empty h (Some head) = Some (xs = [])"
  by (cases xs) (auto simp: dlist_def linked_def list_empty_def)

lemma collect_dlist:
  assumes "dlist h head xs"
  shows "list_for_each collect (Some head) (h, []) = Some (h, xs)"
    and "list_for_each_reverse collect (Some head) (h, []) = Some (h, rev xs)"
  using list_for_each_fold [OF assms, of collect "\<lambda>x s. s @ [x]" "[]"] by (simp_all add: collect_def fold_append)

section \<open>Building a list\<close>

text \<open>What the parser and the copying functions rely on when they build a list entry by entry: one addition extends what the list represents at
  its end. Both ends of the intrusive list are such a builder; additions at the head represent the reversed list.\<close>

fun add_all :: "(addr \<Rightarrow> links \<Rightarrow> links option) \<Rightarrow> addr list \<Rightarrow> links \<Rightarrow> links option" where
  "add_all add [] h = Some h"
| "add_all add (x # xs) h = do { h \<leftarrow> add x h; add_all add xs h }"

locale list_builder =
  fixes rep :: "links \<Rightarrow> addr list \<Rightarrow> bool"
    and add :: "addr \<Rightarrow> links \<Rightarrow> links option"
    and head :: addr
  assumes add_law: "rep h xs \<Longrightarrow> x \<in> dom h \<Longrightarrow> x \<notin> set (head # xs) \<Longrightarrow>
    \<exists>h'. add x h = Some h' \<and> rep h' (xs @ [x]) \<and> dom h' = dom h"
begin

lemma build:
  "rep h ys \<Longrightarrow> distinct (head # ys @ xs) \<Longrightarrow> set xs \<subseteq> dom h \<Longrightarrow>
     \<exists>h'. add_all add xs h = Some h' \<and> rep h' (ys @ xs) \<and> dom h' = dom h"
proof (induction xs arbitrary: h ys)
  case (Cons x xs)
  from Cons.prems add_law [of h ys x] obtain h1 where h1: "add x h = Some h1" "rep h1 (ys @ [x])" "dom h1 = dom h" by auto
  from Cons.IH [OF h1(2)] Cons.prems h1 show ?case by auto
qed simp

end

definition add_tail :: "addr \<Rightarrow> addr \<Rightarrow> links \<Rightarrow> links option" where
  "add_tail head x h = map_option fst (list_add_tail (Some x) (Some head) h)"

definition add_head :: "addr \<Rightarrow> addr \<Rightarrow> links \<Rightarrow> links option" where
  "add_head head x h = map_option fst (list_add_head (Some x) (Some head) h)"

interpretation at_tail: list_builder "\<lambda>h xs. dlist h head xs" "add_tail head" head for head
  by unfold_locales (use dlist_add_tail in \<open>fastforce simp: add_tail_def\<close>)

interpretation at_head: list_builder "\<lambda>h xs. dlist h head (rev xs)" "add_head head" head for head
  by unfold_locales (use dlist_add_head in \<open>fastforce simp: add_head_def\<close>)

section \<open>Properties\<close>

text \<open>C23. The intrusive list represents a sequence: starting from \<^verbatim>\<open>INIT_LIST_HEAD\<close>, adding distinct allocated entries with \<^verbatim>\<open>list_add_tail\<close> makes
  \<^verbatim>\<open>list_for_each\<close> visit them in that order, \<^verbatim>\<open>list_for_each_reverse\<close> in the opposite order and \<^verbatim>\<open>list_length\<close> count them; with \<^verbatim>\<open>list_add_head\<close> the
  links represent the reversed sequence, the two directions are exchanged and the count is the same. No access is undefined and all loops end.\<close>

theorem list_build_iterate:
  assumes "distinct (head # xs)" and "set (head # xs) \<subseteq> dom h"
  shows "\<exists>h0 h1 h2. INIT_LIST_HEAD (Some head) h = Some h0 \<and> list_empty h0 (Some head) = Some True \<and>
    add_all (add_tail head) xs h0 = Some h1 \<and> dlist h1 head xs \<and> list_length h1 (Some head) = Some (of_nat (length xs)) \<and>
    list_for_each collect (Some head) (h1, []) = Some (h1, xs) \<and>
    list_for_each_reverse collect (Some head) (h1, []) = Some (h1, rev xs) \<and>
    add_all (add_head head) xs h0 = Some h2 \<and> dlist h2 head (rev xs) \<and> list_length h2 (Some head) = Some (of_nat (length xs)) \<and>
    list_for_each collect (Some head) (h2, []) = Some (h2, rev xs) \<and>
    list_for_each_reverse collect (Some head) (h2, []) = Some (h2, xs)"
proof -
  from assms(2) dlist_init [of head h] obtain h0 where h0: "INIT_LIST_HEAD (Some head) h = Some h0" "dlist h0 head []" "dom h0 = dom h"
    by (auto simp: relinked_def)
  have x: "set xs \<subseteq> dom h0" "distinct (head # [] @ xs)" using assms h0(3) by auto
  from at_tail.build [OF h0(2) x(2,1)] obtain h1 where h1: "add_all (add_tail head) xs h0 = Some h1" "dlist h1 head xs" by auto
  from at_head.build [of h0 head "[]", OF _ x(2,1)] h0(2) obtain h2 where
    h2: "add_all (add_head head) xs h0 = Some h2" "dlist h2 head (rev xs)" by auto
  from h0 h1 h2 list_length_dlist [OF h1(2)] list_length_dlist [OF h2(2)] collect_dlist [OF h1(2)] collect_dlist [OF h2(2)]
    list_empty_dlist [OF h0(2)]
  show ?thesis by simp
qed

definition cells_heap :: links where
  "cells_heap = (\<lambda>a. if a < 4 then Some \<lparr>blink = None, flink = None\<rparr> else None)"

theorem list_build_iterate_witness:
  "\<exists>h0 h1 h2. INIT_LIST_HEAD (Some 0) cells_heap = Some h0 \<and> list_empty h0 (Some 0) = Some True \<and>
    add_all (add_tail 0) [2, 1, 3] h0 = Some h1 \<and> dlist h1 0 [2, 1, 3] \<and>
    list_length h1 (Some 0) = Some (of_nat (length [2 :: addr, 1, 3])) \<and>
    list_for_each collect (Some 0) (h1, []) = Some (h1, [2, 1, 3]) \<and>
    list_for_each_reverse collect (Some 0) (h1, []) = Some (h1, rev [2, 1, 3]) \<and>
    add_all (add_head 0) [2, 1, 3] h0 = Some h2 \<and> dlist h2 0 (rev [2, 1, 3]) \<and>
    list_length h2 (Some 0) = Some (of_nat (length [2 :: addr, 1, 3])) \<and>
    list_for_each collect (Some 0) (h2, []) = Some (h2, rev [2, 1, 3]) \<and>
    list_for_each_reverse collect (Some 0) (h2, []) = Some (h2, [2, 1, 3])"
  by (rule list_build_iterate) (simp_all add: cells_heap_def dom_def)

text \<open>C24. Filtering in place: the loop of \<^verbatim>\<open>nbt_filter_inplace\<close>, which unlinks and frees entries while \<^verbatim>\<open>list_for_each_safe\<close> runs over them, leaves a
  list of exactly the entries that are kept, in order, with exactly the others freed; no link of a freed entry is read.\<close>

theorem list_filter_inplace:
  assumes "dlist h head xs"
  shows "\<exists>h'. list_for_each_safe (filter_step keep) (Some head) (h, s) = Some (h', s) \<and>
    dlist h' head (filter keep xs) \<and> dom h' = dom h - {x \<in> set xs. \<not> keep x}"
  using each_safe_filter [OF filter_step_discards, of h head "[]" xs keep s] assms
  by (auto simp: dlist_def list_for_each_safe_def)

definition ring3 :: links where
  "ring3 = [0 \<mapsto> \<lparr>blink = Some 2, flink = Some 1\<rparr>, 1 \<mapsto> \<lparr>blink = Some 0, flink = Some 2\<rparr>,
     2 \<mapsto> \<lparr>blink = Some 1, flink = Some 0\<rparr>]"

lemma ring3_dlist: "dlist ring3 0 [1, 2]"
  by (simp add: dlist_def linked_def ring3_def get_flink_def get_blink_def)

theorem list_filter_inplace_witness:
  "\<exists>h'. list_for_each_safe (filter_step (\<lambda>x. x = 2)) (Some 0) (ring3, ()) = Some (h', ()) \<and>
    dlist h' 0 (filter (\<lambda>x. x = 2) [1, 2]) \<and> dom h' = dom ring3 - {x \<in> set [1, 2]. x \<noteq> 2}"
  by (rule list_filter_inplace [OF ring3_dlist])

text \<open>Freeing a list: the loop of \<^verbatim>\<open>nbt_free_list\<close> frees every entry exactly once, in order, with \<^verbatim>\<open>list_for_each_safe\<close>; with plain
  \<^verbatim>\<open>list_for_each\<close> the same body makes the loop read the link of a freed entry, whatever the list, unless it is empty.\<close>

theorem list_free_safe:
  assumes "dlist h head xs"
  shows "list_for_each_safe free_step (Some head) (h, []) = Some (h |` (- set xs), xs) \<and>
    (xs \<noteq> [] \<longrightarrow> list_for_each free_step (Some head) (h, []) = None)"
proof -
  from assms chain_fpath [of h head xs head] obtain p where p: "get_flink h (Some head) = Some (Some p)" "fpath h p xs head"
    by (auto simp: dlist_def)
  moreover have "head \<in> dom h" "distinct (head # xs)" using dlist_dom [OF assms] assms by (auto simp: dlist_def)
  ultimately have "list_for_each_safe free_step (Some head) (h, []) = Some (h |` (- set xs), xs)"
    using each_safe_free [of h p xs head "[]"] by (auto simp: list_for_each_safe_def)
  moreover have "list_for_each free_step (Some head) (h, []) = None" if "xs \<noteq> []"
  proof -
    from that p(2) assms have "p \<noteq> head" by (cases xs) (auto simp: dlist_def)
    then show ?thesis using p(1)
      by (auto simp: list_for_each_def each_loop.simps [of _ _ _ "Some p"] free_step_def get_flink_def)
  qed
  ultimately show ?thesis by blast
qed

theorem list_free_safe_witness:
  "list_for_each_safe free_step (Some 0) (ring3, []) = Some (ring3 |` (- set [1, 2]), [1, 2]) \<and>
    ([1 :: addr, 2] \<noteq> [] \<longrightarrow> list_for_each free_step (Some 0) (ring3, []) = None)"
  by (rule list_free_safe [OF ring3_dlist])

text \<open>\<^verbatim>\<open>list_del\<close> takes exactly the given entry out of the list, leaves its links \<open>NULL\<close> and changes no other entry than its two neighbours.\<close>

theorem list_del_refines:
  assumes "dlist h head (xs @ x # ys)"
  shows "\<exists>h'. list_del (Some x) h = Some h' \<and> dlist h' head (xs @ ys) \<and> h' x = Some \<lparr>blink = None, flink = None\<rparr> \<and>
    dom h' = dom h \<and> (\<forall>a. a \<notin> {x, last (head # xs), hd (ys @ [head])} \<longrightarrow>
      get_flink h' (Some a) = get_flink h (Some a) \<and> get_blink h' (Some a) = get_blink h (Some a))"
proof -
  from assms have c: "chain h head (xs @ x # ys) head" and d: "distinct (head # xs @ x # ys)" by (auto simp: dlist_def)
  obtain h' where h': "list_del (Some x) h = Some h'"
    "relinked h [(x, None), (last (head # xs), Some (hd (ys @ [head])))] [(x, None), (hd (ys @ [head]), Some (last (head # xs)))] h'"
    "chain h' head (xs @ ys) head"
    by (rule chain_remove [OF c]) (use d in auto)
  have "get_flink h' (Some x) = Some None" "get_blink h' (Some x) = Some None" by (simp_all add: relinked_get [OF h'(2)])
  then have "h' x = Some \<lparr>blink = None, flink = None\<rparr>"
    by (auto simp: get_flink_def get_blink_def split: Option.bind_splits)
  with h' d relinked_dom [OF h'(2)] show ?thesis by (auto simp: dlist_def relinked_get [OF h'(2)])
qed

theorem list_del_refines_witness:
  "\<exists>h'. list_del (Some 1) ring3 = Some h' \<and> dlist h' 0 ([] @ [2]) \<and> h' 1 = Some \<lparr>blink = None, flink = None\<rparr> \<and>
    dom h' = dom ring3 \<and> (\<forall>a. a \<notin> {1, last [0], hd ([2] @ [0])} \<longrightarrow>
      get_flink h' (Some a) = get_flink ring3 (Some a) \<and> get_blink h' (Some a) = get_blink ring3 (Some a))"
  by (rule list_del_refines) (simp add: ring3_dlist del: One_nat_def)

end
