(* ===== verification/Codec.thy ===== *)
theory Codec
  imports Prelude
begin

text \<open>
  The contract between the protocol layer and the wire codecs of \<^verbatim>\<open>src/datautils.c\<close>. A type of the
  protocol has a wire image (\<open>wire x\<close>, the bytes another implementation of the protocol expects),
  and four C functions: \<^verbatim>\<open>enc_\<close> writes it, \<^verbatim>\<open>dec_\<close> reads it, \<^verbatim>\<open>size_\<close> says how much room the encoder
  needs and \<^verbatim>\<open>walk_\<close> says how long an encoded value in a receive buffer is. The locales below
  state what each promises; the theories of the types interpret them on the model's own
  functions, and the array lemmas proved here once serve every array of the protocol.
\<close>

section \<open>Loops over arrays\<close>

text \<open>
  \<^verbatim>\<open>for(int i = 0; i < n; i++) dest = enc(dest, items[i]);\<close> reads the first \<open>n\<close> elements of the
  array \<open>items\<close>; an array shorter than that is read out of bounds. \<^verbatim>\<open>dec_items\<close> is the decoding
  loop, which stops at the first \<open>NULL\<close> (here: at the first failure).
\<close>

definition arr_prefix :: "nat \<Rightarrow> 'a list \<Rightarrow> 'a list option" where
  "arr_prefix n xs = (if n \<le> length xs then Some (take n xs) else None)"

primrec enc_items :: "(ptr \<Rightarrow> 'a \<Rightarrow> ptr option) \<Rightarrow> ptr \<Rightarrow> 'a list \<Rightarrow> ptr option" where
  "enc_items enc dest [] = Some dest"
| "enc_items enc dest (x # xs) = do { dest' \<leftarrow> enc dest x; enc_items enc dest' xs }"

primrec dec_items :: "(ptr \<Rightarrow> ('a \<times> ptr) option) \<Rightarrow> nat \<Rightarrow> ptr \<Rightarrow> ('a list \<times> ptr) option" where
  "dec_items dec 0 source = Some ([], source)"
| "dec_items dec (Suc n) source =
     do { (x, source) \<leftarrow> dec source; (xs, source) \<leftarrow> dec_items dec n source; Some (x # xs, source) }"

lemma arr_prefix_all [simp]: "arr_prefix (length xs) xs = Some xs"
  by (simp add: arr_prefix_def)

section \<open>Interfaces\<close>

locale codec =
  fixes wf :: "'a \<Rightarrow> bool"
    and wire :: "'a \<Rightarrow> byte list"
    and enc :: "ptr \<Rightarrow> 'a \<Rightarrow> ptr option"
    and dec :: "ptr \<Rightarrow> ('a \<times> ptr) option"
  assumes enc_wire: "wf x \<Longrightarrow> enc dest x = Some (dest @ wire x)"
    and dec_wire: "wf x \<Longrightarrow> dec (wire x @ rest) = Some (x, rest)"
begin

lemma dec_enc: "wf x \<Longrightarrow> enc [] x = Some bs \<Longrightarrow> dec (bs @ rest) = Some (x, rest)"
  by (auto simp: enc_wire dec_wire)

text \<open>The wire images are uniquely readable: no image is a proper prefix of another.\<close>

lemma wire_prefix_free:
  assumes "wf x" and "wf y" and eq: "wire x @ r = wire y @ s"
  shows "x = y \<and> r = s"
proof -
  have "dec (wire x @ r) = Some (x, r)" using \<open>wf x\<close> by (rule dec_wire)
  moreover have "dec (wire x @ r) = Some (y, s)" unfolding eq using \<open>wf y\<close> by (rule dec_wire)
  ultimately show ?thesis by simp
qed

lemma enc_items_wire:
  "\<forall>x \<in> set xs. wf x \<Longrightarrow> enc_items enc dest xs = Some (dest @ concat (map wire xs))"
  by (induction xs arbitrary: dest) (simp_all add: enc_wire)

lemma dec_items_wire:
  "\<forall>x \<in> set xs. wf x \<Longrightarrow>
     dec_items dec (length xs) (concat (map wire xs) @ rest) = Some (xs, rest)"
  by (induction xs) (simp_all add: dec_wire)

end

text \<open>A codec whose \<^verbatim>\<open>size_\<close> function is exact: the caller that allocates \<open>size x\<close> bytes before
  encoding neither overflows the buffer nor sends trailing garbage.\<close>

locale sized_codec = codec wf wire enc dec
  for wf :: "'a \<Rightarrow> bool" and wire enc dec +
  fixes size_fn :: "'a \<Rightarrow> u64"
  assumes size_wire: "wf x \<Longrightarrow> size_fn x = of_nat (length (wire x))"
begin

lemma size_fits:
  assumes "wf x" and "length (wire x) < 2 ^ 64" and "enc [] x = Some bs"
  shows "length bs = unat (size_fn x)"
  using assms by (simp add: enc_wire size_wire unat_of_nat64)

end

text \<open>A codec whose \<^verbatim>\<open>walk_\<close> function recognises every encoded value that fits the buffer.\<close>

locale walked_codec = codec wf wire enc dec
  for wf :: "'a \<Rightarrow> bool" and wire enc dec +
  fixes walk :: "ptr \<Rightarrow> u64 \<Rightarrow> int option"
  assumes walk_wire: "wf x \<Longrightarrow> length (wire x) \<le> unat max_len \<Longrightarrow> int (length (wire x)) \<le> INT_MAX
    \<Longrightarrow> walk (wire x @ rest) max_len = Some (int (length (wire x)))"
begin

lemma walk_then_dec:
  assumes "wf x" and "length (wire x) \<le> unat max_len" and "int (length (wire x)) \<le> INT_MAX"
  shows "\<exists>n. walk (wire x @ rest) max_len = Some (int n) \<and>
    dec (wire x @ rest) = Some (x, drop n (wire x @ rest))"
  using walk_wire [OF assms, of rest] dec_wire [OF \<open>wf x\<close>, of rest] by auto

end

end
