(* ===== verification/Fixed.thy ===== *)
theory Fixed
  imports Codec
begin

text \<open>
  The fixed-width numeric types of \<^verbatim>\<open>src/datautils.c\<close> (lines 19--140): \<^verbatim>\<open>enc_byte\<close> to \<^verbatim>\<open>dec_lef64\<close>.
  The C code copies a machine word to or from memory with \<^verbatim>\<open>memcpy\<close> after converting its byte
  order with the \<^verbatim>\<open>endian.h\<close> functions, so the model has the memory image of a word on the
  little-endian host and the byte swap. A \<^verbatim>\<open>float\<close> or \<^verbatim>\<open>double\<close> is only copied bit by bit: it is
  represented by its 32 or 64 bits.
\<close>

section \<open>The memory image of a word\<close>

definition word_bytes :: "nat \<Rightarrow> 'a::len word \<Rightarrow> byte list" where
  "word_bytes n w = map (\<lambda>i. ucast (drop_bit (8 * i) w)) [0..<n]"

primrec bytes_word :: "byte list \<Rightarrow> 'a::len word" where
  "bytes_word [] = 0"
| "bytes_word (b # bs) = ucast b OR push_bit 8 (bytes_word bs)"

lemma length_word_bytes [simp]: "length (word_bytes n w) = n"
  by (simp add: word_bytes_def)

lemma bit_bytes_word:
  "bit (bytes_word bs :: 'a::len word) n \<longleftrightarrow>
     n < LENGTH('a) \<and> n div 8 < length bs \<and> bit (bs ! (n div 8)) (n mod 8)"
proof (induction bs arbitrary: n)
  case Nil
  then show ?case by simp
next
  case (Cons b bs)
  show ?case
  proof (cases "n < 8")
    case True
    then show ?thesis by (auto simp: bit_simps)
  next
    case False
    then obtain m where m: "n = m + 8" by (metis add.commute le_Suc_ex not_less)
    have "\<not> bit b (m + 8)" using bit_imp_le_length [of b "m + 8"] by auto
    moreover have "(m + 8) div 8 = Suc (m div 8)" by simp
    ultimately show ?thesis using Cons.IH [of m] m by (auto simp: bit_simps)
  qed
qed

lemma word_bytes_inverse:
  assumes "LENGTH('a) \<le> 8 * n"
  shows "bytes_word (word_bytes n w) = (w :: 'a::len word)"
proof (rule bit_word_eqI)
  fix i
  assume i: "i < LENGTH('a)"
  with assms have "i div 8 < n" by auto
  with i show "bit (bytes_word (word_bytes n w) :: 'a word) i = bit w i"
    by (simp add: bit_bytes_word word_bytes_def bit_simps)
qed

lemma bytes_word_inverse:
  assumes "length bs = n" and "8 * n \<le> LENGTH('a)"
  shows "word_bytes n (bytes_word bs :: 'a::len word) = bs"
proof (rule nth_equalityI)
  show "length (word_bytes n (bytes_word bs :: 'a word)) = length bs"
    using assms by simp
next
  fix i
  assume "i < length (word_bytes n (bytes_word bs :: 'a word))"
  then have i: "i < n" by simp
  show "word_bytes n (bytes_word bs :: 'a word) ! i = bs ! i"
  proof (rule bit_word_eqI)
    fix k
    assume "k < LENGTH(8)"
    then have "k < 8" by simp
    with i assms show "bit (word_bytes n (bytes_word bs :: 'a word) ! i) k = bit (bs ! i) k"
      by (auto simp: word_bytes_def bit_bytes_word bit_simps)
  qed
qed

text \<open>\<^verbatim>\<open>htobe\<close> and \<^verbatim>\<open>betoh\<close> reverse the bytes of a word on this host; \<^verbatim>\<open>htole\<close> and \<^verbatim>\<open>letoh\<close> do nothing.\<close>

definition mem_of :: "'a::len word \<Rightarrow> byte list" where
  "mem_of w = word_bytes (LENGTH('a) div 8) w"

definition bswap :: "'a::len word \<Rightarrow> 'a word" where
  "bswap w = bytes_word (rev (mem_of w))"

abbreviation (input) htobe :: "'a::len word \<Rightarrow> 'a word" where "htobe \<equiv> bswap"
abbreviation (input) betoh :: "'a::len word \<Rightarrow> 'a word" where "betoh \<equiv> bswap"
abbreviation (input) htole :: "'a::len word \<Rightarrow> 'a word" where "htole w \<equiv> w"
abbreviation (input) letoh :: "'a::len word \<Rightarrow> 'a word" where "letoh w \<equiv> w"

lemma length_mem_of [simp]: "length (mem_of (w :: 'a::len word)) = LENGTH('a) div 8"
  by (simp add: mem_of_def)

lemma mem_of_inverse: "8 dvd LENGTH('a) \<Longrightarrow> bytes_word (mem_of w) = (w :: 'a::len word)"
  by (auto simp: mem_of_def intro!: word_bytes_inverse)

lemma mem_of_bswap: "mem_of (bswap (w :: 'a::len word)) = rev (mem_of w)"
  unfolding bswap_def mem_of_def by (rule bytes_word_inverse) auto

lemma bytes_word_rev_rev:
  "8 dvd LENGTH('a) \<Longrightarrow> bswap (bytes_word (rev (mem_of w))) = (w :: 'a::len word)"
proof -
  assume dvd: "8 dvd LENGTH('a)"
  have "bswap (bswap w) = bytes_word (rev (rev (mem_of w)))"
    unfolding bswap_def [of "bswap w"] mem_of_bswap ..
  with dvd show ?thesis by (simp add: bswap_def [of w, symmetric] mem_of_inverse)
qed

section \<open>Encoders and decoders\<close>

definition enc_byte :: "ptr \<Rightarrow> byte \<Rightarrow> ptr" where
  "enc_byte dest source = dest @ [source]"

definition dec_byte :: "ptr \<Rightarrow> (byte \<times> ptr) option" where
  "dec_byte source = do { b \<leftarrow> deref source; source' \<leftarrow> adv 1 source; Some (b, source') }"

definition enc_be16 :: "ptr \<Rightarrow> u16 \<Rightarrow> ptr" where
  "enc_be16 dest source = dest @ mem_of (htobe source)"

definition dec_be16 :: "ptr \<Rightarrow> (u16 \<times> ptr) option" where
  "dec_be16 source = do { (m, source') \<leftarrow> memrd 2 source; Some (betoh (bytes_word m), source') }"

definition enc_be32 :: "ptr \<Rightarrow> u32 \<Rightarrow> ptr" where
  "enc_be32 dest source = dest @ mem_of (htobe source)"

definition dec_be32 :: "ptr \<Rightarrow> (u32 \<times> ptr) option" where
  "dec_be32 source = do { (m, source') \<leftarrow> memrd 4 source; Some (betoh (bytes_word m), source') }"

definition enc_be64 :: "ptr \<Rightarrow> u64 \<Rightarrow> ptr" where
  "enc_be64 dest source = dest @ mem_of (htobe source)"

definition dec_be64 :: "ptr \<Rightarrow> (u64 \<times> ptr) option" where
  "dec_be64 source = do { (m, source') \<leftarrow> memrd 8 source; Some (betoh (bytes_word m), source') }"

definition enc_le16 :: "ptr \<Rightarrow> u16 \<Rightarrow> ptr" where
  "enc_le16 dest source = dest @ mem_of (htole source)"

definition dec_le16 :: "ptr \<Rightarrow> (u16 \<times> ptr) option" where
  "dec_le16 source = do { (m, source') \<leftarrow> memrd 2 source; Some (letoh (bytes_word m), source') }"

definition enc_le32 :: "ptr \<Rightarrow> u32 \<Rightarrow> ptr" where
  "enc_le32 dest source = dest @ mem_of (htole source)"

definition dec_le32 :: "ptr \<Rightarrow> (u32 \<times> ptr) option" where
  "dec_le32 source = do { (m, source') \<leftarrow> memrd 4 source; Some (letoh (bytes_word m), source') }"

definition enc_le64 :: "ptr \<Rightarrow> u64 \<Rightarrow> ptr" where
  "enc_le64 dest source = dest @ mem_of (htole source)"

definition dec_le64 :: "ptr \<Rightarrow> (u64 \<times> ptr) option" where
  "dec_le64 source = do { (m, source') \<leftarrow> memrd 8 source; Some (letoh (bytes_word m), source') }"

text \<open>The floating-point codecs go through an integer \<open>i\<close> of the same width.\<close>

definition enc_bef32 :: "ptr \<Rightarrow> u32 \<Rightarrow> ptr" where
  "enc_bef32 dest source =
     (let i = htobe (bytes_word (mem_of source) :: u32) in dest @ mem_of i)"

definition dec_bef32 :: "ptr \<Rightarrow> (u32 \<times> ptr) option" where
  "dec_bef32 source =
     do { (m, source') \<leftarrow> memrd 4 source;
          let i = betoh (bytes_word m :: u32) in Some (bytes_word (mem_of i), source') }"

definition enc_bef64 :: "ptr \<Rightarrow> u64 \<Rightarrow> ptr" where
  "enc_bef64 dest source =
     (let i = htobe (bytes_word (mem_of source) :: u64) in dest @ mem_of i)"

definition dec_bef64 :: "ptr \<Rightarrow> (u64 \<times> ptr) option" where
  "dec_bef64 source =
     do { (m, source') \<leftarrow> memrd 8 source;
          let i = betoh (bytes_word m :: u64) in Some (bytes_word (mem_of i), source') }"

definition enc_lef32 :: "ptr \<Rightarrow> u32 \<Rightarrow> ptr" where
  "enc_lef32 dest source =
     (let i = htole (bytes_word (mem_of source) :: u32) in dest @ mem_of i)"

definition dec_lef32 :: "ptr \<Rightarrow> (u32 \<times> ptr) option" where
  "dec_lef32 source =
     do { (m, source') \<leftarrow> memrd 4 source;
          let i = letoh (bytes_word m :: u32) in Some (bytes_word (mem_of i), source') }"

definition enc_lef64 :: "ptr \<Rightarrow> u64 \<Rightarrow> ptr" where
  "enc_lef64 dest source =
     (let i = htole (bytes_word (mem_of source) :: u64) in dest @ mem_of i)"

definition dec_lef64 :: "ptr \<Rightarrow> (u64 \<times> ptr) option" where
  "dec_lef64 source =
     do { (m, source') \<leftarrow> memrd 8 source;
          let i = letoh (bytes_word m :: u64) in Some (bytes_word (mem_of i), source') }"

section \<open>Their contract\<close>

lemma mem_of_wire_be [simp]:
  "mem_of (bswap (w :: 'a::len word)) = rev (mem_of w)"
  by (rule mem_of_bswap)

lemmas mem_of_inverses [simp] =
  mem_of_inverse [where 'a = 16, simplified] mem_of_inverse [where 'a = 32, simplified]
  mem_of_inverse [where 'a = 64, simplified]
  bytes_word_rev_rev [where 'a = 16, simplified] bytes_word_rev_rev [where 'a = 32, simplified]
  bytes_word_rev_rev [where 'a = 64, simplified]

interpretation byte: codec "\<lambda>_. True" "\<lambda>b. [b]" "\<lambda>d x. Some (enc_byte d x)" dec_byte
  by unfold_locales (simp_all add: enc_byte_def dec_byte_def adv_def)

interpretation be16: codec "\<lambda>_. True" "\<lambda>w :: u16. rev (mem_of w)"
  "\<lambda>d x. Some (enc_be16 d x)" dec_be16
  by unfold_locales (simp_all add: enc_be16_def dec_be16_def memrd_append_eq)

interpretation be32: codec "\<lambda>_. True" "\<lambda>w :: u32. rev (mem_of w)"
  "\<lambda>d x. Some (enc_be32 d x)" dec_be32
  by unfold_locales (simp_all add: enc_be32_def dec_be32_def memrd_append_eq)

interpretation be64: codec "\<lambda>_. True" "\<lambda>w :: u64. rev (mem_of w)"
  "\<lambda>d x. Some (enc_be64 d x)" dec_be64
  by unfold_locales (simp_all add: enc_be64_def dec_be64_def memrd_append_eq)

interpretation bef32: codec "\<lambda>_. True" "\<lambda>w :: u32. rev (mem_of w)"
  "\<lambda>d x. Some (enc_bef32 d x)" dec_bef32
  by unfold_locales (simp_all add: enc_bef32_def dec_bef32_def memrd_append_eq)

interpretation bef64: codec "\<lambda>_. True" "\<lambda>w :: u64. rev (mem_of w)"
  "\<lambda>d x. Some (enc_bef64 d x)" dec_bef64
  by unfold_locales (simp_all add: enc_bef64_def dec_bef64_def memrd_append_eq)

interpretation le16: codec "\<lambda>_. True" "\<lambda>w :: u16. mem_of w"
  "\<lambda>d x. Some (enc_le16 d x)" dec_le16
  by unfold_locales (simp_all add: enc_le16_def dec_le16_def memrd_append_eq)

interpretation le32: codec "\<lambda>_. True" "\<lambda>w :: u32. mem_of w"
  "\<lambda>d x. Some (enc_le32 d x)" dec_le32
  by unfold_locales (simp_all add: enc_le32_def dec_le32_def memrd_append_eq)

interpretation le64: codec "\<lambda>_. True" "\<lambda>w :: u64. mem_of w"
  "\<lambda>d x. Some (enc_le64 d x)" dec_le64
  by unfold_locales (simp_all add: enc_le64_def dec_le64_def memrd_append_eq)

interpretation lef32: codec "\<lambda>_. True" "\<lambda>w :: u32. mem_of w"
  "\<lambda>d x. Some (enc_lef32 d x)" dec_lef32
  by unfold_locales (simp_all add: enc_lef32_def dec_lef32_def memrd_append_eq)

interpretation lef64: codec "\<lambda>_. True" "\<lambda>w :: u64. mem_of w"
  "\<lambda>d x. Some (enc_lef64 d x)" dec_lef64
  by unfold_locales (simp_all add: enc_lef64_def dec_lef64_def memrd_append_eq)

lemmas dec_fixed_wire [wire_simps] =
  byte.dec_wire [OF TrueI] be16.dec_wire [OF TrueI] be32.dec_wire [OF TrueI]
  be64.dec_wire [OF TrueI] bef32.dec_wire [OF TrueI] bef64.dec_wire [OF TrueI]

lemma dec_byte_Cons [simp]: "dec_byte (b # s) = Some (b, s)"
  by (simp add: dec_byte_def adv_def)

lemma dec_byte_Nil [simp]: "dec_byte [] = None"
  by (simp add: dec_byte_def)

text \<open>A decoder of \<open>n\<close> bytes is defined exactly when \<open>n\<close> bytes are there.\<close>

lemma dec_be16_eq: "2 \<le> length s \<Longrightarrow> dec_be16 s = Some (bswap (bytes_word (take 2 s)), drop 2 s)"
  by (simp add: dec_be16_def memrd_def)

lemma dec_be32_eq: "4 \<le> length s \<Longrightarrow> dec_be32 s = Some (bswap (bytes_word (take 4 s)), drop 4 s)"
  by (simp add: dec_be32_def memrd_def)

lemma dec_be32_rest: "dec_be32 s = Some (w, s') \<Longrightarrow> length s = length s' + 4"
  by (auto simp: dec_be32_def memrd_def split: if_splits)

lemma dec_be16_rest: "dec_be16 s = Some (w, s') \<Longrightarrow> length s = length s' + 2"
  by (auto simp: dec_be16_def memrd_def split: if_splits)

section \<open>Raw buffers\<close>

text \<open>
  \<^verbatim>\<open>enc_buffer\<close> copies \<open>len\<close> bytes from \<open>base\<close>; \<^verbatim>\<open>dec_buffer\<close> allocates first, and a failed allocation
  is the \<open>NULL\<close> result. \<open>mal n\<close> says whether \<^verbatim>\<open>malloc(n)\<close> returns memory; the results carry
  the value stored through the pointer and the returned pointer (\<open>None\<close> for \<open>NULL\<close>).
\<close>

record mc_buffer =
  buf_len :: u64
  buf_base :: "byte list"

definition enc_buffer :: "ptr \<Rightarrow> mc_buffer \<Rightarrow> ptr option" where
  "enc_buffer dest source =
     do { (bs, _) \<leftarrow> memrd (unat (buf_len source)) (buf_base source); Some (dest @ bs) }"

definition dec_buffer ::
  "(nat \<Rightarrow> bool) \<Rightarrow> ptr \<Rightarrow> u64 \<Rightarrow> (mc_buffer option \<times> ptr option) option" where
  "dec_buffer mal source len =
     (if \<not> mal (unat len) then Some (None, None)
      else do { (bs, source') \<leftarrow> memrd (unat len) source;
                Some (Some \<lparr>buf_len = len, buf_base = bs\<rparr>, Some source') })"

lemma enc_dec_buffer:
  assumes "length (buf_base b) = unat (buf_len b)" and "mal (unat (buf_len b))"
  shows "enc_buffer dest b = Some (dest @ buf_base b)"
    and "dec_buffer mal (buf_base b @ rest) (buf_len b) = Some (Some b, Some rest)"
  using assms by (simp_all add: enc_buffer_def dec_buffer_def memrd_def)

end
