(* ===== verification/NbtTree.thy ===== *)
theory NbtTree
  imports Fixed
begin

text \<open>
  The in-memory NBT tree of \<^verbatim>\<open>include/cNBT/nbt.h\<close> and the size functions of \<^verbatim>\<open>src/datautils.c\<close>
  (lines 313--378). A node is its name (a C string or NULL) and its payload; the payload's
  constructor is the member of the C union that the type tag selects. The doubly linked lists of
  child nodes are lists of nodes; the sentinel of a \<^verbatim>\<open>TAG_List\<close> carries the element type. The
  sizes are \<^verbatim>\<open>size_t\<close> values and wrap.

  The second half states what the tree stands for on the wire (\<open>wire_node\<close>), which trees are well
  formed, and how far the size functions are from the wire.
\<close>

section \<open>Data\<close>

text \<open>A C string is the bytes of its block without the terminator; a block that came from the wire may
  hold NUL bytes, and then \<^verbatim>\<open>strlen\<close> sees a prefix only.\<close>

type_synonym cstr = "byte list"

definition cstr_of :: "cstr \<Rightarrow> byte list" where
  "cstr_of s = takeWhile (\<lambda>c. c \<noteq> 0) s"

definition strlen :: "cstr \<Rightarrow> nat" where
  "strlen s = length (cstr_of s)"

datatype nbt_type = TAG_INVALID | TAG_BYTE | TAG_SHORT | TAG_INT | TAG_LONG | TAG_FLOAT | TAG_DOUBLE
  | TAG_BYTE_ARRAY | TAG_STRING | TAG_LIST | TAG_COMPOUND | TAG_INT_ARRAY | TAG_LONG_ARRAY
  | TAG_UNKNOWN byte

text \<open>The enumeration's values, and the cast of a byte to the enumeration (any byte is a value).\<close>

fun type_value :: "nbt_type \<Rightarrow> byte" where
  "type_value TAG_INVALID = 0"
| "type_value TAG_BYTE = 1"
| "type_value TAG_SHORT = 2"
| "type_value TAG_INT = 3"
| "type_value TAG_LONG = 4"
| "type_value TAG_FLOAT = 5"
| "type_value TAG_DOUBLE = 6"
| "type_value TAG_BYTE_ARRAY = 7"
| "type_value TAG_STRING = 8"
| "type_value TAG_LIST = 9"
| "type_value TAG_COMPOUND = 10"
| "type_value TAG_INT_ARRAY = 11"
| "type_value TAG_LONG_ARRAY = 12"
| "type_value (TAG_UNKNOWN b) = b"

definition nbt_type_of :: "byte \<Rightarrow> nbt_type" where
  "nbt_type_of b =
     (if b = 0 then TAG_INVALID else if b = 1 then TAG_BYTE else if b = 2 then TAG_SHORT
      else if b = 3 then TAG_INT else if b = 4 then TAG_LONG else if b = 5 then TAG_FLOAT
      else if b = 6 then TAG_DOUBLE else if b = 7 then TAG_BYTE_ARRAY else if b = 8 then TAG_STRING
      else if b = 9 then TAG_LIST else if b = 10 then TAG_COMPOUND else if b = 11 then TAG_INT_ARRAY
      else if b = 12 then TAG_LONG_ARRAY else TAG_UNKNOWN b)"

lemma type_value_of [simp]: "type_value (nbt_type_of b) = b"
  by (simp add: nbt_type_of_def)

datatype nbt_node = nbt_node (name: "cstr option") (payload: nbt_payload)
and nbt_payload =
    tag_end
  | tag_byte byte
  | tag_short u16
  | tag_int u32
  | tag_long u64
  | tag_float u32
  | tag_double u64
  | tag_byte_array "byte list option" u32
  | tag_string "cstr option"
  | tag_list "nbt_type option" "nbt_node list"
  | tag_compound "nbt_node list"
  | tag_int_array "u32 list option" u32
  | tag_long_array "u64 list option" u32
  | tag_unknown byte

fun payload_type :: "nbt_payload \<Rightarrow> nbt_type" where
  "payload_type tag_end = TAG_INVALID"
| "payload_type (tag_byte _) = TAG_BYTE"
| "payload_type (tag_short _) = TAG_SHORT"
| "payload_type (tag_int _) = TAG_INT"
| "payload_type (tag_long _) = TAG_LONG"
| "payload_type (tag_float _) = TAG_FLOAT"
| "payload_type (tag_double _) = TAG_DOUBLE"
| "payload_type (tag_byte_array _ _) = TAG_BYTE_ARRAY"
| "payload_type (tag_string _) = TAG_STRING"
| "payload_type (tag_list _ _) = TAG_LIST"
| "payload_type (tag_compound _) = TAG_COMPOUND"
| "payload_type (tag_int_array _ _) = TAG_INT_ARRAY"
| "payload_type (tag_long_array _ _) = TAG_LONG_ARRAY"
| "payload_type (tag_unknown b) = TAG_UNKNOWN b"

abbreviation type_of :: "nbt_node \<Rightarrow> nbt_type" where
  "type_of nd \<equiv> payload_type (payload nd)"

section \<open>Sizes\<close>

text \<open>
  \<^verbatim>\<open>size_unnamed_nbt\<close>, \<^verbatim>\<open>size_nbt_list\<close> and \<^verbatim>\<open>size_nbt_compound\<close>; the second and third are the loops over
  the children (the compound's starts at 1 for the terminator). A NULL string is dereferenced by
  \<^verbatim>\<open>strlen\<close>.
\<close>

fun size_unnamed_nbt :: "nbt_payload \<Rightarrow> u64 option"
  and size_nbt_list :: "u64 \<Rightarrow> nbt_node list \<Rightarrow> u64 option"
  and size_nbt_compound :: "u64 \<Rightarrow> nbt_node list \<Rightarrow> u64 option"
where
  "size_unnamed_nbt (tag_byte _) = Some 1"
| "size_unnamed_nbt (tag_short _) = Some 2"
| "size_unnamed_nbt (tag_int _) = Some 4"
| "size_unnamed_nbt (tag_long _) = Some 8"
| "size_unnamed_nbt (tag_float _) = Some 4"
| "size_unnamed_nbt (tag_double _) = Some 8"
| "size_unnamed_nbt (tag_byte_array _ n) = Some (4 + scast n)"
| "size_unnamed_nbt (tag_int_array _ n) = Some (4 + scast n * 4)"
| "size_unnamed_nbt (tag_long_array _ n) = Some (4 + scast n * 8)"
| "size_unnamed_nbt (tag_string None) = None"
| "size_unnamed_nbt (tag_string (Some s)) = Some (2 + of_nat (strlen s))"
| "size_unnamed_nbt (tag_list _ ns) = size_nbt_list 0 ns"
| "size_unnamed_nbt (tag_compound ns) = size_nbt_compound 1 ns"
| "size_unnamed_nbt tag_end = Some 0"
| "size_unnamed_nbt (tag_unknown _) = Some 0"
| "size_nbt_list sz [] = Some sz"
| "size_nbt_list sz (nbt_node _ p # ns) =
     do { s \<leftarrow> size_unnamed_nbt p; size_nbt_list (sz + s) ns }"
| "size_nbt_compound sz [] = Some sz"
| "size_nbt_compound sz (nbt_node nm p # ns) =
     (case nm of
        None \<Rightarrow> do { s \<leftarrow> size_unnamed_nbt p; size_nbt_compound (sz + (1 + 2 + s)) ns }
      | Some n \<Rightarrow> do { s \<leftarrow> size_unnamed_nbt p;
                       size_nbt_compound (sz + (1 + 2 + of_nat (strlen n)) + s) ns })"

definition size_nbt :: "nbt_node \<Rightarrow> u64 option" where
  "size_nbt nbt =
     (case name nbt of
        None \<Rightarrow> do { s \<leftarrow> size_unnamed_nbt (payload nbt); Some (1 + 2 + s) }
      | Some n \<Rightarrow> do { s \<leftarrow> size_unnamed_nbt (payload nbt); Some (1 + 2 + of_nat (strlen n) + s) })"

section \<open>The wire image\<close>

definition wire_cstr :: "cstr \<Rightarrow> byte list" where
  "wire_cstr s = rev (mem_of (of_nat (strlen s) :: u16)) @ cstr_of s"

definition wire_name :: "cstr option \<Rightarrow> byte list" where
  "wire_name nm = (case nm of None \<Rightarrow> [] | Some n \<Rightarrow> wire_cstr n)"

definition wire_len :: "nat \<Rightarrow> byte list" where
  "wire_len n = rev (mem_of (of_nat n :: u32))"

text \<open>The type a list is written with: its elements' type, or the sentinel's when it is empty.\<close>

definition list_type :: "nbt_type option \<Rightarrow> nbt_node list \<Rightarrow> nbt_type" where
  "list_type st ns = (case ns of [] \<Rightarrow> (case st of None \<Rightarrow> TAG_INVALID | Some t \<Rightarrow> t) | n # _ \<Rightarrow> type_of n)"

fun wire_payload :: "nbt_payload \<Rightarrow> byte list"
  and wire_elems :: "nbt_node list \<Rightarrow> byte list"
  and wire_members :: "nbt_node list \<Rightarrow> byte list"
where
  "wire_payload (tag_byte w) = [w]"
| "wire_payload (tag_short w) = rev (mem_of w)"
| "wire_payload (tag_int w) = rev (mem_of w)"
| "wire_payload (tag_long w) = rev (mem_of w)"
| "wire_payload (tag_float w) = rev (mem_of w)"
| "wire_payload (tag_double w) = rev (mem_of w)"
| "wire_payload (tag_byte_array d n) = rev (mem_of n) @ (case d of None \<Rightarrow> [] | Some bs \<Rightarrow> bs)"
| "wire_payload (tag_int_array d n) =
     rev (mem_of n) @ (case d of None \<Rightarrow> [] | Some ws \<Rightarrow> concat (map (\<lambda>w. rev (mem_of w)) ws))"
| "wire_payload (tag_long_array d n) =
     rev (mem_of n) @ (case d of None \<Rightarrow> [] | Some ws \<Rightarrow> concat (map (\<lambda>w. rev (mem_of w)) ws))"
| "wire_payload (tag_string s) = wire_name s"
| "wire_payload (tag_list st ns) = type_value (list_type st ns) # wire_len (length ns) @ wire_elems ns"
| "wire_payload (tag_compound ns) = wire_members ns @ [0]"
| "wire_payload tag_end = []"
| "wire_payload (tag_unknown _) = []"
| "wire_elems [] = []"
| "wire_elems (nbt_node nm p # ns) = wire_name nm @ wire_payload p @ wire_elems ns"
| "wire_members [] = []"
| "wire_members (nbt_node nm p # ns) =
     type_value (payload_type p) # wire_name nm @ wire_payload p @ wire_members ns"

definition wire_node :: "nbt_node \<Rightarrow> byte list" where
  "wire_node nd = type_value (type_of nd) # wire_name (name nd) @ wire_payload (payload nd)"

text \<open>
  Well-formed trees: what the parser builds and the writer accepts. Strings have no NUL byte and
  at most 32767 bytes, an array's block has the length it says, list elements are unnamed and of
  the sentinel's type, compound members are named, and no long array occurs (cNBT does not
  implement them).
\<close>

definition wf_cstr :: "cstr \<Rightarrow> bool" where
  "wf_cstr s \<longleftrightarrow> 0 \<notin> set s \<and> length s \<le> 32767"

definition wf_array :: "'a list option \<Rightarrow> u32 \<Rightarrow> bool" where
  "wf_array d n \<longleftrightarrow> (case d of None \<Rightarrow> False | Some xs \<Rightarrow> length xs < 2 ^ 31 \<and> n = of_nat (length xs))"

fun wf_payload :: "nbt_payload \<Rightarrow> bool"
  and wf_elems :: "nbt_type \<Rightarrow> nbt_node list \<Rightarrow> bool"
  and wf_members :: "nbt_node list \<Rightarrow> bool"
where
  "wf_payload (tag_byte_array d n) = wf_array d n"
| "wf_payload (tag_int_array d n) = wf_array d n"
| "wf_payload (tag_string s) = (case s of None \<Rightarrow> False | Some s \<Rightarrow> wf_cstr s)"
| "wf_payload (tag_list st ns) =
     (case st of None \<Rightarrow> False
      | Some t \<Rightarrow> t \<noteq> TAG_INVALID \<and> t = nbt_type_of (type_value t) \<and> length ns < 2 ^ 31 \<and> wf_elems t ns)"
| "wf_payload (tag_compound ns) = wf_members ns"
| "wf_payload (tag_long_array _ _) = False"
| "wf_payload tag_end = False"
| "wf_payload (tag_unknown _) = False"
| "wf_payload (tag_byte _) = True"
| "wf_payload (tag_short _) = True"
| "wf_payload (tag_int _) = True"
| "wf_payload (tag_long _) = True"
| "wf_payload (tag_float _) = True"
| "wf_payload (tag_double _) = True"
| "wf_elems t [] = True"
| "wf_elems t (nbt_node nm p # ns) = (nm = None \<and> payload_type p = t \<and> wf_payload p \<and> wf_elems t ns)"
| "wf_members [] = True"
| "wf_members (nbt_node nm p # ns) =
     ((case nm of None \<Rightarrow> False | Some n \<Rightarrow> wf_cstr n) \<and> wf_payload p \<and> wf_members ns)"

definition wf_nbt :: "nbt_node \<Rightarrow> bool" where
  "wf_nbt nd \<longleftrightarrow> (case name nd of None \<Rightarrow> False | Some n \<Rightarrow> wf_cstr n) \<and> wf_payload (payload nd)"

lemma wf_elems_Cons:
  "wf_elems t (n # ns) \<longleftrightarrow> name n = None \<and> type_of n = t \<and> wf_payload (payload n) \<and> wf_elems t ns"
  by (cases n) simp

lemma wf_cstr_of [simp]: "wf_cstr s \<Longrightarrow> cstr_of s = s"
  by (auto simp: wf_cstr_def cstr_of_def)

lemma wf_strlen [simp]: "wf_cstr s \<Longrightarrow> strlen s = length s"
  by (simp add: strlen_def)

lemma length_wire_cstr [simp]: "length (wire_cstr s) = 2 + strlen s"
  by (simp add: wire_cstr_def strlen_def)

lemma length_wire_len [simp]: "length (wire_len n) = 4"
  by (simp add: wire_len_def)

lemma length_concat_be [simp]: "length (concat (map (\<lambda>w :: 'a::len word. rev (mem_of w)) ws)) = length ws * (LENGTH('a) div 8)"
  by (induction ws) simp_all

section \<open>Facts on well-formed trees\<close>

lemma sint_of_nat16: "n \<le> 32767 \<Longrightarrow> sint (of_nat n :: u16) = int n"
  by (simp add: sint_uint unsigned_of_nat signed_take_bit_int_eq_self take_bit_nat_eq_self)

lemma sint_of_nat32: "n < 2 ^ 31 \<Longrightarrow> sint (of_nat n :: u32) = int n"
  by (simp add: sint_uint unsigned_of_nat signed_take_bit_int_eq_self take_bit_nat_eq_self)

lemma scast_len16: "n \<le> 32767 \<Longrightarrow> (scast (of_nat n :: u16) :: u64) = of_nat n"
  using sint_of_nat16 [of n] by (metis of_int_of_nat_eq of_int_sint)

lemma wire_payload_nonempty: "wf_payload p \<Longrightarrow> 1 \<le> length (wire_payload p)"
  by (cases p) (auto simp: wire_name_def split: option.splits)

lemma type_of_value_payload: "wf_payload p \<Longrightarrow> nbt_type_of (type_value (payload_type p)) = payload_type p"
  by (cases p) (simp_all add: nbt_type_of_def)

lemma type_value_payload: "wf_payload p \<Longrightarrow> type_value (payload_type p) \<noteq> 0"
  by (cases p) simp_all

lemma size_child: "n \<in> set ns \<Longrightarrow> size (payload n) \<le> size_list size ns"
proof -
  have "size (payload n) \<le> size n" by (cases n) simp
  then show "n \<in> set ns \<Longrightarrow> ?thesis" by (metis size_list_estimation')
qed

lemma wire_elems_child: "n \<in> set ns \<Longrightarrow> length (wire_payload (payload n)) \<le> length (wire_elems ns)"
proof (induction ns)
  case (Cons m ns)
  then show ?case by (cases m) auto
qed simp

lemma wf_members_payload: "wf_members ns \<Longrightarrow> n \<in> set ns \<Longrightarrow> wf_payload (payload n)"
proof (induction ns)
  case (Cons m ns)
  then show ?case by (cases m) auto
qed simp

lemma wf_elems_type: "wf_elems t ns \<Longrightarrow> n \<in> set ns \<Longrightarrow> type_of n = t"
  by (induction ns) (auto simp: wf_elems_Cons)

lemma list_type_wf: "wf_elems t ns \<Longrightarrow> list_type (Some t) ns = t"
  by (auto simp: list_type_def wf_elems_type split: list.splits)

section \<open>How far the sizes are from the wire\<close>

text \<open>The number of lists in a tree.\<close>

fun lists_in :: "nbt_payload \<Rightarrow> nat"
  and lists_in_all :: "nbt_node list \<Rightarrow> nat"
where
  "lists_in (tag_list _ ns) = Suc (lists_in_all ns)"
| "lists_in (tag_compound ns) = lists_in_all ns"
| "lists_in p = 0"
| "lists_in_all [] = 0"
| "lists_in_all (nbt_node _ p # ns) = lists_in p + lists_in_all ns"

lemma scast_len: "n < 2 ^ 31 \<Longrightarrow> (scast (of_nat n :: u32) :: u64) = of_nat n"
proof -
  assume n: "n < 2 ^ 31"
  then have "sint (of_nat n :: u32) = int n"
    by (simp add: sint_uint unsigned_of_nat signed_take_bit_int_eq_self take_bit_nat_eq_self)
  then show ?thesis by (metis of_int_of_nat_eq of_int_sint)
qed

lemma size_wire_payload:
  "wf_payload p \<Longrightarrow> \<exists>s. size_unnamed_nbt p = Some s \<and>
     of_nat (length (wire_payload p)) = s + 5 * of_nat (lists_in p)"
  and size_wire_elems:
  "wf_elems t ns \<Longrightarrow> \<exists>s. size_nbt_list sz ns = Some (sz + s) \<and>
     of_nat (length (wire_elems ns)) = s + 5 * of_nat (lists_in_all ns)"
  and size_wire_members:
  "wf_members ns \<Longrightarrow> \<exists>s. size_nbt_compound sz ns = Some (sz + s) \<and>
     of_nat (length (wire_members ns)) = s + 5 * of_nat (lists_in_all ns)"
proof (induction p and sz ns and sz ns arbitrary: and t and
    rule: size_unnamed_nbt_size_nbt_list_size_nbt_compound.induct)
  case (12 st ns)
  then show ?case by (fastforce simp: algebra_simps split: option.splits)
next
  case (13 ns)
  then show ?case by (fastforce simp: algebra_simps)
next
  case (17 sz nm p ns)
  then obtain s where s: "size_unnamed_nbt p = Some s"
    "of_nat (length (wire_payload p)) = s + 5 * of_nat (lists_in p)" by auto
  moreover obtain s' where "size_nbt_list (sz + s) ns = Some (sz + s + s')"
    "of_nat (length (wire_elems ns)) = s' + 5 * of_nat (lists_in_all ns)"
    using 17 s(1) by auto
  ultimately show ?case using 17(3) by (auto simp: wire_name_def algebra_simps intro!: exI [of _ "s + s'"])
next
  case (19 sz nm p ns)
  then obtain n where n: "nm = Some n" by (auto split: option.splits)
  with 19 obtain s where s: "size_unnamed_nbt p = Some s"
    "of_nat (length (wire_payload p)) = s + 5 * of_nat (lists_in p)" by auto
  let ?d = "1 + 2 + of_nat (strlen n) + s"
  obtain s' where "size_nbt_compound (sz + ?d) ns = Some (sz + ?d + s')"
    "of_nat (length (wire_members ns)) = s' + 5 * of_nat (lists_in_all ns)"
    using "19.IH"(4) [OF n s(1)] "19.prems" by (auto simp: add.assoc simp del: wf_strlen)
  with s n show ?case by (auto simp: wire_name_def algebra_simps intro!: exI [of _ "?d + s'"])
qed (auto simp: wf_array_def wire_name_def scast_len split: option.splits)

lemma lists_in_wire: "5 * lists_in p \<le> length (wire_payload p)"
  and lists_in_wire_elems: "5 * lists_in_all ns \<le> length (wire_elems ns)"
  and lists_in_wire_members: "5 * lists_in_all ms \<le> length (wire_members ms)"
  by (induction p and ns and ms rule: wire_payload_wire_elems_wire_members.induct) auto

lemma wf_name: "wf_nbt nd \<Longrightarrow> \<exists>n. name nd = Some n \<and> wf_cstr n"
  by (auto simp: wf_nbt_def split: option.splits)

lemma size_nbt_wire:
  assumes "wf_nbt nd" and len: "length (wire_node nd) < 2 ^ 64"
  shows "\<exists>s. size_nbt nd = Some s \<and> unat s + 5 * lists_in (payload nd) = length (wire_node nd)"
proof -
  from wf_name [OF assms(1)] obtain n where n: "name nd = Some n" "wf_cstr n" by blast
  from assms(1) have "wf_payload (payload nd)" by (simp add: wf_nbt_def)
  from size_wire_payload [OF this] obtain s where s: "size_unnamed_nbt (payload nd) = Some s"
    "of_nat (length (wire_payload (payload nd))) = s + 5 * of_nat (lists_in (payload nd))" by blast
  let ?k = "lists_in (payload nd)" and ?w = "length (wire_node nd)"
  have w: "?w = 3 + length n + length (wire_payload (payload nd))"
    using n by (simp add: wire_node_def wire_name_def)
  have k: "5 * ?k \<le> ?w" unfolding w using lists_in_wire [of "payload nd"] by linarith
  have "3 + of_nat (length n) + s = (of_nat (?w - 5 * ?k) :: u64)"
    using s(2) k by (simp add: w of_nat_diff)
  moreover have "size_nbt nd = Some (3 + of_nat (length n) + s)" using n s(1) by (simp add: size_nbt_def)
  moreover have "unat (of_nat (?w - 5 * ?k) :: u64) = ?w - 5 * ?k"
    using len by (intro unat_of_nat64) linarith
  ultimately show ?thesis using k by simp
qed

end
