(* ===== verification/Buffer.thy ===== *)
theory Buffer
  imports Prelude
begin

text \<open>
  The growing byte buffer of \<^verbatim>\<open>src/cNBT/buffer.c\<close>, which the NBT writer appends to. A block of memory
  is a list of cells, each a byte or not yet written (\<open>None\<close>); a write outside the block is
  undefined. \<open>mal n\<close> says whether \<^verbatim>\<open>malloc(n)\<close> or \<^verbatim>\<open>realloc(p, n)\<close> succeeds. The doubling loop of
  \<^verbatim>\<open>buffer_reserve\<close> need not end (the capacity wraps to zero), so it is a partial function.

  The contract the writer relies on is the locale \<open>byte_sink\<close>: an append that is not refused
  extends the contents by exactly the appended bytes.
\<close>

section \<open>State and operations\<close>

type_synonym block = "byte option list"

record buffer =
  data :: "block option"
  len :: u64
  cap :: u64

definition BUFFER_INIT :: buffer where
  "BUFFER_INIT = \<lparr>data = None, len = 0, cap = 0\<rparr>"

definition mem_write :: "nat \<Rightarrow> byte list \<Rightarrow> block \<Rightarrow> block option" where
  "mem_write off bs blk =
     (if off + length bs \<le> length blk
      then Some (take off blk @ map Some bs @ drop (off + length bs) blk) else None)"

definition lazy_init :: "(nat \<Rightarrow> bool) \<Rightarrow> buffer \<Rightarrow> (int \<times> buffer) option" where
  "lazy_init mal b =
     (if data b \<noteq> None then None
      else if mal 1024 then Some (0, \<lparr>data = Some (replicate 1024 None), len = 0, cap = 1024\<rparr>)
      else Some (1, \<lparr>data = None, len = 0, cap = 1024\<rparr>))"

definition buffer_free :: "buffer \<Rightarrow> buffer" where
  "buffer_free b = \<lparr>data = None, len = 0, cap = 0\<rparr>"

text \<open>\<^verbatim>\<open>while(b->cap < reserved_amount) b->cap *= 2;\<close>\<close>

partial_function (option) grow_cap :: "u64 \<Rightarrow> u64 \<Rightarrow> u64 option" where
  "grow_cap c reserved = (if c < reserved then grow_cap (c * 2) reserved else Some c)"

text \<open>\<^verbatim>\<open>realloc\<close> to \<open>n\<close> bytes keeps the cells that fit and adds unwritten ones.\<close>

definition resize :: "nat \<Rightarrow> block \<Rightarrow> block" where
  "resize n blk = take n blk @ replicate (n - length blk) None"

text \<open>The part of \<^verbatim>\<open>buffer_reserve\<close> after the lazy initialisation.\<close>

definition reserve_more :: "(nat \<Rightarrow> bool) \<Rightarrow> buffer \<Rightarrow> u64 \<Rightarrow> (int \<times> buffer) option" where
  "reserve_more mal b reserved_amount =
     (if cap b \<ge> reserved_amount then Some (0, b)
      else do { c \<leftarrow> grow_cap (cap b) reserved_amount;
                blk \<leftarrow> data b;
                if mal (unat c) then Some (0, b\<lparr>data := Some (resize (unat c) blk), cap := c\<rparr>)
                else Some (1, buffer_free b) })"

definition buffer_reserve :: "(nat \<Rightarrow> bool) \<Rightarrow> buffer \<Rightarrow> u64 \<Rightarrow> (int \<times> buffer) option" where
  "buffer_reserve mal b reserved_amount =
     (if data b = None
      then do { (rc, b) \<leftarrow> lazy_init mal b;
                if rc \<noteq> 0 then Some (1, b) else reserve_more mal b reserved_amount }
      else reserve_more mal b reserved_amount)"

definition buffer_append :: "(nat \<Rightarrow> bool) \<Rightarrow> buffer \<Rightarrow> byte list \<Rightarrow> (int \<times> buffer) option" where
  "buffer_append mal b bs =
     do { (rc, b) \<leftarrow> (if data b = None then lazy_init mal b else Some (0, b));
          if rc \<noteq> 0 then Some (1, b)
          else do { (rc, b) \<leftarrow> buffer_reserve mal b (len b + of_nat (length bs));
                    if rc \<noteq> 0 then Some (1, b)
                    else do { blk \<leftarrow> data b;
                              blk \<leftarrow> mem_write (unat (len b)) bs blk;
                              Some (0, b\<lparr>data := Some blk, len := len b + of_nat (length bs)\<rparr>) } } }"

section \<open>Invariant and abstraction\<close>

text \<open>The bytes \<^verbatim>\<open>[data, data + len)\<close>; the capacity is the size of the block, a power of two of at
  least 1024 bytes.\<close>

definition contents :: "buffer \<Rightarrow> byte list" where
  "contents b = (case data b of None \<Rightarrow> [] | Some blk \<Rightarrow> map the (take (unat (len b)) blk))"

definition buffer_inv :: "buffer \<Rightarrow> bool" where
  "buffer_inv b \<longleftrightarrow>
     (case data b of
        None \<Rightarrow> len b = 0
      | Some blk \<Rightarrow> length blk = unat (cap b) \<and> len b \<le> cap b \<and>
          (\<forall>c \<in> set (take (unat (len b)) blk). c \<noteq> None) \<and>
          (\<exists>k. 10 \<le> k \<and> k \<le> 63 \<and> cap b = 2 ^ k))"

lemma buffer_inv_init [simp]: "buffer_inv BUFFER_INIT" "contents BUFFER_INIT = []"
  by (simp_all add: buffer_inv_def contents_def BUFFER_INIT_def)

lemma unat_pow2: "k \<le> 63 \<Longrightarrow> unat (2 ^ k :: u64) = 2 ^ k"
proof -
  assume "k \<le> 63"
  then have "(2::nat) ^ k < 2 ^ 64" by (intro power_strict_increasing) simp_all
  then show ?thesis by (metis of_nat_numeral of_nat_power unat_of_nat64)
qed

text \<open>The doubling loop ends with the least sufficient power of two, if \<open>2\<^sup>6\<^sup>3\<close> is sufficient.
  Otherwise the capacity wraps to zero and the loop never ends.\<close>

lemma grow_cap_done: "reserved \<le> c \<Longrightarrow> grow_cap c reserved = Some c"
  by (simp add: grow_cap.simps [of c] not_less [symmetric])

lemma grow_cap_more: "c < reserved \<Longrightarrow> grow_cap c reserved = grow_cap (c * 2) reserved"
  by (simp add: grow_cap.simps [of c])

lemma grow_cap_pow2:
  assumes "k \<le> 63" and "reserved \<le> 2 ^ 63"
  shows "\<exists>j. k \<le> j \<and> j \<le> 63 \<and> grow_cap (2 ^ k) reserved = Some (2 ^ j) \<and> reserved \<le> 2 ^ j"
  using assms(1)
proof (induction "63 - k" arbitrary: k)
  case 0
  then have "k = 63" by simp
  with assms(2) show ?case using grow_cap_done [OF assms(2)] by blast
next
  case (Suc n)
  show ?case
  proof (cases "2 ^ k < reserved")
    case True
    from Suc have "n = 63 - Suc k" and "Suc k \<le> 63" by simp_all
    from Suc.hyps(1) [OF this] obtain j where "Suc k \<le> j" "j \<le> 63"
      "grow_cap (2 ^ Suc k) reserved = Some (2 ^ j)" "reserved \<le> 2 ^ j" by blast
    moreover have "grow_cap (2 ^ k) reserved = grow_cap (2 ^ Suc k) reserved"
      using grow_cap_more [OF True] by (simp add: mult.commute)
    ultimately show ?thesis by (intro exI [of _ j]) simp
  next
    case False
    with Suc.prems show ?thesis
      by (intro exI [of _ k]) (simp add: grow_cap_done not_less)
  qed
qed

lemma grow_cap_zero: "0 < reserved \<Longrightarrow> grow_cap 0 reserved = None"
proof (rule ccontr)
  assume r: "0 < reserved" and "grow_cap 0 reserved \<noteq> None"
  then obtain c where c: "grow_cap 0 reserved = Some c" by auto
  have "0 < reserved \<longrightarrow> (0 :: u64) \<noteq> 0"
  proof (rule grow_cap.raw_induct [where P = "\<lambda>c r _. 0 < r \<longrightarrow> c \<noteq> 0", OF _ c])
    fix g :: "u64 \<Rightarrow> u64 \<Rightarrow> u64 option" and c r c'
    assume IH: "\<And>c r c'. g c r = Some c' \<Longrightarrow> 0 < r \<longrightarrow> c \<noteq> 0"
      and step: "(if c < r then g (c * 2) r else Some c) = Some c'"
    show "0 < r \<longrightarrow> c \<noteq> 0"
    proof (intro impI notI)
      assume "0 < r" "c = 0"
      with step IH [of 0 r c'] show False by simp
    qed
  qed
  with r show False by simp
qed

lemma pow2_le_pow2: "k \<le> j \<Longrightarrow> j \<le> 63 \<Longrightarrow> (2 ^ k :: u64) \<le> 2 ^ j"
  by (simp only: word_le_nat_alt unat_pow2 [of k] unat_pow2 [of j] power_increasing one_le_numeral)

lemma grow_cap_diverges:
  assumes "k \<le> 63" and "2 ^ 63 < reserved"
  shows "grow_cap (2 ^ k) reserved = None"
  using assms(1)
proof (induction "63 - k" arbitrary: k)
  case 0
  then have k: "k = 63" by simp
  have "(2 ^ 63 :: u64) * 2 = 0" by simp
  moreover have "0 < reserved" using assms(2) by (rule order.strict_trans [rotated]) simp
  ultimately show ?case
    unfolding k grow_cap_more [OF assms(2)] by (simp only: grow_cap_zero)
next
  case (Suc n)
  then have "n = 63 - Suc k" and "Suc k \<le> 63" by simp_all
  from Suc.hyps(1) [OF this] have "grow_cap (2 ^ Suc k) reserved = None" .
  moreover have "2 ^ k < reserved"
    using pow2_le_pow2 [OF Suc.prems order.refl] assms(2) by (rule order.strict_trans1)
  ultimately show ?case using grow_cap_more [of "2 ^ k" reserved] by (simp add: mult.commute)
qed

section \<open>Correctness of the operations\<close>

text \<open>The state after a successful lazy initialisation: an allocated buffer within the invariant.\<close>

definition live :: "buffer \<Rightarrow> bool" where
  "live b \<longleftrightarrow> buffer_inv b \<and> data b \<noteq> None"

lemma unat_len_contents: "buffer_inv b \<Longrightarrow> unat (len b) = length (contents b)"
  by (auto simp: buffer_inv_def contents_def word_le_nat_alt split: option.splits)

lemma lazy_init_ok:
  assumes "data b = None"
  shows "\<exists>rc b'. lazy_init mal b = Some (rc, b') \<and> buffer_inv b' \<and> contents b' = [] \<and>
    (rc = 0 \<and> live b' \<or> rc = 1 \<and> data b' = None \<and> \<not> mal 1024)"
  using assms by (auto simp: lazy_init_def live_def buffer_inv_def contents_def intro!: exI [of _ 10])

lemma take_resize: "n \<le> length blk \<Longrightarrow> length blk \<le> m \<Longrightarrow> take n (resize m blk) = take n blk"
  by (simp add: resize_def)

lemma length_resize [simp]: "length (resize m blk) = m"
  by (simp add: resize_def)

lemma reserve_more_ok:
  assumes "live b" and r: "reserved \<le> 2 ^ 63"
  shows "\<exists>rc b'. reserve_more mal b reserved = Some (rc, b') \<and>
    (rc = 0 \<and> live b' \<and> contents b' = contents b \<and> len b' = len b \<and> reserved \<le> cap b' \<or>
     rc = 1 \<and> b' = buffer_free b \<and> (\<exists>n. \<not> mal n))"
proof (cases "reserved \<le> cap b")
  case True
  with \<open>live b\<close> show ?thesis by (simp add: reserve_more_def)
next
  case False
  from \<open>live b\<close> obtain blk k where blk: "data b = Some blk" "length blk = unat (cap b)" "len b \<le> cap b"
    "\<forall>c \<in> set (take (unat (len b)) blk). c \<noteq> None" and k: "10 \<le> k" "k \<le> 63" "cap b = 2 ^ k"
    by (auto simp: live_def buffer_inv_def)
  from grow_cap_pow2 [OF k(2) r] obtain j where j: "k \<le> j" "j \<le> 63"
    "grow_cap (cap b) reserved = Some (2 ^ j)" "reserved \<le> 2 ^ j" by (auto simp: k(3))
  have le: "unat (cap b) \<le> unat (2 ^ j :: u64)"
    using pow2_le_pow2 [OF j(1,2)] by (simp add: k(3) word_le_nat_alt)
  then have "take (unat (len b)) (resize (unat (2 ^ j :: u64)) blk) = take (unat (len b)) blk"
    using blk by (intro take_resize) (simp_all add: word_le_nat_alt)
  moreover have "len b \<le> 2 ^ j" using blk(3) pow2_le_pow2 [OF j(1,2)] by (simp add: k(3))
  moreover have "\<exists>i. 10 \<le> i \<and> i \<le> 63 \<and> (2 ^ j :: u64) = 2 ^ i" using j k by (intro exI [of _ j]) simp
  ultimately show ?thesis
    using False blk j k by (auto simp: reserve_more_def live_def buffer_inv_def contents_def)
qed

lemma mem_write_ok:
  assumes "live b" and "len b + of_nat (length bs) \<le> cap b"
    and sum: "unat (len b + of_nat (length bs)) = unat (len b) + length bs"
  shows "\<exists>blk blk'. data b = Some blk \<and> mem_write (unat (len b)) bs blk = Some blk' \<and>
    live (b\<lparr>data := Some blk', len := len b + of_nat (length bs)\<rparr>) \<and>
    contents (b\<lparr>data := Some blk', len := len b + of_nat (length bs)\<rparr>) = contents b @ bs"
proof -
  from \<open>live b\<close> obtain blk k where blk: "data b = Some blk" "length blk = unat (cap b)" "len b \<le> cap b"
    "\<forall>c \<in> set (take (unat (len b)) blk). c \<noteq> None" and k: "10 \<le> k" "k \<le> 63" "cap b = 2 ^ k"
    by (auto simp: live_def buffer_inv_def)
  have fit: "unat (len b) + length bs \<le> length blk"
    using assms(2) sum blk(2) by (simp add: word_le_nat_alt)
  let ?blk = "take (unat (len b)) blk @ map Some bs @ drop (unat (len b) + length bs) blk"
  have "take (unat (len b) + length bs) ?blk = take (unat (len b)) blk @ map Some bs"
    using fit by simp
  with fit blk k assms(2) sum show ?thesis
    by (auto simp: mem_write_def live_def buffer_inv_def contents_def comp_def)
qed

lemma buffer_append_live:
  assumes "live b" and fit: "length (contents b) + length bs \<le> 2 ^ 63"
  shows "\<exists>rc b'. buffer_append mal b bs = Some (rc, b') \<and>
    (rc = 0 \<and> live b' \<and> contents b' = contents b @ bs \<or>
     rc = 1 \<and> b' = buffer_free b \<and> (\<exists>n. \<not> mal n))"
proof -
  obtain blk0 where inv: "buffer_inv b" and d: "data b = Some blk0"
    using \<open>live b\<close> by (auto simp: live_def)
  have len: "unat (len b) = length (contents b)" using inv by (rule unat_len_contents)
  have "unat (of_nat (length bs) :: u64) = length bs" using fit by (intro unat_of_nat64) simp
  then have sum: "unat (len b + of_nat (length bs)) = unat (len b) + length bs"
    using fit len by (subst unat_plus_simple [THEN iffD1]) (simp_all add: no_olen_add_nat)
  have "len b + of_nat (length bs) \<le> 2 ^ 63"
    using fit sum len by (simp add: word_le_nat_alt)
  from reserve_more_ok [OF \<open>live b\<close> this, of mal] show ?thesis
  proof (elim exE conjE disjE)
    fix rc b'
    assume b': "reserve_more mal b (len b + word_of_nat (length bs)) = Some (rc, b')" "rc = 0" "live b'"
      "contents b' = contents b" "len b' = len b" "len b + word_of_nat (length bs) \<le> cap b'"
    from mem_write_ok [OF b'(3), of bs] b'(5,6) sum obtain blk blk' where
      "data b' = Some blk" "mem_write (unat (len b')) bs blk = Some blk'"
      "live (b'\<lparr>data := Some blk', len := len b' + of_nat (length bs)\<rparr>)"
      "contents (b'\<lparr>data := Some blk', len := len b' + of_nat (length bs)\<rparr>) = contents b' @ bs"
      by auto
    with b' d show ?thesis by (simp add: buffer_append_def buffer_reserve_def)
  next
    fix rc b' n
    assume "reserve_more mal b (len b + word_of_nat (length bs)) = Some (rc, b')" "rc = 1"
      "b' = buffer_free b" and "\<not> mal n"
    with d show ?thesis by (auto simp: buffer_append_def buffer_reserve_def)
  qed
qed

lemma buffer_append_fresh:
  "data b = None \<Longrightarrow> lazy_init mal b = Some (0, b') \<Longrightarrow> data b' \<noteq> None \<Longrightarrow>
    buffer_append mal b bs = buffer_append mal b' bs"
  by (auto simp: buffer_append_def)

lemma buffer_append_spec:
  assumes inv: "buffer_inv b" and fit: "length (contents b) + length bs \<le> 2 ^ 63"
  shows "\<exists>rc b'. buffer_append mal b bs = Some (rc, b') \<and> buffer_inv b' \<and>
    (rc = 0 \<and> live b' \<and> contents b' = contents b @ bs \<or>
     rc = 1 \<and> data b' = None \<and> (\<exists>n. \<not> mal n))"
proof (cases "data b")
  case None
  from lazy_init_ok [OF None, of mal] show ?thesis
  proof (elim exE conjE disjE)
    fix rc b'
    assume i: "lazy_init mal b = Some (rc, b')" "rc = 0" "live b'" "contents b' = []"
    have "contents b = []" using None by (simp add: contents_def)
    moreover have "length (contents b') + length bs \<le> 2 ^ 63" using fit i(4) by simp
    moreover have "buffer_append mal b bs = buffer_append mal b' bs"
      using i None by (intro buffer_append_fresh) (simp_all add: live_def)
    ultimately show ?thesis
      using buffer_append_live [OF i(3), of bs mal] i(4)
      by (auto simp: live_def buffer_free_def buffer_inv_def)
  next
    fix rc b'
    assume "lazy_init mal b = Some (rc, b')" "rc = 1" "data b' = None" "buffer_inv b'" "\<not> mal 1024"
    with None show ?thesis by (auto simp: buffer_append_def)
  qed
next
  case (Some blk)
  with inv have "live b" by (simp add: live_def)
  from buffer_append_live [OF this fit, of mal] show ?thesis
    by (auto simp: live_def buffer_free_def buffer_inv_def)
qed

section \<open>The contract of a byte sink\<close>

text \<open>
  What a writer relies on: an append to a sink within its invariant returns, and either the
  contents have grown by the appended bytes or the sink is lost because memory ran out.
  \<open>writes ok nomem f bs\<close> says that the writer \<open>f\<close> appends \<open>bs\<close> under the same contract, with its own
  status codes.
\<close>

locale byte_sink =
  fixes append :: "'b \<Rightarrow> byte list \<Rightarrow> (int \<times> 'b) option"
    and sink_contents :: "'b \<Rightarrow> byte list"
    and sink_inv :: "'b \<Rightarrow> bool"
    and lost :: "'b \<Rightarrow> bool"
    and may_fail :: bool
  assumes append_law: "sink_inv b \<Longrightarrow> length (sink_contents b) + length bs \<le> 2 ^ 63 \<Longrightarrow>
    \<exists>rc b'. append b bs = Some (rc, b') \<and> sink_inv b' \<and>
      (rc = 0 \<and> sink_contents b' = sink_contents b @ bs \<or> rc = 1 \<and> lost b' \<and> may_fail)"
begin

definition writes :: "'s \<Rightarrow> 's \<Rightarrow> ('b \<Rightarrow> ('s \<times> 'b) option) \<Rightarrow> byte list \<Rightarrow> bool" where
  "writes ok nomem f bs \<longleftrightarrow>
     (\<forall>b. sink_inv b \<longrightarrow> length (sink_contents b) + length bs \<le> 2 ^ 63 \<longrightarrow>
        (\<exists>st b'. f b = Some (st, b') \<and> sink_inv b' \<and>
           (st = ok \<and> sink_contents b' = sink_contents b @ bs \<or> st = nomem \<and> lost b' \<and> may_fail)))"

lemma writesD:
  assumes "writes ok nomem f bs" and "sink_inv b" and "length (sink_contents b) + length bs \<le> 2 ^ 63"
  obtains (written) b' where "f b = Some (ok, b')" "sink_inv b'" "sink_contents b' = sink_contents b @ bs"
  | (nomem) b' where "f b = Some (nomem, b')" "sink_inv b'" "lost b'" "may_fail"
  using assms unfolding writes_def by blast

lemma writes_append:
  "writes ok nomem (\<lambda>b. do { (rc, b) \<leftarrow> append b bs; Some (if rc \<noteq> 0 then nomem else ok, b) }) bs"
  unfolding writes_def using append_law [of _ bs] by fastforce

lemma writes_nothing: "writes ok nomem (\<lambda>b. Some (ok, b)) []"
  by (simp add: writes_def)

lemma writes_seq:
  assumes f: "writes ok nomem f xs" and g: "writes ok nomem g ys" and "ok \<noteq> nomem"
  shows "writes ok nomem (\<lambda>b. do { (st, b) \<leftarrow> f b; if st \<noteq> ok then Some (st, b) else g b }) (xs @ ys)"
  unfolding writes_def
proof (intro allI impI)
  fix b
  assume inv: "sink_inv b" and fit: "length (sink_contents b) + length (xs @ ys) \<le> 2 ^ 63"
  from fit have fit': "length (sink_contents b) + length xs \<le> 2 ^ 63" by simp
  from f inv fit' show "\<exists>st b'. do { (st, b) \<leftarrow> f b; if st \<noteq> ok then Some (st, b) else g b } = Some (st, b') \<and>
    sink_inv b' \<and> (st = ok \<and> sink_contents b' = sink_contents b @ xs @ ys \<or> st = nomem \<and> lost b' \<and> may_fail)"
  proof (cases rule: writesD)
    case (written b')
    with fit have "length (sink_contents b') + length ys \<le> 2 ^ 63" by simp
    with g written(2) show ?thesis
      by (cases rule: writesD) (use written \<open>ok \<noteq> nomem\<close> in auto)
  next
    case (nomem b')
    with \<open>ok \<noteq> nomem\<close> show ?thesis by auto
  qed
qed

end

interpretation sink: byte_sink "buffer_append mal" contents buffer_inv "\<lambda>b. data b = None" "\<exists>n. \<not> mal n"
  for mal :: "nat \<Rightarrow> bool"
proof unfold_locales
  fix b and bs :: "byte list"
  assume "buffer_inv b" and "length (contents b) + length bs \<le> 2 ^ 63"
  from buffer_append_spec [OF this, of mal]
  show "\<exists>rc b'. buffer_append mal b bs = Some (rc, b') \<and> buffer_inv b' \<and>
    (rc = 0 \<and> contents b' = contents b @ bs \<or> rc = 1 \<and> data b' = None \<and> (\<exists>n. \<not> mal n))"
    by blast
qed

section \<open>Properties\<close>

text \<open>C30. \<^verbatim>\<open>buffer_append\<close> on a buffer within its invariant, up to \<open>2\<^sup>6\<^sup>3\<close> bytes in all: it terminates,
  keeps the invariant and writes only inside the block; it returns 0 with exactly the new bytes
  after the old ones, or, only when an allocation was refused, 1 with the buffer released. If no
  allocation is refused it returns 0.\<close>

theorem buffer_append_correct:
  assumes "buffer_inv b" and "length (contents b) + length bs \<le> 2 ^ 63"
  shows "\<exists>rc b'. buffer_append mal b bs = Some (rc, b') \<and> buffer_inv b' \<and>
    (rc = 0 \<and> contents b' = contents b @ bs \<or> rc = 1 \<and> data b' = None) \<and>
    ((\<forall>n. mal n) \<longrightarrow> rc = 0)"
  using buffer_append_spec [OF assms, of mal] by fastforce

theorem buffer_append_correct_witness:
  "\<exists>rc b'. buffer_append (\<lambda>n. n = 1024) BUFFER_INIT [1, 2, 3] = Some (rc, b') \<and> buffer_inv b' \<and>
    (rc = 0 \<and> contents b' = contents BUFFER_INIT @ [1, 2, 3] \<or> rc = 1 \<and> data b' = None) \<and>
    ((\<forall>n. n = (1024 :: nat)) \<longrightarrow> rc = 0)"
  by (rule buffer_append_correct) simp_all

text \<open>C40. \<^verbatim>\<open>buffer_reserve\<close> on an allocated buffer terminates exactly for requests of at most
  \<open>2\<^sup>6\<^sup>3\<close> bytes: beyond, the doubled capacity wraps to zero and the loop never ends.\<close>

theorem buffer_reserve_terminates_iff:
  assumes "buffer_inv b" and "data b \<noteq> None"
  shows "(\<exists>r. buffer_reserve mal b reserved = Some r) \<longleftrightarrow> reserved \<le> 2 ^ 63"
proof (cases "reserved \<le> 2 ^ 63")
  case True
  with assms show ?thesis
    using reserve_more_ok [of b reserved mal] by (auto simp: buffer_reserve_def live_def)
next
  case False
  from assms obtain k where k: "k \<le> 63" "cap b = 2 ^ k" by (auto simp: buffer_inv_def)
  with False have "\<not> reserved \<le> cap b"
    using pow2_le_pow2 [OF k(1) order.refl] by (metis k(2) order.trans)
  moreover have "grow_cap (cap b) reserved = None"
    using grow_cap_diverges [OF k(1)] False by (simp add: k(2) not_le)
  ultimately show ?thesis using False assms(2) by (auto simp: buffer_reserve_def reserve_more_def)
qed

definition sample_buffer :: buffer where
  "sample_buffer = \<lparr>data = Some (replicate 1024 None), len = 0, cap = 1024\<rparr>"

theorem buffer_reserve_terminates_iff_witness:
  "(\<exists>r. buffer_reserve (\<lambda>_. True) sample_buffer 5000 = Some r) \<longleftrightarrow> 5000 \<le> (2 ^ 63 :: u64)"
  by (rule buffer_reserve_terminates_iff)
    (auto simp: sample_buffer_def buffer_inv_def intro!: exI [of _ 10])

end
