(* ===== verification/NbtDump.thy ===== *)
theory NbtDump
  imports NbtTree Buffer
begin

text \<open>
  The binary NBT writer of \<^verbatim>\<open>src/cNBT/nbt_parsing.c\<close> (lines 219--253 and 590--781). Every function
  takes the buffer and returns a status and the buffer; \<^verbatim>\<open>CHECKED_APPEND\<close> and the
  \<^verbatim>\<open>if((err = ...) != NBT_OK) return err\<close> chains are the sequencing \<open>andthen\<close>. \<open>mal\<close> is the allocator's
  answer, as in \<open>Buffer\<close>. The result: a well-formed tree is written as exactly its wire image, or
  the writer reports \<open>NBT_EMEM\<close>.
\<close>

section \<open>Operations\<close>

datatype nbt_status = NBT_OK | NBT_ERR | NBT_EMEM | NBT_EIO | NBT_EZ

type_synonym writer = "buffer \<Rightarrow> (nbt_status \<times> buffer) option"

definition andthen :: "writer \<Rightarrow> writer \<Rightarrow> writer" where
  "andthen f g = (\<lambda>b. do { (st, b) \<leftarrow> f b; if st \<noteq> NBT_OK then Some (st, b) else g b })"

definition checked_append :: "(nat \<Rightarrow> bool) \<Rightarrow> byte list \<Rightarrow> writer" where
  "checked_append mal bs =
     (\<lambda>b. do { (rc, b) \<leftarrow> buffer_append mal b bs; Some (if rc \<noteq> 0 then NBT_EMEM else NBT_OK, b) })"

text \<open>\<^verbatim>\<open>swap_bytes\<close> exchanges the ends of the object and moves inwards; \<^verbatim>\<open>be2ne\<close> calls it because the
  host is little-endian. \<^verbatim>\<open>ne2be\<close> is the same function.\<close>

fun swap_bytes :: "byte list \<Rightarrow> byte list" where
  "swap_bytes s =
     (if length s \<le> 1 then s else last s # swap_bytes (butlast (tl s)) @ [hd s])"

declare swap_bytes.simps [simp del]

definition little_endian :: bool where
  "little_endian \<longleftrightarrow> hd (mem_of (0x0001 :: u16)) \<noteq> 0"

definition be2ne :: "byte list \<Rightarrow> byte list" where
  "be2ne s = (if little_endian then swap_bytes s else s)"

abbreviation (input) ne2be :: "byte list \<Rightarrow> byte list" where "ne2be \<equiv> be2ne"

text \<open>\<^verbatim>\<open>CHECKED_APPEND(b, ba.data, ba.length)\<close> reads \<open>length\<close> bytes from the block.\<close>

definition dump_byte_array_binary :: "(nat \<Rightarrow> bool) \<Rightarrow> byte list option \<Rightarrow> u32 \<Rightarrow> writer" where
  "dump_byte_array_binary mal d n =
     andthen (checked_append mal (ne2be (mem_of n)))
       (\<lambda>b. if n \<noteq> 0 \<and> d = None then None
            else let k = unat (scast n :: u64); block = (case d of None \<Rightarrow> [] | Some bs \<Rightarrow> bs)
                 in if k \<le> length block then checked_append mal (take k block) b else None)"

text \<open>The loop over the elements, at index \<open>i\<close> with \<open>fuel\<close> elements to go.\<close>

primrec dump_ints :: "(nat \<Rightarrow> bool) \<Rightarrow> u32 list \<Rightarrow> nat \<Rightarrow> nat \<Rightarrow> writer" where
  "dump_ints mal ws i 0 = (\<lambda>b. Some (NBT_OK, b))"
| "dump_ints mal ws i (Suc left) =
     (if i < length ws
      then andthen (checked_append mal (ne2be (mem_of (ws ! i)))) (dump_ints mal ws (Suc i) left)
      else (\<lambda>b. None))"

definition dump_int_array_binary :: "(nat \<Rightarrow> bool) \<Rightarrow> u32 list option \<Rightarrow> u32 \<Rightarrow> writer" where
  "dump_int_array_binary mal d n =
     andthen (checked_append mal (ne2be (mem_of n)))
       (if n \<noteq> 0 \<and> d = None then (\<lambda>b. None)
        else dump_ints mal (case d of None \<Rightarrow> [] | Some ws \<Rightarrow> ws) 0 (nat (sint n)))"

definition dump_string_binary :: "(nat \<Rightarrow> bool) \<Rightarrow> cstr option \<Rightarrow> writer" where
  "dump_string_binary mal nm =
     (case nm of
        None \<Rightarrow> (\<lambda>b. None)
      | Some s \<Rightarrow>
          if strlen s > 32767 then (\<lambda>b. Some (NBT_ERR, b))
          else andthen (checked_append mal (ne2be (mem_of (of_nat (strlen s) :: u16))))
                 (checked_append mal (cstr_of s)))"

text \<open>The loop of \<^verbatim>\<open>list_is_homogenous\<close> with the type found so far; its assertion on the element's
  type holds or the behaviour is undefined. It then falls back on the sentinel.\<close>

fun homogenous_loop :: "nbt_type \<Rightarrow> nbt_node list \<Rightarrow> (bool \<times> nbt_type) option" where
  "homogenous_loop t [] = Some (True, t)"
| "homogenous_loop t (n # ns) =
     (if type_of n = TAG_INVALID then None
      else let t' = (if t = TAG_INVALID then type_of n else t)
           in if t' \<noteq> type_of n then Some (False, TAG_INVALID) else homogenous_loop t' ns)"

definition list_is_homogenous :: "nbt_type option \<Rightarrow> nbt_node list \<Rightarrow> nbt_type option" where
  "list_is_homogenous sentinel ns =
     do { (ended, t) \<leftarrow> homogenous_loop TAG_INVALID ns;
          Some (if ended \<and> t = TAG_INVALID then (case sentinel of None \<Rightarrow> t | Some s \<Rightarrow> s) else t) }"

text \<open>
  \<open>dump_binary\<close> is \<^verbatim>\<open>__dump_binary\<close>: \<open>dump_header\<close> the type and name, \<open>dump_payload\<close> the chain on
  \<^verbatim>\<open>tree->type\<close>. \<open>dump_list_loop\<close> and \<open>dump_compound_loop\<close> are the bodies of the two
  \<^verbatim>\<open>list_for_each\<close> loops.
\<close>

definition dump_header :: "(nat \<Rightarrow> bool) \<Rightarrow> cstr option \<Rightarrow> nbt_type \<Rightarrow> bool \<Rightarrow> writer" where
  "dump_header mal nm t dump_type =
     andthen (if dump_type then checked_append mal [type_value t] else (\<lambda>b. Some (NBT_OK, b)))
       (if nm \<noteq> None then dump_string_binary mal nm else (\<lambda>b. Some (NBT_OK, b)))"

definition dump_list_header :: "(nat \<Rightarrow> bool) \<Rightarrow> nbt_type option \<Rightarrow> nbt_node list \<Rightarrow> writer \<Rightarrow> writer" where
  "dump_list_header mal sentinel ns body =
     (\<lambda>b. do { t \<leftarrow> list_is_homogenous sentinel ns;
               if length ns > 2147483647 then Some (NBT_ERR, b)
               else if t = TAG_INVALID then None
               else andthen (checked_append mal (ne2be [type_value t]))
                      (andthen (checked_append mal (ne2be (mem_of (of_nat (length ns) :: u32)))) body) b })"

fun dump_payload :: "(nat \<Rightarrow> bool) \<Rightarrow> nbt_payload \<Rightarrow> writer"
  and dump_list_loop :: "(nat \<Rightarrow> bool) \<Rightarrow> nbt_node list \<Rightarrow> writer"
  and dump_compound_loop :: "(nat \<Rightarrow> bool) \<Rightarrow> nbt_node list \<Rightarrow> writer"
where
  "dump_payload mal (tag_byte x) = checked_append mal (ne2be [x])"
| "dump_payload mal (tag_short x) = checked_append mal (ne2be (mem_of x))"
| "dump_payload mal (tag_int x) = checked_append mal (ne2be (mem_of x))"
| "dump_payload mal (tag_long x) = checked_append mal (ne2be (mem_of x))"
| "dump_payload mal (tag_float x) = checked_append mal (ne2be (mem_of x))"
| "dump_payload mal (tag_double x) = checked_append mal (ne2be (mem_of x))"
| "dump_payload mal (tag_byte_array d n) = dump_byte_array_binary mal d n"
| "dump_payload mal (tag_int_array d n) = dump_int_array_binary mal d n"
| "dump_payload mal (tag_string s) = dump_string_binary mal s"
| "dump_payload mal (tag_list st ns) = dump_list_header mal st ns (dump_list_loop mal ns)"
| "dump_payload mal (tag_compound ns) = andthen (dump_compound_loop mal ns) (checked_append mal [0])"
| "dump_payload mal (tag_long_array _ _) = (\<lambda>b. Some (NBT_ERR, b))"
| "dump_payload mal tag_end = (\<lambda>b. Some (NBT_ERR, b))"
| "dump_payload mal (tag_unknown _) = (\<lambda>b. Some (NBT_ERR, b))"
| "dump_list_loop mal [] = (\<lambda>b. Some (NBT_OK, b))"
| "dump_list_loop mal (nbt_node nm p # ns) =
     andthen (andthen (dump_header mal nm (payload_type p) False) (dump_payload mal p))
       (dump_list_loop mal ns)"
| "dump_compound_loop mal [] = (\<lambda>b. Some (NBT_OK, b))"
| "dump_compound_loop mal (nbt_node nm p # ns) =
     andthen (andthen (dump_header mal nm (payload_type p) True) (dump_payload mal p))
       (dump_compound_loop mal ns)"

definition dump_binary :: "(nat \<Rightarrow> bool) \<Rightarrow> nbt_node \<Rightarrow> bool \<Rightarrow> writer" where
  "dump_binary mal tree dump_type =
     andthen (dump_header mal (name tree) (type_of tree) dump_type) (dump_payload mal (payload tree))"

text \<open>The second component is \<^verbatim>\<open>errno\<close>.\<close>

definition nbt_dump_binary :: "(nat \<Rightarrow> bool) \<Rightarrow> nbt_node option \<Rightarrow> (buffer \<times> nbt_status) option" where
  "nbt_dump_binary mal tree =
     (case tree of
        None \<Rightarrow> Some (BUFFER_INIT, NBT_OK)
      | Some t \<Rightarrow> do { (err, ret) \<leftarrow> dump_binary mal t True BUFFER_INIT; Some (ret, err) })"

section \<open>Byte order\<close>

lemma swap_bytes_rev: "swap_bytes s = rev s"
proof (induction s rule: swap_bytes.induct)
  case (1 s)
  show ?case
  proof (cases "length s \<le> 1")
    case True
    then have "swap_bytes s = s" by (simp add: swap_bytes.simps [of s])
    with True show ?thesis by (cases s) simp_all
  next
    case False
    then obtain a m z where s: "s = a # m @ [z]" by (cases s; cases "tl s" rule: rev_cases) auto
    with 1 False have "swap_bytes m = rev m" by simp
    moreover have "swap_bytes s = z # swap_bytes m @ [a]" by (subst swap_bytes.simps) (simp add: s)
    ultimately show ?thesis by (simp add: s)
  qed
qed

lemma be2ne_rev [simp]: "be2ne s = rev s"
  by (simp add: be2ne_def swap_bytes_rev little_endian_def mem_of_def word_bytes_def upt_rec)

section \<open>The writer writes the wire image\<close>

abbreviation dumps :: "(nat \<Rightarrow> bool) \<Rightarrow> writer \<Rightarrow> byte list \<Rightarrow> bool" where
  "dumps mal \<equiv> sink.writes mal NBT_OK NBT_EMEM"

lemma dumps_append: "bs = bs' \<Longrightarrow> dumps mal (checked_append mal bs) bs'"
  unfolding checked_append_def by (simp add: sink.writes_append)

lemma dumps_andthen:
  assumes "dumps mal f xs" and "dumps mal g ys" and "zs = xs @ ys"
  shows "dumps mal (andthen f g) zs"
  unfolding andthen_def assms(3) using assms(1,2) by (rule sink.writes_seq) simp

lemma dumps_nothing: "dumps mal (\<lambda>b. Some (NBT_OK, b)) []"
  by (rule sink.writes_nothing)

lemmas dumps_intros = dumps_append dumps_nothing dumps_andthen

lemma dumps_string: "wf_cstr s \<Longrightarrow> dumps mal (dump_string_binary mal (Some s)) (wire_cstr s)"
  by (auto simp: dump_string_binary_def wire_cstr_def wf_cstr_def [of s] intro!: dumps_intros)

lemma dumps_header:
  assumes "\<forall>n. nm = Some n \<longrightarrow> wf_cstr n"
  shows "dumps mal (dump_header mal nm t ty) ((if ty then [type_value t] else []) @ wire_name nm)"
  using assms by (auto simp: dump_header_def wire_name_def dumps_string split: option.splits intro!: dumps_intros)

lemma dumps_byte_array:
  assumes "wf_array d n"
  shows "dumps mal (dump_byte_array_binary mal d n) (wire_payload (tag_byte_array d n))"
proof -
  from assms obtain bs where d: "d = Some bs" "length bs < 2 ^ 31" "n = of_nat (length bs)"
    by (auto simp: wf_array_def split: option.splits)
  have "unat (scast n :: u64) = length bs"
    unfolding d scast_len [OF d(2)] using d(2) by (intro unat_of_nat64) simp
  with d show ?thesis by (auto simp: dump_byte_array_binary_def intro!: dumps_intros)
qed

lemma dumps_ints:
  "i + left = length ws \<Longrightarrow>
     dumps mal (dump_ints mal ws i left) (concat (map (\<lambda>w. rev (mem_of w)) (drop i ws)))"
  by (induction left arbitrary: i)
    (auto simp: Cons_nth_drop_Suc [symmetric] intro!: dumps_intros)

lemma dumps_int_array:
  assumes "wf_array d n"
  shows "dumps mal (dump_int_array_binary mal d n) (wire_payload (tag_int_array d n))"
proof -
  from assms obtain ws where d: "d = Some ws" "length ws < 2 ^ 31" "n = of_nat (length ws)"
    by (auto simp: wf_array_def split: option.splits)
  then have "nat (sint n) = length ws"
    by (simp add: sint_uint unsigned_of_nat signed_take_bit_int_eq_self take_bit_nat_eq_self)
  with d show ?thesis using dumps_ints [of 0 "length ws" ws mal]
    by (auto simp: dump_int_array_binary_def intro!: dumps_intros)
qed

text \<open>A well-formed list has the type of its sentinel.\<close>

lemma homogenous_elems:
  "wf_elems t ns \<Longrightarrow> t \<noteq> TAG_INVALID \<Longrightarrow> homogenous_loop t ns = Some (True, t)"
  by (induction ns) (auto simp: wf_elems_Cons)

lemma list_is_homogenous_wf:
  "wf_elems t ns \<Longrightarrow> t \<noteq> TAG_INVALID \<Longrightarrow> list_is_homogenous (Some t) ns = Some t"
  by (cases ns) (auto simp: list_is_homogenous_def wf_elems_Cons homogenous_elems)

lemma dumps_list_header:
  assumes "wf_elems t ns" and "t \<noteq> TAG_INVALID" and "length ns < 2 ^ 31" and "dumps mal body bs"
  shows "dumps mal (dump_list_header mal (Some t) ns body) (type_value t # wire_len (length ns) @ bs)"
proof -
  have "dump_list_header mal (Some t) ns body =
    andthen (checked_append mal (ne2be [type_value t]))
      (andthen (checked_append mal (ne2be (mem_of (of_nat (length ns) :: u32)))) body)"
    using assms by (auto simp: dump_list_header_def list_is_homogenous_wf fun_eq_iff)
  then show ?thesis using assms(4) by (auto simp: wire_len_def intro!: dumps_intros)
qed

lemma dumps_payload: "wf_payload p \<Longrightarrow> dumps mal (dump_payload mal p) (wire_payload p)"
  and dumps_list_loop: "wf_elems t ns \<Longrightarrow> dumps mal (dump_list_loop mal ns) (wire_elems ns)"
  and dumps_compound_loop: "wf_members ns \<Longrightarrow> dumps mal (dump_compound_loop mal ns) (wire_members ns)"
proof (induction mal p and mal ns and mal ns arbitrary: and t and
    rule: dump_payload_dump_list_loop_dump_compound_loop.induct)
  case (7 mal d n)
  then show ?case using dumps_byte_array [of d n mal] by simp
next
  case (8 mal d n)
  then show ?case using dumps_int_array [of d n mal] by simp
next
  case (10 mal st ns)
  then obtain t where "st = Some t" "t \<noteq> TAG_INVALID" "length ns < 2 ^ 31" "wf_elems t ns"
    by (auto split: option.splits)
  with "10.IH" [of t] show ?case by (simp add: list_type_wf dumps_list_header)
next
  case (16 mal nm p ns)
  then have "nm = None" by simp
  with 16 show ?case
    using dumps_header [of None mal "payload_type p" False]
    by (auto simp: wire_name_def intro!: dumps_andthen)
next
  case (18 mal nm p ns)
  then have "\<forall>n. nm = Some n \<longrightarrow> wf_cstr n" by auto
  from dumps_header [OF this, of mal "payload_type p" True] 18 show ?case
    by (auto intro!: dumps_andthen)
qed (auto simp: dumps_string wire_name_def split: option.splits
    intro!: dumps_intros)

lemma dumps_node: "wf_nbt nd \<Longrightarrow> dumps mal (dump_binary mal nd True) (wire_node nd)"
proof -
  assume wf: "wf_nbt nd"
  then have "\<forall>n. name nd = Some n \<longrightarrow> wf_cstr n" by (auto simp: wf_nbt_def)
  from dumps_header [OF this, of mal "type_of nd" True] wf show ?thesis
    by (auto simp: dump_binary_def wire_node_def wf_nbt_def dumps_payload intro!: dumps_andthen)
qed

section \<open>Properties\<close>

text \<open>C3. The NBT writer is correct: a well-formed tree, whose image fits the buffer, is written
  as exactly its wire image, with \<^verbatim>\<open>errno\<close> \<open>NBT_OK\<close>; otherwise an allocation was refused, the
  buffer is empty and \<^verbatim>\<open>errno\<close> is \<open>NBT_EMEM\<close>. No branch reads or writes out of bounds.\<close>

theorem nbt_dump_binary_correct:
  assumes "wf_nbt nd" and "length (wire_node nd) \<le> 2 ^ 63"
  shows "\<exists>b err. nbt_dump_binary mal (Some nd) = Some (b, err) \<and> buffer_inv b \<and>
    (err = NBT_OK \<and> contents b = wire_node nd \<or> err = NBT_EMEM \<and> data b = None \<and> (\<exists>n. \<not> mal n))"
proof -
  have "length (contents BUFFER_INIT) + length (wire_node nd) \<le> 2 ^ 63" using assms(2) by simp
  from dumps_node [OF assms(1), of mal] buffer_inv_init(1) this show ?thesis
    by (cases rule: sink.writesD) (auto simp: nbt_dump_binary_def)
qed

text \<open>A compound with a string, a list of two shorts, an empty list and an integer array.\<close>

definition sample_tree :: nbt_node where
  "sample_tree = nbt_node (Some [0x61]) (tag_compound
     [nbt_node (Some [0x73]) (tag_string (Some [0x68, 0x69])),
      nbt_node (Some [0x6C]) (tag_list (Some TAG_SHORT)
        [nbt_node None (tag_short 0x102), nbt_node None (tag_short 3)]),
      nbt_node (Some []) (tag_list (Some TAG_COMPOUND) []),
      nbt_node (Some [0x69]) (tag_int_array (Some [1, 0xFFFFFFFF]) 2)])"

lemma wf_sample_tree: "wf_nbt sample_tree"
  by (simp add: sample_tree_def wf_nbt_def wf_cstr_def wf_array_def nbt_type_of_def)

lemma length_sample_tree: "length (wire_node sample_tree) = 50"
  by (simp add: sample_tree_def wire_node_def wire_name_def strlen_def cstr_of_def)

theorem nbt_dump_binary_correct_witness:
  "\<exists>b err. nbt_dump_binary (\<lambda>n. n \<le> 1024) (Some sample_tree) = Some (b, err) \<and> buffer_inv b \<and>
    (err = NBT_OK \<and> contents b = wire_node sample_tree \<or>
     err = NBT_EMEM \<and> data b = None \<and> (\<exists>n. \<not> n \<le> (1024 :: nat)))"
  by (rule nbt_dump_binary_correct) (simp_all add: wf_sample_tree length_sample_tree)

text \<open>C38. \<^verbatim>\<open>size_nbt\<close> is short of what the writer produces by exactly five bytes (the element type
  and the count) for every list in the tree, so it is exact exactly for the trees without lists.\<close>

theorem size_nbt_deficit:
  assumes "wf_nbt nd" and "length (wire_node nd) < 2 ^ 63"
  shows "\<exists>b s. nbt_dump_binary (\<lambda>_. True) (Some nd) = Some (b, NBT_OK) \<and> size_nbt nd = Some s \<and>
    length (contents b) = unat s + 5 * lists_in (payload nd)"
proof -
  from assms have "length (wire_node nd) < 2 ^ 64" by simp
  from size_nbt_wire [OF assms(1) this] obtain s where s: "size_nbt nd = Some s"
    "unat s + 5 * lists_in (payload nd) = length (wire_node nd)" by blast
  have "length (contents BUFFER_INIT) + length (wire_node nd) \<le> 2 ^ 63" using assms(2) by simp
  from dumps_node [OF assms(1), of "\<lambda>_. True"] buffer_inv_init(1) this show ?thesis
    by (cases rule: sink.writesD) (use s in \<open>auto simp: nbt_dump_binary_def\<close>)
qed

theorem size_nbt_deficit_witness:
  "\<exists>b s. nbt_dump_binary (\<lambda>_. True) (Some sample_tree) = Some (b, NBT_OK) \<and> size_nbt sample_tree = Some s \<and>
    length (contents b) = unat s + 5 * lists_in (payload sample_tree)"
  by (rule size_nbt_deficit) (simp_all add: wf_sample_tree length_sample_tree)

end
