(* ===== verification/NbtParse.thy ===== *)
theory NbtParse
  imports NbtDump
begin

text \<open>
  The NBT parser of \<^verbatim>\<open>src/cNBT/nbt_parsing.c\<close> (lines 86--443). The state is what the functions share
  through pointers and globals: the memory stream, the length still allowed, \<^verbatim>\<open>errno\<close>, and the number of
  allocations made so far; \<open>mal i n\<close> says whether the \<open>i\<close>-th allocation, of \<open>n\<close> bytes, succeeds.
  Freeing has no effect on the values, except that \<^verbatim>\<open>nbt_free_list\<close> of a list whose links were never
  initialised is undefined.

  The parser is mutually recursive with loops whose end depends on the input, so it takes fuel.
  Every iteration consumes input, and twice the bytes of the stream plus three is always enough
  (\<open>nbt_parse\<close> is defined with that much, and more never changes a result).
\<close>

section \<open>State and primitive reads\<close>

record pstate =
  memory :: ptr
  plen :: u64
  errno :: nbt_status
  allocs :: nat

type_synonym allocator = "nat \<Rightarrow> nat \<Rightarrow> bool"
type_synonym 'a reader = "pstate \<Rightarrow> ('a option \<times> pstate) option"

text \<open>\<^verbatim>\<open>parse_error: if(errno == NBT_OK) errno = NBT_ERR; return NULL;\<close>\<close>

definition parse_error :: "'a reader" where
  "parse_error s = Some (None, if errno s = NBT_OK then s\<lparr>errno := NBT_ERR\<rparr> else s)"

text \<open>\<^verbatim>\<open>READ_GENERIC\<close>: the bytes copied, or a jump to the failure label.\<close>

definition read_generic :: "u64 \<Rightarrow> byte list reader" where
  "read_generic n s =
     (if plen s < n then Some (None, s)
      else do { (m, rest) \<leftarrow> memrd (unat n) (memory s);
                Some (Some m, s\<lparr>memory := rest, plen := plen s - n\<rparr>) })"

definition checked_malloc :: "allocator \<Rightarrow> nat \<Rightarrow> pstate \<Rightarrow> bool \<times> pstate" where
  "checked_malloc mal n s =
     (if mal (allocs s) n then (True, s\<lparr>allocs := Suc (allocs s)\<rparr>)
      else (False, s\<lparr>allocs := Suc (allocs s), errno := NBT_EMEM\<rparr>))"

text \<open>\<^verbatim>\<open>if((x = r()) == NULL) goto parse_error;\<close> followed by the rest of the function.\<close>

definition orfail :: "'a reader \<Rightarrow> ('a \<Rightarrow> 'b reader) \<Rightarrow> 'b reader" where
  "orfail r k s = do { (v, s) \<leftarrow> r s; case v of None \<Rightarrow> parse_error s | Some x \<Rightarrow> k x s }"

text \<open>\<^verbatim>\<open>READ_GENERIC(..., goto parse_error)\<close> and \<^verbatim>\<open>CHECKED_MALLOC(..., goto parse_error)\<close>, followed by the
  rest of the function.\<close>

definition reading :: "u64 \<Rightarrow> (byte list \<Rightarrow> 'a reader) \<Rightarrow> 'a reader" where
  "reading n k = orfail (read_generic n) k"

definition allocating :: "allocator \<Rightarrow> nat \<Rightarrow> 'a reader \<Rightarrow> 'a reader" where
  "allocating mal n k s = (case checked_malloc mal n s of (False, s) \<Rightarrow> parse_error s | (True, s) \<Rightarrow> k s)"

definition ret :: "'a \<Rightarrow> 'a reader" where
  "ret x s = Some (Some x, s)"

section \<open>The parser\<close>

definition read_string :: "allocator \<Rightarrow> cstr reader" where
  "read_string mal =
     reading 2 (\<lambda>m s.
       let string_length = bytes_word (be2ne m) :: u16 in
       if sint string_length < 0 then parse_error s
       else if plen s < scast string_length then parse_error s
       else allocating mal (nat (sint string_length + 1)) (reading (scast string_length) ret) s)"

definition read_byte_array :: "allocator \<Rightarrow> nbt_payload reader" where
  "read_byte_array mal =
     reading 4 (\<lambda>m s.
       let len = bytes_word (be2ne m) :: u32 in
       if sint len < 0 then parse_error s
       else allocating mal (nat (sint len))
         (reading (scast len) (\<lambda>d. ret (tag_byte_array (Some d) len))) s)"

text \<open>The words of a block of bytes, and the in-place swap of every element.\<close>

fun words_of :: "byte list \<Rightarrow> u32 list" where
  "words_of (a # b # c # d # bs) = bytes_word [a, b, c, d] # words_of bs"
| "words_of _ = []"

definition read_int_array :: "allocator \<Rightarrow> nbt_payload reader" where
  "read_int_array mal =
     reading 4 (\<lambda>m s.
       let len = bytes_word (be2ne m) :: u32 in
       if sint len < 0 then parse_error s
       else allocating mal (nat (sint len) * 4)
         (reading (scast len * 4)
           (\<lambda>d. ret (tag_int_array (Some (map (\<lambda>w. bytes_word (be2ne (mem_of w))) (words_of d))) len))) s)"

text \<open>Sizes of the two structures on the LP64 host.\<close>

definition sizeof_nbt_node :: nat where "sizeof_nbt_node = 32"
definition sizeof_nbt_list :: nat where "sizeof_nbt_list = 24"

text \<open>
  \<^verbatim>\<open>read_list\<close> up to its loop: if the allocation of the sentinel's data fails, the error path frees a
  list whose links are not initialised. \<open>loop type n\<close> reads \<open>n\<close> elements.
\<close>

definition read_list :: "allocator \<Rightarrow> (nbt_type \<Rightarrow> nat \<Rightarrow> nbt_node list reader) \<Rightarrow> nbt_payload reader" where
  "read_list mal loop =
     allocating mal sizeof_nbt_list (\<lambda>s.
       case checked_malloc mal sizeof_nbt_node s of
         (False, s) \<Rightarrow> None
       | (True, s) \<Rightarrow>
           reading 1 (\<lambda>tb. reading 4 (\<lambda>m s.
             let type = nbt_type_of (hd (be2ne tb)); elems = bytes_word (be2ne m) :: u32;
                 sentinel = (if type = TAG_INVALID then TAG_COMPOUND else type)
             in orfail (loop type (nat (sint elems))) (\<lambda>ns. ret (tag_list (Some sentinel) ns)) s)) s)"

definition read_compound :: "allocator \<Rightarrow> nbt_node list reader \<Rightarrow> nbt_payload reader" where
  "read_compound mal loop =
     allocating mal sizeof_nbt_list (orfail loop (\<lambda>ns. ret (tag_compound ns)))"

text \<open>The scalar cases of the switch.\<close>

definition copy_into_payload :: "u64 \<Rightarrow> (byte list \<Rightarrow> nbt_payload) \<Rightarrow> nbt_payload reader" where
  "copy_into_payload n f = reading n (\<lambda>m. ret (f (be2ne m)))"

text \<open>The switch of \<^verbatim>\<open>parse_unnamed_tag\<close>, given the readers of lists and compounds.\<close>

definition read_payload ::
  "allocator \<Rightarrow> (nbt_type \<Rightarrow> nat \<Rightarrow> nbt_node list reader) \<Rightarrow> nbt_node list reader \<Rightarrow> nbt_type \<Rightarrow> nbt_payload reader" where
  "read_payload mal lloop cloop type =
     (case type of
        TAG_BYTE \<Rightarrow> copy_into_payload 1 (\<lambda>m. tag_byte (bytes_word m))
      | TAG_SHORT \<Rightarrow> copy_into_payload 2 (\<lambda>m. tag_short (bytes_word m))
      | TAG_INT \<Rightarrow> copy_into_payload 4 (\<lambda>m. tag_int (bytes_word m))
      | TAG_LONG \<Rightarrow> copy_into_payload 8 (\<lambda>m. tag_long (bytes_word m))
      | TAG_FLOAT \<Rightarrow> copy_into_payload 4 (\<lambda>m. tag_float (bytes_word m))
      | TAG_DOUBLE \<Rightarrow> copy_into_payload 8 (\<lambda>m. tag_double (bytes_word m))
      | TAG_BYTE_ARRAY \<Rightarrow> read_byte_array mal
      | TAG_INT_ARRAY \<Rightarrow> read_int_array mal
      | TAG_STRING \<Rightarrow> (\<lambda>s. do { (t, s) \<leftarrow> read_string mal s; Some (map_option (\<lambda>t. tag_string (Some t)) t, s) })
      | TAG_LIST \<Rightarrow> read_list mal lloop
      | TAG_COMPOUND \<Rightarrow> read_compound mal cloop
      | _ \<Rightarrow> parse_error)"

text \<open>
  The end of \<^verbatim>\<open>parse_unnamed_tag\<close>: any error recorded in \<^verbatim>\<open>errno\<close>, also by an earlier read, discards the
  node. A missing payload without an error cannot be returned from.
\<close>

definition finish_node :: "cstr option \<Rightarrow> nbt_payload option \<Rightarrow> nbt_node reader" where
  "finish_node nm p s =
     (if errno s \<noteq> NBT_OK then parse_error s
      else case p of None \<Rightarrow> None | Some p \<Rightarrow> ret (nbt_node nm p) s)"

fun parse_unnamed_tag :: "nat \<Rightarrow> allocator \<Rightarrow> nbt_type \<Rightarrow> cstr option \<Rightarrow> nbt_node reader"
  and read_list_loop :: "nat \<Rightarrow> allocator \<Rightarrow> nbt_node list \<Rightarrow> nbt_type \<Rightarrow> nat \<Rightarrow> nbt_node list reader"
  and read_compound_loop :: "nat \<Rightarrow> allocator \<Rightarrow> nbt_node list \<Rightarrow> nbt_node list reader"
where
  "parse_unnamed_tag 0 mal type nm s = None"
| "parse_unnamed_tag (Suc fuel) mal type nm s =
     allocating mal sizeof_nbt_node (\<lambda>s.
       do { (p, s) \<leftarrow> read_payload mal (read_list_loop fuel mal []) (read_compound_loop fuel mal []) type s;
            finish_node nm p s }) s"
| "read_list_loop 0 mal acc type n s = None"
| "read_list_loop (Suc fuel) mal acc type n s =
     (if n = 0 then ret acc s
      else allocating mal sizeof_nbt_list
        (orfail (parse_unnamed_tag fuel mal type None)
           (\<lambda>nd. read_list_loop fuel mal (acc @ [nd]) type (n - 1))) s)"
| "read_compound_loop 0 mal acc s = None"
| "read_compound_loop (Suc fuel) mal acc s =
     reading 1 (\<lambda>tb.
       let type = hd (be2ne tb) in
       if type = 0 then ret acc
       else orfail (read_string mal) (\<lambda>nm.
              allocating mal sizeof_nbt_list
                (orfail (parse_unnamed_tag fuel mal (nbt_type_of type) (Some nm))
                   (\<lambda>nd. read_compound_loop fuel mal (acc @ [nd]))))) s"

definition parse_named_tag :: "nat \<Rightarrow> allocator \<Rightarrow> nbt_node reader" where
  "parse_named_tag fuel mal =
     reading 1 (\<lambda>tb s.
       do { (nm, s) \<leftarrow> read_string mal s;
            orfail (parse_unnamed_tag fuel mal (nbt_type_of (hd tb)) nm) ret s })"

text \<open>\<^verbatim>\<open>nbt_parse2\<close> leaves the advanced pointer in the state; \<^verbatim>\<open>nbt_parse\<close> advances a local copy, so its caller
  only sees the node and \<^verbatim>\<open>errno\<close>.\<close>

definition parse_fuel :: "ptr \<Rightarrow> nat" where
  "parse_fuel mem = 2 * length mem + 3"

definition parse_start :: "ptr \<Rightarrow> u64 \<Rightarrow> pstate" where
  "parse_start mem n = \<lparr>memory = mem, plen = n, errno = NBT_OK, allocs = 0\<rparr>"

definition nbt_parse2 :: "allocator \<Rightarrow> ptr \<Rightarrow> u64 \<Rightarrow> (nbt_node option \<times> pstate) option" where
  "nbt_parse2 mal mem n = parse_named_tag (parse_fuel mem) mal (parse_start mem n)"

definition nbt_parse :: "allocator \<Rightarrow> ptr \<Rightarrow> u64 \<Rightarrow> (nbt_node option \<times> nbt_status) option" where
  "nbt_parse mal mem n =
     do { (nd, s) \<leftarrow> parse_named_tag (parse_fuel mem) mal (parse_start mem n); Some (nd, errno s) }"

declare parse_unnamed_tag.simps [simp del] read_list_loop.simps [simp del] read_compound_loop.simps [simp del]

section \<open>Reading what was written\<close>

text \<open>
  \<open>parses r bs x\<close>: in a state without error whose stream starts with \<open>bs\<close> and whose length allows them,
  the reader returns \<open>x\<close> and consumes exactly \<open>bs\<close>.
\<close>

definition parses :: "'a reader \<Rightarrow> byte list \<Rightarrow> 'a \<Rightarrow> bool" where
  "parses r bs x \<longleftrightarrow>
     (\<forall>s rest. memory s = bs @ rest \<longrightarrow> length bs \<le> unat (plen s) \<longrightarrow> errno s = NBT_OK \<longrightarrow>
        (\<exists>s'. r s = Some (Some x, s') \<and> memory s' = rest \<and> plen s' = plen s - of_nat (length bs) \<and>
           errno s' = NBT_OK))"

abbreviation plenty :: allocator where "plenty \<equiv> \<lambda>_ _. True"

lemma parses_ret: "parses (ret x) [] x"
  by (simp add: parses_def ret_def)

lemma parses_generic: "length bs = unat n \<Longrightarrow> parses (read_generic n) bs bs"
  by (auto simp: parses_def read_generic_def word_less_nat_alt memrd_append_eq)

lemma parses_bind:
  assumes r: "parses r bs x" and k: "parses (k (Some x)) cs y" and ds: "ds = bs @ cs"
  shows "parses (\<lambda>s. do { (v, s) \<leftarrow> r s; k v s }) ds y"
  unfolding parses_def
proof (intro allI impI)
  fix s :: pstate and rest
  assume s: "memory s = ds @ rest" "length ds \<le> unat (plen s)" "errno s = NBT_OK"
  with r ds obtain t where t: "r s = Some (Some x, t)" "memory t = cs @ rest"
    "plen t = plen s - of_nat (length bs)" "errno t = NBT_OK"
    unfolding parses_def by fastforce
  have "length cs \<le> unat (plen t)" using s(2) ds t(3) by (simp add: unat_sub_len)
  with k t obtain u where "k (Some x) t = Some (Some y, u)" "memory u = rest"
    "plen u = plen t - of_nat (length cs)" "errno u = NBT_OK"
    unfolding parses_def by blast
  with t ds show "\<exists>u. do { (v, s) \<leftarrow> r s; k v s } = Some (Some y, u) \<and> memory u = rest \<and>
    plen u = plen s - of_nat (length ds) \<and> errno u = NBT_OK"
    by (simp add: diff_diff_eq)
qed

lemma parses_orfail:
  assumes "parses r bs x" and "parses (k x) cs y" and "ds = bs @ cs"
  shows "parses (orfail r k) ds y"
  using parses_bind [where k = "\<lambda>v s. case v of None \<Rightarrow> parse_error s | Some x \<Rightarrow> k x s", OF assms(1) _ assms(3)]
    assms(2) by (simp add: orfail_def [abs_def])

lemma parses_reading:
  "length bs = unat n \<Longrightarrow> parses (k bs) cs y \<Longrightarrow> ds = bs @ cs \<Longrightarrow> parses (reading n k) ds y"
  unfolding reading_def by (rule parses_orfail [OF parses_generic])

lemma parses_allocating: "parses k bs x \<Longrightarrow> parses (allocating plenty n k) bs x"
proof -
  assume k: "parses k bs x"
  show ?thesis unfolding parses_def
  proof (intro allI impI)
    fix s :: pstate and rest
    assume "memory s = bs @ rest" "length bs \<le> unat (plen s)" "errno s = NBT_OK"
    then show "\<exists>s'. allocating plenty n k s = Some (Some x, s') \<and> memory s' = rest \<and>
      plen s' = plen s - of_nat (length bs) \<and> errno s' = NBT_OK"
      using k [unfolded parses_def, rule_format, of "s\<lparr>allocs := Suc (allocs s)\<rparr>" rest]
      by (simp add: allocating_def checked_malloc_def)
  qed
qed

lemma parses_mapr:
  "parses r bs x \<Longrightarrow> parses (\<lambda>s. do { (t, s) \<leftarrow> r s; Some (map_option f t, s) }) bs (f x)"
  unfolding parses_def by fastforce

lemmas parses_intros = parses_ret parses_reading parses_allocating parses_mapr

lemma parses_string: "wf_cstr t \<Longrightarrow> parses (read_string plenty) (wire_cstr t) t"
proof -
  assume wf: "wf_cstr t"
  let ?n = "of_nat (length t) :: u16"
  have n: "length t \<le> 32767" using wf by (simp add: wf_cstr_def)
  then have len: "length t = unat (scast ?n :: u64)" by (simp add: scast_len16 unat_of_nat64)
  have body: "parses (allocating plenty k (reading (scast ?n) ret)) t t" for k
    by (rule parses_allocating, rule parses_reading [OF len parses_ret]) simp
  have "parses (\<lambda>s. if plen s < scast ?n then parse_error s
      else allocating plenty k (reading (scast ?n) ret) s) t t" for k
    using body [of k] by (auto simp: parses_def word_less_nat_alt len [symmetric])
  with n show ?thesis
    unfolding read_string_def wire_cstr_def
    by (intro parses_reading [of "rev (mem_of ?n)"]) (simp_all add: wf Let_def sint_of_nat16)
qed

lemma length4E: "length xs = 4 \<Longrightarrow> \<exists>a b c d. xs = [a, b, c, d]"
  by (auto simp: numeral_eq_Suc length_Suc_conv)

lemma words_of_concat [simp]: "words_of (concat (map mem_of (ws :: u32 list))) = ws"
proof (induction ws)
  case (Cons w ws)
  have "length (mem_of w) = 4" by simp
  from length4E [OF this] obtain a b c d where w: "mem_of w = [a, b, c, d]" by blast
  then have "bytes_word [a, b, c, d] = w" using mem_of_inverse [of w] by simp
  with w Cons show ?case by simp
qed simp

lemma concat_be_swap:
  "concat (map (\<lambda>w. rev (mem_of w)) ws) = concat (map mem_of (map bswap (ws :: u32 list)))"
  by (simp add: mem_of_bswap comp_def)

lemma bswap_bswap32: "bytes_word (rev (mem_of (bswap w))) = (w :: u32)"
  by (simp add: mem_of_bswap mem_of_inverse)

lemma parses_byte_array:
  assumes "wf_array d n"
  shows "parses (read_byte_array plenty) (wire_payload (tag_byte_array d n)) (tag_byte_array d n)"
proof -
  from assms obtain bs where d: "d = Some bs" "length bs < 2 ^ 31" "n = of_nat (length bs)"
    by (auto simp: wf_array_def split: option.splits)
  have len: "length bs = unat (scast n :: u64)" unfolding d scast_len [OF d(2)] using d(2) by (simp add: unat_of_nat64)
  have "parses (allocating plenty k (reading (scast n) (\<lambda>d. ret (tag_byte_array (Some d) n)))) bs
    (tag_byte_array (Some bs) n)" for k
    by (rule parses_allocating, rule parses_reading [OF len parses_ret]) simp
  moreover have "0 \<le> sint n" unfolding d sint_of_nat32 [OF d(2)] by simp
  ultimately show ?thesis
    unfolding read_byte_array_def wire_payload.simps d(1) option.case
    by (intro parses_reading [of "rev (mem_of n)"]) (simp_all add: Let_def)
qed

lemma parses_int_array:
  assumes "wf_array d n"
  shows "parses (read_int_array plenty) (wire_payload (tag_int_array d n)) (tag_int_array d n)"
proof -
  from assms obtain ws where d: "d = Some ws" "length ws < 2 ^ 31" "n = of_nat (length ws)"
    by (auto simp: wf_array_def split: option.splits)
  let ?bs = "concat (map mem_of (map bswap ws))"
  have n: "(scast n * 4 :: u64) = of_nat (length ws * 4)" unfolding d scast_len [OF d(2)] by simp
  have "length ws * 4 < 2 ^ 64" using d(2) by simp
  from unat_of_nat64 [OF this] have len: "length ?bs = unat (scast n * 4 :: u64)"
    unfolding concat_be_swap [symmetric] n length_concat_be by simp
  have "parses (allocating plenty k (reading (scast n * 4)
      (\<lambda>d. ret (tag_int_array (Some (map (\<lambda>w. bytes_word (be2ne (mem_of w))) (words_of d))) n)))) ?bs
    (tag_int_array (Some ws) n)" for k
    by (rule parses_allocating, rule parses_reading [OF len])
      (use parses_ret [of "tag_int_array (Some ws) n"] in \<open>simp_all only: words_of_concat, simp_all add: comp_def bswap_bswap32\<close>)
  moreover have "0 \<le> sint n" unfolding d sint_of_nat32 [OF d(2)] by simp
  ultimately show ?thesis
    unfolding read_int_array_def wire_payload.simps d(1) option.case concat_be_swap
    by (intro parses_reading [of "rev (mem_of n)"]) (simp_all add: Let_def)
qed

lemma parses_list:
  assumes loop: "parses (loop t (length ns)) (wire_elems ns) ns"
    and wf: "wf_elems t ns" "t \<noteq> TAG_INVALID" "t = nbt_type_of (type_value t)" "length ns < 2 ^ 31"
  shows "parses (read_list plenty loop) (wire_payload (tag_list (Some t) ns)) (tag_list (Some t) ns)"
proof -
  let ?n = "of_nat (length ns) :: u32"
  have sentinel: "(\<lambda>s. case checked_malloc plenty m s of (False, s) \<Rightarrow> None | (True, s) \<Rightarrow> k s) =
    allocating plenty m k" for m and k :: "nbt_payload reader"
    by (simp add: fun_eq_iff allocating_def checked_malloc_def)
  have body: "parses (orfail (loop t (length ns)) (\<lambda>ns. ret (tag_list (Some t) ns))) (wire_elems ns)
    (tag_list (Some t) ns)"
    by (rule parses_orfail [OF loop parses_ret]) simp
  have wire: "wire_payload (tag_list (Some t) ns) = [type_value t] @ rev (mem_of ?n) @ wire_elems ns"
    by (simp add: list_type_wf wf(1) wire_len_def)
  show ?thesis
    unfolding read_list_def sentinel wire
    by (intro parses_allocating parses_reading [of "[type_value t]"] parses_reading [of "rev (mem_of ?n)"])
      (use body wf(2,4) in \<open>simp_all add: sint_of_nat32 wf(3) [symmetric] Let_def\<close>)
qed

lemma parses_compound:
  "parses loop (wire_members ns @ [0]) ns \<Longrightarrow>
     parses (read_compound plenty loop) (wire_payload (tag_compound ns)) (tag_compound ns)"
  unfolding read_compound_def wire_payload.simps
  by (intro parses_allocating, rule parses_orfail [OF _ parses_ret]) simp_all

lemma parses_finish:
  assumes "parses r bs p"
  shows "parses (\<lambda>s. do { (p, s) \<leftarrow> r s; finish_node nm p s }) bs (nbt_node nm p)"
  using assms unfolding parses_def finish_node_def ret_def by fastforce

lemma parses_unnamed:
  assumes "parses (read_payload plenty (read_list_loop f plenty []) (read_compound_loop f plenty []) t) bs p"
  shows "parses (parse_unnamed_tag (Suc f) plenty t nm) bs (nbt_node nm p)"
  unfolding parse_unnamed_tag.simps by (rule parses_allocating, rule parses_finish, rule assms)

lemma parses_scalar:
  "length bs = unat n \<Longrightarrow> p = f (rev bs) \<Longrightarrow> parses (copy_into_payload n f) bs p"
  unfolding copy_into_payload_def by (rule parses_reading [of bs n _ "[]"]) (simp_all add: parses_ret)

lemma parses_list_loop:
  "wf_elems t ns \<Longrightarrow> 2 * length (wire_elems ns) + 3 \<le> f \<Longrightarrow>
   (\<And>n f. n \<in> set ns \<Longrightarrow> 2 * length (wire_payload (payload n)) + 2 \<le> f \<Longrightarrow>
     parses (parse_unnamed_tag f plenty t None) (wire_payload (payload n)) (nbt_node None (payload n))) \<Longrightarrow>
   parses (read_list_loop f plenty acc t (length ns)) (wire_elems ns) (acc @ ns)"
proof (induction ns arbitrary: acc f)
  case Nil
  then obtain g where "f = Suc g" by (cases f) auto
  then show ?case by (simp add: read_list_loop.simps parses_ret)
next
  case (Cons n ns)
  then obtain g where g: "f = Suc g" by (cases f) auto
  obtain p where n: "n = nbt_node None p" using Cons.prems(1) by (cases n) (simp add: wf_elems_Cons)
  then have "wf_payload p" using Cons.prems(1) by simp
  from wire_payload_nonempty [OF this] have pos: "1 \<le> length (wire_payload p)" .
  have rest: "parses (read_list_loop g plenty (acc @ [n]) t (length ns)) (wire_elems ns) ((acc @ [n]) @ ns)"
    using Cons.prems pos g n by (intro Cons.IH) (auto simp: wire_name_def)
  have first: "parses (parse_unnamed_tag g plenty t None) (wire_payload p) n"
    using Cons.prems(3) [of n g] Cons.prems(2) g n by (simp add: wire_name_def)
  show ?case unfolding g read_list_loop.simps
    by (simp, rule parses_allocating, rule parses_orfail [OF first])
      (use rest n in \<open>simp_all add: wire_name_def\<close>)
qed

lemma parses_compound_loop:
  "wf_members ns \<Longrightarrow> 2 * length (wire_members ns) + 3 \<le> f \<Longrightarrow>
   (\<And>n f nm. n \<in> set ns \<Longrightarrow> 2 * length (wire_payload (payload n)) + 2 \<le> f \<Longrightarrow>
     parses (parse_unnamed_tag f plenty (type_of n) nm) (wire_payload (payload n)) (nbt_node nm (payload n))) \<Longrightarrow>
   parses (read_compound_loop f plenty acc) (wire_members ns @ [0]) (acc @ ns)"
proof (induction ns arbitrary: acc f)
  case Nil
  then obtain g where "f = Suc g" by (cases f) auto
  then show ?case unfolding \<open>f = Suc g\<close> read_compound_loop.simps
    by (intro parses_reading [of "[0]" _ _ "[]"]) (simp_all add: parses_ret Let_def)
next
  case (Cons n ns)
  then obtain g where g: "f = Suc g" by (cases f) auto
  obtain nm p where n: "n = nbt_node (Some nm) p" and wf: "wf_cstr nm" "wf_payload p"
    using Cons.prems(1) by (cases n) (auto split: option.splits)
  have rest: "parses (read_compound_loop g plenty (acc @ [n])) (wire_members ns @ [0]) ((acc @ [n]) @ ns)"
    using Cons.prems g n by (intro Cons.IH) (auto simp: wire_name_def)
  have first: "parses (parse_unnamed_tag g plenty (payload_type p) (Some nm)) (wire_payload p) n"
    using Cons.prems(3) [of n g "Some nm"] Cons.prems(2) g n by (simp add: wire_name_def)
  have "parses (allocating plenty sizeof_nbt_list
      (orfail (parse_unnamed_tag g plenty (payload_type p) (Some nm))
        (\<lambda>nd. read_compound_loop g plenty (acc @ [nd]))))
    (wire_payload p @ wire_members ns @ [0]) (acc @ n # ns)"
    by (rule parses_allocating, rule parses_orfail [OF first]) (use rest in simp_all)
  from parses_orfail [OF parses_string [OF wf(1)], of "\<lambda>nm. allocating plenty sizeof_nbt_list
      (orfail (parse_unnamed_tag g plenty (payload_type p) (Some nm))
        (\<lambda>nd. read_compound_loop g plenty (acc @ [nd])))", OF this refl]
  show ?case unfolding g read_compound_loop.simps
    by (intro parses_reading [of "[type_value (payload_type p)]"])
      (simp_all add: Let_def n wire_name_def type_of_value_payload type_value_payload wf)
qed

lemma parses_payload:
  "wf_payload p \<Longrightarrow> 2 * length (wire_payload p) + 2 \<le> f \<Longrightarrow>
     parses (parse_unnamed_tag f plenty (payload_type p) nm) (wire_payload p) (nbt_node nm p)"
proof (induction p arbitrary: f nm rule: measure_induct_rule [where f = size])
  case (less p)
  then obtain g where g: "f = Suc g" by (cases f) auto
  have "parses (read_payload plenty (read_list_loop g plenty []) (read_compound_loop g plenty []) (payload_type p))
    (wire_payload p) p"
  proof (cases p)
    case (tag_list st ns)
    then obtain t where t: "st = Some t" "t \<noteq> TAG_INVALID" "t = nbt_type_of (type_value t)"
      "length ns < 2 ^ 31" "wf_elems t ns" using less.prems(1) by (auto split: option.splits)
    have "parses (parse_unnamed_tag f plenty t None) (wire_payload (payload n)) (nbt_node None (payload n))"
      if n: "n \<in> set ns" and f: "2 * length (wire_payload (payload n)) + 2 \<le> f" for n f
    proof -
      have "size (payload n) < size p"
        using size_child [OF n] tag_list by simp
      moreover have "wf_payload (payload n)" "type_of n = t"
        using t(5) n by (induction ns) (auto simp: wf_elems_Cons)
      ultimately show ?thesis using less.IH [of "payload n" f None] f by auto
    qed
    moreover have "2 * length (wire_elems ns) + 3 \<le> g"
      using less.prems(2) g tag_list by simp
    ultimately have "parses (read_list_loop g plenty [] t (length ns)) (wire_elems ns) ns"
      using parses_list_loop [OF t(5), of g "[]"] by simp
    from parses_list [where loop = "read_list_loop g plenty []", OF this t(5,2,3,4)]
    show ?thesis unfolding tag_list t(1) by (simp add: read_payload_def del: wire_payload.simps)
  next
    case (tag_compound ns)
    have "parses (parse_unnamed_tag f plenty (type_of n) nm) (wire_payload (payload n)) (nbt_node nm (payload n))"
      if n: "n \<in> set ns" and f: "2 * length (wire_payload (payload n)) + 2 \<le> f" for n f nm
    proof -
      have "size (payload n) < size p"
        using size_child [OF n] tag_compound by simp
      moreover have "wf_members ns" using less.prems(1) tag_compound by simp
      then have "wf_payload (payload n)" using n by (rule wf_members_payload)
      ultimately show ?thesis using less.IH [of "payload n" f nm] f by auto
    qed
    moreover have "2 * length (wire_members ns) + 3 \<le> g" "wf_members ns"
      using less.prems g tag_compound by simp_all
    ultimately have "parses (read_compound_loop g plenty []) (wire_members ns @ [0]) ns"
      using parses_compound_loop [of ns g "[]"] by simp
    from parses_compound [OF this] show ?thesis unfolding tag_compound by (simp add: read_payload_def)
  next
    case (tag_byte_array d n)
    then show ?thesis using parses_byte_array [of d n] less.prems(1) by (simp add: read_payload_def)
  next
    case (tag_int_array d n)
    then show ?thesis using parses_int_array [of d n] less.prems(1) by (simp add: read_payload_def)
  next
    case (tag_string t)
    then obtain u where "t = Some u" "wf_cstr u" using less.prems(1) by (auto split: option.splits)
    with parses_mapr [OF parses_string [OF this(2)], of "\<lambda>u. tag_string (Some u)"] tag_string show ?thesis
      by (simp add: read_payload_def wire_name_def)
  qed (use less.prems(1) in \<open>auto simp: read_payload_def intro!: parses_scalar\<close>)
  then show ?case unfolding g by (rule parses_unnamed)
qed

lemma parses_named:
  assumes "wf_nbt nd" and "2 * length (wire_payload (payload nd)) + 2 \<le> f"
  shows "parses (parse_named_tag f plenty) (wire_node nd) nd"
proof -
  from wf_name [OF assms(1)] obtain n where n: "name nd = Some n" "wf_cstr n" by blast
  have wf: "wf_payload (payload nd)" using assms(1) by (simp add: wf_nbt_def)
  have nd: "nbt_node (Some n) (payload nd) = nd" using n by (cases nd) simp
  have "parses (orfail (parse_unnamed_tag f plenty (type_of nd) (Some n)) ret) (wire_payload (payload nd)) nd"
    using parses_orfail [OF parses_payload [OF wf assms(2), of "Some n"] parses_ret, of "wire_payload (payload nd)"]
    by (simp add: nd)
  from parses_bind [where k = "\<lambda>nm. orfail (parse_unnamed_tag f plenty (type_of nd) nm) ret",
      OF parses_string [OF n(2)] this refl] wf
  show ?thesis unfolding parse_named_tag_def wire_node_def
    by (intro parses_reading [of "[type_value (type_of nd)]"])
      (simp_all add: n(1) wire_name_def type_of_value_payload)
qed

section \<open>Properties\<close>

text \<open>C1. NBT round trip: a well-formed tree that is written to a buffer, followed by any other
  data, is parsed back to the same tree by \<^verbatim>\<open>nbt_parse2\<close> (which leaves the pointer exactly behind it) and
  by \<^verbatim>\<open>nbt_parse\<close>, whenever the length argument allows that many bytes.\<close>

theorem nbt_roundtrip:
  assumes "wf_nbt nd" and "length (wire_node nd) \<le> unat n" and "length (wire_node nd) \<le> 2 ^ 63"
  shows "\<exists>b s. nbt_dump_binary (\<lambda>_. True) (Some nd) = Some (b, NBT_OK) \<and>
    nbt_parse2 plenty (contents b @ rest) n = Some (Some nd, s) \<and> memory s = rest \<and>
    plen s = n - of_nat (length (contents b)) \<and> errno s = NBT_OK \<and>
    nbt_parse plenty (contents b @ rest) n = Some (Some nd, NBT_OK)"
proof -
  have "length (contents BUFFER_INIT) + length (wire_node nd) \<le> 2 ^ 63" using assms(3) by simp
  with dumps_node [OF assms(1), of "\<lambda>_. True"] buffer_inv_init(1)
  obtain b where b: "nbt_dump_binary (\<lambda>_. True) (Some nd) = Some (b, NBT_OK)" "contents b = wire_node nd"
    by (cases rule: sink.writesD) (auto simp: nbt_dump_binary_def)
  have "2 * length (wire_payload (payload nd)) + 2 \<le> parse_fuel (wire_node nd @ rest)"
    by (simp add: parse_fuel_def wire_node_def)
  from parses_named [OF assms(1) this, unfolded parses_def, rule_format,
      of "parse_start (wire_node nd @ rest) n" rest] assms(2)
  obtain s where "parse_named_tag (parse_fuel (wire_node nd @ rest)) plenty
      (parse_start (wire_node nd @ rest) n) = Some (Some nd, s)" "memory s = rest"
    "plen s = n - of_nat (length (wire_node nd))" "errno s = NBT_OK"
    by (auto simp: parse_start_def)
  with b show ?thesis by (simp add: nbt_parse2_def nbt_parse_def)
qed

theorem nbt_roundtrip_witness:
  "\<exists>b s. nbt_dump_binary (\<lambda>_. True) (Some sample_tree) = Some (b, NBT_OK) \<and>
    nbt_parse2 plenty (contents b @ [7, 7]) 100 = Some (Some sample_tree, s) \<and> memory s = [7, 7] \<and>
    plen s = 100 - of_nat (length (contents b)) \<and> errno s = NBT_OK \<and>
    nbt_parse plenty (contents b @ [7, 7]) 100 = Some (Some sample_tree, NBT_OK)"
  by (rule nbt_roundtrip) (simp_all add: wf_sample_tree length_sample_tree)

end
