(* ===== verification/NbtSafe.thy ===== *)
theory NbtSafe
  imports NbtParse
begin

text \<open>
  The NBT parser on arbitrary input: it never reads outside the length it is given, it always
  returns, it reports every failure in \<^verbatim>\<open>errno\<close>, and the fuel of the model is always enough. The
  one exception is the allocation failure in \<^verbatim>\<open>read_list\<close> that frees an uninitialised list.
\<close>

section \<open>Readers that stay inside their input\<close>

text \<open>
  \<open>outcome m s v s'\<close>: the reader consumed some \<open>j\<close> bytes of the allowed ones; a failure is recorded in
  \<^verbatim>\<open>errno\<close>, a success consumed at least \<open>m\<close> bytes and left \<^verbatim>\<open>errno\<close> alone. \<open>confined L m r\<close>: on every state
  with at most \<open>L\<close> bytes of memory, all within the object, the reader returns with such an outcome.
\<close>

definition outcome :: "nat \<Rightarrow> pstate \<Rightarrow> 'a option \<Rightarrow> pstate \<Rightarrow> bool" where
  "outcome m s v s' \<longleftrightarrow>
     (\<exists>j. j \<le> unat (plen s) \<and> memory s' = drop j (memory s) \<and> plen s' = plen s - of_nat j \<and>
        (case v of None \<Rightarrow> errno s' \<noteq> NBT_OK | Some _ \<Rightarrow> m \<le> j \<and> errno s' = errno s))"

definition within :: "nat \<Rightarrow> pstate \<Rightarrow> bool" where
  "within L s \<longleftrightarrow> unat (plen s) \<le> length (memory s) \<and> length (memory s) \<le> L"

definition confined :: "nat \<Rightarrow> nat \<Rightarrow> 'a reader \<Rightarrow> bool" where
  "confined L m r \<longleftrightarrow> (\<forall>s. within L s \<longrightarrow> (\<exists>v s'. r s = Some (v, s') \<and> outcome m s v s'))"

lemma confined_error: "confined L m parse_error"
  by (auto simp: confined_def parse_error_def outcome_def intro!: exI [of _ 0])

lemma confined_ret: "confined L 0 (ret x)"
  by (auto simp: confined_def ret_def outcome_def intro!: exI [of _ 0])

lemma confined_weaken: "confined L m r \<Longrightarrow> m' \<le> m \<Longrightarrow> confined L m' r"
  unfolding confined_def outcome_def by (fastforce split: option.splits)

lemma within_step:
  assumes "within L s" and "j \<le> unat (plen s)" and "memory t = drop j (memory s)"
    and "plen t = plen s - of_nat j" and "i \<le> j"
  shows "within (L - i) t \<and> i \<le> L"
  using assms unat_sub_len [OF assms(2)] by (auto simp: within_def)

lemma outcome_trans:
  assumes "j \<le> unat (plen s)" and "memory t = drop j (memory s)" and "plen t = plen s - of_nat j"
    and "v \<noteq> None \<Longrightarrow> i \<le> j \<and> errno t = errno s" and "outcome m t v u"
  shows "outcome (i + m) s v u"
proof -
  from assms(5) obtain k where k: "k \<le> unat (plen t)" "memory u = drop k (memory t)"
    "plen u = plen t - of_nat k" "case v of None \<Rightarrow> errno u \<noteq> NBT_OK | Some _ \<Rightarrow> m \<le> k \<and> errno u = errno t"
    by (auto simp: outcome_def)
  have "unat (plen t) = unat (plen s) - j" unfolding assms(3) by (rule unat_sub_len [OF assms(1)])
  with k assms show ?thesis unfolding outcome_def
    by (intro exI [of _ "j + k"]) (auto simp: diff_diff_eq add.commute split: option.splits)
qed

lemma confined_bind:
  assumes r: "confined L i r" and k: "\<And>x. i \<le> L \<Longrightarrow> confined (L - i) m (k (Some x))"
    and fail: "\<And>s. errno s \<noteq> NBT_OK \<Longrightarrow> within L s \<Longrightarrow> \<exists>s'. k None s = Some (None, s') \<and> outcome (i + m) s (None :: 'b option) s'"
  shows "confined L (i + m) (\<lambda>s. do { (v, s) \<leftarrow> r s; (k v s :: ('b option \<times> pstate) option) })"
  unfolding confined_def
proof (intro allI impI)
  fix s :: pstate
  assume s: "within L s"
  with r obtain v t where t: "r s = Some (v, t)" "outcome i s v t" unfolding confined_def by blast
  then obtain j where j: "j \<le> unat (plen s)" "memory t = drop j (memory s)" "plen t = plen s - of_nat j"
    "case v of None \<Rightarrow> errno t \<noteq> NBT_OK | Some _ \<Rightarrow> i \<le> j \<and> errno t = errno s" by (auto simp: outcome_def)
  show "\<exists>v s'. do { (v, s) \<leftarrow> r s; k v s } = Some (v, s') \<and> outcome (i + m) s v s'"
  proof (cases v)
    case None
    have "within L t" using within_step [OF s j(1-3), of 0] by simp
    with fail [of t] j(4) None obtain u where u: "k None t = Some (None, u)" "outcome (i + m) t (None :: 'b option) u"
      by auto
    have "outcome (0 + (i + m)) s (None :: 'b option) u"
      by (rule outcome_trans [OF j(1-3) _ u(2)]) simp
    with t u None show ?thesis by auto
  next
    case (Some x)
    with j have "i \<le> j" "errno t = errno s" by simp_all
    with within_step [OF s j(1-3)] k [of x] obtain w u where u: "k (Some x) t = Some (w, u)" "outcome m t w u"
      unfolding confined_def by blast
    from outcome_trans [OF j(1-3) _ u(2), of i] \<open>i \<le> j\<close> \<open>errno t = errno s\<close> t u Some show ?thesis by auto
  qed
qed

lemma confined_orfail:
  assumes "confined L i r" and "\<And>x. i \<le> L \<Longrightarrow> confined (L - i) m (k x)"
  shows "confined L (i + m) (orfail r k)"
  unfolding orfail_def [abs_def]
  by (rule confined_bind [where k = "\<lambda>v s. case v of None \<Rightarrow> parse_error s | Some x \<Rightarrow> k x s"])
    (use assms in \<open>auto simp: parse_error_def outcome_def intro!: exI [of _ 0]\<close>)

lemma confined_reading:
  assumes k: "\<And>bs. unat n \<le> L \<Longrightarrow> length bs = unat n \<Longrightarrow> confined (L - unat n) m (k bs)"
  shows "confined L (unat n + m) (reading n k)"
  unfolding confined_def
proof (intro allI impI)
  fix s :: pstate
  assume s: "within L s"
  show "\<exists>v s'. reading n k s = Some (v, s') \<and> outcome (unat n + m) s v s'"
  proof (cases "plen s < n")
    case True
    then show ?thesis
      by (auto simp: reading_def orfail_def read_generic_def parse_error_def outcome_def intro!: exI [of _ 0])
  next
    case False
    then have n: "unat n \<le> unat (plen s)" by (simp add: word_less_nat_alt)
    let ?t = "s\<lparr>memory := drop (unat n) (memory s), plen := plen s - n\<rparr>"
    have w: "within (L - unat n) ?t \<and> unat n \<le> L" using within_step [OF s n, of ?t "unat n"] by simp
    have "length (take (unat n) (memory s)) = unat n" using s n by (simp add: within_def)
    with k w obtain v u where u: "k (take (unat n) (memory s)) ?t = Some (v, u)" "outcome m ?t v u"
      unfolding confined_def by blast
    have "reading n k s = Some (v, u)"
      using False s n u(1) by (simp add: reading_def orfail_def read_generic_def memrd_def within_def)
    moreover have "outcome (unat n + m) s v u"
      by (rule outcome_trans [OF n _ _ _ u(2)]) simp_all
    ultimately show ?thesis by blast
  qed
qed

lemma confined_allocating: "confined L m k \<Longrightarrow> confined L m (allocating mal n k)"
proof -
  assume k: "confined L m k"
  show ?thesis unfolding confined_def
  proof (intro allI impI)
    fix s :: pstate
    assume "within L s"
    then have "within L (s\<lparr>allocs := Suc (allocs s)\<rparr>)" by (simp add: within_def)
    with k obtain v u where u: "k (s\<lparr>allocs := Suc (allocs s)\<rparr>) = Some (v, u)"
      "outcome m (s\<lparr>allocs := Suc (allocs s)\<rparr>) v u" unfolding confined_def by blast
    then have "outcome m s v u" by (auto simp: outcome_def split: option.splits)
    with u show "\<exists>v s'. allocating mal n k s = Some (v, s') \<and> outcome m s v s'"
      by (auto simp: allocating_def checked_malloc_def parse_error_def outcome_def intro!: exI [of _ 0])
  qed
qed

lemma confined_if:
  "confined L m r \<Longrightarrow> confined L m r' \<Longrightarrow> confined L m (\<lambda>s. if P s then r s else r' s)"
  by (simp add: confined_def)

lemma confined_read:
  assumes "m \<le> unat n" and "\<And>bs. unat n \<le> L \<Longrightarrow> length bs = unat n \<Longrightarrow> confined (L - unat n) 0 (k bs)"
  shows "confined L m (reading n k)"
  using confined_weaken [OF confined_reading [OF assms(2)]] assms(1) by simp

lemma confined_mapr:
  "confined L m r \<Longrightarrow> confined L m (\<lambda>s. do { (t, s) \<leftarrow> r s; Some (map_option f t, s) })"
  unfolding confined_def outcome_def by (fastforce split: option.splits)

section \<open>The parser is confined to its input\<close>

lemmas confined_intros = confined_read confined_allocating confined_if confined_error confined_ret

lemma confined_string: "confined L 2 (read_string mal)"
  unfolding read_string_def Let_def by (intro confined_intros) simp_all

lemma confined_byte_array: "confined L 1 (read_byte_array mal)"
  unfolding read_byte_array_def Let_def by (intro confined_intros) simp_all

lemma confined_int_array: "confined L 1 (read_int_array mal)"
  unfolding read_int_array_def Let_def by (intro confined_intros) simp_all

lemma confined_scalar: "1 \<le> unat n \<Longrightarrow> confined L 1 (copy_into_payload n f)"
  unfolding copy_into_payload_def by (intro confined_intros) simp_all

lemma confined_compound: "confined L m loop \<Longrightarrow> confined L m (read_compound mal loop)"
  unfolding read_compound_def
  by (intro confined_allocating) (use confined_orfail [of L m loop 0, OF _ confined_ret] in simp)

lemma confined_list:
  assumes node: "\<And>i. mal i sizeof_nbt_node"
    and loop: "\<And>t n. 5 \<le> L \<Longrightarrow> confined (L - 5) 0 (loop t n)"
  shows "confined L 1 (read_list mal loop)"
proof -
  have sentinel: "(\<lambda>s. case checked_malloc mal sizeof_nbt_node s of (False, s) \<Rightarrow> None | (True, s) \<Rightarrow> k s) =
    allocating mal sizeof_nbt_node k" for k :: "nbt_payload reader"
    by (simp add: fun_eq_iff allocating_def checked_malloc_def node)
  have body: "confined (L - unat (1 :: u64) - unat (4 :: u64)) 0 (orfail (loop t n) (\<lambda>ns. ret (f ns)))"
    if "unat (1 :: u64) \<le> L" "unat (4 :: u64) \<le> L - unat (1 :: u64)" for t n f
  proof -
    have "5 \<le> L" using that by simp
    from confined_orfail [OF loop [OF this] confined_ret, of t n f] show ?thesis by (simp add: diff_diff_eq)
  qed
  show ?thesis unfolding read_list_def sentinel Let_def
    by (intro confined_allocating confined_read body) simp_all
qed

lemma confined_finish:
  assumes "confined L m r"
  shows "confined L m (\<lambda>s. do { (p, s) \<leftarrow> r s; finish_node nm p s })"
  unfolding confined_def
proof (intro allI impI)
  fix s :: pstate
  assume "within L s"
  with assms obtain p t where t: "r s = Some (p, t)" "outcome m s p t" unfolding confined_def by blast
  then show "\<exists>v s'. do { (p, s) \<leftarrow> r s; finish_node nm p s } = Some (v, s') \<and> outcome m s v s'"
    by (cases "errno t = NBT_OK"; cases p) (auto simp: finish_node_def parse_error_def ret_def outcome_def)
qed

lemma confined_payload:
  assumes "\<And>i. mal i sizeof_nbt_node" and "\<And>t n. 5 \<le> L \<Longrightarrow> confined (L - 5) 0 (lloop t n)"
    and "confined L 1 cloop"
  shows "confined L 1 (read_payload mal lloop cloop t)"
proof (cases t)
  case TAG_STRING
  then show ?thesis
    by (simp add: read_payload_def) (rule confined_weaken [OF confined_mapr [OF confined_string]], simp)
qed (use assms in \<open>simp_all add: read_payload_def confined_scalar confined_byte_array confined_int_array
    confined_list confined_compound confined_error del: One_nat_def\<close>)

lemma confined_parse:
  assumes node: "\<And>i. mal i sizeof_nbt_node"
  shows "(\<forall>L t nm. 2 * L + 2 \<le> f \<longrightarrow> confined L 1 (parse_unnamed_tag f mal t nm)) \<and>
    (\<forall>L acc t n. 2 * L + 3 \<le> f \<longrightarrow> confined L 0 (read_list_loop f mal acc t n)) \<and>
    (\<forall>L acc. 2 * L + 1 \<le> f \<longrightarrow> confined L 1 (read_compound_loop f mal acc))"
proof (induction f)
  case (Suc f)
  have parse: "confined L 1 (parse_unnamed_tag f mal t nm)" if "2 * L + 2 \<le> f" for L t nm
    using Suc that by simp
  have list: "confined L 0 (read_list_loop f mal acc t n)" if "2 * L + 3 \<le> f" for L acc t n
    using Suc that by simp
  have comp: "confined L 1 (read_compound_loop f mal acc)" if "2 * L + 1 \<le> f" for L acc
    using Suc that by simp
  have 1: "confined L 1 (parse_unnamed_tag (Suc f) mal t nm)" if "2 * L + 2 \<le> Suc f" for L t nm
    unfolding parse_unnamed_tag.simps
    by (intro confined_allocating confined_finish confined_payload node list comp) (use that in simp_all)
  have 2: "confined L 0 (read_list_loop (Suc f) mal acc t n)" if L: "2 * L + 3 \<le> Suc f" for L acc t n
  proof -
    have "confined L (1 + 0) (orfail (parse_unnamed_tag f mal t None)
      (\<lambda>nd. read_list_loop f mal (acc @ [nd]) t (n - 1)))"
      by (intro confined_orfail parse list) (use L in simp_all)
    from confined_weaken [OF this, of 0] show ?thesis unfolding read_list_loop.simps
      by (intro confined_if confined_allocating confined_ret) simp_all
  qed
  have 3: "confined L 1 (read_compound_loop (Suc f) mal acc)" if L: "2 * L + 1 \<le> Suc f" for L acc
  proof -
    have "confined (L - 1) (2 + (1 + 0)) (orfail (read_string mal) (\<lambda>nm. allocating mal sizeof_nbt_list
        (orfail (parse_unnamed_tag f mal t (Some nm)) (\<lambda>nd. read_compound_loop f mal (acc @ [nd])))))" for t
      by (intro confined_orfail confined_allocating confined_string parse confined_weaken [OF comp])
        (use L in simp_all)
    from confined_weaken [OF this, of 0] show ?thesis unfolding read_compound_loop.simps Let_def
      by (intro confined_read) (simp_all add: confined_ret)
  qed
  from 1 2 3 show ?case by blast
qed simp

lemma parse_unnamed_errno: "parse_unnamed_tag f mal t nm s = Some (Some nd, s') \<Longrightarrow> errno s' = NBT_OK"
  by (cases f)
    (auto simp: parse_unnamed_tag.simps allocating_def parse_error_def finish_node_def ret_def
      split: prod.splits bool.splits if_splits option.splits bind_splits)

lemma confined_named:
  assumes node: "\<And>i. mal i sizeof_nbt_node" and f: "2 * L + 2 \<le> f"
  shows "confined L 4 (parse_named_tag f mal)"
proof -
  have parse: "confined K 1 (parse_unnamed_tag f mal t nm)" if "K \<le> L" for K t nm
    using confined_parse [of mal f, OF node] f that by simp
  have ok: "confined K (1 + 0) (orfail (parse_unnamed_tag f mal t nm) ret)" if "K \<le> L" for K t nm
    by (intro confined_orfail confined_ret parse that)
  have fail: "\<exists>s'. orfail (parse_unnamed_tag f mal t nm) ret s = Some (None, s') \<and>
      outcome 3 s (None :: nbt_node option) s'"
    if e: "errno s \<noteq> NBT_OK" and w: "within L s" for s t nm
  proof -
    from parse [of L t nm] w obtain v u where u: "parse_unnamed_tag f mal t nm s = Some (v, u)" "outcome 1 s v u"
      unfolding confined_def by blast
    have "v = None" using parse_unnamed_errno [of f mal t nm s _ u] u e by (cases v) (auto simp: outcome_def)
    with u show ?thesis by (auto simp: orfail_def parse_error_def outcome_def)
  qed
  have named: "confined K (2 + 1) (\<lambda>s. do { (nm, s) \<leftarrow> read_string mal s; orfail (parse_unnamed_tag f mal t nm) ret s })"
    if "K \<le> L" for K t
    by (rule confined_bind [OF confined_string])
      (use ok fail that in \<open>auto simp: within_def\<close>)
  have "confined L (unat (1 :: u64) + (2 + 1)) (parse_named_tag f mal)"
    unfolding parse_named_tag_def by (intro confined_reading named) simp
  then show ?thesis by simp
qed

section \<open>More fuel never changes a result\<close>

text \<open>\<open>shrinks m r\<close>: the reader never lengthens the stream, and a success consumes at least \<open>m\<close> bytes.
  \<open>same L r r'\<close>: the readers agree on streams of at most \<open>L\<close> bytes.\<close>

definition shrinks :: "nat \<Rightarrow> 'a reader \<Rightarrow> bool" where
  "shrinks m r \<longleftrightarrow> (\<forall>s v s'. r s = Some (v, s') \<longrightarrow>
     length (memory s') \<le> length (memory s) \<and> (v \<noteq> None \<longrightarrow> length (memory s') + m \<le> length (memory s)))"

definition same :: "nat \<Rightarrow> 'a reader \<Rightarrow> 'a reader \<Rightarrow> bool" where
  "same L r r' \<longleftrightarrow> (\<forall>s. length (memory s) \<le> L \<longrightarrow> r s = r' s)"

lemma shrinksD:
  assumes "shrinks m r" and "r s = Some (v, s')"
  shows "length (memory s') \<le> length (memory s)" and "v \<noteq> None \<Longrightarrow> length (memory s') + m \<le> length (memory s)"
  using assms unfolding shrinks_def by blast+

lemma shrinks_error: "shrinks m parse_error"
  by (auto simp: shrinks_def parse_error_def)

lemma shrinks_ret: "shrinks 0 (ret x)"
  by (auto simp: shrinks_def ret_def)

lemma shrinks_weaken: "shrinks m r \<Longrightarrow> m' \<le> m \<Longrightarrow> shrinks m' r"
  using shrinksD [of m r] unfolding shrinks_def by (meson add_left_mono order.trans)

lemma shrinks_generic: "shrinks (unat n) (read_generic n)"
  by (auto simp: shrinks_def read_generic_def memrd_def split: if_splits bind_splits)

lemma shrinks_orfail:
  assumes r: "shrinks i r" and k: "\<And>x. shrinks m (k x)"
  shows "shrinks (i + m) (orfail r k)"
  unfolding shrinks_def
proof (intro allI impI)
  fix s v s'
  assume "orfail r k s = Some (v, s')"
  then obtain w t where w: "r s = Some (w, t)"
    "(case w of None \<Rightarrow> parse_error t | Some x \<Rightarrow> k x t) = Some (v, s')"
    by (auto simp: orfail_def split: bind_splits)
  show "length (memory s') \<le> length (memory s) \<and> (v \<noteq> None \<longrightarrow> length (memory s') + (i + m) \<le> length (memory s))"
  proof (cases w)
    case None
    with w show ?thesis using shrinksD [OF r w(1)] by (auto simp: parse_error_def)
  next
    case (Some x)
    with w(2) have "k x t = Some (v, s')" by simp
    from shrinksD [OF k this] shrinksD [OF r w(1)] Some show ?thesis by auto
  qed
qed

lemma shrinks_reading:
  "m \<le> unat n \<Longrightarrow> (\<And>bs. shrinks 0 (k bs)) \<Longrightarrow> shrinks m (reading n k)"
  unfolding reading_def using shrinks_weaken [OF shrinks_orfail [OF shrinks_generic, of 0 k]] by simp

lemma shrinks_allocating: "shrinks m k \<Longrightarrow> shrinks m (allocating mal n k)"
proof -
  assume k: "shrinks m k"
  show ?thesis unfolding shrinks_def allocating_def checked_malloc_def
    using shrinksD [OF k] by (fastforce simp: parse_error_def split: if_splits)
qed

lemma shrinks_if: "shrinks m r \<Longrightarrow> shrinks m r' \<Longrightarrow> shrinks m (\<lambda>s. if P s then r s else r' s)"
  by (simp add: shrinks_def)

lemma shrinks_mapr: "shrinks m r \<Longrightarrow> shrinks m (\<lambda>s. do { (t, s) \<leftarrow> r s; Some (map_option f t, s) })"
  unfolding shrinks_def by (fastforce split: bind_splits)

lemmas shrinks_intros = shrinks_reading shrinks_allocating shrinks_if shrinks_error shrinks_ret

lemma shrinks_finish:
  assumes r: "shrinks m r"
  shows "shrinks m (\<lambda>s. do { (p, s) \<leftarrow> r s; finish_node nm p s })"
  unfolding shrinks_def
proof (intro allI impI)
  fix s v s'
  assume "do { (p, s) \<leftarrow> r s; finish_node nm p s } = Some (v, s')"
  then obtain p t where t: "r s = Some (p, t)" and f: "finish_node nm p t = Some (v, s')"
    by (auto split: bind_splits)
  from f have "memory s' = memory t \<and> (v \<noteq> None \<longrightarrow> p \<noteq> None)"
    by (auto simp: finish_node_def parse_error_def ret_def split: if_splits option.splits)
  with shrinksD [OF r t] show "length (memory s') \<le> length (memory s) \<and>
      (v \<noteq> None \<longrightarrow> length (memory s') + m \<le> length (memory s))" by simp
qed

lemma shrinks_string: "shrinks 2 (read_string mal)"
  unfolding read_string_def Let_def by (intro shrinks_intros) simp_all

lemma shrinks_list: "(\<And>t n. shrinks 0 (loop t n)) \<Longrightarrow> shrinks 1 (read_list mal loop)"
proof -
  assume loop: "\<And>t n. shrinks 0 (loop t n)"
  have "shrinks (0 + 0) (orfail (loop t n) (\<lambda>ns. ret (f ns)))" for t n and f :: "_ \<Rightarrow> nbt_payload"
    by (intro shrinks_orfail loop shrinks_ret)
  then have "shrinks 1 (reading 1 (\<lambda>tb. reading 4 (\<lambda>m. orfail (loop (g tb) (h m)) (\<lambda>ns. ret (f tb ns :: nbt_payload)))))"
    for g h f by (intro shrinks_reading) simp_all
  then have "shrinks 1 (\<lambda>s. case checked_malloc mal n s of (False, s) \<Rightarrow> None | (True, s) \<Rightarrow>
      reading 1 (\<lambda>tb. reading 4 (\<lambda>m. orfail (loop (g tb) (h m)) (\<lambda>ns. ret (f tb ns :: nbt_payload)))) s)"
    for n g h f
    unfolding shrinks_def checked_malloc_def by (fastforce split: if_splits)
  then show ?thesis unfolding read_list_def Let_def by (intro shrinks_allocating)
qed

lemma shrinks_payload:
  assumes "\<And>t n. shrinks 0 (lloop t n)" and "shrinks 1 cloop"
  shows "shrinks 1 (read_payload mal lloop cloop t)"
proof (cases t)
  case TAG_STRING
  then show ?thesis
    by (simp add: read_payload_def) (rule shrinks_weaken [OF shrinks_mapr [OF shrinks_string]], simp)
next
  case TAG_COMPOUND
  then show ?thesis using shrinks_orfail [OF assms(2) shrinks_ret, of tag_compound]
    by (simp add: read_payload_def read_compound_def shrinks_allocating)
qed (use assms in \<open>auto simp: read_payload_def copy_into_payload_def read_byte_array_def read_int_array_def Let_def
    shrinks_error shrinks_list simp del: One_nat_def intro!: shrinks_intros\<close>)

lemma shrinks_parse:
  "(\<forall>t nm. shrinks 1 (parse_unnamed_tag f mal t nm)) \<and> (\<forall>acc t n. shrinks 0 (read_list_loop f mal acc t n)) \<and>
   (\<forall>acc. shrinks 1 (read_compound_loop f mal acc))"
proof (induction f)
  case 0
  then show ?case
    by (simp add: shrinks_def parse_unnamed_tag.simps read_list_loop.simps read_compound_loop.simps)
next
  case (Suc f)
  then have parse: "shrinks 1 (parse_unnamed_tag f mal t nm)" and list: "shrinks 0 (read_list_loop f mal acc t n)"
    and comp: "shrinks 1 (read_compound_loop f mal acc)" for t nm acc n by simp_all
  have "shrinks 1 (parse_unnamed_tag (Suc f) mal t nm)" for t nm
    unfolding parse_unnamed_tag.simps by (intro shrinks_allocating shrinks_finish shrinks_payload list comp)
  moreover have "shrinks 0 (read_list_loop (Suc f) mal acc t n)" for acc t n
    unfolding read_list_loop.simps
    by (intro shrinks_if shrinks_ret shrinks_allocating shrinks_weaken [OF shrinks_orfail [OF parse list]]) simp
  moreover have "shrinks 1 (read_compound_loop (Suc f) mal acc)" for acc
  proof -
    have "shrinks 0 (orfail (read_string mal) (\<lambda>nm. allocating mal sizeof_nbt_list
        (orfail (parse_unnamed_tag f mal t (Some nm)) (\<lambda>nd. read_compound_loop f mal (acc @ [nd])))))" for t
      by (rule shrinks_weaken [OF shrinks_orfail [OF shrinks_string shrinks_allocating [OF shrinks_orfail [OF parse comp]]]]) simp
    then show ?thesis unfolding read_compound_loop.simps Let_def
      by (intro shrinks_reading) (simp_all add: shrinks_ret)
  qed
  ultimately show ?case by blast
qed

lemma same_refl: "same L r r"
  by (simp add: same_def)

lemma same_orfail:
  assumes r: "same L r r'" and i: "shrinks i r" and k: "\<And>x. i \<le> L \<Longrightarrow> same (L - i) (k x) (k' x)"
  shows "same L (orfail r k) (orfail r' k')"
  unfolding same_def
proof (intro allI impI)
  fix s :: pstate
  assume s: "length (memory s) \<le> L"
  then have eq: "r' s = r s" using r by (simp add: same_def)
  show "orfail r k s = orfail r' k' s"
  proof (cases "\<exists>x t. r s = Some (Some x, t)")
    case True
    then obtain x t where t: "r s = Some (Some x, t)" by blast
    from shrinksD [OF i t] s have "i \<le> L" "length (memory t) \<le> L - i" by auto
    with k [of x] have "k x t = k' x t" by (simp add: same_def)
    with t eq show ?thesis by (simp add: orfail_def)
  next
    case False
    then show ?thesis unfolding orfail_def eq
      by (cases "r s") (auto split: option.splits)
  qed
qed

lemma same_reading:
  "(\<And>bs. unat n \<le> L \<Longrightarrow> same (L - unat n) (k bs) (k' bs)) \<Longrightarrow> same L (reading n k) (reading n k')"
  unfolding reading_def by (rule same_orfail [OF same_refl shrinks_generic])

lemma same_allocating: "same L k k' \<Longrightarrow> same L (allocating mal n k) (allocating mal n k')"
  by (simp add: same_def allocating_def checked_malloc_def)

lemma same_finish:
  "same L r r' \<Longrightarrow> same L (\<lambda>s. do { (p, s) \<leftarrow> r s; k p s }) (\<lambda>s. do { (p, s) \<leftarrow> r' s; k p s })"
  by (simp add: same_def)

lemma same_if: "same L r r' \<Longrightarrow> same L q q' \<Longrightarrow> same L (\<lambda>s. if P then r s else q s) (\<lambda>s. if P then r' s else q' s)"
  by (simp add: same_def)

lemma same_list:
  assumes loop: "\<And>t n. 5 \<le> L \<Longrightarrow> same (L - 5) (loop t n) (loop' t n)"
    and sh: "\<And>t n. shrinks 0 (loop t n)"
  shows "same L (read_list mal loop) (read_list mal loop')"
proof -
  have body: "same (L - unat (1 :: u64) - unat (4 :: u64)) (orfail (loop t n) (\<lambda>ns. ret (f ns)))
      (orfail (loop' t n) (\<lambda>ns. ret (f ns)))"
    if "unat (1 :: u64) \<le> L" "unat (4 :: u64) \<le> L - unat (1 :: u64)" for t n and f :: "_ \<Rightarrow> nbt_payload"
  proof -
    have "5 \<le> L" using that by simp
    from same_orfail [OF loop [OF this] sh same_refl, where k = "\<lambda>ns. ret (f ns)"] show ?thesis
      by (simp add: diff_diff_eq)
  qed
  have "same L (reading 1 (\<lambda>tb. reading 4 (\<lambda>m. orfail (loop (g tb) (h m)) (\<lambda>ns. ret (f tb ns :: nbt_payload)))))
      (reading 1 (\<lambda>tb. reading 4 (\<lambda>m. orfail (loop' (g tb) (h m)) (\<lambda>ns. ret (f tb ns)))))" for g h f
    by (intro same_reading body)
  then have "same L (\<lambda>s. case checked_malloc mal n s of (False, s) \<Rightarrow> None | (True, s) \<Rightarrow>
      reading 1 (\<lambda>tb. reading 4 (\<lambda>m. orfail (loop (g tb) (h m)) (\<lambda>ns. ret (f tb ns :: nbt_payload)))) s)
    (\<lambda>s. case checked_malloc mal n s of (False, s) \<Rightarrow> None | (True, s) \<Rightarrow>
      reading 1 (\<lambda>tb. reading 4 (\<lambda>m. orfail (loop' (g tb) (h m)) (\<lambda>ns. ret (f tb ns)))) s)" for n g h f
    by (simp add: same_def checked_malloc_def)
  then show ?thesis unfolding read_list_def Let_def by (intro same_allocating)
qed

lemma same_payload:
  assumes "\<And>t n. 5 \<le> L \<Longrightarrow> same (L - 5) (lloop t n) (lloop' t n)" and "\<And>t n. shrinks 0 (lloop t n)"
    and "same L cloop cloop'" and "shrinks 1 cloop"
  shows "same L (read_payload mal lloop cloop t) (read_payload mal lloop' cloop' t)"
  by (cases t) (simp_all add: read_payload_def read_compound_def same_refl same_list [OF assms(1,2)]
      same_allocating [OF same_orfail [OF assms(3,4) same_refl]])

lemma same_parse:
  "(\<forall>L t nm. 2 * L + 2 \<le> f \<longrightarrow> same L (parse_unnamed_tag f mal t nm) (parse_unnamed_tag (Suc f) mal t nm)) \<and>
   (\<forall>L acc t n. 2 * L + 3 \<le> f \<longrightarrow> same L (read_list_loop f mal acc t n) (read_list_loop (Suc f) mal acc t n)) \<and>
   (\<forall>L acc. 2 * L + 1 \<le> f \<longrightarrow> same L (read_compound_loop f mal acc) (read_compound_loop (Suc f) mal acc))"
proof (induction f)
  case (Suc f)
  have parse: "same L (parse_unnamed_tag f mal t nm) (parse_unnamed_tag (Suc f) mal t nm)" if "2 * L + 2 \<le> f" for L t nm
    using Suc that by simp
  have list: "same L (read_list_loop f mal acc t n) (read_list_loop (Suc f) mal acc t n)" if "2 * L + 3 \<le> f" for L acc t n
    using Suc that by simp
  have comp: "same L (read_compound_loop f mal acc) (read_compound_loop (Suc f) mal acc)" if "2 * L + 1 \<le> f" for L acc
    using Suc that by simp
  have sp: "shrinks 1 (parse_unnamed_tag f mal t nm)" and sl: "shrinks 0 (read_list_loop f mal acc t n)"
    and sc: "shrinks 1 (read_compound_loop f mal acc)" for t nm acc n using shrinks_parse [of f mal] by simp_all
  have 1: "same L (parse_unnamed_tag (Suc f) mal t nm) (parse_unnamed_tag (Suc (Suc f)) mal t nm)"
    if "2 * L + 2 \<le> Suc f" for L t nm
    unfolding parse_unnamed_tag.simps
    by (intro same_allocating same_finish same_payload list comp sl sc) (use that in simp_all)
  have 2: "same L (read_list_loop (Suc f) mal acc t n) (read_list_loop (Suc (Suc f)) mal acc t n)"
    if L: "2 * L + 3 \<le> Suc f" for L acc t n
  proof -
    let ?A = "\<lambda>g s. if n = 0 then ret acc s else allocating mal sizeof_nbt_list
      (orfail (parse_unnamed_tag g mal t None) (\<lambda>nd. read_list_loop g mal (acc @ [nd]) t (n - 1))) s"
    have "read_list_loop (Suc g) mal acc t n = ?A g" for g by (rule ext, rule read_list_loop.simps)
    moreover have "same L (?A f) (?A (Suc f))"
      by (intro same_if same_refl same_allocating same_orfail [OF parse sp list]) (use L in simp_all)
    ultimately show ?thesis by presburger
  qed
  have 3: "same L (read_compound_loop (Suc f) mal acc) (read_compound_loop (Suc (Suc f)) mal acc)"
    if L: "2 * L + 1 \<le> Suc f" for L acc
  proof -
    let ?B = "\<lambda>g t. orfail (read_string mal) (\<lambda>nm. allocating mal sizeof_nbt_list
      (orfail (parse_unnamed_tag g mal t (Some nm)) (\<lambda>nd. read_compound_loop g mal (acc @ [nd]))))"
    let ?A = "\<lambda>g. reading 1 (\<lambda>tb. if hd (be2ne tb) = 0 then ret acc else ?B g (nbt_type_of (hd (be2ne tb))))"
    have "read_compound_loop (Suc g) mal acc = ?A g" for g
      by (rule ext) (simp only: read_compound_loop.simps Let_def)
    moreover have "same (L - unat (1 :: u64)) (?B f t) (?B (Suc f) t)" for t
      by (intro same_orfail [OF same_refl shrinks_string] same_allocating same_orfail [OF parse sp comp])
        (use L in simp_all)
    then have "same L (?A f) (?A (Suc f))" by (intro same_reading) (simp add: same_refl)
    ultimately show ?thesis by presburger
  qed
  from 1 2 3 show ?case by blast
qed simp

lemma same_named_Suc:
  assumes "2 * L + 2 \<le> f"
  shows "same L (parse_named_tag f mal) (parse_named_tag (Suc f) mal)"
proof -
  have parse: "same L (parse_unnamed_tag f mal t nm) (parse_unnamed_tag (Suc f) mal t nm)" for t nm
    using same_parse [of f mal] assms by simp
  have "same L (\<lambda>s. do { (nm, s) \<leftarrow> read_string mal s; orfail (parse_unnamed_tag f mal t nm) ret s })
    (\<lambda>s. do { (nm, s) \<leftarrow> read_string mal s; orfail (parse_unnamed_tag (Suc f) mal t nm) ret s })" for t
    using parse shrinksD(1) [OF shrinks_string, of mal]
    by (fastforce simp: same_def orfail_def split: bind_splits)
  then have "same (L - unat (1 :: u64)) (\<lambda>s. do { (nm, s) \<leftarrow> read_string mal s; orfail (parse_unnamed_tag f mal t nm) ret s })
    (\<lambda>s. do { (nm, s) \<leftarrow> read_string mal s; orfail (parse_unnamed_tag (Suc f) mal t nm) ret s })" for t
    by (simp add: same_def)
  then show ?thesis unfolding parse_named_tag_def by (intro same_reading)
qed

lemma parse_named_fuel:
  assumes "2 * length (memory s) + 2 \<le> f"
  shows "parse_named_tag (f + k) mal s = parse_named_tag f mal s"
proof (induction k)
  case (Suc k)
  have "same (length (memory s)) (parse_named_tag (f + k) mal) (parse_named_tag (Suc (f + k)) mal)"
    by (rule same_named_Suc) (use assms in simp)
  with Suc show ?case by (simp add: same_def)
qed simp

section \<open>Properties\<close>

text \<open>C2. \<^verbatim>\<open>nbt_parse2\<close> on any bytes of which at least \<open>n\<close> exist, as long as no allocation of a node
  fails (allocations of strings, arrays and list cells may): it returns, having read only \<open>j \<le> n\<close> bytes
  and advanced the pointer and the length by exactly those; it returns NULL with \<^verbatim>\<open>errno\<close> set, or a
  tree with \<^verbatim>\<open>errno\<close> clear and at least four bytes consumed.\<close>

theorem nbt_parse2_safe:
  assumes "unat n \<le> length mem" and "\<forall>i. mal i sizeof_nbt_node"
  shows "\<exists>v s j. nbt_parse2 mal mem n = Some (v, s) \<and> j \<le> unat n \<and> memory s = drop j mem \<and>
    plen s = n - of_nat j \<and> (case v of None \<Rightarrow> errno s \<noteq> NBT_OK | Some _ \<Rightarrow> 4 \<le> j \<and> errno s = NBT_OK)"
proof -
  have "confined (length mem) 4 (parse_named_tag (parse_fuel mem) mal)"
    by (rule confined_named) (use assms(2) in \<open>simp_all add: parse_fuel_def\<close>)
  moreover have "within (length mem) (parse_start mem n)"
    using assms(1) by (simp add: within_def parse_start_def)
  ultimately obtain v s where "nbt_parse2 mal mem n = Some (v, s)" "outcome 4 (parse_start mem n) v s"
    unfolding nbt_parse2_def confined_def by blast
  then show ?thesis by (auto simp: outcome_def parse_start_def split: option.splits)
qed

theorem nbt_parse2_safe_witness:
  "\<exists>v s j. nbt_parse2 (\<lambda>i k. k = 32) [8, 0, 1, 65, 0, 9, 1] 7 = Some (v, s) \<and> j \<le> unat (7 :: u64) \<and>
    memory s = drop j [8, 0, 1, 65, 0, 9, 1] \<and> plen s = 7 - of_nat j \<and>
    (case v of None \<Rightarrow> errno s \<noteq> NBT_OK | Some _ \<Rightarrow> 4 \<le> j \<and> errno s = NBT_OK)"
  by (rule nbt_parse2_safe) (simp_all add: sizeof_nbt_node_def)

text \<open>The fuel of the model is no restriction: on every memory, length and allocator, any amount of
  fuel beyond \<open>parse_fuel\<close> gives the same result, so the parser's recursion ends on every input.\<close>

theorem nbt_parse2_fuel:
  "parse_named_tag (parse_fuel mem + k) mal (parse_start mem n) = nbt_parse2 mal mem n"
  unfolding nbt_parse2_def by (rule parse_named_fuel) (simp add: parse_start_def parse_fuel_def)

text \<open>If the allocation of a list's sentinel fails, the error path of \<^verbatim>\<open>read_list\<close> walks the links of a
  list that was never initialised: parsing an empty list with the fourth allocation refused is undefined,
  while the refusal of any earlier one is reported as \<open>NBT_EMEM\<close> and no later one is made.\<close>

theorem read_list_sentinel_oom:
  "nbt_parse (\<lambda>i _. i \<noteq> k) [9, 0, 0, 1, 0, 0, 0, 0] 8 =
     (if k = 3 then None
      else if k < 3 then Some (None, NBT_EMEM)
      else Some (Some (nbt_node (Some []) (tag_list (Some TAG_BYTE) [])), NBT_OK))"
proof -
  note defs = nbt_parse_def parse_fuel_def parse_start_def parse_named_tag_def reading_def orfail_def
    read_generic_def memrd_def read_string_def allocating_def checked_malloc_def parse_error_def ret_def
    read_payload_def finish_node_def read_list_def nbt_type_of_def
    parse_unnamed_tag.simps(2) [of 18, unfolded Suc_numeral add_num_simps]
    read_list_loop.simps(2) [of 17, unfolded Suc_numeral add_num_simps] Let_def
  consider "k = 0" | "k = 1" | "k = 2" | "k = 3" | "3 < k" by linarith
  then show ?thesis by cases (simp_all add: defs)
qed

end
