(* ===== verification/NbtWalk.thy ===== *)
theory NbtWalk
  imports NbtTree
begin

text \<open>
  The NBT walkers of \<^verbatim>\<open>src/datautils.c\<close> (lines 380--507): they compute the length of an encoded
  tree in a receive buffer of \<open>max_len\<close> bytes without building it, and the decoder then trusts that
  length. Moving the pointer outside the object it points into is undefined, as reading there is.

  The fuel bounds the nesting and the iterations of the compound loop; every one of them consumes
  input, so \<open>walk_fuel\<close> (twice the bytes of the object plus two) is always enough.
\<close>

section \<open>Operations\<close>

definition walk_nbt_string :: "ptr \<Rightarrow> u64 \<Rightarrow> int option" where
  "walk_nbt_string source max_len =
     (if max_len < 2 then Some (- 1)
      else do { (len, _) \<leftarrow> dec_be16 source;
                if max_len < 2 + ucast len then Some (- 1)
                else Some (int_of_size (2 + ucast len)) })"

definition walk_nbt_array :: "ptr \<Rightarrow> u64 \<Rightarrow> u64 \<Rightarrow> int option" where
  "walk_nbt_array source max_len type_len =
     (if max_len < 4 then Some (- 1)
      else do { (len, _) \<leftarrow> dec_be32 source;
                if max_len < 4 + ucast len * type_len then Some (- 1)
                else Some (int_of_size (4 + ucast len * type_len)) })"

text \<open>The loop of \<^verbatim>\<open>walk_nbt_list\<close> with \<open>n\<close> elements to go; \<open>walk\<close> is \<^verbatim>\<open>walk_unnamed_nbt\<close> at the element type.\<close>

primrec walk_list_loop :: "(ptr \<Rightarrow> u64 \<Rightarrow> int option) \<Rightarrow> nat \<Rightarrow> ptr \<Rightarrow> u64 \<Rightarrow> int \<Rightarrow> int option" where
  "walk_list_loop walk 0 source max_len sz = Some sz"
| "walk_list_loop walk (Suc n) source max_len sz =
     do { step \<leftarrow> walk source max_len;
          if step < 0 then Some (- 1)
          else do { source \<leftarrow> adv (nat step) source;
                    sz \<leftarrow> iadd sz step;
                    walk_list_loop walk n source (max_len - size_of_int step) sz } }"

definition walk_nbt_list :: "(ptr \<Rightarrow> nbt_type \<Rightarrow> u64 \<Rightarrow> int option) \<Rightarrow> ptr \<Rightarrow> u64 \<Rightarrow> int option" where
  "walk_nbt_list walk source max_len =
     (if max_len < 5 then Some (- 1)
      else do { (type, source) \<leftarrow> dec_byte source;
                (count, source) \<leftarrow> dec_be32 source;
                walk_list_loop (\<lambda>s. walk s (nbt_type_of type)) (nat (sint count)) source max_len 5 })"

text \<open>The switch of \<^verbatim>\<open>walk_unnamed_nbt\<close>, given the walkers of lists and compounds.\<close>

definition walk_payload ::
  "(ptr \<Rightarrow> nbt_type \<Rightarrow> u64 \<Rightarrow> int option) \<Rightarrow> (ptr \<Rightarrow> u64 \<Rightarrow> int option) \<Rightarrow> ptr \<Rightarrow> nbt_type \<Rightarrow> u64 \<Rightarrow> int option" where
  "walk_payload walk compound source type max_len =
     (case type of
        TAG_BYTE \<Rightarrow> Some 1
      | TAG_SHORT \<Rightarrow> Some 2
      | TAG_INT \<Rightarrow> Some 4
      | TAG_LONG \<Rightarrow> Some 8
      | TAG_FLOAT \<Rightarrow> Some 4
      | TAG_DOUBLE \<Rightarrow> Some 8
      | TAG_BYTE_ARRAY \<Rightarrow> walk_nbt_array source max_len 1
      | TAG_INT_ARRAY \<Rightarrow> walk_nbt_array source max_len 4
      | TAG_LONG_ARRAY \<Rightarrow> walk_nbt_array source max_len 8
      | TAG_STRING \<Rightarrow> walk_nbt_string source max_len
      | TAG_LIST \<Rightarrow> walk_nbt_list walk source max_len
      | TAG_COMPOUND \<Rightarrow> compound source max_len
      | _ \<Rightarrow> Some (- 1))"

text \<open>One iteration of the loop of \<^verbatim>\<open>walk_nbt_compound\<close>; \<open>again\<close> is the rest of the loop.\<close>

definition compound_step ::
  "(ptr \<Rightarrow> nbt_type \<Rightarrow> u64 \<Rightarrow> int option) \<Rightarrow> (int \<Rightarrow> ptr \<Rightarrow> u64 \<Rightarrow> int option) \<Rightarrow> int \<Rightarrow> ptr \<Rightarrow> u64 \<Rightarrow> int option" where
  "compound_step walk again total_size source max_len =
     (if max_len = 0 then Some (- 1)
      else do { (type, source) \<leftarrow> dec_byte source;
                total_size \<leftarrow> iadd total_size 1;
                if type = 0 then Some total_size
                else do { tag_size \<leftarrow> walk_nbt_string source (max_len - 1);
                          if tag_size < 0 then Some (- 1)
                          else do { source \<leftarrow> adv (nat tag_size) source;
                                    total_size \<leftarrow> iadd total_size tag_size;
                                    let max_len = max_len - 1 - size_of_int tag_size in
                                    do { tag_size \<leftarrow> walk source (nbt_type_of type) max_len;
                                         if tag_size < 0 then Some (- 1)
                                         else do { source \<leftarrow> adv (nat tag_size) source;
                                                   total_size \<leftarrow> iadd total_size tag_size;
                                                   again total_size source (max_len - size_of_int tag_size) } } } } })"

fun walk_unnamed_nbt :: "nat \<Rightarrow> ptr \<Rightarrow> nbt_type \<Rightarrow> u64 \<Rightarrow> int option"
  and walk_nbt_compound :: "nat \<Rightarrow> int \<Rightarrow> ptr \<Rightarrow> u64 \<Rightarrow> int option"
where
  "walk_unnamed_nbt 0 source type max_len = None"
| "walk_unnamed_nbt (Suc fuel) source type max_len =
     do { size \<leftarrow> walk_payload (walk_unnamed_nbt fuel) (walk_nbt_compound fuel 0) source type max_len;
          if size < 0 then Some (- 1)
          else if max_len < size_of_int size then Some (- 1)
          else Some size }"
| "walk_nbt_compound 0 total_size source max_len = None"
| "walk_nbt_compound (Suc fuel) total_size source max_len =
     compound_step (walk_unnamed_nbt fuel) (walk_nbt_compound fuel) total_size source max_len"

declare walk_unnamed_nbt.simps [simp del] walk_nbt_compound.simps [simp del]

definition walk_nbt_with :: "nat \<Rightarrow> ptr \<Rightarrow> u64 \<Rightarrow> int option" where
  "walk_nbt_with fuel source max_len =
     (if max_len = 0 then Some (- 1)
      else do { (type, source) \<leftarrow> dec_byte source;
                size \<leftarrow> walk_nbt_string source (max_len - 1);
                if size < 0 then Some (- 1)
                else do { source \<leftarrow> adv (nat size) source;
                          total \<leftarrow> iadd 1 size;
                          size' \<leftarrow> walk_unnamed_nbt fuel source (nbt_type_of type)
                                   (max_len - 1 - size_of_int size);
                          if size' < 0 then Some (- 1) else iadd total size' } })"

definition walk_fuel :: "ptr \<Rightarrow> nat" where
  "walk_fuel source = 2 * length source + 2"

definition walk_nbt :: "ptr \<Rightarrow> u64 \<Rightarrow> int option" where
  "walk_nbt source max_len = walk_nbt_with (walk_fuel source) source max_len"

definition walk_optnbt :: "ptr \<Rightarrow> u64 \<Rightarrow> int option" where
  "walk_optnbt source max_len =
     (if max_len = 0 then Some (- 1)
      else do { b \<leftarrow> deref source;
                if b \<noteq> type_value TAG_COMPOUND then Some 1 else walk_nbt source max_len })"

definition size_optnbt :: "nbt_node option \<Rightarrow> u64 option" where
  "size_optnbt nbt = (case nbt of None \<Rightarrow> Some 1 | Some nd \<Rightarrow> size_nbt nd)"

section \<open>The fuel is enough\<close>

lemma walk_list_loop_cong:
  "(\<And>s m. length s \<le> length source \<Longrightarrow> walk s m = walk' s m) \<Longrightarrow>
     walk_list_loop walk n source max_len sz = walk_list_loop walk' n source max_len sz"
proof (induction n arbitrary: source max_len sz)
  case (Suc n)
  have "walk_list_loop walk n src m z = walk_list_loop walk' n src m z"
    if "adv k source = Some src" for k src m z
    using that Suc.prems by (intro Suc.IH) (auto simp: adv_Some_iff)
  with Suc.prems [of source max_len] show ?case by (auto intro!: Option.bind_cong)
qed simp

lemma walk_nbt_list_cong:
  assumes "\<And>s t m. length s + 5 \<le> length source \<Longrightarrow> walk s t m = walk' s t m"
  shows "walk_nbt_list walk source max_len = walk_nbt_list walk' source max_len"
proof (cases source)
  case (Cons b src)
  have "walk_list_loop (\<lambda>s. walk s t) n src' m z = walk_list_loop (\<lambda>s. walk' s t) n src' m z"
    if "dec_be32 src = Some (c, src')" for c src' n m z t
    using dec_be32_rest [OF that] Cons by (intro walk_list_loop_cong assms) simp
  then show ?thesis unfolding walk_nbt_list_def Cons by (auto intro!: Option.bind_cong)
qed (simp add: walk_nbt_list_def)

lemma walk_payload_cong:
  assumes "\<And>s t m. length s + 5 \<le> length source \<Longrightarrow> walk s t m = walk' s t m"
    and "compound source max_len = compound' source max_len"
  shows "walk_payload walk compound source t max_len = walk_payload walk' compound' source t max_len"
  using assms walk_nbt_list_cong [OF assms(1)] by (cases t) (simp_all add: walk_payload_def)

lemma compound_step_cong:
  assumes "\<And>s t m. length s + 1 \<le> length source \<Longrightarrow> walk s t m = walk' s t m"
    and "\<And>z s m. length s + 1 \<le> length source \<Longrightarrow> again z s m = again' z s m"
  shows "compound_step walk again z source max_len = compound_step walk' again' z source max_len"
proof (cases source)
  case (Cons b src)
  have "walk s t m = walk' s t m" if "adv k src = Some s" for k s t m
    using that Cons by (intro assms) (auto simp: adv_Some_iff)
  moreover have "again z s m = again' z s m" if "adv k src = Some r" "adv j r = Some s" for k j r z s m
    using that Cons by (intro assms) (auto simp: adv_Some_iff)
  ultimately show ?thesis unfolding compound_step_def Cons Let_def
    by (auto intro!: Option.bind_cong)
qed (simp add: compound_step_def)

lemma walk_fuel_Suc:
  "(\<forall>s t m. 2 * length s + 2 \<le> f \<longrightarrow> walk_unnamed_nbt (Suc f) s t m = walk_unnamed_nbt f s t m) \<and>
   (\<forall>z s m. 2 * length s + 1 \<le> f \<longrightarrow> walk_nbt_compound (Suc f) z s m = walk_nbt_compound f z s m)"
proof (induction f)
  case (Suc f)
  then have walk: "walk_unnamed_nbt (Suc f) s t m = walk_unnamed_nbt f s t m" if "2 * length s + 2 \<le> f" for s t m
    using that by blast
  from Suc have comp: "walk_nbt_compound (Suc f) z s m = walk_nbt_compound f z s m" if "2 * length s + 1 \<le> f" for z s m
    using that by blast
  have "walk_unnamed_nbt (Suc (Suc f)) s t m = walk_unnamed_nbt (Suc f) s t m" if "2 * length s + 2 \<le> Suc f" for s t m
    unfolding walk_unnamed_nbt.simps(2) [of "Suc f"] walk_unnamed_nbt.simps(2) [of f s t m]
    by (subst walk_payload_cong [of s "walk_unnamed_nbt (Suc f)" "walk_unnamed_nbt f" _ _ "walk_nbt_compound f 0"])
      (use that walk comp in simp_all)
  moreover have "walk_nbt_compound (Suc (Suc f)) z s m = walk_nbt_compound (Suc f) z s m"
    if "2 * length s + 1 \<le> Suc f" for z s m
    unfolding walk_nbt_compound.simps(2) [of "Suc f"] walk_nbt_compound.simps(2) [of f z s m]
    by (rule compound_step_cong) (use that walk comp in simp_all)
  ultimately show ?case by blast
qed simp

lemma walk_unnamed_fuel:
  "2 * length s + 2 \<le> f \<Longrightarrow> walk_unnamed_nbt (f + k) s t m = walk_unnamed_nbt f s t m"
  by (induction k) (use walk_fuel_Suc in simp_all)

lemma walk_nbt_with_fuel:
  assumes "walk_fuel source \<le> f"
  shows "walk_nbt_with f source max_len = walk_nbt source max_len"
proof (cases source)
  case (Cons b src)
  obtain k where f: "f = walk_fuel source + k" using assms le_Suc_ex by blast
  have "walk_unnamed_nbt (walk_fuel source + k) s t m = walk_unnamed_nbt (walk_fuel source) s t m"
    if "adv j src = Some s" for j s t m
    using that Cons by (intro walk_unnamed_fuel) (auto simp: adv_Some_iff walk_fuel_def)
  then show ?thesis unfolding walk_nbt_def walk_nbt_with_def f Cons
    by (auto intro!: Option.bind_cong)
qed (simp add: walk_nbt_def walk_nbt_with_def)

section \<open>Walking what was written\<close>

definition walks :: "(ptr \<Rightarrow> u64 \<Rightarrow> int option) \<Rightarrow> byte list \<Rightarrow> bool" where
  "walks w bs \<longleftrightarrow> (\<forall>rest m. length bs \<le> unat m \<longrightarrow> int (length bs) \<le> INT_MAX \<longrightarrow>
     w (bs @ rest) m = Some (int (length bs)))"

lemma word_le_of_nat: "n \<le> unat (m :: u64) \<Longrightarrow> \<not> m < of_nat n"
  by (simp add: word_less_nat_alt unat_of_nat take_bit_nat_eq_self_iff [THEN iffD2] not_less)

lemma walks_string: "wf_cstr t \<Longrightarrow> walks walk_nbt_string (wire_cstr t)"
proof -
  assume wf: "wf_cstr t"
  let ?n = "of_nat (length t) :: u16"
  have n: "length t \<le> 32767" using wf by (simp add: wf_cstr_def)
  have "(ucast ?n :: u64) = of_nat (length t)"
    using n by (simp add: unsigned_of_nat take_bit_nat_eq_self)
  then have len: "(2 + ucast ?n :: u64) = of_nat (2 + length t)" by simp
  have dec: "dec_be16 (wire_cstr t @ rest) = Some (?n, t @ rest)" for rest
    using be16.dec_wire [of ?n "t @ rest"] wf by (simp add: wire_cstr_def)
  show ?thesis unfolding walks_def walk_nbt_string_def dec
    using n wf word_le_of_nat [of "2 + length t"] word_le_of_nat [of 2] int_of_size_of_nat [of "2 + length t"]
    by (auto simp: len simp del: of_nat_add)
qed

lemma walks_array:
  assumes "n < 2 ^ 31" and "k \<le> 8" and "length d = n * k"
  shows "walks (\<lambda>s m. walk_nbt_array s m (of_nat k)) (rev (mem_of (of_nat n :: u32)) @ d)"
proof -
  let ?n = "of_nat n :: u32"
  have "(ucast ?n :: u64) = of_nat n" using assms(1) by (simp add: unsigned_of_nat take_bit_nat_eq_self)
  then have len: "(4 + ucast ?n * of_nat k :: u64) = of_nat (4 + n * k)" by simp
  show ?thesis unfolding walks_def walk_nbt_array_def
    using assms(3) word_le_of_nat [of "4 + n * k"] word_le_of_nat [of 4] int_of_size_of_nat [of "4 + n * k"]
    by (auto simp: len be32.dec_wire simp del: of_nat_add of_nat_mult)
qed

lemma walk_list_loop_wire:
  assumes "\<And>n. n \<in> set ns \<Longrightarrow> walks w (wire_payload (payload n))" and "wf_elems t ns"
    and "length (wire_elems ns) \<le> unat m" and "0 \<le> z" and "z + int (length (wire_elems ns)) \<le> INT_MAX"
  shows "walk_list_loop w (length ns) (wire_elems ns @ rest) m z = Some (z + int (length (wire_elems ns)))"
  using assms
proof (induction ns arbitrary: m z)
  case (Cons n ns)
  obtain p where n: "n = nbt_node None p" using Cons.prems(2) by (cases n) simp
  let ?k = "length (wire_payload p)"
  have "w (wire_payload p @ wire_elems ns @ rest) m = Some (int ?k)"
    using Cons.prems(1) [of n] Cons.prems(3-5) n by (auto simp: walks_def wire_name_def)
  moreover have "iadd z (int ?k) = Some (z + int ?k)"
    using Cons.prems(4,5) n by (intro iadd_Some) (auto simp: wire_name_def INT_MIN_def)
  moreover have "unat (m - of_nat ?k) = unat m - ?k"
    using Cons.prems(3) n by (intro unat_sub_len) (simp add: wire_name_def)
  then have "walk_list_loop w (length ns) (wire_elems ns @ rest) (m - of_nat ?k) (z + int ?k) =
      Some (z + int ?k + int (length (wire_elems ns)))"
    using Cons.prems n by (intro Cons.IH) (auto simp: wire_name_def)
  ultimately show ?case by (simp add: n wire_name_def algebra_simps)
qed simp

lemma walks_list:
  assumes w: "\<And>n. n \<in> set ns \<Longrightarrow> walks (\<lambda>s. w s t) (wire_payload (payload n))"
    and wf: "wf_elems t ns" "t = nbt_type_of (type_value t)" "length ns < 2 ^ 31"
  shows "walks (walk_nbt_list w) (wire_payload (tag_list (Some t) ns))"
  unfolding walks_def
proof (intro allI impI)
  fix rest and m :: u64
  let ?W = "wire_payload (tag_list (Some t) ns)"
  assume m: "length ?W \<le> unat m" and max: "int (length ?W) \<le> INT_MAX"
  have W: "?W = type_value t # wire_len (length ns) @ wire_elems ns" using wf(1) by (simp add: list_type_wf)
  have "walk_list_loop (\<lambda>s. w s t) (length ns) (wire_elems ns @ rest) m 5 =
      Some (5 + int (length (wire_elems ns)))"
    using m max w wf(1) unfolding W by (intro walk_list_loop_wire) auto
  moreover have "\<not> m < 5" using m unfolding W by (simp add: word_less_nat_alt)
  ultimately show "walk_nbt_list w (?W @ rest) m = Some (int (length ?W))"
    unfolding W using wf(3)
    by (simp add: walk_nbt_list_def wire_len_def be32.dec_wire sint_of_nat32 wf(2) [symmetric])
qed

lemma compound_step_wire:
  assumes w: "walks (\<lambda>s. w s (payload_type p)) (wire_payload p)" and wf: "wf_cstr nm" "wf_payload p"
    and len: "3 + length nm + length (wire_payload p) \<le> unat m"
    and z: "0 \<le> z" "z + int (3 + length nm + length (wire_payload p)) \<le> INT_MAX"
  shows "compound_step w again z (type_value (payload_type p) # wire_cstr nm @ wire_payload p @ rest) m =
    again (z + int (3 + length nm + length (wire_payload p))) rest
      (m - of_nat (3 + length nm + length (wire_payload p)))"
proof -
  define sn k where "sn = 2 + length nm" and "k = length (wire_payload p)"
  note len' = len [folded k_def] and z' = z(2) [folded k_def]
  have m1: "unat (m - 1) = unat m - 1" using unat_sub_len [of 1 m] len by simp
  then have m2: "unat (m - 1 - of_nat sn) = unat m - 1 - sn"
    using unat_sub_len [of sn "m - 1"] len by (simp add: sn_def)
  have "walk_nbt_string (wire_cstr nm @ wire_payload p @ rest) (m - 1) = Some (int sn)"
    using walks_string [OF wf(1)] m1 len z wf(1) unfolding walks_def sn_def by auto
  moreover have "w (wire_payload p @ rest) (payload_type p) (m - 1 - of_nat sn) = Some (int k)"
    using w m2 len z unfolding walks_def k_def by (auto simp: sn_def)
  moreover have "adv sn (wire_cstr nm @ wire_payload p @ rest) = Some (wire_payload p @ rest)"
    using wf(1) by (intro adv_append_eq) (simp add: sn_def)
  moreover have "adv k (wire_payload p @ rest) = Some rest" by (simp add: k_def)
  moreover have "m \<noteq> 0" using len by auto
  moreover have "iadd z 1 = Some (z + 1)" "iadd (z + 1) (int sn) = Some (z + 1 + int sn)"
    "iadd (z + 1 + int sn) (int k) = Some (z + 1 + int sn + int k)"
    using z(1) z' by (simp_all add: INT_MIN_def iadd_def sn_def)
  ultimately have "compound_step w again z (type_value (payload_type p) # wire_cstr nm @ wire_payload p @ rest) m =
    again (z + 1 + int sn + int k) rest (m - 1 - of_nat sn - of_nat k)"
    unfolding compound_step_def
    by (simp add: type_value_payload type_of_value_payload wf(2) Let_def)
  moreover have "z + 1 + int sn + int k = z + int (3 + length nm + k)"
    "m - 1 - of_nat sn - of_nat k = m - of_nat (3 + length nm + k)" by (simp_all add: sn_def)
  ultimately show ?thesis unfolding k_def by metis
qed

lemma walk_compound_wire:
  assumes "\<And>n f. n \<in> set ns \<Longrightarrow> 2 * length (wire_payload (payload n)) + 2 \<le> f \<Longrightarrow>
      walks (\<lambda>s. walk_unnamed_nbt f s (type_of n)) (wire_payload (payload n))"
    and "wf_members ns" and "length (wire_members ns) + 1 \<le> unat m"
    and "0 \<le> z" and "z + int (length (wire_members ns) + 1) \<le> INT_MAX"
    and "2 * length (wire_members ns) + 3 \<le> f"
  shows "walk_nbt_compound f z (wire_members ns @ 0 # rest) m = Some (z + int (length (wire_members ns) + 1))"
  using assms
proof (induction ns arbitrary: m z f)
  case Nil
  then obtain g where "f = Suc g" by (cases f) auto
  with Nil show ?case by (auto simp: walk_nbt_compound.simps compound_step_def iadd_def INT_MIN_def)
next
  case (Cons n ns)
  obtain g where f: "f = Suc g" using Cons.prems(6) by (cases f) auto
  obtain nm p where n: "n = nbt_node (Some nm) p" and wf: "wf_cstr nm" "wf_payload p"
    using Cons.prems(2) by (cases n) (auto split: option.splits)
  let ?k = "3 + length nm + length (wire_payload p)"
  have wire: "wire_members (n # ns) = type_value (payload_type p) # wire_cstr nm @ wire_payload p @ wire_members ns"
    by (simp add: n wire_name_def)
  have len: "length (wire_members (n # ns)) = ?k + length (wire_members ns)" unfolding wire using wf by simp
  note prems = Cons.prems(2-6) [unfolded len]
  have "walks (\<lambda>s. walk_unnamed_nbt g s (payload_type p)) (wire_payload p)"
    using Cons.prems(1) [of n g] prems(5) f n by simp
  then have step: "walk_nbt_compound f z (wire_members (n # ns) @ 0 # rest) m =
    walk_nbt_compound g (z + int ?k) (wire_members ns @ 0 # rest) (m - of_nat ?k)"
    unfolding f walk_nbt_compound.simps wire append_assoc append_Cons
    by (intro compound_step_wire) (use wf prems in simp_all)
  have "unat (m - of_nat ?k) = unat m - ?k" using prems(2) by (intro unat_sub_len) simp
  then have "walk_nbt_compound g (z + int ?k) (wire_members ns @ 0 # rest) (m - of_nat ?k) =
    Some (z + int ?k + int (length (wire_members ns) + 1))"
    by (intro Cons.IH) (use Cons.prems(1,2) prems f n in \<open>auto\<close>)
  with step len show ?case by simp
qed

lemma walks_unnamed:
  "walks (\<lambda>s. walk_payload (walk_unnamed_nbt g) (walk_nbt_compound g 0) s t) bs \<Longrightarrow>
     walks (\<lambda>s. walk_unnamed_nbt (Suc g) s t) bs"
  using word_le_of_nat by (auto simp: walks_def walk_unnamed_nbt.simps)

lemma walks_payload:
  "wf_payload p \<Longrightarrow> 2 * length (wire_payload p) + 2 \<le> f \<Longrightarrow>
     walks (\<lambda>s. walk_unnamed_nbt f s (payload_type p)) (wire_payload p)"
proof (induction p arbitrary: f rule: measure_induct_rule [where f = size])
  case (less p)
  then obtain g where g: "f = Suc g" by (cases f) auto
  have children: "walks (\<lambda>s. walk_unnamed_nbt f s (type_of n)) (wire_payload (payload n))"
    if "size (payload n) < size p" "wf_payload (payload n)" "2 * length (wire_payload (payload n)) + 2 \<le> f" for n f
    using less.IH that by blast
  have "walks (\<lambda>s. walk_payload (walk_unnamed_nbt g) (walk_nbt_compound g 0) s (payload_type p)) (wire_payload p)"
  proof (cases p)
    case (tag_list st ns)
    then obtain t where t: "st = Some t" "t = nbt_type_of (type_value t)" "length ns < 2 ^ 31" "wf_elems t ns"
      using less.prems(1) by (auto split: option.splits)
    have "walks (\<lambda>s. walk_unnamed_nbt g s t) (wire_payload (payload n))" if n: "n \<in> set ns" for n
    proof -
      have "size (payload n) < size p" using size_child [OF n] tag_list by simp
      moreover have "length (wire_payload (payload n)) \<le> length (wire_elems ns)"
        using n by (rule wire_elems_child)
      then have "2 * length (wire_payload (payload n)) + 2 \<le> g" using less.prems(2) g tag_list by simp
      moreover have "wf_payload (payload n)" "type_of n = t"
        using t(4) n by (induction ns) (auto simp: wf_elems_Cons)
      ultimately show ?thesis using children by blast
    qed
    from walks_list [where w = "walk_unnamed_nbt g", OF this t(4,2,3)] show ?thesis
      by (simp add: tag_list t(1) walk_payload_def walks_def del: wire_payload.simps)
  next
    case (tag_compound ns)
    have "walks (\<lambda>s. walk_unnamed_nbt f s (type_of n)) (wire_payload (payload n))"
      if n: "n \<in> set ns" and f: "2 * length (wire_payload (payload n)) + 2 \<le> f" for n f
      using size_child [OF n] wf_members_payload [OF _ n] less.prems(1) f tag_compound by (intro children) auto
    then show ?thesis
      using walk_compound_wire [of ns _ 0 g] less.prems g by (auto simp: tag_compound walk_payload_def walks_def)
  next
    case (tag_byte_array d n)
    then show ?thesis using less.prems(1) walks_array [of "length (the d)" 1 "the d"]
      by (auto simp: walk_payload_def wf_array_def walks_def split: option.splits)
  next
    case (tag_int_array d n)
    then show ?thesis using less.prems(1)
        walks_array [of "length (the d)" 4 "concat (map (\<lambda>w. rev (mem_of w)) (the d))"]
      by (auto simp: walk_payload_def wf_array_def walks_def split: option.splits)
  next
    case (tag_string t)
    then show ?thesis using less.prems(1) walks_string [of "the t"]
      by (auto simp: walk_payload_def wire_name_def walks_def split: option.splits)
  qed (use less.prems(1) in \<open>auto simp: walk_payload_def walks_def\<close>)
  then show ?case unfolding g by (rule walks_unnamed)
qed

lemma walks_named:
  assumes nm: "name nd = Some nm" "wf_cstr nm"
    and walk: "\<And>f. 2 * length (wire_payload (payload nd)) + 2 \<le> f \<Longrightarrow>
      walks (\<lambda>s. walk_unnamed_nbt f s (type_of nd)) (wire_payload (payload nd))"
    and type: "nbt_type_of (type_value (type_of nd)) = type_of nd"
  shows "walks walk_nbt (wire_node nd)"
  unfolding walks_def
proof (intro allI impI)
  fix rest and m :: u64
  assume m: "length (wire_node nd) \<le> unat m" and max: "int (length (wire_node nd)) \<le> INT_MAX"
  let ?p = "payload nd"
  have wire: "wire_node nd = type_value (payload_type ?p) # wire_cstr nm @ wire_payload ?p"
    by (simp add: wire_node_def nm wire_name_def)
  define sn k where "sn = 2 + length nm" and "k = length (wire_payload ?p)"
  have len: "length (wire_node nd) = 1 + sn + k" unfolding wire sn_def k_def using nm by simp
  have m1: "unat (m - 1) = unat m - 1" using unat_sub_len [of 1 m] m len by simp
  then have m2: "unat (m - 1 - of_nat sn) = unat m - 1 - sn"
    using unat_sub_len [of sn "m - 1"] m len by simp
  have "walk_nbt_string (wire_cstr nm @ wire_payload ?p @ rest) (m - 1) = Some (int sn)"
    using walks_string [OF nm(2)] m1 m max nm(2) unfolding walks_def len by (simp add: sn_def)
  moreover have "walks (\<lambda>s. walk_unnamed_nbt (walk_fuel (wire_node nd @ rest)) s (payload_type ?p)) (wire_payload ?p)"
    by (rule walk) (simp add: walk_fuel_def len k_def)
  then have "walk_unnamed_nbt (walk_fuel (wire_node nd @ rest)) (wire_payload ?p @ rest) (payload_type ?p)
      (m - 1 - of_nat sn) = Some (int k)"
    using m2 m max len unfolding walks_def k_def by simp
  moreover have "adv sn (wire_cstr nm @ wire_payload ?p @ rest) = Some (wire_payload ?p @ rest)"
    using nm(2) by (intro adv_append_eq) (simp add: sn_def)
  moreover have "m \<noteq> 0" using m len by auto
  moreover have "iadd 1 (int sn) = Some (1 + int sn)" "iadd (1 + int sn) (int k) = Some (1 + int sn + int k)"
    using max len by (simp_all add: INT_MIN_def iadd_def)
  ultimately have "walk_nbt (wire_node nd @ rest) m = Some (1 + int sn + int k)"
    unfolding walk_nbt_def walk_nbt_with_def
    by (simp add: wire type)
  then show "walk_nbt (wire_node nd @ rest) m = Some (int (length (wire_node nd)))" by (simp add: len)
qed

lemma walks_nbt: "wf_nbt nd \<Longrightarrow> walks walk_nbt (wire_node nd)"
  using wf_name [of nd] by (auto simp: wf_nbt_def intro!: walks_named walks_payload type_of_value_payload)

section \<open>What an accepted length is worth\<close>

lemma int_size_bound: "0 \<le> i \<Longrightarrow> \<not> m < size_of_int i \<Longrightarrow> i < 2 ^ 64 \<Longrightarrow> i \<le> int (unat m)"
  by (simp add: size_of_int_def word_less_nat_alt unsigned_of_int not_less nat_le_iff take_bit_int_eq_self)

lemma int_of_size_range: "int_of_size w < 2 ^ 64"
  using sint_less [of "ucast w :: u32"] by (simp add: int_of_size_def)

lemma walk_nbt_string_bound:
  assumes "walk_nbt_string source m = Some n" and "0 \<le> n"
  shows "2 \<le> n \<and> n \<le> int (unat m)"
proof -
  from assms obtain len rest where l: "dec_be16 source = Some (len, rest)" "\<not> m < 2 + ucast len"
    "n = int_of_size (2 + ucast len)"
    by (auto simp: walk_nbt_string_def split: if_splits bind_splits)
  have u: "unat len < 2 ^ LENGTH(16)" by (rule unsigned_less)
  have w: "(2 + ucast len :: u64) = of_nat (2 + unat len)" by (simp add: of_nat_unat)
  have "n = int (2 + unat len)"
    unfolding l(3) w
  proof (rule int_of_size_of_nat)
    from u have "2 + unat len \<le> 2147483647" by simp
    then show "int (2 + unat len) \<le> INT_MAX" unfolding INT_MAX_def by linarith
  qed
  moreover have "unat (of_nat (2 + unat len) :: u64) = 2 + unat len"
    using u by (intro unat_of_nat64) simp
  then have "2 + unat len \<le> unat m" using l(2) unfolding w word_less_nat_alt by linarith
  ultimately show ?thesis by linarith
qed

lemma walk_unnamed_bound:
  assumes "walk_unnamed_nbt f source t m = Some n" and "0 \<le> n" and "n < 2 ^ 64"
  shows "n \<le> int (unat m)"
  using assms int_size_bound [of n m]
  by (cases f) (auto simp: walk_unnamed_nbt.simps split: if_splits bind_splits)

lemma unat_pred_sub:
  assumes "m \<noteq> 0" and "2 \<le> i" and "i \<le> int (unat (m - 1 :: u64))"
  shows "int (unat (m - 1 - size_of_int i)) = int (unat m) - 1 - i"
proof -
  have "unat m \<noteq> 0" using assms(1) by (simp add: unsigned_eq_0_iff)
  then have m: "unat (m - 1) = unat m - 1" "1 \<le> unat m" using unat_sub_len [of 1 m] by auto
  have "nat i \<le> unat (m - 1)" using assms(3) by linarith
  from unat_sub_len [OF this] have "unat (m - 1 - size_of_int i) = unat (m - 1) - nat i"
    using assms(2) size_of_int_nat [of "nat i"] by simp
  with m assms(2,3) \<open>nat i \<le> unat (m - 1)\<close> show ?thesis by linarith
qed

section \<open>Properties\<close>

text \<open>What \<^verbatim>\<open>walk_nbt\<close> returns is -1 or a length of at least three that is within \<open>max_len\<close> and the
  range of \<^verbatim>\<open>int\<close>, on every input on which it returns.\<close>

theorem walk_nbt_bounded:
  assumes "walk_nbt source max_len = Some n"
  shows "n = - 1 \<or> 3 \<le> n \<and> n \<le> int (unat max_len) \<and> n \<le> INT_MAX"
proof -
  consider "n = - 1" | sn rest src total k where "max_len \<noteq> 0"
      "walk_nbt_string src (max_len - 1) = Some sn" "0 \<le> sn" "iadd 1 sn = Some total"
      "walk_unnamed_nbt (walk_fuel source) rest (nbt_type_of (hd source)) (max_len - 1 - size_of_int sn) = Some k"
      "0 \<le> k" "iadd total k = Some n"
    using assms
    by (cases source) (fastforce simp: walk_nbt_def walk_nbt_with_def not_less split: if_splits bind_splits)+
  then show ?thesis
  proof cases
    case 2
    then have n: "n = 1 + sn + k" "n \<le> INT_MAX" by (auto simp: iadd_def split: if_splits)
    from walk_nbt_string_bound [OF 2(2,3)] have sn: "2 \<le> sn" "sn \<le> int (unat (max_len - 1))" by simp_all
    have "k \<le> int (unat (max_len - 1 - size_of_int sn))"
      by (rule walk_unnamed_bound [OF 2(5,6)]) (use n 2(3) in \<open>simp add: INT_MAX_def\<close>)
    with unat_pred_sub [OF 2(1) sn] n sn(1) 2(6) show ?thesis by simp
  qed simp
qed

theorem walk_nbt_bounded_witness:
  "walk_nbt [1, 0, 1, 65, 7, 9] 6 = Some 5 \<and> ((5 :: int) = - 1 \<or> 3 \<le> (5 :: int) \<and> 5 \<le> int (unat (6 :: u64)) \<and> 5 \<le> INT_MAX)"
proof -
  have "walk_nbt [1, 0, 1, 65, 7, 9] 6 = Some 5"
    by (simp add: walk_nbt_def walk_nbt_with_def walk_fuel_def walk_nbt_string_def dec_be16_eq bswap_def
        mem_of_def word_bytes_def upt_rec nbt_type_of_def int_of_size_def adv_def iadd_def INT_MIN_def
        INT_MAX_def size_of_int_def walk_payload_def
        walk_unnamed_nbt.simps(2) [of 13, unfolded Suc_numeral add_num_simps])
  with walk_nbt_bounded [OF this] show ?thesis by simp
qed

text \<open>C39. The length check of \<^verbatim>\<open>walk_nbt_list\<close> is not a bound on what is read: the five header bytes
  of a list are never subtracted from \<open>max_len\<close>. For a tree of nested one-element lists in an
  object of any size \<open>3 + 5 * (k + 1)\<close>, with \<open>max_len\<close> fixed at 8, no amount of fuel lets \<^verbatim>\<open>walk_nbt\<close>
  return: it reads beyond the end of every such object.\<close>

theorem walk_nbt_list_overread:
  "walk_nbt_with f ([9, 0, 0] @ concat (replicate (Suc k) [9, 0, 0, 0, 1])) 8 = None"
proof -
  have unnamed: "walk_unnamed_nbt f (concat (replicate k [9, 0, 0, 0, 1])) TAG_LIST 5 = None" for f k
  proof (induction k arbitrary: f)
    case 0
    then show ?case by (cases f) (simp_all add: walk_unnamed_nbt.simps walk_payload_def walk_nbt_list_def)
  next
    case (Suc k)
    show ?case
    proof (cases f)
      case (Suc g)
      with Suc.IH [of g] show ?thesis
        by (simp add: walk_unnamed_nbt.simps walk_payload_def walk_nbt_list_def dec_be32_eq
            nbt_type_of_def bswap_def mem_of_def word_bytes_def upt_rec)
    qed (simp add: walk_unnamed_nbt.simps)
  qed
  have "dec_be16 (0 # 0 # s) = Some (0, s)" for s
    by (simp add: dec_be16_eq bswap_def mem_of_def word_bytes_def upt_rec)
  with unnamed [of f "Suc k"] show ?thesis
    by (simp add: walk_nbt_with_def walk_nbt_string_def nbt_type_of_def int_of_size_def adv_def
        iadd_def INT_MIN_def INT_MAX_def size_of_int_def)
qed

end
