(* ===== verification/Varint.thy ===== *)
theory Varint
  imports Fixed
begin

text \<open>
  Variable-length integers (\<^verbatim>\<open>src/datautils.c\<close>, lines 156--272): \<^verbatim>\<open>size_varint\<close>, \<^verbatim>\<open>walk_varint\<close>,
  \<^verbatim>\<open>enc_varint\<close>, \<^verbatim>\<open>dec_varint\<close> and their 64-bit counterparts. The reference is the little-endian
  base-128 image \<open>leb128 n\<close> of a number; the encoders are shown to produce it, and what the
  decoders, walkers and size functions do with it is stated exactly, also where it is not what
  the protocol needs (\<^verbatim>\<open>size_\<close> near 128, 64-bit values above \<open>2\<^sup>3\<^sup>1\<close>).
\<close>

section \<open>Definitions\<close>

definition varnum_invalid :: int where "varnum_invalid = - 1"
definition varnum_overrun :: int where "varnum_overrun = - 2"

definition size_varint :: "u32 \<Rightarrow> u64" where
  "size_varint varint =
     (if varint < push_bit 8 1 then 1
      else if varint < push_bit 14 1 then 2
      else if varint < push_bit 21 1 then 3
      else if varint < push_bit 28 1 then 4
      else 5)"

text \<open>The loop of \<^verbatim>\<open>walk_varint\<close>: \<open>len\<close> is the number of the byte under the pointer.\<close>

fun walk_varint_loop :: "ptr \<Rightarrow> int \<Rightarrow> u64 \<Rightarrow> int option" where
  "walk_varint_loop [] len max_len = None"
| "walk_varint_loop (b # source) len max_len =
     (if b AND 0x80 \<noteq> 0 then
        (if len > 4 then Some varnum_invalid
         else if max_len \<le> size_of_int len then Some varnum_overrun
         else walk_varint_loop source (len + 1) max_len)
      else Some len)"

definition walk_varint :: "ptr \<Rightarrow> u64 \<Rightarrow> int option" where
  "walk_varint source max_len =
     (if max_len = 0 then Some varnum_overrun else walk_varint_loop source 1 max_len)"

function enc_varint :: "ptr \<Rightarrow> u32 \<Rightarrow> ptr" where
  "enc_varint dest source =
     (if source \<ge> 0x80
      then enc_varint (dest @ [0x80 OR (ucast source AND 0x7F)]) (drop_bit 7 source)
      else dest @ [ucast source AND 0x7F])"
  by pat_completeness auto
termination
proof (relation "measure (\<lambda>(dest, source). unat source)")
  fix dest :: ptr and source :: u32
  assume "0x80 \<le> source"
  then have "0 < unat source" by (simp add: word_le_nat_alt)
  then have "unat source div 2 ^ 7 < unat source" by (intro div_less_dividend) simp_all
  then show "((dest @ [0x80 OR (ucast source AND 0x7F)], drop_bit 7 source), dest, source)
      \<in> measure (\<lambda>(dest, source). unat source)"
    by (simp add: drop_bit_eq_div unat_div)
qed simp

text \<open>
  \<^verbatim>\<open>(*source & 0x7F) << i\<close> is a shift of an \<^verbatim>\<open>int\<close>: undefined for \<open>i \<ge> 32\<close>, and otherwise the 32-bit
  result (the compilers the program is built with define the shift into the sign bit).
\<close>

definition shl_int :: "byte \<Rightarrow> nat \<Rightarrow> u32 option" where
  "shl_int b i = (if i < 32 then Some (push_bit i (ucast (b AND 0x7F))) else None)"

fun dec_varint_loop :: "ptr \<Rightarrow> nat \<Rightarrow> u32 \<Rightarrow> (u32 \<times> ptr) option" where
  "dec_varint_loop [] i dest = None"
| "dec_varint_loop (b # source) i dest =
     do { v \<leftarrow> shl_int b i;
          if b AND 0x80 \<noteq> 0 then dec_varint_loop source (i + 7) (dest OR v)
          else Some (dest OR v, source) }"

definition dec_varint :: "ptr \<Rightarrow> (u32 \<times> ptr) option" where
  "dec_varint source = dec_varint_loop source 0 0"

definition size_varlong :: "u64 \<Rightarrow> u64" where
  "size_varlong varint =
     (if varint < push_bit 8 1 then 1
      else if varint < push_bit 14 1 then 2
      else if varint < push_bit 21 1 then 3
      else if varint < push_bit 28 1 then 4
      else if varint < push_bit 35 1 then 5
      else if varint < push_bit 42 1 then 6
      else if varint < push_bit 49 1 then 7
      else if varint < push_bit 56 1 then 8
      else if varint < push_bit 63 1 then 9
      else 10)"

fun walk_varlong_loop :: "ptr \<Rightarrow> int \<Rightarrow> u64 \<Rightarrow> int option" where
  "walk_varlong_loop [] len max_len = None"
| "walk_varlong_loop (b # source) len max_len =
     (if b AND 0x80 \<noteq> 0 then
        (if len > 8 then Some varnum_invalid
         else if max_len \<le> size_of_int len then Some varnum_overrun
         else walk_varlong_loop source (len + 1) max_len)
      else Some len)"

definition walk_varlong :: "ptr \<Rightarrow> u64 \<Rightarrow> int option" where
  "walk_varlong source max_len =
     (if max_len = 0 then Some varnum_overrun else walk_varlong_loop source 1 max_len)"

function enc_varlong :: "ptr \<Rightarrow> u64 \<Rightarrow> ptr" where
  "enc_varlong dest source =
     (if source \<ge> 0x80
      then enc_varlong (dest @ [0x80 OR (ucast source AND 0x7F)]) (drop_bit 7 source)
      else dest @ [ucast source AND 0x7F])"
  by pat_completeness auto
termination
proof (relation "measure (\<lambda>(dest, source). unat source)")
  fix dest :: ptr and source :: u64
  assume "0x80 \<le> source"
  then have "0 < unat source" by (simp add: word_le_nat_alt)
  then have "unat source div 2 ^ 7 < unat source" by (intro div_less_dividend) simp_all
  then show "((dest @ [0x80 OR (ucast source AND 0x7F)], drop_bit 7 source), dest, source)
      \<in> measure (\<lambda>(dest, source). unat source)"
    by (simp add: drop_bit_eq_div unat_div)
qed simp

text \<open>In \<^verbatim>\<open>dec_varlong\<close> the shifted \<^verbatim>\<open>int\<close> is converted to \<^verbatim>\<open>uint64_t\<close>, which extends its sign.\<close>

fun dec_varlong_loop :: "ptr \<Rightarrow> nat \<Rightarrow> u64 \<Rightarrow> (u64 \<times> ptr) option" where
  "dec_varlong_loop [] i dest = None"
| "dec_varlong_loop (b # source) i dest =
     do { v \<leftarrow> shl_int b i;
          if b AND 0x80 \<noteq> 0 then dec_varlong_loop source (i + 7) (dest OR scast v)
          else Some (dest OR scast v, source) }"

definition dec_varlong :: "ptr \<Rightarrow> (u64 \<times> ptr) option" where
  "dec_varlong source = dec_varlong_loop source 0 0"

declare enc_varint.simps [simp del] enc_varlong.simps [simp del]

section \<open>The reference image\<close>

fun leb128 :: "nat \<Rightarrow> byte list" where
  "leb128 n =
     (if n < 128 then [of_nat n] else (0x80 OR of_nat (n mod 128)) # leb128 (n div 128))"

declare leb128.simps [simp del]

lemma leb128_small: "n < 128 \<Longrightarrow> leb128 n = [of_nat n]"
  by (subst leb128.simps) simp

lemma leb128_big: "128 \<le> n \<Longrightarrow> leb128 n = (0x80 OR of_nat (n mod 128)) # leb128 (n div 128)"
  by (subst leb128.simps) simp

lemma leb128_not_Nil [simp]: "leb128 n \<noteq> []"
  by (subst leb128.simps) simp

text \<open>Bits of the bytes: bit 7 says that another byte follows, the rest is payload.\<close>

definition cont :: "byte \<Rightarrow> bool" where
  "cont b \<longleftrightarrow> b AND 0x80 \<noteq> 0"

lemma bit_0x80 [simp]: "bit (0x80 :: int) n \<longleftrightarrow> n = 7"
proof -
  have e: "(0x80 :: int) = push_bit 7 1" by simp
  show ?thesis unfolding e by (auto simp only: bit_push_bit_iff bit_1_iff) simp_all
qed

lemma bit_0x7F [simp]: "bit (0x7F :: int) n \<longleftrightarrow> n < 7"
proof -
  have e: "(0x7F :: int) = mask 7" by (simp add: mask_eq_exp_minus_1)
  show ?thesis unfolding e by (auto simp only: bit_mask_iff) simp_all
qed

lemma bit_word_of_nat: "bit (of_nat n :: 'a::len word) k \<longleftrightarrow> k < LENGTH('a) \<and> bit n k"
  by (metis bit_word_of_int_iff bit_of_nat_iff_bit of_int_of_nat_eq)

lemma bit_small_nat: "m < 128 \<Longrightarrow> bit m k \<Longrightarrow> k < 7" for m :: nat
proof -
  assume "m < 128" and b: "bit m k"
  then have "take_bit 7 m = m" by (simp add: take_bit_nat_eq_self)
  with b have "bit (take_bit 7 m) k" by simp
  then show "k < 7" by (simp add: bit_take_bit_iff)
qed

lemma bit_mod128: "bit (n mod 128) k \<longleftrightarrow> k < 7 \<and> bit n k" for n :: nat
proof -
  have "n mod 128 = take_bit 7 n" by (simp add: take_bit_eq_mod)
  then show ?thesis by (simp add: bit_take_bit_iff)
qed

lemma cont_iff_bit: "cont b \<longleftrightarrow> bit b 7"
  unfolding cont_def bit_eq_iff by (auto simp: bit_and_iff)

lemma last_byte [simp]:
  "n < 128 \<Longrightarrow> \<not> cont (of_nat n)" "n < 128 \<Longrightarrow> (of_nat n :: byte) AND 0x7F = of_nat n"
  by (auto simp: cont_iff_bit bit_word_of_nat bit_and_iff dest: bit_small_nat intro!: bit_word_eqI)

lemma cont_byte [simp]:
  "cont (0x80 OR of_nat (n mod 128))"
  "(0x80 OR of_nat (n mod 128) :: byte) AND 0x7F = of_nat (n mod 128)"
  by (auto simp: cont_iff_bit bit_word_of_nat bit_and_iff bit_or_iff bit_mod128
      intro!: bit_word_eqI)

lemma low_bits: "(ucast (w :: 'a::len word) AND 0x7F :: byte) = of_nat (unat w mod 128)"
  by (auto simp: bit_and_iff bit_word_of_nat bit_mod128 bit_unsigned_iff intro!: bit_word_eqI)

text \<open>Both encoders write the reference image.\<close>

lemma enc_varint_leb: "enc_varint dest v = dest @ leb128 (unat v)"
proof (induction dest v rule: enc_varint.induct)
  case (1 dest v)
  show ?case
  proof (cases "0x80 \<le> v")
    case True
    then have "128 \<le> unat v" by (simp add: word_le_nat_alt)
    with True 1 show ?thesis
      by (simp add: enc_varint.simps [of dest v] leb128_big low_bits drop_bit_eq_div unat_div)
  next
    case False
    then have "unat v < 128" by (simp add: word_le_nat_alt)
    with False show ?thesis
      by (simp add: enc_varint.simps [of dest v] leb128_small low_bits)
  qed
qed

lemma enc_varlong_leb: "enc_varlong dest v = dest @ leb128 (unat v)"
proof (induction dest v rule: enc_varlong.induct)
  case (1 dest v)
  show ?case
  proof (cases "0x80 \<le> v")
    case True
    then have "128 \<le> unat v" by (simp add: word_le_nat_alt)
    with True 1 show ?thesis
      by (simp add: enc_varlong.simps [of dest v] leb128_big low_bits drop_bit_eq_div unat_div)
  next
    case False
    then have "unat v < 128" by (simp add: word_le_nat_alt)
    with False show ?thesis
      by (simp add: enc_varlong.simps [of dest v] leb128_small low_bits)
  qed
qed

text \<open>The length of the image: one byte per seven bits.\<close>

lemma length_leb128_le: "n < 128 ^ Suc k \<Longrightarrow> length (leb128 n) \<le> Suc k"
proof (induction k arbitrary: n)
  case 0
  then show ?case by (simp add: leb128_small)
next
  case (Suc k)
  show ?case
  proof (cases "n < 128")
    case True
    then show ?thesis by (simp add: leb128_small)
  next
    case False
    with Suc.prems have "n div 128 < 128 ^ Suc k"
      by (intro less_mult_imp_div_less) (simp add: mult.commute)
    then have "length (leb128 (n div 128)) \<le> Suc k" by (rule Suc.IH)
    with False show ?thesis by (simp add: leb128_big)
  qed
qed

lemma length_leb128_ge: "128 ^ k \<le> n \<Longrightarrow> Suc k \<le> length (leb128 n)"
proof (induction k arbitrary: n)
  case 0
  then show ?case by (cases "leb128 n") auto
next
  case (Suc k)
  have "(1::nat) \<le> 128 ^ k" by simp
  with Suc.prems have n: "128 \<le> n" by (metis le_trans mult.right_neutral mult_le_mono2 power_Suc)
  from Suc.prems have "128 ^ k \<le> n div 128"
    by (metis div_le_mono nonzero_mult_div_cancel_left power_Suc zero_neq_numeral)
  then have "Suc k \<le> length (leb128 (n div 128))" by (rule Suc.IH)
  with n show ?case by (simp add: leb128_big)
qed

lemma length_leb128_eq: "128 ^ k \<le> n \<Longrightarrow> n < 128 ^ Suc k \<Longrightarrow> length (leb128 n) = Suc k"
  by (intro antisym length_leb128_le length_leb128_ge)

lemma length_leb128_iff: "length (leb128 n) \<le> Suc k \<longleftrightarrow> n < 128 ^ Suc k"
  using length_leb128_le [of n k] length_leb128_ge [of "Suc k" n] by fastforce

section \<open>Walking\<close>

text \<open>
  The two walkers differ in the largest length they accept only; \<open>conts source\<close> counts the bytes
  with a continuation bit at the pointer, so the number of bytes of the varint there is one more.
\<close>

definition conts :: "ptr \<Rightarrow> nat" where
  "conts source = length (takeWhile cont source)"

fun varnum_loop :: "nat \<Rightarrow> ptr \<Rightarrow> nat \<Rightarrow> nat \<Rightarrow> int option" where
  "varnum_loop lim [] len max_len = None"
| "varnum_loop lim (b # source) len max_len =
     (if cont b then
        (if len > lim then Some varnum_invalid
         else if max_len \<le> len then Some varnum_overrun
         else varnum_loop lim source (len + 1) max_len)
      else Some (int len))"

lemma size_le_len: "len < 2 ^ 64 \<Longrightarrow> max_len \<le> size_of_int (int len) \<longleftrightarrow> unat max_len \<le> len"
  by (simp add: word_le_nat_alt unat_of_nat64)

lemma walk_varint_loop_eq:
  "len \<le> 5 \<Longrightarrow> walk_varint_loop source (int len) max_len = varnum_loop 4 source len (unat max_len)"
proof (induction source arbitrary: len)
  case (Cons b source)
  then show ?case
    using Cons.IH [of "Suc len"]
    by (auto simp: cont_def size_le_len add.commute simp del: size_of_int_nat)
qed simp

lemma walk_varlong_loop_eq:
  "len \<le> 9 \<Longrightarrow> walk_varlong_loop source (int len) max_len = varnum_loop 8 source len (unat max_len)"
proof (induction source arbitrary: len)
  case (Cons b source)
  then show ?case
    using Cons.IH [of "Suc len"]
    by (auto simp: cont_def size_le_len add.commute simp del: size_of_int_nat)
qed simp

lemma varnum_loop_spec:
  assumes "len \<le> Suc lim" and "1 \<le> len" and "len \<le> max_len" and "Suc max_len \<le> length source + len"
  shows "varnum_loop lim source len max_len =
    Some (if conts source + len \<le> Suc lim \<and> conts source + len \<le> max_len then int (conts source + len)
          else if max_len \<le> lim then varnum_overrun else varnum_invalid)"
  using assms
proof (induction source arbitrary: len)
  case Nil
  then show ?case by simp
next
  case (Cons b source)
  show ?case
  proof (cases "cont b \<and> len \<le> lim \<and> len < max_len")
    case True
    then have "varnum_loop lim source (Suc len) max_len =
      Some (if conts source + Suc len \<le> Suc lim \<and> conts source + Suc len \<le> max_len
            then int (conts source + Suc len)
            else if max_len \<le> lim then varnum_overrun else varnum_invalid)"
      using Cons.prems by (intro Cons.IH) simp_all
    with True show ?thesis by (simp add: conts_def)
  next
    case False
    with Cons.prems show ?thesis by (auto simp: conts_def)
  qed
qed

lemma walk_varint_spec:
  assumes "unat max_len \<le> length source"
  shows "walk_varint source max_len =
    Some (if conts source < 5 \<and> conts source < unat max_len then int (Suc (conts source))
          else if unat max_len < 5 then varnum_overrun else varnum_invalid)"
proof (cases "max_len = 0")
  case True
  then show ?thesis by (simp add: walk_varint_def)
next
  case False
  then have "1 \<le> unat max_len" by (simp add: Suc_leI unat_gt_0)
  with assms show ?thesis
    using varnum_loop_spec [of 1 4 "unat max_len" source] walk_varint_loop_eq [of 1 source max_len] False
    by (auto simp: walk_varint_def)
qed

lemma walk_varlong_spec:
  assumes "unat max_len \<le> length source"
  shows "walk_varlong source max_len =
    Some (if conts source < 9 \<and> conts source < unat max_len then int (Suc (conts source))
          else if unat max_len < 9 then varnum_overrun else varnum_invalid)"
proof (cases "max_len = 0")
  case True
  then show ?thesis by (simp add: walk_varlong_def)
next
  case False
  then have "1 \<le> unat max_len" by (simp add: Suc_leI unat_gt_0)
  with assms show ?thesis
    using varnum_loop_spec [of 1 8 "unat max_len" source] walk_varlong_loop_eq [of 1 source max_len] False
    by (auto simp: walk_varlong_def)
qed

text \<open>On an encoded number the walk needs no assumption on what follows it.\<close>

lemma varnum_loop_stops:
  assumes "conts source < length source" and "conts source + len \<le> Suc lim" and "conts source + len \<le> max_len"
  shows "varnum_loop lim source len max_len = Some (int (conts source + len))"
  using assms by (induction source arbitrary: len) (auto simp: conts_def)

lemma varnum_loop_long:
  assumes "conts source + len > Suc lim" and "lim < max_len" and "len \<le> Suc lim"
  shows "varnum_loop lim source len max_len = Some varnum_invalid"
  using assms by (induction source arbitrary: len) (auto simp: conts_def split: if_splits)

lemma conts_leb128 [simp]: "conts (leb128 n @ rest) = length (leb128 n) - 1"
proof (induction n rule: leb128.induct)
  case (1 n)
  show ?case
  proof (cases "n < 128")
    case True
    then show ?thesis by (simp add: leb128_small conts_def)
  next
    case False
    with 1 have "conts (leb128 n @ rest) = Suc (length (leb128 (n div 128)) - 1)"
      by (simp add: leb128_big conts_def)
    with False show ?thesis by (simp add: leb128_big Suc_diff_Suc)
  qed
qed

lemma leb128_length_pos [simp]: "0 < length (leb128 n)"
  by simp

lemma conts_leb128_less: "conts (leb128 n @ rest) < length (leb128 n @ rest)"
  by (simp add: less_le_trans [OF diff_less])

lemma walk_varint_leb:
  assumes "length (leb128 n) \<le> 5" and "length (leb128 n) \<le> unat max_len"
  shows "walk_varint (leb128 n @ rest) max_len = Some (int (length (leb128 n)))"
proof -
  have "conts (leb128 n @ rest) + 1 = length (leb128 n)" by (simp add: Suc_diff_Suc)
  moreover have "max_len \<noteq> 0" using assms(2) by auto
  ultimately show ?thesis
    using assms varnum_loop_stops [OF conts_leb128_less, of n rest 1 4 "unat max_len"]
      walk_varint_loop_eq [of 1 "leb128 n @ rest" max_len]
    by (simp add: walk_varint_def)
qed

section \<open>Decoding\<close>

lemma split_nat: "(of_nat n :: 'a::len word) = of_nat (n mod 128) OR push_bit 7 (of_nat (n div 128))"
proof (rule bit_word_eqI)
  fix k
  assume "k < LENGTH('a)"
  moreover have "n div 128 = drop_bit 7 n" by (simp add: drop_bit_eq_div)
  then have "bit (n div 128) (k - 7) = bit n k" if "7 \<le> k"
    using that by (simp add: bit_drop_bit_eq)
  ultimately show "bit (of_nat n :: 'a word) k =
      bit (of_nat (n mod 128) OR push_bit 7 (of_nat (n div 128)) :: 'a word) k"
    by (auto simp: bit_word_of_nat bit_or_iff bit_push_bit_iff bit_mod128 not_le)
qed

lemma or_assoc_split:
  "dest OR push_bit i (of_nat (n mod 128)) OR push_bit (i + 7) (of_nat (n div 128)) =
     dest OR push_bit i (of_nat n :: 'a::len word)"
proof -
  have "push_bit i (of_nat n :: 'a word) =
      push_bit i (of_nat (n mod 128)) OR push_bit (i + 7) (of_nat (n div 128))"
    by (subst split_nat) (simp add: push_bit_or push_bit_push_bit ac_simps)
  then show ?thesis by (simp add: or.assoc)
qed

lemma ucast_small_byte: "m < 128 \<Longrightarrow> (ucast (of_nat m :: byte) :: 'a::len word) = of_nat m"
  by (rule bit_word_eqI) (auto simp: bit_unsigned_iff bit_word_of_nat dest: bit_small_nat)

lemma shl_int_last: "m < 128 \<Longrightarrow> i < 32 \<Longrightarrow> shl_int (of_nat m) i = Some (push_bit i (of_nat m))"
  by (simp add: shl_int_def ucast_small_byte)

lemma shl_int_cont:
  "i < 32 \<Longrightarrow> shl_int (0x80 OR of_nat (n mod 128)) i = Some (push_bit i (of_nat (n mod 128)))"
  by (simp add: shl_int_def ucast_small_byte)

lemma cont_test [simp]:
  "((0x80 OR of_nat (n mod 128) :: byte) AND 0x80 = 0) = False"
  "m < 128 \<Longrightarrow> (of_nat m :: byte) AND 0x80 = 0"
  using cont_byte(1) [of n] last_byte(1) [of m] by (simp_all add: cont_def)

lemma room_step:
  fixes n :: nat
  assumes "128 \<le> n" and "n < 2 ^ (l - 7 * k)"
  shows "7 < l - 7 * k \<and> n div 128 < 2 ^ (l - 7 * Suc k)"
proof
  from assms have "(2::nat) ^ 7 < 2 ^ (l - 7 * k)" by simp
  then show k: "7 < l - 7 * k" by (simp only: power_strict_increasing_iff [of "2::nat"] one_less_numeral_iff
        semiring_norm)
  then have e: "l - 7 * k = (l - 7 * Suc k) + 7" by simp
  from assms(2) have "n < 2 ^ (l - 7 * Suc k) * 128" unfolding e power_add by simp
  then show "n div 128 < 2 ^ (l - 7 * Suc k)" by (rule less_mult_imp_div_less)
qed

text \<open>The room left at position \<open>k\<close>: a number of at most \<open>32 - 7 k\<close> bits is read back exactly.\<close>

lemma dec_varint_loop_leb:
  assumes "n < 2 ^ (32 - 7 * k)" and "k \<le> 4"
  shows "dec_varint_loop (leb128 n @ rest) (7 * k) dest = Some (dest OR push_bit (7 * k) (of_nat n), rest)"
  using assms
proof (induction n arbitrary: k dest rule: leb128.induct)
  case (1 n)
  have i: "7 * k < 32" using "1.prems" by simp
  show ?case
  proof (cases "n < 128")
    case True
    with i show ?thesis by (simp add: leb128_small shl_int_last)
  next
    case False
    then have "128 \<le> n" by simp
    note room = room_step [OF this "1.prems"(1)]
    from room have k: "7 < 32 - 7 * k" and nd: "n div 128 < 2 ^ (32 - 7 * Suc k)" by blast+
    have "dec_varint_loop (leb128 (n div 128) @ rest) (7 * Suc k) (dest OR push_bit (7 * k) (of_nat (n mod 128)))
        = Some ((dest OR push_bit (7 * k) (of_nat (n mod 128))) OR push_bit (7 * Suc k) (of_nat (n div 128)), rest)"
      by (rule "1.IH" [OF False]) (use k nd in auto)
    with False i show ?thesis
      using or_assoc_split [of dest "7 * k" n]
      by (simp add: leb128_big shl_int_cont add.commute [of "7 * k"] or.assoc)
  qed
qed

lemma dec_varint_leb: "n < 2 ^ 32 \<Longrightarrow> dec_varint (leb128 n @ rest) = Some (of_nat n, rest)"
  using dec_varint_loop_leb [of n 0 rest 0] by (simp add: dec_varint_def)

text \<open>A walk that succeeds is followed by a decode that stays inside the walked bytes.\<close>

lemma dec_varint_loop_conts:
  assumes "conts source < length source" and "7 * conts source + i < 32"
  shows "\<exists>v. dec_varint_loop source i dest = Some (v, drop (Suc (conts source)) source)"
  using assms by (induction source arbitrary: i dest) (auto simp: conts_def cont_def shl_int_def)

lemma varnum_loop_pos:
  assumes "varnum_loop lim source len max_len = Some (int n)" and "1 \<le> len" and "len \<le> Suc lim"
  shows "n = conts source + len \<and> conts source < length source \<and> n \<le> Suc lim \<and> (len \<le> max_len \<longrightarrow> n \<le> max_len)"
  using assms
  by (induction source arbitrary: len)
    (fastforce simp: conts_def varnum_invalid_def varnum_overrun_def split: if_splits)+

lemma walk_varint_pos:
  assumes "walk_varint source max_len = Some n" and "0 \<le> n"
  shows "n = int (Suc (conts source)) \<and> conts source < length source \<and> conts source < 5 \<and>
    Suc (conts source) \<le> unat max_len"
proof -
  from assms have "max_len \<noteq> 0" and w: "varnum_loop 4 source 1 (unat max_len) = Some (int (nat n))"
    using walk_varint_loop_eq [of 1 source max_len]
    by (auto simp: walk_varint_def varnum_overrun_def split: if_splits)
  then have "1 \<le> unat max_len" by (simp add: Suc_leI unat_gt_0)
  with varnum_loop_pos [OF w] assms(2) show ?thesis by auto
qed

lemma walk_varint_dec:
  assumes "walk_varint source max_len = Some n" and "0 \<le> n"
  shows "\<exists>v. dec_varint source = Some (v, drop (nat n) source)"
proof -
  from walk_varint_pos [OF assms] have "nat n = Suc (conts source)" and "conts source < length source"
    and "conts source < 5" by auto
  then show ?thesis
    using dec_varint_loop_conts [of source 0 0] by (simp add: dec_varint_def)
qed

section \<open>64-bit numbers\<close>

lemma scast_or: "(scast (a OR b :: u32) :: u64) = scast a OR scast b"
  by (rule bit_word_eqI) (auto simp: bit_signed_iff bit_or_iff)

lemma dec_varlong_loop_leb:
  assumes "n < 2 ^ (35 - 7 * k)" and "k \<le> 4"
  shows "dec_varlong_loop (leb128 n @ rest) (7 * k) dest =
    Some (dest OR scast (push_bit (7 * k) (of_nat n) :: u32), rest)"
  using assms
proof (induction n arbitrary: k dest rule: leb128.induct)
  case (1 n)
  have i: "7 * k < 32" using "1.prems" by simp
  show ?case
  proof (cases "n < 128")
    case True
    with i show ?thesis by (simp add: leb128_small shl_int_last)
  next
    case False
    then have "128 \<le> n" by simp
    note room = room_step [OF this "1.prems"(1)]
    from room have k: "7 < 35 - 7 * k" and nd: "n div 128 < 2 ^ (35 - 7 * Suc k)" by blast+
    have "dec_varlong_loop (leb128 (n div 128) @ rest) (7 * Suc k)
          (dest OR scast (push_bit (7 * k) (of_nat (n mod 128)) :: u32))
        = Some ((dest OR scast (push_bit (7 * k) (of_nat (n mod 128)) :: u32))
            OR scast (push_bit (7 * Suc k) (of_nat (n div 128)) :: u32), rest)"
      by (rule "1.IH" [OF False]) (use k nd in auto)
    moreover have "(push_bit (7 * k) (of_nat n) :: u32) =
        push_bit (7 * k) (of_nat (n mod 128)) OR push_bit (7 * Suc k) (of_nat (n div 128))"
      using or_assoc_split [of "0 :: u32" "7 * k" n] by (simp add: add.commute)
    ultimately show ?thesis
      using False i by (simp add: leb128_big shl_int_cont add.commute [of "7 * k"] scast_or or.assoc)
  qed
qed

lemma dec_varlong_loop_undefined:
  assumes "2 ^ (35 - 7 * k) \<le> n" and "k \<le> 5"
  shows "dec_varlong_loop (leb128 n @ rest) (7 * k) dest = None"
  using assms
proof (induction n arbitrary: k dest rule: leb128.induct)
  case (1 n)
  show ?case
  proof (cases "k = 5")
    case True
    then show ?thesis by (cases "leb128 n") (simp_all add: shl_int_def)
  next
    case False
    with "1.prems" have k: "k \<le> 4" by simp
    then have e: "35 - 7 * k = (35 - 7 * Suc k) + 7" by simp
    from "1.prems"(1) have n: "2 ^ (35 - 7 * Suc k) * 128 \<le> n"
      unfolding e power_add by simp
    moreover have "(1::nat) \<le> 2 ^ (35 - 7 * Suc k)" by simp
    ultimately have "128 \<le> n" by linarith
    moreover from n have "2 ^ (35 - 7 * Suc k) \<le> n div 128"
      using div_le_mono [OF n, of 128] by simp
    then have "dec_varlong_loop (leb128 (n div 128) @ rest) (7 * Suc k) d = None" for d
      using \<open>128 \<le> n\<close> k by (intro "1.IH") simp_all
    ultimately show ?thesis
      using cont_byte(1) [of n]
      by (simp add: leb128_big add.commute [of "7 * k"] cont_def del: cont_test split: bind_split)
  qed
qed

lemma dec_varlong_enc:
  "dec_varlong (enc_varlong [] v @ rest) =
     (if v < 2 ^ 35 then Some (scast (ucast v :: u32), rest) else None)"
proof (cases "v < 2 ^ 35")
  case True
  then have "unat v < 2 ^ 35" by (simp add: word_less_nat_alt)
  with True show ?thesis
    using dec_varlong_loop_leb [of "unat v" 0 rest 0]
    by (simp add: dec_varlong_def enc_varlong_leb)
next
  case False
  then have "2 ^ 35 \<le> unat v" by (simp add: word_less_nat_alt)
  with False show ?thesis
    using dec_varlong_loop_undefined [of 0 "unat v" rest 0]
    by (simp add: dec_varlong_def enc_varlong_leb)
qed

section \<open>Sizes\<close>

lemma length_leb128_numeral:
  "n < 128 \<Longrightarrow> length (leb128 n) = 1"
  "128 \<le> n \<Longrightarrow> n < 128 ^ 2 \<Longrightarrow> length (leb128 n) = 2"
  "128 ^ 2 \<le> n \<Longrightarrow> n < 128 ^ 3 \<Longrightarrow> length (leb128 n) = 3"
  "128 ^ 3 \<le> n \<Longrightarrow> n < 128 ^ 4 \<Longrightarrow> length (leb128 n) = 4"
  "128 ^ 4 \<le> n \<Longrightarrow> n < 128 ^ 5 \<Longrightarrow> length (leb128 n) = 5"
  "128 ^ 5 \<le> n \<Longrightarrow> n < 128 ^ 6 \<Longrightarrow> length (leb128 n) = 6"
  "128 ^ 6 \<le> n \<Longrightarrow> n < 128 ^ 7 \<Longrightarrow> length (leb128 n) = 7"
  "128 ^ 7 \<le> n \<Longrightarrow> n < 128 ^ 8 \<Longrightarrow> length (leb128 n) = 8"
  "128 ^ 8 \<le> n \<Longrightarrow> n < 128 ^ 9 \<Longrightarrow> length (leb128 n) = 9"
  "128 ^ 9 \<le> n \<Longrightarrow> n < 128 ^ 10 \<Longrightarrow> length (leb128 n) = 10"
  using leb128_small [of n] length_leb128_eq [of 1 n] length_leb128_eq [of 2 n]
    length_leb128_eq [of 3 n] length_leb128_eq [of 4 n] length_leb128_eq [of 5 n]
    length_leb128_eq [of 6 n] length_leb128_eq [of 7 n] length_leb128_eq [of 8 n]
    length_leb128_eq [of 9 n]
  by simp_all

lemma size_varint_leb:
  "size_varint v = of_nat (length (leb128 (unat v))) \<longleftrightarrow> unat v < 128 \<or> 256 \<le> unat v"
proof -
  have "unat v < 2 ^ LENGTH(32)" by (rule unsigned_less)
  then show ?thesis
    by (cases "unat v < 128"; cases "unat v < 128 ^ 2"; cases "unat v < 128 ^ 3"; cases "unat v < 128 ^ 4")
      (auto simp: size_varint_def word_less_nat_alt length_leb128_numeral not_less)
qed

lemma size_varlong_leb:
  "size_varlong v = of_nat (length (leb128 (unat v))) \<longleftrightarrow> unat v < 128 \<or> 256 \<le> unat v"
proof -
  have b: "unat v < 2 ^ LENGTH(64)" by (rule unsigned_less)
  consider "unat v < 128" | "128 \<le> unat v" "unat v < 128 ^ 2" | "128 ^ 2 \<le> unat v" "unat v < 128 ^ 3"
    | "128 ^ 3 \<le> unat v" "unat v < 128 ^ 4" | "128 ^ 4 \<le> unat v" "unat v < 128 ^ 5"
    | "128 ^ 5 \<le> unat v" "unat v < 128 ^ 6" | "128 ^ 6 \<le> unat v" "unat v < 128 ^ 7"
    | "128 ^ 7 \<le> unat v" "unat v < 128 ^ 8" | "128 ^ 8 \<le> unat v" "unat v < 128 ^ 9"
    | "128 ^ 9 \<le> unat v"
    by linarith
  then show ?thesis
    using b by cases (simp_all add: size_varlong_def word_less_nat_alt length_leb128_numeral)
qed

lemma length_leb128_u32: "length (leb128 (unat (v :: u32))) \<le> 5"
proof -
  have "unat v < 2 ^ LENGTH(32)" by (rule unsigned_less)
  then have "unat v < 128 ^ Suc 4" by simp
  then show ?thesis using length_leb128_le [of "unat v" 4] by simp
qed

section \<open>Contracts\<close>

interpretation varint: walked_codec "\<lambda>_. True" "\<lambda>v. leb128 (unat v)"
  "\<lambda>d v. Some (enc_varint d v)" dec_varint walk_varint
proof unfold_locales
  fix v :: u32 and rest
  have "unat v < 2 ^ LENGTH(32)" by (rule unsigned_less)
  then show "dec_varint (leb128 (unat v) @ rest) = Some (v, rest)"
    by (simp add: dec_varint_leb)
qed (simp_all add: enc_varint_leb walk_varint_leb length_leb128_u32)

interpretation small_varint: sized_codec "\<lambda>v. unat v < 128 \<or> 256 \<le> unat v" "\<lambda>v. leb128 (unat v)"
  "\<lambda>d v. Some (enc_varint d v)" dec_varint size_varint
  by unfold_locales (simp_all add: varint.enc_wire [simplified] varint.dec_wire [OF TrueI] size_varint_leb)

lemma unat_less_exp_iff: "unat v < 2 ^ k \<longleftrightarrow> (\<forall>n \<ge> k. \<not> bit v n)" for v :: "'a::len word"
proof -
  have "unat v < 2 ^ k \<longleftrightarrow> take_bit k (unat v) = unat v"
    by (simp add: take_bit_nat_eq_self_iff)
  also have "\<dots> \<longleftrightarrow> (\<forall>n. bit (unat v) n \<longrightarrow> n < k)"
    by (auto simp: bit_eq_iff bit_take_bit_iff)
  also have "\<dots> \<longleftrightarrow> (\<forall>n \<ge> k. \<not> bit v n)"
    by (auto simp: bit_unsigned_iff not_less [symmetric])
  finally show ?thesis .
qed

lemma bit_scast_ucast:
  "bit (scast (ucast v :: u32) :: u64) n \<longleftrightarrow> n < 64 \<and> bit (v :: u64) (min n 31)"
  by (auto simp: bit_signed_iff bit_unsigned_iff min_def)

lemma scast_ucast_eq:
  assumes "v < 2 ^ 35"
  shows "(scast (ucast v :: u32) :: u64) = v \<longleftrightarrow> v < 2 ^ 31"
proof -
  from assms have "unat v < 2 ^ 35" by (simp add: word_less_nat_alt)
  then have hi: "\<not> bit v 40" unfolding unat_less_exp_iff by simp
  have "(scast (ucast v :: u32) :: u64) = v \<longleftrightarrow> (\<forall>n \<ge> 31. \<not> bit v n)"
  proof
    assume eq: "(scast (ucast v :: u32) :: u64) = v"
    then have b: "bit v n \<longleftrightarrow> n < 64 \<and> bit v 31" if "31 \<le> n" for n
      using bit_scast_ucast [of v n] that by (simp add: min_def)
    from hi b [of 40] have "\<not> bit v 31" by simp
    with b show "\<forall>n \<ge> 31. \<not> bit v n" by blast
  next
    assume "\<forall>n \<ge> 31. \<not> bit v n"
    then show "(scast (ucast v :: u32) :: u64) = v"
      by (intro bit_word_eqI) (auto simp: bit_scast_ucast min_def)
  qed
  also have "\<dots> \<longleftrightarrow> unat v < 2 ^ 31" unfolding unat_less_exp_iff ..
  finally show ?thesis by (simp add: word_less_nat_alt)
qed

interpretation varlong31: codec "\<lambda>v. v < 2 ^ 31" "\<lambda>v. leb128 (unat v)"
  "\<lambda>d v. Some (enc_varlong d v)" dec_varlong
proof unfold_locales
  fix v :: u64 and rest
  assume v: "v < 2 ^ 31"
  then have "v < 2 ^ 35" by (rule order.strict_trans) simp
  with v show "dec_varlong (leb128 (unat v) @ rest) = Some (v, rest)"
    using dec_varlong_enc [of v rest] by (simp add: enc_varlong_leb scast_ucast_eq)
qed (simp add: enc_varlong_leb)

section \<open>Properties\<close>

text \<open>C17. Every 32-bit value survives a round trip through \<open>enc_varint\<close> and \<open>dec_varint\<close>, whatever
  follows it in the buffer, and the decoder leaves the pointer exactly behind it; the encoder
  only appends to what was written before, and it writes between one and five bytes.\<close>

theorem varint_roundtrip:
  "dec_varint (enc_varint [] v @ rest) = Some (v, rest) \<and>
   enc_varint dest v = dest @ enc_varint [] v \<and>
   1 \<le> length (enc_varint [] v) \<and> length (enc_varint [] v) \<le> 5"
  using varint.dec_wire [OF TrueI, of v rest] length_leb128_u32 [of v]
  by (simp add: enc_varint_leb Suc_leI)

text \<open>\<open>walk_varint\<close> on any buffer of at least \<open>max_len\<close> bytes returns without reading outside
  it, and its result is exactly this: the length of the varint at the pointer if its last byte
  is among the first five and inside \<open>max_len\<close>; otherwise overrun when \<open>max_len\<close> is below five and
  invalid when it is not.\<close>

theorem walk_varint_exact:
  assumes "unat max_len \<le> length source"
  shows "walk_varint source max_len =
    Some (if conts source < 5 \<and> conts source < unat max_len then int (Suc (conts source))
          else if unat max_len < 5 then varnum_overrun else varnum_invalid)"
  using assms by (rule walk_varint_spec)

theorem walk_varint_exact_witness:
  "walk_varint [0x80, 0x01, 0xFF] 3 = Some 2"
  using walk_varint_exact [of 3 "[0x80, 0x01, 0xFF]"] by (simp add: conts_def cont_def)

text \<open>After a successful walk the decode is defined, reads only the walked bytes and leaves the
  pointer behind exactly that many bytes: \<open>dec_varint\<close> is safe on whatever \<open>walk_varint\<close> accepts.\<close>

theorem walk_varint_then_dec:
  assumes "walk_varint source max_len = Some n" and "0 \<le> n"
  shows "nat n \<le> unat max_len \<and> nat n \<le> length source \<and>
    (\<exists>v. dec_varint source = Some (v, drop (nat n) source))"
  using walk_varint_pos [OF assms] walk_varint_dec [OF assms] by auto

theorem walk_varint_then_dec_witness:
  "\<exists>v. dec_varint [0x80, 0x01, 0xFF] = Some (v, [0xFF :: byte])"
proof -
  have "walk_varint [0x80, 0x01, 0xFF] 3 = Some 2" by code_simp
  from walk_varint_then_dec [OF this] show ?thesis by simp
qed

text \<open>\<open>size_varint\<close> is the number of bytes \<open>enc_varint\<close> writes for exactly the values outside
  128..255; for those it answers 1 while two bytes are written.\<close>

theorem size_varint_exact_iff:
  "size_varint v = of_nat (length (enc_varint [] v)) \<longleftrightarrow> \<not> (128 \<le> v \<and> v < 256)"
  using size_varint_leb [of v] by (auto simp: enc_varint_leb word_le_nat_alt word_less_nat_alt)

text \<open>What decoding an encoded 64-bit value gives, for every value: below \<open>2\<^sup>3\<^sup>5\<close> the low 32 bits
  with the sign extended, above it undefined behaviour (a shift by 35 or more of an \<open>int\<close>); so
  the round trip holds for exactly the values below \<open>2\<^sup>3\<^sup>1\<close>.\<close>

theorem varlong_roundtrip_iff:
  "dec_varlong (enc_varlong [] v @ rest) =
     (if v < 2 ^ 35 then Some (scast (ucast v :: u32), rest) else None) \<and>
   (dec_varlong (enc_varlong [] v @ rest) = Some (v, rest) \<longleftrightarrow> v < 2 ^ 31)"
proof -
  have "v < 2 ^ 31 \<Longrightarrow> v < 2 ^ 35" by (erule order.strict_trans) simp
  then show ?thesis using dec_varlong_enc [of v rest] scast_ucast_eq [of v] by auto
qed

text \<open>\<open>walk_varlong\<close> accepts the image of a 64-bit value, with its length, for exactly the values
  below \<open>2\<^sup>6\<^sup>3\<close>; every larger one (every negative \<open>int64_t\<close>) is encoded in ten bytes and rejected
  as invalid.\<close>

theorem walk_varlong_enc:
  assumes "length (enc_varlong [] v) \<le> unat max_len"
  shows "walk_varlong (enc_varlong [] v @ rest) max_len =
    Some (if v < 2 ^ 63 then int (length (enc_varlong [] v)) else varnum_invalid)"
proof -
  let ?l = "length (leb128 (unat v))"
  have m: "max_len \<noteq> 0" using assms by (auto simp: enc_varlong_leb)
  have loop: "walk_varlong (leb128 (unat v) @ rest) max_len =
      varnum_loop 8 (leb128 (unat v) @ rest) 1 (unat max_len)"
    using m walk_varlong_loop_eq [of 1] by (simp add: walk_varlong_def)
  have lt: "v < 2 ^ 63 \<longleftrightarrow> ?l \<le> 9"
    using length_leb128_iff [of "unat v" 8] by (simp add: word_less_nat_alt)
  show ?thesis
  proof (cases "v < 2 ^ 63")
    case True
    with lt have "?l \<le> 9" by simp
    then show ?thesis
      using True assms varnum_loop_stops [OF conts_leb128_less, of "unat v" rest 1 8 "unat max_len"] loop
      by (simp add: enc_varlong_leb Suc_diff_Suc)
  next
    case False
    with lt have "10 \<le> ?l" by simp
    then show ?thesis
      using False assms varnum_loop_long [of 8 "leb128 (unat v) @ rest" 1 "unat max_len"] loop
      by (simp add: enc_varlong_leb)
  qed
qed

theorem walk_varlong_enc_witness:
  "walk_varlong (enc_varlong [] 0xFFFFFFFFFFFFFFFF) 10 = Some varnum_invalid"
proof -
  have "length (enc_varlong [] 0xFFFFFFFFFFFFFFFF) \<le> unat (10 :: u64)"
    by (simp add: enc_varlong_leb length_leb128_numeral)
  from walk_varlong_enc [OF this, of "[]"] show ?thesis by simp
qed

text \<open>\<open>size_varlong\<close> has the same gap as \<open>size_varint\<close>: it is the number of bytes \<open>enc_varlong\<close>
  writes for exactly the values outside 128..255.\<close>

theorem size_varlong_exact_iff:
  "size_varlong v = of_nat (length (enc_varlong [] v)) \<longleftrightarrow> \<not> (128 \<le> v \<and> v < 256)"
  using size_varlong_leb [of v] by (auto simp: enc_varlong_leb word_le_nat_alt word_less_nat_alt)

end
