(* ===== verification/Sds.thy ===== *)
theory Sds
  imports Fixed
begin

text \<open>
  Dynamic strings (\<^verbatim>\<open>src/sds.c\<close>, \<^verbatim>\<open>include/sds.h\<close>) at the level their clients see: the bytes of the
  string. The header that precedes the bytes in memory only matters for how much is allocated.
\<close>

type_synonym sds = "byte list"

definition SDS_TYPE_5 :: nat where "SDS_TYPE_5 = 0"
definition SDS_TYPE_8 :: nat where "SDS_TYPE_8 = 1"
definition SDS_TYPE_16 :: nat where "SDS_TYPE_16 = 2"
definition SDS_TYPE_32 :: nat where "SDS_TYPE_32 = 3"
definition SDS_TYPE_64 :: nat where "SDS_TYPE_64 = 4"

lemmas sds_types = SDS_TYPE_5_def SDS_TYPE_8_def SDS_TYPE_16_def SDS_TYPE_32_def SDS_TYPE_64_def

definition sdsHdrSize :: "nat \<Rightarrow> u64" where
  "sdsHdrSize type =
     (let t = type mod 8 in
      if t = SDS_TYPE_5 then 1 else if t = SDS_TYPE_8 then 3 else if t = SDS_TYPE_16 then 5
      else if t = SDS_TYPE_32 then 9 else if t = SDS_TYPE_64 then 17 else 0)"

definition sdsReqType :: "u64 \<Rightarrow> nat" where
  "sdsReqType string_size =
     (if string_size < push_bit 5 1 then SDS_TYPE_5
      else if string_size < push_bit 8 1 then SDS_TYPE_8
      else if string_size < push_bit 16 1 then SDS_TYPE_16
      else if string_size < push_bit 32 1 then SDS_TYPE_32
      else SDS_TYPE_64)"

definition sdslen :: "sds \<Rightarrow> u64" where
  "sdslen s = of_nat (length s)"

text \<open>\<^verbatim>\<open>sdsnewlen(init, initlen)\<close> for a non-null \<open>init\<close>: \<open>NULL\<close> when the allocation of header, bytes and
  terminator fails (the size is computed modulo \<open>2\<^sup>6\<^sup>4\<close>), otherwise the first \<open>initlen\<close> bytes of \<open>init\<close>.\<close>

definition sdsnewlen :: "(nat \<Rightarrow> bool) \<Rightarrow> ptr \<Rightarrow> u64 \<Rightarrow> sds option option" where
  "sdsnewlen mal init initlen =
     (let type = sdsReqType initlen;
          type = (if type = SDS_TYPE_5 \<and> initlen = 0 then SDS_TYPE_8 else type);
          hdrlen = sdsHdrSize type
      in if \<not> mal (unat (hdrlen + initlen + 1)) then Some None
         else do { (bs, _) \<leftarrow> memrd (unat initlen) init; Some (Some bs) })"

text \<open>\<^verbatim>\<open>sdsnew(init)\<close> for a C string, given by the bytes before its terminator.\<close>

definition sdsnew :: "(nat \<Rightarrow> bool) \<Rightarrow> byte list \<Rightarrow> sds option option" where
  "sdsnew mal str = sdsnewlen mal (str @ [0]) (of_nat (length str))"

lemma sdsnewlen_append:
  assumes "\<forall>n. mal n" and "length s < 2 ^ 64"
  shows "sdsnewlen mal (s @ rest) (of_nat (length s)) = Some (Some s)"
  using assms by (simp add: sdsnewlen_def Let_def unat_of_nat64)

lemma unat_add_le: "unat (a + b :: u64) \<le> unat a + unat b"
  by (simp add: unat_word_ariths)

text \<open>\<^verbatim>\<open>sdsnew\<close> fails only when a request for the bytes, the header and the terminator is refused.\<close>

lemma sdsnew_cases:
  assumes "length s < 2 ^ 64"
  shows "sdsnew mal s = Some None \<and> (\<exists>n \<le> length s + 18. \<not> mal n) \<or> sdsnew mal s = Some (Some s)"
proof -
  let ?t = "if sdsReqType (of_nat (length s)) = SDS_TYPE_5 \<and> (of_nat (length s) :: u64) = 0 then SDS_TYPE_8
    else sdsReqType (of_nat (length s))"
  have "unat (sdsHdrSize t + of_nat (length s) + 1) \<le> length s + 18" for t
  proof -
    have "unat (sdsHdrSize t) \<le> 17" by (auto simp: sdsHdrSize_def Let_def)
    moreover have "unat (of_nat (length s) :: u64) = length s" using assms by (rule unat_of_nat64)
    ultimately show ?thesis
      using unat_add_le [of "sdsHdrSize t" "of_nat (length s)"] unat_add_le [of "sdsHdrSize t + of_nat (length s)" 1] by simp
  qed
  moreover have "sdsnew mal s = (if \<not> mal (unat (sdsHdrSize ?t + of_nat (length s) + 1)) then Some None else Some (Some s))"
    using assms by (simp add: sdsnew_def sdsnewlen_def Let_def unat_of_nat64 memrd_def)
  ultimately show ?thesis by (cases "mal (unat (sdsHdrSize ?t + of_nat (length s) + 1))") auto
qed

end
