(* ===== verification/Scalars.thy ===== *)
theory Scalars
  imports Varint Sds
begin

text \<open>
  The scalar types of the protocol above the numbers (\<^verbatim>\<open>src/datautils.c\<close>, lines 274--332): varint-prefixed
  strings, UUIDs and packed block positions.
\<close>

section \<open>Strings\<close>

definition size_string :: "sds \<Rightarrow> u64" where
  "size_string string = size_varint (ucast (sdslen string)) + sdslen string"

definition walk_string :: "ptr \<Rightarrow> u64 \<Rightarrow> int option" where
  "walk_string source max_len =
     do { ret \<leftarrow> walk_varint source max_len;
          if ret < 0 then Some ret
          else do { (len, _) \<leftarrow> dec_varint source;
                    if max_len < size_of_int ret + scast len then Some (- 1)
                    else iadd ret (sint len) } }"

definition enc_string :: "ptr \<Rightarrow> sds \<Rightarrow> ptr option" where
  "enc_string dest source =
     (let len = (ucast (sdslen source) :: u32)
      in do { (bs, _) \<leftarrow> memrd (unat (scast len :: u64)) source; Some (enc_varint dest len @ bs) })"

definition dec_string :: "(nat \<Rightarrow> bool) \<Rightarrow> ptr \<Rightarrow> (sds option \<times> ptr) option" where
  "dec_string mal source =
     do { (len, source) \<leftarrow> dec_varint source;
          dest \<leftarrow> sdsnewlen mal source (scast len);
          source' \<leftarrow> adv (unat (scast len :: u64)) source;
          Some (dest, source') }"

section \<open>UUIDs\<close>

record mc_uuid =
  msb :: u64
  lsb :: u64

definition enc_uuid :: "ptr \<Rightarrow> mc_uuid \<Rightarrow> ptr" where
  "enc_uuid dest source = enc_be64 (enc_be64 dest (msb source)) (lsb source)"

definition dec_uuid :: "ptr \<Rightarrow> (mc_uuid \<times> ptr) option" where
  "dec_uuid source =
     do { (m, source) \<leftarrow> dec_be64 source; (l, source) \<leftarrow> dec_be64 source;
          Some (\<lparr>msb = m, lsb = l\<rparr>, source) }"

section \<open>Positions\<close>

text \<open>Three signed coordinates of 26, 12 and 26 bits in one 64-bit word.\<close>

record mc_position =
  pos_x :: u32
  pos_y :: u32
  pos_z :: u32

definition enc_position :: "ptr \<Rightarrow> mc_position \<Rightarrow> ptr" where
  "enc_position dest source =
     enc_be64 dest
       (push_bit 38 ((scast (pos_x source) :: u64) AND 0x3FFFFFF)
        OR push_bit 26 ((scast (pos_y source) :: u64) AND 0xFFF)
        OR (scast (pos_z source AND 0x3FFFFFF) :: u64))"

text \<open>\<^verbatim>\<open>if((c = v) >= 1 << (n - 1)) c -= 1 << n;\<close> on an \<^verbatim>\<open>int32_t\<close>.\<close>

definition unpack :: "nat \<Rightarrow> u64 \<Rightarrow> u32" where
  "unpack n v = (let c = (ucast v :: u32) in
     if sint c \<ge> sint (push_bit (n - 1) 1 :: u32) then c - push_bit n 1 else c)"

definition dec_position :: "ptr \<Rightarrow> (mc_position \<times> ptr) option" where
  "dec_position source =
     do { (i, source) \<leftarrow> dec_be64 source;
          Some (\<lparr>pos_x = unpack 26 (drop_bit 38 i),
                 pos_y = unpack 12 (drop_bit 26 i AND 0xFFF),
                 pos_z = unpack 26 (i AND 0x3FFFFFF)\<rparr>, source) }"

section \<open>Contracts\<close>

abbreviation always :: "nat \<Rightarrow> bool" where "always \<equiv> \<lambda>_. True"

definition wf_string :: "sds \<Rightarrow> bool" where
  "wf_string s \<longleftrightarrow> length s < 2 ^ 31"

definition wire_string :: "sds \<Rightarrow> byte list" where
  "wire_string s = leb128 (length s) @ s"

lemma len_u32:
  assumes "n < 2 ^ 31"
  shows "(ucast (of_nat n :: u64) :: u32) = of_nat n" and "unat (of_nat n :: u32) = n"
    and "sint (of_nat n :: u32) = int n" and "(scast (of_nat n :: u32) :: u64) = of_nat n"
proof -
  show "(ucast (of_nat n :: u64) :: u32) = of_nat n"
    using assms by (simp add: unsigned_of_nat take_bit_nat_eq_self)
  show "unat (of_nat n :: u32) = n"
    using assms by (simp add: unat_of_nat)
  show s: "sint (of_nat n :: u32) = int n"
    using assms by (simp add: sint_uint unsigned_of_nat signed_take_bit_int_eq_self take_bit_nat_eq_self)
  show "(scast (of_nat n :: u32) :: u64) = of_nat n"
    by (simp only: scast_eq s of_int_of_nat_eq)
qed

lemma dec_leb_len: "n < 2 ^ 31 \<Longrightarrow> dec_varint (leb128 n @ rest) = Some (of_nat n, rest)"
  by (simp add: dec_varint_leb)

lemma length_leb128_31: "n < 2 ^ 31 \<Longrightarrow> length (leb128 n) \<le> 5"
  using length_leb128_le [of n 4] by simp

interpretation string: walked_codec wf_string wire_string enc_string
  "\<lambda>s. case dec_string always s of Some (Some x, p) \<Rightarrow> Some (x, p) | _ \<Rightarrow> None" walk_string
proof unfold_locales
  fix s dest
  assume "wf_string s"
  then show "enc_string dest s = Some (dest @ wire_string s)"
    by (simp add: wf_string_def wire_string_def enc_string_def sdslen_def len_u32 unat_of_nat64
        enc_varint_leb memrd_def)
next
  fix s rest
  assume "wf_string s"
  then show "(case dec_string always (wire_string s @ rest) of Some (Some x, p) \<Rightarrow> Some (x, p) | _ \<Rightarrow> None)
      = Some (s, rest)"
    by (simp add: wf_string_def wire_string_def dec_string_def dec_leb_len len_u32 sdsnewlen_append
        unat_of_nat64)
next
  fix s rest and max_len :: u64
  assume s: "wf_string s" and fits: "length (wire_string s) \<le> unat max_len"
    and range: "int (length (wire_string s)) \<le> INT_MAX"
  let ?l = "length (leb128 (length s))"
  have l: "?l \<le> 5" and len: "length s < 2 ^ 31" using s by (auto simp: wf_string_def length_leb128_31)
  have "walk_varint (leb128 (length s) @ s @ rest) max_len = Some (int ?l)"
    using fits l by (intro walk_varint_leb) (simp_all add: wire_string_def)
  moreover have "\<not> max_len < of_nat ?l + of_nat (length s)"
  proof -
    have "unat (of_nat (?l + length s) :: u64) = ?l + length s"
      using l len by (intro unat_of_nat64) simp
    with fits show ?thesis by (simp add: word_less_nat_alt wire_string_def not_less)
  qed
  moreover have "iadd (int ?l) (int (length s)) = Some (int ?l + int (length s))"
    using range by (simp add: wire_string_def INT_MIN_def)
  ultimately show "walk_string (wire_string s @ rest) max_len = Some (int (length (wire_string s)))"
    using len by (simp add: walk_string_def wire_string_def dec_leb_len len_u32)
qed

lemma size_string_wire:
  assumes "wf_string s" and "length s < 128 \<or> 256 \<le> length s"
  shows "size_string s = of_nat (length (wire_string s))"
proof -
  have len: "length s < 2 ^ 31" using assms(1) by (simp add: wf_string_def)
  have "size_varint (of_nat (length s)) = of_nat (length (leb128 (length s)))"
    using size_varint_leb [of "of_nat (length s)"] assms(2) len by (simp add: len_u32)
  with len show ?thesis by (simp add: size_string_def sdslen_def len_u32 wire_string_def)
qed

interpretation sized_string: sized_codec "\<lambda>s. wf_string s \<and> (length s < 128 \<or> 256 \<le> length s)"
  wire_string enc_string
  "\<lambda>s. case dec_string always s of Some (Some x, p) \<Rightarrow> Some (x, p) | _ \<Rightarrow> None" size_string
  using string.enc_wire string.dec_wire size_string_wire by unfold_locales blast+

definition wire_uuid :: "mc_uuid \<Rightarrow> byte list" where
  "wire_uuid u = rev (mem_of (msb u)) @ rev (mem_of (lsb u))"

interpretation uuid: codec "\<lambda>_. True" wire_uuid "\<lambda>d u. Some (enc_uuid d u)" dec_uuid
  by unfold_locales
    (simp_all add: wire_uuid_def enc_uuid_def dec_uuid_def enc_be64_def be64.dec_wire [OF TrueI])

section \<open>Packing positions\<close>

lemma mask26: "(0x3FFFFFF :: 'a::len word) = mask 26"
  by (simp add: mask_eq_exp_minus_1)

lemma mask12: "(0xFFF :: 'a::len word) = mask 12"
  by (simp add: mask_eq_exp_minus_1)

definition pack_position :: "mc_position \<Rightarrow> u64" where
  "pack_position p =
     push_bit 38 (take_bit 26 (scast (pos_x p)))
     OR push_bit 26 (take_bit 12 (scast (pos_y p)))
     OR take_bit 26 (scast (pos_z p))"

lemma scast_take_bit: "n < 32 \<Longrightarrow> (scast (take_bit n (w :: u32)) :: u64) = take_bit n (scast w)"
  by (rule bit_word_eqI) (auto simp: bit_signed_iff bit_take_bit_iff min_def)

lemma enc_position_pack: "enc_position dest p = enc_be64 dest (pack_position p)"
  unfolding enc_position_def pack_position_def mask26 mask12
  by (simp add: scast_take_bit flip: take_bit_eq_mask)

lemma fields_pack:
  "drop_bit 38 (pack_position p) = take_bit 26 (scast (pos_x p))"
  "drop_bit 26 (pack_position p) AND 0xFFF = take_bit 12 (scast (pos_y p))"
  "pack_position p AND 0x3FFFFFF = take_bit 26 (scast (pos_z p))"
  unfolding mask26 mask12 pack_position_def take_bit_eq_mask [symmetric]
  by (auto simp: bit_simps min_def intro!: bit_word_eqI)

lemma top_bit_iff: "(2 ^ m \<le> take_bit (Suc m) k) = bit k m" for k :: int
proof -
  have "take_bit m k < 2 ^ m" and "0 \<le> take_bit m k"
    by (rule take_bit_int_less_exp) simp
  then show ?thesis by (auto simp: take_bit_Suc_from_most simp del: take_bit_int_less_exp)
qed

lemma unpack_signed:
  assumes "m < 31"
  shows "unpack (Suc m) (take_bit (Suc m) (scast w)) = signed_take_bit m w"
proof -
  let ?c = "take_bit (Suc m) w"
  have c: "(ucast (take_bit (Suc m) (scast w :: u64)) :: u32) = ?c"
    using assms by (intro bit_word_eqI) (auto simp: bit_simps min_def)
  have "uint ?c = take_bit (Suc m) (uint w)" by (rule unsigned_take_bit_eq)
  moreover have "take_bit (Suc m) (uint w) < 2 ^ Suc m" by (rule take_bit_int_less_exp)
  moreover have "(2::int) ^ Suc m \<le> 2 ^ 31" using assms by (intro power_increasing) simp_all
  moreover have "0 \<le> take_bit (Suc m) (uint w)" by simp
  ultimately have "- (2 ^ 31) \<le> uint ?c" and "uint ?c < 2 ^ 31" by linarith+
  then have "sint ?c = uint ?c" by (simp add: sint_uint signed_take_bit_int_eq_self)
  then have s: "sint ?c = take_bit (Suc m) (uint w)" by (simp add: unsigned_take_bit_eq)
  have p: "sint (push_bit m 1 :: u32) = 2 ^ m"
  proof -
    have lt: "(2::int) ^ m < 2 ^ 31" using assms by (intro power_strict_increasing) simp_all
    have "uint (push_bit m 1 :: u32) = 2 ^ m" 
      using assms lt by (subst unsigned_push_bit_eq) (simp add: take_bit_int_eq_self)
    moreover have "signed_take_bit 31 ((2::int) ^ m) = 2 ^ m"
      using lt by (intro signed_take_bit_int_eq_self) (simp_all add: order.trans [of _ 0])
    ultimately show ?thesis by (simp add: sint_uint del: push_bit_of_1)
  qed
  have "sint ?c \<ge> sint (push_bit m 1 :: u32) \<longleftrightarrow> bit w m"
    unfolding s p top_bit_iff by (simp add: bit_unsigned_iff)
  then show ?thesis
    unfolding unpack_def Let_def c by (simp add: signed_take_bit_eq_take_bit_minus)
qed

lemma signed_take_bit_word_self_iff:
  assumes "m < 31"
  shows "signed_take_bit m (w :: u32) = w \<longleftrightarrow> - (2 ^ m) \<le> sint w \<and> sint w < 2 ^ m"
proof -
  have "signed_take_bit m w = w \<longleftrightarrow> signed_take_bit m (sint w) = sint w"
  proof
    assume e: "signed_take_bit m w = w"
    show "signed_take_bit m (sint w) = sint w"
    proof (rule bit_eqI)
      fix n
      have "bit w (min (min n 31) m) = bit w (min n 31)"
        using arg_cong [OF e, of "\<lambda>w. bit w (min n 31)"] by (simp add: bit_signed_take_bit_iff min.commute min_less_iff_disj)
      then show "bit (signed_take_bit m (sint w)) n = bit (sint w) n"
        using assms bit_imp_le_length [of w n]
        by (cases "n < 32") (auto simp: bit_signed_take_bit_iff bit_sint_iff min_def split: if_splits)
    qed
  next
    assume e: "signed_take_bit m (sint w) = sint w"
    show "signed_take_bit m w = w"
    proof (rule bit_word_eqI)
      fix n assume "n < LENGTH(32)"
      then show "bit (signed_take_bit m w) n = bit w n"
        using arg_cong [OF e, of "\<lambda>w. bit w n"] assms
        by (simp add: bit_signed_take_bit_iff bit_sint_iff min_def split: if_splits)
    qed
  qed
  then show ?thesis by (simp add: signed_take_bit_int_eq_self_iff)
qed
lemma dec_enc_position:
  "dec_position (enc_position [] p @ rest) =
     Some (\<lparr>pos_x = signed_take_bit 25 (pos_x p), pos_y = signed_take_bit 11 (pos_y p),
            pos_z = signed_take_bit 25 (pos_z p)\<rparr>, rest)"
proof -
  have "dec_be64 (enc_be64 [] (pack_position p) @ rest) = Some (pack_position p, rest)"
    using be64.dec_wire [OF TrueI, of "pack_position p" rest] by (simp add: enc_be64_def)
  then show ?thesis
    using unpack_signed [of 25] unpack_signed [of 11]
    by (simp add: dec_position_def enc_position_pack fields_pack)
qed

definition position_in_range :: "mc_position \<Rightarrow> bool" where
  "position_in_range p \<longleftrightarrow>
     sint (pos_x p) \<in> {- (2 ^ 25) ..< 2 ^ 25} \<and> sint (pos_y p) \<in> {- (2 ^ 11) ..< 2 ^ 11} \<and>
     sint (pos_z p) \<in> {- (2 ^ 25) ..< 2 ^ 25}"

lemma position_in_range_iff:
  "position_in_range p \<longleftrightarrow>
     signed_take_bit 25 (pos_x p) = pos_x p \<and> signed_take_bit 11 (pos_y p) = pos_y p \<and>
     signed_take_bit 25 (pos_z p) = pos_z p"
  using signed_take_bit_word_self_iff [of 25] signed_take_bit_word_self_iff [of 11]
  by (simp add: position_in_range_def)

interpretation position: codec position_in_range "\<lambda>p. rev (mem_of (pack_position p))"
  "\<lambda>d p. Some (enc_position d p)" dec_position
proof unfold_locales
  fix p rest
  assume "position_in_range p"
  then show "dec_position (rev (mem_of (pack_position p)) @ rest) = Some (p, rest)"
    using dec_enc_position [of p rest]
    by (simp add: enc_position_pack enc_be64_def position_in_range_iff)
qed (simp add: enc_position_pack enc_be64_def)

section \<open>Properties\<close>

text \<open>C29. A string shorter than \<open>2\<^sup>3\<^sup>1\<close> bytes, whatever its bytes, is written behind what is there as its length and its bytes, without reading
  outside it; it is read back unchanged when the allocation succeeds; and \<^verbatim>\<open>walk_string\<close> on what was written returns its encoded length when that
  fits \<^verbatim>\<open>max_len\<close> and an \<^verbatim>\<open>int\<close>.\<close>

theorem string_roundtrip:
  assumes "length s < 2 ^ 31"
  shows "\<exists>bs. enc_string dest s = Some (dest @ bs) \<and> bs = leb128 (length s) @ s \<and>
    dec_string always (bs @ rest) = Some (Some s, rest) \<and>
    (length bs \<le> unat max_len \<and> int (length bs) \<le> INT_MAX \<longrightarrow> walk_string (bs @ rest) max_len = Some (int (length bs)))"
proof -
  have wf: "wf_string s" using assms by (simp add: wf_string_def)
  have "dec_string always (wire_string s @ rest) = Some (Some s, rest)"
    using string.dec_wire [OF wf, of rest] by (auto split: option.splits)
  with string.enc_wire [OF wf, of dest] string.walk_wire [OF wf] show ?thesis by (simp add: wire_string_def)
qed

theorem string_roundtrip_witness:
  "\<exists>bs. enc_string [9] [0x68, 0x69] = Some ([9] @ bs) \<and> bs = [2, 0x68, 0x69] \<and>
     dec_string always (bs @ [7]) = Some (Some [0x68, 0x69], [7]) \<and> walk_string (bs @ [7]) 3 = Some 3"
proof -
  have "leb128 (length [0x68 :: byte, 0x69]) = [2]" by (simp add: leb128_small)
  with string_roundtrip [of "[0x68, 0x69]" "[9]" "[7]" 3] show ?thesis by (simp add: INT_MAX_def)
qed

text \<open>A negative length prefix is not rejected: for a buffer that holds the five-byte varint of -1
  and nothing else, \<open>walk_string\<close> reports a valid string of four bytes, and the \<open>dec_string\<close> that
  follows such a walk in the protocol code copies \<open>2\<^sup>6\<^sup>4 - 1\<close> bytes out of the buffer.\<close>

theorem walk_string_negative_length:
  "walk_string (enc_varint [] 0xFFFFFFFF) 5 = Some 4 \<and>
   dec_string always (enc_varint [] 0xFFFFFFFF) = None"
proof -
  have e: "enc_varint [] 0xFFFFFFFF = [0xFF, 0xFF, 0xFF, 0xFF, 0x0F]"
    by (simp add: enc_varint.simps)
  have d: "dec_varint [0xFF, 0xFF, 0xFF, 0xFF, 0x0F] = Some (0xFFFFFFFF, [])"
    by (simp add: dec_varint_def shl_int_def)
  have "walk_varint [0xFF, 0xFF, 0xFF, 0xFF, 0x0F] 5 = Some 5"
    by (simp add: walk_varint_spec conts_def cont_def)
  with d show ?thesis
    unfolding e
    by (simp add: walk_string_def dec_string_def sdsnewlen_def memrd_def size_of_int_def iadd_def
        INT_MIN_def INT_MAX_def unsigned_eq_0_iff)
qed

text \<open>A position survives the round trip for exactly the coordinates that fit their 26, 12 and 26
  bits; in general each coordinate comes back as its low bits, sign-extended.\<close>

theorem position_roundtrip_iff:
  "dec_position (enc_position [] p @ rest) =
     Some (\<lparr>pos_x = signed_take_bit 25 (pos_x p), pos_y = signed_take_bit 11 (pos_y p),
            pos_z = signed_take_bit 25 (pos_z p)\<rparr>, rest) \<and>
   (dec_position (enc_position [] p @ rest) = Some (p, rest) \<longleftrightarrow> position_in_range p)"
  unfolding dec_enc_position position_in_range_iff by (cases p) auto

end
