(* ===== verification/NbtCodec.thy ===== *)
theory NbtCodec
  imports NbtSafe NbtWalk Scalars
begin

text \<open>
  NBT as a type of the protocol (\<^verbatim>\<open>src/datautils.c\<close>, lines 501--550): the encoder copies what the
  writer of cNBT produced, the decoder calls its parser with the constant \<^verbatim>\<open>NO_OVERFLOW\<close> as the length,
  trusting that the bytes were walked before; an optional tree is a compound or one other byte.

  A decoder that can fail returns its result and a pointer that may be NULL (\<open>None\<close>).
\<close>

section \<open>Operations\<close>

definition NO_OVERFLOW :: u64 where "NO_OVERFLOW = 1073741824"

text \<open>The status the writer leaves in \<^verbatim>\<open>errno\<close> is not looked at.\<close>

definition enc_nbt :: "(nat \<Rightarrow> bool) \<Rightarrow> ptr \<Rightarrow> nbt_node option \<Rightarrow> ptr option" where
  "enc_nbt mal dest source = do { (b, _) \<leftarrow> nbt_dump_binary mal source; Some (dest @ contents b) }"

definition dec_nbt :: "allocator \<Rightarrow> ptr \<Rightarrow> (nbt_node option \<times> ptr option) option" where
  "dec_nbt mal source =
     do { (nd, s) \<leftarrow> nbt_parse2 mal source NO_OVERFLOW;
          Some (nd, if nd = None then None else Some (memory s)) }"

definition enc_optnbt :: "(nat \<Rightarrow> bool) \<Rightarrow> ptr \<Rightarrow> nbt_node option \<Rightarrow> ptr option" where
  "enc_optnbt mal dest source =
     (case source of None \<Rightarrow> Some (enc_byte dest 0) | Some nd \<Rightarrow> enc_nbt mal dest (Some nd))"

definition dec_optnbt :: "allocator \<Rightarrow> ptr \<Rightarrow> (nbt_node option \<times> ptr option) option" where
  "dec_optnbt mal source =
     do { b \<leftarrow> deref source;
          if b \<noteq> type_value TAG_COMPOUND then do { source \<leftarrow> adv 1 source; Some (None, Some source) }
          else dec_nbt mal source }"

section \<open>Contracts\<close>

text \<open>Trees the protocol can carry: well formed, and at most \<^verbatim>\<open>NO_OVERFLOW\<close> bytes long.\<close>

definition sendable :: "nbt_node \<Rightarrow> bool" where
  "sendable nd \<longleftrightarrow> wf_nbt nd \<and> length (wire_node nd) \<le> 1073741824"

definition got :: "('a option \<times> ptr option) option \<Rightarrow> ('a \<times> ptr) option" where
  "got r = (case r of Some (Some x, Some p) \<Rightarrow> Some (x, p) | _ \<Rightarrow> None)"

lemma enc_nbt_wire: "sendable nd \<Longrightarrow> enc_nbt always dest (Some nd) = Some (dest @ wire_node nd)"
proof -
  assume nd: "sendable nd"
  then have "length (contents BUFFER_INIT) + length (wire_node nd) \<le> 2 ^ 63" and wf: "wf_nbt nd"
    by (simp_all add: sendable_def)
  from dumps_node [OF wf, of always] buffer_inv_init(1) this(1) show ?thesis
    by (cases rule: sink.writesD) (auto simp: nbt_dump_binary_def enc_nbt_def)
qed

lemma dec_nbt_wire: "sendable nd \<Longrightarrow> dec_nbt plenty (wire_node nd @ rest) = Some (Some nd, Some rest)"
proof -
  assume nd: "sendable nd"
  then have "2 * length (wire_payload (payload nd)) + 2 \<le> parse_fuel (wire_node nd @ rest)" and wf: "wf_nbt nd"
    by (simp_all add: parse_fuel_def wire_node_def sendable_def)
  from parses_named [OF wf this(1), unfolded parses_def, rule_format,
      of "parse_start (wire_node nd @ rest) NO_OVERFLOW" rest] nd
  show ?thesis by (auto simp: parse_start_def dec_nbt_def nbt_parse2_def sendable_def NO_OVERFLOW_def)
qed

interpretation nbt: walked_codec sendable wire_node "\<lambda>d x. enc_nbt always d (Some x)"
  "\<lambda>s. got (dec_nbt plenty s)" walk_nbt
proof unfold_locales
  fix x rest and max_len :: u64
  assume "sendable x" "length (wire_node x) \<le> unat max_len" "int (length (wire_node x)) \<le> INT_MAX"
  then show "walk_nbt (wire_node x @ rest) max_len = Some (int (length (wire_node x)))"
    using walks_nbt [of x] by (simp add: walks_def sendable_def)
qed (simp_all add: enc_nbt_wire dec_nbt_wire got_def)

text \<open>An optional tree on the wire.\<close>

definition wire_optnbt :: "nbt_node option \<Rightarrow> byte list" where
  "wire_optnbt o' = (case o' of None \<Rightarrow> [0] | Some nd \<Rightarrow> wire_node nd)"

definition wf_optnbt :: "nbt_node option \<Rightarrow> bool" where
  "wf_optnbt o' \<longleftrightarrow> (case o' of None \<Rightarrow> True | Some nd \<Rightarrow> sendable nd \<and> type_of nd = TAG_COMPOUND)"

lemma wire_node_Cons: "wire_node nd = type_value (type_of nd) # tl (wire_node nd)"
  by (simp add: wire_node_def)

lemma deref_wire_node [simp]: "deref (wire_node nd @ rest) = Some (type_value (type_of nd))"
  by (subst wire_node_Cons) simp

lemma dec_optnbt_wire: "wf_optnbt x \<Longrightarrow> dec_optnbt plenty (wire_optnbt x @ rest) = Some (x, Some rest)"
  by (cases x) (simp_all add: dec_optnbt_def wire_optnbt_def wf_optnbt_def adv_def dec_nbt_wire)

lemma enc_optnbt_wire: "wf_optnbt x \<Longrightarrow> enc_optnbt always dest x = Some (dest @ wire_optnbt x)"
  by (cases x) (simp_all add: enc_optnbt_def wire_optnbt_def wf_optnbt_def enc_byte_def enc_nbt_wire)

interpretation optnbt: walked_codec wf_optnbt wire_optnbt "\<lambda>d x. enc_optnbt always d x"
  "\<lambda>s. do { (x, p) \<leftarrow> dec_optnbt plenty s; p \<leftarrow> p; Some (x, p) }" walk_optnbt
proof unfold_locales
  fix x rest and max_len :: u64
  assume x: "wf_optnbt x" and len: "length (wire_optnbt x) \<le> unat max_len" "int (length (wire_optnbt x)) \<le> INT_MAX"
  then have "max_len \<noteq> 0" by (cases x) (auto simp: wire_optnbt_def wire_node_def)
  with x len nbt.walk_wire [of "the x" max_len rest]
  show "walk_optnbt (wire_optnbt x @ rest) max_len = Some (int (length (wire_optnbt x)))"
    by (cases x) (auto simp: walk_optnbt_def wf_optnbt_def wire_optnbt_def)
qed (simp_all add: dec_optnbt_wire enc_optnbt_wire)

section \<open>Long arrays\<close>

definition long_array :: "u64 list \<Rightarrow> nbt_node" where
  "long_array ws = nbt_node (Some []) (tag_long_array (Some ws) (of_nat (length ws)))"

lemma wire_cstr_Nil: "wire_cstr [] = [0, 0]"
  by (simp add: wire_cstr_def cstr_of_def strlen_def mem_of_def word_bytes_def upt_rec)

lemma wf_cstr_Nil: "wf_cstr []"
  by (simp add: wf_cstr_def)

lemma walks_long_array:
  assumes "length ws < 2 ^ 26"
  shows "walks walk_nbt (wire_node (long_array ws))"
proof (rule walks_named [where nm = "[]"])
  fix f
  assume "2 * length (wire_payload (payload (long_array ws))) + 2 \<le> f"
  then obtain g where f: "f = Suc g" by (cases f) auto
  have "walks (\<lambda>s m. walk_nbt_array s m (of_nat 8)) (wire_payload (payload (long_array ws)))"
    unfolding long_array_def using assms
      walks_array [of "length ws" 8 "concat (map (\<lambda>w. rev (mem_of w)) ws)"] by simp
  then show "walks (\<lambda>s. walk_unnamed_nbt f s (type_of (long_array ws))) (wire_payload (payload (long_array ws)))"
    unfolding f by (intro walks_unnamed) (simp add: walk_payload_def long_array_def walks_def)
qed (simp_all add: long_array_def wf_cstr_Nil nbt_type_of_def)

lemma long_array_range: "length ws < 2 ^ 26 \<Longrightarrow> int (7 + 8 * length (ws :: u64 list)) \<le> INT_MAX"
  by (simp add: INT_MAX_def)

lemma dec_long_array: "dec_nbt plenty (wire_node (long_array ws)) = Some (None, None)"
proof -
  obtain rest where wire: "wire_node (long_array ws) = 12 # 0 # 0 # rest"
    by (simp add: wire_node_def long_array_def wire_name_def wire_cstr_Nil)
  obtain f where "parse_fuel (12 # 0 # 0 # rest) = Suc f" by (simp add: parse_fuel_def)
  then show ?thesis unfolding wire
    by (simp add: dec_nbt_def nbt_parse2_def parse_start_def parse_named_tag_def reading_def orfail_def
        read_generic_def memrd_def read_string_def allocating_def checked_malloc_def parse_error_def ret_def
        read_payload_def finish_node_def nbt_type_of_def parse_unnamed_tag.simps NO_OVERFLOW_def Let_def)
qed

lemma enc_long_array: "enc_nbt always dest (Some (long_array ws)) = Some (dest @ [12, 0, 0])"
proof -
  have h: "dumps always (dump_header always (Some []) TAG_LONG_ARRAY True) [12, 0, 0]"
    using dumps_header [of "Some []" always TAG_LONG_ARRAY True]
    by (simp add: wire_name_def wire_cstr_Nil wf_cstr_Nil)
  have "length (contents BUFFER_INIT) + length [12 :: byte, 0, 0] \<le> 2 ^ 63" by simp
  from h buffer_inv_init(1) this show ?thesis
    by (cases rule: sink.writesD) (auto simp: enc_nbt_def nbt_dump_binary_def dump_binary_def andthen_def long_array_def)
qed

section \<open>Properties\<close>

text \<open>C7. NBT on the protocol: an optional tree that the protocol can carry is encoded after
  whatever is in the output buffer, its length is found by \<^verbatim>\<open>walk_optnbt\<close> in any receive buffer that
  holds it, and it is decoded to the same tree with the pointer moved by exactly that length.\<close>

theorem optnbt_roundtrip:
  assumes "wf_optnbt x" and "length (wire_optnbt x) \<le> unat max_len"
  shows "enc_optnbt always dest x = Some (dest @ wire_optnbt x) \<and>
    walk_optnbt (wire_optnbt x @ rest) max_len = Some (int (length (wire_optnbt x))) \<and>
    dec_optnbt plenty (wire_optnbt x @ rest) = Some (x, Some rest)"
proof -
  have "int (length (wire_optnbt x)) \<le> INT_MAX"
    using assms(1) by (cases x) (auto simp: wf_optnbt_def wire_optnbt_def sendable_def INT_MAX_def)
  with assms show ?thesis
    using optnbt.walk_wire [of x max_len rest] by (simp add: dec_optnbt_wire enc_optnbt_wire)
qed

theorem optnbt_roundtrip_witness:
  "enc_optnbt always [1, 2] (Some sample_tree) = Some ([1, 2] @ wire_optnbt (Some sample_tree)) \<and>
    walk_optnbt (wire_optnbt (Some sample_tree) @ [5]) 51 = Some (int (length (wire_optnbt (Some sample_tree)))) \<and>
    dec_optnbt plenty (wire_optnbt (Some sample_tree) @ [5]) = Some (Some sample_tree, Some [5])"
  by (rule optnbt_roundtrip)
    (simp_all add: wf_optnbt_def wire_optnbt_def sendable_def wf_sample_tree length_sample_tree,
      simp add: sample_tree_def)

text \<open>Long arrays fall between the walker and cNBT: \<^verbatim>\<open>walk_nbt\<close> accepts the image of every long array,
  \<^verbatim>\<open>dec_nbt\<close> then returns NULL for the same bytes, and \<^verbatim>\<open>enc_nbt\<close> of a long array silently writes only
  the type and the name, although \<^verbatim>\<open>size_nbt\<close> counts the elements.\<close>

theorem long_array_unsupported:
  assumes "length ws < 2 ^ 26" and "7 + 8 * length ws \<le> unat max_len"
  shows "walk_nbt (wire_node (long_array ws)) max_len = Some (int (7 + 8 * length ws)) \<and>
    dec_nbt plenty (wire_node (long_array ws)) = Some (None, None) \<and>
    enc_nbt always dest (Some (long_array ws)) = Some (dest @ [12, 0, 0]) \<and>
    size_nbt (long_array ws) = Some (of_nat (7 + 8 * length ws))"
proof (intro conjI)
  have len: "length (wire_node (long_array ws)) = 7 + 8 * length ws"
    by (simp add: long_array_def wire_node_def wire_name_def strlen_def cstr_of_def)
  have "walks walk_nbt (wire_node (long_array ws))"
    using assms(1) by (rule walks_long_array)
  then show "walk_nbt (wire_node (long_array ws)) max_len = Some (int (7 + 8 * length ws))"
    using len assms unfolding walks_def by (metis (no_types) append_Nil2 long_array_range)
  show "dec_nbt plenty (wire_node (long_array ws)) = Some (None, None)" by (rule dec_long_array)
  show "enc_nbt always dest (Some (long_array ws)) = Some (dest @ [12, 0, 0])" by (rule enc_long_array)
  show "size_nbt (long_array ws) = Some (of_nat (7 + 8 * length ws))"
    using assms(1) by (simp add: size_nbt_def long_array_def scast_len strlen_def cstr_of_def)
qed

theorem long_array_unsupported_witness:
  "walk_nbt (wire_node (long_array [1, 2])) 23 = Some (int (7 + 8 * length [1 :: u64, 2])) \<and>
    dec_nbt plenty (wire_node (long_array [1, 2])) = Some (None, None) \<and>
    enc_nbt always [] (Some (long_array [1, 2])) = Some ([] @ [12, 0, 0]) \<and>
    size_nbt (long_array [1, 2]) = Some (of_nat (7 + 8 * length [1 :: u64, 2]))"
  by (rule long_array_unsupported) simp_all

end
