(* ===== verification/Slot.thy ===== *)
theory Slot
  imports NbtCodec
begin

text \<open>
  Inventory slots, ingredients and smelting recipes (\<^verbatim>\<open>src/datautils.c\<close>, lines 552--723). A decoder
  writes through \<^verbatim>\<open>dest\<close>: it takes the old contents of the structure and returns the new ones, so the
  members it does not set keep what they had, and the array an ingredient points to is the one
  the caller provided.
\<close>

section \<open>Slots\<close>

record mc_slot =
  present :: byte
  slot_id :: u32
  slot_count :: byte
  slot_nbt :: "nbt_node option"

text \<open>\<^verbatim>\<open>if(max_len -= ret < sizeof(slot.count))\<close> subtracts the truth value of the comparison and tests the
  remaining length.\<close>

definition walk_slot :: "ptr \<Rightarrow> u64 \<Rightarrow> int option" where
  "walk_slot source max_len =
     (if max_len < 1 then Some (- 1)
      else do { (present, source) \<leftarrow> dec_byte source;
                if present = 0 then Some 1
                else let max_len = max_len - 1 in
                  do { ret \<leftarrow> walk_varint source max_len;
                       if ret < 0 then Some (- 1)
                       else let max_len = max_len - (if size_of_int ret < 1 then 1 else 0) in
                         if max_len \<noteq> 0 then Some (- 1)
                         else let max_len = max_len - 1; size = 1 + (size_of_int ret + 1) in
                           do { source \<leftarrow> adv (nat ret + 1) source;
                                b \<leftarrow> deref source;
                                if b \<noteq> type_value TAG_COMPOUND then Some (int_of_size (size + 1))
                                else do { ret \<leftarrow> walk_nbt source max_len;
                                          if ret < 0 then Some (- 1)
                                          else Some (int_of_size (size + size_of_int ret)) } } } })"

definition size_slot :: "mc_slot \<Rightarrow> u64 option" where
  "size_slot slot =
     (if present slot = 0 then Some 1
      else let size = 1 + 1 + size_varint (slot_id slot) in
        (case slot_nbt slot of
           None \<Rightarrow> Some size
         | Some nd \<Rightarrow> do { s \<leftarrow> size_nbt nd; Some (size + s) }))"

definition enc_slot :: "(nat \<Rightarrow> bool) \<Rightarrow> ptr \<Rightarrow> mc_slot \<Rightarrow> ptr option" where
  "enc_slot mal dest source =
     (let dest = enc_byte dest (present source) in
      if present source = 0 then Some dest
      else let dest = enc_byte (enc_varint dest (slot_id source)) (slot_count source) in
        (case slot_nbt source of
           None \<Rightarrow> Some (enc_byte dest 0)
         | Some nd \<Rightarrow> enc_nbt mal dest (Some nd)))"

definition dec_slot :: "allocator \<Rightarrow> mc_slot \<Rightarrow> ptr \<Rightarrow> (mc_slot \<times> ptr option) option" where
  "dec_slot mal dest source =
     do { (p, source) \<leftarrow> dec_byte source;
          let dest = dest\<lparr>present := p\<rparr> in
          if p = 0 then Some (dest, Some source)
          else do { (i, source) \<leftarrow> dec_varint source;
                    (c, source) \<leftarrow> dec_byte source;
                    let dest = dest\<lparr>slot_id := i, slot_count := c\<rparr> in
                    do { b \<leftarrow> deref source;
                         if b \<noteq> type_value TAG_COMPOUND
                         then do { source \<leftarrow> adv 1 source; Some (dest\<lparr>slot_nbt := None\<rparr>, Some source) }
                         else do { (nd, q) \<leftarrow> dec_nbt mal source; Some (dest\<lparr>slot_nbt := nd\<rparr>, q) } } } }"

section \<open>Ingredients\<close>

record mc_ingredient =
  ing_count :: u32
  ing_items :: "mc_slot list option"

text \<open>The pointer is not moved from one slot to the next.\<close>

primrec walk_ingredient_loop :: "nat \<Rightarrow> ptr \<Rightarrow> u64 \<Rightarrow> int \<Rightarrow> int option" where
  "walk_ingredient_loop 0 source max_len sz = Some sz"
| "walk_ingredient_loop (Suc n) source max_len sz =
     do { ret \<leftarrow> walk_slot source max_len;
          if ret < 0 then Some ret
          else do { sz \<leftarrow> iadd sz ret; walk_ingredient_loop n source (max_len - size_of_int ret) sz } }"

definition walk_ingredient :: "ptr \<Rightarrow> u64 \<Rightarrow> int option" where
  "walk_ingredient source max_len =
     do { ret \<leftarrow> walk_varint source max_len;
          if ret < 0 then Some ret
          else do { (len, source) \<leftarrow> dec_varint source;
                    walk_ingredient_loop (nat (sint len)) source (max_len - size_of_int ret) ret } }"

text \<open>The elements \<^verbatim>\<open>items[0]\<close> to \<^verbatim>\<open>items[count - 1]\<close>; a NULL or too short array is read out of bounds.\<close>

definition ingredient_slots :: "mc_ingredient \<Rightarrow> mc_slot list option" where
  "ingredient_slots g =
     (let n = nat (sint (ing_count g)) in
      case ing_items g of None \<Rightarrow> if n = 0 then Some [] else None | Some xs \<Rightarrow> arr_prefix n xs)"

primrec size_slots :: "u64 \<Rightarrow> mc_slot list \<Rightarrow> u64 option" where
  "size_slots sz [] = Some sz"
| "size_slots sz (x # xs) = do { s \<leftarrow> size_slot x; size_slots (sz + s) xs }"

definition size_ingredient :: "mc_ingredient \<Rightarrow> u64 option" where
  "size_ingredient g = do { xs \<leftarrow> ingredient_slots g; size_slots (size_varint (ing_count g)) xs }"

definition enc_ingredient :: "(nat \<Rightarrow> bool) \<Rightarrow> ptr \<Rightarrow> mc_ingredient \<Rightarrow> ptr option" where
  "enc_ingredient mal dest source =
     do { xs \<leftarrow> ingredient_slots source;
          enc_items (enc_slot mal) (enc_varint dest (ing_count source)) xs }"

text \<open>The loop decodes into \<^verbatim>\<open>items[i]\<close>, for \<open>n\<close> more slots.\<close>

primrec dec_slots :: "allocator \<Rightarrow> nat \<Rightarrow> nat \<Rightarrow> mc_slot list option \<Rightarrow> ptr \<Rightarrow> (mc_slot list option \<times> ptr option) option" where
  "dec_slots mal 0 i items source = Some (items, Some source)"
| "dec_slots mal (Suc n) i items source =
     do { xs \<leftarrow> items;
          if i < length xs
          then do { (x, p) \<leftarrow> dec_slot mal (xs ! i) source;
                    case p of
                      None \<Rightarrow> Some (Some (xs[i := x]), None)
                    | Some source \<Rightarrow> dec_slots mal n (Suc i) (Some (xs[i := x])) source }
          else None }"

definition dec_ingredient :: "allocator \<Rightarrow> mc_ingredient \<Rightarrow> ptr \<Rightarrow> (mc_ingredient \<times> ptr option) option" where
  "dec_ingredient mal dest source =
     do { (n, source) \<leftarrow> dec_varint source;
          (items, p) \<leftarrow> dec_slots mal (nat (sint n)) 0 (ing_items dest) source;
          Some (\<lparr>ing_count = n, ing_items = items\<rparr>, p) }"

section \<open>Smelting recipes\<close>

record mc_smelting =
  sm_group :: "sds option"
  sm_ingredient :: mc_ingredient
  sm_result :: mc_slot
  sm_experience :: u32
  sm_cooking_time :: u32

text \<open>After the length check on \<^verbatim>\<open>experience\<close>, \<^verbatim>\<open>size += ret\<close> adds the length of the slot a second time.\<close>

definition walk_smelting :: "ptr \<Rightarrow> u64 \<Rightarrow> int option" where
  "walk_smelting source max_len =
     do { ret \<leftarrow> walk_string source max_len;
          if ret < 0 then Some ret
          else do { source \<leftarrow> adv (nat ret) source;
          let max_len = max_len - size_of_int ret; size = ret in
          do { ret \<leftarrow> walk_ingredient source max_len;
          if ret < 0 then Some ret
          else do { size \<leftarrow> iadd size ret;
                    source \<leftarrow> adv (nat ret) source;
          let max_len = max_len - size_of_int ret in
          do { ret \<leftarrow> walk_slot source max_len;
          if ret < 0 then Some ret
          else do { size \<leftarrow> iadd size ret;
                    source \<leftarrow> adv (nat ret) source;
          let max_len = max_len - size_of_int ret in
          if max_len < 4 then Some (- 1)
          else do { size \<leftarrow> iadd size ret;
                    source \<leftarrow> adv 4 source;
                    ret \<leftarrow> walk_varint source (max_len - 4);
                    if ret < 0 then Some ret else iadd size ret } } } } } } }"

definition size_smelting :: "mc_smelting \<Rightarrow> u64 option" where
  "size_smelting smelting =
     do { s \<leftarrow> sm_group smelting;
          g \<leftarrow> size_ingredient (sm_ingredient smelting);
          r \<leftarrow> size_slot (sm_result smelting);
          Some (size_string s + g + r + 4 + size_varint (sm_cooking_time smelting)) }"

definition enc_smelting :: "(nat \<Rightarrow> bool) \<Rightarrow> ptr \<Rightarrow> mc_smelting \<Rightarrow> ptr option" where
  "enc_smelting mal dest source =
     do { s \<leftarrow> sm_group source;
          dest \<leftarrow> enc_string dest s;
          dest \<leftarrow> enc_ingredient mal dest (sm_ingredient source);
          dest \<leftarrow> enc_slot mal dest (sm_result source);
          Some (enc_varint (enc_bef32 dest (sm_experience source)) (sm_cooking_time source)) }"

text \<open>The pointers the ingredient and the slot return are used without a check: a NULL is dereferenced.\<close>

definition dec_smelting :: "(nat \<Rightarrow> bool) \<Rightarrow> allocator \<Rightarrow> mc_smelting \<Rightarrow> ptr \<Rightarrow> (mc_smelting \<times> ptr) option" where
  "dec_smelting smal mal dest source =
     do { (s, source) \<leftarrow> dec_string smal source;
          (g, p) \<leftarrow> dec_ingredient mal (sm_ingredient dest) source;
          source \<leftarrow> p;
          (r, p) \<leftarrow> dec_slot mal (sm_result dest) source;
          source \<leftarrow> p;
          (e, source) \<leftarrow> dec_bef32 source;
          (t, source) \<leftarrow> dec_varint source;
          Some (\<lparr>sm_group = s, sm_ingredient = g, sm_result = r, sm_experience = e, sm_cooking_time = t\<rparr>, source) }"

section \<open>Contracts\<close>

definition wire_slot :: "mc_slot \<Rightarrow> byte list" where
  "wire_slot s =
     (if present s = 0 then [0]
      else present s # leb128 (unat (slot_id s)) @ slot_count s # wire_optnbt (slot_nbt s))"

definition wf_slot :: "mc_slot \<Rightarrow> bool" where
  "wf_slot s \<longleftrightarrow> present s \<noteq> 0 \<longrightarrow> wf_optnbt (slot_nbt s)"

text \<open>What a structure that held \<open>d\<close> holds after the slot \<open>s\<close> was decoded into it.\<close>

definition slot_into :: "mc_slot \<Rightarrow> mc_slot \<Rightarrow> mc_slot" where
  "slot_into d s = (if present s = 0 then d\<lparr>present := 0\<rparr> else s)"

definition empty_slot :: mc_slot where
  "empty_slot = \<lparr>present = 0, slot_id = 0, slot_count = 0, slot_nbt = None\<rparr>"

lemma enc_slot_wire: "wf_slot s \<Longrightarrow> enc_slot always dest s = Some (dest @ wire_slot s)"
  by (cases "slot_nbt s")
    (auto simp: enc_slot_def wire_slot_def wf_slot_def wf_optnbt_def wire_optnbt_def enc_byte_def
      enc_varint_leb enc_nbt_wire Let_def)

lemma dec_slot_wire: "wf_slot s \<Longrightarrow> dec_slot plenty d (wire_slot s @ rest) = Some (slot_into d s, Some rest)"
  by (cases s; cases "slot_nbt s")
    (auto simp: dec_slot_def wire_slot_def wf_slot_def wf_optnbt_def wire_optnbt_def slot_into_def
      varint.dec_wire dec_nbt_wire adv_def Let_def)

text \<open>Absent slots are represented by \<open>empty_slot\<close>.\<close>

interpretation slot: codec "\<lambda>s. wf_slot s \<and> (present s = 0 \<longrightarrow> s = empty_slot)" wire_slot "enc_slot always"
  "\<lambda>p. do { (s, q) \<leftarrow> dec_slot plenty empty_slot p; q \<leftarrow> q; Some (s, q) }"
  by unfold_locales (auto simp: enc_slot_wire dec_slot_wire slot_into_def empty_slot_def)

definition wire_slots :: "mc_slot list \<Rightarrow> byte list" where
  "wire_slots xs = leb128 (length xs) @ concat (map wire_slot xs)"

lemma enc_slots_wire:
  "\<forall>x \<in> set xs. wf_slot x \<Longrightarrow> enc_items (enc_slot always) dest xs = Some (dest @ concat (map wire_slot xs))"
  by (induction xs arbitrary: dest) (simp_all add: enc_slot_wire)

lemma dec_slots_wire:
  "\<forall>x \<in> set xs. wf_slot x \<Longrightarrow> i + length xs \<le> length blk \<Longrightarrow>
     dec_slots plenty (length xs) i (Some blk) (concat (map wire_slot xs) @ rest) =
       Some (Some (take i blk @ map2 slot_into (take (length xs) (drop i blk)) xs @ drop (i + length xs) blk), Some rest)"
proof (induction xs arbitrary: i blk)
  case (Cons x xs)
  let ?blk = "blk[i := slot_into (blk ! i) x]"
  have i: "i < length blk" using Cons.prems(2) by simp
  have "dec_slots plenty (length xs) (Suc i) (Some ?blk) (concat (map wire_slot xs) @ rest) =
    Some (Some (take (Suc i) ?blk @ map2 slot_into (take (length xs) (drop (Suc i) ?blk)) xs @
      drop (Suc i + length xs) ?blk), Some rest)"
    using Cons.prems by (intro Cons.IH) auto
  moreover have "take (Suc i) ?blk = take i blk @ [slot_into (blk ! i) x]"
    using i by (simp add: take_Suc_conv_app_nth)
  moreover have "drop i blk = blk ! i # drop (Suc i) blk" using i by (simp add: Cons_nth_drop_Suc)
  ultimately show ?case using Cons.prems i by (simp add: dec_slot_wire)
qed simp

lemma ingredient_slots_all:
  "length xs < 2 ^ 31 \<Longrightarrow> ingredient_slots \<lparr>ing_count = of_nat (length xs), ing_items = Some xs\<rparr> = Some xs"
  by (simp add: ingredient_slots_def len_u32)

lemma enc_ingredient_wire:
  assumes "\<forall>x \<in> set xs. wf_slot x" and "length xs < 2 ^ 31"
  shows "enc_ingredient always dest \<lparr>ing_count = of_nat (length xs), ing_items = Some xs\<rparr> =
    Some (dest @ wire_slots xs)"
  using assms by (simp add: enc_ingredient_def ingredient_slots_all enc_slots_wire enc_varint_leb len_u32 wire_slots_def)

lemma dec_ingredient_wire:
  assumes "\<forall>x \<in> set xs. wf_slot x" and "length xs < 2 ^ 31" and "length xs \<le> length blk"
  shows "dec_ingredient plenty \<lparr>ing_count = c, ing_items = Some blk\<rparr> (wire_slots xs @ rest) =
    Some (\<lparr>ing_count = of_nat (length xs),
      ing_items = Some (map2 slot_into (take (length xs) blk) xs @ drop (length xs) blk)\<rparr>, Some rest)"
  using assms dec_slots_wire [of xs 0 blk rest]
  by (simp add: dec_ingredient_def wire_slots_def dec_leb_len len_u32)

lemma walk_absent_slot: "max_len \<noteq> 0 \<Longrightarrow> walk_slot (0 # source) max_len = Some 1"
  by (auto simp: walk_slot_def word_less_nat_alt unsigned_eq_0_iff)

lemma walk_ingredient_loop_absent:
  "n \<le> unat max_len \<Longrightarrow> 0 \<le> z \<Longrightarrow> z + int n \<le> INT_MAX \<Longrightarrow>
     walk_ingredient_loop n (0 # source) max_len z = Some (z + int n)"
proof (induction n arbitrary: max_len z)
  case (Suc n)
  then have "max_len \<noteq> 0" and "unat (max_len - 1) = unat max_len - 1"
    using unat_sub_len [of 1 max_len] by auto
  moreover have "walk_ingredient_loop n (0 # source) (max_len - 1) (z + 1) = Some (z + 1 + int n)"
    using Suc.prems calculation by (intro Suc.IH) auto
  moreover have "iadd z 1 = Some (z + 1)" using Suc.prems by (simp add: iadd_def INT_MIN_def)
  moreover have "size_of_int 1 = 1" by (simp add: size_of_int_def)
  ultimately show ?case by (simp add: walk_absent_slot)
qed simp

lemma walk_ingredient_absent:
  assumes "n < 2 ^ 30" and "length (leb128 n) + n \<le> unat max_len"
  shows "walk_ingredient (leb128 n @ 0 # rest) max_len = Some (int (length (leb128 n) + n))"
proof -
  let ?l = "length (leb128 n)"
  have l: "?l \<le> 5" using assms(1) by (intro length_leb128_31) simp
  have "walk_varint (leb128 n @ 0 # rest) max_len = Some (int ?l)"
    using assms l by (intro walk_varint_leb) simp_all
  moreover have "dec_varint (leb128 n @ 0 # rest) = Some (of_nat n, 0 # rest)"
    using assms(1) by (intro dec_leb_len) simp
  moreover have "unat (max_len - of_nat ?l) = unat max_len - ?l"
    using assms(2) by (intro unat_sub_len) simp
  then have "walk_ingredient_loop n (0 # rest) (max_len - of_nat ?l) (int ?l) = Some (int ?l + int n)"
    using assms l by (intro walk_ingredient_loop_absent) (simp_all add: INT_MAX_def)
  ultimately show ?thesis using assms(1) by (simp add: walk_ingredient_def len_u32)
qed

text \<open>The image of a recipe with group \<open>s\<close>, ingredient slots \<open>xs\<close>, result \<open>r\<close>, experience \<open>e\<close> and cooking time \<open>t\<close>.\<close>

definition wire_smelting :: "sds \<Rightarrow> mc_slot list \<Rightarrow> mc_slot \<Rightarrow> u32 \<Rightarrow> u32 \<Rightarrow> byte list" where
  "wire_smelting s xs r e t = wire_string s @ wire_slots xs @ wire_slot r @ rev (mem_of e) @ leb128 (unat t)"

lemma dec_string_wire: "wf_string s \<Longrightarrow> dec_string always (wire_string s @ rest) = Some (Some s, rest)"
  using string.dec_wire [of s rest] by (auto split: option.splits prod.splits)

definition recipe :: "sds \<Rightarrow> mc_slot list \<Rightarrow> mc_slot \<Rightarrow> u32 \<Rightarrow> u32 \<Rightarrow> mc_smelting" where
  "recipe s xs r e t = \<lparr>sm_group = Some s,
     sm_ingredient = \<lparr>ing_count = of_nat (length xs), ing_items = Some xs\<rparr>,
     sm_result = r, sm_experience = e, sm_cooking_time = t\<rparr>"

lemma dec_smelting_wire:
  assumes "wf_string s" and "\<forall>x \<in> set xs. wf_slot x" and "length xs < 2 ^ 31" and "wf_slot r"
    and "sm_ingredient d = \<lparr>ing_count = c, ing_items = Some blk\<rparr>" and "length blk = length xs"
  shows "dec_smelting always plenty d (wire_smelting s xs r e t @ rest) =
    Some (\<lparr>sm_group = Some s,
      sm_ingredient = \<lparr>ing_count = of_nat (length xs), ing_items = Some (map2 slot_into blk xs)\<rparr>,
      sm_result = slot_into (sm_result d) r, sm_experience = e, sm_cooking_time = t\<rparr>, rest)"
  using assms
  by (simp add: dec_smelting_def wire_smelting_def dec_string_wire dec_ingredient_wire dec_slot_wire
      bef32.dec_wire varint.dec_wire)

lemma enc_smelting_wire:
  assumes "wf_string s" and "\<forall>x \<in> set xs. wf_slot x" and "length xs < 2 ^ 31" and "wf_slot r"
  shows "enc_smelting always dest \<lparr>sm_group = Some s,
      sm_ingredient = \<lparr>ing_count = of_nat (length xs), ing_items = Some xs\<rparr>,
      sm_result = r, sm_experience = e, sm_cooking_time = t\<rparr> = Some (dest @ wire_smelting s xs r e t)"
  using assms bef32.enc_wire [of _ e]
  by (simp add: enc_smelting_def wire_smelting_def string.enc_wire enc_ingredient_wire enc_slot_wire enc_varint_leb)

lemma wire_empty_slot [simp]: "wire_slot empty_slot = [0]"
  by (simp add: wire_slot_def empty_slot_def)

lemma walk_smelting_absent:
  assumes "wf_string s" and "n < 2 ^ 30"
    and img: "img = wire_smelting s (replicate n empty_slot) empty_slot e t"
    and "length img \<le> unat max_len" and "int (length img) \<le> INT_MAX"
  shows "walk_smelting (img @ rest) max_len = Some (int (length img) - 3)"
proof -
  define ls li lt where "ls = length (wire_string s)" and "li = length (leb128 n) + n" and "lt = length (leb128 (unat t))"
  let ?tail = "rev (mem_of e) @ leb128 (unat t) @ rest"
  have absent: "concat (map wire_slot (replicate n empty_slot)) @ 0 # w = 0 # replicate n 0 @ w" for w
    by (induction n) (simp_all add: replicate_app_Cons_same)
  have im: "img @ rest = wire_string s @ leb128 n @ 0 # replicate n 0 @ ?tail"
    using absent [of "?tail"] by (simp add: img wire_smelting_def wire_slots_def)
  have "length (concat (map wire_slot (replicate n empty_slot))) = n"
    by (induction n) simp_all
  then have len: "length img = ls + li + 5 + lt"
    by (simp add: img wire_smelting_def ls_def li_def lt_def wire_slots_def)
  note max = assms(4) [unfolded len] and range = assms(5) [unfolded len]
  have s1: "walk_string (img @ rest) max_len = Some (int ls)"
    unfolding im ls_def using assms(1) max range by (intro string.walk_wire) (simp_all add: ls_def)
  let ?m1 = "max_len - of_nat ls"
  have m1: "unat ?m1 = unat max_len - ls" using max by (intro unat_sub_len) simp
  have s2: "walk_ingredient (leb128 n @ 0 # replicate n 0 @ ?tail) ?m1 = Some (int li)"
    unfolding li_def using assms(2) max m1 by (intro walk_ingredient_absent) (simp_all add: li_def)
  define m2 where "m2 = ?m1 - of_nat li"
  have m2: "unat m2 = unat max_len - ls - li" unfolding m2_def using unat_sub_len [of li ?m1] max m1 by simp
  have a2: "adv li (leb128 n @ 0 # replicate n 0 @ ?tail) = Some (0 # ?tail)"
    by (simp add: li_def adv_def replicate_app_Cons_same [symmetric])
  have nz: "m2 \<noteq> 0" using m2 max by auto
  have m3: "unat (m2 - 1) = unat max_len - ls - li - 1" using unat_sub_len [of 1 m2] m2 max by simp
  then have ge: "\<not> m2 - 1 < 4" using max by (simp add: word_less_nat_alt)
  have "unat (m2 - 5) = unat max_len - ls - li - 5" using unat_sub_len [of 5 m2] m2 max by simp
  then have s4: "walk_varint (leb128 (unat t) @ rest) (m2 - 5) = Some (int lt)"
    unfolding lt_def using max length_leb128_u32 [of t] by (intro walk_varint_leb) (simp_all add: lt_def)
  have a4: "adv 4 ?tail = Some (leb128 (unat t) @ rest)" by (rule adv_append_eq) simp
  have i: "iadd (int ls) (int li) = Some (int ls + int li)" "iadd (int ls + int li) 1 = Some (int ls + int li + 1)"
    "iadd (int ls + int li + 1) 1 = Some (int ls + int li + 2)"
    "iadd (int ls + int li + 2) (int lt) = Some (int ls + int li + 2 + int lt)"
    using range by (simp_all add: iadd_def INT_MIN_def)
  have s3: "walk_slot (0 # ?tail) m2 = Some 1" "adv (Suc 0) (0 # ?tail) = Some ?tail"
    using walk_absent_slot [OF nz] by (simp_all add: adv_def)
  have "size_of_int 1 = 1" by (simp add: size_of_int_def)
  moreover have "adv ls (img @ rest) = Some (leb128 n @ 0 # replicate n 0 @ ?tail)" unfolding im ls_def by simp
  ultimately have "walk_smelting (img @ rest) max_len = Some (int ls + int li + 2 + int lt)"
    unfolding walk_smelting_def s1
    by (simp add: s2 a2 s3 ge s4 a4 i m2_def [symmetric] Let_def)
  then show ?thesis by (simp add: len)
qed

section \<open>Properties\<close>

text \<open>A slot survives the wire: \<^verbatim>\<open>enc_slot\<close> appends its image and \<^verbatim>\<open>dec_slot\<close> reads it back with the
  pointer behind it. An absent slot leaves the other members of the destination as they were.\<close>

theorem slot_roundtrip:
  assumes "wf_slot s"
  shows "enc_slot always dest s = Some (dest @ wire_slot s) \<and>
    dec_slot plenty d (wire_slot s @ rest) =
      Some (if present s = 0 then d\<lparr>present := 0\<rparr> else s, Some rest)"
  using assms by (simp add: enc_slot_wire dec_slot_wire slot_into_def)

definition sample_slot :: mc_slot where
  "sample_slot = \<lparr>present = 1, slot_id = 300, slot_count = 64, slot_nbt = Some sample_tree\<rparr>"

lemma wf_sample_slot: "wf_slot sample_slot"
  by (simp add: sample_slot_def wf_slot_def wf_optnbt_def sendable_def wf_sample_tree length_sample_tree)
    (simp add: sample_tree_def)

theorem slot_roundtrip_witness:
  "enc_slot always [9] sample_slot = Some ([9] @ wire_slot sample_slot) \<and>
    dec_slot plenty empty_slot (wire_slot sample_slot @ [8]) =
      Some (if present sample_slot = 0 then empty_slot\<lparr>present := 0\<rparr> else sample_slot, Some [8])"
  using wf_sample_slot by (rule slot_roundtrip)

text \<open>\<^verbatim>\<open>walk_slot\<close> rejects every present slot: whatever follows a nonzero first byte, and whatever
  the length of the buffer, it never returns a length.\<close>

theorem walk_slot_rejects_present:
  assumes "walk_slot (b # source) max_len = Some n" and "b \<noteq> 0"
  shows "n = - 1"
proof (rule ccontr)
  assume n: "n \<noteq> - 1"
  with assms obtain ret where w: "walk_varint source (max_len - 1) = Some ret" "0 \<le> ret"
    "max_len - 1 - (if size_of_int ret < 1 then 1 else 0) = 0"
    by (auto simp: walk_slot_def Let_def not_less split: if_splits bind_splits)
  from walk_varint_pos [OF w(1,2)] obtain k where k: "ret = int (Suc k)" "k < 5" "Suc k \<le> unat (max_len - 1)"
    by blast
  have "unat (of_nat (Suc k) :: u64) = Suc k" using k(2) by (intro unat_of_nat64) simp
  then have "\<not> (of_nat (Suc k) :: u64) < 1" unfolding word_less_nat_alt by simp
  then have "\<not> size_of_int ret < 1" unfolding k(1) size_of_int_nat .
  with w(3) k(3) show False by simp
qed

theorem walk_slot_rejects_present_witness:
  "walk_slot [1, 5, 64, 0] 4 = Some (- 1) \<and> (- 1 :: int) = - 1"
proof -
  have w: "walk_slot [1, 5, 64, 0] 4 = Some (- 1)"
    by (simp add: walk_slot_def walk_varint_def size_of_int_def Let_def)
  with walk_slot_rejects_present [OF w] show ?thesis by simp
qed

text \<open>\<^verbatim>\<open>size_slot\<close> of a present slot without NBT is one byte less than what \<^verbatim>\<open>enc_slot\<close> writes, for every
  identifier whose own size is right.\<close>

theorem size_slot_short:
  assumes "present s \<noteq> 0" and "slot_nbt s = None" and "unat (slot_id s) < 128 \<or> 256 \<le> unat (slot_id s)"
  shows "\<exists>z bs. size_slot s = Some z \<and> enc_slot always [] s = Some bs \<and> length bs = unat z + 1"
proof -
  let ?n = "length (leb128 (unat (slot_id s)))"
  have size: "size_slot s = Some (of_nat (2 + ?n))"
    using assms small_varint.size_wire [of "slot_id s"] by (simp add: size_slot_def)
  have "?n \<le> 5" by (rule length_leb128_u32)
  then have "unat (of_nat (2 + ?n) :: u64) = 2 + ?n" by (intro unat_of_nat64) simp
  moreover have "enc_slot always [] s = Some (wire_slot s)"
    using assms(2) by (simp add: enc_slot_wire wf_slot_def wf_optnbt_def)
  moreover have "length (wire_slot s) = 3 + ?n" using assms by (simp add: wire_slot_def wire_optnbt_def)
  ultimately show ?thesis using size by simp
qed

theorem size_slot_short_witness:
  "\<exists>z bs. size_slot (sample_slot\<lparr>slot_nbt := None\<rparr>) = Some z \<and>
    enc_slot always [] (sample_slot\<lparr>slot_nbt := None\<rparr>) = Some bs \<and> length bs = unat z + 1"
  by (rule size_slot_short) (simp_all add: sample_slot_def)

text \<open>\<^verbatim>\<open>walk_ingredient\<close> looks at the first slot only: if that is absent, every count \<open>n\<close> is
  answered with the length of \<open>n\<close> absent slots, whatever the buffer holds behind the first one.\<close>

theorem walk_ingredient_first_only:
  assumes "n < 2 ^ 30" and "length (leb128 n) + n \<le> unat max_len"
  shows "walk_ingredient (enc_varint [] (of_nat n) @ 0 # rest) max_len = Some (int (length (leb128 n) + n))"
  using walk_ingredient_absent [OF assms] assms(1) by (simp add: enc_varint_leb len_u32)

theorem walk_ingredient_first_only_witness:
  "walk_ingredient (enc_varint [] (of_nat 2) @ 0 # [1, 5, 64, 0]) 6 = Some (int (length (leb128 2) + 2))"
  by (rule walk_ingredient_first_only) (simp_all add: leb128_small)

text \<open>Ingredients: the encoder writes the count and the slots, and the decoder reads them back into
  the array its caller provides if it is long enough. It allocates none itself: into a structure
  without an array, decoding any nonempty ingredient writes through an invalid pointer.\<close>

theorem ingredient_roundtrip:
  assumes "\<forall>x \<in> set xs. wf_slot x" and "length xs < 2 ^ 31" and "length xs \<le> length blk"
  shows "enc_ingredient always dest \<lparr>ing_count = of_nat (length xs), ing_items = Some xs\<rparr> =
      Some (dest @ wire_slots xs) \<and>
    dec_ingredient plenty \<lparr>ing_count = c, ing_items = Some blk\<rparr> (wire_slots xs @ rest) =
      Some (\<lparr>ing_count = of_nat (length xs),
        ing_items = Some (map2 slot_into (take (length xs) blk) xs @ drop (length xs) blk)\<rparr>, Some rest) \<and>
    dec_ingredient plenty \<lparr>ing_count = c, ing_items = None\<rparr> (wire_slots xs @ rest) =
      (if xs = [] then Some (\<lparr>ing_count = 0, ing_items = None\<rparr>, Some rest) else None)"
proof (intro conjI)
  show "dec_ingredient plenty \<lparr>ing_count = c, ing_items = None\<rparr> (wire_slots xs @ rest) =
      (if xs = [] then Some (\<lparr>ing_count = 0, ing_items = None\<rparr>, Some rest) else None)"
  proof (cases "length xs")
    case 0
    then show ?thesis using dec_leb_len [of 0 rest] by (simp add: dec_ingredient_def wire_slots_def)
  next
    case (Suc k)
    then have "xs \<noteq> []" by auto
    with Suc show ?thesis
      using assms(2) by (simp add: dec_ingredient_def wire_slots_def dec_leb_len len_u32 del: of_nat_Suc)
  qed
qed (use assms in \<open>auto intro: enc_ingredient_wire dec_ingredient_wire\<close>)

theorem ingredient_roundtrip_witness:
  "enc_ingredient always [] \<lparr>ing_count = of_nat (length [sample_slot]), ing_items = Some [sample_slot]\<rparr> =
      Some ([] @ wire_slots [sample_slot]) \<and>
    dec_ingredient plenty \<lparr>ing_count = 0, ing_items = Some [empty_slot]\<rparr> (wire_slots [sample_slot] @ [7]) =
      Some (\<lparr>ing_count = of_nat (length [sample_slot]),
        ing_items = Some (map2 slot_into (take (length [sample_slot]) [empty_slot]) [sample_slot] @
          drop (length [sample_slot]) [empty_slot])\<rparr>, Some [7]) \<and>
    dec_ingredient plenty \<lparr>ing_count = 0, ing_items = None\<rparr> (wire_slots [sample_slot] @ [7]) =
      (if [sample_slot] = [] then Some (\<lparr>ing_count = 0, ing_items = None\<rparr>, Some [7]) else None)"
  by (rule ingredient_roundtrip) (simp_all add: wf_sample_slot)

text \<open>Smelting recipes survive the wire: the encoder writes group, slots, result, experience and time,
  and decoding into a structure whose ingredient array has the right length gives them back.\<close>

theorem smelting_roundtrip:
  assumes "wf_string s" and "\<forall>x \<in> set (r # xs). wf_slot x \<and> present x \<noteq> 0" and "length xs < 2 ^ 31"
    and "sm_ingredient d = \<lparr>ing_count = c, ing_items = Some blk\<rparr>" and "length blk = length xs"
  shows "\<exists>bs. enc_smelting always dest (recipe s xs r e t) = Some (dest @ bs) \<and>
    dec_smelting always plenty d (bs @ rest) = Some (recipe s xs r e t, rest)"
proof -
  have wf: "\<forall>x \<in> set xs. wf_slot x" "wf_slot r" using assms(2) by simp_all
  have "map2 slot_into blk xs = xs"
    using assms(2,5) by (intro nth_equalityI) (auto simp: slot_into_def)
  moreover have "slot_into (sm_result d) r = r" using assms(2) by (simp add: slot_into_def)
  ultimately show ?thesis
    using enc_smelting_wire [OF assms(1) wf(1) assms(3) wf(2), of dest e t]
      dec_smelting_wire [OF assms(1) wf(1) assms(3) wf(2) assms(4,5), of e t rest]
    unfolding recipe_def by simp
qed

theorem smelting_roundtrip_witness:
  "\<exists>bs. enc_smelting always [] (recipe [0x61] [sample_slot] sample_slot 5 200) = Some ([] @ bs) \<and>
    dec_smelting always plenty (recipe [] [empty_slot] empty_slot 0 0) (bs @ [1]) =
      Some (recipe [0x61] [sample_slot] sample_slot 5 200, [1])"
  by (rule smelting_roundtrip [where c = 1 and blk = "[empty_slot]"])
    (simp_all add: wf_sample_slot wf_string_def recipe_def, simp add: sample_slot_def)

text \<open>\<^verbatim>\<open>walk_smelting\<close> adds the length of the result slot instead of the four bytes of the experience:
  for recipes of absent slots (the only ones it accepts) it is three bytes short of the image.\<close>

theorem walk_smelting_short:
  assumes "wf_string s" and "n < 2 ^ 30" and "length (wire_smelting s (replicate n empty_slot) empty_slot e t) \<le> unat max_len"
    and "int (length (wire_smelting s (replicate n empty_slot) empty_slot e t)) \<le> INT_MAX"
  shows "walk_smelting (wire_smelting s (replicate n empty_slot) empty_slot e t @ rest) max_len =
    Some (int (length (wire_smelting s (replicate n empty_slot) empty_slot e t)) - 3)"
  using walk_smelting_absent [OF assms(1,2) refl assms(3,4)] .

theorem walk_smelting_short_witness:
  "walk_smelting (wire_smelting [] (replicate 1 empty_slot) empty_slot 0 5 @ [4]) 100 =
    Some (int (length (wire_smelting [] (replicate 1 empty_slot) empty_slot 0 5)) - 3)"
  by (rule walk_smelting_short)
    (simp_all add: wire_smelting_def wire_string_def wf_string_def wire_slots_def leb128_small INT_MAX_def)

end
