(* ===== verification/Particle.thy ===== *)
theory Particle
  imports Slot
begin

text \<open>
  Particles (\<^verbatim>\<open>src/datautils.c\<close>, lines 725--835). The members of the C union are separate fields: the
  code only reads the member that the type selects, after the same member was written.
\<close>

section \<open>Operations\<close>

definition particle_block :: u32 where "particle_block = 3"
definition particle_dust :: u32 where "particle_dust = 11"
definition particle_falling_dust :: u32 where "particle_falling_dust = 20"
definition particle_item :: u32 where "particle_item = 27"

lemmas particle_types = particle_block_def particle_dust_def particle_falling_dust_def particle_item_def

record mc_particle =
  p_type :: u32
  block_state :: u32
  red :: u32
  green :: u32
  blue :: u32
  scale :: u32
  item :: mc_slot

text \<open>The walker reads a varint that is not there, and the case of \<^verbatim>\<open>particle_dust\<close> falls through to
  \<^verbatim>\<open>particle_item\<close>.\<close>

definition walk_particle_item :: "ptr \<Rightarrow> u64 \<Rightarrow> int \<Rightarrow> int option" where
  "walk_particle_item source max_len sz =
     do { ret \<leftarrow> walk_slot source max_len; if ret < 0 then Some ret else iadd sz ret }"

definition walk_particledata :: "ptr \<Rightarrow> u64 \<Rightarrow> u32 \<Rightarrow> int option" where
  "walk_particledata source max_len type =
     do { ret \<leftarrow> walk_varint source max_len;
          if ret < 0 then Some (- 1)
          else do { source \<leftarrow> adv (nat ret) source;
                    let max_len = max_len - size_of_int ret; size = ret in
                    if type = particle_block \<or> type = particle_falling_dust then
                      do { ret \<leftarrow> walk_varint source max_len; if ret < 0 then Some ret else iadd size ret }
                    else if type = particle_dust then
                      (if max_len < 16 then Some (- 1)
                       else do { size \<leftarrow> iadd size 16; walk_particle_item source max_len size })
                    else if type = particle_item then walk_particle_item source max_len size
                    else Some size } }"

definition size_particledata :: "mc_particle \<Rightarrow> u64 option" where
  "size_particledata particle =
     (if p_type particle = particle_block \<or> p_type particle = particle_falling_dust
      then Some (size_varint (block_state particle))
      else if p_type particle = particle_dust then Some 16
      else if p_type particle = particle_item then size_slot (item particle)
      else Some 0)"

definition enc_particledata :: "(nat \<Rightarrow> bool) \<Rightarrow> ptr \<Rightarrow> mc_particle \<Rightarrow> ptr option" where
  "enc_particledata mal dest source =
     (if p_type source = particle_block \<or> p_type source = particle_falling_dust
      then Some (enc_varint dest (block_state source))
      else if p_type source = particle_dust
      then Some (enc_bef32 (enc_bef32 (enc_bef32 (enc_bef32 dest (red source)) (green source)) (blue source)) (scale source))
      else if p_type source = particle_item then enc_slot mal dest (item source)
      else Some dest)"

definition dec_particledata :: "allocator \<Rightarrow> mc_particle \<Rightarrow> ptr \<Rightarrow> u32 \<Rightarrow> (mc_particle \<times> ptr option) option" where
  "dec_particledata mal dest source type =
     (let dest = dest\<lparr>p_type := type\<rparr> in
      if type = particle_block \<or> type = particle_falling_dust
      then do { (v, source) \<leftarrow> dec_varint source; Some (dest\<lparr>block_state := v\<rparr>, Some source) }
      else if type = particle_dust
      then do { (r, source) \<leftarrow> dec_bef32 source; (g, source) \<leftarrow> dec_bef32 source;
                (b, source) \<leftarrow> dec_bef32 source; (s, source) \<leftarrow> dec_bef32 source;
                Some (dest\<lparr>red := r, green := g, blue := b, scale := s\<rparr>, Some source) }
      else if type = particle_item
      then do { (x, p) \<leftarrow> dec_slot mal (item dest) source; Some (dest\<lparr>item := x\<rparr>, p) }
      else Some (dest, Some source))"

definition walk_particle :: "ptr \<Rightarrow> u64 \<Rightarrow> int option" where
  "walk_particle source max_len =
     do { ret \<leftarrow> walk_varint source max_len;
          if ret < 0 then Some ret
          else do { (type, source) \<leftarrow> dec_varint source;
                    ret' \<leftarrow> walk_particledata source (max_len - size_of_int ret) type;
                    if ret' < 0 then Some ret' else iadd ret ret' } }"

definition size_particle :: "mc_particle \<Rightarrow> u64 option" where
  "size_particle particle =
     do { s \<leftarrow> size_particledata particle; Some (size_varint (p_type particle) + s) }"

definition enc_particle :: "(nat \<Rightarrow> bool) \<Rightarrow> ptr \<Rightarrow> mc_particle \<Rightarrow> ptr option" where
  "enc_particle mal dest source = enc_particledata mal (enc_varint dest (p_type source)) source"

definition dec_particle :: "allocator \<Rightarrow> mc_particle \<Rightarrow> ptr \<Rightarrow> (mc_particle \<times> ptr option) option" where
  "dec_particle mal dest source =
     do { (t, source) \<leftarrow> dec_varint source;
          dec_particledata mal (dest\<lparr>p_type := t\<rparr>) source t }"

section \<open>Contracts\<close>

definition wire_particledata :: "mc_particle \<Rightarrow> byte list" where
  "wire_particledata p =
     (if p_type p = particle_block \<or> p_type p = particle_falling_dust then leb128 (unat (block_state p))
      else if p_type p = particle_dust
      then rev (mem_of (red p)) @ rev (mem_of (green p)) @ rev (mem_of (blue p)) @ rev (mem_of (scale p))
      else if p_type p = particle_item then wire_slot (item p)
      else [])"

definition wire_particle :: "mc_particle \<Rightarrow> byte list" where
  "wire_particle p = leb128 (unat (p_type p)) @ wire_particledata p"

definition wf_particle :: "mc_particle \<Rightarrow> bool" where
  "wf_particle p \<longleftrightarrow> (p_type p = particle_item \<longrightarrow> wf_slot (item p))"

text \<open>What a structure that held \<open>d\<close> holds after the particle \<open>p\<close> was decoded into it: the type, and the
  member that the type selects.\<close>

definition particle_into :: "mc_particle \<Rightarrow> mc_particle \<Rightarrow> mc_particle" where
  "particle_into d p =
     (let d = d\<lparr>p_type := p_type p\<rparr> in
      if p_type p = particle_block \<or> p_type p = particle_falling_dust then d\<lparr>block_state := block_state p\<rparr>
      else if p_type p = particle_dust
      then d\<lparr>red := red p, green := green p, blue := blue p, scale := scale p\<rparr>
      else if p_type p = particle_item then d\<lparr>item := slot_into (item d) (item p)\<rparr>
      else d)"

lemma enc_particle_wire: "wf_particle p \<Longrightarrow> enc_particle always dest p = Some (dest @ wire_particle p)"
  using bef32.enc_wire
  by (auto simp: enc_particle_def enc_particledata_def wire_particle_def wire_particledata_def wf_particle_def
      enc_varint_leb enc_slot_wire)

lemma dec_particle_wire:
  "wf_particle p \<Longrightarrow> dec_particle plenty d (wire_particle p @ rest) = Some (particle_into d p, Some rest)"
  by (auto simp: dec_particle_def dec_particledata_def wire_particle_def wire_particledata_def wf_particle_def
      particle_into_def varint.dec_wire bef32.dec_wire dec_slot_wire Let_def)

section \<open>The walker is never right\<close>

text \<open>Whatever the particle and what follows it, \<^verbatim>\<open>walk_particle\<close> does not return the length of its image: it reads a varint too many, and for
  dust also a slot.\<close>

lemma walk_leb_pos: "walk_varint (leb128 n @ rest) m = Some r \<Longrightarrow> 0 \<le> r \<Longrightarrow> r = int (length (leb128 n))"
  using walk_varint_pos [of "leb128 n @ rest" m r] leb128_length_pos [of n] by simp

lemma walk_slot_result: "walk_slot source m = Some n \<Longrightarrow> 0 \<le> n \<Longrightarrow> n = 1 \<and> (\<exists>src. source = 0 # src)"
proof (cases source)
  case (Cons b src)
  assume n: "walk_slot source m = Some n" "0 \<le> n"
  then have "b = 0" using walk_slot_rejects_present [of b src m n] Cons by auto
  with n Cons show ?thesis by (auto simp: walk_slot_def split: if_splits)
qed (auto simp: walk_slot_def split: if_splits)

lemma wire_slot_long: "present s \<noteq> 0 \<Longrightarrow> 3 + length (leb128 (unat (slot_id s))) \<le> length (wire_slot s)"
proof -
  have "1 \<le> length (wire_optnbt nd)" for nd by (cases nd) (auto simp: wire_optnbt_def wire_node_def)
  then show "present s \<noteq> 0 \<Longrightarrow> ?thesis" by (simp add: wire_slot_def)
qed

lemma walk_particledata_wrong:
  "walk_particledata (wire_particledata p @ rest) m (p_type p) \<noteq> Some (int (length (wire_particledata p)))"
proof
  let ?d = "wire_particledata p" and ?t = "p_type p"
  assume eq: "walk_particledata (?d @ rest) m ?t = Some (int (length ?d))"
  then obtain r where r: "walk_varint (?d @ rest) m = Some r" "0 \<le> r"
    by (auto simp: walk_particledata_def not_less split: bind_splits if_splits)
  from walk_varint_pos [OF r] have pos: "1 \<le> r" "r = int (Suc (conts (?d @ rest)))" by simp_all
  note step = eq [unfolded walk_particledata_def r(1)]
  consider (block) "?t = particle_block \<or> ?t = particle_falling_dust" | (dust) "?t = particle_dust" | (item) "?t = particle_item"
    | (none) "?t \<notin> {particle_block, particle_falling_dust, particle_dust, particle_item}" by blast
  then show False
  proof cases
    case block
    then have d: "?d = leb128 (unat (block_state p))" by (simp add: wire_particledata_def)
    have "r = int (length ?d)" using walk_leb_pos [OF r [unfolded d]] d by simp
    moreover obtain s where "walk_varint (drop (nat r) (?d @ rest)) (m - size_of_int r) = Some s" "0 \<le> s" "int (length ?d) = r + s"
      using step r(2) block by (auto simp: adv_def Let_def not_less split: bind_splits if_splits dest!: iadd_SomeD)
    ultimately show False using walk_varint_pos by force
  next
    case dust
    then have "length ?d = 16" by (simp add: wire_particledata_def particle_types)
    moreover obtain s where "int (length ?d) = r + 16 + s" "0 \<le> s"
      using step r(2) dust
      by (auto simp: adv_def Let_def not_less walk_particle_item_def particle_types split: bind_splits if_splits dest!: iadd_SomeD)
    ultimately show False using pos(1) by simp
  next
    case item
    then have d: "?d = wire_slot (item p)" by (simp add: wire_particledata_def particle_types)
    obtain s where s: "walk_slot (drop (nat r) (?d @ rest)) (m - size_of_int r) = Some s" "int (length ?d) = r + s" "0 \<le> s"
      using step r(2) item
      by (auto simp: adv_def Let_def not_less walk_particle_item_def particle_types split: bind_splits if_splits dest!: iadd_SomeD)
    then have len: "int (length ?d) = r + 1" using walk_slot_result [OF s(1,3)] by simp
    show False
    proof (cases "present (item p) = 0")
      case True
      then show ?thesis using len pos(1) d by (simp add: wire_slot_def)
    next
      case False
      have "conts (x # leb128 n @ ys) \<le> length (leb128 n)" for x n ys
      proof -
        have "conts (leb128 n @ ys) < length (leb128 n)" using conts_leb128 leb128_length_pos [of n] by simp
        then show ?thesis by (simp add: conts_def)
      qed
      then have "r \<le> int (Suc (length (leb128 (unat (slot_id (item p))))))" using pos(2) d False by (simp add: wire_slot_def)
      then show ?thesis using len wire_slot_long [OF False] d by simp
    qed
  next
    case none
    then have "?d = []" by (simp add: wire_particledata_def)
    then show False using step r(2) pos(1) none by (auto simp: adv_def Let_def split: if_splits)
  qed
qed

lemma walk_particle_wrong: "walk_particle (wire_particle p @ rest) m \<noteq> Some (int (length (wire_particle p)))"
proof
  assume eq: "walk_particle (wire_particle p @ rest) m = Some (int (length (wire_particle p)))"
  let ?l = "leb128 (unat (p_type p))"
  from eq obtain r s where r: "walk_varint (?l @ wire_particledata p @ rest) m = Some r" "0 \<le> r"
    "walk_particledata (wire_particledata p @ rest) (m - size_of_int r) (p_type p) = Some s" "int (length (wire_particle p)) = r + s"
    by (auto simp: walk_particle_def wire_particle_def varint.dec_wire not_less split: bind_splits if_splits dest!: iadd_SomeD)
  have "s = int (length (wire_particledata p))" using walk_leb_pos [OF r(1,2)] r(4) by (simp add: wire_particle_def)
  with r(3) walk_particledata_wrong show False by simp
qed

section \<open>Properties\<close>

text \<open>A particle survives the wire: \<^verbatim>\<open>enc_particle\<close> writes its type and data, and \<^verbatim>\<open>dec_particle\<close>
  restores the type and the member of the union that the type selects.\<close>

theorem particle_roundtrip:
  assumes "wf_particle p"
  shows "\<exists>bs. enc_particle always dest p = Some (dest @ bs) \<and>
    dec_particle plenty d (bs @ rest) = Some (particle_into d p, Some rest)"
  using assms by (auto simp: enc_particle_wire dec_particle_wire)

definition sample_particle :: mc_particle where
  "sample_particle = \<lparr>p_type = particle_item, block_state = 0, red = 0, green = 0, blue = 0, scale = 0, item = sample_slot\<rparr>"

theorem particle_roundtrip_witness:
  "\<exists>bs. enc_particle always [] sample_particle = Some ([] @ bs) \<and>
    dec_particle plenty sample_particle (bs @ [3]) = Some (particle_into sample_particle sample_particle, Some [3])"
  by (rule particle_roundtrip) (simp add: sample_particle_def wf_particle_def wf_sample_slot)

text \<open>\<^verbatim>\<open>walk_particle\<close> expects a varint between the type and the data: for a particle without data, whose
  image is the type alone, the answer is that of walking whatever varint happens to follow; at the
  end of the buffer it is rejected.\<close>

theorem walk_particle_extra_varint:
  assumes "t \<notin> {particle_block, particle_falling_dust, particle_dust, particle_item}"
    and "length (leb128 (unat t)) \<le> unat max_len"
  shows "walk_particle (leb128 (unat t) @ rest) max_len =
    (let n = int (length (leb128 (unat t))) in
     case walk_varint rest (max_len - of_nat (length (leb128 (unat t)))) of
       None \<Rightarrow> None
     | Some k \<Rightarrow> Some (if k < 0 then - 1 else n + k))"
proof -
  let ?n = "length (leb128 (unat t))"
  have n: "?n \<le> 5" by (rule length_leb128_u32)
  have w: "walk_varint (leb128 (unat t) @ rest) max_len = Some (int ?n)"
    using assms(2) n by (intro walk_varint_leb)
  have "iadd (int ?n) k = Some (int ?n + k) \<and> nat k \<le> length rest"
    if "walk_varint rest (max_len - of_nat ?n) = Some k" "0 \<le> k" for k
    using walk_varint_pos [OF that] n by (auto simp: iadd_def INT_MAX_def INT_MIN_def)
  then show ?thesis using assms(1)
    by (auto simp: walk_particle_def w varint.dec_wire walk_particledata_def adv_def Let_def split: option.splits)
qed

theorem walk_particle_extra_varint_witness:
  "walk_particle (leb128 (unat (5 :: u32)) @ [0x81, 0x01]) 3 =
    (let n = int (length (leb128 (unat (5 :: u32)))) in
     case walk_varint [0x81, 0x01] (3 - of_nat (length (leb128 (unat (5 :: u32))))) of
       None \<Rightarrow> None
     | Some k \<Rightarrow> Some (if k < 0 then - 1 else n + k))"
  by (rule walk_particle_extra_varint) (simp_all add: particle_types leb128_small)

end
