(* ===== verification/Metadata.thy ===== *)
theory Metadata
  imports Particle
begin

text \<open>
  Entity metadata (\<^verbatim>\<open>src/datautils.c\<close>, lines 838--1238): a sequence of tagged values of nineteen types,
  closed by the byte \<^verbatim>\<open>0xFF\<close>. The members of the C union are separate fields, of which the code reads
  only the one the type selects.

  \<^verbatim>\<open>count_metatags\<close> adds the results of the walkers to its pointer without looking at their sign, so its
  pointer is an offset into the buffer that may also move backwards, and its loop need not end.
\<close>

section \<open>Data\<close>

datatype meta_type = meta_byte | meta_varint | meta_float | meta_string | meta_chat | meta_optchat
  | meta_slot | meta_boolean | meta_rotation | meta_position | meta_optposition | meta_direction
  | meta_optuuid | meta_optblockid | meta_nbt | meta_particle | meta_villagerdata | meta_optvarint | meta_pose

definition meta_types :: "meta_type list" where
  "meta_types = [meta_byte, meta_varint, meta_float, meta_string, meta_chat, meta_optchat,
     meta_slot, meta_boolean, meta_rotation, meta_position, meta_optposition, meta_direction,
     meta_optuuid, meta_optblockid, meta_nbt, meta_particle, meta_villagerdata, meta_optvarint, meta_pose]"

definition meta_type_of :: "u32 \<Rightarrow> meta_type option" where
  "meta_type_of t = (if unat t < length meta_types then Some (meta_types ! unat t) else None)"

record mc_metatag =
  index :: byte
  m_type :: u32
  opt :: byte
  m_b :: byte
  m_varint :: u32
  m_f :: u32
  m_string :: "sds option"
  m_slot :: mc_slot
  rot_x :: u32
  rot_y :: u32
  rot_z :: u32
  m_pos :: mc_position
  m_uuid :: mc_uuid
  m_nbt :: "nbt_node option"
  m_particle :: mc_particle
  villagerdata :: "u32 \<times> u32 \<times> u32"

record mc_metadata =
  md_len :: u64
  md_tags :: "mc_metatag list option"

section \<open>Walking\<close>

text \<open>The switch of \<^verbatim>\<open>walk_metadata\<close>: a result to return at once, or the size of the value with the pointer,
  the remaining length and the total (which only the villager data moves itself).\<close>

type_synonym walked = "int + int \<times> ptr \<times> u64 \<times> int"

definition walk_sized :: "int \<Rightarrow> ptr \<Rightarrow> u64 \<Rightarrow> int \<Rightarrow> walked option" where
  "walk_sized n source max_len tot = Some (Inr (n, source, max_len, tot))"

definition walk_with :: "(ptr \<Rightarrow> u64 \<Rightarrow> int option) \<Rightarrow> ptr \<Rightarrow> u64 \<Rightarrow> int \<Rightarrow> walked option" where
  "walk_with w source max_len tot =
     do { n \<leftarrow> w source max_len; if n < 0 then Some (Inl n) else walk_sized n source max_len tot }"

definition walk_opt :: "(ptr \<Rightarrow> u64 \<Rightarrow> int option) \<Rightarrow> ptr \<Rightarrow> u64 \<Rightarrow> int \<Rightarrow> walked option" where
  "walk_opt w source max_len tot =
     do { b \<leftarrow> deref source;
          if b = 0 then walk_sized 1 source max_len tot
          else do { next \<leftarrow> adv 1 source;
                    ret \<leftarrow> w next (max_len - 1);
                    if ret < 0 then Some (Inl ret)
                    else do { n \<leftarrow> iadd 1 ret; walk_sized n source max_len tot } } }"

primrec walk_villager :: "nat \<Rightarrow> ptr \<Rightarrow> u64 \<Rightarrow> int \<Rightarrow> walked option" where
  "walk_villager 0 source max_len tot = walk_sized 0 source max_len tot"
| "walk_villager (Suc j) source max_len tot =
     do { ret \<leftarrow> walk_varint source max_len;
          if ret < 0 then Some (Inl ret)
          else do { source \<leftarrow> adv (nat ret) source;
                    tot \<leftarrow> iadd tot ret;
                    walk_villager j source (max_len - size_of_int ret) tot } }"

definition walk_metavalue :: "meta_type option \<Rightarrow> ptr \<Rightarrow> u64 \<Rightarrow> int \<Rightarrow> walked option" where
  "walk_metavalue type =
     (case type of
        None \<Rightarrow> (\<lambda>_ _ _. Some (Inl (- 1)))
      | Some t \<Rightarrow> (case t of
          meta_byte \<Rightarrow> walk_sized 1 | meta_boolean \<Rightarrow> walk_sized 1 | meta_direction \<Rightarrow> walk_sized 1
        | meta_varint \<Rightarrow> walk_with walk_varint | meta_optblockid \<Rightarrow> walk_with walk_varint
        | meta_pose \<Rightarrow> walk_with walk_varint
        | meta_float \<Rightarrow> walk_sized 4
        | meta_string \<Rightarrow> walk_with walk_string | meta_chat \<Rightarrow> walk_with walk_string
        | meta_optchat \<Rightarrow> walk_opt walk_string
        | meta_slot \<Rightarrow> walk_with walk_slot
        | meta_rotation \<Rightarrow> walk_sized 12
        | meta_position \<Rightarrow> walk_sized 8
        | meta_optposition \<Rightarrow> (\<lambda>source m tot. do { b \<leftarrow> deref source; walk_sized (if b = 0 then 1 else 9) source m tot })
        | meta_optuuid \<Rightarrow> (\<lambda>source m tot. do { b \<leftarrow> deref source; walk_sized (if b = 0 then 1 else 17) source m tot })
        | meta_nbt \<Rightarrow> walk_with walk_nbt
        | meta_particle \<Rightarrow> walk_with walk_particle
        | meta_villagerdata \<Rightarrow> walk_villager 3
        | meta_optvarint \<Rightarrow> walk_opt walk_varint))"

text \<open>One iteration of the loop for a tag whose first byte is not \<^verbatim>\<open>0xFF\<close>, and the loop. Every iteration
  consumes the index byte, so the length of the object is enough fuel.\<close>

definition walk_metatag :: "ptr \<Rightarrow> u64 \<Rightarrow> int \<Rightarrow> (int + ptr \<times> u64 \<times> int) option" where
  "walk_metatag source max_len tot =
     do { tot \<leftarrow> iadd tot 1;
          source \<leftarrow> adv 1 source;
          let max_len = max_len - 1 in
          do { ret \<leftarrow> walk_varint source max_len;
          if ret < 0 then Some (Inl ret)
          else do { tot \<leftarrow> iadd tot ret;
                    (type, source) \<leftarrow> dec_varint source;
                    v \<leftarrow> walk_metavalue (meta_type_of type) source (max_len - size_of_int ret) tot;
                    case v of
                      Inl r \<Rightarrow> Some (Inl r)
                    | Inr (n, source, max_len, tot) \<Rightarrow>
                        if max_len \<le> size_of_int n then Some (Inl (- 1))
                        else do { source \<leftarrow> adv (nat n) source;
                                  tot \<leftarrow> iadd tot n;
                                  Some (Inr (source, max_len - size_of_int n, tot)) } } } }"

primrec walk_metadata_loop :: "nat \<Rightarrow> ptr \<Rightarrow> u64 \<Rightarrow> int \<Rightarrow> int option" where
  "walk_metadata_loop 0 source max_len tot = None"
| "walk_metadata_loop (Suc fuel) source max_len tot =
     do { b \<leftarrow> deref source;
          if b = 0xFF then iadd tot 1
          else do { r \<leftarrow> walk_metatag source max_len tot;
                    case r of
                      Inl r \<Rightarrow> Some r
                    | Inr (source, max_len, tot) \<Rightarrow> walk_metadata_loop fuel source max_len tot } }"

definition walk_metadata :: "ptr \<Rightarrow> u64 \<Rightarrow> int option" where
  "walk_metadata source max_len =
     (if max_len = 0 then Some (- 1) else walk_metadata_loop (Suc (length source)) source max_len 0)"

section \<open>Counting\<close>

text \<open>\<^verbatim>\<open>source += n\<close> for a pointer at offset \<open>off\<close> of the buffer; \<open>n\<close> may be negative.\<close>

definition move :: "byte list \<Rightarrow> nat \<Rightarrow> int \<Rightarrow> nat option" where
  "move buf off n = (let q = int off + n in if 0 \<le> q \<and> q \<le> int (length buf) then Some (nat q) else None)"

definition move_by :: "(ptr \<Rightarrow> u64 \<Rightarrow> int option) \<Rightarrow> byte list \<Rightarrow> nat \<Rightarrow> nat option" where
  "move_by w buf off = do { n \<leftarrow> w (drop off buf) NO_OVERFLOW; move buf off n }"

definition move_opt :: "(nat \<Rightarrow> nat option) \<Rightarrow> byte list \<Rightarrow> nat \<Rightarrow> nat option" where
  "move_opt k buf off =
     do { b \<leftarrow> deref (drop off buf); off \<leftarrow> move buf off 1; if b = 0 then Some off else k off }"

definition count_value :: "meta_type \<Rightarrow> byte list \<Rightarrow> nat \<Rightarrow> nat option" where
  "count_value t buf off =
     (case t of
        meta_byte \<Rightarrow> move buf off 1 | meta_boolean \<Rightarrow> move buf off 1 | meta_direction \<Rightarrow> move buf off 1
      | meta_varint \<Rightarrow> move_by walk_varint buf off | meta_optblockid \<Rightarrow> move_by walk_varint buf off
      | meta_pose \<Rightarrow> move_by walk_varint buf off
      | meta_float \<Rightarrow> move buf off 4
      | meta_string \<Rightarrow> move_by walk_string buf off | meta_chat \<Rightarrow> move_by walk_string buf off
      | meta_optchat \<Rightarrow> move_opt (move_by walk_string buf) buf off
      | meta_slot \<Rightarrow> move_by walk_slot buf off
      | meta_rotation \<Rightarrow> move buf off 12
      | meta_position \<Rightarrow> move buf off 8
      | meta_optposition \<Rightarrow> move_opt (\<lambda>off. move buf off 8) buf off
      | meta_optuuid \<Rightarrow> move_opt (\<lambda>off. move buf off 16) buf off
      | meta_nbt \<Rightarrow> move_by walk_nbt buf off
      | meta_particle \<Rightarrow> move_by walk_particle buf off
      | meta_villagerdata \<Rightarrow>
          do { off \<leftarrow> move_by walk_varint buf off; off \<leftarrow> move_by walk_varint buf off; move_by walk_varint buf off }
      | meta_optvarint \<Rightarrow> move_opt (move_by walk_varint buf) buf off)"

partial_function (option) count_loop :: "byte list \<Rightarrow> nat \<Rightarrow> u64 \<Rightarrow> u64 option" where
  "count_loop buf off count =
     do { b \<leftarrow> deref (drop off buf);
          if b = 0xFF then Some count
          else do { (type, p) \<leftarrow> dec_varint (drop (off + 1) buf);
                    case meta_type_of type of
                      None \<Rightarrow> Some 0
                    | Some t \<Rightarrow>
                        do { off \<leftarrow> count_value t buf (length buf - length p); count_loop buf off (count + 1) } } }"

definition count_metatags :: "ptr \<Rightarrow> u64 option" where
  "count_metatags source = count_loop source 0 0"

section \<open>Sizes\<close>

definition size_opt :: "byte \<Rightarrow> u64 option \<Rightarrow> u64 option" where
  "size_opt o' s = (if o' = 0 then Some 1 else do { s \<leftarrow> s; Some (1 + s) })"

definition size_metavalue :: "meta_type \<Rightarrow> mc_metatag \<Rightarrow> u64 option" where
  "size_metavalue t tag =
     (case t of
        meta_byte \<Rightarrow> Some 1 | meta_boolean \<Rightarrow> Some 1 | meta_direction \<Rightarrow> Some 1
      | meta_varint \<Rightarrow> Some (size_varint (m_varint tag)) | meta_optblockid \<Rightarrow> Some (size_varint (m_varint tag))
      | meta_pose \<Rightarrow> Some (size_varint (m_varint tag))
      | meta_float \<Rightarrow> Some 4
      | meta_string \<Rightarrow> map_option size_string (m_string tag) | meta_chat \<Rightarrow> map_option size_string (m_string tag)
      | meta_optchat \<Rightarrow> size_opt (opt tag) (map_option size_string (m_string tag))
      | meta_slot \<Rightarrow> size_slot (m_slot tag)
      | meta_rotation \<Rightarrow> Some 12
      | meta_position \<Rightarrow> Some 8
      | meta_optposition \<Rightarrow> size_opt (opt tag) (Some 8)
      | meta_optuuid \<Rightarrow> size_opt (opt tag) (Some 16)
      | meta_nbt \<Rightarrow> do { nd \<leftarrow> m_nbt tag; size_nbt nd }
      | meta_particle \<Rightarrow> size_particle (m_particle tag)
      | meta_villagerdata \<Rightarrow>
          (case villagerdata tag of (a, b, c) \<Rightarrow> Some (size_varint a + size_varint b + size_varint c))
      | meta_optvarint \<Rightarrow> size_opt (opt tag) (Some (size_varint (m_varint tag))))"

text \<open>A tag of an unknown type makes the whole size 0.\<close>

primrec size_metatags :: "u64 \<Rightarrow> mc_metatag list \<Rightarrow> u64 option" where
  "size_metatags sz [] = Some (sz + 1)"
| "size_metatags sz (tag # tags) =
     (case meta_type_of (m_type tag) of
        None \<Rightarrow> Some 0
      | Some t \<Rightarrow> do { v \<leftarrow> size_metavalue t tag; size_metatags (sz + 1 + size_varint (m_type tag) + v) tags })"

text \<open>The first \<^verbatim>\<open>len\<close> tags.\<close>

definition meta_tags :: "mc_metadata \<Rightarrow> mc_metatag list option" where
  "meta_tags md =
     (case md_tags md of
        None \<Rightarrow> if md_len md = 0 then Some [] else None
      | Some ts \<Rightarrow> arr_prefix (unat (md_len md)) ts)"

definition size_metadata :: "mc_metadata \<Rightarrow> u64 option" where
  "size_metadata metadata = do { ts \<leftarrow> meta_tags metadata; size_metatags 0 ts }"

section \<open>Encoding\<close>

definition enc_str :: "ptr \<Rightarrow> sds option \<Rightarrow> ptr option" where
  "enc_str dest s = do { s \<leftarrow> s; enc_string dest s }"

definition enc_opt :: "(ptr \<Rightarrow> ptr option) \<Rightarrow> ptr \<Rightarrow> byte \<Rightarrow> ptr option" where
  "enc_opt k dest o' = (let dest = enc_byte dest o' in if o' = 0 then Some dest else k dest)"

definition enc_metavalue :: "(nat \<Rightarrow> bool) \<Rightarrow> meta_type \<Rightarrow> ptr \<Rightarrow> mc_metatag \<Rightarrow> ptr option" where
  "enc_metavalue mal t dest tag =
     (case t of
        meta_byte \<Rightarrow> Some (enc_byte dest (m_b tag)) | meta_boolean \<Rightarrow> Some (enc_byte dest (m_b tag))
      | meta_direction \<Rightarrow> Some (enc_byte dest (m_b tag))
      | meta_varint \<Rightarrow> Some (enc_varint dest (m_varint tag)) | meta_optblockid \<Rightarrow> Some (enc_varint dest (m_varint tag))
      | meta_pose \<Rightarrow> Some (enc_varint dest (m_varint tag))
      | meta_float \<Rightarrow> Some (enc_bef32 dest (m_f tag))
      | meta_string \<Rightarrow> enc_str dest (m_string tag) | meta_chat \<Rightarrow> enc_str dest (m_string tag)
      | meta_optchat \<Rightarrow> enc_opt (\<lambda>d. enc_str d (m_string tag)) dest (opt tag)
      | meta_slot \<Rightarrow> enc_slot mal dest (m_slot tag)
      | meta_rotation \<Rightarrow> Some (enc_bef32 (enc_bef32 (enc_bef32 dest (rot_x tag)) (rot_y tag)) (rot_z tag))
      | meta_position \<Rightarrow> Some (enc_position dest (m_pos tag))
      | meta_optposition \<Rightarrow> enc_opt (\<lambda>d. Some (enc_position d (m_pos tag))) dest (opt tag)
      | meta_optuuid \<Rightarrow> enc_opt (\<lambda>d. Some (enc_uuid d (m_uuid tag))) dest (opt tag)
      | meta_nbt \<Rightarrow> enc_nbt mal dest (m_nbt tag)
      | meta_particle \<Rightarrow> enc_particle mal dest (m_particle tag)
      | meta_villagerdata \<Rightarrow>
          (case villagerdata tag of (a, b, c) \<Rightarrow> Some (enc_varint (enc_varint (enc_varint dest a) b) c))
      | meta_optvarint \<Rightarrow> enc_opt (\<lambda>d. Some (enc_varint d (m_varint tag))) dest (opt tag))"

definition enc_metatag :: "(nat \<Rightarrow> bool) \<Rightarrow> ptr \<Rightarrow> mc_metatag \<Rightarrow> ptr option" where
  "enc_metatag mal dest tag =
     (let dest = enc_varint (enc_byte dest (index tag)) (m_type tag) in
      case meta_type_of (m_type tag) of None \<Rightarrow> Some dest | Some t \<Rightarrow> enc_metavalue mal t dest tag)"

definition enc_metadata :: "(nat \<Rightarrow> bool) \<Rightarrow> ptr \<Rightarrow> mc_metadata \<Rightarrow> ptr option" where
  "enc_metadata mal dest source =
     do { ts \<leftarrow> meta_tags source;
          dest \<leftarrow> enc_items (enc_metatag mal) dest ts;
          Some (enc_byte dest 0) }"

section \<open>Decoding\<close>

text \<open>The switch of \<^verbatim>\<open>dec_metadata\<close>: the tag with the decoded member, and the pointer. A NULL from a
  slot, a tree or a particle is used as the source of the next read.\<close>

definition dec_opt :: "(mc_metatag \<Rightarrow> ptr \<Rightarrow> (mc_metatag \<times> ptr) option) \<Rightarrow> mc_metatag \<Rightarrow> ptr \<Rightarrow> (mc_metatag \<times> ptr) option" where
  "dec_opt k tag source =
     do { (o', source) \<leftarrow> dec_byte source;
          let tag = tag\<lparr>opt := o'\<rparr> in if o' = 0 then Some (tag, source) else k tag source }"

definition dec_metavalue ::
  "(nat \<Rightarrow> bool) \<Rightarrow> allocator \<Rightarrow> meta_type \<Rightarrow> mc_metatag \<Rightarrow> ptr \<Rightarrow> (mc_metatag \<times> ptr) option" where
  "dec_metavalue smal mal t tag source =
     (let dec_b = do { (v, p) \<leftarrow> dec_byte source; Some (tag\<lparr>m_b := v\<rparr>, p) };
          dec_v = (\<lambda>tag source. do { (v, p) \<leftarrow> dec_varint source; Some (tag\<lparr>m_varint := v\<rparr>, p) });
          dec_s = (\<lambda>tag source. do { (v, p) \<leftarrow> dec_string smal source; Some (tag\<lparr>m_string := v\<rparr>, p) });
          dec_p = (\<lambda>tag source. do { (v, p) \<leftarrow> dec_position source; Some (tag\<lparr>m_pos := v\<rparr>, p) });
          dec_u = (\<lambda>tag source. do { (v, p) \<leftarrow> dec_uuid source; Some (tag\<lparr>m_uuid := v\<rparr>, p) }) in
      case t of
        meta_byte \<Rightarrow> dec_b | meta_boolean \<Rightarrow> dec_b | meta_direction \<Rightarrow> dec_b
      | meta_varint \<Rightarrow> dec_v tag source | meta_optblockid \<Rightarrow> dec_v tag source | meta_pose \<Rightarrow> dec_v tag source
      | meta_float \<Rightarrow> do { (v, p) \<leftarrow> dec_bef32 source; Some (tag\<lparr>m_f := v\<rparr>, p) }
      | meta_string \<Rightarrow> dec_s tag source | meta_chat \<Rightarrow> dec_s tag source
      | meta_optchat \<Rightarrow> dec_opt dec_s tag source
      | meta_slot \<Rightarrow> do { (v, p) \<leftarrow> dec_slot mal (m_slot tag) source; p \<leftarrow> p; Some (tag\<lparr>m_slot := v\<rparr>, p) }
      | meta_rotation \<Rightarrow>
          do { (x, p) \<leftarrow> dec_bef32 source; (y, p) \<leftarrow> dec_bef32 p; (z, p) \<leftarrow> dec_bef32 p;
               Some (tag\<lparr>rot_x := x, rot_y := y, rot_z := z\<rparr>, p) }
      | meta_position \<Rightarrow> dec_p tag source
      | meta_optposition \<Rightarrow> dec_opt dec_p tag source
      | meta_optuuid \<Rightarrow> dec_opt dec_u tag source
      | meta_nbt \<Rightarrow> do { (v, p) \<leftarrow> dec_nbt mal source; p \<leftarrow> p; Some (tag\<lparr>m_nbt := v\<rparr>, p) }
      | meta_particle \<Rightarrow>
          do { (v, p) \<leftarrow> dec_particle mal (m_particle tag) source; p \<leftarrow> p; Some (tag\<lparr>m_particle := v\<rparr>, p) }
      | meta_villagerdata \<Rightarrow>
          do { (a, p) \<leftarrow> dec_varint source; (b, p) \<leftarrow> dec_varint p; (c, p) \<leftarrow> dec_varint p;
               Some (tag\<lparr>villagerdata := (a, b, c)\<rparr>, p) }
      | meta_optvarint \<Rightarrow> dec_opt dec_v tag source)"

text \<open>\<open>raw\<close> is what the freshly allocated memory of a tag holds.\<close>

definition dec_metatag ::
  "(nat \<Rightarrow> bool) \<Rightarrow> allocator \<Rightarrow> mc_metatag \<Rightarrow> ptr \<Rightarrow> (mc_metatag \<times> ptr) option" where
  "dec_metatag smal mal raw source =
     do { (i, source) \<leftarrow> dec_byte source;
          (t, source) \<leftarrow> dec_varint source;
          let tag = raw\<lparr>index := i, m_type := t\<rparr> in
          case meta_type_of t of None \<Rightarrow> Some (tag, source) | Some ty \<Rightarrow> dec_metavalue smal mal ty tag source }"

definition sizeof_metatag :: nat where "sizeof_metatag = 48"

definition dec_metadata ::
  "(nat \<Rightarrow> bool) \<Rightarrow> allocator \<Rightarrow> mc_metatag \<Rightarrow> ptr \<Rightarrow> (mc_metadata \<times> ptr option) option" where
  "dec_metadata smal mal raw source =
     do { len \<leftarrow> count_metatags source;
          if \<not> smal (unat (len * of_nat sizeof_metatag)) then Some (\<lparr>md_len = len, md_tags = None\<rparr>, None)
          else do { (ts, source) \<leftarrow> dec_items (dec_metatag smal mal raw) (unat len) source;
                    source \<leftarrow> adv 1 source;
                    Some (\<lparr>md_len = len, md_tags = Some ts\<rparr>, Some source) } }"

section \<open>Contracts\<close>

definition wire_opt :: "byte \<Rightarrow> byte list \<Rightarrow> byte list" where
  "wire_opt o' bs = o' # (if o' = 0 then [] else bs)"

definition wire_metavalue :: "meta_type \<Rightarrow> mc_metatag \<Rightarrow> byte list" where
  "wire_metavalue t tag =
     (case t of
        meta_byte \<Rightarrow> [m_b tag] | meta_boolean \<Rightarrow> [m_b tag] | meta_direction \<Rightarrow> [m_b tag]
      | meta_varint \<Rightarrow> leb128 (unat (m_varint tag)) | meta_optblockid \<Rightarrow> leb128 (unat (m_varint tag))
      | meta_pose \<Rightarrow> leb128 (unat (m_varint tag))
      | meta_float \<Rightarrow> rev (mem_of (m_f tag))
      | meta_string \<Rightarrow> wire_string (the (m_string tag)) | meta_chat \<Rightarrow> wire_string (the (m_string tag))
      | meta_optchat \<Rightarrow> wire_opt (opt tag) (wire_string (the (m_string tag)))
      | meta_slot \<Rightarrow> wire_slot (m_slot tag)
      | meta_rotation \<Rightarrow> rev (mem_of (rot_x tag)) @ rev (mem_of (rot_y tag)) @ rev (mem_of (rot_z tag))
      | meta_position \<Rightarrow> rev (mem_of (pack_position (m_pos tag)))
      | meta_optposition \<Rightarrow> wire_opt (opt tag) (rev (mem_of (pack_position (m_pos tag))))
      | meta_optuuid \<Rightarrow> wire_opt (opt tag) (wire_uuid (m_uuid tag))
      | meta_nbt \<Rightarrow> wire_node (the (m_nbt tag))
      | meta_particle \<Rightarrow> wire_particle (m_particle tag)
      | meta_villagerdata \<Rightarrow>
          (case villagerdata tag of (a, b, c) \<Rightarrow> leb128 (unat a) @ leb128 (unat b) @ leb128 (unat c))
      | meta_optvarint \<Rightarrow> wire_opt (opt tag) (leb128 (unat (m_varint tag))))"

text \<open>Well-formed values: strings and trees there and within the length the counting walk allows, positions in range.\<close>

definition wf_str :: "sds option \<Rightarrow> bool" where
  "wf_str s \<longleftrightarrow> (case s of None \<Rightarrow> False | Some s \<Rightarrow> wf_string s \<and> length (wire_string s) \<le> 1073741823)"

definition wf_metavalue :: "meta_type \<Rightarrow> mc_metatag \<Rightarrow> bool" where
  "wf_metavalue t tag =
     (case t of
        meta_string \<Rightarrow> wf_str (m_string tag) | meta_chat \<Rightarrow> wf_str (m_string tag)
      | meta_optchat \<Rightarrow> opt tag \<noteq> 0 \<longrightarrow> wf_str (m_string tag)
      | meta_slot \<Rightarrow> wf_slot (m_slot tag)
      | meta_position \<Rightarrow> position_in_range (m_pos tag)
      | meta_optposition \<Rightarrow> opt tag \<noteq> 0 \<longrightarrow> position_in_range (m_pos tag)
      | meta_nbt \<Rightarrow> (case m_nbt tag of None \<Rightarrow> False | Some nd \<Rightarrow> sendable nd)
      | meta_particle \<Rightarrow> wf_particle (m_particle tag)
      | _ \<Rightarrow> True)"

text \<open>The values that the walkers can measure: everything but particles and slots with an item.\<close>

definition measured_value :: "meta_type \<Rightarrow> mc_metatag \<Rightarrow> bool" where
  "measured_value t tag \<longleftrightarrow> t \<noteq> meta_particle \<and> (t = meta_slot \<longrightarrow> present (m_slot tag) = 0)"

text \<open>A tag structure after the members that the type selects were copied from \<open>tag\<close>.\<close>

definition opt_into :: "(mc_metatag \<Rightarrow> mc_metatag) \<Rightarrow> mc_metatag \<Rightarrow> byte \<Rightarrow> mc_metatag" where
  "opt_into f d o' = (if o' = 0 then d\<lparr>opt := o'\<rparr> else f (d\<lparr>opt := o'\<rparr>))"

definition value_into :: "meta_type \<Rightarrow> mc_metatag \<Rightarrow> mc_metatag \<Rightarrow> mc_metatag" where
  "value_into t d tag =
     (case t of
        meta_byte \<Rightarrow> d\<lparr>m_b := m_b tag\<rparr> | meta_boolean \<Rightarrow> d\<lparr>m_b := m_b tag\<rparr> | meta_direction \<Rightarrow> d\<lparr>m_b := m_b tag\<rparr>
      | meta_varint \<Rightarrow> d\<lparr>m_varint := m_varint tag\<rparr> | meta_optblockid \<Rightarrow> d\<lparr>m_varint := m_varint tag\<rparr>
      | meta_pose \<Rightarrow> d\<lparr>m_varint := m_varint tag\<rparr>
      | meta_float \<Rightarrow> d\<lparr>m_f := m_f tag\<rparr>
      | meta_string \<Rightarrow> d\<lparr>m_string := m_string tag\<rparr> | meta_chat \<Rightarrow> d\<lparr>m_string := m_string tag\<rparr>
      | meta_optchat \<Rightarrow> opt_into (\<lambda>d. d\<lparr>m_string := m_string tag\<rparr>) d (opt tag)
      | meta_slot \<Rightarrow> d\<lparr>m_slot := slot_into (m_slot d) (m_slot tag)\<rparr>
      | meta_rotation \<Rightarrow> d\<lparr>rot_x := rot_x tag, rot_y := rot_y tag, rot_z := rot_z tag\<rparr>
      | meta_position \<Rightarrow> d\<lparr>m_pos := m_pos tag\<rparr>
      | meta_optposition \<Rightarrow> opt_into (\<lambda>d. d\<lparr>m_pos := m_pos tag\<rparr>) d (opt tag)
      | meta_optuuid \<Rightarrow> opt_into (\<lambda>d. d\<lparr>m_uuid := m_uuid tag\<rparr>) d (opt tag)
      | meta_nbt \<Rightarrow> d\<lparr>m_nbt := m_nbt tag\<rparr>
      | meta_particle \<Rightarrow> d\<lparr>m_particle := particle_into (m_particle d) (m_particle tag)\<rparr>
      | meta_villagerdata \<Rightarrow> d\<lparr>villagerdata := villagerdata tag\<rparr>
      | meta_optvarint \<Rightarrow> opt_into (\<lambda>d. d\<lparr>m_varint := m_varint tag\<rparr>) d (opt tag))"

lemma wf_str_Some: "wf_str s \<Longrightarrow> \<exists>x. s = Some x \<and> wf_string x \<and> length (wire_string x) \<le> 1073741823"
  by (auto simp: wf_str_def split: option.splits)

lemma enc_metavalue_wire:
  "wf_metavalue t tag \<Longrightarrow> enc_metavalue always t dest tag = Some (dest @ wire_metavalue t tag)"
  using enc_slot_wire [of "m_slot tag"] enc_particle_wire [of "m_particle tag"] bef32.enc_wire uuid.enc_wire position.enc_wire
  by (cases t)
    (auto simp: wf_metavalue_def enc_metavalue_def wire_metavalue_def enc_byte_def enc_varint_leb enc_str_def
      enc_opt_def wire_opt_def string.enc_wire wf_slot_def enc_nbt_wire
      dest!: wf_str_Some split: option.splits prod.splits)

lemma dec_metavalue_wire:
  "wf_metavalue t tag \<Longrightarrow> dec_metavalue always plenty t d (wire_metavalue t tag @ rest) = Some (value_into t d tag, rest)"
  using dec_slot_wire [of "m_slot tag"] dec_particle_wire [of "m_particle tag"]
  by (cases t)
    (auto simp: wf_metavalue_def dec_metavalue_def wire_metavalue_def value_into_def opt_into_def wire_opt_def
      dec_opt_def varint.dec_wire bef32.dec_wire uuid.dec_wire position.dec_wire dec_string_wire dec_nbt_wire
      wf_slot_def Let_def dest!: wf_str_Some split: option.splits prod.splits)

text \<open>The walkers on images, for any remaining length that holds them.\<close>

lemma unat_NO_OVERFLOW [simp]: "unat NO_OVERFLOW = 1073741824"
  by (simp add: NO_OVERFLOW_def)

lemma walk_varint_wire:
  "length (leb128 (unat v)) \<le> unat m \<Longrightarrow> walk_varint (leb128 (unat (v :: u32)) @ rest) m = Some (int (length (leb128 (unat v))))"
  using length_leb128_u32 [of v] by (intro walk_varint_leb)

lemma walk_string_wire:
  "wf_string x \<Longrightarrow> length (wire_string x) \<le> 1073741823 \<Longrightarrow> length (wire_string x) \<le> unat m \<Longrightarrow>
     walk_string (wire_string x @ rest) m = Some (int (length (wire_string x)))"
  by (intro string.walk_wire) (simp_all add: INT_MAX_def)

lemma walk_node_wire:
  "sendable nd \<Longrightarrow> length (wire_node nd) \<le> unat m \<Longrightarrow> walk_nbt (wire_node nd @ rest) m = Some (int (length (wire_node nd)))"
  by (intro nbt.walk_wire) (simp_all add: INT_MAX_def sendable_def)

lemma length_leb_NO_OVERFLOW: "length (leb128 (unat (v :: u32))) \<le> 1073741824"
  using length_leb128_u32 [of v] by simp

section \<open>Counting what was written\<close>

lemma move_over: "move (pre @ w @ post) (length pre) (int (length w)) = Some (length pre + length w)"
  by (simp add: move_def)

lemma move_over_eq: "n = int (length w) \<Longrightarrow> move (pre @ w @ post) (length pre) n = Some (length pre + length w)"
  by (simp add: move_def)

lemma move_by_over:
  "walk (w @ post) NO_OVERFLOW = Some (int (length w)) \<Longrightarrow>
     move_by walk (pre @ w @ post) (length pre) = Some (length pre + length w)"
  by (simp add: move_by_def move_over)

lemma move_opt_over:
  assumes "o' \<noteq> 0 \<Longrightarrow> k (length (pre @ [o'])) = Some (length (pre @ [o']) + length w)"
  shows "move_opt k (pre @ wire_opt o' w @ post) (length pre) = Some (length pre + length (wire_opt o' w))"
  using assms by (auto simp: move_opt_def wire_opt_def move_def nat_add_distrib)

lemma move_by_varint: "move_by walk_varint (pre @ leb128 (unat (v :: u32)) @ post) (length pre) =
    Some (length pre + length (leb128 (unat v)))"
  using length_leb_NO_OVERFLOW [of v] by (intro move_by_over walk_varint_wire) simp

lemma move_by_string: "wf_string x \<Longrightarrow> length (wire_string x) \<le> 1073741823 \<Longrightarrow>
    move_by walk_string (pre @ wire_string x @ post) (length pre) = Some (length pre + length (wire_string x))"
  by (intro move_by_over walk_string_wire) simp_all

lemma move_by_nbt: "sendable nd \<Longrightarrow>
    move_by walk_nbt (pre @ wire_node nd @ post) (length pre) = Some (length pre + length (wire_node nd))"
  by (intro move_by_over walk_node_wire) (simp_all add: sendable_def)

lemma move_by_absent_slot: "move_by walk_slot (pre @ [0] @ post) (length pre) = Some (length pre + length [0 :: byte])"
  using walk_absent_slot [of NO_OVERFLOW post] by (intro move_by_over) (simp add: NO_OVERFLOW_def)

lemma count_opt:
  assumes "o' \<noteq> 0 \<Longrightarrow> \<forall>pre. f (pre @ w @ post) (length pre) = Some (length pre + length w)"
    and "buf = pre @ wire_opt o' w @ post"
  shows "move_opt (f buf) buf (length pre) = Some (length pre + length (wire_opt o' w))"
  unfolding assms(2)
proof (rule move_opt_over)
  assume "o' \<noteq> 0"
  then have "pre @ wire_opt o' w @ post = (pre @ [o']) @ w @ post" by (simp add: wire_opt_def)
  with assms(1) [OF \<open>o' \<noteq> 0\<close>] show "f (pre @ wire_opt o' w @ post) (length (pre @ [o'])) =
      Some (length (pre @ [o']) + length w)" by metis
qed

lemma count_villager:
  "do { off \<leftarrow> move_by walk_varint (pre @ leb128 (unat (a :: u32)) @ leb128 (unat (b :: u32)) @ leb128 (unat (c :: u32)) @ post) (length pre);
        off \<leftarrow> move_by walk_varint (pre @ leb128 (unat a) @ leb128 (unat b) @ leb128 (unat c) @ post) off;
        move_by walk_varint (pre @ leb128 (unat a) @ leb128 (unat b) @ leb128 (unat c) @ post) off } =
   Some (length pre + length (leb128 (unat a) @ leb128 (unat b) @ leb128 (unat c)))"
  using move_by_varint [of pre a "leb128 (unat b) @ leb128 (unat c) @ post"]
    move_by_varint [of "pre @ leb128 (unat a)" b "leb128 (unat c) @ post"]
    move_by_varint [of "pre @ leb128 (unat a) @ leb128 (unat b)" c post]
  by (simp add: add.assoc)

lemma count_value_wire:
  assumes "wf_metavalue t tag" and "measured_value t tag"
  shows "count_value t (pre @ wire_metavalue t tag @ post) (length pre) =
    Some (length pre + length (wire_metavalue t tag))"
proof (cases t)
  case meta_optchat
  with assms have "opt tag \<noteq> 0 \<Longrightarrow> \<exists>x. m_string tag = Some x \<and> wf_string x \<and> length (wire_string x) \<le> 1073741823"
    by (auto simp: wf_metavalue_def dest: wf_str_Some)
  then show ?thesis unfolding meta_optchat count_value_def wire_metavalue_def
    by (auto intro!: count_opt [where f = "\<lambda>b. move_by walk_string b"] move_by_string)
next
  case meta_optposition
  then show ?thesis unfolding meta_optposition count_value_def wire_metavalue_def
    by (auto intro!: count_opt [where f = "\<lambda>b off. move b off 8"] move_over_eq)
next
  case meta_optuuid
  then show ?thesis unfolding meta_optuuid count_value_def wire_metavalue_def
    by (auto intro!: count_opt [where f = "\<lambda>b off. move b off 16"] move_over_eq simp: wire_uuid_def)
next
  case meta_optvarint
  then show ?thesis unfolding meta_optvarint count_value_def wire_metavalue_def
    by (auto intro!: count_opt [where f = "\<lambda>b. move_by walk_varint b"] move_by_varint)
next
  case meta_villagerdata
  then show ?thesis using count_villager by (auto simp: count_value_def wire_metavalue_def split: prod.splits)
next
  case meta_rotation
  then show ?thesis using move_over_eq [of 12 "wire_metavalue t tag"]
    by (simp add: count_value_def wire_metavalue_def)
next
  case meta_position
  then show ?thesis using move_over_eq [of 8 "wire_metavalue t tag"]
    by (simp add: count_value_def wire_metavalue_def)
next
  case meta_float
  then show ?thesis using move_over_eq [of 4 "wire_metavalue t tag"]
    by (simp add: count_value_def wire_metavalue_def)
next
  case meta_slot
  with assms have "wire_metavalue t tag = [0]" by (simp add: measured_value_def wire_metavalue_def wire_slot_def)
  with meta_slot show ?thesis using move_by_absent_slot [of pre post] by (simp add: count_value_def)
qed (use assms in \<open>auto simp: count_value_def wire_metavalue_def wf_metavalue_def measured_value_def move_by_varint move_def
    move_by_string move_by_nbt dest!: wf_str_Some split: option.splits\<close>)

section \<open>Whole tags\<close>

abbreviation type_of_tag :: "mc_metatag \<Rightarrow> meta_type" where
  "type_of_tag tag \<equiv> the (meta_type_of (m_type tag))"

definition wf_metatag :: "mc_metatag \<Rightarrow> bool" where
  "wf_metatag tag \<longleftrightarrow> index tag \<noteq> 0xFF \<and> meta_type_of (m_type tag) \<noteq> None \<and> wf_metavalue (type_of_tag tag) tag"

definition measured :: "mc_metatag \<Rightarrow> bool" where
  "measured tag \<longleftrightarrow> measured_value (type_of_tag tag) tag"

definition wire_metatag :: "mc_metatag \<Rightarrow> byte list" where
  "wire_metatag tag = index tag # leb128 (unat (m_type tag)) @ wire_metavalue (type_of_tag tag) tag"

definition tag_into :: "mc_metatag \<Rightarrow> mc_metatag \<Rightarrow> mc_metatag" where
  "tag_into raw tag = value_into (type_of_tag tag) (raw\<lparr>index := index tag, m_type := m_type tag\<rparr>) tag"

abbreviation wire_tags :: "mc_metatag list \<Rightarrow> byte list" where
  "wire_tags ts \<equiv> concat (map wire_metatag ts)"

lemma enc_metatag_wire: "wf_metatag tag \<Longrightarrow> enc_metatag always dest tag = Some (dest @ wire_metatag tag)"
  by (auto simp: enc_metatag_def wf_metatag_def wire_metatag_def enc_metavalue_wire enc_byte_def enc_varint_leb Let_def)

lemma enc_metatags_wire:
  "\<forall>t \<in> set ts. wf_metatag t \<Longrightarrow> enc_items (enc_metatag always) dest ts = Some (dest @ wire_tags ts)"
  by (induction ts arbitrary: dest) (simp_all add: enc_metatag_wire)

lemma dec_metatag_wire:
  "wf_metatag tag \<Longrightarrow> dec_metatag always plenty raw (wire_metatag tag @ rest) = Some (tag_into raw tag, rest)"
  by (auto simp: dec_metatag_def wf_metatag_def wire_metatag_def tag_into_def varint.dec_wire dec_metavalue_wire Let_def)

lemma dec_metatags_wire:
  "\<forall>t \<in> set ts. wf_metatag t \<Longrightarrow>
     dec_items (dec_metatag always plenty raw) (length ts) (wire_tags ts @ rest) = Some (map (tag_into raw) ts, rest)"
  by (induction ts) (simp_all add: dec_metatag_wire)

lemma count_tag:
  assumes "wf_metatag tag" and "measured tag"
  shows "count_loop (pre @ wire_metatag tag @ post) (length pre) c =
    count_loop (pre @ wire_metatag tag @ post) (length pre + length (wire_metatag tag)) (c + 1)"
proof -
  from assms obtain t where t: "meta_type_of (m_type tag) = Some t" "wf_metavalue t tag" "index tag \<noteq> 0xFF" "measured_value t tag"
    by (auto simp: wf_metatag_def measured_def)
  let ?l = "leb128 (unat (m_type tag))" and ?v = "wire_metavalue t tag"
  let ?buf = "pre @ wire_metatag tag @ post"
  have buf: "?buf = (pre @ index tag # ?l) @ ?v @ post" by (simp add: wire_metatag_def t(1))
  have "drop (length pre) ?buf = index tag # ?l @ ?v @ post" by (simp add: wire_metatag_def t(1))
  moreover have "dec_varint (drop (length pre + 1) ?buf) = Some (m_type tag, ?v @ post)"
    by (simp add: wire_metatag_def t(1) varint.dec_wire)
  moreover have "length ?buf - length (?v @ post) = length (pre @ index tag # ?l)" unfolding buf by simp
  moreover have "count_value t ?buf (length (pre @ index tag # ?l)) = Some (length pre + length (wire_metatag tag))"
    unfolding buf using count_value_wire [OF t(2,4), of "pre @ index tag # ?l" post]
    by (simp add: wire_metatag_def t(1))
  ultimately show ?thesis by (subst count_loop.simps) (simp add: t)
qed

lemma count_tags:
  "\<forall>t \<in> set ts. wf_metatag t \<and> measured t \<Longrightarrow> count_loop (pre @ wire_tags ts @ post) (length pre) c =
     count_loop (pre @ wire_tags ts @ post) (length (pre @ wire_tags ts)) (c + of_nat (length ts))"
proof (induction ts arbitrary: pre c)
  case (Cons t ts)
  then show ?case
    using count_tag [of t pre "wire_tags ts @ post" c] Cons.IH [of "pre @ wire_metatag t" "c + 1"]
    by (simp add: ac_simps)
qed simp

lemma count_metatags_wire:
  assumes "\<forall>t \<in> set ts. wf_metatag t \<and> measured t"
  shows "count_metatags (wire_tags ts @ 0xFF # rest) = Some (of_nat (length ts))"
    and "count_metatags (wire_tags ts @ [0]) = None"
proof -
  have "count_loop (wire_tags ts @ 0xFF # rest) (length (wire_tags ts)) c = Some c" for c
    by (subst count_loop.simps) simp
  with count_tags [OF assms, of "[]" "0xFF # rest" 0] show "count_metatags (wire_tags ts @ 0xFF # rest) = Some (of_nat (length ts))"
    by (simp add: count_metatags_def)
  have "count_loop (wire_tags ts @ [0]) (length (wire_tags ts)) c = None" for c
    by (subst count_loop.simps) (simp add: dec_varint_def)
  with count_tags [OF assms, of "[]" "[0]" 0] show "count_metatags (wire_tags ts @ [0]) = None"
    by (simp add: count_metatags_def)
qed

lemma dec_metadata_wire:
  assumes "\<forall>t \<in> set ts. wf_metatag t \<and> measured t" and "length ts < 2 ^ 64"
  shows "dec_metadata always plenty raw (wire_tags ts @ 0xFF # rest) =
    Some (\<lparr>md_len = of_nat (length ts), md_tags = Some (map (tag_into raw) ts)\<rparr>, Some rest)"
proof -
  have "unat (of_nat (length ts) :: u64) = length ts" using assms(2) by (rule unat_of_nat64)
  then show ?thesis
    using dec_metatags_wire [of ts raw "0xFF # rest"] assms(1)
    by (simp add: dec_metadata_def count_metatags_wire [OF assms(1)] adv_def)
qed

section \<open>Walking what was written\<close>

text \<open>The value was walked: what the switch leaves is consistent with having moved over \<open>w\<close>.\<close>

definition walked_over :: "byte list \<Rightarrow> ptr \<Rightarrow> u64 \<Rightarrow> int \<Rightarrow> walked option \<Rightarrow> bool" where
  "walked_over w rest m tot r \<longleftrightarrow>
     (\<exists>k src. k \<le> length w \<and> adv k src = Some rest \<and>
        r = Some (Inr (int k, src, m - of_nat (length w - k), tot + int (length w - k))))"

lemma walked_sized: "n = int (length w) \<Longrightarrow> walked_over w rest m tot (walk_sized n (w @ rest) m tot)"
  unfolding walked_over_def walk_sized_def by (intro exI [of _ "length w"] exI [of _ "w @ rest"]) simp

lemma walked_with: "f (w @ rest) m = Some (int (length w)) \<Longrightarrow> walked_over w rest m tot (walk_with f (w @ rest) m tot)"
  by (simp add: walk_with_def walked_sized)

lemma walked_byte: "walked_over [b] rest m tot (walk_sized 1 (b # rest) m tot)"
  using walked_sized [of 1 "[b]" rest m tot] by simp

lemma unat_pred: "1 \<le> unat m \<Longrightarrow> unat (m - 1 :: u64) = unat m - 1"
  using unat_sub_len [of 1 m] by simp

lemma walked_opt:
  assumes "o' \<noteq> 0 \<Longrightarrow> length w \<le> unat (m - 1) \<Longrightarrow> f (w @ rest) (m - 1) = Some (int (length w))"
    and "length (wire_opt o' w) \<le> unat m" and "int (length (wire_opt o' w)) \<le> INT_MAX"
  shows "walked_over (wire_opt o' w) rest m tot (walk_opt f (wire_opt o' w @ rest) m tot)"
proof (cases "o' = 0")
  case True
  then show ?thesis using walked_sized [of 1 "[0]" rest m tot] by (simp add: walk_opt_def wire_opt_def)
next
  case False
  then have w: "wire_opt o' w = o' # w" by (simp add: wire_opt_def)
  have "length w \<le> unat (m - 1)" using assms(2) unfolding w by (subst unat_pred) simp_all
  with assms(1) False have "f (w @ rest) (m - 1) = Some (int (length w))" by blast
  moreover have "iadd 1 (int (length w)) = Some (1 + int (length w))"
    using assms(3) unfolding w by (simp add: iadd_def INT_MIN_def)
  ultimately show ?thesis unfolding w using False walked_sized [of "1 + int (length w)" "o' # w" rest m tot]
    by (simp add: walk_opt_def adv_def)
qed

lemma walk_villager_step:
  assumes "length (leb128 (unat (v :: u32))) \<le> unat m" and "0 \<le> tot" and "tot + int (length (leb128 (unat v))) \<le> INT_MAX"
  shows "walk_villager (Suc j) (leb128 (unat v) @ rest) m tot =
    walk_villager j rest (m - of_nat (length (leb128 (unat v)))) (tot + int (length (leb128 (unat v))))"
  using assms walk_varint_wire [OF assms(1), of rest] by (simp add: iadd_def INT_MIN_def)

lemma walked_villager:
  assumes "length (leb128 (unat a) @ leb128 (unat b) @ leb128 (unat (c :: u32))) \<le> unat m" and "0 \<le> tot"
    and "tot + int (length (leb128 (unat (a :: u32)) @ leb128 (unat (b :: u32)) @ leb128 (unat c))) \<le> INT_MAX"
  shows "walked_over (leb128 (unat a) @ leb128 (unat b) @ leb128 (unat c)) rest m tot
    (walk_villager 3 ((leb128 (unat a) @ leb128 (unat b) @ leb128 (unat c)) @ rest) m tot)"
proof -
  define x y z where "x = length (leb128 (unat a))" and "y = length (leb128 (unat b))" and "z = length (leb128 (unat c))"
  note len = assms(1) [simplified, folded x_def y_def z_def] and tot = assms(3) [simplified, folded x_def y_def z_def]
  have m1: "unat (m - of_nat x) = unat m - x" using len by (intro unat_sub_len) simp
  have m2: "unat (m - of_nat x - of_nat y) = unat m - x - y" using unat_sub_len [of y "m - of_nat x"] len m1 by simp
  have "walk_villager 3 ((leb128 (unat a) @ leb128 (unat b) @ leb128 (unat c)) @ rest) m tot =
    walk_sized 0 rest (m - of_nat x - of_nat y - of_nat z) (tot + int x + int y + int z)"
    unfolding numeral_3_eq_3 append_assoc using assms(2) len tot m1 m2
    by (subst walk_villager_step; (subst walk_villager_step)?; (subst walk_villager_step)?)
      (simp_all add: x_def [symmetric] y_def [symmetric] z_def [symmetric])
  then show ?thesis unfolding walked_over_def walk_sized_def
    by (intro exI [of _ 0] exI [of _ rest]) (simp add: x_def y_def z_def adv_def algebra_simps)
qed

lemma walk_metavalue_wire:
  assumes wf: "wf_metavalue t tag" "measured_value t tag" and len: "length (wire_metavalue t tag) \<le> unat m"
    and tot: "0 \<le> tot" "tot + int (length (wire_metavalue t tag)) \<le> INT_MAX"
  shows "walked_over (wire_metavalue t tag) rest m tot (walk_metavalue (Some t) (wire_metavalue t tag @ rest) m tot)"
proof -
  have range: "int (length (wire_metavalue t tag)) \<le> INT_MAX" using tot by linarith
  show ?thesis
  proof (cases t)
    case meta_optchat
    with wf have "opt tag \<noteq> 0 \<Longrightarrow> \<exists>x. m_string tag = Some x \<and> wf_string x \<and> length (wire_string x) \<le> 1073741823"
      by (auto simp: wf_metavalue_def dest: wf_str_Some)
    with len range meta_optchat show ?thesis unfolding meta_optchat walk_metavalue_def wire_metavalue_def
      by (auto intro!: walked_opt walk_string_wire)
  next
    case meta_optvarint
    with len range show ?thesis unfolding meta_optvarint walk_metavalue_def wire_metavalue_def
      by (auto intro!: walked_opt walk_varint_wire)
  next
    case meta_optposition
    then show ?thesis unfolding meta_optposition walk_metavalue_def wire_metavalue_def
      using walked_sized [of "if opt tag = 0 then 1 else 9" "wire_opt (opt tag) (rev (mem_of (pack_position (m_pos tag))))" rest m tot]
      by (auto simp: wire_opt_def)
  next
    case meta_optuuid
    then show ?thesis unfolding meta_optuuid walk_metavalue_def wire_metavalue_def
      using walked_sized [of "if opt tag = 0 then 1 else 17" "wire_opt (opt tag) (wire_uuid (m_uuid tag))" rest m tot]
      by (auto simp: wire_opt_def wire_uuid_def)
  next
    case meta_villagerdata
    with len tot show ?thesis unfolding meta_villagerdata walk_metavalue_def wire_metavalue_def
      by (auto split: prod.splits intro!: walked_villager [simplified])
  next
    case meta_slot
    with wf have "wire_metavalue t tag = [0]" by (simp add: measured_value_def wire_metavalue_def wire_slot_def)
    moreover from this have "m \<noteq> 0" using len by auto
    ultimately show ?thesis using walked_with [of walk_slot "[0]" rest m tot] walk_absent_slot [of m rest] meta_slot
      by (simp add: walk_metavalue_def)
  next
    case meta_nbt
    with wf len show ?thesis unfolding meta_nbt walk_metavalue_def wire_metavalue_def
      by (auto simp: wf_metavalue_def intro!: walked_with walk_node_wire split: option.splits)
  next
    case meta_rotation
    then show ?thesis unfolding meta_rotation
      using walked_sized [of 12 "wire_metavalue meta_rotation tag" rest m tot]
      by (simp add: walk_metavalue_def wire_metavalue_def)
  qed (use wf len in \<open>auto simp: walk_metavalue_def wire_metavalue_def wf_metavalue_def measured_value_def dest!: wf_str_Some
      intro!: walked_byte walked_sized walked_with walk_varint_wire walk_string_wire\<close>)
qed

lemma adv_one: "adv (Suc 0) (x # s) = Some s"
  by (simp add: adv_def)

lemma walk_metatag_wire:
  assumes wf: "wf_metatag tag" "measured tag" and len: "length (wire_metatag tag) < unat m"
    and tot: "0 \<le> tot" "tot + int (length (wire_metatag tag)) \<le> INT_MAX"
  shows "walk_metatag (wire_metatag tag @ rest) m tot =
    Some (Inr (rest, m - of_nat (length (wire_metatag tag)), tot + int (length (wire_metatag tag))))"
proof -
  from wf obtain t where t: "meta_type_of (m_type tag) = Some t" "wf_metavalue t tag" "measured_value t tag"
    by (auto simp: wf_metatag_def measured_def)
  define l v where "l = length (leb128 (unat (m_type tag)))" and "v = length (wire_metavalue t tag)"
  have wire: "wire_metatag tag = index tag # leb128 (unat (m_type tag)) @ wire_metavalue t tag"
    by (simp add: wire_metatag_def t(1))
  have L: "length (wire_metatag tag) = 1 + l + v" by (simp add: wire l_def v_def)
  note len = len [unfolded L] and tot = tot [unfolded L]
  have m1: "unat (m - 1) = unat m - 1" using len by (intro unat_pred) simp
  define m2 where "m2 = m - 1 - of_nat l"
  have m2: "unat m2 = unat m - 1 - l" unfolding m2_def using unat_sub_len [of l "m - 1"] m1 len by simp
  have w1: "walk_varint (leb128 (unat (m_type tag)) @ wire_metavalue t tag @ rest) (m - 1) = Some (int l)"
    unfolding l_def using len m1 by (intro walk_varint_wire) (simp add: l_def)
  have "walked_over (wire_metavalue t tag) rest m2 (tot + 1 + int l)
      (walk_metavalue (Some t) (wire_metavalue t tag @ rest) m2 (tot + 1 + int l))"
    using t(2,3) len m2 tot by (intro walk_metavalue_wire) (simp_all add: v_def)
  then obtain k src where k: "k \<le> v" "adv k src = Some rest"
    "walk_metavalue (Some t) (wire_metavalue t tag @ rest) m2 (tot + 1 + int l) =
      Some (Inr (int k, src, m2 - of_nat (v - k), tot + 1 + int l + int (v - k)))"
    unfolding walked_over_def v_def by blast
  have "unat (m2 - of_nat (v - k)) = unat m2 - (v - k)" using len m2 by (intro unat_sub_len) simp
  then have fit: "\<not> m2 - of_nat (v - k) \<le> of_nat k"
    using len m2 k(1) unat_sub_len [of k m2] by (simp add: word_le_nat_alt unat_of_nat64 not_le unat_of_nat)
  have i: "iadd tot 1 = Some (tot + 1)" "iadd (tot + 1) (int l) = Some (tot + 1 + int l)"
    "iadd (tot + 1 + int l + int (v - k)) (int k) = Some (tot + int (1 + l + v))"
    using tot k(1) by (simp_all add: iadd_def INT_MIN_def)
  have "m2 - of_nat (v - k) - of_nat k = m - of_nat (1 + l + v)"
    using k(1) by (simp add: m2_def of_nat_diff)
  with fit i k w1 t show ?thesis unfolding L
    by (simp add: walk_metatag_def wire adv_one varint.dec_wire m2_def [symmetric] Let_def del: of_nat_add)
qed

lemma length_wire_metatag: "1 \<le> length (wire_metatag tag)"
  by (simp add: wire_metatag_def)

lemma walk_metadata_loop_wire:
  "\<forall>t \<in> set ts. wf_metatag t \<and> measured t \<Longrightarrow> length (wire_tags ts) < unat m \<Longrightarrow> 0 \<le> tot \<Longrightarrow>
     tot + int (length (wire_tags ts)) \<le> INT_MAX \<Longrightarrow>
     walk_metadata_loop (length ts + k) (wire_tags ts @ rest) m tot =
       walk_metadata_loop k rest (m - of_nat (length (wire_tags ts))) (tot + int (length (wire_tags ts)))"
proof (induction ts arbitrary: m tot)
  case (Cons t ts)
  let ?w = "wire_metatag t"
  have wf: "wf_metatag t" "measured t" "\<forall>t \<in> set ts. wf_metatag t \<and> measured t" using Cons.prems(1) by simp_all
  have step: "walk_metatag (?w @ wire_tags ts @ rest) m tot =
    Some (Inr (wire_tags ts @ rest, m - of_nat (length ?w), tot + int (length ?w)))"
    using Cons.prems by (intro walk_metatag_wire wf(1,2)) simp_all
  have "deref (?w @ wire_tags ts @ rest) = Some (index t)" by (simp add: wire_metatag_def)
  moreover have "index t \<noteq> 0xFF" using wf(1) by (simp add: wf_metatag_def)
  moreover have "unat (m - of_nat (length ?w)) = unat m - length ?w"
    using Cons.prems(2) by (intro unat_sub_len) simp
  then have "walk_metadata_loop (length ts + k) (wire_tags ts @ rest) (m - of_nat (length ?w)) (tot + int (length ?w)) =
    walk_metadata_loop k rest (m - of_nat (length ?w) - of_nat (length (wire_tags ts)))
      (tot + int (length ?w) + int (length (wire_tags ts)))"
    using Cons.prems by (intro Cons.IH wf(3)) simp_all
  ultimately show ?case using step by (simp add: algebra_simps)
qed simp

lemma length_tags: "length ts \<le> length (wire_tags ts)"
proof (induction ts)
  case (Cons t ts)
  then show ?case using length_wire_metatag [of t] by simp
qed simp

lemma walk_metadata_wire:
  assumes wf: "\<forall>t \<in> set ts. wf_metatag t \<and> measured t" and len: "length (wire_tags ts) < unat m"
    and range: "int (length (wire_tags ts)) < INT_MAX"
  shows "walk_metadata (wire_tags ts @ 0xFF # rest) m = Some (int (length (wire_tags ts)) + 1)"
    and "unat m = length (wire_tags ts) + 1 \<Longrightarrow> walk_metadata (wire_tags ts @ [0]) m = Some varnum_overrun"
proof -
  have m0: "m \<noteq> 0" using len by auto
  have fuel: "\<exists>k. Suc (length (wire_tags ts @ post)) = length ts + Suc k" for post
    using length_tags [of ts] by (intro exI [of _ "length (wire_tags ts @ post) - length ts"]) simp
  have loop: "walk_metadata (wire_tags ts @ post) m = walk_metadata_loop (Suc k) post (m - of_nat (length (wire_tags ts)))
      (int (length (wire_tags ts)))" if "Suc (length (wire_tags ts @ post)) = length ts + Suc k" for post k
    unfolding walk_metadata_def that using m0 walk_metadata_loop_wire [OF wf len, of 0 "Suc k" post] range by simp
  obtain k where "Suc (length (wire_tags ts @ 0xFF # rest)) = length ts + Suc k" using fuel by blast
  from loop [OF this] range show "walk_metadata (wire_tags ts @ 0xFF # rest) m = Some (int (length (wire_tags ts)) + 1)"
    by (simp add: iadd_def INT_MIN_def)
  assume "unat m = length (wire_tags ts) + 1"
  then have "unat (m - of_nat (length (wire_tags ts))) = 1" by (subst unat_sub_len) simp_all
  then have m1: "m - of_nat (length (wire_tags ts)) = 1" by (metis unsigned_1 unsigned_word_eqI)
  obtain j where "Suc (length (wire_tags ts @ [0])) = length ts + Suc j" using fuel by blast
  from loop [OF this] range show "walk_metadata (wire_tags ts @ [0]) m = Some varnum_overrun"
    unfolding m1 by (simp add: walk_metatag_def iadd_def INT_MIN_def adv_def walk_varint_def varnum_overrun_def)
qed

section \<open>What is not measured\<close>

text \<open>The walkers of particles and of slots with an item never return the length of an image, so neither the walk nor the count moves over it.\<close>

lemma walked_with_iff: "walked_over w rest m tot (walk_with f (w @ rest) m tot) \<longleftrightarrow> f (w @ rest) m = Some (int (length w))"
proof
  assume "walked_over w rest m tot (walk_with f (w @ rest) m tot)"
  then show "f (w @ rest) m = Some (int (length w))"
    by (auto simp: walked_over_def walk_with_def walk_sized_def split: bind_splits if_splits)
qed (rule walked_with)

lemma move_by_iff:
  "move_by f (pre @ w @ post) (length pre) = Some (length pre + length w) \<longleftrightarrow> f (w @ post) NO_OVERFLOW = Some (int (length w))"
  by (auto simp: move_by_def move_def Let_def split: bind_splits if_splits)

lemma not_measured:
  assumes "\<not> measured_value t tag"
  shows "\<not> walked_over (wire_metavalue t tag) rest m tot (walk_metavalue (Some t) (wire_metavalue t tag @ rest) m tot)"
    and "count_value t (pre @ wire_metavalue t tag @ post) (length pre) \<noteq> Some (length pre + length (wire_metavalue t tag))"
proof -
  have slot: "walk_slot (wire_slot s @ r) n \<noteq> Some (int (length (wire_slot s)))" if "present s \<noteq> 0" for s r n
    using walk_slot_result [of "wire_slot s @ r" n "int (length (wire_slot s))"] that by (auto simp: wire_slot_def)
  from assms consider (slot) "t = meta_slot" "present (m_slot tag) \<noteq> 0" | (particle) "t = meta_particle"
    by (auto simp: measured_value_def)
  then have "\<not> walked_over (wire_metavalue t tag) rest m tot (walk_metavalue (Some t) (wire_metavalue t tag @ rest) m tot) \<and>
    count_value t (pre @ wire_metavalue t tag @ post) (length pre) \<noteq> Some (length pre + length (wire_metavalue t tag))"
    by cases (simp_all add: walk_metavalue_def count_value_def wire_metavalue_def walked_with_iff move_by_iff slot walk_particle_wrong)
  then show "\<not> walked_over (wire_metavalue t tag) rest m tot (walk_metavalue (Some t) (wire_metavalue t tag @ rest) m tot)"
    and "count_value t (pre @ wire_metavalue t tag @ post) (length pre) \<noteq> Some (length pre + length (wire_metavalue t tag))"
    by blast+
qed

section \<open>Properties\<close>

text \<open>C10. Metadata is decoded correctly as long as it holds neither a particle nor a slot with an item. For well-formed tags of all nineteen types
  (strings and trees of less than \<open>2\<^sup>3\<^sup>0\<close> bytes, positions in range), closed by \<^verbatim>\<open>0xFF\<close>: the decoding loop restores of every tag the index, the
  type and the members the type selects. If no tag holds a particle or a slot with an item, \<^verbatim>\<open>walk_metadata\<close> finds the exact length,
  \<^verbatim>\<open>count_metatags\<close> the number of tags, and \<^verbatim>\<open>dec_metadata\<close> returns the tags with the pointer behind the closing byte. The exception cannot be
  dropped: on the value of a tag that holds a particle or a slot with an item, whatever surrounds it, neither \<^verbatim>\<open>walk_metadata\<close> nor
  \<^verbatim>\<open>count_metatags\<close> moves to its end.\<close>

theorem metadata_decode:
  assumes "\<forall>t \<in> set ts. wf_metatag t" and "length (wire_tags ts) < unat max_len"
    and "int (length (wire_tags ts)) < INT_MAX"
  shows "dec_items (dec_metatag always plenty raw) (length ts) (wire_tags ts @ rest) = Some (map (tag_into raw) ts, rest) \<and>
    ((\<forall>t \<in> set ts. measured t) \<longrightarrow>
      walk_metadata (wire_tags ts @ 0xFF # rest) max_len = Some (int (length (wire_tags ts)) + 1) \<and>
      count_metatags (wire_tags ts @ 0xFF # rest) = Some (of_nat (length ts)) \<and>
      dec_metadata always plenty raw (wire_tags ts @ 0xFF # rest) =
        Some (\<lparr>md_len = of_nat (length ts), md_tags = Some (map (tag_into raw) ts)\<rparr>, Some rest)) \<and>
    (\<forall>t \<in> set ts. \<not> measured t \<longrightarrow> (let w = wire_metavalue (type_of_tag t) t in
      (\<forall>post m tot. \<not> walked_over w post m tot (walk_metavalue (meta_type_of (m_type t)) (w @ post) m tot)) \<and>
      (\<forall>pre post. count_value (type_of_tag t) (pre @ w @ post) (length pre) \<noteq> Some (length pre + length w))))"
proof (intro conjI impI ballI)
  show "dec_items (dec_metatag always plenty raw) (length ts) (wire_tags ts @ rest) = Some (map (tag_into raw) ts, rest)"
    by (rule dec_metatags_wire [OF assms(1)])
next
  assume "\<forall>t \<in> set ts. measured t"
  with assms(1) have wf: "\<forall>t \<in> set ts. wf_metatag t \<and> measured t" by blast
  have "length ts < 2 ^ 64" using length_tags [of ts] assms(3) by (simp add: INT_MAX_def)
  with assms walk_metadata_wire(1) [OF wf] count_metatags_wire(1) [OF wf] dec_metadata_wire [OF wf]
  show "walk_metadata (wire_tags ts @ 0xFF # rest) max_len = Some (int (length (wire_tags ts)) + 1)"
    and "count_metatags (wire_tags ts @ 0xFF # rest) = Some (of_nat (length ts))"
    and "dec_metadata always plenty raw (wire_tags ts @ 0xFF # rest) =
        Some (\<lparr>md_len = of_nat (length ts), md_tags = Some (map (tag_into raw) ts)\<rparr>, Some rest)" by blast+
next
  fix t assume t: "t \<in> set ts" "\<not> measured t"
  with assms(1) obtain ty where ty: "meta_type_of (m_type t) = Some ty" by (auto simp: wf_metatag_def)
  with t(2) have "\<not> measured_value ty t" by (simp add: measured_def)
  from not_measured [OF this] ty show "let w = wire_metavalue (type_of_tag t) t in
      (\<forall>post m tot. \<not> walked_over w post m tot (walk_metavalue (meta_type_of (m_type t)) (w @ post) m tot)) \<and>
      (\<forall>pre post. count_value (type_of_tag t) (pre @ w @ post) (length pre) \<noteq> Some (length pre + length w))" by (simp add: Let_def)
qed

definition sample_tag :: mc_metatag where
  "sample_tag = \<lparr>index = 3, m_type = 5, opt = 1, m_b = 0, m_varint = 0, m_f = 0, m_string = Some [0x68, 0x69],
     m_slot = empty_slot, rot_x = 0, rot_y = 0, rot_z = 0, m_pos = \<lparr>pos_x = 0, pos_y = 0, pos_z = 0\<rparr>,
     m_uuid = \<lparr>msb = 0, lsb = 0\<rparr>, m_nbt = None, m_particle = sample_particle, villagerdata = (1, 2, 3)\<rparr>"

text \<open>The same index with a particle.\<close>

definition particle_tag :: mc_metatag where
  "particle_tag = sample_tag\<lparr>m_type := 15, m_particle := sample_particle\<lparr>p_type := 0\<rparr>\<rparr>"

lemma wf_sample_tags:
  "wf_metatag sample_tag" "wf_metatag (sample_tag\<lparr>m_type := 16\<rparr>)" "measured sample_tag" "measured (sample_tag\<lparr>m_type := 16\<rparr>)"
  "length (wire_metatag sample_tag) = 6" "length (wire_metatag (sample_tag\<lparr>m_type := 16\<rparr>)) = 5"
  by (simp_all add: sample_tag_def wf_metatag_def meta_type_of_def meta_types_def wf_metavalue_def wf_str_def measured_def measured_value_def
      wf_string_def wire_string_def wire_metatag_def wire_metavalue_def wire_opt_def leb128_small)

lemma particle_tag_facts:
  "wf_metatag particle_tag" "\<not> measured particle_tag" "type_of_tag particle_tag = meta_particle"
  "meta_type_of (m_type particle_tag) = Some meta_particle" "wire_metavalue meta_particle particle_tag = [0]"
  "length (wire_metatag particle_tag) = 3"
  by (simp_all add: particle_tag_def sample_tag_def sample_particle_def wf_metatag_def meta_type_of_def meta_types_def wf_metavalue_def
      wf_particle_def particle_types measured_def measured_value_def wire_metatag_def wire_metavalue_def wire_particle_def
      wire_particledata_def leb128_small)

theorem metadata_decode_witness:
  "(walk_metadata (wire_tags [sample_tag, sample_tag\<lparr>m_type := 16\<rparr>] @ 0xFF # [7]) 13 = Some 12 \<and>
    count_metatags (wire_tags [sample_tag, sample_tag\<lparr>m_type := 16\<rparr>] @ 0xFF # [7]) = Some 2 \<and>
    dec_metadata always plenty sample_tag (wire_tags [sample_tag, sample_tag\<lparr>m_type := 16\<rparr>] @ 0xFF # [7]) =
      Some (\<lparr>md_len = 2, md_tags = Some (map (tag_into sample_tag) [sample_tag, sample_tag\<lparr>m_type := 16\<rparr>])\<rparr>, Some [7])) \<and>
   dec_items (dec_metatag always plenty sample_tag) 1 (wire_tags [particle_tag] @ [0xFF]) = Some ([tag_into sample_tag particle_tag], [0xFF]) \<and>
   count_value meta_particle ([3, 15] @ [0] @ [0xFF]) 2 \<noteq> Some 3"
proof -
  let ?ts = "[sample_tag, sample_tag\<lparr>m_type := 16\<rparr>]"
  have "\<forall>t \<in> set ?ts. wf_metatag t" "length (wire_tags ?ts) < unat (13 :: u64)" "int (length (wire_tags ?ts)) < INT_MAX"
    by (simp_all add: wf_sample_tags INT_MAX_def)
  from metadata_decode [OF this, of sample_tag "[7]"]
  have 1: "walk_metadata (wire_tags ?ts @ 0xFF # [7]) 13 = Some (int (length (wire_tags ?ts)) + 1) \<and>
    count_metatags (wire_tags ?ts @ 0xFF # [7]) = Some (of_nat (length ?ts)) \<and>
    dec_metadata always plenty sample_tag (wire_tags ?ts @ 0xFF # [7]) =
      Some (\<lparr>md_len = of_nat (length ?ts), md_tags = Some (map (tag_into sample_tag) ?ts)\<rparr>, Some [7])"
    by (auto simp: wf_sample_tags)
  have n: "int (length (wire_tags ?ts)) + 1 = 12" "of_nat (length ?ts) = (2 :: u64)" by (simp_all add: wf_sample_tags)
  have "\<forall>t \<in> set [particle_tag]. wf_metatag t" "length (wire_tags [particle_tag]) < unat (13 :: u64)" "int (length (wire_tags [particle_tag])) < INT_MAX"
    by (simp_all add: particle_tag_facts INT_MAX_def)
  from metadata_decode [OF this, of sample_tag "[0xFF]"]
  have "dec_items (dec_metatag always plenty sample_tag) 1 (wire_tags [particle_tag] @ [0xFF]) = Some ([tag_into sample_tag particle_tag], [0xFF])"
    "\<forall>pre post. count_value meta_particle (pre @ [0] @ post) (length pre) \<noteq> Some (length pre + length [0 :: byte])"
    by (simp_all add: particle_tag_facts Let_def)
  moreover from this(2) [rule_format, of "[3, 15]" "[0xFF]"] have "count_value meta_particle ([3, 15] @ [0] @ [0xFF]) 2 \<noteq> Some 3"
    by (simp add: numeral_eq_Suc)
  ultimately show ?thesis using 1 [unfolded n] by (intro conjI) simp_all
qed

text \<open>\<^verbatim>\<open>enc_metadata\<close> closes the sequence with 0 instead of \<^verbatim>\<open>0xFF\<close>: its own output, alone in a buffer, is
  rejected by \<^verbatim>\<open>walk_metadata\<close> as overrun, and decoding it reads behind the end.\<close>

theorem enc_metadata_not_decodable:
  assumes "\<forall>t \<in> set ts. wf_metatag t \<and> measured t" and "unat max_len = length (wire_tags ts) + 1"
    and "int (length (wire_tags ts)) < INT_MAX"
  shows "\<exists>bs. enc_metadata always [] \<lparr>md_len = of_nat (length ts), md_tags = Some ts\<rparr> = Some bs \<and>
    length bs = unat max_len \<and> walk_metadata bs max_len = Some varnum_overrun \<and>
    dec_metadata always plenty raw bs = None"
proof -
  have "length ts < 2 ^ 64" using length_tags [of ts] assms(3) by (simp add: INT_MAX_def)
  then have "meta_tags \<lparr>md_len = of_nat (length ts), md_tags = Some ts\<rparr> = Some ts"
    by (simp add: meta_tags_def unat_of_nat64)
  then have "enc_metadata always [] \<lparr>md_len = of_nat (length ts), md_tags = Some ts\<rparr> = Some (wire_tags ts @ [0])"
    using assms(1) by (simp add: enc_metadata_def enc_metatags_wire enc_byte_def)
  moreover have "walk_metadata (wire_tags ts @ [0]) max_len = Some varnum_overrun"
    using assms by (intro walk_metadata_wire(2)) simp_all
  moreover have "dec_metadata always plenty raw (wire_tags ts @ [0]) = None"
    by (simp add: dec_metadata_def count_metatags_wire(2) [OF assms(1)])
  ultimately show ?thesis using assms(2) by simp
qed

theorem enc_metadata_not_decodable_witness:
  "\<exists>bs. enc_metadata always [] \<lparr>md_len = of_nat (length [sample_tag]), md_tags = Some [sample_tag]\<rparr> = Some bs \<and>
    length bs = unat (7 :: u64) \<and> walk_metadata bs 7 = Some varnum_overrun \<and>
    dec_metadata always plenty sample_tag bs = None"
  by (rule enc_metadata_not_decodable) (simp_all add: wf_sample_tags INT_MAX_def)

text \<open>The optional values of \<^verbatim>\<open>walk_metadata\<close> are read before the length is checked: in a buffer that
  ends with the type byte of an optional value, the walker reads one byte behind the end, for any index.\<close>

theorem walk_metadata_overread:
  assumes "i \<noteq> 0xFF" and "t \<in> {5, 10, 12, 17}"
  shows "walk_metadata [i, of_nat t] 2 = None"
proof -
  from assms(2) have t: "of_nat t \<in> {5 :: byte, 10, 12, 17}" by auto
  have w: "walk_varint [b] 1 = Some 1 \<and> dec_varint [b] = Some (ucast b, [])" if "b \<in> {5, 10, 12, 17}" for b :: byte
    using that by (auto simp: walk_varint_def dec_varint_def shl_int_def)
  from t show ?thesis using assms(1) w [OF t]
    by (auto simp: walk_metadata_def walk_metatag_def adv_def iadd_def INT_MIN_def INT_MAX_def
        walk_metavalue_def meta_type_of_def meta_types_def walk_opt_def size_of_int_def)
qed

theorem walk_metadata_overread_witness: "walk_metadata [0, of_nat 5] 2 = None"
  by (rule walk_metadata_overread) simp_all

end
