(* ===== verification/Itemtag.thy ===== *)
theory Itemtag
  imports Scalars
begin

text \<open>
  Arrays of item tags (\<^verbatim>\<open>src/datautils.c\<close>, lines 1240--1325): a varint-prefixed array of named,
  varint-prefixed arrays of varints, the one composite type whose decoder allocates its arrays.
\<close>

section \<open>Operations\<close>

record mc_itemtag =
  tag_name :: "sds option"
  tag_len :: u32
  entries :: "u32 list option"

record mc_itemtag_array =
  tags_len :: u32
  tags :: "mc_itemtag list option"

text \<open>The inner loop of the walker over \<open>n\<close> entries, which does not move the pointer: an error, or the
  remaining length and the size.\<close>

primrec walk_entries :: "nat \<Rightarrow> ptr \<Rightarrow> u64 \<Rightarrow> int \<Rightarrow> (int + u64 \<times> int) option" where
  "walk_entries 0 source max_len sz = Some (Inr (max_len, sz))"
| "walk_entries (Suc n) source max_len sz =
     do { ret \<leftarrow> walk_varint source max_len;
          if ret < 0 then Some (Inl ret)
          else do { sz \<leftarrow> iadd sz ret; walk_entries n source (max_len - size_of_int ret) sz } }"

primrec walk_itemtags :: "nat \<Rightarrow> ptr \<Rightarrow> u64 \<Rightarrow> int \<Rightarrow> int option" where
  "walk_itemtags 0 source max_len sz = Some sz"
| "walk_itemtags (Suc n) source max_len sz =
     do { ret \<leftarrow> walk_string source max_len;
          if ret < 0 then Some ret
          else do { source \<leftarrow> adv (nat ret) source;
                    sz \<leftarrow> iadd sz ret;
          let max_len = max_len - size_of_int ret in
          do { ret \<leftarrow> walk_varint source max_len;
          if ret < 0 then Some ret
          else do { sz \<leftarrow> iadd sz ret;
                    (varint, source) \<leftarrow> dec_varint source;
                    r \<leftarrow> walk_entries (nat (sint varint)) source (max_len - size_of_int ret) sz;
                    case r of Inl err \<Rightarrow> Some err | Inr (max_len, sz) \<Rightarrow> walk_itemtags n source max_len sz } } } }"

text \<open>\<^verbatim>\<open>for(size_t i = 0, j = varint; ...)\<close>: a negative count becomes a huge one.\<close>

definition walk_itemtag_array :: "ptr \<Rightarrow> u64 \<Rightarrow> int option" where
  "walk_itemtag_array source max_len =
     (if max_len = 0 then Some (- 1)
      else do { ret \<leftarrow> walk_varint source max_len;
                if ret < 0 then Some ret
                else do { (varint, source) \<leftarrow> dec_varint source;
                          walk_itemtags (unat (scast varint :: u64)) source (max_len - size_of_int ret) ret } })"

text \<open>The first \<open>n\<close> elements of the array a pointer refers to (none are read through NULL).\<close>

definition ptr_prefix :: "u32 \<Rightarrow> 'a list option \<Rightarrow> 'a list option" where
  "ptr_prefix n a =
     (let n = nat (sint n) in case a of None \<Rightarrow> if n = 0 then Some [] else None | Some xs \<Rightarrow> arr_prefix n xs)"

primrec size_itemtags :: "u64 \<Rightarrow> mc_itemtag list \<Rightarrow> u64 option" where
  "size_itemtags sz [] = Some sz"
| "size_itemtags sz (t # ts) =
     do { nm \<leftarrow> tag_name t;
          es \<leftarrow> ptr_prefix (tag_len t) (entries t);
          size_itemtags (foldl (\<lambda>sz e. sz + size_varint e) (sz + size_string nm + size_varint (tag_len t)) es) ts }"

definition size_itemtag_array :: "mc_itemtag_array \<Rightarrow> u64 option" where
  "size_itemtag_array a =
     do { ts \<leftarrow> ptr_prefix (tags_len a) (tags a); size_itemtags (size_varint (tags_len a)) ts }"

definition enc_itemtag :: "ptr \<Rightarrow> mc_itemtag \<Rightarrow> ptr option" where
  "enc_itemtag dest t =
     do { nm \<leftarrow> tag_name t;
          dest \<leftarrow> enc_string dest nm;
          es \<leftarrow> ptr_prefix (tag_len t) (entries t);
          enc_items (\<lambda>d e. Some (enc_varint d e)) (enc_varint dest (tag_len t)) es }"

definition enc_itemtag_array :: "ptr \<Rightarrow> mc_itemtag_array \<Rightarrow> ptr option" where
  "enc_itemtag_array dest source =
     do { ts \<leftarrow> ptr_prefix (tags_len source) (tags source);
          enc_items enc_itemtag (enc_varint dest (tags_len source)) ts }"

text \<open>
  Sizes of the structures on the LP64 host. The decoder's loop over \<open>n\<close> tags; when an allocation is
  refused it returns NULL with the tags decoded so far.
\<close>

definition sizeof_itemtag :: nat where "sizeof_itemtag = 24"

primrec dec_itemtags :: "(nat \<Rightarrow> bool) \<Rightarrow> nat \<Rightarrow> mc_itemtag list \<Rightarrow> ptr \<Rightarrow> (mc_itemtag list \<times> ptr option) option" where
  "dec_itemtags mal 0 acc source = Some (acc, Some source)"
| "dec_itemtags mal (Suc n) acc source =
     do { (nm, source) \<leftarrow> dec_string mal source;
          (len, source) \<leftarrow> dec_varint source;
          if \<not> mal (unat (scast len * 4 :: u64))
          then Some (acc @ [\<lparr>tag_name = nm, tag_len = len, entries = None\<rparr>], None)
          else do { (es, source) \<leftarrow> dec_items dec_varint (nat (sint len)) source;
                    dec_itemtags mal n (acc @ [\<lparr>tag_name = nm, tag_len = len, entries = Some es\<rparr>]) source } }"

definition dec_itemtag_array :: "(nat \<Rightarrow> bool) \<Rightarrow> ptr \<Rightarrow> (mc_itemtag_array \<times> ptr option) option" where
  "dec_itemtag_array mal source =
     do { (len, source) \<leftarrow> dec_varint source;
          if \<not> mal (unat (scast len * of_nat sizeof_itemtag :: u64))
          then Some (\<lparr>tags_len = len, tags = None\<rparr>, None)
          else do { (ts, p) \<leftarrow> dec_itemtags mal (nat (sint len)) [] source;
                    Some (\<lparr>tags_len = len, tags = Some ts\<rparr>, p) } }"

section \<open>Contracts\<close>

definition itemtag :: "sds \<times> u32 list \<Rightarrow> mc_itemtag" where
  "itemtag = (\<lambda>(nm, es). \<lparr>tag_name = Some nm, tag_len = of_nat (length es), entries = Some es\<rparr>)"

definition itemtag_array :: "(sds \<times> u32 list) list \<Rightarrow> mc_itemtag_array" where
  "itemtag_array ts = \<lparr>tags_len = of_nat (length ts), tags = Some (map itemtag ts)\<rparr>"

definition wf_itemtag :: "sds \<times> u32 list \<Rightarrow> bool" where
  "wf_itemtag = (\<lambda>(nm, es). wf_string nm \<and> length es < 2 ^ 31)"

definition wire_itemtag :: "sds \<times> u32 list \<Rightarrow> byte list" where
  "wire_itemtag = (\<lambda>(nm, es). wire_string nm @ leb128 (length es) @ concat (map (\<lambda>e. leb128 (unat e)) es))"

definition wire_itemtag_array :: "(sds \<times> u32 list) list \<Rightarrow> byte list" where
  "wire_itemtag_array ts = leb128 (length ts) @ concat (map wire_itemtag ts)"

lemma ptr_prefix_all: "length xs < 2 ^ 31 \<Longrightarrow> ptr_prefix (of_nat (length xs)) (Some xs) = Some xs"
  by (simp add: ptr_prefix_def len_u32)

lemma dec_string_image: "wf_string s \<Longrightarrow> dec_string always (wire_string s @ rest) = Some (Some s, rest)"
  using string.dec_wire [of s rest] by (auto split: option.splits prod.splits)

lemma enc_itemtag_wire: "wf_itemtag t \<Longrightarrow> enc_itemtag dest (itemtag t) = Some (dest @ wire_itemtag t)"
  by (cases t) (simp add: enc_itemtag_def itemtag_def wf_itemtag_def wire_itemtag_def string.enc_wire
      ptr_prefix_all varint.enc_items_wire [simplified enc_varint_leb] enc_varint_leb len_u32)

lemma enc_itemtags_wire:
  "\<forall>t \<in> set ts. wf_itemtag t \<Longrightarrow>
     enc_items enc_itemtag dest (map itemtag ts) = Some (dest @ concat (map wire_itemtag ts))"
  by (induction ts arbitrary: dest) (simp_all add: enc_itemtag_wire)

lemma dec_itemtags_wire:
  "\<forall>t \<in> set ts. wf_itemtag t \<Longrightarrow>
     dec_itemtags always (length ts) acc (concat (map wire_itemtag ts) @ rest) = Some (acc @ map itemtag ts, Some rest)"
proof (induction ts arbitrary: acc)
  case (Cons t ts)
  obtain nm es where t: "t = (nm, es)" by (cases t)
  with Cons.prems have wf: "wf_string nm" "length es < 2 ^ 31" by (simp_all add: wf_itemtag_def)
  have "dec_items dec_varint (length es) (concat (map (\<lambda>e. leb128 (unat e)) es) @ r) = Some (es, r)" for r
    by (rule varint.dec_items_wire) simp
  with Cons wf show ?case
    by (simp add: t wire_itemtag_def dec_string_image dec_leb_len len_u32 itemtag_def)
qed simp

lemma walk_entries_same:
  "\<forall>m. l \<le> unat m \<longrightarrow> walk_varint source m = Some (int l) \<Longrightarrow> n * l \<le> unat max_len \<Longrightarrow> 0 \<le> z \<Longrightarrow>
     z + int (n * l) \<le> INT_MAX \<Longrightarrow>
     walk_entries n source max_len z = Some (Inr (max_len - of_nat (n * l), z + int (n * l)))"
proof (induction n arbitrary: max_len z)
  case (Suc n)
  have m: "unat (max_len - of_nat l) = unat max_len - l" using Suc.prems(2) by (intro unat_sub_len) simp
  have "0 \<le> z + int l" "z + int l + int (n * l) \<le> INT_MAX" "n * l \<le> unat (max_len - of_nat l)"
    using Suc.prems m by simp_all
  with Suc.IH [OF Suc.prems(1), of "max_len - of_nat l" "z + int l"]
  have "walk_entries n source (max_len - of_nat l) (z + int l) =
    Some (Inr (max_len - of_nat l - of_nat (n * l), z + int l + int (n * l)))" by simp
  moreover have "z + int l \<le> INT_MAX" using \<open>z + int l + int (n * l) \<le> INT_MAX\<close> by linarith
  then have "iadd z (int l) = Some (z + int l)" using Suc.prems(3) by (simp add: iadd_def INT_MIN_def)
  ultimately show ?case using Suc.prems(1,2) by (simp add: algebra_simps)
qed simp

section \<open>Properties\<close>

text \<open>Item tags survive the wire: every array of tags with names and entry counts below \<open>2\<^sup>3\<^sup>1\<close> is encoded
  as its image and decoded back to the same array, with the pointer behind it.\<close>

theorem itemtag_roundtrip:
  assumes "\<forall>t \<in> set ts. wf_itemtag t" and "length ts < 2 ^ 31"
  shows "enc_itemtag_array dest (itemtag_array ts) = Some (dest @ wire_itemtag_array ts) \<and>
    dec_itemtag_array always (wire_itemtag_array ts @ rest) = Some (itemtag_array ts, Some rest)"
  using assms ptr_prefix_all [of "map itemtag ts"]
  by (simp add: enc_itemtag_array_def dec_itemtag_array_def wire_itemtag_array_def itemtag_array_def
      enc_itemtags_wire dec_itemtags_wire enc_varint_leb dec_leb_len len_u32)

theorem itemtag_roundtrip_witness:
  "enc_itemtag_array [] (itemtag_array [([0x61], [1, 300]), ([], [])]) =
      Some ([] @ wire_itemtag_array [([0x61], [1, 300]), ([], [])]) \<and>
    dec_itemtag_array always (wire_itemtag_array [([0x61], [1, 300]), ([], [])] @ [9]) =
      Some (itemtag_array [([0x61], [1, 300]), ([], [])], Some [9])"
  by (rule itemtag_roundtrip) (simp_all add: wf_itemtag_def wf_string_def)

text \<open>\<^verbatim>\<open>walk_itemtag_array\<close> measures every entry of a tag as long as the first one, because its inner
  loop does not move the pointer: for an array of one tag it answers the header plus the number of
  entries times the length of the first one, whatever the others are.\<close>

theorem walk_itemtag_first_entry:
  assumes "wf_string nm" and "length es < 2 ^ 28" and "es \<noteq> []"
    and fit: "1 + length (wire_string nm) + length (leb128 (length es)) + length es * length (leb128 (unat (hd es))) \<le> unat max_len"
    and range: "int (1 + length (wire_string nm) + length (leb128 (length es)) + length es * length (leb128 (unat (hd es)))) \<le> INT_MAX"
  shows "walk_itemtag_array (wire_itemtag_array [(nm, es)] @ rest) max_len =
    Some (int (1 + length (wire_string nm) + length (leb128 (length es)) + length es * length (leb128 (unat (hd es)))))"
proof -
  define ls ln l where "ls = length (wire_string nm)" and "ln = length (leb128 (length es))" and "l = length (leb128 (unat (hd es)))"
  define k where "k = length es * l"
  have fit: "1 + ls + ln + k \<le> unat max_len" and range: "1 + int ls + int ln + int k \<le> INT_MAX"
    using fit range by (simp_all add: ls_def ln_def l_def k_def)
  let ?data = "concat (map (\<lambda>e. leb128 (unat e)) es) @ rest"
  have ln5: "ln \<le> 5" unfolding ln_def using assms(2) by (intro length_leb128_31) simp
  have l5: "l \<le> 5" unfolding l_def by (rule length_leb128_u32)
  have w0: "walk_varint (1 # s) max_len = Some 1" "dec_varint (1 # s) = Some (1, s)" for s
    using walk_varint_leb [of 1 max_len s] dec_leb_len [of 1 s] fit by (simp_all add: leb128_small)
  define m0 where "m0 = max_len - 1"
  have m0: "unat m0 = unat max_len - 1" unfolding m0_def using unat_sub_len [of 1 max_len] fit by simp
  have w1: "walk_string (wire_string nm @ s) m0 = Some (int ls)" for s
    unfolding ls_def using assms(1) fit m0 range by (intro string.walk_wire) (simp_all add: ls_def)
  define m1 where "m1 = m0 - of_nat ls"
  have m1: "unat m1 = unat max_len - 1 - ls" unfolding m1_def using unat_sub_len [of ls m0] fit m0 by simp
  have w2: "walk_varint (leb128 (length es) @ s) m1 = Some (int ln)" for s
    using walk_varint_leb [of "length es" m1 s] fit m1 ln5 by (simp add: ln_def)
  define m2 where "m2 = m1 - of_nat ln"
  have m2: "unat m2 = unat max_len - 1 - ls - ln" unfolding m2_def using unat_sub_len [of ln m1] fit m1 by simp
  have "walk_varint ?data m = Some (int l)" if "l \<le> unat m" for m
    using assms(3) walk_varint_leb [of "unat (hd es)" m] that l5 by (cases es) (simp_all add: l_def)
  then have w3: "walk_entries (length es) ?data m2 (1 + int ls + int ln) =
    Some (Inr (m2 - of_nat k, 1 + int ls + int ln + int k))"
    unfolding k_def by (intro walk_entries_same) (use fit m2 range in \<open>simp_all add: k_def\<close>)
  have i: "iadd 1 (int ls) = Some (1 + int ls)" "iadd (1 + int ls) (int ln) = Some (1 + int ls + int ln)"
    using range by (simp_all add: iadd_def INT_MIN_def)
  have "size_of_int 1 = 1" "max_len \<noteq> 0" using fit by (auto simp: size_of_int_def)
  moreover have "adv ls (wire_string nm @ s) = Some s" for s by (simp add: ls_def)
  moreover have "dec_varint (leb128 (length es) @ s) = Some (of_nat (length es), s)" for s
    using assms(2) by (intro dec_leb_len) simp
  ultimately show ?thesis unfolding ls_def [symmetric] ln_def [symmetric] l_def [symmetric] k_def [symmetric]
    using assms(2)
    by (simp add: walk_itemtag_array_def wire_itemtag_array_def wire_itemtag_def leb128_small w0 w1 w2 w3 i
        m0_def [symmetric] m1_def [symmetric] m2_def [symmetric] len_u32 Let_def)
qed

theorem walk_itemtag_first_entry_witness:
  "walk_itemtag_array (wire_itemtag_array [([0x61], [1, 300])] @ [5, 5]) 9 =
    Some (int (1 + length (wire_string [0x61]) + length (leb128 (length [1 :: u32, 300])) +
      length [1 :: u32, 300] * length (leb128 (unat (hd [1 :: u32, 300])))))"
  by (rule walk_itemtag_first_entry) (simp_all add: wf_string_def wire_string_def leb128_small INT_MAX_def)

end
