(* ===== verification/NbtQuery.thy ===== *)
theory NbtQuery
  imports NbtParse
begin

text \<open>
  Read-only operations on NBT trees: traversal, search, size and comparison
  (\<^verbatim>\<open>src/cNBT/nbt_treeops.c\<close>, lines 195--221 and 372--528; \<^verbatim>\<open>src/cNBT/nbt_util.c\<close>). A visitor or predicate is a
  function that may change the data \<^verbatim>\<open>aux\<close> points to but not the tree: it takes a node and the data and
  returns its answer and the new data. A \<^verbatim>\<open>nbt_node *\<close> that may be NULL is an option. The reference for every
  traversal is the list of the nodes of the tree in preorder (\<open>nodes\<close>).
\<close>

section \<open>The nodes of a tree\<close>

definition children :: "nbt_payload \<Rightarrow> nbt_node list" where
  "children p = (case p of tag_list _ ns \<Rightarrow> ns | tag_compound ns \<Rightarrow> ns | _ \<Rightarrow> [])"

definition is_container :: "nbt_payload \<Rightarrow> bool" where
  "is_container p \<longleftrightarrow> payload_type p = TAG_LIST \<or> payload_type p = TAG_COMPOUND"

lemma children_simps [simp]:
  "children (tag_list st ns) = ns" "children (tag_compound ns) = ns"
  by (simp_all add: children_def)

lemma is_container_simps [simp]:
  "is_container (tag_list st ns)" "is_container (tag_compound ns)"
  by (simp_all add: is_container_def)

lemma leaf_children: "\<not> is_container p \<Longrightarrow> children p = []"
  by (cases p) (simp_all add: children_def is_container_def)

lemma size_children [termination_simp]: "n \<in> set (children p) \<Longrightarrow> size n < size p"
  by (cases p) (auto simp: children_def less_Suc_eq_le dest: size_list_estimation' [OF _ order_refl])

lemma size_list_children [termination_simp]: "size_list size (children p) \<le> size p"
  by (cases p) (simp_all add: children_def)

fun nodes :: "nbt_node \<Rightarrow> nbt_node list"
  and nodes_all :: "nbt_node list \<Rightarrow> nbt_node list"
where
  "nodes (nbt_node nm p) = nbt_node nm p # nodes_all (children p)"
| "nodes_all [] = []"
| "nodes_all (n # ns) = nodes n @ nodes_all ns"

section \<open>Traversal\<close>

type_synonym 'a visitor = "nbt_node \<Rightarrow> 'a \<Rightarrow> bool \<times> 'a"

fun map_node :: "'a visitor \<Rightarrow> nbt_node \<Rightarrow> 'a \<Rightarrow> bool \<times> 'a"
  and map_list :: "'a visitor \<Rightarrow> nbt_node list \<Rightarrow> 'a \<Rightarrow> bool \<times> 'a"
where
  "map_node v (nbt_node nm p) aux =
     (case v (nbt_node nm p) aux of
        (False, aux) \<Rightarrow> (False, aux)
      | (True, aux) \<Rightarrow> if is_container p then map_list v (children p) aux else (True, aux))"
| "map_list v [] aux = (True, aux)"
| "map_list v (n # ns) aux =
     (case map_node v n aux of (False, aux) \<Rightarrow> (False, aux) | (True, aux) \<Rightarrow> map_list v ns aux)"

definition nbt_map :: "nbt_node option \<Rightarrow> 'a visitor \<Rightarrow> 'a \<Rightarrow> bool \<times> 'a" where
  "nbt_map tree v aux = (case tree of None \<Rightarrow> (True, aux) | Some t \<Rightarrow> map_node v t aux)"

fun find_node :: "'a visitor \<Rightarrow> nbt_node \<Rightarrow> 'a \<Rightarrow> nbt_node option \<times> 'a"
  and find_list :: "'a visitor \<Rightarrow> nbt_node list \<Rightarrow> 'a \<Rightarrow> nbt_node option \<times> 'a"
where
  "find_node v (nbt_node nm p) aux =
     (case v (nbt_node nm p) aux of
        (True, aux) \<Rightarrow> (Some (nbt_node nm p), aux)
      | (False, aux) \<Rightarrow> if is_container p then find_list v (children p) aux else (None, aux))"
| "find_list v [] aux = (None, aux)"
| "find_list v (n # ns) aux =
     (case find_node v n aux of (Some t, aux) \<Rightarrow> (Some t, aux) | (None, aux) \<Rightarrow> find_list v ns aux)"

definition nbt_find :: "nbt_node option \<Rightarrow> 'a visitor \<Rightarrow> 'a \<Rightarrow> nbt_node option \<times> 'a" where
  "nbt_find tree v aux = (case tree of None \<Rightarrow> (None, aux) | Some t \<Rightarrow> find_node v t aux)"

text \<open>The number of nodes, a \<^verbatim>\<open>size_t\<close>; \<^verbatim>\<open>nbt_full_list_length\<close> is the sum over the children.\<close>

fun size_node :: "nbt_node \<Rightarrow> u64"
  and nbt_full_list_length :: "u64 \<Rightarrow> nbt_node list \<Rightarrow> u64"
where
  "size_node (nbt_node nm p) =
     (if is_container p then nbt_full_list_length 0 (children p) + 1 else 1)"
| "nbt_full_list_length accum [] = accum"
| "nbt_full_list_length accum (n # ns) = nbt_full_list_length (accum + size_node n) ns"

definition nbt_size :: "nbt_node option \<Rightarrow> u64" where
  "nbt_size tree = (case tree of None \<Rightarrow> 0 | Some t \<Rightarrow> size_node t)"

text \<open>\<^verbatim>\<open>nbt_list_item\<close>: the counter \<open>i\<close> is an \<^verbatim>\<open>int\<close> and is incremented at every element.\<close>

fun list_item_loop :: "int \<Rightarrow> int \<Rightarrow> nbt_node list \<Rightarrow> nbt_node option option" where
  "list_item_loop i n [] = Some None"
| "list_item_loop i n (m # ns) =
     do { i' \<leftarrow> iadd i 1; if i = n then Some (Some m) else list_item_loop i' n ns }"

definition nbt_list_item :: "nbt_node option \<Rightarrow> int \<Rightarrow> nbt_node option option" where
  "nbt_list_item tree n =
     (case tree of
        None \<Rightarrow> Some None
      | Some t \<Rightarrow> if \<not> is_container (payload t) then Some None
                  else list_item_loop 0 n (children (payload t)))"

section \<open>C strings\<close>

text \<open>\<^verbatim>\<open>s[i]\<close> of a string whose block ends with its terminator; \<^verbatim>\<open>strncmp\<close> and \<^verbatim>\<open>strcmp\<close>, which stop at the first
  difference or terminator.\<close>

definition char_at :: "cstr \<Rightarrow> nat \<Rightarrow> byte option" where
  "char_at s i = (if i < length s then Some (s ! i) else if i = length s then Some 0 else None)"

fun first_char :: "cstr \<Rightarrow> byte" where
  "first_char [] = 0"
| "first_char (c # _) = c"

fun strncmp :: "cstr \<Rightarrow> cstr \<Rightarrow> nat \<Rightarrow> int" where
  "strncmp a b 0 = 0"
| "strncmp a b (Suc n) =
     (let x = first_char a; y = first_char b in
      if x \<noteq> y then uint x - uint y else if x = 0 then 0 else strncmp (tl a) (tl b) n)"

definition strcmp :: "cstr \<Rightarrow> cstr \<Rightarrow> int" where
  "strcmp a b = strncmp a b (Suc (max (length a) (length b)))"

text \<open>\<^verbatim>\<open>names_are_equal\<close>, \<^verbatim>\<open>index_of\<close> and \<^verbatim>\<open>partial_strcmp\<close>.\<close>

definition names_are_equal :: "cstr option \<Rightarrow> nbt_node \<Rightarrow> bool" where
  "names_are_equal vname node =
     (case (vname, name node) of
        (None, None) \<Rightarrow> True
      | (Some n, Some m) \<Rightarrow> strcmp m n = 0
      | _ \<Rightarrow> False)"

definition nbt_find_by_name :: "nbt_node option \<Rightarrow> cstr option \<Rightarrow> nbt_node option" where
  "nbt_find_by_name tree vname = fst (nbt_find tree (\<lambda>node aux. (names_are_equal aux node, aux)) vname)"

fun index_of :: "cstr \<Rightarrow> byte \<Rightarrow> nat" where
  "index_of [] c = 0"
| "index_of (b # s) c = (if b = 0 then 0 else if b = c then 0 else Suc (index_of s c))"

definition partial_strcmp :: "cstr \<Rightarrow> nat \<Rightarrow> cstr option \<Rightarrow> int option" where
  "partial_strcmp s1 n s2 =
     (case s2 of
        None \<Rightarrow> Some (if n \<noteq> 0 then 1 else 0)
      | Some s2 \<Rightarrow>
          let r = strncmp s1 s2 n in
          if r \<noteq> 0 then Some r else do { c \<leftarrow> char_at s2 n; Some (if c \<noteq> 0 then 1 else 0) })"

definition dot :: byte where "dot = 46"

fun path_node :: "cstr \<Rightarrow> nbt_node \<Rightarrow> nbt_node option option"
  and path_list :: "cstr \<Rightarrow> nbt_node list \<Rightarrow> nbt_node option option"
where
  "path_node path (nbt_node nm p) =
     (let e = index_of path dot in
      do { r \<leftarrow> partial_strcmp path e nm;
           if r \<noteq> 0 then Some None
           else do { c \<leftarrow> char_at path e;
                     if c = 0 then Some (Some (nbt_node nm p))
                     else if \<not> is_container p then Some None
                     else path_list (drop (e + 1) path) (children p) } })"
| "path_list path [] = Some None"
| "path_list path (n # ns) =
     do { r \<leftarrow> path_node path n; case r of Some t \<Rightarrow> Some (Some t) | None \<Rightarrow> path_list path ns }"

text \<open>\<^verbatim>\<open>assert(tree); assert(path);\<close>\<close>

definition nbt_find_by_path :: "nbt_node option \<Rightarrow> cstr option \<Rightarrow> nbt_node option option" where
  "nbt_find_by_path tree path = do { t \<leftarrow> tree; p \<leftarrow> path; path_node p t }"

section \<open>Comparison\<close>

text \<open>
  The arithmetic of the C type \<^verbatim>\<open>double\<close> that \<^verbatim>\<open>floats_are_close\<close> uses (comparison, addition, conversion from
  \<^verbatim>\<open>float\<close>) belongs to the machine: it is an argument. A \<^verbatim>\<open>double\<close> is its 64 bits.
\<close>

record double_ops =
  dlt :: "u64 \<Rightarrow> u64 \<Rightarrow> bool"
  dge :: "u64 \<Rightarrow> u64 \<Rightarrow> bool"
  dadd :: "u64 \<Rightarrow> u64 \<Rightarrow> u64"
  dbl :: "u32 \<Rightarrow> u64"

text \<open>\<^verbatim>\<open>0.000001\<close>, and the macros \<^verbatim>\<open>min(a, b)\<close> and \<^verbatim>\<open>max(a, b)\<close>.\<close>

definition epsilon :: u64 where "epsilon = 0x3EB0C6F7A0B5ED8D"

definition floats_are_close :: "double_ops \<Rightarrow> u64 \<Rightarrow> u64 \<Rightarrow> bool" where
  "floats_are_close D a b =
     dge D (dadd D (if dlt D a b then a else b) epsilon) (if dlt D b a then a else b)"

definition safe_strcmp :: "cstr option \<Rightarrow> cstr option \<Rightarrow> int" where
  "safe_strcmp a b =
     (case a of
        None \<Rightarrow> (if b \<noteq> None then 1 else 0)
      | Some a \<Rightarrow> (case b of None \<Rightarrow> 1 | Some b \<Rightarrow> strcmp a b))"

text \<open>The memory image of an array of integers.\<close>

definition int_bytes :: "u32 list \<Rightarrow> byte list" where
  "int_bytes ws = concat (map mem_of ws)"

fun eq_node :: "double_ops \<Rightarrow> nbt_node \<Rightarrow> nbt_node \<Rightarrow> bool option"
  and eq_list :: "double_ops \<Rightarrow> nbt_node list \<Rightarrow> nbt_node list \<Rightarrow> bool option"
where
  "eq_node D (nbt_node an ap) (nbt_node bn bp) =
     (if payload_type ap \<noteq> payload_type bp then Some False
      else if safe_strcmp an bn \<noteq> 0 then Some False
      else if is_container ap then eq_list D (children ap) (children bp)
      else (case (ap, bp) of
          (tag_byte a, tag_byte b) \<Rightarrow> Some (a = b)
        | (tag_short a, tag_short b) \<Rightarrow> Some (a = b)
        | (tag_int a, tag_int b) \<Rightarrow> Some (a = b)
        | (tag_long a, tag_long b) \<Rightarrow> Some (a = b)
        | (tag_float a, tag_float b) \<Rightarrow> Some (floats_are_close D (dbl D a) (dbl D b))
        | (tag_double a, tag_double b) \<Rightarrow> Some (floats_are_close D a b)
        | (tag_byte_array a n, tag_byte_array b m) \<Rightarrow>
            if n \<noteq> m then Some False
            else do { c \<leftarrow> memcmp a b (unat (scast n :: u64)); Some (c = 0) }
        | (tag_int_array a n, tag_int_array b m) \<Rightarrow>
            if n \<noteq> m then Some False
            else do { c \<leftarrow> memcmp (map_option int_bytes a) (map_option int_bytes b) (unat (scast n :: u64));
                      Some (c = 0) }
        | (tag_string a, tag_string b) \<Rightarrow> do { a \<leftarrow> a; b \<leftarrow> b; Some (strcmp a b = 0) }
        | _ \<Rightarrow> Some False))"
| "eq_list D [] [] = Some True"
| "eq_list D (a # as) (b # bs) =
     do { r \<leftarrow> eq_node D a b; if \<not> r then Some False else eq_list D as bs }"
| "eq_list D [] (b # bs) = Some False"
| "eq_list D (a # as) [] = Some False"

definition nbt_eq :: "double_ops \<Rightarrow> nbt_node \<Rightarrow> nbt_node \<Rightarrow> bool option" where
  "nbt_eq D a b = eq_node D a b"

definition nbt_type_to_string :: "nbt_type \<Rightarrow> string" where
  "nbt_type_to_string t =
     (case t of
        TAG_INVALID \<Rightarrow> ''TAG_END''
      | TAG_BYTE \<Rightarrow> ''TAG_BYTE''
      | TAG_SHORT \<Rightarrow> ''TAG_SHORT''
      | TAG_INT \<Rightarrow> ''TAG_INT''
      | TAG_LONG \<Rightarrow> ''TAG_LONG''
      | TAG_FLOAT \<Rightarrow> ''TAG_FLOAT''
      | TAG_DOUBLE \<Rightarrow> ''TAG_DOUBLE''
      | TAG_BYTE_ARRAY \<Rightarrow> ''TAG_BYTE_ARRAY''
      | TAG_STRING \<Rightarrow> ''TAG_STRING''
      | TAG_LIST \<Rightarrow> ''TAG_LIST''
      | TAG_COMPOUND \<Rightarrow> ''TAG_COMPOUND''
      | TAG_INT_ARRAY \<Rightarrow> ''TAG_INT_ARRAY''
      | _ \<Rightarrow> ''TAG_UNKNOWN'')"

definition nbt_error_to_string :: "nbt_status \<Rightarrow> string" where
  "nbt_error_to_string s =
     (case s of
        NBT_OK \<Rightarrow> ''No error.''
      | NBT_ERR \<Rightarrow> ''NBT tree is corrupt.''
      | NBT_EMEM \<Rightarrow> ''Out of memory. You should buy some RAM.''
      | NBT_EIO \<Rightarrow> ''IO Error. Nonexistant/corrupt file?''
      | NBT_EZ \<Rightarrow> ''Fatal zlib error. Corrupt file?'')"

section \<open>Traversals follow the preorder\<close>

text \<open>Reference: run a visitor over a list of nodes until it says stop; take the first node a predicate
  accepts. Both thread the data.\<close>

primrec visit :: "'a visitor \<Rightarrow> nbt_node list \<Rightarrow> 'a \<Rightarrow> bool \<times> 'a" where
  "visit v [] aux = (True, aux)"
| "visit v (n # ns) aux = (case v n aux of (False, aux) \<Rightarrow> (False, aux) | (True, aux) \<Rightarrow> visit v ns aux)"

primrec first_match :: "'a visitor \<Rightarrow> nbt_node list \<Rightarrow> 'a \<Rightarrow> nbt_node option \<times> 'a" where
  "first_match v [] aux = (None, aux)"
| "first_match v (n # ns) aux =
     (case v n aux of (True, aux) \<Rightarrow> (Some n, aux) | (False, aux) \<Rightarrow> first_match v ns aux)"

lemma visit_append:
  "visit v (ms @ ns) aux = (case visit v ms aux of (False, aux) \<Rightarrow> (False, aux) | (True, aux) \<Rightarrow> visit v ns aux)"
  by (induction ms arbitrary: aux) (simp_all split: prod.splits bool.splits)

lemma first_match_append:
  "first_match v (ms @ ns) aux =
     (case first_match v ms aux of (Some t, aux) \<Rightarrow> (Some t, aux) | (None, aux) \<Rightarrow> first_match v ns aux)"
  by (induction ms arbitrary: aux) (simp_all split: prod.splits bool.splits)

lemma map_node_visit: "map_node v t aux = visit v (nodes t) aux"
  and map_list_visit: "map_list v ns aux = visit v (nodes_all ns) aux"
  by (induction v t aux and v ns aux rule: map_node_map_list.induct)
    (auto simp: visit_append leaf_children split: prod.splits bool.splits)

lemma find_node_first: "find_node v t aux = first_match v (nodes t) aux"
  and find_list_first: "find_list v ns aux = first_match v (nodes_all ns) aux"
  by (induction v t aux and v ns aux rule: find_node_find_list.induct)
    (auto simp: first_match_append leaf_children split: prod.splits bool.splits option.splits)

lemma first_match_find: "first_match (\<lambda>n a. (P n, a)) ns aux = (find P ns, aux)"
  by (induction ns) (simp_all split: bool.splits)

lemma size_node_nodes: "size_node t = of_nat (length (nodes t))"
  and full_length_nodes: "nbt_full_list_length accum ns = accum + of_nat (length (nodes_all ns))"
  by (induction t and accum ns rule: size_node_nbt_full_list_length.induct) (auto simp: leaf_children)

lemma list_item_loop_nth:
  "0 \<le> i \<Longrightarrow> i + int (length ns) \<le> INT_MAX \<Longrightarrow>
     list_item_loop i n ns = Some (if i \<le> n \<and> n < i + int (length ns) then Some (ns ! nat (n - i)) else None)"
proof (induction i n ns rule: list_item_loop.induct)
  case (2 i n m ns)
  have "nat (n - i) = Suc (nat (n - (i + 1)))" if "i < n" using that by simp
  with 2 show ?case by (auto simp: INT_MIN_def)
qed simp

text \<open>\<^verbatim>\<open>nbt_map\<close> shows the visitor exactly the nodes of the tree in preorder until it says stop, and
  \<^verbatim>\<open>nbt_find\<close> returns the first node in that order that the predicate accepts (both with the data threaded);
  \<^verbatim>\<open>nbt_size\<close> is the number of these nodes.\<close>

theorem nbt_traversal_preorder:
  "nbt_map (Some t) v aux = visit v (nodes t) aux \<and>
   nbt_find (Some t) v aux = first_match v (nodes t) aux \<and>
   fst (nbt_find (Some t) (\<lambda>n a. (P n, a)) aux) = find P (nodes t) \<and>
   nbt_size (Some t) = of_nat (length (nodes t))"
  by (simp add: nbt_map_def nbt_find_def nbt_size_def map_node_visit find_node_first first_match_find
      size_node_nodes)

section \<open>Search by path\<close>

lemma strncmp_self_prefix: "0 \<notin> set a \<Longrightarrow> strncmp (a @ x) (a @ y) (length a) = 0"
  by (induction a) (simp_all add: Let_def)

lemma uint_inj [simp]: "uint (x :: byte) = uint y \<longleftrightarrow> x = y" "uint (x :: byte) = 0 \<longleftrightarrow> x = 0"
  by (simp_all add: word_uint_eq_iff)

text \<open>With no terminator among the first \<open>n\<close> characters of \<open>a\<close>, equality means equal prefixes.\<close>

lemma strncmp_0_iff:
  "n \<le> length a \<Longrightarrow> 0 \<notin> set (take n a) \<Longrightarrow>
     strncmp a b n = 0 \<longleftrightarrow> n \<le> length b \<and> take n b = take n a"
proof (induction n arbitrary: a b)
  case (Suc n)
  then obtain x a' where a: "a = x # a'" by (cases a) auto
  with Suc show ?case by (cases b) (auto simp: Let_def)
qed simp

lemma index_of_le: "index_of s c \<le> length s"
  by (induction s) auto

lemma index_of_prefix: "c \<noteq> 0 \<Longrightarrow> take (index_of s c) s = takeWhile (\<lambda>b. b \<noteq> c) (cstr_of s)"
  by (induction s) (auto simp: cstr_of_def)

lemma cstr_of_index:
  "strlen s = index_of s 0"
  by (induction s) (auto simp: strlen_def cstr_of_def)

text \<open>The pieces of a path between its dots, up to the terminator.\<close>

fun split_dot :: "cstr \<Rightarrow> cstr \<Rightarrow> cstr list" where
  "split_dot piece [] = [piece]"
| "split_dot piece (c # s) =
     (if c = 0 then [piece] else if c = dot then piece # split_dot [] s else split_dot (piece @ [c]) s)"

text \<open>Reference: follow the pieces from the root; among several children the first that leads to a node
  is taken. A missing name counts as the empty one.\<close>

definition node_name :: "nbt_node \<Rightarrow> cstr" where
  "node_name t = (case name t of None \<Rightarrow> [] | Some n \<Rightarrow> cstr_of n)"

fun first_some :: "('a \<Rightarrow> 'b option) \<Rightarrow> 'a list \<Rightarrow> 'b option" where
  "first_some f [] = None"
| "first_some f (x # xs) = (case f x of None \<Rightarrow> first_some f xs | Some y \<Rightarrow> Some y)"

fun locate :: "cstr list \<Rightarrow> nbt_node \<Rightarrow> nbt_node option" where
  "locate [] t = None"
| "locate [c] t = (if node_name t = c then Some t else None)"
| "locate (c # cs) t =
     (if node_name t = c then first_some (locate cs) (children (payload t)) else None)"

lemma split_dot_unfold:
  "split_dot piece s =
     (let e = index_of s dot in
      (piece @ take e s) # (if e < length s \<and> s ! e = dot then split_dot [] (drop (e + 1) s) else []))"
proof (induction s arbitrary: piece)
  case (Cons c s)
  have "dot \<noteq> 0" by (simp add: dot_def)
  with Cons [of "piece @ [c]"] show ?case by (auto simp: Let_def)
qed simp

lemma index_of_stop: "index_of s dot < length s \<Longrightarrow> s ! index_of s dot \<noteq> dot \<Longrightarrow> s ! index_of s dot = 0"
  by (induction s) (auto split: if_splits)

lemma take_index_no_nul: "0 \<notin> set (take (index_of s c) s)"
  by (induction s) auto

lemma cstr_of_take:
  assumes "take n s = p" and "0 \<notin> set p" and "n \<le> length s"
  shows "cstr_of s = p \<longleftrightarrow> char_at s n = Some 0"
proof -
  have s: "s = p @ drop n s" using assms(1) by (metis append_take_drop_id)
  have len: "length p = n" using assms(1,3) by auto
  have "cstr_of s = p @ cstr_of (drop n s)"
  proof -
    have "\<forall>c \<in> set p. c \<noteq> 0" using assms(2) by auto
    then have "takeWhile (\<lambda>c. c \<noteq> 0) (p @ drop n s) = p @ takeWhile (\<lambda>c. c \<noteq> 0) (drop n s)"
      by (simp add: takeWhile_append)
    with s show ?thesis by (simp add: cstr_of_def)
  qed
  moreover have "cstr_of (drop n s) = [] \<longleftrightarrow> char_at s n = Some 0"
    using assms(3) by (auto simp: cstr_of_def char_at_def takeWhile_eq_Nil_iff hd_drop_conv_nth)
  ultimately show ?thesis by simp
qed

lemma partial_strcmp_name:
  assumes "n \<le> length path" and "0 \<notin> set (take n path)"
  shows "\<exists>r. partial_strcmp path n nm = Some r \<and> (r = 0 \<longleftrightarrow> node_name (nbt_node nm p) = take n path)"
proof (cases nm)
  case None
  then show ?thesis using assms by (auto simp: partial_strcmp_def node_name_def)
next
  case (Some s)
  show ?thesis
  proof (cases "strncmp path s n = 0")
    case True
    then have s: "n \<le> length s" "take n s = take n path" using strncmp_0_iff [OF assms] by auto
    then have "cstr_of s = take n path \<longleftrightarrow> char_at s n = Some 0" using assms(2) by (intro cstr_of_take) auto
    with True s(1) Some show ?thesis by (auto simp: partial_strcmp_def node_name_def char_at_def)
  next
    case False
    have "cstr_of s \<noteq> take n path"
    proof
      assume eq: "cstr_of s = take n path"
      have "take (length (cstr_of s)) s = cstr_of s" by (simp add: cstr_of_def takeWhile_eq_take [symmetric])
      moreover have "length (cstr_of s) \<le> length s" by (simp add: cstr_of_def length_takeWhile_le)
      ultimately have "n \<le> length s \<and> take n s = take n path" using eq assms(1) by auto
      with False strncmp_0_iff [OF assms] show False by blast
    qed
    with False Some show ?thesis by (auto simp: partial_strcmp_def node_name_def Let_def)
  qed
qed

lemma locate_pieces:
  "locate (split_dot [] path) t =
     (let e = index_of path dot in
      if node_name t \<noteq> take e path then None
      else if char_at path e = Some dot
        then first_some (locate (split_dot [] (drop (e + 1) path))) (children (payload t))
      else Some t)"
proof -
  let ?e = "index_of path dot" and ?rest = "split_dot [] (drop (index_of path dot + 1) path)"
  have dot: "dot \<noteq> 0" by (simp add: dot_def)
  have "?rest \<noteq> []" using split_dot_unfold [of "[]" "drop (?e + 1) path"] by (simp add: Let_def)
  then obtain c cs where rest: "?rest = c # cs" by (cases ?rest) auto
  show ?thesis
  proof (cases "?e < length path \<and> path ! ?e = dot")
    case True
    then show ?thesis using rest by (subst split_dot_unfold) (simp add: Let_def char_at_def)
  next
    case False
    then have "char_at path ?e \<noteq> Some dot" using dot by (auto simp: char_at_def)
    then show ?thesis using False by (subst split_dot_unfold) (auto simp: Let_def)
  qed
qed

lemma path_node_locate: "path_node path t = Some (locate (split_dot [] path) t)"
  and path_list_locate: "path_list path ns = Some (first_some (locate (split_dot [] path)) ns)"
proof (induction path t and path ns rule: path_node_path_list.induct)
  case (1 path nm p)
  let ?e = "index_of path dot"
  have dot: "dot \<noteq> 0" by (simp add: dot_def)
  obtain r where r: "partial_strcmp path ?e nm = Some r"
    "r = 0 \<longleftrightarrow> node_name (nbt_node nm p) = take ?e path"
    using partial_strcmp_name [OF index_of_le take_index_no_nul] by blast
  obtain c where c: "char_at path ?e = Some c" "c = 0 \<or> c = dot"
    using index_of_le [of path dot] index_of_stop [of path]
    by (cases "?e < length path") (auto simp: char_at_def)
  show ?case
  proof (cases "r = 0 \<and> c = dot \<and> is_container p")
    case True
    with 1 [OF refl r(1) _ c(1)] r c dot show ?thesis
      by (simp add: locate_pieces [of path "nbt_node nm p"] Let_def)
  next
    case False
    then show ?thesis using r c dot
      by (auto simp: locate_pieces [of path "nbt_node nm p"] Let_def leaf_children)
  qed
qed (auto split: option.splits)

text \<open>C20. \<^verbatim>\<open>nbt_find_by_path\<close> never reads outside its strings and finds exactly what following the dotted pieces
  from the root finds, the first of several candidates.\<close>

theorem nbt_find_by_path_correct:
  "nbt_find_by_path (Some t) (Some path) = Some (locate (split_dot [] path) t)"
  by (simp add: nbt_find_by_path_def path_node_locate)

section \<open>Equality\<close>

text \<open>The tree without the element types its list sentinels carry, which the comparison ignores.\<close>

fun erase :: "nbt_node \<Rightarrow> nbt_node" where
  "erase (nbt_node nm p) =
     nbt_node nm
       (case p of
          tag_list _ _ \<Rightarrow> tag_list None (map erase (children p))
        | tag_compound _ \<Rightarrow> tag_compound (map erase (children p))
        | _ \<Rightarrow> p)"

text \<open>Trees on which the comparison is exact: no floating-point numbers, no integer or long arrays, and
  strings without NUL bytes.\<close>

fun exact :: "nbt_node \<Rightarrow> bool" where
  "exact (nbt_node nm p) =
     ((case nm of None \<Rightarrow> True | Some n \<Rightarrow> 0 \<notin> set n) \<and>
      (case p of
         tag_byte_array d n \<Rightarrow> wf_array d n
       | tag_string s \<Rightarrow> (case s of None \<Rightarrow> False | Some s \<Rightarrow> 0 \<notin> set s)
       | tag_float _ \<Rightarrow> False | tag_double _ \<Rightarrow> False | tag_int_array _ _ \<Rightarrow> False
       | tag_long_array _ _ \<Rightarrow> False | tag_end \<Rightarrow> False | tag_unknown _ \<Rightarrow> False
       | _ \<Rightarrow> True) \<and>
      (\<forall>c \<in> set (children p). exact c))"

lemma strncmp_cstr:
  "length a < n \<Longrightarrow> length b < n \<Longrightarrow> strncmp a b n = 0 \<longleftrightarrow> cstr_of a = cstr_of b"
proof (induction n arbitrary: a b)
  case (Suc n)
  show ?case
  proof (cases "first_char a = first_char b \<and> first_char a \<noteq> 0")
    case True
    then obtain x a' b' where "a = x # a'" "b = x # b'" "x \<noteq> 0" by (cases a; cases b) auto
    with Suc show ?thesis by (simp add: Let_def cstr_of_def)
  next
    case False
    then show ?thesis by (cases a; cases b) (auto simp: Let_def cstr_of_def)
  qed
qed simp

lemma strcmp_0_iff [simp]: "strcmp a b = 0 \<longleftrightarrow> cstr_of a = cstr_of b"
  unfolding strcmp_def by (rule strncmp_cstr) auto

lemma cstr_of_id: "0 \<notin> set s \<Longrightarrow> cstr_of s = s"
  by (auto simp: cstr_of_def)

lemma safe_strcmp_0_iff: "safe_strcmp a b = 0 \<longleftrightarrow> map_option cstr_of a = map_option cstr_of b"
  by (auto simp: safe_strcmp_def split: option.splits)

lemma wf_array_len: "wf_array d n \<Longrightarrow> \<exists>xs. d = Some xs \<and> length xs = unat (scast n :: u64)"
  by (auto simp: wf_array_def scast_len unat_of_nat64 split: option.splits)

lemma memcmp_wf:
  "wf_array a n \<Longrightarrow> wf_array b n \<Longrightarrow>
     do { c \<leftarrow> memcmp a b (unat (scast n :: u64)); Some (c = 0) } = Some (a = b)"
  by (auto simp: memcmp_def bytes_cmp_0_iff dest!: wf_array_len)

lemma name_cstr: "(case nm of None \<Rightarrow> True | Some n \<Rightarrow> 0 \<notin> set n) \<Longrightarrow> map_option cstr_of nm = nm"
  by (auto simp: cstr_of_id split: option.splits)

lemma eq_node_erase:
  "exact a \<Longrightarrow> exact b \<Longrightarrow> eq_node D a b = Some (erase a = erase b)"
  and eq_list_erase:
  "\<forall>a \<in> set as. exact a \<Longrightarrow> \<forall>b \<in> set bs. exact b \<Longrightarrow> eq_list D as bs = Some (map erase as = map erase bs)"
proof (induction D a b and D as bs rule: eq_node_eq_list.induct)
  case (1 D an ap bn bp)
  have names: "safe_strcmp an bn = 0 \<longleftrightarrow> an = bn"
    using "1.prems" by (simp add: safe_strcmp_0_iff name_cstr)
  show ?case
  proof (cases "payload_type ap = payload_type bp \<and> an = bn")
    case False
    then show ?thesis using names by (cases ap; cases bp) auto
  next
    case True
    show ?thesis
    proof (cases "is_container ap")
      case container: True
      with True names 1 show ?thesis by (cases ap; cases bp) (auto simp: is_container_def)
    next
      case False
      with True names "1.prems" show ?thesis
        by (cases ap; cases bp)
          (auto simp: is_container_def cstr_of_id memcmp_wf split: option.splits)
    qed
  qed
qed auto

text \<open>C34. On trees without floating-point numbers and integer arrays \<^verbatim>\<open>nbt_eq\<close> is defined and decides
  equality of the trees up to the element types the list sentinels carry.\<close>

theorem nbt_eq_iff:
  assumes "exact a" and "exact b"
  shows "nbt_eq D a b = Some (erase a = erase b)"
  unfolding nbt_eq_def by (rule eq_node_erase [OF assms])

definition int_doubles :: double_ops where
  "int_doubles = \<lparr>dlt = (<), dge = (\<ge>), dadd = (+), dbl = ucast\<rparr>"

theorem nbt_eq_iff_witness:
  "nbt_eq int_doubles (nbt_node (Some [104]) (tag_list (Some TAG_BYTE) [nbt_node None (tag_byte 1)]))
     (nbt_node (Some [104]) (tag_list None [nbt_node None (tag_byte 1)])) = Some True"
  by (subst nbt_eq_iff) (simp_all add: children_def)

lemma length_int_bytes [simp]: "length (int_bytes ws) = 4 * length ws"
  unfolding int_bytes_def by (induction ws) simp_all

text \<open>For integer arrays \<^verbatim>\<open>nbt_eq\<close> passes the number of elements to \<^verbatim>\<open>memcmp\<close> as if it were a number of bytes:
  two arrays of \<open>n\<close> elements count as equal exactly if their first \<open>n\<close> bytes agree, a quarter of their
  contents.\<close>

theorem nbt_eq_int_array_prefix:
  assumes "wf_array (Some ws) n" and "wf_array (Some vs) n"
  shows "nbt_eq D (nbt_node nm (tag_int_array (Some ws) n)) (nbt_node nm (tag_int_array (Some vs) n)) =
    Some (take (length ws) (int_bytes ws) = take (length ws) (int_bytes vs))"
proof -
  have "length ws = unat (scast n :: u64)" "length vs = length ws"
    using assms [THEN wf_array_len] by auto
  then show ?thesis
    by (simp add: nbt_eq_def safe_strcmp_0_iff is_container_def memcmp_def bytes_cmp_0_iff)
qed

theorem nbt_eq_int_array_prefix_witness:
  "nbt_eq int_doubles (nbt_node None (tag_int_array (Some [7, 1, 2, 3]) 4))
     (nbt_node None (tag_int_array (Some [7, 9, 9, 9]) 4)) = Some True"
  by (subst nbt_eq_int_array_prefix) (simp_all add: wf_array_def int_bytes_def)

section \<open>Search by name and index\<close>

lemma nbt_find_by_name_first:
  "nbt_find_by_name (Some t) vname =
     find (\<lambda>n. map_option cstr_of (name n) = map_option cstr_of vname) (nodes t)"
proof -
  have "first_match (\<lambda>node aux. (names_are_equal aux node, aux)) ns vname =
    (find (\<lambda>n. map_option cstr_of (name n) = map_option cstr_of vname) ns, vname)" for ns
    by (induction ns) (auto simp: names_are_equal_def split: bool.splits option.splits)
  then show ?thesis by (simp add: nbt_find_by_name_def nbt_find_def find_node_first)
qed

lemma nbt_list_item_nth:
  assumes "is_container (payload t)" and "int (length (children (payload t))) \<le> INT_MAX"
  shows "nbt_list_item (Some t) n =
    Some (if 0 \<le> n \<and> n < int (length (children (payload t))) then Some (children (payload t) ! nat n) else None)"
  using assms list_item_loop_nth [of 0 "children (payload t)" n] by (simp add: nbt_list_item_def)

end
