(* ===== verification/NbtCopy.thy ===== *)
theory NbtCopy
  imports NbtQuery
begin

text \<open>
  Operations that allocate or release NBT trees: \<^verbatim>\<open>nbt_free\<close>, \<^verbatim>\<open>nbt_clone\<close>, \<^verbatim>\<open>nbt_filter\<close> and \<^verbatim>\<open>nbt_filter_inplace\<close>
  (\<^verbatim>\<open>src/cNBT/nbt_treeops.c\<close>, lines 17--370). The state has \<^verbatim>\<open>errno\<close>, the number of allocations attempted and the number
  of blocks that are allocated and not yet released (\<open>live\<close>). The heap answers an allocation
  (\<open>may i n\<close>: does the \<open>i\<close>-th request, of \<open>n\<close> bytes, succeed) and says what a fresh block contains
  (\<open>fresh i k\<close>: byte \<open>k\<close> of the \<open>i\<close>-th block), because not every byte is written. A failing \<^verbatim>\<open>malloc\<close> leaves
  \<^verbatim>\<open>errno\<close> alone, as ISO C has it.
\<close>

section \<open>The heap\<close>

record heap =
  may :: allocator
  fresh :: "nat \<Rightarrow> nat \<Rightarrow> byte"

record hstate =
  requests :: nat
  live :: int
  herrno :: nbt_status

definition malloc :: "heap \<Rightarrow> nat \<Rightarrow> hstate \<Rightarrow> nat option \<times> hstate" where
  "malloc h n s =
     (if may h (requests s) n
      then (Some (requests s), s\<lparr>requests := Suc (requests s), live := live s + 1\<rparr>)
      else (None, s\<lparr>requests := Suc (requests s)\<rparr>))"

definition free_ptr :: "'a option \<Rightarrow> hstate \<Rightarrow> hstate" where
  "free_ptr p s = (case p of None \<Rightarrow> s | Some _ \<Rightarrow> s\<lparr>live := live s - 1\<rparr>)"

text \<open>\<^verbatim>\<open>CHECKED_MALLOC(var, n, on_error)\<close> of this file: \<open>errno\<close> is set on failure.\<close>

definition checked_alloc :: "heap \<Rightarrow> nat \<Rightarrow> hstate \<Rightarrow> nat option \<times> hstate" where
  "checked_alloc h n s =
     (case malloc h n s of (Some i, s) \<Rightarrow> (Some i, s) | (None, s) \<Rightarrow> (None, s\<lparr>herrno := NBT_EMEM\<rparr>))"

definition nbt_strdup :: "heap \<Rightarrow> cstr \<Rightarrow> hstate \<Rightarrow> cstr option \<times> hstate" where
  "nbt_strdup h str s =
     (case malloc h (strlen str + 1) s of (None, s) \<Rightarrow> (None, s) | (Some _, s) \<Rightarrow> (Some (cstr_of str), s))"

definition safe_strdup :: "heap \<Rightarrow> cstr option \<Rightarrow> hstate \<Rightarrow> cstr option \<times> hstate" where
  "safe_strdup h str s = (case str of None \<Rightarrow> (None, s) | Some t \<Rightarrow> nbt_strdup h t s)"

section \<open>Release\<close>

text \<open>\<open>free_entries\<close> is the loop of \<^verbatim>\<open>nbt_free_list\<close>; the sentinel carries the element type in a node of its
  own, which exists for lists and not for compounds.\<close>

fun free_node :: "nbt_node \<Rightarrow> hstate \<Rightarrow> hstate"
  and free_entries :: "nbt_node list \<Rightarrow> hstate \<Rightarrow> hstate"
where
  "free_node (nbt_node nm p) s =
     (let s = (case p of
                 tag_list st _ \<Rightarrow> free_ptr (Some ()) (free_ptr st (free_entries (children p) s))
               | tag_compound _ \<Rightarrow> free_ptr (Some ()) (free_entries (children p) s)
               | tag_byte_array d _ \<Rightarrow> free_ptr d s
               | tag_int_array d _ \<Rightarrow> free_ptr d s
               | tag_string str \<Rightarrow> free_ptr str s
               | _ \<Rightarrow> s)
      in free_ptr (Some ()) (free_ptr nm s))"
| "free_entries [] s = s"
| "free_entries (n # ns) s = free_entries ns (free_ptr (Some ()) (free_node n s))"

definition nbt_free_list :: "nbt_type option \<Rightarrow> nbt_node list \<Rightarrow> hstate \<Rightarrow> hstate" where
  "nbt_free_list st ns s = free_ptr (Some ()) (free_ptr st (free_entries ns s))"

definition nbt_free :: "nbt_node option \<Rightarrow> hstate \<Rightarrow> hstate" where
  "nbt_free tree s = (case tree of None \<Rightarrow> s | Some t \<Rightarrow> free_node t s)"

section \<open>Copies of arrays\<close>

text \<open>
  The branches of \<^verbatim>\<open>nbt_clone\<close> and \<^verbatim>\<open>nbt_filter\<close> for arrays are the same code: allocate, \<^verbatim>\<open>memcpy\<close>, and the
  \<^verbatim>\<open>memcpy\<close> for integer arrays copies \<^verbatim>\<open>length\<close> bytes, not elements. \<open>block_copy h i src n m\<close> is the contents of the
  \<open>i\<close>-th block, of \<open>m\<close> bytes, after \<open>n\<close> bytes were copied into it.
\<close>

definition block_copy :: "heap \<Rightarrow> nat \<Rightarrow> byte list option \<Rightarrow> nat \<Rightarrow> nat \<Rightarrow> byte list option" where
  "block_copy h i src n m =
     do { src \<leftarrow> src;
          if n \<le> length src \<and> n \<le> m then Some (take n src @ map (fresh h i) [n..<m]) else None }"

definition copy_byte_array :: "heap \<Rightarrow> byte list option \<Rightarrow> u32 \<Rightarrow> hstate \<Rightarrow> (nbt_payload option \<times> hstate) option" where
  "copy_byte_array h d n s =
     (let k = unat (scast n :: u64) in
      case checked_alloc h k s of
        (None, s) \<Rightarrow> Some (None, s)
      | (Some i, s) \<Rightarrow> do { bs \<leftarrow> block_copy h i d k k; Some (Some (tag_byte_array (Some bs) n), s) })"

definition copy_int_array :: "heap \<Rightarrow> u32 list option \<Rightarrow> u32 \<Rightarrow> hstate \<Rightarrow> (nbt_payload option \<times> hstate) option" where
  "copy_int_array h d n s =
     (let k = unat (scast n :: u64); m = unat (scast n * 4 :: u64) in
      case checked_alloc h m s of
        (None, s) \<Rightarrow> Some (None, s)
      | (Some i, s) \<Rightarrow> do { bs \<leftarrow> block_copy h i (map_option int_bytes d) k m;
                            Some (Some (tag_int_array (Some (words_of bs)) n), s) })"

definition copy_string :: "heap \<Rightarrow> cstr option \<Rightarrow> hstate \<Rightarrow> (nbt_payload option \<times> hstate) option" where
  "copy_string h str s =
     do { t \<leftarrow> str;
          case nbt_strdup h t s of
            (None, s) \<Rightarrow> Some (None, s)
          | (Some t, s) \<Rightarrow> Some (Some (tag_string (Some t)), s) }"

text \<open>The error exit of \<^verbatim>\<open>nbt_clone\<close>: the copied name and the node are released.\<close>

definition drop_node :: "cstr option \<Rightarrow> hstate \<Rightarrow> hstate" where
  "drop_node nm s = free_ptr (Some ()) (free_ptr nm s)"

section \<open>Cloning\<close>

text \<open>\<^verbatim>\<open>clone_list\<close>, given its loop: the loop returns the new entries (\<open>Inr\<close>) or, when it jumps to the error
  exit, those made so far (\<open>Inl\<close>).\<close>

definition clone_list ::
  "heap \<Rightarrow> nbt_type option \<Rightarrow> (hstate \<Rightarrow> ((nbt_node list + nbt_node list) \<times> hstate) option) \<Rightarrow>
     hstate \<Rightarrow> (nbt_node list option \<times> hstate) option" where
  "clone_list h st loop s =
     (case checked_alloc h sizeof_nbt_list s of
        (None, s) \<Rightarrow> Some (None, s)
      | (Some _, s) \<Rightarrow>
          (case (case st of None \<Rightarrow> (Some 0, s) | Some _ \<Rightarrow> checked_alloc h sizeof_nbt_node s) of
             (None, s) \<Rightarrow> Some (None, nbt_free_list None [] s)
           | (Some _, s) \<Rightarrow>
               do { (r, s) \<leftarrow> loop s;
                    case r of Inl ns \<Rightarrow> Some (None, nbt_free_list st ns s) | Inr ns \<Rightarrow> Some (Some ns, s) }))"

fun clone_node :: "heap \<Rightarrow> nbt_node \<Rightarrow> hstate \<Rightarrow> (nbt_node option \<times> hstate) option"
  and clone_entries ::
    "heap \<Rightarrow> nbt_node list \<Rightarrow> nbt_node list \<Rightarrow> hstate \<Rightarrow> ((nbt_node list + nbt_node list) \<times> hstate) option"
where
  "clone_node h (nbt_node nm p) s =
     (if payload_type p = TAG_INVALID then None
      else case checked_alloc h sizeof_nbt_node s of
        (None, s) \<Rightarrow> Some (None, s)
      | (Some _, s) \<Rightarrow>
          (case safe_strdup h nm s of (nm', s) \<Rightarrow>
             if nm \<noteq> None \<and> nm' = None then Some (None, drop_node nm' s)
             else do {
               (q, s) \<leftarrow> (case p of
                   tag_string str \<Rightarrow> copy_string h str s
                 | tag_byte_array d n \<Rightarrow> copy_byte_array h d n s
                 | tag_int_array d n \<Rightarrow> copy_int_array h d n s
                 | tag_list st _ \<Rightarrow>
                     do { (r, s) \<leftarrow> clone_list h st (clone_entries h [] (children p)) s;
                          Some (map_option (tag_list st) r, s) }
                 | tag_compound _ \<Rightarrow>
                     do { (r, s) \<leftarrow> clone_list h None (clone_entries h [] (children p)) s;
                          Some (map_option tag_compound r, s) }
                 | _ \<Rightarrow> Some (Some p, s));
               (case q of None \<Rightarrow> Some (None, drop_node nm' s) | Some q \<Rightarrow> Some (Some (nbt_node nm' q), s)) }))"
| "clone_entries h acc [] s = Some (Inr acc, s)"
| "clone_entries h acc (n # ns) s =
     (case checked_alloc h sizeof_nbt_list s of
        (None, s) \<Rightarrow> Some (Inl acc, s)
      | (Some _, s) \<Rightarrow>
          do { (r, s) \<leftarrow> clone_node h n s;
               case r of
                 None \<Rightarrow> Some (Inl acc, free_ptr (Some ()) s)
               | Some m \<Rightarrow> clone_entries h (acc @ [m]) ns s })"

definition nbt_clone :: "heap \<Rightarrow> nbt_node option \<Rightarrow> hstate \<Rightarrow> (nbt_node option \<times> hstate) option" where
  "nbt_clone h tree s = (case tree of None \<Rightarrow> Some (None, s) | Some t \<Rightarrow> clone_node h t s)"

section \<open>Filtering\<close>

text \<open>\<^verbatim>\<open>nbt_filter\<close> and \<^verbatim>\<open>filter_list\<close>; the predicate may change its data, which is threaded in preorder. The error
  exit is the same in both functions: a missing \<open>errno\<close> becomes \<open>NBT_EMEM\<close>.\<close>

definition or_emem :: "hstate \<Rightarrow> hstate" where
  "or_emem s = (if herrno s = NBT_OK then s\<lparr>herrno := NBT_EMEM\<rparr> else s)"

definition filter_list ::
  "heap \<Rightarrow> ('a \<Rightarrow> hstate \<Rightarrow> ((nbt_node list + nbt_node list) \<times> 'a \<times> hstate) option) \<Rightarrow>
     'a \<Rightarrow> hstate \<Rightarrow> (nbt_node list option \<times> 'a \<times> hstate) option" where
  "filter_list h loop aux s =
     (case checked_alloc h sizeof_nbt_list s of
        (None, s) \<Rightarrow> Some (None, aux, or_emem s)
      | (Some _, s) \<Rightarrow>
          do { (r, aux, s) \<leftarrow> loop aux s;
               case r of
                 Inl ns \<Rightarrow> Some (None, aux, nbt_free_list None ns (or_emem s))
               | Inr ns \<Rightarrow> Some (Some ns, aux, s) })"

fun filter_node ::
    "heap \<Rightarrow> 'a visitor \<Rightarrow> nbt_node \<Rightarrow> 'a \<Rightarrow> hstate \<Rightarrow> (nbt_node option \<times> 'a \<times> hstate) option"
  and filter_entries ::
    "heap \<Rightarrow> 'a visitor \<Rightarrow> nbt_node list \<Rightarrow> nbt_node list \<Rightarrow> 'a \<Rightarrow> hstate \<Rightarrow>
       ((nbt_node list + nbt_node list) \<times> 'a \<times> hstate) option"
where
  "filter_node h v (nbt_node nm p) aux s =
     (let s = s\<lparr>herrno := NBT_OK\<rparr> in
      case v (nbt_node nm p) aux of
        (False, aux) \<Rightarrow> Some (None, aux, s)
      | (True, aux) \<Rightarrow>
          (case checked_alloc h sizeof_nbt_node s of
             (None, s) \<Rightarrow> Some (None, aux, or_emem s)
           | (Some _, s) \<Rightarrow>
               (case safe_strdup h nm s of (nm', s) \<Rightarrow>
                  if nm \<noteq> None \<and> nm' = None then Some (None, aux, drop_node nm' (or_emem s))
                  else do {
                    (q, aux, s) \<leftarrow> (case p of
                        tag_string str \<Rightarrow> do { (q, s) \<leftarrow> copy_string h str s; Some (q, aux, s) }
                      | tag_byte_array d n \<Rightarrow> do { (q, s) \<leftarrow> copy_byte_array h d n s; Some (q, aux, s) }
                      | tag_int_array d n \<Rightarrow> do { (q, s) \<leftarrow> copy_int_array h d n s; Some (q, aux, s) }
                      | tag_list st _ \<Rightarrow>
                          do { (r, aux, s) \<leftarrow> filter_list h (filter_entries h v [] (children p)) aux s;
                               Some (map_option (tag_list None) r, aux, s) }
                      | tag_compound _ \<Rightarrow>
                          do { (r, aux, s) \<leftarrow> filter_list h (filter_entries h v [] (children p)) aux s;
                               Some (map_option tag_compound r, aux, s) }
                      | _ \<Rightarrow> Some (Some p, aux, s));
                    (case q of
                       None \<Rightarrow> Some (None, aux, drop_node nm' (or_emem s))
                     | Some q \<Rightarrow> Some (Some (nbt_node nm' q), aux, s)) })))"
| "filter_entries h v acc [] aux s = Some (Inr acc, aux, s)"
| "filter_entries h v acc (n # ns) aux s =
     do { (r, aux, s) \<leftarrow> filter_node h v n aux s;
          if herrno s \<noteq> NBT_OK then Some (Inl acc, aux, s)
          else case r of
            None \<Rightarrow> filter_entries h v acc ns aux s
          | Some m \<Rightarrow>
              (case checked_alloc h sizeof_nbt_list s of
                 (None, s) \<Rightarrow> Some (Inl acc, aux, s)
               | (Some _, s) \<Rightarrow> filter_entries h v (acc @ [m]) ns aux s) }"

definition nbt_filter ::
  "heap \<Rightarrow> nbt_node option \<Rightarrow> 'a visitor \<Rightarrow> 'a \<Rightarrow> hstate \<Rightarrow> (nbt_node option \<times> 'a \<times> hstate) option" where
  "nbt_filter h tree v aux s =
     (case tree of None \<Rightarrow> Some (None, aux, s\<lparr>herrno := NBT_OK\<rparr>) | Some t \<Rightarrow> filter_node h v t aux s)"

text \<open>\<^verbatim>\<open>nbt_filter_inplace\<close>: rejected nodes are released, an entry whose node went away is unlinked and released.\<close>

fun inplace_node :: "'a visitor \<Rightarrow> nbt_node \<Rightarrow> 'a \<Rightarrow> hstate \<Rightarrow> nbt_node option \<times> 'a \<times> hstate"
  and inplace_entries :: "'a visitor \<Rightarrow> nbt_node list \<Rightarrow> 'a \<Rightarrow> hstate \<Rightarrow> nbt_node list \<times> 'a \<times> hstate"
where
  "inplace_node v (nbt_node nm p) aux s =
     (case v (nbt_node nm p) aux of
        (False, aux) \<Rightarrow> (None, aux, free_node (nbt_node nm p) s)
      | (True, aux) \<Rightarrow>
          if \<not> is_container p then (Some (nbt_node nm p), aux, s)
          else (case inplace_entries v (children p) aux s of
                  (ns, aux, s) \<Rightarrow>
                    (Some (nbt_node nm (case p of tag_list st _ \<Rightarrow> tag_list st ns | _ \<Rightarrow> tag_compound ns)), aux, s)))"
| "inplace_entries v [] aux s = ([], aux, s)"
| "inplace_entries v (n # ns) aux s =
     (case inplace_node v n aux s of
        (None, aux, s) \<Rightarrow> inplace_entries v ns aux (free_ptr (Some ()) s)
      | (Some m, aux, s) \<Rightarrow>
          (case inplace_entries v ns aux s of (ms, aux, s) \<Rightarrow> (m # ms, aux, s)))"

definition nbt_filter_inplace ::
  "nbt_node option \<Rightarrow> 'a visitor \<Rightarrow> 'a \<Rightarrow> hstate \<Rightarrow> nbt_node option \<times> 'a \<times> hstate" where
  "nbt_filter_inplace tree v aux s =
     (case tree of None \<Rightarrow> (None, aux, s) | Some t \<Rightarrow> inplace_node v t aux s)"

section \<open>The blocks of a tree\<close>

text \<open>How many blocks of the heap a tree owns; releasing it gives back exactly these.\<close>

definition cnt :: "'a option \<Rightarrow> int" where
  "cnt p = (case p of None \<Rightarrow> 0 | Some _ \<Rightarrow> 1)"

fun blocks :: "nbt_node \<Rightarrow> int"
  and blocks_all :: "nbt_node list \<Rightarrow> int"
where
  "blocks (nbt_node nm p) =
     1 + cnt nm +
     (case p of
        tag_list st _ \<Rightarrow> 1 + cnt st + blocks_all (children p)
      | tag_compound _ \<Rightarrow> 1 + blocks_all (children p)
      | tag_byte_array d _ \<Rightarrow> cnt d
      | tag_int_array d _ \<Rightarrow> cnt d
      | tag_string str \<Rightarrow> cnt str
      | _ \<Rightarrow> 0)"
| "blocks_all [] = 0"
| "blocks_all (n # ns) = 1 + blocks n + blocks_all ns"

lemma cnt_simps [simp]: "cnt None = 0" "cnt (Some x) = 1"
  by (simp_all add: cnt_def)

lemma blocks_all_append [simp]: "blocks_all (ms @ ns) = blocks_all ms + blocks_all ns"
  by (induction ms) simp_all

lemma free_ptr_live: "free_ptr p s = s\<lparr>live := live s - cnt p\<rparr>"
  by (cases p) (simp_all add: free_ptr_def)

lemma free_node_live: "free_node t s = s\<lparr>live := live s - blocks t\<rparr>"
  and free_entries_live: "free_entries ns s = s\<lparr>live := live s - blocks_all ns\<rparr>"
  by (induction t s and ns s rule: free_node_free_entries.induct)
    (auto simp: free_ptr_live algebra_simps split: nbt_payload.splits)

lemma nbt_free_list_live: "nbt_free_list st ns s = s\<lparr>live := live s - (1 + cnt st + blocks_all ns)\<rparr>"
  by (simp add: nbt_free_list_def free_ptr_live free_entries_live algebra_simps)

lemma drop_node_live: "drop_node nm s = s\<lparr>live := live s - (1 + cnt nm)\<rparr>"
  by (simp add: drop_node_def free_ptr_live algebra_simps)

lemmas live_simps = free_ptr_live free_node_live free_entries_live nbt_free_list_live drop_node_live

lemma checked_alloc_cases:
  obtains (granted) "may h (requests s) n"
      "checked_alloc h n s = (Some (requests s), s\<lparr>requests := Suc (requests s), live := live s + 1\<rparr>)"
    | (refused) "\<not> may h (requests s) n"
      "checked_alloc h n s = (None, s\<lparr>requests := Suc (requests s), herrno := NBT_EMEM\<rparr>)"
  by (cases "may h (requests s) n") (simp_all add: checked_alloc_def malloc_def)

lemma nbt_strdup_cases:
  obtains (granted) "may h (requests s) (strlen str + 1)"
      "nbt_strdup h str s = (Some (cstr_of str), s\<lparr>requests := Suc (requests s), live := live s + 1\<rparr>)"
    | (refused) "\<not> may h (requests s) (strlen str + 1)"
      "nbt_strdup h str s = (None, s\<lparr>requests := Suc (requests s)\<rparr>)"
  by (cases "may h (requests s) (strlen str + 1)") (simp_all add: nbt_strdup_def malloc_def)

section \<open>Trees that can be copied\<close>

text \<open>What the copying functions need of a tree: no \<^verbatim>\<open>TAG_INVALID\<close> node, strings present and without NUL bytes,
  arrays of the length they say. Every well-formed tree is like this.\<close>

definition clean_name :: "cstr option \<Rightarrow> bool" where
  "clean_name nm \<longleftrightarrow> (case nm of None \<Rightarrow> True | Some n \<Rightarrow> 0 \<notin> set n)"

fun copyable :: "nbt_node \<Rightarrow> bool" where
  "copyable (nbt_node nm p) =
     (clean_name nm \<and>
      (case p of
         tag_end \<Rightarrow> False
       | tag_byte_array d n \<Rightarrow> wf_array d n
       | tag_int_array d n \<Rightarrow> wf_array d n
       | tag_string s \<Rightarrow> s \<noteq> None \<and> clean_name s
       | _ \<Rightarrow> True) \<and>
      (\<forall>c \<in> set (children p). copyable c))"

fun no_ints :: "nbt_node \<Rightarrow> bool" where
  "no_ints (nbt_node nm p) =
     (payload_type p \<noteq> TAG_INT_ARRAY \<and> (\<forall>c \<in> set (children p). no_ints c))"

lemma wf_elems_child: "wf_elems t ns \<Longrightarrow> n \<in> set ns \<Longrightarrow> name n = None \<and> wf_payload (payload n)"
  by (induction ns) (auto simp: wf_elems_Cons)

lemma wf_members_child: "wf_members ns \<Longrightarrow> n \<in> set ns \<Longrightarrow> clean_name (name n) \<and> wf_payload (payload n)"
proof (induction ns)
  case (Cons m ns)
  then show ?case by (cases m) (auto simp: clean_name_def wf_cstr_def split: option.splits)
qed simp

lemma wf_payload_child:
  assumes "wf_payload p" and "c \<in> set (children p)"
  shows "wf_payload (payload c) \<and> clean_name (name c)"
proof (cases "is_container p")
  case True
  then show ?thesis using assms
    by (cases p)
      (auto simp: is_container_def clean_name_def dest: wf_elems_child wf_members_child split: option.splits)
next
  case False
  then show ?thesis using assms(2) by (simp add: leaf_children)
qed

lemma copyable_payload: "wf_payload (payload t) \<Longrightarrow> clean_name (name t) \<Longrightarrow> copyable t"
proof (induction t rule: copyable.induct)
  case (1 nm p)
  have "copyable c" if "c \<in> set (children p)" for c
    using 1 that wf_payload_child [of p c] by auto
  with 1 show ?case by (cases p) (auto simp: clean_name_def wf_cstr_def split: option.splits)
qed

lemma wf_nbt_copyable: "wf_nbt t \<Longrightarrow> copyable t"
  by (rule copyable_payload) (auto simp: wf_nbt_def clean_name_def wf_cstr_def split: option.splits)

lemma safe_strdup_cases:
  assumes "clean_name nm"
  obtains (granted) k where "safe_strdup h nm s = (nm, s\<lparr>requests := k, live := live s + cnt nm\<rparr>)"
    | (refused) n where "\<not> may h (requests s) n" "nm \<noteq> None"
      "safe_strdup h nm s = (None, s\<lparr>requests := Suc (requests s)\<rparr>)"
proof (cases nm)
  case None
  then show ?thesis using granted [of "requests s"] by (simp add: safe_strdup_def)
next
  case (Some n)
  then show ?thesis
    using assms granted [of "Suc (requests s)"] refused
    by (cases rule: nbt_strdup_cases [of h s n]) (auto simp: safe_strdup_def clean_name_def cstr_of_id)
qed

section \<open>Copies of leaves\<close>

text \<open>\<open>copied h p s r s'\<close>: the copy of a payload is complete and owns what was allocated, or an allocation
  was refused and nothing stays allocated.\<close>

definition copied :: "heap \<Rightarrow> nbt_payload \<Rightarrow> hstate \<Rightarrow> nbt_payload option \<Rightarrow> hstate \<Rightarrow> bool" where
  "copied h p s r s' \<longleftrightarrow>
     (case r of
        None \<Rightarrow> live s' = live s \<and> (\<exists>i n. \<not> may h i n)
      | Some q \<Rightarrow> live s' = live s + 1 \<and> herrno s' = herrno s \<and> payload_type q = payload_type p \<and>
          (payload_type p \<noteq> TAG_INT_ARRAY \<longrightarrow> q = p) \<and>
          (\<forall>nm. blocks (nbt_node nm q) = 2 + cnt nm))"

lemma copy_byte_array_copied:
  assumes "wf_array d n"
  shows "\<exists>r s'. copy_byte_array h d n s = Some (r, s') \<and> copied h (tag_byte_array d n) s r s'"
proof -
  from wf_array_len [OF assms] obtain bs where "d = Some bs" "unat (scast n :: u64) = length bs" by auto
  then show ?thesis
    by (cases rule: checked_alloc_cases [of h s "length bs"])
      (auto simp: copy_byte_array_def block_copy_def copied_def Let_def)
qed

lemma copy_int_array_copied:
  assumes "wf_array d n"
  shows "\<exists>r s'. copy_int_array h d n s = Some (r, s') \<and> copied h (tag_int_array d n) s r s'"
proof -
  from assms obtain ws where d: "d = Some ws" "length ws < 2 ^ 31" "n = of_nat (length ws)"
    by (auto simp: wf_array_def split: option.splits)
  then have "unat (scast n :: u64) = length ws" by (simp add: scast_len unat_of_nat64)
  moreover have "unat (scast n * 4 :: u64) = 4 * length ws"
    using d(2) unat_of_nat64 [of "4 * length ws"] unfolding d(3) scast_len [OF d(2)] by (simp add: mult.commute)
  ultimately show ?thesis using d(1)
    by (cases rule: checked_alloc_cases [of h s "4 * length ws"])
      (auto simp: copy_int_array_def block_copy_def copied_def Let_def)
qed

lemma copy_string_copied:
  assumes "str \<noteq> None" and "clean_name str"
  shows "\<exists>r s'. copy_string h str s = Some (r, s') \<and> copied h (tag_string str) s r s'"
proof -
  from assms obtain t where "str = Some t" "0 \<notin> set t" by (auto simp: clean_name_def split: option.splits)
  then show ?thesis
    by (cases rule: nbt_strdup_cases [of h s t]) (auto simp: copy_string_def copied_def cstr_of_id)
qed

section \<open>Cloning is complete or leaves nothing behind\<close>

definition cloned :: "heap \<Rightarrow> nbt_node \<Rightarrow> hstate \<Rightarrow> nbt_node option \<Rightarrow> hstate \<Rightarrow> bool" where
  "cloned h t s r s' \<longleftrightarrow>
     (case r of
        None \<Rightarrow> live s' = live s \<and> (\<exists>i n. \<not> may h i n)
      | Some t' \<Rightarrow> live s' = live s + blocks t' \<and> herrno s' = herrno s \<and> (no_ints t \<longrightarrow> t' = t))"

definition cloned_all ::
  "heap \<Rightarrow> nbt_node list \<Rightarrow> nbt_node list \<Rightarrow> hstate \<Rightarrow> nbt_node list + nbt_node list \<Rightarrow> hstate \<Rightarrow> bool" where
  "cloned_all h acc ns s r s' \<longleftrightarrow>
     (case r of
        Inl bs \<Rightarrow> live s' = live s + blocks_all bs - blocks_all acc \<and> (\<exists>i n. \<not> may h i n)
      | Inr bs \<Rightarrow> live s' = live s + blocks_all bs - blocks_all acc \<and> herrno s' = herrno s \<and>
          (list_all no_ints ns \<longrightarrow> bs = acc @ ns))"

definition list_cloned ::
  "heap \<Rightarrow> nbt_type option \<Rightarrow> nbt_node list \<Rightarrow> hstate \<Rightarrow> nbt_node list option \<Rightarrow> hstate \<Rightarrow> bool" where
  "list_cloned h st ns s r s' \<longleftrightarrow>
    (case r of
       None \<Rightarrow> live s' = live s \<and> (\<exists>i n. \<not> may h i n)
     | Some bs \<Rightarrow> live s' = live s + 1 + cnt st + blocks_all bs \<and> herrno s' = herrno s \<and>
         (list_all no_ints ns \<longrightarrow> bs = ns))"

lemma clone_list_cloned:
  assumes "\<And>s. \<exists>r s'. loop s = Some (r, s') \<and> cloned_all h [] ns s r s'"
  shows "\<exists>r s'. clone_list h st loop s = Some (r, s') \<and>
    list_cloned h st ns s r s'"
proof (cases rule: checked_alloc_cases [of h s sizeof_nbt_list])
  case refused
  then show ?thesis by (auto simp: clone_list_def list_cloned_def)
next
  case granted
  let ?s = "s\<lparr>requests := Suc (requests s), live := live s + 1\<rparr>"
  have loop: "\<exists>r s'. loop u = Some (r, s') \<and> cloned_all h [] ns u r s'" for u by (rule assms)
  show ?thesis
  proof (cases st)
    case None
    obtain r s' where "loop ?s = Some (r, s')" "cloned_all h [] ns ?s r s'" using loop by blast
    with granted None show ?thesis
      by (auto simp: clone_list_def list_cloned_def cloned_all_def live_simps split: sum.splits)
  next
    case (Some t)
    let ?u = "?s\<lparr>requests := Suc (requests ?s), live := live ?s + 1\<rparr>"
    obtain r s' where "loop ?u = Some (r, s')" "cloned_all h [] ns ?u r s'" using loop by blast
    then show ?thesis using granted Some
      by (cases rule: checked_alloc_cases [of h ?s sizeof_nbt_node])
        (auto simp: clone_list_def list_cloned_def cloned_all_def live_simps split: sum.splits)
  qed
qed

definition payload_cloned ::
  "heap \<Rightarrow> cstr option \<Rightarrow> nbt_payload \<Rightarrow> hstate \<Rightarrow> nbt_payload option \<Rightarrow> hstate \<Rightarrow> bool" where
  "payload_cloned h nm p s q s' \<longleftrightarrow>
     (case q of
         None \<Rightarrow> live s' = live s \<and> (\<exists>i n. \<not> may h i n)
       | Some q \<Rightarrow> live s' = live s + (blocks (nbt_node nm q) - 1 - cnt nm) \<and> herrno s' = herrno s \<and>
           (no_ints (nbt_node nm p) \<longrightarrow> q = p))"

lemma payload_cloned_leaf: "payload_cloned h nm p s (Some p) s \<longleftrightarrow> blocks (nbt_node nm p) = 1 + cnt nm"
  by (auto simp: payload_cloned_def simp del: blocks.simps)

text \<open>The payload step of \<^verbatim>\<open>nbt_clone\<close>, followed by its common end.\<close>

lemma clone_finish:
  assumes "clean_name nm"
    and "\<And>s. \<exists>q s'. body s = Some (q, s') \<and>
      payload_cloned h nm p s q s'"
  shows "\<exists>r s'. (case checked_alloc h sizeof_nbt_node s of
        (None, s) \<Rightarrow> Some (None, s)
      | (Some _, s) \<Rightarrow>
          (case safe_strdup h nm s of (nm', s) \<Rightarrow>
             if nm \<noteq> None \<and> nm' = None then Some (None, drop_node nm' s)
             else do { (q, s) \<leftarrow> body s;
               (case q of None \<Rightarrow> Some (None, drop_node nm' s) | Some q \<Rightarrow> Some (Some (nbt_node nm' q), s)) }))
    = Some (r, s') \<and> cloned h (nbt_node nm p) s r s'"
proof (cases rule: checked_alloc_cases [of h s sizeof_nbt_node])
  case refused
  then show ?thesis by (auto simp: cloned_def)
next
  case granted
  let ?s = "s\<lparr>requests := Suc (requests s), live := live s + 1\<rparr>"
  from assms(1) show ?thesis
  proof (cases rule: safe_strdup_cases [of nm h ?s])
    case refused
    with granted show ?thesis by (auto simp: cloned_def live_simps)
  next
    case dup: (granted k)
    let ?u = "?s\<lparr>requests := k, live := live ?s + cnt nm\<rparr>"
    obtain q s' where "body ?u = Some (q, s')" "payload_cloned h nm p ?u q s'"
      using assms(2) [of ?u] by blast
    with granted dup show ?thesis
      by (cases q) (auto simp: payload_cloned_def cloned_def live_simps simp del: blocks.simps no_ints.simps)
  qed
qed

lemma copied_payload:
  assumes "\<exists>r s'. f s = Some (r, s') \<and> copied h p s r s'"
  shows "\<exists>q s'. f s = Some (q, s') \<and>
      payload_cloned h nm p s q s'"
proof -
  from assms obtain r s' where "f s = Some (r, s')" "copied h p s r s'" by blast
  then show ?thesis by (cases r) (auto simp: copied_def payload_cloned_def simp del: blocks.simps)
qed

lemma clone_node_cloned:
  "copyable t \<Longrightarrow> \<exists>r s'. clone_node h t s = Some (r, s') \<and> cloned h t s r s'"
  and clone_entries_cloned:
  "list_all copyable ns \<Longrightarrow> \<exists>r s'. clone_entries h acc ns s = Some (r, s') \<and> cloned_all h acc ns s r s'"
proof (induction t and ns arbitrary: s and acc s rule: nodes_nodes_all.induct)
  case (1 nm p)
  have nm: "clean_name nm" and type: "payload_type p \<noteq> TAG_INVALID"
    and kids: "list_all copyable (children p)"
    using "1.prems" by (auto simp: list_all_iff split: nbt_payload.splits)
  note loop = clone_list_cloned [OF "1.IH" [OF kids]]
  show ?case
    unfolding clone_node.simps if_not_P [OF type]
  proof (rule clone_finish [OF nm], goal_cases)
    case (1 s)
    show ?case
    proof (cases p)
      case (tag_list st ns)
      obtain r s' where "clone_list h st (clone_entries h [] (children p)) s = Some (r, s')"
        "list_cloned h st (children p) s r s'"
        using loop [of st s] by blast
      then show ?thesis using tag_list by (cases r) (auto simp: list_cloned_def payload_cloned_def list_all_iff)
    next
      case (tag_compound ns)
      obtain r s' where "clone_list h None (clone_entries h [] (children p)) s = Some (r, s')"
        "list_cloned h None (children p) s r s'"
        using loop [of None s] by blast
      then show ?thesis using tag_compound by (cases r) (auto simp: list_cloned_def payload_cloned_def list_all_iff)
    qed (use "1.prems" in \<open>auto simp: payload_cloned_leaf intro!: copied_payload copy_string_copied copy_byte_array_copied copy_int_array_copied\<close>)
  qed
next
  case 2
  then show ?case by (simp add: cloned_all_def)
next
  case (3 n ns)
  then have n: "\<exists>r s'. clone_node h n u = Some (r, s') \<and> cloned h n u r s'"
    and ns: "\<exists>r s'. clone_entries h acc ns u = Some (r, s') \<and> cloned_all h acc ns u r s'" for acc u
    by simp_all
  show ?case
  proof (cases rule: checked_alloc_cases [of h s sizeof_nbt_list])
    case refused
    then show ?thesis by (auto simp: cloned_all_def)
  next
    case granted
    let ?s = "s\<lparr>requests := Suc (requests s), live := live s + 1\<rparr>"
    obtain r u where r: "clone_node h n ?s = Some (r, u)" "cloned h n ?s r u" using n by blast
    show ?thesis
    proof (cases r)
      case None
      with granted r show ?thesis by (auto simp: cloned_def cloned_all_def live_simps)
    next
      case (Some m)
      obtain r' s' where "clone_entries h (acc @ [m]) ns u = Some (r', s')" "cloned_all h (acc @ [m]) ns u r' s'"
        using ns by blast
      with granted r Some show ?thesis
        by (auto simp: cloned_def cloned_all_def split: sum.splits)
    qed
  qed
qed

text \<open>C9. Whatever the allocator answers, \<^verbatim>\<open>nbt_clone\<close> of a copyable tree returns. If it returns NULL, an allocation was
  refused and nothing it allocated is left; otherwise the blocks it allocated are exactly those of the
  copy, releasing the copy with \<^verbatim>\<open>nbt_free\<close> gives them all back, and the copy equals the tree if this has no
  integer array.\<close>

theorem nbt_clone_correct:
  assumes "copyable t"
  shows "\<exists>r s'. nbt_clone h (Some t) s = Some (r, s') \<and>
    (case r of
       None \<Rightarrow> live s' = live s \<and> (\<exists>i n. \<not> may h i n)
     | Some t' \<Rightarrow> live s' = live s + blocks t' \<and> live (nbt_free r s') = live s \<and> (no_ints t \<longrightarrow> t' = t))"
proof -
  obtain r s' where "clone_node h t s = Some (r, s')" "cloned h t s r s'"
    using clone_node_cloned [OF assms] by blast
  then show ?thesis
    by (cases r) (auto simp: nbt_clone_def cloned_def nbt_free_def live_simps)
qed

definition roomy :: heap where "roomy = \<lparr>may = plenty, fresh = \<lambda>i k. 0xAA\<rparr>"
definition start :: hstate where "start = \<lparr>requests = 0, live = 0, herrno = NBT_OK\<rparr>"

theorem nbt_clone_correct_witness:
  "copyable sample_tree \<and>
   (\<exists>r s'. nbt_clone roomy (Some sample_tree) start = Some (r, s') \<and> r \<noteq> None \<and> live (nbt_free r s') = 0)"
proof -
  have "copyable sample_tree" by (rule wf_nbt_copyable [OF wf_sample_tree])
  with nbt_clone_correct [OF this, of roomy start] show ?thesis
    by (auto simp: roomy_def start_def split: option.splits)
qed

lemma granted_alloc:
  "\<forall>i n. may h i n \<Longrightarrow>
     checked_alloc h n s = (Some (requests s), s\<lparr>requests := Suc (requests s), live := live s + 1\<rparr>)"
  by (cases rule: checked_alloc_cases [of h s n]) simp_all

text \<open>The copy of an integer array has the right number of elements, but only the first quarter of its
  bytes comes from the original: the rest is what the fresh block happened to contain.\<close>

theorem nbt_clone_int_array:
  assumes "\<forall>i n. may h i n" and "wf_array (Some ws) n"
  shows "map_option fst (nbt_clone h (Some (nbt_node None (tag_int_array (Some ws) n))) s) =
    Some (Some (nbt_node None (tag_int_array
      (Some (words_of (take (length ws) (int_bytes ws) @
         map (fresh h (Suc (requests s))) [length ws..<4 * length ws]))) n)))"
proof -
  have ws: "length ws < 2 ^ 31" "n = of_nat (length ws)" using assms(2) by (simp_all add: wf_array_def)
  then have "unat (scast n :: u64) = length ws" by (simp add: scast_len unat_of_nat64)
  moreover have "unat (scast n * 4 :: u64) = 4 * length ws"
    using ws(1) unat_of_nat64 [of "4 * length ws"] unfolding ws(2) scast_len [OF ws(1)] by (simp add: mult.commute)
  ultimately show ?thesis
    by (simp add: nbt_clone_def granted_alloc [OF assms(1)] safe_strdup_def copy_int_array_def block_copy_def Let_def)
qed

theorem nbt_clone_int_array_witness:
  "map_option fst (nbt_clone roomy (Some (nbt_node None (tag_int_array (Some [1, 2]) 2))) start) =
     Some (Some (nbt_node None (tag_int_array (Some [0xAAAA0001, 0xAAAAAAAA]) 2)))"
  by (subst nbt_clone_int_array)
    (simp_all add: roomy_def start_def wf_array_def int_bytes_def mem_of_def word_bytes_def upt_rec)

section \<open>The two filters agree\<close>

definition blocks_opt :: "nbt_node option \<Rightarrow> int" where
  "blocks_opt r = (case r of None \<Rightarrow> 0 | Some t \<Rightarrow> blocks t)"

lemma inplace_node_live:
  "inplace_node v t aux u = (r, aux', u') \<Longrightarrow> live u' = live u - blocks t + blocks_opt r"
  and inplace_entries_live:
  "inplace_entries v ns aux u = (ms, aux', u') \<Longrightarrow> live u' = live u - blocks_all ns + blocks_all ms"
proof (induction t and ns arbitrary: aux u r aux' u' and aux u ms aux' u' rule: nodes_nodes_all.induct)
  case (1 nm p)
  show ?case
  proof (cases "is_container p")
    case True
    with 1 show ?thesis
      by (cases p) (fastforce simp: is_container_def blocks_opt_def live_simps split: prod.splits bool.splits)+
  next
    case False
    with 1 show ?thesis by (auto simp: blocks_opt_def live_simps simp del: blocks.simps split: prod.splits bool.splits)
  qed
next
  case (3 n ns)
  then show ?case by (fastforce simp: blocks_opt_def live_simps split: prod.splits option.splits)
qed simp

lemma granted_strdup:
  "\<forall>i n. may h i n \<Longrightarrow> clean_name nm \<Longrightarrow>
     \<exists>k. safe_strdup h nm s = (nm, s\<lparr>requests := k, live := live s + cnt nm\<rparr>)"
  by (cases rule: safe_strdup_cases [of nm h s]) auto

lemma wf_array_cnt: "wf_array d n \<Longrightarrow> cnt d = 1"
  by (auto dest: wf_array_len)

text \<open>What the two results agree in: everything but the element types of lists and, of an integer array, the elements after the first quarter,
  which is all that the copy takes from the original.\<close>

fun blur :: "nbt_node \<Rightarrow> nbt_node" where
  "blur (nbt_node nm p) =
     nbt_node nm
       (case p of
          tag_list _ _ \<Rightarrow> tag_list None (map blur (children p))
        | tag_compound _ \<Rightarrow> tag_compound (map blur (children p))
        | tag_int_array d n \<Rightarrow> tag_int_array (map_option (take (unat n div 4)) d) n
        | _ \<Rightarrow> p)"

lemma words_of_append: "words_of (concat (map mem_of (ws :: u32 list)) @ bs) = ws @ words_of bs"
proof (induction ws)
  case (Cons w ws)
  obtain a b c d where m: "mem_of w = [a, b, c, d]"
    by (cases "mem_of w" rule: words_of.cases) (auto dest: arg_cong [of _ _ length])
  have "bytes_word [a, b, c, d] = w" unfolding m [symmetric] by simp
  with Cons m show ?case by simp
qed simp

lemma quarter_copied:
  assumes "length ws = k"
  shows "take (k div 4) (words_of (take k (int_bytes ws) @ ys)) = take (k div 4) ws"
proof -
  let ?m = "k div 4"
  have len: "length (concat (map mem_of (xs :: u32 list))) = 4 * length xs" for xs by (induction xs) simp_all
  have "int_bytes ws = concat (map mem_of (take ?m ws)) @ concat (map mem_of (drop ?m ws))"
    by (simp add: int_bytes_def concat_append [symmetric] map_append [symmetric] del: concat_append map_append)
  moreover have "4 * length (take ?m ws) \<le> k" using assms by simp
  ultimately have "take k (int_bytes ws) =
      concat (map mem_of (take ?m ws)) @ take (k - 4 * length (take ?m ws)) (concat (map mem_of (drop ?m ws)))"
    by (simp add: len)
  then show ?thesis using assms by (simp only: append.assoc words_of_append) (simp add: min_def)
qed

lemma granted_leaf:
  assumes h: "\<forall>i n. may h i n" and "copyable (nbt_node nm p)"
    and "payload_type p \<in> {TAG_STRING, TAG_BYTE_ARRAY, TAG_INT_ARRAY}"
  shows "\<exists>q s'. (case p of tag_string str \<Rightarrow> copy_string h str s | tag_byte_array d n \<Rightarrow> copy_byte_array h d n s
      | tag_int_array d n \<Rightarrow> copy_int_array h d n s | _ \<Rightarrow> None) = Some (Some q, s') \<and> live s' = live s + 1 \<and> herrno s' = herrno s \<and>
    blocks (nbt_node nm q) = 2 + cnt nm \<and> blur (nbt_node nm q) = blur (nbt_node nm p) \<and> (payload_type p \<noteq> TAG_INT_ARRAY \<longrightarrow> q = p)"
proof (cases p)
  case (tag_string str)
  then show ?thesis using assms copy_string_copied [of str h s] by (fastforce simp: copied_def split: option.splits)
next
  case (tag_byte_array d n)
  then show ?thesis using assms copy_byte_array_copied [of d n h s] by (fastforce simp: copied_def split: option.splits)
next
  case (tag_int_array d n)
  then obtain ws where d: "d = Some ws" "length ws < 2 ^ 31" "n = of_nat (length ws)"
    using assms(2) by (auto simp: wf_array_def split: option.splits)
  then have k: "unat (scast n :: u64) = length ws" "unat n = length ws" by (simp_all add: scast_len unat_of_nat64 unat_of_nat)
  have m: "unat (scast n * 4 :: u64) = 4 * length ws"
    using d(2) unat_of_nat64 [of "4 * length ws"] unfolding d(3) scast_len [OF d(2)] by (simp add: mult.commute)
  let ?bs = "take (length ws) (int_bytes ws) @ map (fresh h (requests s)) [length ws..<4 * length ws]"
  have "copy_int_array h d n s = Some (Some (tag_int_array (Some (words_of ?bs)) n), s\<lparr>requests := Suc (requests s), live := live s + 1\<rparr>)"
    using k m d(1) by (simp add: copy_int_array_def block_copy_def granted_alloc [OF h] Let_def)
  moreover have "take (length ws div 4) (words_of ?bs) = take (length ws div 4) ws" by (rule quarter_copied) simp
  ultimately show ?thesis using tag_int_array d(1) k(2) by simp
qed (use assms in auto)

text \<open>What the copying filter does when every allocation is granted, against the result of the other one.\<close>

lemma filter_node_inplace:
  assumes h: "\<forall>i n. may h i n"
  shows "copyable t \<Longrightarrow> inplace_node v t aux u = (r, aux', u') \<Longrightarrow>
      \<exists>r' s'. filter_node h v t aux s = Some (r', aux', s') \<and> herrno s' = NBT_OK \<and> live s' = live s + blocks_opt r' \<and>
        map_option blur r' = map_option blur r \<and> (no_ints t \<longrightarrow> r' = map_option erase r)"
    and "list_all copyable ns \<Longrightarrow> inplace_entries v ns aux u = (ms, aux', u') \<Longrightarrow> herrno s = NBT_OK \<Longrightarrow>
      \<exists>ms' s'. filter_entries h v acc ns aux s = Some (Inr (acc @ ms'), aux', s') \<and> herrno s' = NBT_OK \<and>
        live s' = live s + blocks_all ms' \<and> map blur ms' = map blur ms \<and> (list_all no_ints ns \<longrightarrow> ms' = map erase ms)"
proof (induction t and ns arbitrary: aux u r aux' u' s and aux u ms aux' u' s acc rule: nodes_nodes_all.induct)
  case (1 nm p)
  let ?t = "nbt_node nm p" and ?s = "s\<lparr>herrno := NBT_OK\<rparr>"
  obtain b a where v: "v ?t aux = (b, a)" by fastforce
  show ?case
  proof (cases b)
    case False
    with 1 v show ?thesis by (auto simp: Let_def blocks_opt_def)
  next
    case True
    from "1.prems" have nm: "clean_name nm" and kids: "list_all copyable (children p)"
      by (auto simp: list_all_iff)
    let ?s1 = "?s\<lparr>requests := Suc (requests ?s), live := live ?s + 1\<rparr>"
    obtain k where dup: "safe_strdup h nm ?s1 = (nm, ?s1\<lparr>requests := k, live := live ?s1 + cnt nm\<rparr>)"
      using granted_strdup [OF h nm] by blast
    let ?s2 = "?s1\<lparr>requests := k, live := live ?s1 + cnt nm\<rparr>"
    note step = v True granted_alloc [OF h] dup
    show ?thesis
    proof (cases "is_container p")
      case container: True
      obtain ms w where ms: "inplace_entries v (children p) a u = (ms, aux', w)"
        "r = Some (nbt_node nm (case p of tag_list st _ \<Rightarrow> tag_list st ms | _ \<Rightarrow> tag_compound ms))"
        using "1.prems"(2) v True container by (auto split: prod.splits)
      let ?s3 = "?s2\<lparr>requests := Suc (requests ?s2), live := live ?s2 + 1\<rparr>"
      have "herrno ?s3 = NBT_OK" by simp
      from "1.IH" [OF kids ms(1) this, of "[]"] obtain ms' s' where
        "filter_entries h v [] (children p) a ?s3 = Some (Inr ms', aux', s')" "herrno s' = NBT_OK"
        "live s' = live ?s3 + blocks_all ms'" "map blur ms' = map blur ms" "list_all no_ints (children p) \<longrightarrow> ms' = map erase ms" by auto
      with container ms(2) step show ?thesis
        by (cases p) (auto simp: is_container_def Let_def filter_list_def blocks_opt_def children_def list_all_iff)
    next
      case False
      then have r: "r = Some ?t" "aux' = a" using "1.prems"(2) v True by auto
      show ?thesis
      proof (cases "payload_type p \<in> {TAG_STRING, TAG_BYTE_ARRAY, TAG_INT_ARRAY}")
        case True
        from granted_leaf [OF h "1.prems"(1) this, of ?s2] obtain q s' where
          q: "(case p of tag_string str \<Rightarrow> copy_string h str ?s2 | tag_byte_array d n \<Rightarrow> copy_byte_array h d n ?s2
              | tag_int_array d n \<Rightarrow> copy_int_array h d n ?s2 | _ \<Rightarrow> None) = Some (Some q, s')" "live s' = live ?s2 + 1" "herrno s' = herrno ?s2"
            "blocks (nbt_node nm q) = 2 + cnt nm" "blur (nbt_node nm q) = blur ?t" "payload_type p \<noteq> TAG_INT_ARRAY \<longrightarrow> q = p" by blast
        have "filter_node h v ?t aux s = Some (Some (nbt_node nm q), aux', s')"
          using True q(1) step r(2) by (cases p) (auto simp: Let_def)
        moreover have "no_ints ?t \<Longrightarrow> q = p \<and> erase ?t = ?t" using True q(6) by (cases p) auto
        ultimately show ?thesis using q(2-5) r(1) by (auto simp: blocks_opt_def simp del: blur.simps blocks.simps erase.simps)
      next
        case leaf: False
        with False step r "1.prems" show ?thesis
          by (cases p) (auto simp: Let_def blocks_opt_def is_container_def)
      qed
    qed
  qed
next
  case 2
  then show ?case by simp
next
  case (3 n ns)
  obtain r a u1 where n: "inplace_node v n aux u = (r, a, u1)" by (metis prod_cases3)
  from "3.IH"(1) [OF _ n, of s] "3.prems" obtain r' s1 where s1: "filter_node h v n aux s = Some (r', a, s1)" "herrno s1 = NBT_OK"
    "live s1 = live s + blocks_opt r'" "map_option blur r' = map_option blur r" "no_ints n \<longrightarrow> r' = map_option erase r" by auto
  show ?case
  proof (cases r)
    case None
    then have "inplace_entries v ns a (free_ptr (Some ()) u1) = (ms, aux', u')" using "3.prems"(2) n by simp
    with "3.IH"(2) [OF _ this s1(2), of acc] "3.prems" None s1 show ?thesis
      by (auto simp: blocks_opt_def)
  next
    case (Some m)
    then obtain ms1 where ms: "inplace_entries v ns a u1 = (ms1, aux', u')" "ms = m # ms1"
      using "3.prems"(2) n by (auto split: prod.splits)
    obtain m' where m': "r' = Some m'" "blur m' = blur m" using s1(4) Some by (cases r') auto
    let ?s = "s1\<lparr>requests := Suc (requests s1), live := live s1 + 1\<rparr>"
    have "herrno ?s = NBT_OK" using s1(2) by simp
    from "3.IH"(2) [OF _ ms(1) this, of "acc @ [m']"] "3.prems" obtain ms2 s2 where
      "filter_entries h v (acc @ [m']) ns a ?s = Some (Inr ((acc @ [m']) @ ms2), aux', s2)" "herrno s2 = NBT_OK"
      "live s2 = live ?s + blocks_all ms2" "map blur ms2 = map blur ms1" "list_all no_ints ns \<longrightarrow> ms2 = map erase ms1" by auto
    with Some s1 m' ms(2) show ?thesis
      by (intro exI [of _ "m' # ms2"] exI [of _ s2]) (simp add: granted_alloc [OF h] blocks_opt_def)
  qed
qed

text \<open>C19. When no allocation is refused, \<^verbatim>\<open>nbt_filter\<close> of a copyable tree (every node has a type, its strings and arrays are there and as long as
  they say) returns the tree \<^verbatim>\<open>nbt_filter_inplace\<close> leaves behind, with two exceptions: the lists of the copy have lost their element type, and
  of every integer array only the first quarter of the elements is the original's (the rest is what the new block held); so for a tree
  without integer arrays the copy is exact up to the element types. Both call the predicate on the same nodes in the same order. The copy owns
  what was allocated, and the other one has released exactly what it removed.\<close>

theorem nbt_filters_agree:
  assumes "\<forall>i n. may h i n" and "copyable t"
    and "nbt_filter_inplace (Some t) v aux u = (r, aux', u')"
  shows "(\<exists>r' s'. nbt_filter h (Some t) v aux s = Some (r', aux', s') \<and> herrno s' = NBT_OK \<and> live s' = live s + blocks_opt r' \<and>
      map_option blur r' = map_option blur r \<and> (no_ints t \<longrightarrow> r' = map_option erase r)) \<and>
    live u' = live u - blocks t + blocks_opt r"
  using filter_node_inplace(1) [OF assms(1,2), of v aux u r aux' u' s] inplace_node_live [of v t aux u r aux' u']
    assms(3) by (simp add: nbt_filter_def nbt_filter_inplace_def)

definition only_small :: "unit visitor" where
  "only_small n aux = (payload n \<noteq> tag_byte 9, aux)"

definition list_of_bytes :: nbt_node where
  "list_of_bytes = nbt_node None (tag_list (Some TAG_BYTE) [nbt_node None (tag_byte 9), nbt_node None (tag_byte 1)])"

theorem nbt_filters_agree_witness:
  "\<exists>s'. nbt_filter roomy (Some list_of_bytes) only_small () start =
     Some (Some (nbt_node None (tag_list None [nbt_node None (tag_byte 1)])), (), s')"
proof -
  have "nbt_filter_inplace (Some list_of_bytes) only_small () start =
      (Some (nbt_node None (tag_list (Some TAG_BYTE) [nbt_node None (tag_byte 1)])), (),
       free_ptr (Some ()) (free_node (nbt_node None (tag_byte 9)) start))"
    by (simp add: nbt_filter_inplace_def list_of_bytes_def only_small_def is_container_def)
  from nbt_filters_agree [OF _ _ this, of roomy start] show ?thesis
    by (auto simp: roomy_def list_of_bytes_def clean_name_def children_def)
qed

text \<open>When the allocation of an entry is refused, \<^verbatim>\<open>filter_list\<close> releases the entries it has but not the node it was
  about to link: \<^verbatim>\<open>nbt_filter\<close> reports \<open>NBT_EMEM\<close> and leaks that node. Here a compound of one byte is copied and the fourth
  allocation, that of the entry, is refused.\<close>

theorem nbt_filter_leak:
  "\<exists>s'. nbt_filter \<lparr>may = \<lambda>i n. i \<noteq> 3, fresh = \<lambda>i k. 0\<rparr>
      (Some (nbt_node None (tag_compound [nbt_node None (tag_byte 1)]))) (\<lambda>n a. (True, a)) () start =
    Some (None, (), s') \<and> herrno s' = NBT_EMEM \<and> live s' = live start + 1"
  by (simp add: nbt_filter_def start_def checked_alloc_def malloc_def safe_strdup_def filter_list_def Let_def
      live_simps or_emem_def)

end
