(* ===== verification/NbtLoad.thy ===== *)
theory NbtLoad
  imports NbtCodec
begin

text \<open>
  Saving and loading compressed NBT (\<^verbatim>\<open>src/cNBT/nbt_loading.c\<close>). zlib and the C library's streams are not part of the program: they are
  the arguments \<open>Z\<close> and \<open>F\<close> of the definitions. A compressor or decompressor is given by its initialisation (return code and stream
  state) and by one call with room for \<open>n\<close> bytes of output (return code, the bytes written, new state); a file by \<^verbatim>\<open>fread\<close>, \<^verbatim>\<open>fwrite\<close>,
  \<^verbatim>\<open>ferror\<close> and \<^verbatim>\<open>feof\<close> on its state. A callee that writes more than it was given room for, or reports more bytes than it was given, is
  undefined.

  The loops run until the callee leaves output space or reports the end of the file; they need not end for arbitrary \<open>Z\<close> and \<open>F\<close>, so they
  are partial functions, and the theorems show that they end for callees that behave as documented.
\<close>

section \<open>The libraries\<close>

datatype nbt_compression_strategy = STRAT_GZIP | STRAT_INFLATE

record 'z zops =
  z_init :: "int \<Rightarrow> byte list \<Rightarrow> int \<times> 'z"
  z_call :: "'z \<Rightarrow> nat \<Rightarrow> int \<times> byte list \<times> 'z"

definition Z_OK :: int where "Z_OK = 0"
definition Z_STREAM_END :: int where "Z_STREAM_END = 1"
definition Z_NEED_DICT :: int where "Z_NEED_DICT = 2"
definition Z_STREAM_ERROR :: int where "Z_STREAM_ERROR = - 2"
definition Z_DATA_ERROR :: int where "Z_DATA_ERROR = - 3"
definition Z_MEM_ERROR :: int where "Z_MEM_ERROR = - 4"
definition Z_BUF_ERROR :: int where "Z_BUF_ERROR = - 5"

lemmas z_codes = Z_OK_def Z_STREAM_END_def Z_NEED_DICT_def Z_STREAM_ERROR_def Z_DATA_ERROR_def Z_MEM_ERROR_def Z_BUF_ERROR_def

record 'f fops =
  f_read :: "'f \<Rightarrow> nat \<Rightarrow> byte list \<times> 'f"
  f_write :: "'f \<Rightarrow> byte list \<Rightarrow> nat \<times> 'f"
  f_error :: "'f \<Rightarrow> bool"
  f_eof :: "'f \<Rightarrow> bool"

section \<open>Operations\<close>

definition CHUNK_SIZE :: nat where "CHUNK_SIZE = 4096"

text \<open>What the callee does with \<^verbatim>\<open>ret.data + ret.len\<close> and room for a chunk, and \<^verbatim>\<open>ret.len += n\<close>.\<close>

definition put_chunk :: "buffer \<Rightarrow> byte list \<Rightarrow> buffer option" where
  "put_chunk b out =
     (if length out > CHUNK_SIZE then None
      else do { blk \<leftarrow> data b; blk \<leftarrow> mem_write (unat (len b)) out blk;
                Some (b\<lparr>data := Some blk, len := len b + of_nat (length out)\<rparr>) })"

text \<open>The results are \<^verbatim>\<open>errno\<close> and the buffer, and for the file functions the file. \<open>e\<close> is \<^verbatim>\<open>errno\<close> at the call.\<close>

partial_function (option) read_loop ::
  "(nat \<Rightarrow> bool) \<Rightarrow> 'f fops \<Rightarrow> nbt_status \<Rightarrow> 'f \<Rightarrow> buffer \<Rightarrow> (nbt_status \<times> buffer \<times> 'f) option" where
  "read_loop mal F e fp b = do {
     (rc, b) \<leftarrow> buffer_reserve mal b (len b + of_nat CHUNK_SIZE);
     if rc \<noteq> 0 then Some (NBT_EMEM, BUFFER_INIT, fp)
     else do {
       let (bs, fp) = f_read F fp CHUNK_SIZE;
       b \<leftarrow> put_chunk b bs;
       if f_error F fp then Some (NBT_EIO, BUFFER_INIT, fp)
       else if f_eof F fp then Some (e, b, fp)
       else read_loop mal F e fp b } }"

definition read_file :: "(nat \<Rightarrow> bool) \<Rightarrow> 'f fops \<Rightarrow> nbt_status \<Rightarrow> 'f \<Rightarrow> (nbt_status \<times> buffer \<times> 'f) option" where
  "read_file mal F e fp = read_loop mal F e fp BUFFER_INIT"

partial_function (option) write_file :: "'f fops \<Rightarrow> 'f \<Rightarrow> byte list \<Rightarrow> (nbt_status \<times> 'f) option" where
  "write_file F fp cdata =
     (let (n, fp) = f_write F fp cdata in
      if f_error F fp then Some (NBT_EIO, fp)
      else if n > length cdata then None
      else if length cdata - n > 0 then write_file F fp (drop n cdata) else Some (NBT_OK, fp))"

text \<open>The loop of \<^verbatim>\<open>__compress\<close>, with the jump to \<^verbatim>\<open>compression_error\<close> as the error results.\<close>

partial_function (option) compress_loop ::
  "(nat \<Rightarrow> bool) \<Rightarrow> ('z \<Rightarrow> nat \<Rightarrow> int \<times> byte list \<times> 'z) \<Rightarrow> 'z \<Rightarrow> buffer \<Rightarrow> (nbt_status \<times> buffer) option" where
  "compress_loop mal deflate z b = do {
     (rc, b) \<leftarrow> buffer_reserve mal b (len b + of_nat CHUNK_SIZE);
     if rc \<noteq> 0 then Some (NBT_EMEM, BUFFER_INIT)
     else do {
       let (code, out, z) = deflate z CHUNK_SIZE;
       b \<leftarrow> put_chunk b out;
       if code = Z_STREAM_ERROR then Some (NBT_EZ, BUFFER_INIT)
       else if CHUNK_SIZE - length out = 0 then compress_loop mal deflate z b
       else Some (NBT_OK, b) } }"

text \<open>\<^verbatim>\<open>avail_in\<close> is an \<^verbatim>\<open>unsigned int\<close>: \<^verbatim>\<open>__compress\<close> asserts that the length fits, \<^verbatim>\<open>__decompress\<close> cuts it.\<close>

definition compress :: "(nat \<Rightarrow> bool) \<Rightarrow> 'z zops \<Rightarrow> byte list \<Rightarrow> nbt_compression_strategy \<Rightarrow> (nbt_status \<times> buffer) option" where
  "compress mal Z mem strat =
     (let windowbits = (if strat = STRAT_GZIP then 15 + 16 else 15);
          avail_in = length mem mod 2 ^ 32;
          (rc, z) = z_init Z windowbits (take avail_in mem)
      in if rc \<noteq> Z_OK then Some (NBT_EZ, BUFFER_INIT)
         else if avail_in \<noteq> length mem then None
         else compress_loop mal (z_call Z) z BUFFER_INIT)"

text \<open>The loop of \<^verbatim>\<open>__decompress\<close> and the check behind it.\<close>

partial_function (option) decompress_loop ::
  "(nat \<Rightarrow> bool) \<Rightarrow> ('z \<Rightarrow> nat \<Rightarrow> int \<times> byte list \<times> 'z) \<Rightarrow> 'z \<Rightarrow> buffer \<Rightarrow> (nbt_status \<times> buffer) option" where
  "decompress_loop mal inflate z b = do {
     (rc, b) \<leftarrow> buffer_reserve mal b (len b + of_nat CHUNK_SIZE);
     if rc \<noteq> 0 then Some (NBT_EMEM, BUFFER_INIT)
     else do {
       let (code, out, z) = inflate z CHUNK_SIZE;
       b \<leftarrow> put_chunk b out;
       if code = Z_MEM_ERROR then Some (NBT_EMEM, BUFFER_INIT)
       else if code = Z_DATA_ERROR \<or> code = Z_NEED_DICT then Some (NBT_EZ, BUFFER_INIT)
       else if CHUNK_SIZE - length out = 0 then decompress_loop mal inflate z b
       else if code \<noteq> Z_STREAM_END then Some (NBT_EZ, BUFFER_INIT)
       else Some (NBT_OK, b) } }"

definition decompress :: "(nat \<Rightarrow> bool) \<Rightarrow> 'z zops \<Rightarrow> byte list \<Rightarrow> (nbt_status \<times> buffer) option" where
  "decompress mal Z mem =
     (let (rc, z) = z_init Z (15 + 32) (take (length mem mod 2 ^ 32) mem)
      in if rc \<noteq> Z_OK then Some (NBT_EZ, BUFFER_INIT) else decompress_loop mal (z_call Z) z BUFFER_INIT)"

definition nbt_parse_compressed ::
  "(nat \<Rightarrow> bool) \<Rightarrow> allocator \<Rightarrow> 'z zops \<Rightarrow> byte list \<Rightarrow> (nbt_node option \<times> nbt_status) option" where
  "nbt_parse_compressed mal pal Z chunk = do {
     (e, decompressed) \<leftarrow> decompress mal Z chunk;
     if data decompressed = None then Some (None, e)
     else nbt_parse pal (contents decompressed) (len decompressed) }"

definition nbt_parse_file ::
  "(nat \<Rightarrow> bool) \<Rightarrow> allocator \<Rightarrow> 'z zops \<Rightarrow> 'f fops \<Rightarrow> 'f \<Rightarrow> (nbt_node option \<times> nbt_status \<times> 'f) option" where
  "nbt_parse_file mal pal Z F fp = do {
     (e, compressed, fp) \<leftarrow> read_file mal F NBT_OK fp;
     if data compressed = None then Some (None, e, fp)
     else do { (ret, e) \<leftarrow> nbt_parse_compressed mal pal Z (contents compressed); Some (ret, e, fp) } }"

text \<open>\<^verbatim>\<open>nbt_parse_path\<close>; \<open>fopen\<close> answers the opened file or \<open>NULL\<close>.\<close>

definition nbt_parse_path ::
  "(nat \<Rightarrow> bool) \<Rightarrow> allocator \<Rightarrow> 'z zops \<Rightarrow> 'f fops \<Rightarrow> ('p \<Rightarrow> 'f option) \<Rightarrow> 'p \<Rightarrow> (nbt_node option \<times> nbt_status) option" where
  "nbt_parse_path mal pal Z F fopen path =
     (case fopen path of
        None \<Rightarrow> Some (None, NBT_EIO)
      | Some fp \<Rightarrow> do { (r, e, fp) \<leftarrow> nbt_parse_file mal pal Z F fp; Some (r, e) })"

definition nbt_dump_compressed ::
  "(nat \<Rightarrow> bool) \<Rightarrow> 'z zops \<Rightarrow> nbt_node option \<Rightarrow> nbt_compression_strategy \<Rightarrow> (nbt_status \<times> buffer) option" where
  "nbt_dump_compressed mal Z tree strat = do {
     (uncompressed, e) \<leftarrow> nbt_dump_binary mal tree;
     if data uncompressed = None then Some (e, BUFFER_INIT)
     else compress mal Z (contents uncompressed) strat }"

definition nbt_dump_file ::
  "(nat \<Rightarrow> bool) \<Rightarrow> 'z zops \<Rightarrow> 'f fops \<Rightarrow> nbt_node option \<Rightarrow> 'f \<Rightarrow> nbt_compression_strategy \<Rightarrow> (nbt_status \<times> 'f) option" where
  "nbt_dump_file mal Z F tree fp strat = do {
     (e, compressed) \<leftarrow> nbt_dump_compressed mal Z tree strat;
     if data compressed = None then Some (e, fp)
     else write_file F fp (contents compressed) }"


section \<open>Filling the buffer a chunk at a time\<close>

lemma reserve_ok:
  assumes inv: "buffer_inv b" and r: "reserved \<le> 2 ^ 63"
  shows "(\<exists>b'. buffer_reserve mal b reserved = Some (0, b') \<and> live b' \<and> contents b' = contents b \<and>
      len b' = len b \<and> reserved \<le> cap b') \<or>
    (\<exists>b'. buffer_reserve mal b reserved = Some (1, b') \<and> (\<exists>n. \<not> mal n))"
proof (cases "data b")
  case None
  then have b: "contents b = []" "len b = 0" using inv by (auto simp: contents_def buffer_inv_def)
  from lazy_init_ok [OF None, of mal] show ?thesis
  proof (elim exE conjE disjE)
    fix rc b1
    assume i: "lazy_init mal b = Some (rc, b1)" "rc = 0" "live b1" "contents b1 = []"
    then have "len b1 = 0" using unat_len_contents [of b1] by (simp add: live_def unat_eq_zero)
    with reserve_more_ok [OF i(3) r, of mal] i None b show ?thesis by (auto simp: buffer_reserve_def)
  next
    fix rc b1
    assume "lazy_init mal b = Some (rc, b1)" "rc = 1" "\<not> mal 1024"
    with None show ?thesis by (auto simp: buffer_reserve_def)
  qed
next
  case (Some blk)
  with inv have "live b" by (simp add: live_def)
  from reserve_more_ok [OF this r, of mal] Some show ?thesis by (auto simp: buffer_reserve_def)
qed

lemma put_chunk_ok:
  assumes "live b" and "len b + of_nat CHUNK_SIZE \<le> cap b" and "length (contents b) + CHUNK_SIZE \<le> 2 ^ 63"
    and out: "length out \<le> CHUNK_SIZE"
  shows "\<exists>b'. put_chunk b out = Some b' \<and> live b' \<and> contents b' = contents b @ out"
proof -
  have len: "unat (len b) = length (contents b)" using assms(1) by (simp add: live_def unat_len_contents)
  have add: "unat (len b + of_nat n) = unat (len b) + n" if "n \<le> CHUNK_SIZE" for n
  proof -
    from that assms(3) have "unat (of_nat n :: u64) = n" by (intro unat_of_nat64) (simp add: CHUNK_SIZE_def)
    with that assms(3) len show ?thesis
      by (subst unat_plus_simple [THEN iffD1]) (simp_all add: no_olen_add_nat CHUNK_SIZE_def)
  qed
  have "len b + of_nat (length out) \<le> cap b"
    using assms(2) out add [OF order.refl] add [OF out] by (simp add: word_le_nat_alt)
  from mem_write_ok [OF assms(1) this add [OF out]] out show ?thesis by (auto simp: put_chunk_def)
qed

text \<open>One round of each loop: the reserve succeeds and the chunk lands behind the contents, or memory ran out.\<close>

lemma chunk_round:
  assumes inv: "buffer_inv b" and fit: "length (contents b) + CHUNK_SIZE \<le> 2 ^ 63"
  obtains (put) b1 where "buffer_reserve mal b (len b + of_nat CHUNK_SIZE) = Some (0, b1)"
      "\<And>out. length out \<le> CHUNK_SIZE \<Longrightarrow> \<exists>b2. put_chunk b1 out = Some b2 \<and> live b2 \<and> contents b2 = contents b @ out"
  | (refused) b1 n where "buffer_reserve mal b (len b + of_nat CHUNK_SIZE) = Some (1, b1)" "\<not> mal n"
proof -
  have "unat (len b + of_nat CHUNK_SIZE) \<le> 2 ^ 63"
    using fit unat_len_contents [OF inv] by (simp add: CHUNK_SIZE_def unat_word_ariths)
  then have "len b + of_nat CHUNK_SIZE \<le> 2 ^ 63" by (simp add: word_le_nat_alt)
  from reserve_ok [OF inv this, of mal] show thesis
  proof (elim disjE exE conjE)
    fix b1
    assume b1: "buffer_reserve mal b (len b + of_nat CHUNK_SIZE) = Some (0, b1)" "live b1" "contents b1 = contents b"
      "len b1 = len b" "len b + of_nat CHUNK_SIZE \<le> cap b1"
    from b1 fit have "\<exists>b2. put_chunk b1 out = Some b2 \<and> live b2 \<and> contents b2 = contents b @ out"
      if "length out \<le> CHUNK_SIZE" for out
      using put_chunk_ok [of b1 out] that by simp
    with b1(1) show thesis by (rule put)
  qed (rule refused)
qed

lemma live_inv [dest]: "live b \<Longrightarrow> buffer_inv b"
  by (simp add: live_def)

section \<open>What the libraries promise\<close>

text \<open>
  \<open>serves call good fin z out\<close>: calls with room for one chunk yield \<open>out\<close> in full chunks with codes that satisfy \<open>good\<close>, and then a
  call that leaves room and returns a code that satisfies \<open>fin\<close>. This is how zlib documents \<^verbatim>\<open>deflate(Z_FINISH)\<close> and \<^verbatim>\<open>inflate\<close>: each call
  fills the room it is given unless no output is left; at the end they report \<open>Z_STREAM_END\<close>, also when called once more.
  \<open>reads_all F fp bs\<close> and \<open>writes_all F fp bs fp'\<close> are the same for \<^verbatim>\<open>fread\<close>, up to the end of the file, and for \<^verbatim>\<open>fwrite\<close>, which may
  write the data in parts.
\<close>

inductive serves :: "('z \<Rightarrow> nat \<Rightarrow> int \<times> byte list \<times> 'z) \<Rightarrow> (int \<Rightarrow> bool) \<Rightarrow> (int \<Rightarrow> bool) \<Rightarrow> 'z \<Rightarrow> byte list \<Rightarrow> bool"
  for call good fin where
  last_chunk: "call z CHUNK_SIZE = (code, out, z') \<Longrightarrow> length out < CHUNK_SIZE \<Longrightarrow> fin code \<Longrightarrow> serves call good fin z out"
| full_chunk: "call z CHUNK_SIZE = (code, bs, z') \<Longrightarrow> length bs = CHUNK_SIZE \<Longrightarrow> good code \<Longrightarrow>
    serves call good fin z' out \<Longrightarrow> serves call good fin z (bs @ out)"

inductive reads_all :: "'f fops \<Rightarrow> 'f \<Rightarrow> byte list \<Rightarrow> bool" for F where
  at_end: "f_read F fp CHUNK_SIZE = (bs, fp') \<Longrightarrow> length bs \<le> CHUNK_SIZE \<Longrightarrow> \<not> f_error F fp' \<Longrightarrow> f_eof F fp' \<Longrightarrow>
    reads_all F fp bs"
| read_more: "f_read F fp CHUNK_SIZE = (bs, fp') \<Longrightarrow> length bs \<le> CHUNK_SIZE \<Longrightarrow> \<not> f_error F fp' \<Longrightarrow> \<not> f_eof F fp' \<Longrightarrow>
    reads_all F fp' rest \<Longrightarrow> reads_all F fp (bs @ rest)"

inductive writes_all :: "'f fops \<Rightarrow> 'f \<Rightarrow> byte list \<Rightarrow> 'f \<Rightarrow> bool" for F where
  wrote: "f_write F fp bs = (length bs, fp') \<Longrightarrow> \<not> f_error F fp' \<Longrightarrow> writes_all F fp bs fp'"
| wrote_part: "f_write F fp bs = (n, fp1) \<Longrightarrow> n < length bs \<Longrightarrow> \<not> f_error F fp1 \<Longrightarrow> writes_all F fp1 (drop n bs) fp' \<Longrightarrow>
    writes_all F fp bs fp'"

definition deflate_ok :: "int \<Rightarrow> bool" where
  "deflate_ok code \<longleftrightarrow> code \<noteq> Z_STREAM_ERROR"

definition inflate_ok :: "int \<Rightarrow> bool" where
  "inflate_ok code \<longleftrightarrow> code \<notin> {Z_MEM_ERROR, Z_DATA_ERROR, Z_NEED_DICT}"

definition window :: "nbt_compression_strategy \<Rightarrow> int" where
  "window strat = (if strat = STRAT_GZIP then 31 else 15)"

definition deflates :: "'z zops \<Rightarrow> nbt_compression_strategy \<Rightarrow> byte list \<Rightarrow> byte list \<Rightarrow> bool" where
  "deflates Z strat mem packed \<longleftrightarrow>
     (\<exists>z. z_init Z (window strat) mem = (Z_OK, z) \<and> serves (z_call Z) deflate_ok deflate_ok z packed)"

definition inflates :: "'z zops \<Rightarrow> byte list \<Rightarrow> byte list \<Rightarrow> bool" where
  "inflates Z packed mem \<longleftrightarrow>
     (\<exists>z. z_init Z 47 packed = (Z_OK, z) \<and> serves (z_call Z) inflate_ok (\<lambda>c. c = Z_STREAM_END) z mem)"

text \<open>zlib: whatever is compressed is decompressed again.\<close>

definition zlib_inverts :: "'d zops \<Rightarrow> 'i zops \<Rightarrow> (nbt_compression_strategy \<Rightarrow> byte list \<Rightarrow> byte list) \<Rightarrow> bool" where
  "zlib_inverts D I pack \<longleftrightarrow> (\<forall>strat mem. length mem < 2 ^ 32 \<longrightarrow>
     deflates D strat mem (pack strat mem) \<and> inflates I (pack strat mem) mem)"

text \<open>A file: what is written to \<open>fp\<close> is what a reader of the file finds.\<close>

definition file_keeps :: "'f fops \<Rightarrow> ('f \<Rightarrow> 'f) \<Rightarrow> 'f \<Rightarrow> bool" where
  "file_keeps F reopen fp \<longleftrightarrow> (\<forall>bs. \<exists>fp'. writes_all F fp bs fp' \<and> reads_all F (reopen fp') bs)"

section \<open>The loops\<close>

lemma compress_loop_ok:
  assumes "serves call deflate_ok deflate_ok z out" and "buffer_inv b" and "length (contents b) + length out + CHUNK_SIZE \<le> 2 ^ 63"
  shows "(\<exists>b'. compress_loop mal call z b = Some (NBT_OK, b') \<and> live b' \<and> contents b' = contents b @ out) \<or>
    compress_loop mal call z b = Some (NBT_EMEM, BUFFER_INIT) \<and> (\<exists>n. \<not> mal n)"
  using assms
proof (induction arbitrary: b rule: serves.induct)
  case (last_chunk z code out z')
  then have "length (contents b) + CHUNK_SIZE \<le> 2 ^ 63" by simp
  with last_chunk.prems(1) show ?case
  proof (cases rule: chunk_round [where mal = mal])
    case (put b1)
    from put(2) [of out] last_chunk.hyps obtain b2 where b2: "put_chunk b1 out = Some b2" "live b2" "contents b2 = contents b @ out"
      by auto
    with put(1) last_chunk.hyps show ?thesis
      by (auto simp: compress_loop.simps [of mal call z b] deflate_ok_def)
  next
    case (refused b1 n)
    then show ?thesis by (auto simp: compress_loop.simps [of mal call z b])
  qed
next
  case (full_chunk z code bs z' out)
  then have "length (contents b) + CHUNK_SIZE \<le> 2 ^ 63" by simp
  with full_chunk.prems(1) show ?case
  proof (cases rule: chunk_round [where mal = mal])
    case (put b1)
    from put(2) [of bs] full_chunk.hyps obtain b2 where b2: "put_chunk b1 bs = Some b2" "live b2" "contents b2 = contents b @ bs"
      by auto
    from b2 full_chunk.prems(2) have "length (contents b2) + length out + CHUNK_SIZE \<le> 2 ^ 63" by simp
    from full_chunk.IH [OF live_inv [OF b2(2)] this] b2 put(1) full_chunk.hyps show ?thesis
      by (auto simp: compress_loop.simps [of mal call z b] deflate_ok_def)
  next
    case (refused b1 n)
    then show ?thesis by (auto simp: compress_loop.simps [of mal call z b])
  qed
qed

lemma decompress_loop_ok:
  assumes "serves call inflate_ok fin z out" and "buffer_inv b" and "length (contents b) + length out + CHUNK_SIZE \<le> 2 ^ 63"
    and fin: "\<And>c. fin c \<Longrightarrow> (if complete then c = Z_STREAM_END else c \<noteq> Z_STREAM_END \<and> c \<noteq> Z_MEM_ERROR)"
  shows "(\<exists>b'. decompress_loop mal call z b = Some (if complete then (NBT_OK, b') else (NBT_EZ, BUFFER_INIT)) \<and>
      live b' \<and> contents b' = contents b @ out) \<or>
    decompress_loop mal call z b = Some (NBT_EMEM, BUFFER_INIT) \<and> (\<exists>n. \<not> mal n)"
  using assms(1-3)
proof (induction arbitrary: b rule: serves.induct)
  case (last_chunk z code out z')
  then have "length (contents b) + CHUNK_SIZE \<le> 2 ^ 63" by simp
  with last_chunk.prems(1) show ?case
  proof (cases rule: chunk_round [where mal = mal])
    case (put b1)
    from put(2) [of out] last_chunk.hyps obtain b2 where b2: "put_chunk b1 out = Some b2" "live b2" "contents b2 = contents b @ out"
      by auto
    with put(1) last_chunk.hyps fin [OF last_chunk.hyps(3)] show ?thesis
      by (auto simp: decompress_loop.simps [of mal call z b] z_codes split: if_splits)
  next
    case (refused b1 n)
    then show ?thesis by (auto simp: decompress_loop.simps [of mal call z b])
  qed
next
  case (full_chunk z code bs z' out)
  then have "length (contents b) + CHUNK_SIZE \<le> 2 ^ 63" by simp
  with full_chunk.prems(1) show ?case
  proof (cases rule: chunk_round [where mal = mal])
    case (put b1)
    from put(2) [of bs] full_chunk.hyps obtain b2 where b2: "put_chunk b1 bs = Some b2" "live b2" "contents b2 = contents b @ bs"
      by auto
    from b2 full_chunk.prems(2) have "length (contents b2) + length out + CHUNK_SIZE \<le> 2 ^ 63" by simp
    from full_chunk.IH [OF live_inv [OF b2(2)] this] b2 put(1) full_chunk.hyps show ?thesis
      by (auto simp: decompress_loop.simps [of mal call z b] inflate_ok_def)
  next
    case (refused b1 n)
    then show ?thesis by (auto simp: decompress_loop.simps [of mal call z b])
  qed
qed

lemma read_loop_ok:
  assumes "reads_all F fp bs" and "buffer_inv b" and "length (contents b) + length bs + CHUNK_SIZE \<le> 2 ^ 63"
  shows "(\<exists>b' fp'. read_loop mal F e fp b = Some (e, b', fp') \<and> live b' \<and> contents b' = contents b @ bs) \<or>
    (\<exists>fp'. read_loop mal F e fp b = Some (NBT_EMEM, BUFFER_INIT, fp')) \<and> (\<exists>n. \<not> mal n)"
  using assms
proof (induction arbitrary: b rule: reads_all.induct)
  case (at_end fp bs fp')
  then have "length (contents b) + CHUNK_SIZE \<le> 2 ^ 63" by simp
  with at_end.prems(1) show ?case
  proof (cases rule: chunk_round [where mal = mal])
    case (put b1)
    from put(2) [of bs] at_end.hyps obtain b2 where b2: "put_chunk b1 bs = Some b2" "live b2" "contents b2 = contents b @ bs"
      by auto
    with put(1) at_end.hyps show ?thesis by (auto simp: read_loop.simps [of mal F e fp b])
  next
    case (refused b1 n)
    then show ?thesis by (auto simp: read_loop.simps [of mal F e fp b])
  qed
next
  case (read_more fp bs fp' rest)
  then have "length (contents b) + CHUNK_SIZE \<le> 2 ^ 63" by simp
  with read_more.prems(1) show ?case
  proof (cases rule: chunk_round [where mal = mal])
    case (put b1)
    from put(2) [of bs] read_more.hyps obtain b2 where b2: "put_chunk b1 bs = Some b2" "live b2" "contents b2 = contents b @ bs"
      by auto
    from b2 read_more.prems(2) have "length (contents b2) + length rest + CHUNK_SIZE \<le> 2 ^ 63" by simp
    from read_more.IH [OF live_inv [OF b2(2)] this] b2 put(1) read_more.hyps show ?thesis
      by (auto simp: read_loop.simps [of mal F e fp b])
  next
    case (refused b1 n)
    then show ?thesis by (auto simp: read_loop.simps [of mal F e fp b])
  qed
qed

lemma write_file_ok: "writes_all F fp bs fp' \<Longrightarrow> write_file F fp bs = Some (NBT_OK, fp')"
  by (induction rule: writes_all.induct) (subst write_file.simps, simp)+


section \<open>Compression and decompression\<close>

lemma window_bits: "(if strat = STRAT_GZIP then 15 + 16 else 15) = window strat"
  by (simp add: window_def)

lemma compress_ok:
  assumes "deflates Z strat mem packed" and "length mem < 2 ^ 32" and "length packed < 2 ^ 32"
  shows "(\<exists>b. compress mal Z mem strat = Some (NBT_OK, b) \<and> live b \<and> contents b = packed) \<or>
    compress mal Z mem strat = Some (NBT_EMEM, BUFFER_INIT) \<and> (\<exists>n. \<not> mal n)"
proof -
  from assms(1) obtain z where z: "z_init Z (window strat) mem = (Z_OK, z)"
    and serves: "serves (z_call Z) deflate_ok deflate_ok z packed"
    by (auto simp: deflates_def)
  have "length (contents BUFFER_INIT) + length packed + CHUNK_SIZE \<le> 2 ^ 63"
    using assms(3) by (simp add: CHUNK_SIZE_def)
  from compress_loop_ok [OF serves buffer_inv_init(1) this, of mal] z assms(2) show ?thesis
    unfolding compress_def Let_def window_bits by simp
qed

lemma decompress_ok:
  assumes z: "z_init Z 47 packed = (Z_OK, z)" and "serves (z_call Z) inflate_ok fin z out"
    and "length packed < 2 ^ 32" and "length out < 2 ^ 62"
    and fin: "\<And>c. fin c \<Longrightarrow> (if complete then c = Z_STREAM_END else c \<noteq> Z_STREAM_END \<and> c \<noteq> Z_MEM_ERROR)"
  shows "(\<exists>b. decompress mal Z packed = Some (if complete then (NBT_OK, b) else (NBT_EZ, BUFFER_INIT)) \<and>
      live b \<and> contents b = out) \<or>
    decompress mal Z packed = Some (NBT_EMEM, BUFFER_INIT) \<and> (\<exists>n. \<not> mal n)"
proof -
  have "length (contents BUFFER_INIT) + length out + CHUNK_SIZE \<le> 2 ^ 63"
    using assms(4) by (simp add: CHUNK_SIZE_def)
  from decompress_loop_ok [OF assms(2) buffer_inv_init(1) this fin, of mal] z assms(3) show ?thesis
    by (simp add: decompress_def)
qed

lemma inflates_decompress:
  assumes "inflates Z packed mem" and "length packed < 2 ^ 32" and "length mem < 2 ^ 62"
  shows "(\<exists>b. decompress mal Z packed = Some (NBT_OK, b) \<and> live b \<and> contents b = mem) \<or>
    decompress mal Z packed = Some (NBT_EMEM, BUFFER_INIT) \<and> (\<exists>n. \<not> mal n)"
proof -
  from assms(1) obtain z where "z_init Z 47 packed = (Z_OK, z)"
    "serves (z_call Z) inflate_ok (\<lambda>c. c = Z_STREAM_END) z mem"
    by (auto simp: inflates_def)
  from decompress_ok [OF this assms(2,3), where complete = True and mal = mal] show ?thesis
    by (simp add: inflate_ok_def z_codes)
qed

lemma live_data: "live b \<Longrightarrow> data b \<noteq> None"
  by (simp add: live_def)

lemma data_init: "data BUFFER_INIT = None"
  by (simp add: BUFFER_INIT_def)

section \<open>Saving and loading a tree\<close>

lemma nbt_dump_wire:
  assumes "wf_nbt nd" and "length (wire_node nd) \<le> 2 ^ 63"
  shows "(\<exists>b. nbt_dump_binary mal (Some nd) = Some (b, NBT_OK) \<and> data b \<noteq> None \<and> contents b = wire_node nd) \<or>
    (\<exists>b. nbt_dump_binary mal (Some nd) = Some (b, NBT_EMEM) \<and> data b = None \<and> (\<exists>n. \<not> mal n))"
proof -
  have "length (contents BUFFER_INIT) + length (wire_node nd) \<le> 2 ^ 63" using assms(2) by simp
  from dumps_node [OF assms(1), of mal] buffer_inv_init(1) this show ?thesis
  proof (cases rule: sink.writesD)
    case (written b')
    then have "contents b' \<noteq> []" by (simp add: wire_node_def)
    then have "data b' \<noteq> None" by (auto simp: contents_def split: option.splits)
    with written show ?thesis by (simp add: nbt_dump_binary_def)
  qed (auto simp: nbt_dump_binary_def)
qed

lemma nbt_parse_wire:
  assumes "wf_nbt nd" and "length (wire_node nd) \<le> unat n"
  shows "nbt_parse plenty (wire_node nd) n = Some (Some nd, NBT_OK)"
proof -
  have "2 * length (wire_payload (payload nd)) + 2 \<le> parse_fuel (wire_node nd)"
    by (simp add: parse_fuel_def wire_node_def)
  from parses_named [OF assms(1) this, unfolded parses_def, rule_format, of "parse_start (wire_node nd) n" "[]"] assms(2)
  show ?thesis by (auto simp: nbt_parse_def parse_start_def)
qed

lemma dump_compressed_ok:
  assumes "wf_nbt nd" and "length (wire_node nd) < 2 ^ 32"
    and "deflates Z strat (wire_node nd) packed" and "length packed < 2 ^ 32"
  shows "(\<exists>b. nbt_dump_compressed mal Z (Some nd) strat = Some (NBT_OK, b) \<and> live b \<and> contents b = packed) \<or>
    nbt_dump_compressed mal Z (Some nd) strat = Some (NBT_EMEM, BUFFER_INIT) \<and> (\<exists>n. \<not> mal n)"
proof -
  from assms(2) have "length (wire_node nd) \<le> 2 ^ 63" by simp
  from nbt_dump_wire [OF assms(1) this, of mal] compress_ok [OF assms(3,2,4), of mal] show ?thesis
    by (auto simp: nbt_dump_compressed_def)
qed

lemma parse_compressed_ok:
  assumes "wf_nbt nd" and "length (wire_node nd) < 2 ^ 32"
    and "inflates Z packed (wire_node nd)" and "length packed < 2 ^ 32"
  shows "nbt_parse_compressed mal plenty Z packed = Some (Some nd, NBT_OK) \<or>
    nbt_parse_compressed mal plenty Z packed = Some (None, NBT_EMEM) \<and> (\<exists>n. \<not> mal n)"
proof -
  from assms(2) have "length (wire_node nd) < 2 ^ 62" by simp
  from inflates_decompress [OF assms(3,4) this, of mal] show ?thesis
  proof (elim disjE exE conjE)
    fix b
    assume b: "decompress mal Z packed = Some (NBT_OK, b)" "live b" "contents b = wire_node nd"
    then have "length (wire_node nd) \<le> unat (len b)" using unat_len_contents [of b] by (auto simp: live_def)
    from nbt_parse_wire [OF assms(1) this] b live_data [OF b(2)] show ?thesis
      by (simp add: nbt_parse_compressed_def)
  qed (auto simp: nbt_parse_compressed_def data_init)
qed

section \<open>Properties\<close>

text \<open>C8. Saving and loading: for a zlib whose decompressor inverts its compressor and a file that keeps what is written, a well-formed tree
  saved by \<^verbatim>\<open>nbt_dump_file\<close> with either strategy is given back by \<^verbatim>\<open>nbt_parse_path\<close> on that file, through the chunk loops of
  \<^verbatim>\<open>__compress\<close>, \<^verbatim>\<open>write_file\<close>, \<^verbatim>\<open>read_file\<close> and \<^verbatim>\<open>__decompress\<close>, all of which end.\<close>

theorem load_after_save:
  assumes "wf_nbt nd" and "length (wire_node nd) < 2 ^ 32" and "length (pack strat (wire_node nd)) < 2 ^ 32"
    and "zlib_inverts D I pack" and "file_keeps F reopen fp"
  shows "\<exists>fp'. nbt_dump_file (\<lambda>_. True) D F (Some nd) fp strat = Some (NBT_OK, fp') \<and>
    nbt_parse_path (\<lambda>_. True) plenty I F (\<lambda>_. Some (reopen fp')) path = Some (Some nd, NBT_OK)"
proof -
  let ?packed = "pack strat (wire_node nd)"
  from assms(2,4) have d: "deflates D strat (wire_node nd) ?packed" and i: "inflates I ?packed (wire_node nd)"
    by (simp_all add: zlib_inverts_def)
  from dump_compressed_ok [OF assms(1,2) d assms(3), of "\<lambda>_. True"] obtain b where
    b: "nbt_dump_compressed (\<lambda>_. True) D (Some nd) strat = Some (NBT_OK, b)" "live b" "contents b = ?packed" by auto
  from assms(5) obtain fp' where fp': "writes_all F fp ?packed fp'" "reads_all F (reopen fp') ?packed"
    by (auto simp: file_keeps_def)
  have "length (contents BUFFER_INIT) + length ?packed + CHUNK_SIZE \<le> 2 ^ 63"
    using assms(3) by (simp add: CHUNK_SIZE_def)
  from read_loop_ok [OF fp'(2) buffer_inv_init(1) this, of "\<lambda>_. True" NBT_OK] obtain c fp'' where
    c: "read_file (\<lambda>_. True) F NBT_OK (reopen fp') = Some (NBT_OK, c, fp'')" "live c" "contents c = ?packed"
    by (auto simp: read_file_def)
  from parse_compressed_ok [OF assms(1,2) i assms(3), of "\<lambda>_. True"] c live_data [OF c(2)]
  have "nbt_parse_path (\<lambda>_. True) plenty I F (\<lambda>_. Some (reopen fp')) path = Some (Some nd, NBT_OK)"
    by (auto simp: nbt_parse_path_def nbt_parse_file_def)
  moreover have "nbt_dump_file (\<lambda>_. True) D F (Some nd) fp strat = Some (NBT_OK, fp')"
    using b live_data [OF b(2)] write_file_ok [OF fp'(1)] by (auto simp: nbt_dump_file_def)
  ultimately show ?thesis by blast
qed

text \<open>A codec that stores the bytes, and a file that takes and gives up to 3000 bytes at a time.\<close>

definition stored :: "byte list zops" where
  "stored = \<lparr>z_init = \<lambda>w mem. (Z_OK, mem),
     z_call = \<lambda>z n. (if length z < n then Z_STREAM_END else Z_OK, take n z, drop n z)\<rparr>"

definition plain_file :: "(byte list \<times> bool) fops" where
  "plain_file = \<lparr>f_read = \<lambda>(bs, eof) n. (take n bs, drop n bs, length bs < n),
     f_write = \<lambda>(bs, eof) out. (min 3000 (length out), bs @ take 3000 out, eof),
     f_error = \<lambda>_. False, f_eof = snd\<rparr>"

lemma stored_serves:
  assumes "good Z_OK" and "fin Z_STREAM_END"
  shows "serves (z_call stored) good fin z z"
proof (induction "length z" arbitrary: z rule: less_induct)
  case less
  show ?case
  proof (cases "length z < CHUNK_SIZE")
    case True
    with assms show ?thesis by (intro last_chunk) (simp_all add: stored_def)
  next
    case False
    then have "serves (z_call stored) good fin (drop CHUNK_SIZE z) (drop CHUNK_SIZE z)"
      by (intro less) (simp add: CHUNK_SIZE_def)
    with False assms have "serves (z_call stored) good fin z (take CHUNK_SIZE z @ drop CHUNK_SIZE z)"
      by (intro full_chunk) (simp_all add: stored_def)
    then show ?thesis by simp
  qed
qed

lemma stored_inverts: "zlib_inverts stored stored (\<lambda>_ mem. mem)"
  using stored_serves [of deflate_ok deflate_ok] stored_serves [of inflate_ok "\<lambda>c. c = Z_STREAM_END"]
  by (auto simp: zlib_inverts_def deflates_def inflates_def deflate_ok_def inflate_ok_def stored_def z_codes)

lemma plain_file_write:
  "f_write plain_file (bs, e) out = (min 3000 (length out), bs @ take 3000 out, e)" "\<not> f_error plain_file fp"
  by (simp_all add: plain_file_def)

lemma plain_file_writes: "writes_all plain_file (bs, e) out (bs @ out, e)"
proof (induction "length out" arbitrary: out bs rule: less_induct)
  case less
  show ?case
  proof (cases "length out \<le> 3000")
    case True
    then show ?thesis by (intro wrote) (simp_all add: plain_file_write)
  next
    case False
    then have "writes_all plain_file (bs @ take 3000 out, e) (drop 3000 out) ((bs @ take 3000 out) @ drop 3000 out, e)"
      by (intro less) simp
    then have rest: "writes_all plain_file (bs @ take 3000 out, e) (drop 3000 out) (bs @ out, e)"
      unfolding append_assoc append_take_drop_id .
    from False have "f_write plain_file (bs, e) out = (3000, bs @ take 3000 out, e)" and "3000 < length out"
      by (simp_all add: plain_file_write)
    then show ?thesis using plain_file_write(2) rest by (rule wrote_part)
  qed
qed

lemma plain_file_reads: "reads_all plain_file (bs, e) bs"
proof (induction "length bs" arbitrary: bs e rule: less_induct)
  case less
  show ?case
  proof (cases "length bs < CHUNK_SIZE")
    case True
    then show ?thesis by (intro at_end [where fp' = "([], True)"]) (simp_all add: plain_file_def)
  next
    case False
    then have "reads_all plain_file (drop CHUNK_SIZE bs, False) (drop CHUNK_SIZE bs)"
      by (intro less) (simp add: CHUNK_SIZE_def)
    with False have "reads_all plain_file (bs, e) (take CHUNK_SIZE bs @ drop CHUNK_SIZE bs)"
      by (intro read_more [where fp' = "(drop CHUNK_SIZE bs, False)"]) (simp_all add: plain_file_def)
    then show ?thesis by simp
  qed
qed

lemma plain_file_keeps: "file_keeps plain_file (\<lambda>fp. fp) ([], False)"
  unfolding file_keeps_def using plain_file_writes [of "[]" False] plain_file_reads by fastforce

theorem load_after_save_witness:
  "\<exists>fp'. nbt_dump_file (\<lambda>_. True) stored plain_file (Some sample_tree) ([], False) STRAT_GZIP = Some (NBT_OK, fp') \<and>
    nbt_parse_path (\<lambda>_. True) plenty stored plain_file (\<lambda>_. Some fp') ''level.dat'' = Some (Some sample_tree, NBT_OK)"
  by (rule load_after_save [OF wf_sample_tree _ _ stored_inverts plain_file_keeps]) (simp_all add: length_sample_tree)

text \<open>Damaged files: when the decompressor stops with room to spare and any code but \<open>Z_STREAM_END\<close> (the input is cut off), or reports
  corrupt data, \<^verbatim>\<open>nbt_parse_compressed\<close> returns \<open>NULL\<close> with \<open>NBT_EZ\<close>, or \<open>NBT_EMEM\<close> if an allocation was refused; it never parses a partial
  image.\<close>

theorem damaged_stream_rejected:
  assumes "z_init Z 47 packed = (Z_OK, z)"
    and "serves (z_call Z) inflate_ok (\<lambda>c. c \<noteq> Z_STREAM_END \<and> c \<noteq> Z_MEM_ERROR) z out"
    and "length packed < 2 ^ 32" and "length out < 2 ^ 62"
  shows "nbt_parse_compressed mal pal Z packed = Some (None, NBT_EZ) \<or>
    nbt_parse_compressed mal pal Z packed = Some (None, NBT_EMEM) \<and> (\<exists>n. \<not> mal n)"
proof -
  from decompress_ok [OF assms, where complete = False and mal = mal] show ?thesis
    by (auto simp: nbt_parse_compressed_def data_init)
qed

definition cut_off :: "byte list zops" where
  "cut_off = stored\<lparr>z_call := \<lambda>z n. (if length z < n then Z_BUF_ERROR else Z_OK, take n z, drop n z)\<rparr>"

theorem damaged_stream_rejected_witness:
  "nbt_parse_compressed (\<lambda>n. n \<le> 1024) plenty cut_off [10, 0] = Some (None, NBT_EZ) \<or>
    nbt_parse_compressed (\<lambda>n. n \<le> 1024) plenty cut_off [10, 0] = Some (None, NBT_EMEM) \<and> (\<exists>n. \<not> n \<le> (1024 :: nat))"
  by (rule damaged_stream_rejected [where z = "[10, 0]" and out = "[10, 0]"])
    (auto simp: cut_off_def stored_def z_codes CHUNK_SIZE_def intro: last_chunk)

text \<open>\<^verbatim>\<open>nbt_dump_compressed\<close> tests only the data pointer of \<^verbatim>\<open>nbt_dump_binary\<close>, and \<^verbatim>\<open>__compress\<close> resets \<^verbatim>\<open>errno\<close>: when the
  writer has failed (with any status) after some bytes, those bytes are compressed and written to the file, and \<^verbatim>\<open>nbt_dump_file\<close> returns
  \<open>NBT_OK\<close>.\<close>

theorem save_drops_writer_error:
  assumes "nbt_dump_binary (\<lambda>_. True) tree = Some (b, err)" and "data b \<noteq> None"
    and "length (contents b) < 2 ^ 32" and "length packed < 2 ^ 32"
    and "deflates D strat (contents b) packed" and "writes_all F fp packed fp'"
  shows "nbt_dump_file (\<lambda>_. True) D F tree fp strat = Some (NBT_OK, fp')"
proof -
  from compress_ok [OF assms(5,3,4), of "\<lambda>_. True"] obtain c where
    c: "compress (\<lambda>_. True) D (contents b) strat = Some (NBT_OK, c)" "live c" "contents c = packed" by auto
  with assms(1,2) live_data [OF c(2)] write_file_ok [OF assms(6)] show ?thesis
    by (auto simp: nbt_dump_file_def nbt_dump_compressed_def)
qed

text \<open>A compound of a long array, which the writer does not support: the file gets the first six bytes of the tree.\<close>

definition unwritable :: nbt_node where
  "unwritable = nbt_node (Some []) (tag_compound [nbt_node (Some []) (tag_long_array (Some [1, 2]) 2)])"

lemma unwritable_dump:
  "\<exists>b. nbt_dump_binary (\<lambda>_. True) (Some unwritable) = Some (b, NBT_ERR) \<and> data b \<noteq> None \<and> contents b = [10, 0, 0, 12, 0, 0]"
proof -
  have h: "dumps (\<lambda>_. True) (andthen (dump_header (\<lambda>_. True) (Some []) TAG_COMPOUND True)
      (dump_header (\<lambda>_. True) (Some []) TAG_LONG_ARRAY True)) [10, 0, 0, 12, 0, 0]"
    using dumps_andthen [OF dumps_header [of "Some []" "\<lambda>_. True" TAG_COMPOUND True]
        dumps_header [of "Some []" "\<lambda>_. True" TAG_LONG_ARRAY True] refl]
    by (simp add: wire_name_def wire_cstr_Nil wf_cstr_Nil)
  have "length (contents BUFFER_INIT) + length [10 :: byte, 0, 0, 12, 0, 0] \<le> 2 ^ 63" by simp
  from h buffer_inv_init(1) this show ?thesis
  proof (cases rule: sink.writesD)
    case (written b')
    then have "contents b' \<noteq> []" by simp
    then have "data b' \<noteq> None" by (auto simp: contents_def split: option.splits)
    with written show ?thesis
      by (auto simp: nbt_dump_binary_def dump_binary_def andthen_def unwritable_def split: Option.bind_splits if_splits)
  qed simp
qed

theorem save_drops_writer_error_witness:
  "\<exists>b. nbt_dump_binary (\<lambda>_. True) (Some unwritable) = Some (b, NBT_ERR) \<and>
    nbt_dump_file (\<lambda>_. True) stored plain_file (Some unwritable) ([], False) STRAT_INFLATE =
      Some (NBT_OK, ([10, 0, 0, 12, 0, 0], False))"
proof -
  from unwritable_dump obtain b where b: "nbt_dump_binary (\<lambda>_. True) (Some unwritable) = Some (b, NBT_ERR)"
    "data b \<noteq> None" "contents b = [10, 0, 0, 12, 0, 0]" by blast
  have "deflates stored STRAT_INFLATE (contents b) (contents b)"
    using stored_inverts b(3) by (simp add: zlib_inverts_def)
  from save_drops_writer_error [OF b(1,2) _ _ this plain_file_writes [of "[]" False]] b show ?thesis by simp
qed

end
