(* ===== verification/SdsMem.thy ===== *)
theory SdsMem
  imports Sds Buffer
begin

text \<open>
  Dynamic strings as \<^verbatim>\<open>src/sds.c\<close> lays them out in memory. A string is one allocated block: a header whose
  type is in the low three bits of the byte before the text, the text, a terminating zero byte and
  free space. \<open>blk\<close> is the block and \<open>off\<close> the position of the text in it, which is what an \<^verbatim>\<open>sds\<close> pointer
  points to. Header fields are read and written at their byte offsets (\<^verbatim>\<open>SDS_HDR(T,s)->len\<close>), so that a
  string whose header is misread, or a write outside the block, is visible as \<open>None\<close>.

  An allocation is answered by \<open>mal\<close>; fresh memory is unwritten. The results are \<open>None\<close> for undefined behaviour,
  \<open>Some None\<close> for a returned \<open>NULL\<close> (the old string is then still there, unchanged) and \<open>Some (Some s)\<close>.
  \<open>sds_rep xs s\<close> says that the block \<open>s\<close> is a string with text \<open>xs\<close>; it abstracts the block to the byte list
  that the theory \<open>Sds\<close> and the codecs work with.
\<close>

section \<open>Blocks and header fields\<close>

record sdsmem =
  blk :: block
  off :: nat

definition ld :: "nat \<Rightarrow> nat \<Rightarrow> sdsmem \<Rightarrow> byte list option" where
  "ld p n s =
     (let cells = take n (drop p (blk s)) in
      if p + n \<le> length (blk s) \<and> None \<notin> set cells then Some (map the cells) else None)"

definition st :: "nat \<Rightarrow> byte list \<Rightarrow> sdsmem \<Rightarrow> sdsmem option" where
  "st p bs s = do { b \<leftarrow> mem_write p bs (blk s); Some (s\<lparr>blk := b\<rparr>) }"

text \<open>A field of \<open>w\<close> bytes that starts \<open>d\<close> bytes before the text.\<close>

definition hdr_rd :: "nat \<Rightarrow> nat \<Rightarrow> sdsmem \<Rightarrow> u64 option" where
  "hdr_rd w d s = (if d \<le> off s then do { bs \<leftarrow> ld (off s - d) w s; Some (bytes_word bs) } else None)"

definition hdr_wr :: "nat \<Rightarrow> nat \<Rightarrow> u64 \<Rightarrow> sdsmem \<Rightarrow> sdsmem option" where
  "hdr_wr w d v s = (if d \<le> off s then st (off s - d) (word_bytes w v) s else None)"

text \<open>The packed headers: \<^verbatim>\<open>len\<close> and \<^verbatim>\<open>alloc\<close> of \<open>w\<close> bytes each, then the flags byte \<^verbatim>\<open>s[-1]\<close>.\<close>

definition rd_flags :: "sdsmem \<Rightarrow> u64 option" where "rd_flags = hdr_rd 1 1"
definition wr_flags :: "u64 \<Rightarrow> sdsmem \<Rightarrow> sdsmem option" where "wr_flags = hdr_wr 1 1"

definition rd_len :: "nat \<Rightarrow> sdsmem \<Rightarrow> u64 option" where "rd_len w = hdr_rd w (2 * w + 1)"
definition wr_len :: "nat \<Rightarrow> u64 \<Rightarrow> sdsmem \<Rightarrow> sdsmem option" where "wr_len w = hdr_wr w (2 * w + 1)"
definition rd_alloc :: "nat \<Rightarrow> sdsmem \<Rightarrow> u64 option" where "rd_alloc w = hdr_rd w (w + 1)"
definition wr_alloc :: "nat \<Rightarrow> u64 \<Rightarrow> sdsmem \<Rightarrow> sdsmem option" where "wr_alloc w = hdr_wr w (w + 1)"

definition SDS_TYPE_MASK :: u64 where "SDS_TYPE_MASK = 7"
definition SDS_TYPE_5_LEN :: "u64 \<Rightarrow> u64" where "SDS_TYPE_5_LEN f = drop_bit 3 f"
definition SDS_MAX_PREALLOC :: u64 where "SDS_MAX_PREALLOC = 1024 * 1024"

text \<open>\<^verbatim>\<open>switch(flags & SDS_TYPE_MASK)\<close>: the four cases that only differ in the width of the fields get that width.\<close>

definition sds_type :: "u64 \<Rightarrow> nat" where
  "sds_type flags = unat (flags AND SDS_TYPE_MASK)"

definition sds_switch :: "nat \<Rightarrow> 'a \<Rightarrow> (nat \<Rightarrow> 'a) \<Rightarrow> 'a \<Rightarrow> 'a" where
  "sds_switch t case5 casew dflt =
     (if t = SDS_TYPE_5 then case5
      else if t = SDS_TYPE_8 then casew 1 else if t = SDS_TYPE_16 then casew 2
      else if t = SDS_TYPE_32 then casew 4 else if t = SDS_TYPE_64 then casew 8 else dflt)"

text \<open>\<^verbatim>\<open>sh->alloc - sh->len\<close> as a \<^verbatim>\<open>size_t\<close>: the 32-bit difference wraps at its width, the narrower ones are
  computed as \<^verbatim>\<open>int\<close>.\<close>

definition fsub :: "nat \<Rightarrow> u64 \<Rightarrow> u64 \<Rightarrow> u64" where
  "fsub w a l = (if w = 4 then ucast (ucast a - ucast l :: u32) else a - l)"

definition sdslen_m :: "sdsmem \<Rightarrow> u64 option" where
  "sdslen_m s = do { flags \<leftarrow> rd_flags s;
     sds_switch (sds_type flags) (Some (SDS_TYPE_5_LEN flags)) (\<lambda>w. rd_len w s) (Some 0) }"

definition sdsavail :: "sdsmem \<Rightarrow> u64 option" where
  "sdsavail s = do { flags \<leftarrow> rd_flags s;
     sds_switch (sds_type flags) (Some 0)
       (\<lambda>w. do { a \<leftarrow> rd_alloc w s; l \<leftarrow> rd_len w s; Some (fsub w a l) }) (Some 0) }"

definition sdssetlen :: "u64 \<Rightarrow> sdsmem \<Rightarrow> sdsmem option" where
  "sdssetlen newlen s = do { flags \<leftarrow> rd_flags s;
     sds_switch (sds_type flags) (wr_flags (of_nat SDS_TYPE_5 OR push_bit 3 newlen) s)
       (\<lambda>w. wr_len w newlen s) (Some s) }"

definition sdsinclen :: "u64 \<Rightarrow> sdsmem \<Rightarrow> sdsmem option" where
  "sdsinclen inc s = do { flags \<leftarrow> rd_flags s;
     sds_switch (sds_type flags)
       (let newlen = SDS_TYPE_5_LEN flags + inc in wr_flags (of_nat SDS_TYPE_5 OR push_bit 3 (take_bit 8 newlen)) s)
       (\<lambda>w. do { l \<leftarrow> rd_len w s; wr_len w (l + inc) s }) (Some s) }"

definition sdsalloc :: "sdsmem \<Rightarrow> u64 option" where
  "sdsalloc s = do { flags \<leftarrow> rd_flags s;
     sds_switch (sds_type flags) (Some (SDS_TYPE_5_LEN flags)) (\<lambda>w. rd_alloc w s) (Some 0) }"

definition sdssetalloc :: "u64 \<Rightarrow> sdsmem \<Rightarrow> sdsmem option" where
  "sdssetalloc newlen s = do { flags \<leftarrow> rd_flags s;
     sds_switch (sds_type flags) (Some s) (\<lambda>w. wr_alloc w newlen s) (Some s) }"

section \<open>Creation\<close>

text \<open>The \<open>init\<close> argument of \<^verbatim>\<open>sdsnewlen\<close>: \<^verbatim>\<open>NULL\<close>, the marker \<^verbatim>\<open>SDS_NOINIT\<close> or a pointer to bytes. With \<^verbatim>\<open>NULL\<close> the block is
  cleared before its allocation is checked.\<close>

datatype sds_init = Null | Noinit | Init ptr

definition init_header :: "nat \<Rightarrow> u64 \<Rightarrow> sdsmem \<Rightarrow> sdsmem option" where
  "init_header type initlen s =
     sds_switch type (wr_flags (of_nat type OR push_bit 3 initlen) s)
       (\<lambda>w. do { s \<leftarrow> wr_len w initlen s; s \<leftarrow> wr_alloc w initlen s; wr_flags (of_nat type) s }) (Some s)"

definition sdsnewlen_m :: "(nat \<Rightarrow> bool) \<Rightarrow> sds_init \<Rightarrow> u64 \<Rightarrow> sdsmem option option" where
  "sdsnewlen_m mal init initlen =
     (let type = sdsReqType initlen;
          type = (if type = SDS_TYPE_5 \<and> initlen = 0 then SDS_TYPE_8 else type);
          hdrlen = sdsHdrSize type;
          n = unat (hdrlen + initlen + 1)
      in if \<not> mal n then (if init = Null then None else Some None)
         else do {
           let sh = replicate n (if init = Null then Some 0 else None);
           s \<leftarrow> init_header type initlen \<lparr>blk = sh, off = unat hdrlen\<rparr>;
           s \<leftarrow> (case init of
                  Init p \<Rightarrow> if initlen \<noteq> 0 then do { (bs, _) \<leftarrow> memrd (unat initlen) p; st (off s) bs s } else Some s
                | _ \<Rightarrow> Some s);
           s \<leftarrow> st (off s + unat initlen) [0] s;
           Some (Some s) })"

definition sdsempty :: "(nat \<Rightarrow> bool) \<Rightarrow> sdsmem option option" where
  "sdsempty mal = sdsnewlen_m mal (Init [0]) 0"

text \<open>\<^verbatim>\<open>strlen\<close> of the object at a pointer: undefined when no zero byte follows.\<close>

fun strlen_at :: "byte option list \<Rightarrow> u64 option" where
  "strlen_at [] = None"
| "strlen_at (None # _) = None"
| "strlen_at (Some c # cs) = (if c = 0 then Some 0 else do { n \<leftarrow> strlen_at cs; Some (n + 1) })"

definition sdsnew_m :: "(nat \<Rightarrow> bool) \<Rightarrow> ptr option \<Rightarrow> sdsmem option option" where
  "sdsnew_m mal init =
     (case init of
        None \<Rightarrow> sdsnewlen_m mal Null 0
      | Some p \<Rightarrow> do { initlen \<leftarrow> strlen_at (map Some p); sdsnewlen_m mal (Init p) initlen })"

text \<open>The bytes from \<^verbatim>\<open>s\<close> on that another function reads through the pointer: the first \<open>n\<close> of them.\<close>

definition sds_bytes :: "u64 \<Rightarrow> sdsmem \<Rightarrow> byte list option" where
  "sds_bytes n s = ld (off s) (unat n) s"

definition sdsdup :: "(nat \<Rightarrow> bool) \<Rightarrow> sdsmem \<Rightarrow> sdsmem option option" where
  "sdsdup mal s = do { l \<leftarrow> sdslen_m s; bs \<leftarrow> sds_bytes l s; sdsnewlen_m mal (Init bs) l }"

text \<open>\<^verbatim>\<open>sdsfree\<close> frees the block if the header size of the type leads back to its start; any other pointer is not one
  \<^verbatim>\<open>malloc\<close> returned. Nothing is left of the string.\<close>

definition sds_start :: "sdsmem \<Rightarrow> unit option" where
  "sds_start s = do { flags \<leftarrow> rd_flags s; if off s = unat (sdsHdrSize (sds_type flags)) then Some () else None }"

definition sdsfree :: "sdsmem option \<Rightarrow> unit option" where
  "sdsfree s = (case s of None \<Rightarrow> Some () | Some s \<Rightarrow> sds_start s)"

definition sdsupdatelen :: "sdsmem \<Rightarrow> sdsmem option" where
  "sdsupdatelen s = do { reallen \<leftarrow> strlen_at (drop (off s) (blk s)); sdssetlen reallen s }"

definition sdsclear :: "sdsmem \<Rightarrow> sdsmem option" where
  "sdsclear s = do { s \<leftarrow> sdssetlen 0 s; st (off s) [0] s }"

section \<open>Room\<close>

text \<open>A fresh block with another header, into which the text and the byte after it are copied (\<^verbatim>\<open>memcpy\<close> copies cells, written or
  not).\<close>

definition move_text :: "nat \<Rightarrow> nat \<Rightarrow> u64 \<Rightarrow> u64 \<Rightarrow> sdsmem \<Rightarrow> sdsmem option" where
  "move_text type n hdrlen slen s =
     (let k = unat (slen + 1); d = unat hdrlen in
      if off s + k \<le> length (blk s) \<and> d + k \<le> n
      then do {
        let cells = replicate d None @ take k (drop (off s) (blk s)) @ replicate (n - d - k) None;
        s \<leftarrow> wr_flags (of_nat type) \<lparr>blk = cells, off = d\<rparr>;
        sdssetlen slen s }
      else None)"

definition sdsMakeRoomFor :: "(nat \<Rightarrow> bool) \<Rightarrow> sdsmem \<Rightarrow> u64 \<Rightarrow> sdsmem option option" where
  "sdsMakeRoomFor mal s addlen = do {
     avail \<leftarrow> sdsavail s;
     flags \<leftarrow> rd_flags s;
     let oldtype = sds_type flags;
     if addlen \<le> avail then Some (Some s)
     else do {
       slen \<leftarrow> sdslen_m s;
       _ \<leftarrow> sds_start s;
       let newlen = slen + addlen;
       let newlen = (if newlen < SDS_MAX_PREALLOC then newlen * 2 else newlen + SDS_MAX_PREALLOC);
       let type = sdsReqType newlen;
       let type = (if type = SDS_TYPE_5 then SDS_TYPE_8 else type);
       let hdrlen = sdsHdrSize type;
       let n = unat (hdrlen + newlen + 1);
       if \<not> mal n then Some None
       else do {
         s \<leftarrow> (if oldtype = type then Some \<lparr>blk = resize n (blk s), off = unat hdrlen\<rparr>
               else move_text type n hdrlen slen s);
         s \<leftarrow> sdssetalloc newlen s;
         Some (Some s) } } }"

definition sdsRemoveFreeSpace :: "(nat \<Rightarrow> bool) \<Rightarrow> sdsmem \<Rightarrow> sdsmem option option" where
  "sdsRemoveFreeSpace mal s = do {
     flags \<leftarrow> rd_flags s;
     let oldtype = sds_type flags;
     let oldhdrlen = sdsHdrSize oldtype;
     slen \<leftarrow> sdslen_m s;
     _ \<leftarrow> sds_start s;
     let type = sdsReqType slen;
     let hdrlen = sdsHdrSize type;
     let keep = (oldtype = type \<or> type > SDS_TYPE_8);
     let n = unat ((if keep then oldhdrlen else hdrlen) + slen + 1);
     if \<not> mal n then Some None
     else do {
       s \<leftarrow> (if keep then Some \<lparr>blk = resize n (blk s), off = unat oldhdrlen\<rparr>
             else move_text type n hdrlen slen s);
       s \<leftarrow> sdssetalloc slen s;
       Some (Some s) } }"

definition sdsAllocSize :: "sdsmem \<Rightarrow> u64 option" where
  "sdsAllocSize s = do { alloc \<leftarrow> sdsalloc s; flags \<leftarrow> rd_flags s;
     Some (sdsHdrSize (sds_type flags) + alloc + 1) }"

text \<open>\<^verbatim>\<open>sdsAllocPtr\<close>: the position in the block of the pointer it returns; a position before the block is no pointer.\<close>

definition sdsAllocPtr :: "sdsmem \<Rightarrow> nat option" where
  "sdsAllocPtr s = do { flags \<leftarrow> rd_flags s;
     let h = unat (sdsHdrSize (sds_type flags)) in if h \<le> off s then Some (off s - h) else None }"

text \<open>\<^verbatim>\<open>sdsIncrLen\<close>. A failed assertion is \<open>Inl ()\<close>. The comparisons have the types C gives them: for the two narrow headers
  the free space is an \<^verbatim>\<open>int\<close> compared as signed with \<open>incr\<close>, for the 32-bit one both sides are cut to 32 bits;
  \<^verbatim>\<open>(unsigned int)(-incr)\<close> is cut to 32 bits except for the widest header. Negating the least \<^verbatim>\<open>ssize_t\<close> overflows.\<close>

definition incr_ok :: "nat \<Rightarrow> u64 \<Rightarrow> u64 \<Rightarrow> u64 \<Rightarrow> bool" where
  "incr_ok w a l incr \<longleftrightarrow>
     (if 0 \<le> sint incr
      then (if w \<le> 2 then sint incr \<le> sint (a - l)
            else if w = 4 then take_bit 32 incr \<le> fsub w a l else incr \<le> a - l)
      else (if w = 8 then - incr \<le> l else take_bit 32 (- incr) \<le> l))"

definition incr5_ok :: "u64 \<Rightarrow> u64 \<Rightarrow> bool" where
  "incr5_ok l incr \<longleftrightarrow>
     0 < sint incr \<and> sint l + sint incr < 32 \<or> sint incr < 0 \<and> take_bit 32 (- incr) \<le> l"

definition sdsIncrLen :: "u64 \<Rightarrow> sdsmem \<Rightarrow> (unit + sdsmem) option" where
  "sdsIncrLen incr s = (if sint incr = - (2 ^ 63) then None else do {
     flags \<leftarrow> rd_flags s;
     r \<leftarrow> sds_switch (sds_type flags)
       (let oldlen = SDS_TYPE_5_LEN flags in
        if 2 ^ 63 \<le> sint oldlen + sint incr then None
        else if \<not> incr5_ok oldlen incr then Some (Inl ())
        else do { s \<leftarrow> wr_flags (of_nat SDS_TYPE_5 OR push_bit 3 (oldlen + incr)) s; Some (Inr (oldlen + incr, s)) })
       (\<lambda>w. do { a \<leftarrow> rd_alloc w s; l \<leftarrow> rd_len w s;
          if \<not> incr_ok w a l incr then Some (Inl ())
          else do { s \<leftarrow> wr_len w (l + incr) s; Some (Inr (take_bit (8 * w) (l + incr), s)) } })
       (Some (Inr (0, s)));
     case r of
       Inl _ \<Rightarrow> Some (Inl ())
     | Inr (newlen, s) \<Rightarrow> do { s \<leftarrow> st (off s + unat newlen) [0] s; Some (Inr s) } })"

section \<open>The layout\<close>

text \<open>The width of the fields and the size of the header of a type, the bytes of a header, and a block made of a header and the cells from the text on.\<close>

definition sds_width :: "nat \<Rightarrow> nat" where
  "sds_width t = (if t = SDS_TYPE_8 then 1 else if t = SDS_TYPE_16 then 2 else if t = SDS_TYPE_32 then 4 else 8)"

definition hdr_size :: "nat \<Rightarrow> nat" where
  "hdr_size t = (if t = SDS_TYPE_5 then 1 else 2 * sds_width t + 1)"

definition hdr_bytes :: "nat \<Rightarrow> nat \<Rightarrow> nat \<Rightarrow> byte list" where
  "hdr_bytes t n a =
     (if t = SDS_TYPE_5 then word_bytes 1 (of_nat (8 * n) :: u64)
      else word_bytes (sds_width t) (of_nat n :: u64) @ word_bytes (sds_width t) (of_nat a :: u64) @ word_bytes 1 (of_nat t :: u64))"

definition sds_img :: "nat \<Rightarrow> nat \<Rightarrow> nat \<Rightarrow> byte option list \<Rightarrow> sdsmem" where
  "sds_img t n a C = \<lparr>blk = map Some (hdr_bytes t n a) @ C, off = hdr_size t\<rparr>"

text \<open>A header of type \<open>t\<close> can say length \<open>n\<close> and capacity \<open>a\<close>; the smallest one has no free space to speak of.\<close>

definition hdr_ok :: "nat \<Rightarrow> nat \<Rightarrow> nat \<Rightarrow> bool" where
  "hdr_ok t n a \<longleftrightarrow> t \<le> SDS_TYPE_64 \<and> n \<le> a \<and> a < 2 ^ 63 \<and>
     (if t = SDS_TYPE_5 then a = n \<and> n < 32 else a < 2 ^ (8 * sds_width t))"

definition sds_rep :: "byte list \<Rightarrow> sdsmem \<Rightarrow> bool" where
  "sds_rep xs s \<longleftrightarrow> (\<exists>t a C. s = sds_img t (length xs) a (map Some xs @ Some 0 # C) \<and> hdr_ok t (length xs) a \<and>
     a \<le> length xs + length C)"

lemma sds_type_cases:
  assumes "t \<le> SDS_TYPE_64"
  obtains "t = 0" | "t = 1" | "t = 2" | "t = 3" | "t = 4"
  using assms by (auto simp: sds_types le_Suc_eq numeral_eq_Suc)

lemma sds_width_range: "sds_width t \<in> {1, 2, 4, 8}" "0 < sds_width t" "sds_width t \<le> 8"
  by (auto simp: sds_width_def)

lemma length_hdr_bytes [simp]: "length (hdr_bytes t n a) = hdr_size t"
  by (simp add: hdr_bytes_def hdr_size_def)

lemma sdsHdrSize_eq: "t \<le> SDS_TYPE_64 \<Longrightarrow> unat (sdsHdrSize t) = hdr_size t"
  by (erule sds_type_cases) (simp_all add: sdsHdrSize_def hdr_size_def sds_width_def sds_types)

lemma hdr_size_bounds: "1 \<le> hdr_size t" "hdr_size t \<le> 17"
  using sds_width_range [of t] by (auto simp: hdr_size_def)

subsection \<open>Fields\<close>

lemma bytes_word_take: "w \<le> 8 \<Longrightarrow> bytes_word (word_bytes w v) = take_bit (8 * w) (v :: u64)"
proof (rule bit_word_eqI)
  fix i
  assume "w \<le> 8" "i < LENGTH(64)"
  moreover have "i div 8 < w \<longleftrightarrow> i < 8 * w" by (auto simp: div_less_iff_less_mult)
  ultimately show "bit (bytes_word (word_bytes w v) :: u64) i = bit (take_bit (8 * w) v) i"
    by (cases "i div 8 < w") (simp_all add: bit_bytes_word word_bytes_def bit_simps)
qed

lemma take_bit_of_nat64: "n < 2 ^ k \<Longrightarrow> take_bit k (of_nat n :: u64) = of_nat n"
  by (simp add: of_nat_take_bit [symmetric] take_bit_nat_eq_self)

lemma bytes_word_of_nat:
  "w \<le> 8 \<Longrightarrow> n < 2 ^ (8 * w) \<Longrightarrow> bytes_word (word_bytes w (of_nat n :: u64)) = (of_nat n :: u64)"
  by (simp add: bytes_word_take take_bit_of_nat64)

lemma ld_mid: "p = length A \<Longrightarrow> n = length bs \<Longrightarrow> blk s = A @ map Some bs @ C \<Longrightarrow> ld p n s = Some bs"
  by (auto simp: ld_def Let_def comp_def)

lemma mem_write_mid:
  "p = length A \<Longrightarrow> length X = length bs \<Longrightarrow> mem_write p bs (A @ X @ C) = Some (A @ map Some bs @ C)"
  by (simp add: mem_write_def)

lemma st_mid:
  "p = length A \<Longrightarrow> length X = length bs \<Longrightarrow> blk s = A @ X @ C \<Longrightarrow> st p bs s = Some (s\<lparr>blk := A @ map Some bs @ C\<rparr>)"
  by (simp add: st_def mem_write_mid)

text \<open>Fields of a header of cells \<open>L @ A @ [f]\<close> before the text.\<close>

definition raw :: "byte option list \<Rightarrow> byte option list \<Rightarrow> byte option list \<Rightarrow> byte option list \<Rightarrow> sdsmem" where
  "raw L A F C = \<lparr>blk = L @ A @ F @ C, off = length L + length A + length F\<rparr>"

lemma wr_raw:
  "length L = w \<Longrightarrow> length A = w \<Longrightarrow> length F = 1 \<Longrightarrow> wr_len w v (raw L A F C) = Some (raw (map Some (word_bytes w v)) A F C)"
  "length L = w \<Longrightarrow> length A = w \<Longrightarrow> length F = 1 \<Longrightarrow> wr_alloc w v (raw L A F C) = Some (raw L (map Some (word_bytes w v)) F C)"
  "length F = 1 \<Longrightarrow> wr_flags v (raw L A F C) = Some (raw L A (map Some (word_bytes 1 v)) C)"
proof -
  show "length L = w \<Longrightarrow> length A = w \<Longrightarrow> length F = 1 \<Longrightarrow> wr_len w v (raw L A F C) = Some (raw (map Some (word_bytes w v)) A F C)"
    unfolding wr_len_def hdr_wr_def by (subst st_mid [where A = "[]" and X = L and C = "A @ F @ C"]) (simp_all add: raw_def)
  show "length L = w \<Longrightarrow> length A = w \<Longrightarrow> length F = 1 \<Longrightarrow> wr_alloc w v (raw L A F C) = Some (raw L (map Some (word_bytes w v)) F C)"
    unfolding wr_alloc_def hdr_wr_def by (subst st_mid [where A = L and X = A and C = "F @ C"]) (simp_all add: raw_def)
  show "length F = 1 \<Longrightarrow> wr_flags v (raw L A F C) = Some (raw L A (map Some (word_bytes 1 v)) C)"
    unfolding wr_flags_def hdr_wr_def by (subst st_mid [where A = "L @ A" and X = F and C = C]) (simp_all add: raw_def)
qed

lemma rd_raw:
  "length A = length l \<Longrightarrow> length F = 1 \<Longrightarrow> rd_len (length l) (raw (map Some l) A F C) = Some (bytes_word l)"
  "length L = length a \<Longrightarrow> length F = 1 \<Longrightarrow> rd_alloc (length a) (raw L (map Some a) F C) = Some (bytes_word a)"
  "length f = 1 \<Longrightarrow> rd_flags (raw L A (map Some f) C) = Some (bytes_word f)"
proof -
  show "length A = length l \<Longrightarrow> length F = 1 \<Longrightarrow> rd_len (length l) (raw (map Some l) A F C) = Some (bytes_word l)"
    unfolding rd_len_def hdr_rd_def by (subst ld_mid [where A = "[]" and bs = l and C = "A @ F @ C"]) (simp_all add: raw_def)
  show "length L = length a \<Longrightarrow> length F = 1 \<Longrightarrow> rd_alloc (length a) (raw L (map Some a) F C) = Some (bytes_word a)"
    unfolding rd_alloc_def hdr_rd_def by (subst ld_mid [where A = L and bs = a and C = "F @ C"]) (simp_all add: raw_def)
  show "length f = 1 \<Longrightarrow> rd_flags (raw L A (map Some f) C) = Some (bytes_word f)"
    unfolding rd_flags_def hdr_rd_def by (subst ld_mid [where A = "L @ A" and bs = f and C = C]) (simp_all add: raw_def)
qed

lemma img_raw:
  "sds_img 0 n a C = raw [] [] (map Some (word_bytes 1 (of_nat (8 * n) :: u64))) C"
  "t \<noteq> 0 \<Longrightarrow> sds_img t n a C = raw (map Some (word_bytes (sds_width t) (of_nat n :: u64)))
     (map Some (word_bytes (sds_width t) (of_nat a :: u64))) (map Some (word_bytes 1 (of_nat t :: u64))) C"
  by (simp_all add: sds_img_def raw_def hdr_bytes_def hdr_size_def sds_types)

text \<open>The flags byte leads the \<open>switch\<close> to the case of the type.\<close>

definition flags_of :: "nat \<Rightarrow> nat \<Rightarrow> u64" where
  "flags_of t n = (if t = SDS_TYPE_5 then of_nat (8 * n) else of_nat t)"

lemma rd_flags_img [simp]:
  assumes "hdr_ok t n a"
  shows "rd_flags (sds_img t n a C) = Some (flags_of t n)"
proof (cases "t = 0")
  case True
  with assms have "8 * n < 2 ^ (8 * 1)" by (simp add: hdr_ok_def sds_types)
  then show ?thesis using True bytes_word_of_nat [of 1 "8 * n"] by (simp add: img_raw rd_raw flags_of_def sds_types)
next
  case False
  with assms have "t < 2 ^ (8 * 1)" by (simp add: hdr_ok_def sds_types)
  then show ?thesis using False bytes_word_of_nat [of 1 t] by (simp add: img_raw rd_raw flags_of_def sds_types)
qed

lemma type5_flags: "n < 32 \<Longrightarrow> sds_type (of_nat (8 * n)) = 0" "n < 32 \<Longrightarrow> SDS_TYPE_5_LEN (of_nat (8 * n)) = of_nat n"
proof -
  have m: "(7 :: u64) = mask 3" by (simp add: mask_eq_exp_minus_1)
  have p: "of_nat (8 * n) = push_bit 3 (of_nat n :: u64)" by (simp add: push_bit_eq_mult)
  show "sds_type (of_nat (8 * n)) = 0"
    unfolding p by (simp add: sds_type_def SDS_TYPE_MASK_def m take_bit_eq_mask [symmetric] take_bit_push_bit)
  assume "n < 32"
  then have "8 * n < 2 ^ 64" "n < 2 ^ 64" by simp_all
  from this [THEN unat_of_nat64]
  show "SDS_TYPE_5_LEN (of_nat (8 * n)) = of_nat n"
    unfolding SDS_TYPE_5_LEN_def word_unat_eq_iff unat_drop_bit_eq by (simp only: drop_bit_eq_div) simp
qed

lemma sds_type_flags [simp]: "hdr_ok t n a \<Longrightarrow> sds_type (flags_of t n) = t"
proof -
  assume ok: "hdr_ok t n a"
  show ?thesis
  proof (cases "t = 0")
    case True
    with ok show ?thesis using type5_flags(1) [of n] by (simp add: flags_of_def hdr_ok_def sds_types)
  next
    case False
    from ok have "t \<le> SDS_TYPE_64" by (simp add: hdr_ok_def)
    then consider "t = 1" | "t = 2" | "t = 3" | "t = 4" using False by (auto elim: sds_type_cases)
    then show ?thesis
      by cases (simp_all add: flags_of_def sds_type_def SDS_TYPE_MASK_def sds_types)
  qed
qed

lemma sds_switch_eq:
  "t \<le> SDS_TYPE_64 \<Longrightarrow> sds_switch t A B D = (if t = 0 then A else B (sds_width t))"
  by (erule sds_type_cases) (simp_all add: sds_switch_def sds_width_def sds_types)

subsection \<open>Operations on laid-out strings\<close>

lemma hdr_ok_bounds:
  assumes "hdr_ok t n a"
  shows "t \<le> SDS_TYPE_64" "n \<le> a" "a < 2 ^ 63" "n < 2 ^ 63" "t \<noteq> 0 \<Longrightarrow> n < 2 ^ (8 * sds_width t)"
    "t \<noteq> 0 \<Longrightarrow> a < 2 ^ (8 * sds_width t)" "t = 0 \<Longrightarrow> a = n" "t = 0 \<Longrightarrow> n < 32"
  using assms by (auto simp: hdr_ok_def sds_types)

lemma rd_fields_img:
  assumes "hdr_ok t n a" and "t \<noteq> 0"
  shows "rd_len (sds_width t) (sds_img t n a C) = Some (of_nat n)"
    and "rd_alloc (sds_width t) (sds_img t n a C) = Some (of_nat a)"
  using hdr_ok_bounds [OF assms(1)] assms(2) sds_width_range [of t]
    rd_raw(1) [of _ "word_bytes (sds_width t) (of_nat n :: u64)"] rd_raw(2) [of _ "word_bytes (sds_width t) (of_nat a :: u64)"]
  by (simp_all add: img_raw bytes_word_of_nat)

lemma wr_fields_img:
  assumes "t \<noteq> 0"
  shows "wr_len (sds_width t) (of_nat n') (sds_img t n a C) = Some (sds_img t n' a C)"
    and "wr_alloc (sds_width t) (of_nat a') (sds_img t n a C) = Some (sds_img t n a' C)"
  using assms by (simp_all add: img_raw wr_raw)

lemma wr_flags_img5:
  "wr_flags (of_nat SDS_TYPE_5 OR push_bit 3 (of_nat n')) (sds_img 0 n a C) = Some (sds_img 0 n' a' C)"
  by (simp add: img_raw wr_raw sds_types push_bit_eq_mult mult.commute)

lemma flags5 [simp]: "hdr_ok 0 n a \<Longrightarrow> SDS_TYPE_5_LEN (flags_of 0 n) = of_nat n"
  using type5_flags(2) [of n] by (simp add: flags_of_def sds_types hdr_ok_bounds(8))

lemma sdslen_img [simp]: "hdr_ok t n a \<Longrightarrow> sdslen_m (sds_img t n a C) = Some (of_nat n)"
  by (auto simp: sdslen_m_def sds_switch_eq hdr_ok_bounds rd_fields_img)

lemma sdsalloc_img [simp]: "hdr_ok t n a \<Longrightarrow> sdsalloc (sds_img t n a C) = Some (of_nat a)"
  using hdr_ok_bounds(7) [of t n a] by (auto simp: sdsalloc_def sds_switch_eq hdr_ok_bounds(1) rd_fields_img)

lemma fsub_of_nat:
  assumes "n \<le> a" and "w = 4 \<longrightarrow> a < 2 ^ 32"
  shows "fsub w (of_nat a) (of_nat n) = of_nat (a - n)"
proof (cases "w = 4")
  case True
  with assms have "a - n < 2 ^ 32" by simp
  have "(ucast (of_nat a :: u64) - ucast (of_nat n :: u64) :: u32) = of_nat (a - n)"
    using True assms by (simp add: of_nat_diff unsigned_of_nat take_bit_nat_eq_self)
  with True \<open>a - n < 2 ^ 32\<close> show ?thesis by (simp add: fsub_def unsigned_of_nat take_bit_nat_eq_self)
qed (simp add: fsub_def of_nat_diff assms(1))

lemma sdsavail_img [simp]:
  assumes "hdr_ok t n a"
  shows "sdsavail (sds_img t n a C) = Some (of_nat (a - n))"
proof -
  have "sds_width t = 4 \<longrightarrow> t \<noteq> 0 \<longrightarrow> a < 2 ^ 32" using hdr_ok_bounds(6) [OF assms] by auto
  then show ?thesis using assms hdr_ok_bounds(7) [OF assms]
    by (auto simp: sdsavail_def sds_switch_eq hdr_ok_bounds(1) rd_fields_img fsub_of_nat hdr_ok_bounds(2))
qed

lemma sdssetlen_img:
  "hdr_ok t n a \<Longrightarrow> sdssetlen (of_nat n') (sds_img t n a C) = Some (sds_img t n' (if t = 0 then n' else a) C)"
  by (simp add: sdssetlen_def sds_switch_eq hdr_ok_bounds wr_fields_img wr_flags_img5)

lemma sdssetalloc_img:
  "hdr_ok t n a \<Longrightarrow> t \<noteq> 0 \<Longrightarrow> sdssetalloc (of_nat a') (sds_img t n a C) = Some (sds_img t n a' C)"
  "hdr_ok 0 n a \<Longrightarrow> sdssetalloc v (sds_img 0 n a C) = Some (sds_img 0 n a C)"
  by (simp_all add: sdssetalloc_def sds_switch_eq hdr_ok_bounds wr_fields_img)

lemma sdsinclen_img:
  assumes "hdr_ok t n a" and "n + k \<le> a"
  shows "sdsinclen (of_nat k) (sds_img t n a C) = Some (sds_img t (n + k) a C)"
proof (cases "t = 0")
  case True
  with assms have "k = 0" "n < 32" "a = n" by (auto simp: hdr_ok_bounds dest: hdr_ok_bounds(7))
  then show ?thesis using True assms wr_flags_img5 [of n n a C a]
    by (simp add: sdsinclen_def sds_switch_eq hdr_ok_bounds(1) take_bit_of_nat64)
next
  case False
  then show ?thesis using assms
    by (simp add: sdsinclen_def sds_switch_eq hdr_ok_bounds rd_fields_img wr_fields_img flip: of_nat_add)
qed

lemma sds_start_img [simp]: "hdr_ok t n a \<Longrightarrow> sds_start (sds_img t n a C) = Some ()"
  by (simp add: sds_start_def sdsHdrSize_eq hdr_ok_bounds) (simp add: sds_img_def)

text \<open>The text is read and written as if the header were not there.\<close>

lemma off_img [simp]: "off (sds_img t n a C) = hdr_size t"
  by (simp add: sds_img_def)

lemma drop_blk_img [simp]: "drop (hdr_size t) (blk (sds_img t n a C)) = C"
  by (simp add: sds_img_def)

lemma ld_img: "ld (hdr_size t + i) k (sds_img t n a C) =
  (if i + k \<le> length C \<and> None \<notin> set (take k (drop i C)) then Some (map the (take k (drop i C))) else None)"
  by (simp add: ld_def sds_img_def Let_def)

lemma st_img: "st (hdr_size t + i) bs (sds_img t n a C) = map_option (sds_img t n a) (mem_write i bs C)"
  by (simp add: st_def sds_img_def mem_write_def)

subsection \<open>Choosing a header\<close>

lemma sdsReqType_ok:
  assumes "n < 2 ^ 63"
  shows "hdr_ok (sdsReqType (of_nat n)) n n"
proof -
  have "unat (of_nat n :: u64) = n" using assms by (simp add: unat_of_nat64)
  then have lt: "(of_nat n :: u64) < v \<longleftrightarrow> n < unat v" for v by (simp add: word_less_nat_alt)
  show ?thesis using assms
    by (auto simp: sdsReqType_def lt hdr_ok_def sds_types sds_width_def)
qed

lemma hdr_ok_alloc: "hdr_ok t a a \<Longrightarrow> t \<noteq> 0 \<Longrightarrow> n \<le> a \<Longrightarrow> hdr_ok t n a"
  by (simp add: hdr_ok_def sds_types)

lemma hdr_ok_type8: "hdr_ok 0 a a \<Longrightarrow> hdr_ok 1 a a"
  by (simp add: hdr_ok_def sds_types sds_width_def)

lemma hdr_ok_shrink: "hdr_ok t n a \<Longrightarrow> n' \<le> n \<Longrightarrow> hdr_ok t n' (if t = 0 then n' else a)"
  by (auto simp: hdr_ok_def sds_types)

lemma unat_total:
  assumes "t \<le> SDS_TYPE_64" and "n < 2 ^ 63"
  shows "unat (sdsHdrSize t + of_nat n + 1) = hdr_size t + n + 1"
proof -
  have "sdsHdrSize t + of_nat n + 1 = (of_nat (hdr_size t + n + 1) :: u64)"
    using sdsHdrSize_eq [OF assms(1)] by (simp flip: sdsHdrSize_eq [OF assms(1)])
  moreover have "hdr_size t + n + 1 < 2 ^ 64" using assms(2) hdr_size_bounds(2) [of t] by simp
  ultimately show ?thesis by (simp only: unat_of_nat64)
qed

lemma set_raw:
  assumes "t \<le> SDS_TYPE_64" and "t \<noteq> 0" and "length L = sds_width t" and "length A = sds_width t"
  shows "sdssetlen v (raw L A (map Some (word_bytes 1 (of_nat t :: u64))) C) =
      Some (raw (map Some (word_bytes (sds_width t) v)) A (map Some (word_bytes 1 (of_nat t :: u64))) C)"
    and "sdssetalloc v (raw L A (map Some (word_bytes 1 (of_nat t :: u64))) C) =
      Some (raw L (map Some (word_bytes (sds_width t) v)) (map Some (word_bytes 1 (of_nat t :: u64))) C)"
proof -
  have "t < 2 ^ (8 * 1)" using assms(1) by (simp add: sds_types)
  then have "rd_flags (raw L A (map Some (word_bytes 1 (of_nat t :: u64))) C) = Some (of_nat t)" for L A
    using bytes_word_of_nat [of 1 t] by (simp add: rd_raw(3))
  moreover have "hdr_ok t 0 0" using assms(1,2) sds_width_range(2) by (simp add: hdr_ok_def)
  then have "sds_type (of_nat t) = t" using sds_type_flags [of t 0 0] assms(2) by (simp add: flags_of_def sds_types)
  ultimately show "sdssetlen v (raw L A (map Some (word_bytes 1 (of_nat t :: u64))) C) =
      Some (raw (map Some (word_bytes (sds_width t) v)) A (map Some (word_bytes 1 (of_nat t :: u64))) C)"
    and "sdssetalloc v (raw L A (map Some (word_bytes 1 (of_nat t :: u64))) C) =
      Some (raw L (map Some (word_bytes (sds_width t) v)) (map Some (word_bytes 1 (of_nat t :: u64))) C)"
    using assms by (simp_all add: sdssetlen_def sdssetalloc_def sds_switch_eq wr_raw)
qed

text \<open>Moving to a new block of \<open>N\<close> bytes with header \<open>t'\<close>.\<close>

lemma move_text_img:
  assumes ok: "hdr_ok t n a" "hdr_ok t' n a'" and C: "n + 1 \<le> length C" and N: "hdr_size t' + n + 1 \<le> N"
  shows "do { s \<leftarrow> move_text t' N (sdsHdrSize t') (of_nat n) (sds_img t n a C); sdssetalloc (of_nat a') s } =
    Some (sds_img t' n a' (take (n + 1) C @ replicate (N - hdr_size t' - (n + 1)) None))"
proof -
  let ?C = "take (n + 1) C @ replicate (N - hdr_size t' - (n + 1)) None"
  have k: "unat (of_nat n + 1 :: u64) = n + 1" using hdr_ok_bounds(4) [OF ok(1)] unat_of_nat64 [of "n + 1"] by (simp add: add.commute)
  have hs: "unat (sdsHdrSize t') = hdr_size t'" by (rule sdsHdrSize_eq [OF hdr_ok_bounds(1) [OF ok(2)]])
  have len: "hdr_size t + (n + 1) \<le> length (blk (sds_img t n a C))" using C by (simp add: sds_img_def)
  have move: "move_text t' N (sdsHdrSize t') (of_nat n) (sds_img t n a C) =
      do { s \<leftarrow> wr_flags (of_nat t') \<lparr>blk = replicate (hdr_size t') None @ ?C, off = hdr_size t'\<rparr>; sdssetlen (of_nat n) s }"
    using len N by (simp add: move_text_def Let_def k hs del: One_nat_def)
  show ?thesis
  proof (cases "t' = 0")
    case True
    have "\<lparr>blk = replicate (hdr_size t') None @ ?C, off = hdr_size t'\<rparr> = raw [] [] [None] ?C"
      using True by (simp add: raw_def hdr_size_def sds_types)
    moreover have "raw [] [] (map Some (word_bytes 1 (0 :: u64))) ?C = sds_img 0 0 0 ?C" by (simp add: img_raw)
    moreover have "hdr_ok 0 0 0" "hdr_ok 0 n n" "a' = n" using ok(2) True by (auto simp: hdr_ok_def sds_types)
    ultimately show ?thesis unfolding move using True by (simp add: wr_raw sdssetlen_img sdssetalloc_img del: One_nat_def)
  next
    case False
    let ?w = "sds_width t'"
    have "hdr_size t' = ?w + (?w + 1)" using False by (simp add: hdr_size_def sds_types)
    then have "\<lparr>blk = replicate (hdr_size t') None @ ?C, off = hdr_size t'\<rparr> = raw (replicate ?w None) (replicate ?w None) [None] ?C"
      by (simp only: replicate_add) (simp add: raw_def)
    then show ?thesis using False hdr_ok_bounds(1) [OF ok(2)]
      by (simp add: move wr_raw set_raw img_raw del: One_nat_def)
  qed
qed

lemma set_alloc_resize:
  assumes ok: "hdr_ok t n a" "hdr_ok t n a'" and C: "n + 1 \<le> length C" and N: "hdr_size t + n + 1 \<le> N"
  shows "sdssetalloc (of_nat a') \<lparr>blk = resize N (blk (sds_img t n a C)), off = hdr_size t\<rparr> =
    Some (sds_img t n a' (resize (N - hdr_size t) C))"
proof -
  have "\<lparr>blk = resize N (blk (sds_img t n a C)), off = hdr_size t\<rparr> = sds_img t n a (resize (N - hdr_size t) C)"
    using N by (simp add: sds_img_def resize_def)
  moreover have "t = 0 \<Longrightarrow> a' = a" using ok by (auto simp: hdr_ok_def sds_types)
  ultimately show ?thesis using ok by (cases "t = 0") (simp_all add: sdssetalloc_img)
qed

text \<open>What growing the free space by \<open>k\<close> keeps and gives. The cell after the text, where the terminator usually is, moves along.\<close>

definition room :: "nat \<Rightarrow> nat \<Rightarrow> byte option list \<Rightarrow> sdsmem \<Rightarrow> bool" where
  "room n k C s \<longleftrightarrow> (\<exists>t a C'. s = sds_img t n a C' \<and> hdr_ok t n a \<and> n + k \<le> a \<and> a + 1 \<le> length C' \<and>
     take (n + 1) C' = take (n + 1) C)"

definition grown :: "nat \<Rightarrow> nat" where
  "grown n = (if n < 1024 * 1024 then 2 * n else n + 1024 * 1024)"

lemma grown_word:
  assumes "n < 2 ^ 62"
  shows "(let newlen = (of_nat n :: u64) in if newlen < SDS_MAX_PREALLOC then newlen * 2 else newlen + SDS_MAX_PREALLOC) = of_nat (grown n)"
    and "n \<le> grown n" and "grown n < 2 ^ 63"
  using assms by (auto simp: grown_def SDS_MAX_PREALLOC_def word_less_nat_alt unat_of_nat64 Let_def)

lemma of_nat_le64: "i < 2 ^ 63 \<Longrightarrow> j < 2 ^ 63 \<Longrightarrow> (of_nat i :: u64) \<le> of_nat j \<longleftrightarrow> i \<le> j"
  by (simp add: word_le_nat_alt unat_of_nat64)

lemma of_nat_less64: "i < 2 ^ 63 \<Longrightarrow> j < 2 ^ 63 \<Longrightarrow> (of_nat i :: u64) < of_nat j \<longleftrightarrow> i < j"
  by (simp add: word_less_nat_alt unat_of_nat64)

lemma bind_return_Some: "do { s \<leftarrow> X; s \<leftarrow> f s; Some (Some s) } = map_option Some (do { s \<leftarrow> X; f s })"
  by (cases X) (auto split: bind_split)

lemma sdsMakeRoomFor_img:
  assumes ok: "hdr_ok t n a" and C: "a + 1 \<le> length C" and k: "n + k < 2 ^ 62"
  shows "sdsMakeRoomFor mal (sds_img t n a C) (of_nat k) = Some None \<and> a < n + k \<and> (\<exists>z. \<not> mal z) \<or>
    (\<exists>s. sdsMakeRoomFor mal (sds_img t n a C) (of_nat k) = Some (Some s) \<and> room n k C s)"
proof (cases "n + k \<le> a")
  case True
  then have "(of_nat k :: u64) \<le> of_nat (a - n)"
    using hdr_ok_bounds(3) [OF ok] k by (subst of_nat_le64) simp_all
  moreover have "room n k C (sds_img t n a C)" using ok C True by (auto simp: room_def)
  ultimately show ?thesis using ok by (simp add: sdsMakeRoomFor_def)
next
  case False
  define A where "A = grown (n + k)"
  define T where "T = (let u = sdsReqType (of_nat A) in if u = 0 then 1 else u)"
  define N where "N = hdr_size T + A + 1"
  note g = grown_word [OF k, folded A_def]
  have t: "hdr_ok T A A" "T \<noteq> 0" using sdsReqType_ok [OF g(3)] hdr_ok_type8 by (auto simp: Let_def T_def)
  have ok': "hdr_ok T n A" using g(2) by (intro hdr_ok_alloc [OF t]) simp
  have T: "(if sdsReqType (of_nat A) = SDS_TYPE_5 then SDS_TYPE_8 else sdsReqType (of_nat A)) = T"
    by (simp add: T_def sds_types)
  have sz: "unat (sdsHdrSize T + of_nat A + 1) = N" "unat (sdsHdrSize T) = hdr_size T"
    using unat_total [OF hdr_ok_bounds(1) [OF ok'] g(3)] sdsHdrSize_eq [OF hdr_ok_bounds(1) [OF ok']] by (simp_all add: N_def)
  have ov: "\<not> (of_nat k :: u64) \<le> of_nat (a - n)"
    using hdr_ok_bounds(2,3) [OF ok] k False by (subst of_nat_le64) simp_all
  have eq: "sdsMakeRoomFor mal (sds_img t n a C) (of_nat k) =
      (if \<not> mal N then Some None
       else do { s \<leftarrow> (if t = T then Some \<lparr>blk = resize N (blk (sds_img t n a C)), off = hdr_size T\<rparr>
                      else move_text T N (sdsHdrSize T) (of_nat n) (sds_img t n a C));
                 s \<leftarrow> sdssetalloc (of_nat A) s; Some (Some s) })"
    using ok ov g(1) T sz unfolding sdsMakeRoomFor_def Let_def
    by (simp only: sdsavail_img sdslen_img rd_flags_img sds_type_flags sds_start_img bind.bind_lunit if_False
        of_nat_add [symmetric])
  show ?thesis
  proof (cases "mal N")
    case mal: True
    define D where "D = (if t = T then resize (A + 1) C else take (n + 1) C @ replicate (A - n) None)"
    have n: "n + 1 \<le> length C" using C hdr_ok_bounds(2) [OF ok] by simp
    have NA: "hdr_size T + n + 1 \<le> N" "N - hdr_size T = A + 1" "N - hdr_size T - (n + 1) = A - n"
      using g(2) by (simp_all add: N_def)
    have "sdsMakeRoomFor mal (sds_img t n a C) (of_nat k) = Some (Some (sds_img T n A D))"
    proof (cases "t = T")
      case True
      show ?thesis using mal True set_alloc_resize [OF ok _ n, of A N] ok' NA
        unfolding eq D_def bind_return_Some by simp
    next
      case False
      show ?thesis using mal False move_text_img [OF ok ok' n NA(1)]
        unfolding eq D_def bind_return_Some NA(3) by simp
    qed
    moreover have "A + 1 \<le> length D" "take (n + 1) D = take (n + 1) C" using n g(2) by (auto simp: D_def resize_def)
    then have "room n k C (sds_img T n A D)" unfolding room_def using ok' g(2) by blast
    ultimately show ?thesis by blast
  next
    case False
    with \<open>\<not> n + k \<le> a\<close> show ?thesis unfolding eq by auto
  qed
qed

section \<open>Correctness\<close>

lemma sds_repI: "hdr_ok t (length xs) a \<Longrightarrow> a \<le> length xs + length C \<Longrightarrow> sds_rep xs (sds_img t (length xs) a (map Some xs @ Some 0 # C))"
  by (auto simp: sds_rep_def)

lemma sds_repE:
  assumes "sds_rep xs s"
  obtains t a C where "s = sds_img t (length xs) a (map Some xs @ Some 0 # C)" "hdr_ok t (length xs) a" "a \<le> length xs + length C"
  using assms by (auto simp: sds_rep_def)

text \<open>The same read off the cells: the text and its terminator come first.\<close>

lemma sds_rep_img:
  assumes "hdr_ok t (length xs) a" and "a + 1 \<le> length C" and "take (length xs + 1) C = map Some (xs @ [0])"
  shows "sds_rep xs (sds_img t (length xs) a C)"
proof -
  have "map Some (xs @ [0]) @ drop (length xs + 1) C = C"
    using append_take_drop_id [of "length xs + 1" C] unfolding assms(3) .
  then have "C = map Some xs @ Some 0 # drop (length xs + 1) C" by simp
  moreover from this have "a \<le> length xs + length (drop (length xs + 1) C)" using assms(2) by simp
  ultimately show ?thesis using sds_repI [OF assms(1)] by metis
qed

lemma init_header_img:
  assumes "hdr_ok t n n"
  shows "init_header t (of_nat n) \<lparr>blk = replicate (hdr_size t) c @ C, off = hdr_size t\<rparr> = Some (sds_img t n n C)"
proof (cases "t = 0")
  case True
  have "\<lparr>blk = replicate (hdr_size t) c @ C, off = hdr_size t\<rparr> = raw [] [] [c] C"
    using True by (simp add: raw_def hdr_size_def sds_types)
  then show ?thesis using True
    by (simp add: init_header_def sds_switch_eq sds_types wr_raw img_raw push_bit_eq_mult mult.commute del: One_nat_def)
next
  case False
  let ?w = "sds_width t"
  have "hdr_size t = ?w + (?w + 1)" using False by (simp add: hdr_size_def sds_types)
  then have "\<lparr>blk = replicate (hdr_size t) c @ C, off = hdr_size t\<rparr> = raw (replicate ?w c) (replicate ?w c) [c] C"
    by (simp only: replicate_add) (simp add: raw_def)
  then show ?thesis using False hdr_ok_bounds(1) [OF assms]
    by (simp add: init_header_def sds_switch_eq wr_raw img_raw del: One_nat_def)
qed

lemma sdsnewlen_img:
  assumes n: "n < 2 ^ 62"
  defines "t \<equiv> let u = sdsReqType (of_nat n) in if u = SDS_TYPE_5 \<and> n = 0 then SDS_TYPE_8 else u"
  defines "N \<equiv> hdr_size t + n + 1"
  shows "hdr_ok t n n"
    and "sdsnewlen_m mal init (of_nat n) =
      (if \<not> mal N then (if init = Null then None else Some None)
       else do {
         s \<leftarrow> (case init of
                Init p \<Rightarrow> if n \<noteq> 0 then do { (bs, _) \<leftarrow> memrd n p;
                    st (hdr_size t) bs (sds_img t n n (replicate (n + 1) None)) }
                  else Some (sds_img t n n (replicate (n + 1) None))
              | Noinit \<Rightarrow> Some (sds_img t n n (replicate (n + 1) None))
              | Null \<Rightarrow> Some (sds_img t n n (replicate (n + 1) (Some 0))));
         s \<leftarrow> st (off s + n) [0] s; Some (Some s) })"
proof -
  show ok: "hdr_ok t n n" using sdsReqType_ok [of n] n hdr_ok_type8 [of n] by (auto simp: t_def Let_def sds_types)
  have u: "unat (of_nat n :: u64) = n" "(of_nat n = (0 :: u64)) = (n = 0)"
    using n by (simp_all add: unat_of_nat64 word_unat_eq_iff)
  have T: "(if sdsReqType (of_nat n) = SDS_TYPE_5 \<and> n = 0 then SDS_TYPE_8 else sdsReqType (of_nat n)) = t"
    by (simp add: t_def Let_def)
  have N: "unat (sdsHdrSize t + of_nat n + 1) = N" "unat (sdsHdrSize t) = hdr_size t"
    using unat_total [OF hdr_ok_bounds(1) [OF ok]] sdsHdrSize_eq [OF hdr_ok_bounds(1) [OF ok]] n by (simp_all add: N_def)
  have r: "replicate N c = replicate (hdr_size t) c @ replicate (n + 1) c" for c
    unfolding N_def add.assoc by (rule replicate_add)
  show "sdsnewlen_m mal init (of_nat n) =
      (if \<not> mal N then (if init = Null then None else Some None)
       else do {
         s \<leftarrow> (case init of
                Init p \<Rightarrow> if n \<noteq> 0 then do { (bs, _) \<leftarrow> memrd n p;
                    st (hdr_size t) bs (sds_img t n n (replicate (n + 1) None)) }
                  else Some (sds_img t n n (replicate (n + 1) None))
              | Noinit \<Rightarrow> Some (sds_img t n n (replicate (n + 1) None))
              | Null \<Rightarrow> Some (sds_img t n n (replicate (n + 1) (Some 0))));
         s \<leftarrow> st (off s + n) [0] s; Some (Some s) })"
    unfolding sdsnewlen_m_def Let_def T N u r
    by (cases init) (simp_all add: init_header_img [OF ok] u)
qed

text \<open>Writing \<open>bs\<close> after the first \<open>i\<close> cells.\<close>

lemma take_mem_write:
  assumes "i + length bs \<le> length C" and "take i C = P"
  shows "\<exists>D. mem_write i bs C = Some D \<and> length D = length C \<and> take (i + length bs) D = P @ map Some bs"
proof -
  have "length P = i" using assms by auto
  then show ?thesis using assms by (simp add: mem_write_def)
qed

lemma sds_fill:
  assumes ok: "hdr_ok t (length xs) a" and len: "a + 1 \<le> length C" and C: "take (length xs) C = map Some xs"
  shows "\<exists>s. st (hdr_size t + length xs) [0] (sds_img t (length xs) a C) = Some s \<and> sds_rep xs s"
proof -
  have "length xs + length [0 :: byte] \<le> length C" using len hdr_ok_bounds(2) [OF ok] by simp
  from take_mem_write [OF this C] obtain D where
    "mem_write (length xs) [0] C = Some D" "length D = length C" "take (length xs + 1) D = map Some (xs @ [0])" by auto
  then show ?thesis using sds_rep_img [OF ok, of D] len by (simp add: st_img)
qed

lemma sdsnewlen_rep:
  assumes n: "length xs < 2 ^ 62"
  shows "sdsnewlen_m mal (Init (xs @ rest)) (of_nat (length xs)) = Some None \<and> (\<exists>z. \<not> mal z) \<or>
    (\<exists>s. sdsnewlen_m mal (Init (xs @ rest)) (of_nat (length xs)) = Some (Some s) \<and> sds_rep xs s)"
proof -
  define t where "t = (let u = sdsReqType (of_nat (length xs)) in if u = SDS_TYPE_5 \<and> length xs = 0 then SDS_TYPE_8 else u)"
  note nl = sdsnewlen_img [OF n, folded t_def]
  let ?C = "map Some xs @ [None]"
  have "st (hdr_size t) xs (sds_img t (length xs) (length xs) (replicate (length xs + 1) None)) = Some (sds_img t (length xs) (length xs) ?C)"
    using st_img [of t 0 xs "length xs" "length xs" "replicate (length xs + 1) None"]
    by (simp add: mem_write_def Suc_diff_le del: replicate_Suc) simp
  moreover have "xs = [] \<Longrightarrow> replicate (length xs + 1) None = ?C" by simp
  moreover obtain s where "st (hdr_size t + length xs) [0] (sds_img t (length xs) (length xs) ?C) = Some s" "sds_rep xs s"
    using sds_fill [OF nl(1), of ?C] by auto
  ultimately show ?thesis by (auto simp: nl(2))
qed

lemma sdsnewlen_null:
  assumes n: "n < 2 ^ 62"
  shows "(\<exists>z. \<not> mal z) \<and> sdsnewlen_m mal Null (of_nat n) = None \<or>
    (\<exists>s. sdsnewlen_m mal Null (of_nat n) = Some (Some s) \<and> sds_rep (replicate n 0) s)"
proof -
  define t where "t = (let u = sdsReqType (of_nat n) in if u = SDS_TYPE_5 \<and> n = 0 then SDS_TYPE_8 else u)"
  note nl = sdsnewlen_img [OF n, folded t_def]
  have "take n (replicate (n + 1) (Some 0)) = map Some (replicate n (0 :: byte))" by (simp del: replicate_Suc)
  then obtain s where "st (hdr_size t + n) [0] (sds_img t n n (replicate (n + 1) (Some 0))) = Some s" "sds_rep (replicate n 0) s"
    using sds_fill [of t "replicate n 0" n "replicate (n + 1) (Some 0)"] nl(1) by auto
  then show ?thesis by (auto simp: nl(2))
qed

text \<open>Shortening a string in place, to a text that its first cells already hold.\<close>

lemma sds_cut:
  assumes ok: "hdr_ok t n a" and len: "a + 1 \<le> length C" and ys: "length ys \<le> n" and C: "take (length ys + 1) C = map Some (ys @ [0])"
  shows "\<exists>s. sdssetlen (of_nat (length ys)) (sds_img t n a C) = Some s \<and> sds_rep ys s"
proof -
  let ?a = "if t = 0 then length ys else a"
  have "hdr_ok t (length ys) ?a" using ok ys by (rule hdr_ok_shrink)
  moreover have "?a + 1 \<le> length C" using len ys hdr_ok_bounds(2) [OF ok] by simp
  ultimately show ?thesis using sdssetlen_img [OF ok, of "length ys" C] C by (auto intro: sds_rep_img)
qed

lemma sdsclear_rep: "sds_rep xs s \<Longrightarrow> \<exists>s'. sdsclear s = Some s' \<and> sds_rep [] s'"
proof (erule sds_repE)
  fix t a C
  assume s: "s = sds_img t (length xs) a (map Some xs @ Some 0 # C)" and ok: "hdr_ok t (length xs) a" and a: "a \<le> length xs + length C"
  let ?a = "if t = 0 then 0 else a"
  have "hdr_ok t (length ([] :: byte list)) ?a" using hdr_ok_shrink [OF ok, of 0] by simp
  moreover have "?a + 1 \<le> length (map Some xs @ Some 0 # C)" using a by simp
  ultimately obtain s' where "st (hdr_size t) [0] (sds_img t 0 ?a (map Some xs @ Some 0 # C)) = Some s'" "sds_rep [] s'"
    using sds_fill [of t "[]" ?a "map Some xs @ Some 0 # C"] by auto
  then show ?thesis using sdssetlen_img [OF ok, of 0 "map Some xs @ Some 0 # C"] by (simp add: sdsclear_def s)
qed

lemma strlen_at_append: "0 \<notin> set ys \<Longrightarrow> strlen_at (map Some ys @ Some 0 # C) = Some (of_nat (length ys))"
  by (induction ys) (auto simp: add.commute)

lemma sdsupdatelen_rep:
  assumes "sds_rep xs s"
  shows "\<exists>s'. sdsupdatelen s = Some s' \<and> sds_rep (takeWhile (\<lambda>c. c \<noteq> 0) xs) s'"
proof -
  let ?ys = "takeWhile (\<lambda>c. c \<noteq> 0) xs"
  from assms obtain t a C where s: "s = sds_img t (length xs) a (map Some xs @ Some 0 # C)" "hdr_ok t (length xs) a" "a \<le> length xs + length C"
    by (rule sds_repE)
  obtain D where D: "map Some xs @ Some 0 # C = map Some ?ys @ Some 0 # D"
  proof (cases "0 \<in> set xs")
    case True
    then obtain us vs where "xs = us @ 0 # vs" "0 \<notin> set us" by (blast dest: split_list_first)
    moreover from \<open>0 \<notin> set us\<close> have "takeWhile (\<lambda>c. c \<noteq> 0) (us @ 0 # vs) = us" by (induction us) auto
    ultimately show ?thesis by (intro that [of "map Some vs @ Some 0 # C"]) simp
  next
    case False
    then have "?ys = xs" by (auto simp: takeWhile_eq_all_conv)
    then show ?thesis by (intro that [of C]) (simp only:)
  qed
  have "0 \<notin> set ?ys" by (auto dest: set_takeWhileD)
  then have "strlen_at (drop (off s) (blk s)) = Some (of_nat (length ?ys))" by (simp add: s(1) D strlen_at_append)
  moreover have "a + 1 \<le> length (map Some xs @ Some 0 # C)" using s(3) by simp
  then have "\<exists>s'. sdssetlen (of_nat (length ?ys)) s = Some s' \<and> sds_rep ?ys s'"
    unfolding s(1) by (intro sds_cut [OF s(2)]) (simp_all add: length_takeWhile_le D)
  ultimately show ?thesis by (simp add: sdsupdatelen_def)
qed

lemma sds_bytes_rep: "sds_rep xs s \<Longrightarrow> sds_bytes (of_nat (length xs)) s = Some xs"
proof (erule sds_repE)
  fix t a C
  assume s: "s = sds_img t (length xs) a (map Some xs @ Some 0 # C)" and ok: "hdr_ok t (length xs) a"
  have "unat (of_nat (length xs) :: u64) = length xs" using hdr_ok_bounds(4) [OF ok] by (simp add: unat_of_nat64)
  then show ?thesis using ld_img [of t 0 "length xs"] by (auto simp: sds_bytes_def s comp_def)
qed

lemma sdslen_rep: "sds_rep xs s \<Longrightarrow> sdslen_m s = Some (of_nat (length xs))"
  by (auto elim: sds_repE)

lemma sds_rep_inj: "sds_rep xs s \<Longrightarrow> sds_rep ys s \<Longrightarrow> xs = ys"
  using sdslen_rep [of xs s] sdslen_rep [of ys s] sds_bytes_rep [of xs s] sds_bytes_rep [of ys s] by simp

lemma sdsfree_rep: "sds_rep xs s \<Longrightarrow> sdsfree (Some s) = Some ()"
  by (auto simp: sdsfree_def elim: sds_repE)

lemma sdsdup_rep:
  assumes "sds_rep xs s" and "length xs < 2 ^ 62"
  shows "sdsdup mal s = Some None \<and> (\<exists>z. \<not> mal z) \<or> (\<exists>s'. sdsdup mal s = Some (Some s') \<and> sds_rep xs s')"
  using sdsnewlen_rep [OF assms(2), of mal "[]"] by (simp add: sdsdup_def sdslen_rep [OF assms(1)] sds_bytes_rep [OF assms(1)])

lemma sdsRemoveFreeSpace_rep:
  assumes "sds_rep xs s"
  shows "sdsRemoveFreeSpace mal s = Some None \<and> (\<exists>z. \<not> mal z) \<or>
    (\<exists>s'. sdsRemoveFreeSpace mal s = Some (Some s') \<and> sds_rep xs s' \<and> sdsavail s' = Some 0 \<and>
      sdsAllocSize s' = Some (of_nat (length (blk s'))))"
proof -
  from assms obtain t a C where s: "s = sds_img t (length xs) a (map Some xs @ Some 0 # C)" and ok: "hdr_ok t (length xs) a"
    and a: "a \<le> length xs + length C" by (rule sds_repE)
  define n where "n = length xs"
  define C' where "C' = map Some xs @ Some 0 # C"
  note ok = ok [folded n_def] and s = s [folded n_def C'_def]
  define T where "T = sdsReqType (of_nat n)"
  define keep where "keep \<longleftrightarrow> t = T \<or> T > SDS_TYPE_8"
  define U where "U = (if keep then t else T)"
  have n: "n < 2 ^ 63" and C': "n + 1 \<le> length C'" using hdr_ok_bounds(4) [OF ok] by (simp_all add: C'_def n_def)
  have okU: "hdr_ok U n n" using ok sdsReqType_ok [OF n] by (auto simp: U_def T_def hdr_ok_def split: if_splits)
  have sz: "unat ((if keep then sdsHdrSize t else sdsHdrSize T) + of_nat n + 1) = hdr_size U + n + 1"
    using unat_total [OF hdr_ok_bounds(1) [OF okU] n] by (simp add: U_def split: if_splits)
  have eq: "sdsRemoveFreeSpace mal s = (if \<not> mal (hdr_size U + n + 1) then Some None
       else do { s \<leftarrow> (if keep then Some \<lparr>blk = resize (hdr_size U + n + 1) (blk s), off = unat (sdsHdrSize t)\<rparr>
                 else move_text T (hdr_size U + n + 1) (sdsHdrSize T) (of_nat n) s);
                 s \<leftarrow> sdssetalloc (of_nat n) s; Some (Some s) })"
    using ok unfolding sdsRemoveFreeSpace_def Let_def s sz [symmetric]
    by (simp only: rd_flags_img sds_type_flags sdslen_img sds_start_img bind.bind_lunit T_def [symmetric] keep_def [symmetric])
  show ?thesis
  proof (cases "mal (hdr_size U + n + 1)")
    case True
    have "sdsRemoveFreeSpace mal s = Some (Some (sds_img U n n (take (n + 1) C')))"
    proof (cases keep)
      case keep: True
      then have "hdr_ok t n n" "resize (n + 1) C' = take (n + 1) C'" using okU C' by (simp_all add: U_def resize_def)
      then show ?thesis using True keep set_alloc_resize [OF ok _ C', of n "hdr_size t + n + 1"] sdsHdrSize_eq [OF hdr_ok_bounds(1) [OF ok]]
        unfolding eq unfolding bind_return_Some s by (simp add: U_def)
    next
      case keep: False
      then have "hdr_ok T n n" using okU by (simp add: U_def)
      from move_text_img [OF ok this C', of "hdr_size T + n + 1"] show ?thesis
        using True keep unfolding eq unfolding bind_return_Some s by (simp add: U_def)
    qed
    moreover have "sds_rep xs (sds_img U n n (take (n + 1) C'))"
      using sds_rep_img [of U xs n "take (n + 1) C'"] okU C' by (simp add: n_def C'_def)
    moreover have "sdsAllocSize (sds_img U n n (take (n + 1) C')) = Some (of_nat (length (blk (sds_img U n n (take (n + 1) C')))))"
      using okU C' sdsHdrSize_eq [OF hdr_ok_bounds(1) [OF okU]]
      by (simp add: sdsAllocSize_def) (simp add: sds_img_def flip: sdsHdrSize_eq [OF hdr_ok_bounds(1) [OF okU]])
    ultimately show ?thesis using okU by simp
  qed (auto simp: eq)
qed

text \<open>Using the room: a caller that got \<open>room\<close>, wrote \<open>bs\<close> after the text and calls \<^verbatim>\<open>sdsIncrLen\<close> has the longer string.\<close>

lemma sint_of_nat64: "n < 2 ^ 63 \<Longrightarrow> sint (of_nat n :: u64) = int n"
  by (simp add: signed_of_nat signed_take_bit_int_eq_self)

lemma incr_ok_room:
  assumes ok: "hdr_ok t n a" and t: "t \<noteq> 0" and k: "n + k \<le> a"
  shows "incr_ok (sds_width t) (of_nat a) (of_nat n) (of_nat k)"
proof -
  note b = hdr_ok_bounds [OF ok]
  have ak: "a - n < 2 ^ 63" "k < 2 ^ 63" using b(3) k by auto
  have sub: "(of_nat a :: u64) - of_nat n = of_nat (a - n)" using b(2) by (simp add: of_nat_diff)
  have w4: "sds_width t = 4 \<longrightarrow> a < 2 ^ 32" using b(6) [OF t] by auto
  then have "sds_width t = 4 \<Longrightarrow> take_bit 32 (of_nat k :: u64) = of_nat k" using k by (simp add: take_bit_of_nat64)
  moreover have "fsub (sds_width t) (of_nat a) (of_nat n) = of_nat (a - n)" using b(2) w4 by (rule fsub_of_nat)
  moreover have "(of_nat k :: u64) \<le> of_nat (a - n)" using k of_nat_le64 [OF ak(2,1)] by simp
  ultimately show ?thesis using ak k
    by (auto simp: incr_ok_def sub sint_of_nat64 simp del: of_nat_diff)
qed

lemma sdsIncrLen_room:
  assumes s: "s = sds_img t (length xs) a C" and ok: "hdr_ok t (length xs) a" and t: "t \<noteq> 0"
    and k: "length xs + length bs \<le> a" "a + 1 \<le> length C" and C: "take (length xs + length bs) C = map Some (xs @ bs)"
  shows "\<exists>s'. sdsIncrLen (of_nat (length bs)) s = Some (Inr s') \<and> sds_rep (xs @ bs) s'"
proof -
  let ?n = "length xs" and ?k = "length bs"
  note b = hdr_ok_bounds [OF ok]
  have ok': "hdr_ok t (length (xs @ bs)) a" using ok k(1) t by (simp add: hdr_ok_def sds_types)
  have lt: "?n + ?k < 2 ^ (8 * sds_width t)" "?n + ?k < 2 ^ 63" using b(3) b(6) [OF t] k(1) by simp_all
  then have "sint (of_nat ?k :: u64) \<noteq> - (2 ^ 63)" by (simp add: sint_of_nat64)
  moreover have "take_bit (8 * sds_width t) (of_nat ?n + of_nat ?k :: u64) = of_nat (?n + ?k)"
    using take_bit_of_nat64 [OF lt(1)] by simp
  moreover have "wr_len (sds_width t) (of_nat ?n + of_nat ?k) (sds_img t ?n a C) = Some (sds_img t (?n + ?k) a C)"
    using wr_fields_img(1) [OF t, of "?n + ?k" ?n a C] by simp
  moreover have "unat (of_nat (?n + ?k) :: u64) = ?n + ?k" using lt(2) by (simp add: unat_of_nat64 del: of_nat_add)
  moreover obtain s' where "st (hdr_size t + (?n + ?k)) [0] (sds_img t (?n + ?k) a C) = Some s'" "sds_rep (xs @ bs) s'"
    using sds_fill [OF ok' k(2)] C by auto
  ultimately show ?thesis using t
    by (simp add: sdsIncrLen_def s ok sds_type_flags [OF ok] sds_switch_eq b(1) rd_fields_img incr_ok_room [OF ok t k(1)] del: of_nat_add)
qed

lemma sds_make_room_rep:
  assumes "sds_rep xs s" and "length xs + k < 2 ^ 62"
  shows "sdsMakeRoomFor mal s (of_nat k) = Some None \<and> (\<exists>z. \<not> mal z) \<or>
    (\<exists>s' C. sdsMakeRoomFor mal s (of_nat k) = Some (Some s') \<and> room (length xs) k (map Some xs @ Some 0 # C) s')"
proof -
  from assms(1) obtain t a C where s: "s = sds_img t (length xs) a (map Some xs @ Some 0 # C)" "hdr_ok t (length xs) a" "a \<le> length xs + length C"
    by (rule sds_repE)
  show ?thesis using sdsMakeRoomFor_img [OF s(2), of "map Some xs @ Some 0 # C" k mal] s(3) assms(2) unfolding s(1) by auto
qed

lemma room_rep: "room (length xs) k (map Some xs @ Some 0 # C) s \<Longrightarrow> sds_rep xs s \<and> (\<exists>v. sdsavail s = Some v \<and> k \<le> unat v)"
proof -
  assume "room (length xs) k (map Some xs @ Some 0 # C) s"
  then obtain t a C' where s: "s = sds_img t (length xs) a C'" "hdr_ok t (length xs) a" "length xs + k \<le> a" "a + 1 \<le> length C'"
    "take (length xs + 1) C' = map Some (xs @ [0])" by (auto simp: room_def)
  have "unat (of_nat (a - length xs) :: u64) = a - length xs" using hdr_ok_bounds(3) [OF s(2)] by (simp add: unat_of_nat64 del: of_nat_diff)
  then show ?thesis using sds_rep_img [OF s(2,4,5)] s by simp
qed

lemma room_write:
  assumes "room (length xs) (length bs) (map Some xs @ Some 0 # C) s"
  shows "\<exists>t a D. st (off s + length xs) bs s = Some (sds_img t (length xs) a D) \<and> hdr_ok t (length xs) a \<and>
    length xs + length bs \<le> a \<and> a + 1 \<le> length D \<and> take (length xs + length bs) D = map Some (xs @ bs)"
proof -
  from assms obtain t a C' where s: "s = sds_img t (length xs) a C'" "hdr_ok t (length xs) a" "length xs + length bs \<le> a" "a + 1 \<le> length C'"
    "take (length xs + 1) C' = map Some xs @ [Some 0]" by (auto simp: room_def)
  from s(5) have "take (length xs) C' = map Some xs" by (auto dest: arg_cong [where f = "take (length xs)"] simp: min_def)
  from take_mem_write [OF _ this, of bs] s obtain D where "mem_write (length xs) bs C' = Some D" "length D = length C'"
    "take (length xs + length bs) D = map Some (xs @ bs)" by auto
  then show ?thesis using s(2-4) by (intro exI [of _ t] exI [of _ a] exI [of _ D]) (simp add: s(1) st_img)
qed

section \<open>Properties\<close>

text \<open>Creating a string: the block \<^verbatim>\<open>sdsnewlen\<close> lays out for bytes is exactly the string the byte-level definition returns, for
  every header type, and both return \<open>NULL\<close> together; nothing is written outside the block.\<close>

theorem sdsnewlen_refines:
  assumes "n < 2 ^ 62" and "n \<le> length p"
  shows "case sdsnewlen mal p (of_nat n) of
      Some (Some xs) \<Rightarrow> \<exists>s. sdsnewlen_m mal (Init p) (of_nat n) = Some (Some s) \<and> sds_rep xs s
    | r \<Rightarrow> r = Some None \<and> sdsnewlen_m mal (Init p) (of_nat n) = Some None"
proof -
  define t where "t = (let u = sdsReqType (of_nat n) in if u = SDS_TYPE_5 \<and> n = 0 then SDS_TYPE_8 else u)"
  note nl = sdsnewlen_img [OF assms(1), folded t_def]
  have u: "unat (of_nat n :: u64) = n" "(of_nat n = (0 :: u64)) = (n = 0)"
    using assms(1) by (simp_all add: unat_of_nat64 word_unat_eq_iff)
  have "n < 2 ^ 63" using assms(1) by simp
  then have "sdsnewlen mal p (of_nat n) = (if \<not> mal (hdr_size t + n + 1) then Some None else Some (Some (take n p)))"
    using unat_total [OF hdr_ok_bounds(1) [OF nl(1)]] assms(2)
    by (simp add: sdsnewlen_def Let_def u t_def [unfolded Let_def, symmetric] memrd_eq_Some)
  moreover have "length (take n p) < 2 ^ 62" "length (take n p) = n" using assms by simp_all
  then have "mal (hdr_size t + n + 1) \<Longrightarrow> \<exists>s. sdsnewlen_m mal (Init p) (of_nat n) = Some (Some s) \<and> sds_rep (take n p) s"
    using sdsnewlen_rep [of "take n p" mal "drop n p"] nl(2) [of mal "Init p"] by (auto split: if_splits bind_splits)
  ultimately show ?thesis by (simp add: nl(2))
qed

theorem sdsnewlen_refines_witness:
  "\<exists>s. sdsnewlen (\<lambda>_. True) [102, 111, 111, 0] 3 = Some (Some [102, 111, 111]) \<and>
     sdsnewlen_m (\<lambda>_. True) (Init [102, 111, 111, 0]) 3 = Some (Some s) \<and> sds_rep [102, 111, 111] s"
  using sdsnewlen_refines [of 3 "[102, 111, 111, 0]" "\<lambda>_. True"] sdsnewlen_append [of "\<lambda>_. True" "[102, 111, 111]" "[0]"]
  by simp

text \<open>The documented way to fill a string in place: ask for room for the bytes, write them after the text, and add their number to
  the length. Whenever the room was granted, the writes stay in the block, no assertion fails, and the string is the old text
  followed by the bytes, whatever header types were involved.\<close>

theorem make_room_write_incr:
  assumes "sds_rep xs s" and "bs \<noteq> []" and "length xs + length bs < 2 ^ 62"
    and "sdsMakeRoomFor mal s (of_nat (length bs)) = Some (Some s1)"
  shows "\<exists>s2 s3. st (off s1 + length xs) bs s1 = Some s2 \<and> sdsIncrLen (of_nat (length bs)) s2 = Some (Inr s3) \<and> sds_rep (xs @ bs) s3"
proof -
  obtain C where "room (length xs) (length bs) (map Some xs @ Some 0 # C) s1"
    using sds_make_room_rep [OF assms(1,3), of mal] assms(4) by auto
  from room_write [OF this] obtain t a D where w: "st (off s1 + length xs) bs s1 = Some (sds_img t (length xs) a D)" "hdr_ok t (length xs) a"
    "length xs + length bs \<le> a" "a + 1 \<le> length D" "take (length xs + length bs) D = map Some (xs @ bs)" by blast
  have "t \<noteq> 0" using w(2,3) assms(2) by (cases bs) (auto simp: hdr_ok_def sds_types split: if_splits)
  from sdsIncrLen_room [OF refl w(2) this w(3,4,5)] w(1) show ?thesis by simp
qed

theorem make_room_write_incr_witness:
  "\<exists>s s1 s2 s3. sdsnewlen_m (\<lambda>_. True) (Init [102, 111]) 2 = Some (Some s) \<and> sdsMakeRoomFor (\<lambda>_. True) s 1 = Some (Some s1) \<and>
     st (off s1 + 2) [111] s1 = Some s2 \<and> sdsIncrLen 1 s2 = Some (Inr s3) \<and> sds_rep [102, 111, 111] s3"
proof -
  obtain s where s: "sdsnewlen_m (\<lambda>_. True) (Init [102, 111]) 2 = Some (Some s)" "sds_rep [102, 111] s"
    using sdsnewlen_rep [of "[102, 111]" "\<lambda>_. True" "[]"] by auto
  moreover obtain s1 where "sdsMakeRoomFor (\<lambda>_. True) s 1 = Some (Some s1)"
    using sds_make_room_rep [OF s(2), of 1 "\<lambda>_. True"] by auto
  ultimately show ?thesis using make_room_write_incr [OF s(2), of "[111]" "\<lambda>_. True" s1] by auto
qed

text \<open>\<^verbatim>\<open>sdsIncrLen\<close> on a short string (one that still has the one-byte header): adding nothing fails the assertion, which the
  other header types accept, and adding anything that keeps the length below 32 passes the assertion although the block has no
  room: the terminator is written outside it.\<close>

theorem incr_len_short_string:
  assumes "xs \<noteq> []" and "length xs + k < 32" and "sdsnewlen_m mal (Init xs) (of_nat (length xs)) = Some (Some s)"
  shows "sdsIncrLen (of_nat k) s = (if k = 0 then Some (Inl ()) else None)"
proof -
  define n where "n = length xs"
  have n: "0 < n" "n < 32" "n + k < 32" using assms(1,2) by (auto simp: n_def)
  then have n62: "n < 2 ^ 62" by simp
  have "(of_nat n :: u64) < 32" using n by (simp add: word_less_nat_alt unat_of_nat64)
  then have t: "(let u = sdsReqType (of_nat n) in if u = SDS_TYPE_5 \<and> n = 0 then SDS_TYPE_8 else u) = 0"
    using n by (simp add: sdsReqType_def sds_types)
  note nl = sdsnewlen_img [OF n62, unfolded t]
  have w: "st (hdr_size 0) xs (sds_img 0 n n (replicate (n + 1) None)) = Some (sds_img 0 n n (map Some xs @ [None]))"
    using st_img [of 0 0 xs n n "replicate (n + 1) None"] by (simp add: mem_write_def Suc_diff_le n_def del: replicate_Suc) simp
  have s: "s = sds_img 0 n n (map Some xs @ [Some 0])"
    using assms(3) n nl(2) [of mal "Init xs"] w
    by (auto simp: n_def memrd_def st_img mem_write_def split: if_splits)
  have sint: "sint (of_nat k :: u64) = int k" "sint (of_nat n :: u64) = int n" using n by (simp_all add: sint_of_nat64)
  have "wr_flags (of_nat SDS_TYPE_5 OR push_bit 3 (of_nat n + of_nat k)) (sds_img 0 n n C) = Some (sds_img 0 (n + k) (n + k) C)" for C
    using wr_flags_img5 [of "n + k" n n C "n + k"] by simp
  moreover have "unat (of_nat n + of_nat k :: u64) = n + k" using unat_of_nat64 [of "n + k"] n by simp
  ultimately show ?thesis using n nl(1)
    by (simp add: sdsIncrLen_def s sds_switch_eq sds_type_flags [OF nl(1)] Let_def sint incr5_ok_def st_img mem_write_def)
      (simp add: n_def st_img mem_write_def)
qed

theorem incr_len_short_string_witness:
  "\<exists>s. sdsnewlen_m (\<lambda>_. True) (Init [102]) 1 = Some (Some s) \<and> sdsIncrLen 0 s = Some (Inl ()) \<and> sdsIncrLen 1 s = None"
proof -
  obtain s where "sdsnewlen_m (\<lambda>_. True) (Init [102]) 1 = Some (Some s)" using sdsnewlen_rep [of "[102]" "\<lambda>_. True" "[]"] by auto
  then show ?thesis using incr_len_short_string [of "[102]" 0 "\<lambda>_. True" s] incr_len_short_string [of "[102]" 1 "\<lambda>_. True" s] by simp
qed

end
