(* ===== verification/SdsOps.thy ===== *)
theory SdsOps
  imports SdsMem
begin

text \<open>
  The string operations of \<^verbatim>\<open>src/sds.c\<close> that work on the text: appending, copying, zero-filling, trimming, ranges, case, comparison,
  character substitution and joining. Each is the C function on a block (theory \<open>SdsMem\<close>), and each is shown to do to the text
  what a function on byte lists says. The locale \<open>text_buffer\<close> is what the functions that build a string piece by piece rely on:
  an empty string and an append that either refuses or extends the text.
\<close>

section \<open>Operations\<close>

definition sdsgrowzero :: "(nat \<Rightarrow> bool) \<Rightarrow> sdsmem \<Rightarrow> u64 \<Rightarrow> sdsmem option option" where
  "sdsgrowzero mal s newlen = do {
     curlen \<leftarrow> sdslen_m s;
     if newlen \<le> curlen then Some (Some s)
     else do {
       r \<leftarrow> sdsMakeRoomFor mal s (newlen - curlen);
       case r of
         None \<Rightarrow> Some None
       | Some s \<Rightarrow> do {
           s \<leftarrow> st (off s + unat curlen) (replicate (unat (newlen - curlen + 1)) 0) s;
           s \<leftarrow> sdssetlen newlen s;
           Some (Some s) } } }"

text \<open>\<^verbatim>\<open>sdscatlen(s, t, len)\<close>; \<open>t\<close> points into another object than \<open>s\<close>.\<close>

definition sdscatlen :: "(nat \<Rightarrow> bool) \<Rightarrow> sdsmem \<Rightarrow> ptr \<Rightarrow> u64 \<Rightarrow> sdsmem option option" where
  "sdscatlen mal s t tlen = do {
     curlen \<leftarrow> sdslen_m s;
     r \<leftarrow> sdsMakeRoomFor mal s tlen;
     case r of
       None \<Rightarrow> Some None
     | Some s \<Rightarrow> do {
         (bs, _) \<leftarrow> memrd (unat tlen) t;
         s \<leftarrow> st (off s + unat curlen) bs s;
         s \<leftarrow> sdssetlen (curlen + tlen) s;
         s \<leftarrow> st (off s + unat (curlen + tlen)) [0] s;
         Some (Some s) } }"

definition sdscat :: "(nat \<Rightarrow> bool) \<Rightarrow> sdsmem \<Rightarrow> ptr \<Rightarrow> sdsmem option option" where
  "sdscat mal s t = do { n \<leftarrow> strlen_at (map Some t); sdscatlen mal s t n }"

definition sdscatsds :: "(nat \<Rightarrow> bool) \<Rightarrow> sdsmem \<Rightarrow> sdsmem \<Rightarrow> sdsmem option option" where
  "sdscatsds mal s t = do { n \<leftarrow> sdslen_m t; bs \<leftarrow> sds_bytes n t; sdscatlen mal s bs n }"

definition sdscpylen :: "(nat \<Rightarrow> bool) \<Rightarrow> sdsmem \<Rightarrow> ptr \<Rightarrow> u64 \<Rightarrow> sdsmem option option" where
  "sdscpylen mal s t tlen = do {
     a \<leftarrow> sdsalloc s;
     r \<leftarrow> (if a < tlen then do { l \<leftarrow> sdslen_m s; sdsMakeRoomFor mal s (tlen - l) } else Some (Some s));
     case r of
       None \<Rightarrow> Some None
     | Some s \<Rightarrow> do {
         (bs, _) \<leftarrow> memrd (unat tlen) t;
         s \<leftarrow> st (off s) bs s;
         s \<leftarrow> st (off s + unat tlen) [0] s;
         s \<leftarrow> sdssetlen tlen s;
         Some (Some s) } }"

definition sdscpy :: "(nat \<Rightarrow> bool) \<Rightarrow> sdsmem \<Rightarrow> ptr \<Rightarrow> sdsmem option option" where
  "sdscpy mal s t = do { n \<leftarrow> strlen_at (map Some t); sdscpylen mal s t n }"

text \<open>\<^verbatim>\<open>strchr(cset, c) != NULL\<close> for a C string \<open>cset\<close>: the terminator counts as one of its characters.\<close>

definition strchr :: "byte list \<Rightarrow> byte \<Rightarrow> bool" where
  "strchr cset c \<longleftrightarrow> c = 0 \<or> c \<in> set cset"

text \<open>The two loops of \<^verbatim>\<open>sdstrim\<close>, with \<open>sp\<close> and \<open>ep\<close> as positions relative to the text (\<open>ep\<close> may be \<open>-1\<close>).\<close>

definition byte_at :: "sdsmem \<Rightarrow> int \<Rightarrow> byte option" where
  "byte_at s i = (if 0 \<le> int (off s) + i then do { bs \<leftarrow> ld (nat (int (off s) + i)) 1 s; Some (hd bs) } else None)"

function trim_left :: "byte list \<Rightarrow> sdsmem \<Rightarrow> int \<Rightarrow> int \<Rightarrow> int option" where
  "trim_left cset s sp endp =
     (if sp \<le> endp then do { c \<leftarrow> byte_at s sp; if strchr cset c then trim_left cset s (sp + 1) endp else Some sp }
      else Some sp)"
  by auto
termination by (relation "measure (\<lambda>(cset, s, sp, endp). nat (endp + 1 - sp))") auto

function trim_right :: "byte list \<Rightarrow> sdsmem \<Rightarrow> int \<Rightarrow> int \<Rightarrow> int option" where
  "trim_right cset s sp ep =
     (if ep > sp then do { c \<leftarrow> byte_at s ep; if strchr cset c then trim_right cset s sp (ep - 1) else Some ep }
      else Some ep)"
  by auto
termination by (relation "measure (\<lambda>(cset, s, sp, ep). nat (ep - sp))") auto

declare trim_left.simps [simp del] trim_right.simps [simp del]

text \<open>\<^verbatim>\<open>memmove(s, s + from, n)\<close> within the block.\<close>

definition move_down :: "nat \<Rightarrow> nat \<Rightarrow> sdsmem \<Rightarrow> sdsmem option" where
  "move_down from n s = do { bs \<leftarrow> ld (off s + from) n s; st (off s) bs s }"

definition sdstrim :: "byte list \<Rightarrow> sdsmem \<Rightarrow> sdsmem option" where
  "sdstrim cset s = do {
     l \<leftarrow> sdslen_m s;
     let endp = uint l - 1;
     sp \<leftarrow> trim_left cset s 0 endp;
     ep \<leftarrow> trim_right cset s sp endp;
     let n = (if sp > ep then 0 else ep - sp + 1);
     s \<leftarrow> (if sp \<noteq> 0 then move_down (nat sp) (nat n) s else Some s);
     s \<leftarrow> st (off s + nat n) [0] s;
     sdssetlen (word_of_int n) s }"

text \<open>\<^verbatim>\<open>ssize_t\<close> arithmetic: the sums with the unsigned length wrap and are read as signed; \<^verbatim>\<open>(end-start)+1\<close> is signed and may
  overflow.\<close>

definition sadd :: "int \<Rightarrow> int \<Rightarrow> int option" where
  "sadd a b = (if - (2 ^ 63) \<le> a + b \<and> a + b < 2 ^ 63 then Some (a + b) else None)"

definition range_len :: "int \<Rightarrow> int \<Rightarrow> int option" where
  "range_len start endp = (if start > endp then Some 0 else do { d \<leftarrow> sadd endp (- start); sadd d 1 })"

definition range_index :: "u64 \<Rightarrow> int \<Rightarrow> int" where
  "range_index l i = (if i < 0 then let i = sint (l + word_of_int i) in if i < 0 then 0 else i else i)"

definition sdsrange :: "sdsmem \<Rightarrow> int \<Rightarrow> int \<Rightarrow> sdsmem option" where
  "sdsrange s start endp = do {
     l \<leftarrow> sdslen_m s;
     if l = 0 then Some s
     else do {
       let start = range_index l start;
       let endp = range_index l endp;
       newlen \<leftarrow> range_len start endp;
       (start, newlen) \<leftarrow>
         (if newlen \<noteq> 0 then
            if start \<ge> sint l then Some (start, 0)
            else if endp \<ge> sint l then do { newlen \<leftarrow> range_len start (sint (l - 1)); Some (start, newlen) }
            else Some (start, newlen)
          else Some (0, newlen));
       s \<leftarrow> (if start \<noteq> 0 \<and> newlen \<noteq> 0 then move_down (nat start) (nat newlen) s else Some s);
       s \<leftarrow> st (off s + nat newlen) [0] s;
       sdssetlen (word_of_int newlen) s } }"

text \<open>\<^verbatim>\<open>tolower\<close> and \<^verbatim>\<open>toupper\<close> of the C locale. A byte from \<open>0x80\<close> on reaches them as a negative \<^verbatim>\<open>char\<close>, which glibc's tables map to itself.\<close>

definition tolower :: "byte \<Rightarrow> byte" where
  "tolower c = (if 65 \<le> c \<and> c \<le> 90 then c + 32 else c)"

definition toupper :: "byte \<Rightarrow> byte" where
  "toupper c = (if 97 \<le> c \<and> c \<le> 122 then c - 32 else c)"

text \<open>\<^verbatim>\<open>for (j = 0; j < len; j++) s[j] = f(s[j]);\<close>, with \<open>n\<close> iterations left.\<close>

primrec each_char :: "(byte \<Rightarrow> byte option) \<Rightarrow> nat \<Rightarrow> nat \<Rightarrow> sdsmem \<Rightarrow> sdsmem option" where
  "each_char f 0 j s = Some s"
| "each_char f (Suc n) j s = do { c \<leftarrow> byte_at s (int j); d \<leftarrow> f c; s \<leftarrow> st (off s + j) [d] s; each_char f n (j + 1) s }"

definition sdstolower :: "sdsmem \<Rightarrow> sdsmem option" where
  "sdstolower s = do { l \<leftarrow> sdslen_m s; each_char (Some \<circ> tolower) (unat l) 0 s }"

definition sdstoupper :: "sdsmem \<Rightarrow> sdsmem option" where
  "sdstoupper s = do { l \<leftarrow> sdslen_m s; each_char (Some \<circ> toupper) (unat l) 0 s }"

text \<open>The inner loop of \<^verbatim>\<open>sdsmapchars\<close> over the two arrays, and the outer one.\<close>

fun map_char :: "nat \<Rightarrow> byte list \<Rightarrow> byte list \<Rightarrow> byte \<Rightarrow> byte option" where
  "map_char 0 fs ts c = Some c"
| "map_char (Suc n) [] ts c = None"
| "map_char (Suc n) (f # fs) ts c = (if c = f then deref ts else map_char n fs (tl ts) c)"

definition sdsmapchars :: "sdsmem \<Rightarrow> byte list \<Rightarrow> byte list \<Rightarrow> u64 \<Rightarrow> sdsmem option" where
  "sdsmapchars s fs ts setlen = do { l \<leftarrow> sdslen_m s; each_char (map_char (unat setlen) fs ts) (unat l) 0 s }"

definition sdscmp :: "sdsmem \<Rightarrow> sdsmem \<Rightarrow> int option" where
  "sdscmp s1 s2 = do {
     l1 \<leftarrow> sdslen_m s1;
     l2 \<leftarrow> sdslen_m s2;
     let minlen = (if l1 < l2 then l1 else l2);
     cmp \<leftarrow> memcmp (sds_bytes minlen s1) (sds_bytes minlen s2) (unat minlen);
     if cmp = 0 then Some (if l1 > l2 then 1 else if l1 < l2 then - 1 else 0) else Some cmp }"

text \<open>The joins do not check the results of the appends: an append to \<open>NULL\<close> dereferences it.\<close>

fun join_loop :: "('s \<Rightarrow> 'a \<Rightarrow> 's option option) \<Rightarrow> ('s \<Rightarrow> 's option option) \<Rightarrow> 'a list \<Rightarrow> 's option \<Rightarrow> 's option option" where
  "join_loop app sep [] join = Some join"
| "join_loop app sep (a # as) join = do {
     s \<leftarrow> join;
     join \<leftarrow> app s a;
     join \<leftarrow> (if as \<noteq> [] then do { s \<leftarrow> join; sep s } else Some join);
     join_loop app sep as join }"

definition sdsjoin :: "(nat \<Rightarrow> bool) \<Rightarrow> ptr list \<Rightarrow> ptr \<Rightarrow> sdsmem option option" where
  "sdsjoin mal argv sep = do {
     join \<leftarrow> sdsempty mal;
     join_loop (sdscat mal) (\<lambda>s. sdscat mal s sep) argv join }"

definition sdsjoinsds :: "(nat \<Rightarrow> bool) \<Rightarrow> sdsmem list \<Rightarrow> ptr \<Rightarrow> u64 \<Rightarrow> sdsmem option option" where
  "sdsjoinsds mal argv sep seplen = do {
     join \<leftarrow> sdsempty mal;
     join_loop (sdscatsds mal) (\<lambda>s. sdscatlen mal s sep seplen) argv join }"

section \<open>Appending and copying\<close>

lemma hdr_ok_within: "hdr_ok t n a \<Longrightarrow> m \<le> a \<Longrightarrow> hdr_ok t m (if t = 0 then m else a) \<and> (if t = 0 then m else a) \<le> a"
  by (auto simp: hdr_ok_def sds_types)

text \<open>The end of every operation that leaves \<open>ys\<close> in the first cells: set the length and write the terminator, in either order.\<close>

lemma set_then_terminate:
  assumes ok: "hdr_ok t n a" and ys: "length ys \<le> a" and len: "a + 1 \<le> length C" and C: "take (length ys) C = map Some ys"
  shows "\<exists>s. do { s \<leftarrow> sdssetlen (of_nat (length ys)) (sds_img t n a C); st (off s + length ys) [0] s } = Some s \<and> sds_rep ys s"
proof -
  let ?a = "if t = 0 then length ys else a"
  have "hdr_ok t (length ys) ?a" "?a + 1 \<le> length C" using hdr_ok_within [OF ok ys] len by auto
  from sds_fill [OF this C] sdssetlen_img [OF ok, of "length ys" C] show ?thesis by simp
qed

lemma terminate_then_set:
  assumes ok: "hdr_ok t n a" and ys: "length ys \<le> a" and len: "a + 1 \<le> length C" and C: "take (length ys) C = map Some ys"
  shows "\<exists>s. do { s \<leftarrow> st (hdr_size t + length ys) [0] (sds_img t n a C); sdssetlen (of_nat (length ys)) s } = Some s \<and> sds_rep ys s"
proof -
  have "length ys + length [0 :: byte] \<le> length C" using ys len by simp
  from take_mem_write [OF this C] obtain D where D: "mem_write (length ys) [0] C = Some D" "length D = length C"
    "take (length ys + 1) D = map Some (ys @ [0])" by auto
  let ?a = "if t = 0 then length ys else a"
  have "sds_rep ys (sds_img t (length ys) ?a D)"
    using hdr_ok_within [OF ok ys] len D by (intro sds_rep_img) auto
  then show ?thesis using D(1) sdssetlen_img [OF ok, of "length ys" D] by (simp add: st_img)
qed

lemma sdscatlen_rep:
  assumes "sds_rep xs s" and n: "length xs + length ts < 2 ^ 62"
  shows "sdscatlen mal s (ts @ rest) (of_nat (length ts)) = Some None \<and> (\<exists>z. \<not> mal z) \<or>
    (\<exists>s'. sdscatlen mal s (ts @ rest) (of_nat (length ts)) = Some (Some s') \<and> sds_rep (xs @ ts) s')"
proof -
  have u: "unat (of_nat (length xs) :: u64) = length xs" "unat (of_nat (length ts) :: u64) = length ts"
    "unat (of_nat (length xs) + of_nat (length ts) :: u64) = length (xs @ ts)"
    using n unat_of_nat64 [of "length (xs @ ts)"] by (simp_all add: unat_of_nat64)
  from sds_make_room_rep [OF assms, of mal] show ?thesis
  proof (elim disjE conjE exE)
    fix z
    assume "sdsMakeRoomFor mal s (of_nat (length ts)) = Some None" "\<not> mal z"
    then show ?thesis by (auto simp: sdscatlen_def sdslen_rep [OF assms(1)])
  next
    fix s' C
    assume r: "sdsMakeRoomFor mal s (of_nat (length ts)) = Some (Some s')" and "room (length xs) (length ts) (map Some xs @ Some 0 # C) s'"
    from room_write [OF this(2)] obtain t a D where D: "st (off s' + length xs) ts s' = Some (sds_img t (length xs) a D)" "hdr_ok t (length xs) a"
      "length xs + length ts \<le> a" "a + 1 \<le> length D" "take (length xs + length ts) D = map Some (xs @ ts)" by blast
    obtain s'' where "do { s \<leftarrow> sdssetlen (of_nat (length (xs @ ts))) (sds_img t (length xs) a D); st (off s + length (xs @ ts)) [0] s } = Some s''"
      "sds_rep (xs @ ts) s''" using set_then_terminate [OF D(2), of "xs @ ts" D] D(3-5) by auto
    moreover have "sdscatlen mal s (ts @ rest) (of_nat (length ts)) =
        do { s \<leftarrow> sdssetlen (of_nat (length (xs @ ts))) (sds_img t (length xs) a D); s \<leftarrow> st (off s + length (xs @ ts)) [0] s; Some (Some s) }"
      by (simp add: sdscatlen_def sdslen_rep [OF assms(1)] r u D(1))
    ultimately show ?thesis unfolding bind_return_Some by simp
  qed
qed

lemma sdscat_rep:
  assumes "sds_rep xs s" and "length xs + length ts < 2 ^ 62" and "0 \<notin> set ts"
  shows "sdscat mal s (ts @ 0 # rest) = Some None \<and> (\<exists>z. \<not> mal z) \<or>
    (\<exists>s'. sdscat mal s (ts @ 0 # rest) = Some (Some s') \<and> sds_rep (xs @ ts) s')"
  using sdscatlen_rep [OF assms(1,2), of mal "0 # rest"] by (simp add: sdscat_def strlen_at_append [OF assms(3)])

lemma sdscatsds_rep:
  assumes "sds_rep xs s" and "sds_rep ts t" and "length xs + length ts < 2 ^ 62"
  shows "sdscatsds mal s t = Some None \<and> (\<exists>z. \<not> mal z) \<or> (\<exists>s'. sdscatsds mal s t = Some (Some s') \<and> sds_rep (xs @ ts) s')"
  using sdscatlen_rep [OF assms(1,3), of mal "[]"] by (simp add: sdscatsds_def sdslen_rep [OF assms(2)] sds_bytes_rep [OF assms(2)])

lemma sdscpylen_rep:
  assumes rep: "sds_rep xs s" and n: "length xs < 2 ^ 61" "length ts < 2 ^ 61"
  shows "sdscpylen mal s (ts @ rest) (of_nat (length ts)) = Some None \<and> (\<exists>z. \<not> mal z) \<or>
    (\<exists>s'. sdscpylen mal s (ts @ rest) (of_nat (length ts)) = Some (Some s') \<and> sds_rep ts s')"
proof -
  let ?n = "length ts"
  have u: "unat (of_nat ?n :: u64) = ?n" using n by (simp add: unat_of_nat64)
  have fin: "\<exists>s'. do { (bs, _) \<leftarrow> memrd (unat (of_nat ?n :: u64)) (ts @ rest); s \<leftarrow> st (off s0) bs s0; s \<leftarrow> st (off s + unat (of_nat ?n :: u64)) [0] s;
      s \<leftarrow> sdssetlen (of_nat ?n) s; Some (Some s) } = Some (Some s') \<and> sds_rep ts s'"
    if s0: "s0 = sds_img t m a C" "hdr_ok t m a" "?n \<le> a" "a + 1 \<le> length C" for s0 t m a C
  proof -
    from take_mem_write [of 0 ts C "[]"] s0(3,4) obtain D where D: "mem_write 0 ts C = Some D" "length D = length C" "take ?n D = map Some ts" by auto
    then have "st (off s0) ts s0 = Some (sds_img t m a D)" using st_img [of t 0 ts m a C] by (simp add: s0(1))
    moreover obtain s' where "do { s \<leftarrow> st (hdr_size t + ?n) [0] (sds_img t m a D); sdssetlen (of_nat ?n) s } = Some s'" "sds_rep ts s'"
      using terminate_then_set [OF s0(2,3), of D] s0(4) D by auto
    ultimately show ?thesis by (simp add: u bind_return_Some)
  qed
  from rep obtain t a C where s: "s = sds_img t (length xs) a (map Some xs @ Some 0 # C)" "hdr_ok t (length xs) a" "a \<le> length xs + length C"
    by (rule sds_repE)
  have cmp: "(of_nat a :: u64) < of_nat ?n \<longleftrightarrow> a < ?n" using hdr_ok_bounds(3) [OF s(2)] n by (intro of_nat_less64) simp_all
  show ?thesis
  proof (cases "a < ?n")
    case True
    then have le: "length xs \<le> ?n" using hdr_ok_bounds(2) [OF s(2)] by simp
    have k: "length xs + (?n - length xs) < 2 ^ 62" using n le by simp
    from sds_make_room_rep [OF rep k, of mal] consider
      (no) z where "sdsMakeRoomFor mal s (of_nat (?n - length xs)) = Some None" "\<not> mal z"
    | (ok) s1 C1 where "sdsMakeRoomFor mal s (of_nat (?n - length xs)) = Some (Some s1)" "room (length xs) (?n - length xs) (map Some xs @ Some 0 # C1) s1"
      by blast
    then show ?thesis
    proof cases
      case no
      then show ?thesis using True s(2) le by (auto simp: sdscpylen_def s(1) cmp of_nat_diff)
    next
      case ok
      then obtain t1 a1 D where "s1 = sds_img t1 (length xs) a1 D" "hdr_ok t1 (length xs) a1" "?n \<le> a1" "a1 + 1 \<le> length D"
        using le by (auto simp: room_def)
      from fin [OF this] show ?thesis using True ok s(2) le by (simp add: sdscpylen_def s(1) cmp of_nat_diff)
    qed
  next
    case False
    from fin [OF s(1,2)] False s(3) show ?thesis using s(2) by (simp add: sdscpylen_def s(1) cmp)
  qed
qed

lemma set_text:
  assumes ok: "hdr_ok t m a" and ys: "length ys \<le> a" and len: "a + 1 \<le> length C" and C: "take (length ys + 1) C = map Some (ys @ [0])"
  shows "\<exists>s. sdssetlen (of_nat (length ys)) (sds_img t m a C) = Some s \<and> sds_rep ys s"
proof -
  let ?a = "if t = 0 then length ys else a"
  have "hdr_ok t (length ys) ?a" "?a + 1 \<le> length C" using hdr_ok_within [OF ok ys] len by auto
  then show ?thesis using sdssetlen_img [OF ok, of "length ys" C] C by (auto intro: sds_rep_img)
qed

lemma sdsgrowzero_rep:
  assumes rep: "sds_rep xs s" and n: "length xs < 2 ^ 62" "n < 2 ^ 62"
  shows "sdsgrowzero mal s (of_nat n) = Some None \<and> (\<exists>z. \<not> mal z) \<or>
    (\<exists>s'. sdsgrowzero mal s (of_nat n) = Some (Some s') \<and> sds_rep (xs @ replicate (n - length xs) 0) s')"
proof (cases "n \<le> length xs")
  case True
  then have "(of_nat n :: u64) \<le> of_nat (length xs)" using of_nat_le64 [of n "length xs"] n by simp
  then show ?thesis using True rep by (simp add: sdsgrowzero_def sdslen_rep [OF rep])
next
  case False
  define k where "k = n - length xs"
  have k: "n = length xs + k" using False by (simp add: k_def)
  have nle: "\<not> (of_nat n :: u64) \<le> of_nat (length xs)" using False of_nat_le64 [of n "length xs"] n by simp
  have u: "unat (of_nat (length xs) :: u64) = length xs" "of_nat n - of_nat (length xs) = (of_nat k :: u64)"
    "unat (of_nat k + 1 :: u64) = k + 1"
    using n k unat_of_nat64 [of "k + 1"] by (simp_all add: unat_of_nat64 add.commute)
  have eq: "sdsgrowzero mal s (of_nat n) = do {
       r \<leftarrow> sdsMakeRoomFor mal s (of_nat k);
       case r of None \<Rightarrow> Some None
       | Some s \<Rightarrow> do { s \<leftarrow> st (off s + length xs) (replicate (k + 1) 0) s; s \<leftarrow> sdssetlen (of_nat n) s; Some (Some s) } }"
    using nle by (simp add: sdsgrowzero_def sdslen_rep [OF rep] u del: replicate_Suc cong: option.case_cong)
  have "length xs + k < 2 ^ 62" using n k by simp
  from sds_make_room_rep [OF rep this, of mal] consider
    (no) z where "sdsMakeRoomFor mal s (of_nat k) = Some None" "\<not> mal z"
  | (ok) s1 C1 where "sdsMakeRoomFor mal s (of_nat k) = Some (Some s1)" "room (length xs) k (map Some xs @ Some 0 # C1) s1"
    by blast
  then show ?thesis
  proof cases
    case no
    then show ?thesis by (auto simp: eq)
  next
    case ok
    then obtain t a C where s1: "s1 = sds_img t (length xs) a C" "hdr_ok t (length xs) a" "n \<le> a" "a + 1 \<le> length C"
      "take (length xs + 1) C = map Some xs @ [Some 0]" by (auto simp: room_def k)
    from s1(5) have "take (length xs) C = map Some xs" by (auto dest: arg_cong [where f = "take (length xs)"] simp: min_def)
    from take_mem_write [OF _ this, of "replicate (k + 1) 0"] s1(3,4)
    obtain D where D: "mem_write (length xs) (replicate (k + 1) 0) C = Some D" "length D = length C"
      "take (length xs + (k + 1)) D = map Some xs @ map Some (replicate (k + 1) 0)" by (auto simp: k simp del: replicate_Suc)
    let ?ys = "xs @ replicate k 0"
    have n: "length ?ys = n" by (simp add: k)
    have "take (length ?ys + 1) D = map Some (?ys @ [0])"
      using D(3) by (simp add: replicate_append_same)
    from set_text [OF s1(2) _ _ this] s1(3,4) D(2) obtain s2 where "sdssetlen (of_nat n) (sds_img t (length xs) a D) = Some s2" "sds_rep ?ys s2"
      unfolding n by auto
    moreover have "st (off s1 + length xs) (replicate (k + 1) 0) s1 = Some (sds_img t (length xs) a D)"
      using D(1) by (simp add: s1(1) st_img del: replicate_Suc)
    ultimately show ?thesis using ok(1) unfolding eq k_def [symmetric] by simp
  qed
qed

section \<open>Trimming and ranges\<close>

lemma byte_at_img: "i < length xs \<Longrightarrow> byte_at (sds_img t n a (map Some xs @ D)) (int i) = Some (xs ! i)"
  using ld_img [of t i 1 n a "map Some xs @ D"]
  by (simp add: byte_at_def nat_int_add take_Suc_conv_app_nth drop_map nth_append flip: Cons_nth_drop_Suc)

lemma move_down_img:
  assumes "i + n \<le> length xs"
  shows "\<exists>D. move_down i n (sds_img t m a (map Some xs @ E)) = Some (sds_img t m a D) \<and>
    length D = length xs + length E \<and> take n D = map Some (take n (drop i xs))"
proof -
  let ?bs = "take n (drop i xs)" and ?C = "map Some xs @ E"
  have "ld (hdr_size t + i) n (sds_img t m a ?C) = Some ?bs"
    using assms by (auto simp: ld_img take_map drop_map comp_def)
  moreover have l: "length ?bs = n" using assms by simp
  moreover from take_mem_write [of 0 ?bs ?C "[]"] assms
  obtain D where "mem_write 0 ?bs ?C = Some D" "length D = length ?C" "take (length ?bs) D = map Some ?bs" by auto
  ultimately show ?thesis using st_img [of t 0 ?bs m a ?C] by (auto simp: move_down_def)
qed

text \<open>The common end of \<^verbatim>\<open>sdstrim\<close> and \<^verbatim>\<open>sdsrange\<close>: move \<open>n\<close> bytes from position \<open>i\<close> to the front, unless nothing moves, and cut.\<close>

lemma slice_rep:
  assumes rep: "sds_rep xs s" and le: "i + n \<le> length xs" and b: "b \<or> i = 0 \<or> n = 0"
  shows "\<exists>s'. do { s \<leftarrow> (if b then move_down i n s else Some s); s \<leftarrow> st (off s + n) [0] s; sdssetlen (of_nat n) s } = Some s' \<and>
    sds_rep (take n (drop i xs)) s'"
proof -
  from rep obtain t a C where s: "s = sds_img t (length xs) a (map Some xs @ Some 0 # C)" "hdr_ok t (length xs) a" "a \<le> length xs + length C"
    by (rule sds_repE)
  obtain D where D: "(if b then move_down i n s else Some s) = Some (sds_img t (length xs) a D)"
    "length D = length xs + length (Some (0 :: byte) # C)" "take n D = map Some (take n (drop i xs))"
  proof (cases b)
    case True
    then show ?thesis using that move_down_img [OF le, of t "length xs" a "Some 0 # C"] by (auto simp: s(1))
  next
    case False
    then show ?thesis using that [of "map Some xs @ Some 0 # C"] b le by (auto simp: s(1) take_map)
  qed
  have "length (take n (drop i xs)) = n" using le by simp
  then show ?thesis using terminate_then_set [OF s(2), of "take n (drop i xs)" D] D le s(3) hdr_ok_bounds(2) [OF s(2)] by simp
qed

text \<open>What is left when the characters of a set are removed from both ends.\<close>

definition trimmed :: "('a \<Rightarrow> bool) \<Rightarrow> 'a list \<Rightarrow> 'a list" where
  "trimmed P xs = rev (dropWhile P (rev (dropWhile P xs)))"

lemma trim_left_img:
  assumes "i \<le> length xs"
  shows "trim_left cset (sds_img t n a (map Some xs @ D)) (int i) (int (length xs) - 1) =
    Some (int (i + length (takeWhile (strchr cset) (drop i xs))))"
  using assms
proof (induction "length xs - i" arbitrary: i)
  case 0
  then show ?case by (simp add: trim_left.simps [of _ _ "int i"])
next
  case (Suc k)
  then have i: "i < length xs" by simp
  have IH: "trim_left cset (sds_img t n a (map Some xs @ D)) (int (Suc i)) (int (length xs) - 1) =
    Some (int (Suc i + length (takeWhile (strchr cset) (drop (Suc i) xs))))" using Suc i by (intro Suc.hyps) simp_all
  show ?case using i IH byte_at_img [OF i, of t n a D]
    by (simp add: trim_left.simps [of _ _ "int i"] add.commute flip: Cons_nth_drop_Suc)
qed

lemma trim_right_img:
  assumes "\<not> strchr cset (xs ! i)" and "i + k < length xs"
  shows "trim_right cset (sds_img t n a (map Some xs @ D)) (int i) (int (i + k)) =
    Some (int (i + length (dropWhile (strchr cset) (rev (take (Suc k) (drop i xs))))) - 1)"
  using assms(2)
proof (induction k)
  case 0
  then show ?case using assms(1) by (simp add: trim_right.simps [of _ _ "int i"] flip: Cons_nth_drop_Suc)
next
  case (Suc k)
  have c: "take (Suc (Suc k)) (drop i xs) = take (Suc k) (drop i xs) @ [xs ! (i + Suc k)]"
    using Suc.prems by (subst take_Suc_conv_app_nth) simp_all
  let ?s = "sds_img t n a (map Some xs @ D)"
  have "trim_right cset ?s (int i) (int (i + Suc k)) =
      (if strchr cset (xs ! (i + Suc k)) then trim_right cset ?s (int i) (int (i + k)) else Some (int (i + Suc k)))"
    using Suc.prems byte_at_img [of "i + Suc k" xs t n a D] by (subst trim_right.simps) simp
  then show ?case using Suc unfolding c by simp
qed

lemma take_rev_dropWhile: "take (length (dropWhile P (rev ys))) ys = rev (dropWhile P (rev ys))"
  using rev_drop [of "length (takeWhile P (rev ys))" "rev ys"] by (simp add: dropWhile_eq_drop)

lemma trim_bounds:
  fixes cset xs :: "byte list"
  defines "P \<equiv> strchr cset"
  defines "i \<equiv> length (takeWhile P xs)" and "ys \<equiv> trimmed P xs"
  shows "i + length ys \<le> length xs" and "ys = take (length ys) (drop i xs)" and "i < length xs \<Longrightarrow> ys \<noteq> []"
    and "ys = rev (dropWhile P (rev (drop i xs)))"
proof -
  show ys: "ys = rev (dropWhile P (rev (drop i xs)))" by (simp add: ys_def trimmed_def dropWhile_eq_drop i_def)
  have "length ys \<le> length (drop i xs)" unfolding ys by (metis length_dropWhile_le length_rev)
  moreover have "i \<le> length xs" by (simp add: i_def length_takeWhile_le)
  ultimately show "i + length ys \<le> length xs" by simp
  show "ys = take (length ys) (drop i xs)" using take_rev_dropWhile [of P "drop i xs"] by (simp add: ys)
  assume i: "i < length xs"
  then have "\<not> P (xs ! i)" unfolding i_def by (rule nth_length_takeWhile)
  moreover have "xs ! i \<in> set (drop i xs)" using i by (simp flip: Cons_nth_drop_Suc)
  ultimately show "ys \<noteq> []" by (auto simp: ys)
qed

lemma sdstrim_rep:
  assumes rep: "sds_rep xs s"
  shows "\<exists>s'. sdstrim cset s = Some s' \<and> sds_rep (trimmed (strchr cset) xs) s'"
proof -
  let ?P = "strchr cset"
  from rep obtain t a C where s: "s = sds_img t (length xs) a (map Some xs @ Some 0 # C)" "hdr_ok t (length xs) a" "a \<le> length xs + length C"
    by (rule sds_repE)
  define i where "i = length (takeWhile ?P xs)"
  define ys where "ys = trimmed ?P xs"
  note tb = trim_bounds [of cset xs, folded i_def ys_def]
  have u: "uint (of_nat (length xs) :: u64) = int (length xs)" using hdr_ok_bounds(4) [OF s(2)] by (simp add: unsigned_of_nat take_bit_nat_eq_self)
  have tl: "trim_left cset s 0 (int (length xs) - 1) = Some (int i)"
    using trim_left_img [of 0 xs cset t "length xs" a "Some 0 # C"] by (simp add: s(1) i_def)
  obtain e where tr: "trim_right cset s (int i) (int (length xs) - 1) = Some e" and n: "(if int i > e then 0 else e - int i + 1) = int (length ys)"
  proof (cases "i < length xs")
    case True
    then have "\<not> ?P (xs ! i)" unfolding i_def by (rule nth_length_takeWhile)
    moreover have "take (Suc (length xs - 1 - i)) (drop i xs) = drop i xs" using True by simp
    moreover have "length (dropWhile ?P (rev (drop i xs))) = length ys" by (metis tb(4) length_rev)
    ultimately have "trim_right cset s (int i) (int (length xs) - 1) = Some (int (i + length ys) - 1)"
      using trim_right_img [of cset xs i "length xs - 1 - i" t "length xs" a "Some 0 # C"] True by (simp add: s(1) of_nat_diff)
    then show ?thesis using tb(3) [OF True] by (intro that [of "int (i + length ys) - 1"]) simp_all
  next
    case False
    then have "i = length xs" by (simp add: i_def length_takeWhile_le order.antisym not_less)
    moreover from this have "ys = []" using tb(1) by simp
    ultimately show ?thesis by (intro that [of "int (length xs) - 1"]) (simp_all add: trim_right.simps)
  qed
  have "sdstrim cset s = do { s \<leftarrow> (if int i \<noteq> 0 then move_down (nat (int i)) (nat (int (length ys))) s else Some s);
      s \<leftarrow> st (off s + nat (int (length ys))) [0] s; sdssetlen (word_of_int (int (length ys))) s }"
    by (simp only: sdstrim_def Let_def sdslen_rep [OF rep] bind.bind_lunit u tl tr n)
  moreover have "i \<noteq> 0 \<or> i = 0 \<or> length ys = 0" by auto
  ultimately show ?thesis using slice_rep [OF rep tb(1), of "i \<noteq> 0"] tb(2) by (cases "i = 0") (simp_all add: ys_def [symmetric])
qed

text \<open>The slice \<^verbatim>\<open>sdsrange\<close> is documented to keep: both ends inclusive, negative positions counted from the end.\<close>

definition slice_index :: "nat \<Rightarrow> int \<Rightarrow> int" where
  "slice_index n i = (if i < 0 then max 0 (int n + i) else i)"

definition sds_slice :: "byte list \<Rightarrow> int \<Rightarrow> int \<Rightarrow> byte list" where
  "sds_slice xs i j =
     (let i = nat (slice_index (length xs) i); j = nat (slice_index (length xs) j) in take (j + 1 - i) (drop i xs))"

definition ssize :: "int \<Rightarrow> bool" where
  "ssize i \<longleftrightarrow> - (2 ^ 63) \<le> i \<and> i < 2 ^ 63"

lemma sint_of_int64: "ssize k \<Longrightarrow> sint (word_of_int k :: u64) = k"
  by (simp add: ssize_def signed_of_int signed_take_bit_int_eq_self)

lemma range_index_eq:
  assumes "n < 2 ^ 63" and "ssize i"
  shows "range_index (of_nat n) i = slice_index n i"
proof -
  have "(of_nat n + word_of_int i :: u64) = word_of_int (int n + i)" by simp
  moreover have "i < 0 \<Longrightarrow> ssize (int n + i)" using assms by (simp add: ssize_def)
  ultimately show ?thesis by (auto simp: range_index_def slice_index_def sint_of_int64 Let_def simp del: of_int_add)
qed

lemma range_len_eq:
  assumes "0 \<le> i" and "0 \<le> j" and "j < 2 ^ 63" and "\<not> (i = 0 \<and> j = 2 ^ 63 - 1)"
  shows "range_len i j = Some (int (nat j + 1 - nat i))"
  using assms by (auto simp: range_len_def sadd_def)

lemma sds_rep_length: "sds_rep xs s \<Longrightarrow> length xs < 2 ^ 63"
  by (erule sds_repE) (rule hdr_ok_bounds)

lemma sdsrange_rep:
  assumes rep: "sds_rep xs s" and ij: "ssize i" "ssize j" and n: "\<not> (slice_index (length xs) i = 0 \<and> j = 2 ^ 63 - 1)"
  shows "\<exists>s'. sdsrange s i j = Some s' \<and> sds_rep (sds_slice xs i j) s'"
proof (cases "xs = []")
  case True
  then show ?thesis using rep sdslen_rep [OF rep] by (simp add: sdsrange_def sds_slice_def Let_def)
next
  case False
  define N where "N = length xs"
  define I where "I = nat (slice_index N i)"
  define J where "J = nat (slice_index N j)"
  have N: "0 < N" "N < 2 ^ 63" using False sds_rep_length [OF rep] by (auto simp: N_def)
  have J: "J < 2 ^ 63" "\<not> (I = 0 \<and> int J = 2 ^ 63 - 1)"
    using n N ij by (auto simp: I_def J_def N_def slice_index_def ssize_def max_def split: if_splits)
  have idx: "range_index (of_nat N) i = int I" "range_index (of_nat N) j = int J"
    using range_index_eq [OF N(2)] ij by (simp_all add: I_def J_def slice_index_def)
  have sl: "sint (of_nat N :: u64) = int N" "sint (of_nat N - 1 :: u64) = int (N - 1)" "(of_nat N = (0 :: u64)) = False"
    using N sint_of_nat64 [of N] sint_of_nat64 [of "N - 1"] by (simp_all add: of_nat_diff word_unat_eq_iff unat_of_nat64)
  define m where "m = (if I < N then min J (N - 1) + 1 - I else 0)"
  have xs: "sds_slice xs i j = take m (drop I xs)" using N by (auto simp: sds_slice_def m_def Let_def I_def J_def N_def min_def)
  have len: "range_len (int I) (int J) = Some (int (J + 1 - I))" "range_len (int I) (int (N - 1)) = Some (int (N - I))"
    using J N range_len_eq [of "int I" "int J"] range_len_eq [of "int I" "int (N - 1)"] by (auto simp: nat_int_add)
  define I' where "I' = (if J + 1 - I = 0 then 0 else I)"
  have "(if int (J + 1 - I) \<noteq> 0
        then if int I \<ge> int N then Some (int I, 0)
             else if int J \<ge> int N then do { newlen \<leftarrow> range_len (int I) (int (N - 1)); Some (int I, newlen) } else Some (int I, int (J + 1 - I))
        else Some (0, int (J + 1 - I))) = Some (int I', int m)"
    using N unfolding len by (auto simp: I'_def m_def min_def)
  then have eq: "sdsrange s i j =
      do { s \<leftarrow> (if I' \<noteq> 0 \<and> m \<noteq> 0 then move_down I' m s else Some s); s \<leftarrow> st (off s + m) [0] s; sdssetlen (of_nat m) s }"
    unfolding sdsrange_def Let_def sdslen_rep [OF rep] N_def [symmetric] bind.bind_lunit idx sl len by (simp del: of_nat_diff)
  define K where "K = (if m = 0 then 0 else I)"
  have "K + m \<le> length xs" using N by (auto simp: K_def m_def N_def min_def)
  moreover have "take m (drop K xs) = sds_slice xs i j" by (simp add: K_def xs)
  moreover have "K \<noteq> 0 \<or> K = 0 \<or> m = 0" by auto
  moreover have "(I' \<noteq> 0 \<and> m \<noteq> 0) = (K \<noteq> 0)" "K \<noteq> 0 \<Longrightarrow> K = I'" by (auto simp: K_def I'_def m_def min_def)
  ultimately show ?thesis unfolding eq using slice_rep [OF rep, of K m "K \<noteq> 0"] by (cases "K = 0") auto
qed

lemma sdsrange_overflow:
  assumes rep: "sds_rep xs s" and "xs \<noteq> []" and "ssize i" and i: "slice_index (length xs) i = 0"
  shows "sdsrange s i (2 ^ 63 - 1) = None"
proof -
  have N: "length xs < 2 ^ 63" by (rule sds_rep_length [OF rep])
  then have "(of_nat (length xs) = (0 :: u64)) = False" using assms(2) by (simp add: word_unat_eq_iff unat_of_nat64)
  moreover have "range_index (of_nat (length xs)) i = 0" "range_index (of_nat (length xs)) (2 ^ 63 - 1) = 2 ^ 63 - 1"
    using range_index_eq [OF N assms(3)] i range_index_eq [OF N, of "2 ^ 63 - 1"] by (simp_all add: ssize_def slice_index_def)
  ultimately show ?thesis by (simp add: sdsrange_def sdslen_rep [OF rep] range_len_def sadd_def)
qed

section \<open>Characters\<close>

lemma each_char_img:
  assumes "\<forall>c \<in> set vs. f c = Some (g c)"
  shows "each_char f (length vs) (length us) (sds_img t n a (map Some (us @ vs) @ E)) = Some (sds_img t n a (map Some (us @ map g vs) @ E))"
  using assms
proof (induction vs arbitrary: us)
  case (Cons v vs)
  have "byte_at (sds_img t n a (map Some (us @ v # vs) @ E)) (int (length us)) = Some v"
    using byte_at_img [of "length us" "us @ v # vs" t n a E] by simp
  moreover have "st (hdr_size t + length us) [g v] (sds_img t n a (map Some (us @ v # vs) @ E)) = Some (sds_img t n a (map Some ((us @ [g v]) @ vs) @ E))"
    using mem_write_mid [of "length us" "map Some us" "[Some v]" "[g v]" "map Some vs @ E"] by (simp add: st_img)
  ultimately show ?case using Cons.IH [of "us @ [g v]"] Cons.prems by simp
qed simp

lemma each_char_rep:
  assumes rep: "sds_rep xs s" and f: "\<forall>c \<in> set xs. f c = Some (g c)"
  shows "\<exists>s'. do { l \<leftarrow> sdslen_m s; each_char f (unat l) 0 s } = Some s' \<and> sds_rep (map g xs) s'"
proof -
  from rep obtain t a C where s: "s = sds_img t (length xs) a (map Some xs @ Some 0 # C)" "hdr_ok t (length xs) a" "a \<le> length xs + length C"
    by (rule sds_repE)
  have "unat (of_nat (length xs) :: u64) = length xs" using sds_rep_length [OF rep] by (simp add: unat_of_nat64)
  moreover have "sds_rep (map g xs) (sds_img t (length xs) a (map Some (map g xs) @ Some 0 # C))"
    using sds_repI [of t "map g xs" a C] s(2,3) by simp
  ultimately show ?thesis using each_char_img [OF f, of "[]" t "length xs" a "Some 0 # C"] by (simp add: sdslen_rep [OF rep]) (simp add: s(1))
qed

text \<open>The substitution table: the first occurrence of the character counts.\<close>

definition subst_char :: "byte list \<Rightarrow> byte list \<Rightarrow> byte \<Rightarrow> byte" where
  "subst_char fs ts c = (case map_of (zip fs ts) c of None \<Rightarrow> c | Some t \<Rightarrow> t)"

lemma map_char_eq:
  "length fs = n \<Longrightarrow> length ts = n \<Longrightarrow> map_char n (fs @ r) (ts @ r') c = Some (subst_char fs ts c)"
proof (induction n arbitrary: fs ts)
  case (Suc n)
  then obtain f fs' t ts' where "fs = f # fs'" "ts = t # ts'" by (metis length_Suc_conv)
  then show ?case using Suc by (simp add: subst_char_def)
qed (simp add: subst_char_def)

section \<open>Comparison\<close>

text \<open>\<^verbatim>\<open>memcmp\<close> on the common prefix and the lengths after it decide the lexicographic order.\<close>

definition cmp_bytes :: "byte list \<Rightarrow> byte list \<Rightarrow> int" where
  "cmp_bytes xs ys =
     (let m = min (length xs) (length ys); c = bytes_cmp (take m xs) (take m ys) in
      if c = 0 then if length xs > length ys then 1 else if length xs < length ys then - 1 else 0 else c)"

lemma cmp_bytes_simps [simp]:
  "cmp_bytes [] [] = 0" "cmp_bytes [] (y # ys) = - 1" "cmp_bytes (x # xs) [] = 1"
  "cmp_bytes (x # xs) (y # ys) = (if x \<noteq> y then uint x - uint y else cmp_bytes xs ys)"
  by (auto simp: cmp_bytes_def Let_def word_uint_eq_iff)

lemma cmp_bytes_order: "(cmp_bytes xs ys = 0 \<longleftrightarrow> xs = ys) \<and> (cmp_bytes xs ys < 0 \<longleftrightarrow> ord_class.lexordp xs ys)"
proof (induction xs arbitrary: ys)
  case Nil
  then show ?case by (cases ys) simp_all
next
  case (Cons x xs)
  show ?case
  proof (cases ys)
    case (Cons y ys')
    have "uint x \<noteq> uint y" if "x \<noteq> y" using that by (simp add: word_uint_eq_iff)
    then show ?thesis using Cons.IH [of ys'] Cons by (auto simp: word_less_def)
  qed simp
qed

lemma cmp_bytes_swap: "0 < cmp_bytes xs ys \<longleftrightarrow> cmp_bytes ys xs < 0"
proof (induction xs arbitrary: ys)
  case Nil
  then show ?case by (cases ys) simp_all
next
  case (Cons x xs)
  then show ?case by (cases ys) auto
qed

lemma sds_prefix:
  assumes "sds_rep xs s" and "n \<le> length xs"
  shows "sds_bytes (of_nat n) s = Some (take n xs)"
proof -
  from assms(1) obtain t a C where s: "s = sds_img t (length xs) a (map Some xs @ Some 0 # C)" by (rule sds_repE)
  have "unat (of_nat n :: u64) = n" using assms(2) sds_rep_length [OF assms(1)] by (simp add: unat_of_nat64)
  then show ?thesis using ld_img [of t 0 n "length xs" a "map Some xs @ Some 0 # C"] assms(2)
    by (auto simp: sds_bytes_def s take_map comp_def)
qed

lemma sdscmp_eq:
  assumes "sds_rep xs s1" and "sds_rep ys s2"
  shows "sdscmp s1 s2 = Some (cmp_bytes xs ys)"
proof -
  note l = sds_rep_length [OF assms(1)] sds_rep_length [OF assms(2)]
  let ?m = "min (length xs) (length ys)"
  have lt: "(of_nat (length xs) :: u64) < of_nat (length ys) \<longleftrightarrow> length xs < length ys"
    "(of_nat (length ys) :: u64) < of_nat (length xs) \<longleftrightarrow> length ys < length xs"
    using of_nat_less64 l by blast+
  have m: "(if (of_nat (length xs) :: u64) < of_nat (length ys) then of_nat (length xs) else of_nat (length ys)) = (of_nat ?m :: u64)"
    by (simp add: lt)
  have u: "unat (of_nat ?m :: u64) = ?m" using l by (intro unat_of_nat64) simp
  have "sds_bytes (of_nat ?m) s1 = Some (take ?m xs)" "sds_bytes (of_nat ?m) s2 = Some (take ?m ys)"
    using sds_prefix [OF assms(1)] sds_prefix [OF assms(2)] by simp_all
  then show ?thesis unfolding sdscmp_def Let_def sdslen_rep [OF assms(1)] sdslen_rep [OF assms(2)] bind.bind_lunit m u
    by (simp add: lt memcmp_def cmp_bytes_def Let_def)
qed

section \<open>Building a string from pieces\<close>

text \<open>\<open>f\<close> appends \<open>ts\<close> to any string it is given (of a size that leaves room in the address space).\<close>

definition appends :: "(byte list \<Rightarrow> 's \<Rightarrow> bool) \<Rightarrow> ('s \<Rightarrow> 's option option) \<Rightarrow> byte list \<Rightarrow> bool" where
  "appends rep f ts \<longleftrightarrow>
     (\<forall>xs s. rep xs s \<longrightarrow> length xs + length ts < 2 ^ 62 \<longrightarrow> (\<exists>s'. f s = Some (Some s') \<and> rep (xs @ ts) s'))"

lemma appendsD:
  "appends rep f ts \<Longrightarrow> rep xs s \<Longrightarrow> length xs + length ts < 2 ^ 62 \<Longrightarrow> \<exists>s'. f s = Some (Some s') \<and> rep (xs @ ts) s'"
  by (simp add: appends_def)

fun joined :: "'a list \<Rightarrow> 'a list list \<Rightarrow> 'a list" where
  "joined sep [] = []"
| "joined sep [ts] = ts"
| "joined sep (ts # tss) = ts @ sep @ joined sep tss"

text \<open>What the builders rely on: an empty string, and an append of bytes that an allocator which never refuses always grants.\<close>

locale text_buffer =
  fixes rep :: "byte list \<Rightarrow> 's \<Rightarrow> bool"
    and emp :: "'s option option"
    and cat :: "'s \<Rightarrow> ptr \<Rightarrow> u64 \<Rightarrow> 's option option"
  assumes emp_rep: "\<exists>s. emp = Some (Some s) \<and> rep [] s"
    and cat_appends: "appends rep (\<lambda>s. cat s (ts @ rest) (of_nat (length ts))) ts"
begin

lemma cat_exact: "appends rep (\<lambda>s. cat s ts (of_nat (length ts))) ts"
  using cat_appends [of ts "[]"] by simp

lemma seq_appends:
  assumes "appends rep f ts" and "appends rep g us"
  shows "appends rep (\<lambda>s. do { r \<leftarrow> f s; s \<leftarrow> r; g s }) (ts @ us)"
  unfolding appends_def
proof (intro allI impI)
  fix xs s
  assume s: "rep xs s" and n: "length xs + length (ts @ us) < 2 ^ 62"
  then obtain s1 where "f s = Some (Some s1)" "rep (xs @ ts) s1" using appendsD [OF assms(1)] by fastforce
  moreover from this obtain s2 where "g s1 = Some (Some s2)" "rep ((xs @ ts) @ us) s2" using appendsD [OF assms(2)] n by fastforce
  ultimately show "\<exists>s'. do { r \<leftarrow> f s; s \<leftarrow> r; g s } = Some (Some s') \<and> rep (xs @ ts @ us) s'" by simp
qed

lemma join_appends:
  assumes "list_all2 (\<lambda>a ts. appends rep (\<lambda>s. app s a) ts) as tss" and sep: "appends rep sepf sep"
  shows "appends rep (\<lambda>s. join_loop app sepf as (Some s)) (joined sep tss)"
  using assms(1)
proof (induction as tss rule: list_all2_induct)
  case Nil
  then show ?case by (simp add: appends_def)
next
  case (Cons a as ts tss)
  show ?case unfolding appends_def
  proof (intro allI impI)
    fix xs s
    assume s: "rep xs s" and n: "length xs + length (joined sep (ts # tss)) < 2 ^ 62"
    show "\<exists>s'. join_loop app sepf (a # as) (Some s) = Some (Some s') \<and> rep (xs @ joined sep (ts # tss)) s'"
    proof (cases tss)
      case Nil
      with Cons(2) have "as = []" by simp
      then show ?thesis using appendsD [OF Cons(1) s] n Nil by auto
    next
      case tss: (Cons u us)
      then have j: "joined sep (ts # tss) = ts @ sep @ joined sep tss" and as: "as \<noteq> []" using Cons(2) by auto
      have "length xs + length ts < 2 ^ 62" using n by (simp add: j)
      from appendsD [OF Cons(1) s this] obtain s1 where s1: "app s a = Some (Some s1)" "rep (xs @ ts) s1" by blast
      moreover have "length (xs @ ts) + length sep < 2 ^ 62" using n by (simp add: j)
      from appendsD [OF sep s1(2) this] obtain s2 where s2: "sepf s1 = Some (Some s2)" "rep ((xs @ ts) @ sep) s2" by blast
      moreover have "length ((xs @ ts) @ sep) + length (joined sep tss) < 2 ^ 62" using n by (simp add: j)
      from appendsD [OF Cons(3) s2(2) this] obtain s3 where "join_loop app sepf as (Some s2) = Some (Some s3)" "rep (((xs @ ts) @ sep) @ joined sep tss) s3"
        by blast
      ultimately show ?thesis using as by (simp add: j)
    qed
  qed
qed

lemma built:
  assumes "appends rep f ts" and "length ts < 2 ^ 62"
  shows "\<exists>s'. do { r \<leftarrow> emp; s \<leftarrow> r; f s } = Some (Some s') \<and> rep ts s'"
proof -
  obtain s where "emp = Some (Some s)" "rep [] s" using emp_rep by blast
  then show ?thesis using appendsD [OF assms(1), of "[]" s] assms(2) by simp
qed

end

interpretation sds_text: text_buffer sds_rep "sdsempty (\<lambda>_. True)" "sdscatlen (\<lambda>_. True)"
proof
  show "\<exists>s. sdsempty (\<lambda>_. True) = Some (Some s) \<and> sds_rep [] s"
    using sdsnewlen_rep [of "[]" "\<lambda>_. True" "[0]"] by (simp add: sdsempty_def)
  show "appends sds_rep (\<lambda>s. sdscatlen (\<lambda>_. True) s (ts @ rest) (of_nat (length ts))) ts" for ts rest
    unfolding appends_def using sdscatlen_rep [of _ _ ts "\<lambda>_. True" rest] by simp
qed

lemma cstr_appends: "0 \<notin> set ts \<Longrightarrow> appends sds_rep (\<lambda>s. sdscat (\<lambda>_. True) s (ts @ 0 # rest)) ts"
  unfolding appends_def using sdscat_rep [of _ _ ts "\<lambda>_. True" rest] by simp

lemma sds_appends: "sds_rep ts t \<Longrightarrow> appends sds_rep (\<lambda>s. sdscatsds (\<lambda>_. True) s t) ts"
  unfolding appends_def using sdscatsds_rep [of _ _ ts t "\<lambda>_. True"] by simp

lemma sdsjoinsds_rep:
  assumes "list_all2 (\<lambda>s ts. sds_rep ts s) argv tss" and "length (joined sep tss) < 2 ^ 62"
  shows "\<exists>s. sdsjoinsds (\<lambda>_. True) argv (sep @ rest) (of_nat (length sep)) = Some (Some s) \<and> sds_rep (joined sep tss) s"
proof -
  have "list_all2 (\<lambda>a ts. appends sds_rep (\<lambda>s. sdscatsds (\<lambda>_. True) s a) ts) argv tss"
    using assms(1) by (rule list_all2_mono) (rule sds_appends)
  from sds_text.built [OF sds_text.join_appends [OF this sds_text.cat_appends [of sep rest]] assms(2)] obtain s where
    s: "do { r \<leftarrow> sdsempty (\<lambda>_. True); s \<leftarrow> r; join_loop (sdscatsds (\<lambda>_. True)) (\<lambda>s. sdscatlen (\<lambda>_. True) s (sep @ rest) (of_nat (length sep))) argv (Some s) } = Some (Some s)"
    "sds_rep (joined sep tss) s" by blast
  obtain e where "sdsempty (\<lambda>_. True) = Some (Some e)" using sds_text.emp_rep by blast
  with s show ?thesis by (simp add: sdsjoinsds_def)
qed

lemma sdsjoin_rep:
  assumes "\<forall>ts \<in> set tss. 0 \<notin> set ts" and "0 \<notin> set sep" and "length (joined sep tss) < 2 ^ 62"
  shows "\<exists>s. sdsjoin (\<lambda>_. True) (map (\<lambda>ts. ts @ [0]) tss) (sep @ [0]) = Some (Some s) \<and> sds_rep (joined sep tss) s"
proof -
  have "list_all2 (\<lambda>a ts. appends sds_rep (\<lambda>s. sdscat (\<lambda>_. True) s a) ts) (map (\<lambda>ts. ts @ [0]) tss) tss"
    using assms(1) cstr_appends [of _ "[]"] by (auto simp: list_all2_conv_all_nth)
  from sds_text.built [OF sds_text.join_appends [OF this cstr_appends [OF assms(2), of "[]"]] assms(3)] obtain s where
    s: "do { r \<leftarrow> sdsempty (\<lambda>_. True); s \<leftarrow> r; join_loop (sdscat (\<lambda>_. True)) (\<lambda>s. sdscat (\<lambda>_. True) s (sep @ [0]))
          (map (\<lambda>ts. ts @ [0]) tss) (Some s) } = Some (Some s)"
    "sds_rep (joined sep tss) s" by blast
  obtain e where "sdsempty (\<lambda>_. True) = Some (Some e)" using sds_text.emp_rep by blast
  with s show ?thesis by (simp add: sdsjoin_def)
qed

section \<open>Properties\<close>

text \<open>A string to apply the properties to.\<close>

lemma some_sds: "\<exists>s. sds_rep [32, 104, 105, 0] s"
  using sdsnewlen_rep [of "[32, 104, 105, 0]" "\<lambda>_. True" "[]"] by auto

text \<open>C31. Appending bytes: if the allocator refuses, \<^verbatim>\<open>sdscatlen\<close> returns \<open>NULL\<close>; in every other case it returns a string whose text is the old
  one followed by the bytes, terminated, with a header wide enough for it. This covers the move to a wider header and the doubling of
  the allocation.\<close>

theorem sdscatlen_correct:
  assumes "sds_rep xs s" and "length xs + length ts < 2 ^ 62"
  shows "case sdscatlen mal s (ts @ rest) (of_nat (length ts)) of
      None \<Rightarrow> False
    | Some None \<Rightarrow> \<exists>z. \<not> mal z
    | Some (Some s') \<Rightarrow> sds_rep (xs @ ts) s'"
  using sdscatlen_rep [OF assms, of mal rest] by auto

theorem sdscatlen_correct_witness:
  "\<exists>s s'. sds_rep [32, 104, 105, 0] s \<and> sdscatlen (\<lambda>_. True) s [33, 34] 1 = Some (Some s') \<and> sds_rep [32, 104, 105, 0, 33] s'"
proof -
  obtain s where s: "sds_rep [32, 104, 105, 0] s" using some_sds by blast
  from sdscatlen_correct [OF s, of "[33]" "\<lambda>_. True" "[34]"] show ?thesis using s by (auto split: option.splits)
qed

text \<open>\<^verbatim>\<open>sdstrim\<close> removes from both ends the characters of the set, and zero bytes too: \<^verbatim>\<open>strchr\<close> finds the terminator of the set. It is
  defined for every string, the empty one included, and nothing else of the text changes.\<close>

theorem sdstrim_correct:
  assumes "sds_rep xs s"
  shows "\<exists>s'. sdstrim cset s = Some s' \<and> sds_rep (trimmed (\<lambda>c. c = 0 \<or> c \<in> set cset) xs) s'"
proof -
  have "strchr cset = (\<lambda>c. c = 0 \<or> c \<in> set cset)" by (simp add: fun_eq_iff strchr_def)
  with sdstrim_rep [OF assms, of cset] show ?thesis by simp
qed

theorem sdstrim_correct_witness:
  "\<exists>s s'. sds_rep [32, 104, 105, 0] s \<and> sdstrim [32] s = Some s' \<and> sds_rep [104, 105] s'"
proof -
  obtain s where s: "sds_rep [32, 104, 105, 0] s" using some_sds by blast
  have "trimmed (\<lambda>c. c = 0 \<or> c \<in> set [32]) [32, 104, 105, 0 :: byte] = [104, 105]" by (simp add: trimmed_def)
  with sdstrim_correct [OF s, of "[32]"] s show ?thesis by auto
qed

text \<open>\<^verbatim>\<open>sdsrange\<close> keeps exactly the documented slice (inclusive ends, negative positions from the end, positions outside the text clipped),
  except for the one pair of arguments for which \<^verbatim>\<open>(end-start)+1\<close> overflows: the whole string asked for with the greatest \<^verbatim>\<open>ssize_t\<close> as its
  end.\<close>

theorem sdsrange_correct:
  assumes "sds_rep xs s" and "ssize i" and "ssize j"
  shows "if xs \<noteq> [] \<and> slice_index (length xs) i = 0 \<and> j = 2 ^ 63 - 1 then sdsrange s i j = None
    else \<exists>s'. sdsrange s i j = Some s' \<and> sds_rep (sds_slice xs i j) s'"
proof (cases "xs = []")
  case True
  then show ?thesis using assms(1) sdslen_rep [OF assms(1)] by (simp add: sdsrange_def sds_slice_def Let_def)
next
  case False
  then show ?thesis using sdsrange_overflow [OF assms(1) False assms(2)] sdsrange_rep [OF assms] by auto
qed

theorem sdsrange_correct_witness:
  "\<exists>s s'. sds_rep [32, 104, 105, 0] s \<and> sdsrange s 1 (- 2) = Some s' \<and> sds_rep [104, 105] s' \<and> sdsrange s 0 (2 ^ 63 - 1) = None"
proof -
  obtain s where s: "sds_rep [32, 104, 105, 0] s" using some_sds by blast
  have "sds_slice [32, 104, 105, 0] 1 (- 2) = [104, 105]" by (simp add: sds_slice_def slice_index_def)
  then show ?thesis using sdsrange_correct [OF s, of 1 "- 2"] sdsrange_correct [OF s, of 0 "2 ^ 63 - 1"] s
    by (auto simp: ssize_def slice_index_def)
qed

text \<open>\<^verbatim>\<open>sdscmp\<close> decides the lexicographic order of the texts, zero bytes included: negative for a smaller first string, zero exactly for equal
  texts, positive for a greater one.\<close>

theorem sdscmp_order:
  assumes "sds_rep xs s1" and "sds_rep ys s2"
  shows "\<exists>c. sdscmp s1 s2 = Some c \<and> (c = 0 \<longleftrightarrow> xs = ys) \<and> (c < 0 \<longleftrightarrow> ord_class.lexordp xs ys) \<and> (c > 0 \<longleftrightarrow> ord_class.lexordp ys xs)"
  using sdscmp_eq [OF assms] cmp_bytes_order [of xs ys] cmp_bytes_order [of ys xs] cmp_bytes_swap [of xs ys] by simp

theorem sdscmp_order_witness:
  "\<exists>s1 s2 c. sds_rep [32, 104, 105, 0] s1 \<and> sds_rep [32, 105] s2 \<and> sdscmp s1 s2 = Some c \<and> c < 0"
proof -
  obtain s1 where s1: "sds_rep [32, 104, 105, 0] s1" using some_sds by blast
  obtain s2 where s2: "sds_rep [32, 105] s2" using sdsnewlen_rep [of "[32, 105]" "\<lambda>_. True" "[]"] by auto
  from sdscmp_order [OF s1 s2] show ?thesis using s1 s2 by auto
qed

end
