(* ===== verification/SdsNum.thy ===== *)
theory SdsNum
  imports SdsOps
begin

text \<open>
  Numbers as text and the small formatter of \<^verbatim>\<open>src/sds.c\<close>: \<^verbatim>\<open>sdsll2str\<close> and \<^verbatim>\<open>sdsull2str\<close> write the digits backwards into the caller's
  buffer and reverse them in place; \<^verbatim>\<open>sdscatfmt\<close> appends to a string under a format, writing past the terminator as it goes and
  putting a new one at the end. The digit loops are shown to stay in a buffer of \<^verbatim>\<open>SDS_LLSTR_SIZE\<close> bytes and to print what reads back as
  the number; the formatter is shown to append the rendering of its format.
\<close>

section \<open>Digits\<close>

definition SDS_LLSTR_SIZE :: nat where "SDS_LLSTR_SIZE = 21"

text \<open>\<^verbatim>\<open>do { *p++ = '0'+(v%10); v /= 10; } while(v);\<close>\<close>

function put_digits :: "u64 \<Rightarrow> nat \<Rightarrow> block \<Rightarrow> (nat \<times> block) option" where
  "put_digits v p b = do {
     b \<leftarrow> mem_write p [48 + ucast (v mod 10)] b;
     if v div 10 \<noteq> 0 then put_digits (v div 10) (p + 1) b else Some (p + 1, b) }"
  by auto
termination
proof (relation "measure (\<lambda>(v, p, b). unat v)")
  fix v :: u64
  assume "v div 10 \<noteq> 0"
  then have "unat v div 10 \<noteq> 0" by (simp add: word_unat_eq_iff unat_div)
  then show "((v div 10, p + 1, b'), v, p, b) \<in> measure (\<lambda>(v, p, b). unat v)" for p b b'
    by (simp add: unat_div)
qed simp

text \<open>\<^verbatim>\<open>while(s < p) { aux = *s; *s = *p; *p = aux; s++; p--; }\<close>\<close>

definition cell :: "nat \<Rightarrow> block \<Rightarrow> byte option" where
  "cell i b = (if i < length b then b ! i else None)"

function reverse_buf :: "nat \<Rightarrow> nat \<Rightarrow> block \<Rightarrow> block option" where
  "reverse_buf i j b =
     (if i < j then do { aux \<leftarrow> cell i b; y \<leftarrow> cell j b; b \<leftarrow> mem_write i [y] b; b \<leftarrow> mem_write j [aux] b; reverse_buf (i + 1) (j - 1) b }
      else Some b)"
  by auto
termination by (relation "measure (\<lambda>(i, j, b). j - i)") auto

declare put_digits.simps [simp del] reverse_buf.simps [simp del]

text \<open>The common end of the two functions: the terminator, the reversal, and the length.\<close>

definition finish_digits :: "nat \<Rightarrow> block \<Rightarrow> (int \<times> block) option" where
  "finish_digits p b = do {
     b \<leftarrow> mem_write p [0] b;
     b \<leftarrow> reverse_buf 0 (p - 1) b;
     Some (int p, b) }"

text \<open>\<open>num\<close> is the two's complement word of the \<^verbatim>\<open>long long\<close>; negating the least one overflows.\<close>

definition sdsll2str :: "block \<Rightarrow> u64 \<Rightarrow> (int \<times> block) option" where
  "sdsll2str b num =
     (if sint num = - (2 ^ 63) then None
      else do {
        (p, b) \<leftarrow> put_digits (if sint num < 0 then - num else num) 0 b;
        (p, b) \<leftarrow> (if sint num < 0 then do { b \<leftarrow> mem_write p [45] b; Some (p + 1, b) } else Some (p, b));
        finish_digits p b })"

definition sdsull2str :: "block \<Rightarrow> u64 \<Rightarrow> (int \<times> block) option" where
  "sdsull2str b v = do { (p, b) \<leftarrow> put_digits v 0 b; finish_digits p b }"

text \<open>What can be read at a pointer to the block: its bytes up to the first one never written.\<close>

definition block_ptr :: "block \<Rightarrow> ptr" where
  "block_ptr b = map the (takeWhile (\<lambda>c. c \<noteq> None) b)"

definition sdsfromlonglong :: "(nat \<Rightarrow> bool) \<Rightarrow> u64 \<Rightarrow> sdsmem option option" where
  "sdsfromlonglong mal num = do {
     (n, buf) \<leftarrow> sdsll2str (replicate SDS_LLSTR_SIZE None) num;
     sdsnewlen_m mal (Init (block_ptr buf)) (size_of_int n) }"

section \<open>The formatter\<close>

text \<open>The variable arguments, by the type the caller passed.\<close>

datatype fmt_arg = Cstr ptr | Sds_arg sdsmem | Int_arg u32 | Long_arg u64 | Uint_arg u32 | Ulong_arg u64

text \<open>\<^verbatim>\<open>if (sdsavail(s) < l) s = sdsMakeRoomFor(s,l); memcpy(s+i,str,l); sdsinclen(s,l);\<close> A \<open>NULL\<close> from \<^verbatim>\<open>sdsMakeRoomFor\<close> is not checked, and the
  next access goes through it.\<close>

definition fmt_room :: "(nat \<Rightarrow> bool) \<Rightarrow> sdsmem \<Rightarrow> bool \<Rightarrow> u64 \<Rightarrow> sdsmem option" where
  "fmt_room mal s need l = (if need then do { r \<leftarrow> sdsMakeRoomFor mal s l; r } else Some s)"

definition fmt_put :: "(nat \<Rightarrow> bool) \<Rightarrow> sdsmem \<Rightarrow> nat \<Rightarrow> ptr \<Rightarrow> u64 \<Rightarrow> (sdsmem \<times> nat) option" where
  "fmt_put mal s i str l = do {
     av \<leftarrow> sdsavail s;
     s \<leftarrow> fmt_room mal s (av < l) l;
     (bs, _) \<leftarrow> memrd (unat l) str;
     s \<leftarrow> st (off s + i) bs s;
     s \<leftarrow> sdsinclen l s;
     Some (s, i + unat l) }"

definition fmt_char :: "sdsmem \<Rightarrow> nat \<Rightarrow> byte \<Rightarrow> (sdsmem \<times> nat) option" where
  "fmt_char s i c = do { s \<leftarrow> st (off s + i) [c] s; s \<leftarrow> sdsinclen 1 s; Some (s, i + 1) }"

definition fmt_number :: "(nat \<Rightarrow> bool) \<Rightarrow> sdsmem \<Rightarrow> nat \<Rightarrow> (int \<times> block) option \<Rightarrow> (sdsmem \<times> nat) option" where
  "fmt_number mal s i digits = do { (l, buf) \<leftarrow> digits; fmt_put mal s i (block_ptr buf) (size_of_int l) }"

text \<open>One directive \<^verbatim>\<open>%next\<close>; \<^verbatim>\<open>va_arg\<close> with a type the caller did not pass, or with no argument left, is undefined.\<close>

definition fmt_directive ::
  "(nat \<Rightarrow> bool) \<Rightarrow> sdsmem \<Rightarrow> nat \<Rightarrow> byte \<Rightarrow> fmt_arg list \<Rightarrow> (sdsmem \<times> nat \<times> fmt_arg list) option" where
  "fmt_directive mal s i nxt ap =
     (let buf = replicate SDS_LLSTR_SIZE None;
          done = (\<lambda>ap r. do { (s, i) \<leftarrow> r; Some (s, i, ap) })
      in if nxt = 115 then (case ap of Cstr str # ap \<Rightarrow>
           done ap (do { l \<leftarrow> strlen_at (map Some str); fmt_put mal s i str l }) | _ \<Rightarrow> None)
         else if nxt = 83 then (case ap of Sds_arg str # ap \<Rightarrow>
           done ap (do { l \<leftarrow> sdslen_m str; bs \<leftarrow> sds_bytes l str; fmt_put mal s i bs l }) | _ \<Rightarrow> None)
         else if nxt = 105 then (case ap of Int_arg n # ap \<Rightarrow> done ap (fmt_number mal s i (sdsll2str buf (scast n))) | _ \<Rightarrow> None)
         else if nxt = 73 then (case ap of Long_arg n # ap \<Rightarrow> done ap (fmt_number mal s i (sdsll2str buf n)) | _ \<Rightarrow> None)
         else if nxt = 117 then (case ap of Uint_arg n # ap \<Rightarrow> done ap (fmt_number mal s i (sdsull2str buf (ucast n))) | _ \<Rightarrow> None)
         else if nxt = 85 then (case ap of Ulong_arg n # ap \<Rightarrow> done ap (fmt_number mal s i (sdsull2str buf n)) | _ \<Rightarrow> None)
         else done ap (fmt_char s i nxt))"

text \<open>The loop over the format. After a directive the pointer moves past \<open>next\<close> without looking at it: a format that ends in a
  percent sign is read beyond its terminator.\<close>

fun fmt_loop :: "(nat \<Rightarrow> bool) \<Rightarrow> sdsmem \<Rightarrow> ptr \<Rightarrow> nat \<Rightarrow> fmt_arg list \<Rightarrow> (sdsmem \<times> nat) option" where
  "fmt_loop mal s [] i ap = None"
| "fmt_loop mal s (c # f) i ap =
     (if c = 0 then Some (s, i)
      else do {
        av \<leftarrow> sdsavail s;
        s \<leftarrow> fmt_room mal s (av = 0) 1;
        if c = 37
        then (case f of
                [] \<Rightarrow> None
              | nxt # f \<Rightarrow> do { (s, i, ap) \<leftarrow> fmt_directive mal s i nxt ap; fmt_loop mal s f i ap })
        else do { (s, i) \<leftarrow> fmt_char s i c; fmt_loop mal s f i ap } })"

definition sdscatfmt :: "(nat \<Rightarrow> bool) \<Rightarrow> sdsmem \<Rightarrow> ptr \<Rightarrow> fmt_arg list \<Rightarrow> sdsmem option" where
  "sdscatfmt mal s fmt ap = do {
     initlen \<leftarrow> sdslen_m s;
     (s, i) \<leftarrow> fmt_loop mal s fmt (unat initlen) ap;
     st (off s + i) [0] s }"

section \<open>Correctness of the digits\<close>

text \<open>Decimal notation, and reading it back.\<close>

fun decimal :: "nat \<Rightarrow> byte list" where
  "decimal n = (if n < 10 then [of_nat (48 + n)] else decimal (n div 10) @ [of_nat (48 + n mod 10)])"

declare decimal.simps [simp del]

definition digit_val :: "byte \<Rightarrow> nat" where
  "digit_val c = unat c - 48"

definition read_nat :: "byte list \<Rightarrow> nat" where
  "read_nat cs = foldl (\<lambda>n c. 10 * n + digit_val c) 0 cs"

definition number_text :: "int \<Rightarrow> byte list" where
  "number_text i = (if i < 0 then 45 # decimal (nat (- i)) else decimal (nat i))"

definition read_int :: "byte list \<Rightarrow> int" where
  "read_int cs = (case cs of [] \<Rightarrow> 0 | c # ds \<Rightarrow> if c = 45 then - int (read_nat ds) else int (read_nat cs))"

lemma digit_val_of_nat: "d < 10 \<Longrightarrow> digit_val (of_nat (48 + d)) = d"
  by (simp add: digit_val_def unsigned_of_nat take_bit_nat_eq_self del: of_nat_add)

lemma read_nat_decimal: "read_nat (decimal n) = n"
proof (induction n rule: decimal.induct)
  case (1 n)
  have "read_nat (cs @ [c]) = 10 * read_nat cs + digit_val c" for cs c by (simp add: read_nat_def)
  moreover have "read_nat [c] = digit_val c" for c by (simp add: read_nat_def)
  ultimately show ?case using 1 by (subst decimal.simps) (simp add: digit_val_of_nat del: of_nat_add)
qed

lemma decimal_digits: "c \<in> set (decimal n) \<Longrightarrow> 48 \<le> unat c \<and> unat c \<le> 57"
proof (induction n rule: decimal.induct)
  case (1 n)
  have "48 \<le> unat (of_nat (48 + d) :: byte) \<and> unat (of_nat (48 + d) :: byte) \<le> 57" if "d < 10" for d
    using that by (simp add: unsigned_of_nat take_bit_nat_eq_self del: of_nat_add)
  then show ?case using 1 by (subst (asm) (2) decimal.simps) (auto split: if_splits simp del: of_nat_add)
qed

lemma decimal_nonempty [simp]: "decimal n \<noteq> []"
  by (subst decimal.simps) simp

lemma read_int_number: "read_int (number_text i) = i"
proof -
  have "hd (decimal n) \<noteq> 45" for n using decimal_digits [of "hd (decimal n)" n] by (auto simp: word_unat_eq_iff)
  then have "read_int (decimal n) = int n" for n
  proof (cases "decimal n")
    case (Cons c ds)
    with \<open>\<And>n. hd (decimal n) \<noteq> 45\<close> [of n] have "c \<noteq> 45" by simp
    then show ?thesis using read_nat_decimal [of n] Cons by (simp add: read_int_def)
  qed simp
  then show ?thesis by (simp add: number_text_def read_int_def read_nat_decimal)
qed

lemma length_decimal: "n < 10 ^ Suc k \<Longrightarrow> length (decimal n) \<le> Suc k"
proof (induction k arbitrary: n)
  case 0
  then show ?case by (simp add: decimal.simps [of n])
next
  case (Suc k)
  then have "n div 10 < 10 ^ Suc k" by (simp add: div_less_iff_less_mult)
  with Suc.IH [of "n div 10"] show ?case by (subst decimal.simps) simp
qed

text \<open>The loops against the notation.\<close>

lemma mem_write_Cons:
  "mem_write p [c] b = Some b1 \<Longrightarrow> mem_write (Suc p) cs b1 = mem_write p (c # cs) b"
  by (auto simp: mem_write_def Let_def min_def add.commute split: if_splits)

lemma put_digits_eq:
  "p + length (decimal (unat v)) \<le> length b \<Longrightarrow>
     put_digits v p b = map_option (Pair (p + length (decimal (unat v)))) (mem_write p (rev (decimal (unat v))) b)"
proof (induction v p b rule: put_digits.induct)
  case (1 v p b)
  have d: "48 + ucast (v mod 10) = (of_nat (48 + unat v mod 10) :: byte)"
    by (simp add: word_unat_eq_iff unat_mod unsigned_ucast_eq unat_word_ariths) (simp add: unsigned_of_nat)
  have z: "(v div 10 = 0) = (unat v < 10)" by (simp add: word_unat_eq_iff unat_div div_eq_0_iff)
  have p: "p < length b" using 1(2) by (cases "decimal (unat v)") auto
  then obtain b1 where b1: "mem_write p [of_nat (48 + unat v mod 10)] b = Some b1" by (simp add: mem_write_def)
  then have l: "length b1 = length b" by (auto simp: mem_write_def split: if_splits)
  show ?case
  proof (cases "unat v < 10")
    case True
    then show ?thesis using b1 z d by (subst put_digits.simps) (simp add: decimal.simps del: of_nat_add)
  next
    case False
    have dec: "decimal (unat v) = decimal (unat (v div 10)) @ [of_nat (48 + unat v mod 10)]"
      using False by (subst decimal.simps) (simp add: unat_div)
    have "put_digits (v div 10) (Suc p) b1 = map_option (Pair (Suc p + length (decimal (unat (v div 10))))) (mem_write (Suc p) (rev (decimal (unat (v div 10)))) b1)"
      using 1(1) [of b1] 1(2) False b1 z d l unfolding dec by (simp del: of_nat_add)
    then show ?thesis using False b1 z d mem_write_Cons [OF b1] unfolding dec
      by (subst put_digits.simps) (simp del: of_nat_add)
  qed
qed

lemma reverse_buf_eq:
  "reverse_buf (length A) (length A + length xs - 1) (A @ map Some xs @ C) = Some (A @ map Some (rev xs) @ C)"
proof (induction "length xs" arbitrary: A xs C rule: less_induct)
  case less
  show ?case
  proof (cases "length xs \<le> 1")
    case True
    then have "xs = [] \<or> (\<exists>x. xs = [x])" by (cases xs) auto
    then show ?thesis by (auto simp: reverse_buf.simps)
  next
    case False
    then obtain x ys z where xs: "xs = x # ys @ [z]" by (cases xs; cases "tl xs" rule: rev_cases) auto
    let ?i = "length A" and ?j = "length A + length ys + 1"
    have "mem_write ?i [z] (A @ map Some xs @ C) = Some (A @ Some z # map Some ys @ Some z # C)"
      using mem_write_mid [of ?i A "[Some x]" "[z]" "map Some ys @ Some z # C"] by (simp add: xs)
    moreover have "mem_write ?j [x] (A @ Some z # map Some ys @ Some z # C) = Some (A @ Some z # map Some ys @ Some x # C)"
      using mem_write_mid [of ?j "A @ Some z # map Some ys" "[Some z]" "[x]" C] by simp
    moreover have "cell ?i (A @ map Some xs @ C) = Some x" "cell ?j (A @ map Some xs @ C) = Some z"
      by (simp_all add: cell_def xs nth_append)
    moreover have "reverse_buf (Suc ?i) (?j - 1) (A @ Some z # map Some ys @ Some x # C) = Some (A @ Some z # map Some (rev ys) @ Some x # C)"
      using less [of ys "A @ [Some z]" "Some x # C"] by (simp add: xs)
    ultimately show ?thesis by (subst reverse_buf.simps) (simp add: xs)
  qed
qed

lemma finish_digits_eq:
  assumes "length xs + 1 \<le> length b" and "take (length xs) b = map Some xs"
  shows "\<exists>b'. finish_digits (length xs) b = Some (int (length xs), b') \<and> take (length xs + 1) b' = map Some (rev xs @ [0]) \<and> length b' = length b"
proof -
  have "length xs + length [0 :: byte] \<le> length b" using assms(1) by simp
  from take_mem_write [OF this assms(2)] obtain D where D: "mem_write (length xs) [0] b = Some D" "length D = length b"
    "take (length xs + 1) D = map Some xs @ [Some 0]" by auto
  have "D = map Some xs @ Some 0 # drop (length xs + 1) D"
    using append_take_drop_id [of "length xs + 1" D] unfolding D(3) by simp
  moreover have "reverse_buf 0 (length xs - 1) (map Some xs @ C) = Some (map Some (rev xs) @ C)" for C
    using reverse_buf_eq [of "[]" xs C] by simp
  ultimately have "reverse_buf 0 (length xs - 1) D = Some (map Some (rev xs) @ Some 0 # drop (length xs + 1) D)" by metis
  then show ?thesis using D(1,2) assms(1) by (simp add: finish_digits_def)
qed

lemma sdsull2str_eq:
  assumes "SDS_LLSTR_SIZE \<le> length b"
  shows "\<exists>b'. sdsull2str b v = Some (int (length (decimal (unat v))), b') \<and>
    take (length (decimal (unat v)) + 1) b' = map Some (decimal (unat v) @ [0])"
proof -
  let ?d = "decimal (unat v)"
  have "unat v < 2 ^ LENGTH(64)" by (rule unsigned_less)
  then have "length ?d \<le> Suc 19" by (intro length_decimal) simp
  then have len: "length (rev ?d) + 1 \<le> length b" using assms by (simp add: SDS_LLSTR_SIZE_def)
  from take_mem_write [of 0 "rev ?d" b "[]"] len obtain D where D: "mem_write 0 (rev ?d) b = Some D" "length D = length b"
    "take (length (rev ?d)) D = map Some (rev ?d)" by auto
  from finish_digits_eq [OF _ D(3)] len D(2) show ?thesis
    using put_digits_eq [of 0 v b] D(1) len by (auto simp: sdsull2str_def)
qed

lemma sdsll2str_eq:
  assumes "SDS_LLSTR_SIZE \<le> length b" and v: "sint num \<noteq> - (2 ^ 63)"
  shows "\<exists>b'. sdsll2str b num = Some (int (length (number_text (sint num))), b') \<and>
    take (length (number_text (sint num)) + 1) b' = map Some (number_text (sint num) @ [0])"
proof -
  define m where "m = (if sint num < 0 then - num else num)"
  define d where "d = decimal (unat m)"
  have s: "- (2 ^ 63) \<le> sint num" "sint num < 2 ^ 63"
    using sint_greater_eq [of num] sint_less [of num] by simp_all
  have "sint (- num) = - sint num" using s v by (simp add: sint_word_ariths signed_take_bit_int_eq_self)
  then have "sint m = \<bar>sint num\<bar>" by (simp add: m_def)
  moreover have "uint m = take_bit LENGTH(64) (sint m)" by (rule uint_sint)
  ultimately have "uint m = \<bar>sint num\<bar>" using s by (simp add: take_bit_int_eq_self)
  then have n: "unat m = nat \<bar>sint num\<bar>" unfolding unat_eq_nat_uint by (rule arg_cong)
  define r where "r = rev d @ (if sint num < 0 then [45] else [])"
  have tx: "rev r = number_text (sint num)" by (simp add: number_text_def n r_def d_def)
  have "unat m < 2 ^ 63 + 1" using s by (auto simp: n)
  then have "length d \<le> Suc 18" unfolding d_def by (intro length_decimal) simp
  then have len: "length r + 1 \<le> length b" using assms(1) by (simp add: SDS_LLSTR_SIZE_def r_def)
  from take_mem_write [of 0 "rev d" b "[]"] len r_def obtain D where D: "mem_write 0 (rev d) b = Some D" "length D = length b"
    "take (length (rev d)) D = map Some (rev d)" by auto
  obtain E where E: "(if sint num < 0 then do { b \<leftarrow> mem_write (length d) [45] D; Some (length d + 1, b) } else Some (length d, D)) = Some (length r, E)"
    "length E = length b" "take (length r) E = map Some r"
  proof (cases "sint num < 0")
    case True
    have "length (rev d) + length [45 :: byte] \<le> length D" using len D(2) True by (simp add: r_def)
    from take_mem_write [OF this D(3)] show ?thesis using True D(2) by (auto simp: r_def intro: that)
  next
    case False
    then show ?thesis using D by (intro that [of D]) (simp_all add: r_def)
  qed
  from finish_digits_eq [OF _ E(3)] len E(2) obtain b' where
    b': "finish_digits (length r) E = Some (int (length r), b')" "take (length r + 1) b' = map Some (rev r @ [0])" by auto
  have l: "length r = length (number_text (sint num))" unfolding tx [symmetric] by simp
  have "put_digits m 0 b = Some (length d, D)" using put_digits_eq [of 0 m b] D(1) len by (simp add: d_def [symmetric] r_def)
  then show ?thesis using b' E(1) v unfolding sdsll2str_def m_def [symmetric] l tx by simp
qed

lemma block_ptr_prefix:
  assumes "take n b = map Some xs"
  shows "\<exists>rest. block_ptr b = xs @ rest"
proof -
  have "takeWhile (\<lambda>c. c \<noteq> None) (map Some xs @ C) = map Some xs @ takeWhile (\<lambda>c. c \<noteq> None) C" for C :: block
    by (rule takeWhile_append2) auto
  then have "block_ptr (map Some xs @ C) = xs @ block_ptr C" for C by (simp add: block_ptr_def comp_def)
  moreover have "map Some xs @ drop n b = b" using append_take_drop_id [of n b] unfolding assms .
  ultimately show ?thesis by metis
qed

section \<open>Correctness of the formatter\<close>

text \<open>A string under construction: the text is there, with room for \<open>k\<close> more bytes and the terminator, which need not be written.\<close>

definition fmt_has :: "nat \<Rightarrow> byte list \<Rightarrow> sdsmem \<Rightarrow> bool" where
  "fmt_has k xs s \<longleftrightarrow> (\<exists>t a C. s = sds_img t (length xs) a C \<and> hdr_ok t (length xs) a \<and> length xs + k \<le> a \<and> a + 1 \<le> length C \<and>
     take (length xs) C = map Some xs)"

lemma sds_rep_fmt: "sds_rep xs s \<Longrightarrow> fmt_has 0 xs s"
proof (erule sds_repE)
  fix t a C
  assume "s = sds_img t (length xs) a (map Some xs @ Some 0 # C)" "hdr_ok t (length xs) a" "a \<le> length xs + length C"
  then show ?thesis unfolding fmt_has_def using hdr_ok_bounds(2)
    by (intro exI [of _ t] exI [of _ a] exI [of _ "map Some xs @ Some 0 # C"]) simp
qed

lemma fmt_end: "fmt_has k xs s \<Longrightarrow> \<exists>s'. st (off s + length xs) [0] s = Some s' \<and> sds_rep xs s'"
  unfolding fmt_has_def using sds_fill [of _ xs] by fastforce

lemma take_take_eq: "take (n + 1) C' = take (n + 1) C \<Longrightarrow> take n C' = take n C"
  by (drule arg_cong [where f = "take n"]) (simp add: min_def)

lemma fmt_room_has:
  assumes s: "fmt_has 0 xs s" and n: "length xs + k < 2 ^ 62" and av: "sdsavail s = Some av" and need: "need \<longleftrightarrow> unat av < k"
  shows "\<exists>s'. fmt_room (\<lambda>_. True) s need (of_nat k) = Some s' \<and> fmt_has k xs s'"
proof -
  from s obtain t a C where i: "s = sds_img t (length xs) a C" "hdr_ok t (length xs) a" "a + 1 \<le> length C" "take (length xs) C = map Some xs"
    by (auto simp: fmt_has_def)
  have "unat av = a - length xs"
    using av i hdr_ok_bounds(3) [OF i(2)] by (auto simp: unat_of_nat64 simp del: of_nat_diff)
  show ?thesis
  proof (cases need)
    case False
    then have "length xs + k \<le> a" using need \<open>unat av = _\<close> hdr_ok_bounds(2) [OF i(2)] by simp
    then show ?thesis using False i by (auto simp: fmt_room_def fmt_has_def)
  next
    case True
    from sdsMakeRoomFor_img [OF i(2,3) n, of "\<lambda>_. True"] obtain s' where
      "sdsMakeRoomFor (\<lambda>_. True) s (of_nat k) = Some (Some s')" "room (length xs) k C s'" by (auto simp: i(1))
    moreover from this(2) obtain t' a' C' where "s' = sds_img t' (length xs) a' C'" "hdr_ok t' (length xs) a'" "length xs + k \<le> a'"
      "a' + 1 \<le> length C'" "take (length xs + 1) C' = take (length xs + 1) C" unfolding room_def by blast
    then have "fmt_has k xs s'" unfolding fmt_has_def using take_take_eq i(4) by metis
    ultimately show ?thesis using True by (simp add: fmt_room_def)
  qed
qed

lemma fmt_write:
  assumes "fmt_has (length bs) xs s"
  shows "\<exists>s'. do { s \<leftarrow> st (off s + length xs) bs s; sdsinclen (of_nat (length bs)) s } = Some s' \<and> fmt_has 0 (xs @ bs) s'"
proof -
  from assms obtain t a C where i: "s = sds_img t (length xs) a C" "hdr_ok t (length xs) a" "length xs + length bs \<le> a" "a + 1 \<le> length C"
    "take (length xs) C = map Some xs" by (auto simp: fmt_has_def)
  from take_mem_write [OF _ i(5), of bs] i(3,4) obtain D where D: "mem_write (length xs) bs C = Some D" "length D = length C"
    "take (length xs + length bs) D = map Some (xs @ bs)" by auto
  have "hdr_ok t (length (xs @ bs)) a" using i(2,3) by (auto simp: hdr_ok_def split: if_splits)
  then have "fmt_has 0 (xs @ bs) (sds_img t (length (xs @ bs)) a D)" using i(3,4) D unfolding fmt_has_def
    by (intro exI [of _ t] exI [of _ a] exI [of _ D]) simp
  then show ?thesis using D(1) sdsinclen_img [OF i(2,3), of D] by (simp add: i(1) st_img)
qed

lemma fmt_put_has:
  assumes "fmt_has 0 xs s" and n: "length xs + length bs < 2 ^ 62"
  shows "\<exists>s'. fmt_put (\<lambda>_. True) s (length xs) (bs @ rest) (of_nat (length bs)) = Some (s', length (xs @ bs)) \<and> fmt_has 0 (xs @ bs) s'"
proof -
  have u: "unat (of_nat (length bs) :: u64) = length bs" using n by (simp add: unat_of_nat64)
  obtain av where av: "sdsavail s = Some av" using assms(1) by (auto simp: fmt_has_def)
  have "(av < of_nat (length bs)) = (unat av < length bs)" by (simp add: word_less_nat_alt u)
  from fmt_room_has [OF assms(1) n av this] obtain s1 where
    s1: "fmt_room (\<lambda>_. True) s (av < of_nat (length bs)) (of_nat (length bs)) = Some s1" "fmt_has (length bs) xs s1" by blast
  from fmt_write [OF s1(2)] obtain s2 where "do { s \<leftarrow> st (off s1 + length xs) bs s1; sdsinclen (of_nat (length bs)) s } = Some s2" "fmt_has 0 (xs @ bs) s2"
    by blast
  then show ?thesis using s1(1) av u by (auto simp: fmt_put_def split: bind_splits)
qed

lemma fmt_char_has:
  assumes "fmt_has 1 xs s"
  shows "\<exists>s'. fmt_char s (length xs) c = Some (s', length (xs @ [c])) \<and> fmt_has 0 (xs @ [c]) s'"
  using fmt_write [of "[c]" xs s] assms by (auto simp: fmt_char_def split: bind_splits)

lemma fmt_has_mono: "fmt_has k xs s \<Longrightarrow> j \<le> k \<Longrightarrow> fmt_has j xs s"
  by (fastforce simp: fmt_has_def)

text \<open>What a format and its arguments stand for. A directive at the end of the format, or one without an argument of its type, stands for nothing.\<close>

definition arg_text :: "byte \<Rightarrow> fmt_arg list \<Rightarrow> (byte list \<times> fmt_arg list) option" where
  "arg_text nxt ap =
     (if nxt = 115 then (case ap of Cstr str # ap \<Rightarrow> if 0 \<in> set str then Some (takeWhile (\<lambda>c. c \<noteq> 0) str, ap) else None | _ \<Rightarrow> None)
      else if nxt = 83 then (case ap of Sds_arg str # ap \<Rightarrow> do { l \<leftarrow> sdslen_m str; bs \<leftarrow> sds_bytes l str; Some (bs, ap) } | _ \<Rightarrow> None)
      else if nxt = 105 then (case ap of Int_arg n # ap \<Rightarrow> Some (number_text (sint n), ap) | _ \<Rightarrow> None)
      else if nxt = 73 then (case ap of Long_arg n # ap \<Rightarrow> if sint n = - (2 ^ 63) then None else Some (number_text (sint n), ap) | _ \<Rightarrow> None)
      else if nxt = 117 then (case ap of Uint_arg n # ap \<Rightarrow> Some (decimal (unat n), ap) | _ \<Rightarrow> None)
      else if nxt = 85 then (case ap of Ulong_arg n # ap \<Rightarrow> Some (decimal (unat n), ap) | _ \<Rightarrow> None)
      else Some ([nxt], ap))"

fun render :: "byte list \<Rightarrow> fmt_arg list \<Rightarrow> byte list option" where
  "render [] ap = Some []"
| "render (c # f) ap =
     (if c = 37 then (case f of [] \<Rightarrow> None | nxt # f \<Rightarrow> do { (t, ap) \<leftarrow> arg_text nxt ap; r \<leftarrow> render f ap; Some (t @ r) })
      else do { r \<leftarrow> render f ap; Some (c # r) })"

lemma fmt_number_has:
  assumes d: "digits = Some (int (length ds), b)" "take (length ds + 1) b = map Some (ds @ [0])"
    and "fmt_has 0 xs s" and "length xs + length ds < 2 ^ 62"
  shows "\<exists>s'. fmt_number (\<lambda>_. True) s (length xs) digits = Some (s', length (xs @ ds)) \<and> fmt_has 0 (xs @ ds) s'"
proof -
  obtain rest where "block_ptr b = (ds @ [0]) @ rest" using block_ptr_prefix [OF d(2)] by blast
  then show ?thesis using fmt_put_has [OF assms(3,4), of "0 # rest"] by (simp add: fmt_number_def d(1))
qed

lemma strlen_at_takeWhile: "0 \<in> set str \<Longrightarrow> strlen_at (map Some str) = Some (of_nat (length (takeWhile (\<lambda>c. c \<noteq> 0) str)))"
  by (induction str) (auto simp: add.commute)

lemma fmt_directive_has:
  assumes a: "arg_text nxt ap = Some (t, ap')" and s: "fmt_has 1 xs s" and n: "length xs + length t < 2 ^ 62"
  shows "\<exists>s'. fmt_directive (\<lambda>_. True) s (length xs) nxt ap = Some (s', length (xs @ t), ap') \<and> fmt_has 0 (xs @ t) s'"
proof -
  have s0: "fmt_has 0 xs s" using s by (rule fmt_has_mono) simp
  let ?b = "replicate SDS_LLSTR_SIZE None :: block"
  have b: "SDS_LLSTR_SIZE \<le> length ?b" by simp
  have signed: "\<exists>s'. fmt_number (\<lambda>_. True) s (length xs) (sdsll2str ?b v) = Some (s', length (xs @ number_text (sint v))) \<and> fmt_has 0 (xs @ number_text (sint v)) s'"
    if "sint v \<noteq> - (2 ^ 63)" "length xs + length (number_text (sint v)) < 2 ^ 62" for v
    using sdsll2str_eq [OF b that(1)] fmt_number_has [OF _ _ s0 that(2)] by blast
  have unsigned: "\<exists>s'. fmt_number (\<lambda>_. True) s (length xs) (sdsull2str ?b v) = Some (s', length (xs @ decimal (unat v))) \<and> fmt_has 0 (xs @ decimal (unat v)) s'"
    if "length xs + length (decimal (unat v)) < 2 ^ 62" for v
    using sdsull2str_eq [OF b] fmt_number_has [OF _ _ s0 that] by blast
  consider (cstr) "nxt = 115" | (sds) "nxt = 83" | (int) "nxt = 105" | (long) "nxt = 73" | (uint) "nxt = 117" | (ulong) "nxt = 85"
    | (other) "nxt \<notin> {115, 83, 105, 73, 117, 85}" by blast
  then show ?thesis
  proof cases
    case cstr
    with a obtain str where c: "ap = Cstr str # ap'" "0 \<in> set str" "t = takeWhile (\<lambda>c. c \<noteq> 0) str"
      by (auto simp: arg_text_def split: list.splits fmt_arg.splits if_splits)
    then show ?thesis using fmt_put_has [OF s0 n, of "dropWhile (\<lambda>c. c \<noteq> 0) str"] cstr
      by (auto simp: fmt_directive_def strlen_at_takeWhile)
  next
    case sds
    with a obtain str l where c: "ap = Sds_arg str # ap'" "sdslen_m str = Some l" "sds_bytes l str = Some t"
      by (auto simp: arg_text_def split: list.splits fmt_arg.splits bind_splits)
    then have "length t = unat l" by (auto simp: sds_bytes_def ld_def Let_def split: if_splits)
    then have "l = of_nat (length t)" by simp
    then show ?thesis using fmt_put_has [OF s0 n, of "[]"] sds c by (auto simp: fmt_directive_def)
  next
    case int
    with a obtain v where c: "ap = Int_arg v # ap'" "t = number_text (sint v)"
      by (auto simp: arg_text_def split: list.splits fmt_arg.splits)
    have sc: "sint (scast v :: u64) = sint v" "sint v \<noteq> - (2 ^ 63)" using sint_greater_eq [of v] sint_less [of v]
      by (simp_all add: signed_scast_eq signed_take_bit_int_eq_self)
    then show ?thesis using signed [of "scast v"] n int c by (auto simp: fmt_directive_def)
  next
    case long
    with a obtain v where c: "ap = Long_arg v # ap'" "t = number_text (sint v)" "sint v \<noteq> - (2 ^ 63)"
      by (auto simp: arg_text_def split: list.splits fmt_arg.splits if_splits)
    then show ?thesis using signed [of v] n long by (auto simp: fmt_directive_def)
  next
    case uint
    with a obtain v where c: "ap = Uint_arg v # ap'" "t = decimal (unat v)"
      by (auto simp: arg_text_def split: list.splits fmt_arg.splits)
    have "unat v < 2 ^ LENGTH(32)" by (rule unsigned_less)
    then have "unat (ucast v :: u64) = unat v" by (simp add: unsigned_ucast_eq take_bit_nat_eq_self)
    then show ?thesis using unsigned [of "ucast v"] n uint c by (auto simp: fmt_directive_def)
  next
    case ulong
    with a obtain v where c: "ap = Ulong_arg v # ap'" "t = decimal (unat v)"
      by (auto simp: arg_text_def split: list.splits fmt_arg.splits)
    then show ?thesis using unsigned [of v] n ulong by (auto simp: fmt_directive_def)
  next
    case other
    then have "t = [nxt]" "ap' = ap" using a by (auto simp: arg_text_def)
    then show ?thesis using fmt_char_has [OF s, of nxt] other by (auto simp: fmt_directive_def)
  qed
qed

lemma fmt_loop_has:
  assumes "render f ap = Some out" and "0 \<notin> set f" and "fmt_has 0 xs s" and "length xs + length out + 1 < 2 ^ 62"
  shows "\<exists>s'. fmt_loop (\<lambda>_. True) s (f @ 0 # rest) (length xs) ap = Some (s', length (xs @ out)) \<and> fmt_has 0 (xs @ out) s'"
  using assms
proof (induction f ap arbitrary: out xs s rule: render.induct)
  case (1 ap)
  then show ?case by simp
next
  case (2 c f ap)
  obtain av where av: "sdsavail s = Some av" using 2(5) by (auto simp: fmt_has_def)
  have need: "(av = 0) = (unat av < 1)" by (simp add: word_unat_eq_iff)
  have "length xs + 1 < 2 ^ 62" using 2(6) by simp
  from fmt_room_has [OF 2(5) this av need] obtain s1 where s1: "fmt_room (\<lambda>_. True) s (av = 0) 1 = Some s1" "fmt_has 1 xs s1" by auto
  show ?case
  proof (cases "c = 37")
    case True
    with 2(3) obtain nxt f' t ap' r where d: "f = nxt # f'" "arg_text nxt ap = Some (t, ap')" "render f' ap' = Some r" "out = t @ r"
      by (auto split: list.splits bind_splits)
    have "length xs + length t < 2 ^ 62" using 2(6) d(4) by simp
    from fmt_directive_has [OF d(2) s1(2) this] obtain s2 where
      s2: "fmt_directive (\<lambda>_. True) s1 (length xs) nxt ap = Some (s2, length (xs @ t), ap')" "fmt_has 0 (xs @ t) s2" by blast
    have "\<exists>s'. fmt_loop (\<lambda>_. True) s2 (f' @ 0 # rest) (length (xs @ t)) ap' = Some (s', length ((xs @ t) @ r)) \<and> fmt_has 0 ((xs @ t) @ r) s'"
      using 2(1) [OF True d(1), of "(t, ap')" t ap' r "xs @ t" s2] d 2(4,6) s2(2) by simp
    then show ?thesis using True d s1(1) s2(1) av by simp
  next
    case False
    with 2(3) obtain r where r: "render f ap = Some r" "out = c # r" by (auto split: bind_splits)
    from fmt_char_has [OF s1(2), of c] obtain s2 where s2: "fmt_char s1 (length xs) c = Some (s2, length (xs @ [c]))" "fmt_has 0 (xs @ [c]) s2" by blast
    have "\<exists>s'. fmt_loop (\<lambda>_. True) s2 (f @ 0 # rest) (length (xs @ [c])) ap = Some (s', length ((xs @ [c]) @ r)) \<and> fmt_has 0 ((xs @ [c]) @ r) s'"
      using 2(2) [OF False r(1) _ s2(2)] 2(4,6) r(2) by simp
    then show ?thesis using False r s1(1) s2(1) av 2(4) by simp
  qed
qed

section \<open>Properties\<close>

text \<open>\<^verbatim>\<open>sdsll2str\<close> prints every \<^verbatim>\<open>long long\<close> but the least one within a buffer of \<^verbatim>\<open>SDS_LLSTR_SIZE\<close> bytes: the text, with its terminator, is at the
  start of the buffer, its length is returned, and reading it back as a decimal number gives the value. For the least value the negation
  overflows.\<close>

theorem sdsll2str_roundtrip:
  assumes "length b = SDS_LLSTR_SIZE"
  shows "if sint num = - (2 ^ 63) then sdsll2str b num = None
    else \<exists>ds b'. sdsll2str b num = Some (int (length ds), b') \<and> take (length ds + 1) b' = map Some (ds @ [0]) \<and> read_int ds = sint num"
proof (cases "sint num = - (2 ^ 63)")
  case True
  then show ?thesis by (simp add: sdsll2str_def)
next
  case False
  with assms sdsll2str_eq [of b num] read_int_number [of "sint num"] show ?thesis by auto
qed

theorem sdsll2str_roundtrip_witness:
  "\<exists>ds b'. sdsll2str (replicate SDS_LLSTR_SIZE None) (- 42) = Some (int (length ds), b') \<and> take (length ds + 1) b' = map Some (ds @ [0]) \<and>
     read_int ds = - 42"
  using sdsll2str_roundtrip [of "replicate SDS_LLSTR_SIZE None" "- 42"] by simp

text \<open>C32. \<^verbatim>\<open>sdscatfmt\<close> appends to the string exactly the rendering of its format, for every format without a stray percent sign at the end and
  arguments of the types it names, as long as no allocation is refused; the string grows through every header type on the way.\<close>

theorem sdscatfmt_correct:
  assumes "sds_rep xs s" and "render fmt ap = Some out" and "0 \<notin> set fmt" and "length xs + length out + 1 < 2 ^ 62"
  shows "\<exists>s'. sdscatfmt (\<lambda>_. True) s (fmt @ [0]) ap = Some s' \<and> sds_rep (xs @ out) s'"
proof -
  have "unat (of_nat (length xs) :: u64) = length xs" using assms(4) by (simp add: unat_of_nat64)
  moreover obtain s1 where "fmt_loop (\<lambda>_. True) s (fmt @ [0]) (length xs) ap = Some (s1, length (xs @ out))" "fmt_has 0 (xs @ out) s1"
    using fmt_loop_has [OF assms(2,3) sds_rep_fmt [OF assms(1)] assms(4), of "[]"] by auto
  ultimately show ?thesis using fmt_end [of 0 "xs @ out" s1] by (simp add: sdscatfmt_def sdslen_rep [OF assms(1)])
qed

theorem sdscatfmt_correct_witness:
  "\<exists>s s'. sds_rep [32, 104, 105, 0] s \<and> sdscatfmt (\<lambda>_. True) s [61, 37, 105, 33, 0] [Int_arg (- 7)] = Some s' \<and>
     sds_rep [32, 104, 105, 0, 61, 45, 55, 33] s'"
proof -
  obtain s where s: "sds_rep [32, 104, 105, 0] s" using some_sds by blast
  have "render [61, 37, 105, 33] [Int_arg (- 7)] = Some [61, 45, 55, 33]"
    by (simp add: arg_text_def number_text_def decimal.simps)
  from sdscatfmt_correct [OF s this] s show ?thesis by auto
qed

text \<open>A format that ends in a percent sign is read past its terminator: with nothing readable behind it, the call is undefined.\<close>

theorem sdscatfmt_trailing_percent:
  "sdscatfmt mal s [37, 0] ap = None"
proof -
  have "fmt_loop mal s [37, 0] i ap = None" for i
    by (auto split: bind_splits)
  then show ?thesis by (auto simp: sdscatfmt_def simp del: fmt_loop.simps split: bind_splits)
qed

end
