(* ===== verification/NbtAscii.thy ===== *)
theory NbtAscii
  imports NbtQuery NbtLoad SdsNum
begin

text \<open>
  The printer of NBT trees (\<^verbatim>\<open>nbt_dump_ascii\<close> and its helpers in \<^verbatim>\<open>src/cNBT/nbt_parsing.c\<close>). Each \<^verbatim>\<open>bprintf\<close> is given the bytes
  its format and arguments amount to; the decimal text of an integer is \<open>number_text\<close>, and the \<^verbatim>\<open>%f\<close> text of a float and of a double is an
  argument. A \<^verbatim>\<open>void\<close> function is a writer that returns \<open>NBT_OK\<close>. \<^verbatim>\<open>bprintf\<close> does not test whether \<^verbatim>\<open>buffer_reserve\<close> succeeded: when memory runs
  out it writes through a null pointer, which is undefined (\<open>None\<close>).

  The output is specified as a list of lines with their depths; \<open>page\<close> is their text.
\<close>

section \<open>Operations\<close>

record float_text =
  show_float :: "u32 \<Rightarrow> byte list"
  show_double :: "u64 \<Rightarrow> byte list"

abbreviation ascii :: "string \<Rightarrow> byte list" where
  "ascii s \<equiv> map of_char s"

text \<open>\<open>siz\<close> is what \<^verbatim>\<open>vsnprintf\<close> returns: the length, or a negative number when it does not fit an \<^verbatim>\<open>int\<close>; in that case the second call
  gets the size 0 and writes nothing, and \<^verbatim>\<open>len\<close> decreases.\<close>

definition bprintf :: "(nat \<Rightarrow> bool) \<Rightarrow> byte list \<Rightarrow> writer" where
  "bprintf mal out b =
     (let siz = (if length out < 2 ^ 31 then int (length out) else - 1)
      in do { (rc, b) \<leftarrow> buffer_reserve mal b (len b + word_of_int siz + 1);
              if siz < 0 then Some (NBT_OK, b\<lparr>len := len b + word_of_int siz\<rparr>)
              else do { blk \<leftarrow> data b;
                        blk \<leftarrow> mem_write (unat (len b)) (out @ [0]) blk;
                        Some (NBT_OK, b\<lparr>data := Some blk, len := len b + word_of_int siz\<rparr>) } })"

text \<open>\<^verbatim>\<open>amount\<close> is a depth of the tree, so that \<^verbatim>\<open>amount * 4\<close> does not wrap.\<close>

definition indent :: "(nat \<Rightarrow> bool) \<Rightarrow> nat \<Rightarrow> writer" where
  "indent mal amount = bprintf mal (replicate (amount * 4) 32)"

definition SAFE_NAME :: "cstr option \<Rightarrow> byte list" where
  "SAFE_NAME nm = (case nm of None \<Rightarrow> ascii ''<null>'' | Some s \<Rightarrow> cstr_of s)"

text \<open>The loops of \<^verbatim>\<open>dump_byte_array\<close> and \<^verbatim>\<open>dump_int_array\<close>, with the elements still to print. Both use \<^verbatim>\<open>%u\<close>; the promoted element is
  an \<^verbatim>\<open>int\<close>, which \<^verbatim>\<open>%u\<close> prints modulo \<open>2\<^sup>3\<^sup>2\<close>.\<close>

fun dump_elements :: "(nat \<Rightarrow> bool) \<Rightarrow> 'a::len word list \<Rightarrow> nat \<Rightarrow> nat \<Rightarrow> writer" where
  "dump_elements mal xs i 0 = (\<lambda>b. Some (NBT_OK, b))"
| "dump_elements mal xs i (Suc left) =
     (if i < length xs
      then andthen (bprintf mal (decimal (unat (xs ! i)) @ [32])) (dump_elements mal xs (Suc i) left)
      else (\<lambda>b. None))"

definition dump_array :: "(nat \<Rightarrow> bool) \<Rightarrow> 'a::len word list option \<Rightarrow> u32 \<Rightarrow> writer" where
  "dump_array mal d n =
     (if sint n < 0 then (\<lambda>b. None)
      else andthen (bprintf mal (ascii ''[ ''))
             (andthen (dump_elements mal (case d of None \<Rightarrow> [] | Some xs \<Rightarrow> xs) 0 (nat (sint n)))
                (bprintf mal (ascii '']''))))"

definition dump_byte_array :: "(nat \<Rightarrow> bool) \<Rightarrow> byte list option \<Rightarrow> u32 \<Rightarrow> writer" where
  "dump_byte_array mal d n = dump_array mal d n"

definition dump_int_array :: "(nat \<Rightarrow> bool) \<Rightarrow> u32 list option \<Rightarrow> u32 \<Rightarrow> writer" where
  "dump_int_array mal d n = dump_array mal d n"

text \<open>\<^verbatim>\<open>kind("name")\<close>.\<close>

definition label :: "string \<Rightarrow> byte list \<Rightarrow> byte list" where
  "label kind nm = ascii kind @ [0x28, 0x22] @ nm @ [0x22, 0x29]"

text \<open>The two branches of \<^verbatim>\<open>__nbt_dump_ascii\<close> with children: the closing brace is printed also after an error among them.\<close>

definition dump_braces :: "(nat \<Rightarrow> bool) \<Rightarrow> nat \<Rightarrow> byte list \<Rightarrow> writer \<Rightarrow> writer" where
  "dump_braces mal ident head body =
     andthen (bprintf mal (head @ [10])) (andthen (indent mal ident) (andthen (bprintf mal [0x7B, 10])
       (\<lambda>b. do { (err, b) \<leftarrow> body b;
                 (ok, b) \<leftarrow> andthen (indent mal ident) (bprintf mal [0x7D, 10]) b;
                 Some (err, b) })))"

text \<open>\<open>dump_ascii\<close> is the chain on \<^verbatim>\<open>tree->type\<close> in \<^verbatim>\<open>__nbt_dump_ascii\<close> and \<open>nm\<close> the text of the name; \<open>dump_list_contents_ascii\<close> calls
  \<^verbatim>\<open>__nbt_dump_ascii\<close>, which first indents, for each entry.\<close>

fun dump_ascii :: "(nat \<Rightarrow> bool) \<Rightarrow> float_text \<Rightarrow> nat \<Rightarrow> byte list \<Rightarrow> nbt_payload \<Rightarrow> writer"
  and dump_list_contents_ascii :: "(nat \<Rightarrow> bool) \<Rightarrow> float_text \<Rightarrow> nat \<Rightarrow> nbt_node list \<Rightarrow> writer"
where
  "dump_ascii mal F ident nm (tag_byte x) = bprintf mal (label ''TAG_Byte'' nm @ ascii '': '' @ number_text (sint x) @ [10])"
| "dump_ascii mal F ident nm (tag_short x) = bprintf mal (label ''TAG_Short'' nm @ ascii '': '' @ number_text (sint x) @ [10])"
| "dump_ascii mal F ident nm (tag_int x) = bprintf mal (label ''TAG_Int'' nm @ ascii '': '' @ number_text (sint x) @ [10])"
| "dump_ascii mal F ident nm (tag_long x) = bprintf mal (label ''TAG_Long'' nm @ ascii '': '' @ number_text (sint x) @ [10])"
| "dump_ascii mal F ident nm (tag_float x) = bprintf mal (label ''TAG_Float'' nm @ ascii '': '' @ show_float F x @ [10])"
| "dump_ascii mal F ident nm (tag_double x) = bprintf mal (label ''TAG_Double'' nm @ ascii '': '' @ show_double F x @ [10])"
| "dump_ascii mal F ident nm (tag_byte_array d n) =
     andthen (bprintf mal (label ''TAG_Byte_Array'' nm @ ascii '': '')) (andthen (dump_byte_array mal d n) (bprintf mal [10]))"
| "dump_ascii mal F ident nm (tag_int_array d n) =
     andthen (bprintf mal (label ''Tag_Int_Array'' nm @ ascii '': '')) (andthen (dump_int_array mal d n) (bprintf mal [10]))"
| "dump_ascii mal F ident nm (tag_string s) =
     (case s of
        None \<Rightarrow> (\<lambda>b. Some (NBT_ERR, b))
      | Some s \<Rightarrow> bprintf mal (label ''TAG_String'' nm @ ascii '': '' @ cstr_of s @ [10]))"
| "dump_ascii mal F ident nm (tag_list sen ns) =
     (case sen of
        None \<Rightarrow> (\<lambda>b. None)
      | Some t \<Rightarrow> dump_braces mal ident (label ''TAG_List'' nm @ ascii '' ['' @ ascii (nbt_type_to_string t) @ ascii '']'')
                    (dump_list_contents_ascii mal F (Suc ident) ns))"
| "dump_ascii mal F ident nm (tag_compound ns) =
     dump_braces mal ident (label ''TAG_Compound'' nm) (dump_list_contents_ascii mal F (Suc ident) ns)"
| "dump_ascii mal F ident nm (tag_long_array _ _) = (\<lambda>b. Some (NBT_ERR, b))"
| "dump_ascii mal F ident nm tag_end = (\<lambda>b. Some (NBT_ERR, b))"
| "dump_ascii mal F ident nm (tag_unknown _) = (\<lambda>b. Some (NBT_ERR, b))"
| "dump_list_contents_ascii mal F ident [] = (\<lambda>b. Some (NBT_OK, b))"
| "dump_list_contents_ascii mal F ident (nbt_node nm p # ns) =
     andthen (andthen (indent mal ident) (dump_ascii mal F ident (SAFE_NAME nm) p)) (dump_list_contents_ascii mal F ident ns)"

text \<open>The result is the block returned (or \<open>NULL\<close>) and \<^verbatim>\<open>errno\<close>. The code at \<^verbatim>\<open>OOM\<close> replaces \<^verbatim>\<open>errno\<close> if it is \<^emph>\<open>not\<close> \<open>NBT_OK\<close>.\<close>

definition nbt_dump_ascii :: "(nat \<Rightarrow> bool) \<Rightarrow> float_text \<Rightarrow> nbt_node option \<Rightarrow> (block option \<times> nbt_status) option" where
  "nbt_dump_ascii mal F tree = do {
     t \<leftarrow> tree;
     (err, b) \<leftarrow> andthen (indent mal 0) (dump_ascii mal F 0 (SAFE_NAME (name t)) (payload t)) BUFFER_INIT;
     if err \<noteq> NBT_OK then Some (None, NBT_EMEM)
     else do {
       (rc, b) \<leftarrow> buffer_reserve mal b (len b + 1);
       if rc \<noteq> 0 then Some (None, NBT_OK)
       else do { blk \<leftarrow> data b; blk \<leftarrow> mem_write (unat (len b)) [0] blk; Some (Some blk, NBT_OK) } } }"

section \<open>The lines of the printed tree\<close>

definition array_text :: "'a::len word list \<Rightarrow> byte list" where
  "array_text xs = ascii ''[ '' @ concat (map (\<lambda>x. decimal (unat x) @ [32]) xs) @ ascii '']''"

definition field :: "string \<Rightarrow> byte list \<Rightarrow> byte list \<Rightarrow> byte list" where
  "field kind nm tx = label kind nm @ ascii '': '' @ tx"

text \<open>A payload that cannot be printed has the empty text here.\<close>

fun text_lines :: "float_text \<Rightarrow> nat \<Rightarrow> byte list \<Rightarrow> nbt_payload \<Rightarrow> (nat \<times> byte list) list"
  and text_lines_all :: "float_text \<Rightarrow> nat \<Rightarrow> nbt_node list \<Rightarrow> (nat \<times> byte list) list"
where
  "text_lines F d nm (tag_byte x) = [(d, field ''TAG_Byte'' nm (number_text (sint x)))]"
| "text_lines F d nm (tag_short x) = [(d, field ''TAG_Short'' nm (number_text (sint x)))]"
| "text_lines F d nm (tag_int x) = [(d, field ''TAG_Int'' nm (number_text (sint x)))]"
| "text_lines F d nm (tag_long x) = [(d, field ''TAG_Long'' nm (number_text (sint x)))]"
| "text_lines F d nm (tag_float x) = [(d, field ''TAG_Float'' nm (show_float F x))]"
| "text_lines F d nm (tag_double x) = [(d, field ''TAG_Double'' nm (show_double F x))]"
| "text_lines F d nm (tag_byte_array xs n) = [(d, field ''TAG_Byte_Array'' nm (array_text (the xs)))]"
| "text_lines F d nm (tag_int_array xs n) = [(d, field ''Tag_Int_Array'' nm (array_text (the xs)))]"
| "text_lines F d nm (tag_string s) = [(d, case s of None \<Rightarrow> [] | Some s \<Rightarrow> field ''TAG_String'' nm (cstr_of s))]"
| "text_lines F d nm (tag_list sen ns) =
     (d, label ''TAG_List'' nm @ ascii '' ['' @ ascii (nbt_type_to_string (the sen)) @ ascii '']'') # (d, [0x7B])
       # text_lines_all F (Suc d) ns @ [(d, [0x7D])]"
| "text_lines F d nm (tag_compound ns) = (d, label ''TAG_Compound'' nm) # (d, [0x7B]) # text_lines_all F (Suc d) ns @ [(d, [0x7D])]"
| "text_lines F d nm (tag_long_array xs n) = [(d, [])]"
| "text_lines F d nm tag_end = [(d, [])]"
| "text_lines F d nm (tag_unknown t) = [(d, [])]"
| "text_lines_all F d [] = []"
| "text_lines_all F d (nbt_node nm p # ns) = text_lines F d (SAFE_NAME nm) p @ text_lines_all F d ns"

definition page :: "(nat \<times> byte list) list \<Rightarrow> byte list" where
  "page ls = concat (map (\<lambda>(d, tx). replicate (4 * d) 32 @ tx @ [10]) ls)"

lemma page_simps [simp]:
  "page [] = []" "page ((d, tx) # ls) = replicate (4 * d) 32 @ tx @ 10 # page ls" "page (ls @ ls') = page ls @ page ls'"
  by (simp_all add: page_def)

text \<open>\<open>shaped\<close>: arrays have the length they say and lists have a sentinel, as the parser builds them. \<open>printable\<close>: no null string, no long array
  and no type outside the enumeration.\<close>

fun shaped :: "nbt_payload \<Rightarrow> bool" and shaped_all :: "nbt_node list \<Rightarrow> bool" where
  "shaped (tag_byte_array d n) = wf_array d n"
| "shaped (tag_int_array d n) = wf_array d n"
| "shaped (tag_list sen ns) = (sen \<noteq> None \<and> shaped_all ns)"
| "shaped (tag_compound ns) = shaped_all ns"
| "shaped p = True"
| "shaped_all [] = True"
| "shaped_all (nbt_node nm p # ns) = (shaped p \<and> shaped_all ns)"

fun printable :: "nbt_payload \<Rightarrow> bool" and printable_all :: "nbt_node list \<Rightarrow> bool" where
  "printable (tag_string s) = (s \<noteq> None)"
| "printable (tag_list sen ns) = printable_all ns"
| "printable (tag_compound ns) = printable_all ns"
| "printable (tag_long_array xs n) = False"
| "printable tag_end = False"
| "printable (tag_unknown t) = False"
| "printable p = True"
| "printable_all [] = True"
| "printable_all (nbt_node nm p # ns) = (printable p \<and> printable_all ns)"

section \<open>The printer prints the lines\<close>

definition prints :: "writer \<Rightarrow> nbt_status \<Rightarrow> byte list \<Rightarrow> bool" where
  "prints f e out \<longleftrightarrow>
     (\<forall>b. buffer_inv b \<longrightarrow> length (contents b) + length out < 2 ^ 31 \<longrightarrow>
        (\<exists>b'. f b = Some (e, b') \<and> buffer_inv b' \<and> contents b' = contents b @ out))"

lemma live_shorter:
  assumes "live b" and "l \<le> len b"
  shows "live (b\<lparr>len := l\<rparr>)" and "contents (b\<lparr>len := l\<rparr>) = take (unat l) (contents b)"
proof -
  from assms obtain blk k where b: "data b = Some blk" "length blk = unat (cap b)" "len b \<le> cap b"
    "\<forall>c \<in> set (take (unat (len b)) blk). c \<noteq> None" "10 \<le> k" "k \<le> 63" "cap b = 2 ^ k"
    by (auto simp: live_def buffer_inv_def)
  have "set (take (unat l) blk) \<subseteq> set (take (unat (len b)) blk)"
    using assms(2) by (intro set_take_subset_set_take) (simp add: word_le_nat_alt)
  then have "\<forall>c \<in> set (take (unat l) blk). c \<noteq> None" using b(4) by blast
  moreover have "l \<le> cap b" using assms(2) b(3) by (rule order.trans)
  ultimately show "live (b\<lparr>len := l\<rparr>)"
    unfolding live_def buffer_inv_def using b(1,2,5-7) by (simp del: not_None_eq) blast
  from assms(2) show "contents (b\<lparr>len := l\<rparr>) = take (unat l) (contents b)"
    by (simp add: b(1) contents_def take_map min_def word_le_nat_alt)
qed

lemma unat_small_add: "unat (x :: u64) + n < 2 ^ 63 \<Longrightarrow> unat (x + of_nat n) = unat x + n"
  by (simp add: unat_word_ariths unsigned_of_nat take_bit_nat_eq_self)

text \<open>Reserving one byte more than is written and writing a terminator behind the text.\<close>

lemma reserve_write_nul:
  assumes inv: "buffer_inv b" and fit: "length (contents b) + length out < 2 ^ 31"
  shows "\<exists>b1 blk blk'. buffer_reserve (\<lambda>_. True) b (len b + of_nat (length out) + 1) = Some (0, b1) \<and> len b1 = len b \<and>
    data b1 = Some blk \<and> mem_write (unat (len b1)) (out @ [0]) blk = Some blk' \<and>
    live (b1\<lparr>data := Some blk', len := len b1 + of_nat (length out)\<rparr>) \<and>
    contents (b1\<lparr>data := Some blk', len := len b1 + of_nat (length out)\<rparr>) = contents b @ out \<and>
    take (length (contents b) + length out + 1) blk' = map Some (contents b @ out @ [0])"
proof -
  let ?n = "length (out @ [0])"
  have len: "unat (len b) = length (contents b)" using inv by (rule unat_len_contents)
  have eq: "len b + of_nat (length out) + 1 = len b + of_nat ?n" by (simp add: ac_simps)
  have n: "unat (len b + of_nat ?n) = unat (len b) + ?n" "unat (len b + of_nat (length out)) = unat (len b) + length out"
    using len fit by (intro unat_small_add, simp)+
  then have "len b + of_nat ?n \<le> 2 ^ 63" using len fit by (simp add: word_le_nat_alt)
  from reserve_ok [OF inv this, of "\<lambda>_. True"] obtain b1 where b1: "buffer_reserve (\<lambda>_. True) b (len b + of_nat ?n) = Some (0, b1)"
    "live b1" "contents b1 = contents b" "len b1 = len b" "len b + of_nat ?n \<le> cap b1" by auto
  from mem_write_ok [OF b1(2), of "out @ [0]"] b1(3-5) n(1) obtain blk blk' where
    w: "data b1 = Some blk" "mem_write (unat (len b1)) (out @ [0]) blk = Some blk'"
    "live (b1\<lparr>data := Some blk', len := len b1 + of_nat ?n\<rparr>)"
    "contents (b1\<lparr>data := Some blk', len := len b1 + of_nat ?n\<rparr>) = contents b @ out @ [0]"
    by auto
  have "len b1 + of_nat (length out) \<le> len b1 + of_nat ?n" using n b1(4) by (simp add: word_le_nat_alt)
  with live_shorter [OF w(3), of "len b1 + of_nat (length out)"] w(4) n(2) len b1(4)
  have "live (b1\<lparr>data := Some blk', len := len b1 + of_nat (length out)\<rparr>)"
    "contents (b1\<lparr>data := Some blk', len := len b1 + of_nat (length out)\<rparr>) = contents b @ out"
    by simp_all
  moreover have "take (length (contents b) + length out + 1) blk' = map Some (contents b @ out @ [0])"
  proof -
    have c: "\<forall>c \<in> set (take (unat (len b1 + of_nat ?n)) blk'). c \<noteq> None" using w(3) by (simp add: live_def buffer_inv_def)
    have m: "map the (take (unat (len b1 + of_nat ?n)) blk') = contents b @ out @ [0]" using w(4) by (simp add: contents_def)
    from c have "map Some (map the (take (unat (len b1 + of_nat ?n)) blk')) = take (unat (len b1 + of_nat ?n)) blk'"
      by (simp add: map_idI)
    with m show ?thesis using n(1) len b1(4) by simp
  qed
  ultimately show ?thesis using b1(1,4) w(1,2) unfolding eq by blast
qed

lemma prints_bprintf: "out = out' \<Longrightarrow> prints (bprintf (\<lambda>_. True) out) NBT_OK out'"
proof -
  assume eq: "out = out'"
  have "\<exists>b'. bprintf (\<lambda>_. True) out b = Some (NBT_OK, b') \<and> buffer_inv b' \<and> contents b' = contents b @ out"
    if "buffer_inv b" and fit: "length (contents b) + length out < 2 ^ 31" for b
  proof -
    have "length out < 2 ^ 31" using fit by linarith
    with reserve_write_nul [OF that] show ?thesis by (auto simp: bprintf_def live_def)
  qed
  then show ?thesis unfolding eq prints_def by blast
qed

lemma prints_andthen:
  assumes f: "prints f NBT_OK xs" and g: "prints g e ys" and "zs = xs @ ys"
  shows "prints (andthen f g) e zs"
  unfolding prints_def assms(3)
proof (intro allI impI)
  fix b
  assume b: "buffer_inv b" "length (contents b) + length (xs @ ys) < 2 ^ 31"
  from b(2) have "length (contents b) + length xs < 2 ^ 31" by simp
  with f b(1) obtain b1 where b1: "f b = Some (NBT_OK, b1)" "buffer_inv b1" "contents b1 = contents b @ xs"
    unfolding prints_def by blast
  from b(2) b1(3) have "length (contents b1) + length ys < 2 ^ 31" by simp
  with g b1(2) obtain b2 where "g b1 = Some (e, b2)" "buffer_inv b2" "contents b2 = contents b1 @ ys"
    unfolding prints_def by blast
  with b1 show "\<exists>b'. andthen f g b = Some (e, b') \<and> buffer_inv b' \<and> contents b' = contents b @ xs @ ys"
    by (simp add: andthen_def)
qed

lemma prints_failed: "prints f e xs \<Longrightarrow> e \<noteq> NBT_OK \<Longrightarrow> prints (andthen f g) e xs"
  unfolding prints_def andthen_def by fastforce

lemma prints_return: "prints (\<lambda>b. Some (e, b)) e []"
  by (simp add: prints_def)

lemma prints_indent: "prints (indent (\<lambda>_. True) d) NBT_OK (replicate (4 * d) 32)"
  unfolding indent_def by (intro prints_bprintf) (simp add: mult.commute)

lemmas prints_intros = prints_bprintf prints_return prints_indent prints_andthen

lemma prints_elements:
  "i + left = length xs \<Longrightarrow>
     prints (dump_elements (\<lambda>_. True) xs i left) NBT_OK (concat (map (\<lambda>x. decimal (unat x) @ [32]) (drop i xs)))"
  by (induction left arbitrary: i)
    (auto simp: Cons_nth_drop_Suc [symmetric] intro!: prints_intros)

lemma prints_array:
  assumes "wf_array d n"
  shows "prints (dump_array (\<lambda>_. True) d n) NBT_OK (array_text (the d))"
proof -
  from assms obtain xs where d: "d = Some xs" "length xs < 2 ^ 31" "n = of_nat (length xs)"
    by (auto simp: wf_array_def split: option.splits)
  then have "sint n = int (length xs)"
    by (simp add: sint_uint unsigned_of_nat signed_take_bit_int_eq_self take_bit_nat_eq_self)
  with d show ?thesis using prints_elements [of 0 "length xs" xs]
    by (auto simp: dump_array_def array_text_def intro!: prints_intros)
qed

text \<open>\<open>goes f good tx\<close>: \<open>f\<close> prints \<open>tx\<close> if all is \<open>good\<close>, and otherwise at most as much and returns \<open>NBT_ERR\<close>.\<close>

definition goes :: "writer \<Rightarrow> bool \<Rightarrow> byte list \<Rightarrow> bool" where
  "goes f good tx \<longleftrightarrow>
     (\<exists>out. prints f (if good then NBT_OK else NBT_ERR) out \<and> length out \<le> length tx \<and> (good \<longrightarrow> out = tx))"

lemma goes_prints: "prints f NBT_OK tx \<Longrightarrow> goes f True tx"
  by (auto simp: goes_def)

lemma goes_after:
  assumes "prints f NBT_OK xs" and "goes g good ys" and "zs = xs @ ys"
  shows "goes (andthen f g) good zs"
  using assms prints_andthen [OF assms(1)] unfolding goes_def by fastforce

lemma goes_refuses: "goes (andthen (indent (\<lambda>_. True) d) (\<lambda>b. Some (NBT_ERR, b))) False (page [(d, [])])"
  using prints_andthen [OF prints_indent prints_return refl, of d NBT_ERR] by (force simp: goes_def)

lemma goes_both:
  assumes "goes f good xs" and "goes g good' ys" and "zs = xs @ ys"
  shows "goes (andthen f g) (good \<and> good') zs"
proof (cases good)
  case True
  with assms goes_after [of f xs g good' ys] show ?thesis by (auto simp: goes_def)
next
  case False
  with assms(1) obtain out where "prints f NBT_ERR out" "length out \<le> length xs" by (auto simp: goes_def)
  with prints_failed [of f NBT_ERR out g] False assms(3) show ?thesis by (auto simp: goes_def)
qed

lemma goes_braces:
  assumes "goes body good tx"
  shows "goes (andthen (indent (\<lambda>_. True) d) (dump_braces (\<lambda>_. True) d head body)) good
    (replicate (4 * d) 32 @ head @ [10] @ replicate (4 * d) 32 @ [0x7B, 10] @ tx @ replicate (4 * d) 32 @ [0x7D, 10])"
proof -
  let ?close = "andthen (indent (\<lambda>_. True) d) (bprintf (\<lambda>_. True) [0x7D, 10])"
  let ?closing = "replicate (4 * d) 32 @ [0x7D, 10]"
  have close: "prints ?close NBT_OK ?closing" by (rule prints_andthen [OF prints_indent prints_bprintf [OF refl] refl])
  have "goes (\<lambda>b. do { (err, b) \<leftarrow> body b; (ok, b) \<leftarrow> ?close b; Some (err, b) }) good (tx @ ?closing)"
  proof -
    from assms obtain out where out: "prints body (if good then NBT_OK else NBT_ERR) out" "length out \<le> length tx" "good \<longrightarrow> out = tx"
      by (auto simp: goes_def)
    have "prints (\<lambda>b. do { (err, b) \<leftarrow> body b; (ok, b) \<leftarrow> ?close b; Some (err, b) }) (if good then NBT_OK else NBT_ERR) (out @ ?closing)"
      unfolding prints_def
    proof (intro allI impI)
      fix b
      assume b: "buffer_inv b" "length (contents b) + length (out @ ?closing) < 2 ^ 31"
      from b(2) have "length (contents b) + length out < 2 ^ 31" by simp
      with out(1) b(1) obtain b1 where b1: "body b = Some (if good then NBT_OK else NBT_ERR, b1)" "buffer_inv b1"
        "contents b1 = contents b @ out" unfolding prints_def by blast
      from b(2) b1(3) have "length (contents b1) + length ?closing < 2 ^ 31" by simp
      with close b1(2) obtain b2 where "?close b1 = Some (NBT_OK, b2)" "buffer_inv b2" "contents b2 = contents b1 @ ?closing"
        unfolding prints_def by blast
      with b1 show "\<exists>b'. do { (err, b) \<leftarrow> body b; (ok, b) \<leftarrow> ?close b; Some (err, b) } = Some (if good then NBT_OK else NBT_ERR, b') \<and>
        buffer_inv b' \<and> contents b' = contents b @ out @ ?closing" by simp
    qed
    with out show ?thesis by (auto simp: goes_def)
  qed
  then show ?thesis unfolding dump_braces_def
    by (auto intro!: goes_after prints_intros)
qed


lemma goes_array:
  assumes "wf_array xs n"
  shows "goes (andthen (indent (\<lambda>_. True) d) (andthen (bprintf (\<lambda>_. True) head) (andthen (dump_array (\<lambda>_. True) xs n) (bprintf (\<lambda>_. True) [10]))))
    True (replicate (4 * d) 32 @ head @ array_text (the xs) @ [10])"
  using prints_andthen [OF prints_indent prints_andthen [OF prints_bprintf [OF refl]
      prints_andthen [OF prints_array [OF assms] prints_bprintf [OF refl] refl] refl] refl]
  by (rule goes_prints)

lemma goes_line:
  "goes (andthen (indent (\<lambda>_. True) d) (bprintf (\<lambda>_. True) (tx @ [10]))) True (page [(d, tx)])"
  using prints_andthen [OF prints_indent prints_bprintf [OF refl] refl, of d "tx @ [10]"] by (simp add: goes_prints)

lemma goes_field:
  "goes (andthen (indent (\<lambda>_. True) d) (bprintf (\<lambda>_. True) (label k nm @ ascii '': '' @ tx @ [10]))) True (page [(d, field k nm tx)])"
  using goes_line [of d "field k nm tx"] by (simp add: field_def)

lemma dump_ascii_goes:
  "shaped p \<Longrightarrow> goes (andthen (indent (\<lambda>_. True) d) (dump_ascii (\<lambda>_. True) F d nm p)) (printable p) (page (text_lines F d nm p))"
  and dump_list_contents_goes:
  "shaped_all ns \<Longrightarrow> goes (dump_list_contents_ascii (\<lambda>_. True) F d ns) (printable_all ns) (page (text_lines_all F d ns))"
proof (induction F d nm p and F d ns rule: text_lines_text_lines_all.induct)
  case (7 F d nm xs n)
  then show ?case using goes_array [of xs n d "label ''TAG_Byte_Array'' nm @ ascii '': ''"]
    by (simp add: field_def dump_byte_array_def)
next
  case (8 F d nm xs n)
  then show ?case using goes_array [of xs n d "label ''Tag_Int_Array'' nm @ ascii '': ''"]
    by (simp add: field_def dump_int_array_def)
next
  case (9 F d nm s)
  then show ?case using goes_line [of d "field ''TAG_String'' nm (cstr_of (the s))"] goes_refuses [of d]
    by (cases s) (simp_all add: field_def)
next
  case (10 F d nm sen ns)
  then obtain t where t: "sen = Some t" by auto
  from 10 show ?case
    using goes_braces [of _ "printable_all ns", OF "10.IH", of d "label ''TAG_List'' nm @ ascii '' ['' @ ascii (nbt_type_to_string t) @ ascii '']''"]
    by (simp add: t)
next
  case (11 F d nm ns)
  then show ?case using goes_braces [of _ "printable_all ns", OF "11.IH", of d "label ''TAG_Compound'' nm"] by simp
next
  case (16 F d nm p ns)
  then show ?case using goes_both [OF "16.IH" refl] by simp
qed (use goes_field goes_refuses in \<open>simp_all add: goes_prints prints_return del: page_simps(2)\<close>)

lemma wf_shaped_printable:
  "wf_payload p \<Longrightarrow> shaped p \<and> printable p"
  "wf_elems t ns \<Longrightarrow> shaped_all ns \<and> printable_all ns"
  "wf_members ns \<Longrightarrow> shaped_all ns \<and> printable_all ns"
  by (induction p and t ns and ns rule: wf_payload_wf_elems_wf_members.induct) (auto split: option.splits)

section \<open>Properties\<close>

definition node_text :: "float_text \<Rightarrow> nbt_node \<Rightarrow> byte list" where
  "node_text F nd = page (text_lines F 0 (SAFE_NAME (name nd)) (payload nd))"

lemma dump_node_goes:
  assumes "shaped (payload nd)" and "length (node_text F nd) < 2 ^ 31"
  obtains b out where "andthen (indent (\<lambda>_. True) 0) (dump_ascii (\<lambda>_. True) F 0 (SAFE_NAME (name nd)) (payload nd)) BUFFER_INIT =
      Some (if printable (payload nd) then NBT_OK else NBT_ERR, b)"
    "buffer_inv b" "contents b = out" "printable (payload nd) \<longrightarrow> out = node_text F nd"
proof -
  from dump_ascii_goes [OF assms(1), of 0 F "SAFE_NAME (name nd)"] obtain out where
    out: "prints (andthen (indent (\<lambda>_. True) 0) (dump_ascii (\<lambda>_. True) F 0 (SAFE_NAME (name nd)) (payload nd)))
        (if printable (payload nd) then NBT_OK else NBT_ERR) out"
      "length out \<le> length (node_text F nd)" "printable (payload nd) \<longrightarrow> out = node_text F nd"
    by (auto simp: goes_def node_text_def)
  from out(2) assms(2) have "length (contents BUFFER_INIT) + length out < 2 ^ 31" by simp
  with out(1) obtain b where "andthen (indent (\<lambda>_. True) 0) (dump_ascii (\<lambda>_. True) F 0 (SAFE_NAME (name nd)) (payload nd)) BUFFER_INIT =
      Some (if printable (payload nd) then NBT_OK else NBT_ERR, b)" "buffer_inv b" "contents b = contents BUFFER_INIT @ out"
    unfolding prints_def using buffer_inv_init(1) by blast
  with out(3) show thesis by (intro that [of b out]) simp_all
qed

text \<open>C35. \<^verbatim>\<open>nbt_dump_ascii\<close> prints every tree whose arrays have their length, whose lists have a sentinel and whose strings are not null (in particular
  every well-formed one): the block returned starts with the lines of the tree, each indented by four spaces per level, and the terminator.\<close>

theorem nbt_dump_ascii_correct:
  assumes "shaped (payload nd)" and "printable (payload nd)" and "length (node_text F nd) < 2 ^ 31"
  shows "\<exists>blk. nbt_dump_ascii (\<lambda>_. True) F (Some nd) = Some (Some blk, NBT_OK) \<and>
    take (length (node_text F nd) + 1) blk = map Some (node_text F nd @ [0])"
proof -
  from assms(1,3) obtain b where b: "andthen (indent (\<lambda>_. True) 0) (dump_ascii (\<lambda>_. True) F 0 (SAFE_NAME (name nd)) (payload nd)) BUFFER_INIT =
      Some (NBT_OK, b)" "buffer_inv b" "contents b = node_text F nd"
    by (rule dump_node_goes) (use assms(2) in simp)
  from assms(3) b(3) have "length (contents b) + length ([] :: byte list) < 2 ^ 31" by simp
  from reserve_write_nul [OF b(2) this] b show ?thesis by (auto simp: nbt_dump_ascii_def)
qed

definition no_floats :: float_text where
  "no_floats = \<lparr>show_float = \<lambda>_. ascii ''0.000000'', show_double = \<lambda>_. ascii ''0.000000''\<rparr>"

definition small_tree :: nbt_node where
  "small_tree = nbt_node (Some [0x61]) (tag_compound
     [nbt_node (Some [0x6C]) (tag_list (Some TAG_SHORT) [nbt_node None (tag_short 0xFFFF)]),
      nbt_node (Some [0x69]) (tag_int_array (Some [7]) 1)])"

lemma small_tree_text:
  "node_text no_floats small_tree = ascii ''TAG_Compound('' @ [34, 97, 34] @ ascii '')'' @ [10] @ ascii ''{'' @ [10]
     @ ascii ''    TAG_List('' @ [34, 108, 34] @ ascii '') [TAG_SHORT]'' @ [10] @ ascii ''    {'' @ [10]
     @ ascii ''        TAG_Short('' @ [34] @ ascii ''<null>'' @ [34] @ ascii ''): -1'' @ [10]
     @ ascii ''    }'' @ [10] @ ascii ''    Tag_Int_Array('' @ [34, 105, 34] @ ascii ''): [ 7 ]'' @ [10] @ ascii ''}'' @ [10]"
  by code_simp

theorem nbt_dump_ascii_correct_witness:
  "\<exists>blk. nbt_dump_ascii (\<lambda>_. True) no_floats (Some small_tree) = Some (Some blk, NBT_OK) \<and>
    take (length (node_text no_floats small_tree) + 1) blk = map Some (node_text no_floats small_tree @ [0])"
  by (rule nbt_dump_ascii_correct)
    (simp_all add: small_tree_text, simp_all add: small_tree_def wf_array_def)

text \<open>A tree that cannot be printed (a null string, a long array, an unknown type anywhere in it) makes \<^verbatim>\<open>nbt_dump_ascii\<close> return \<open>NULL\<close>, and
  although memory was never refused \<^verbatim>\<open>errno\<close> is \<open>NBT_EMEM\<close>.\<close>

theorem nbt_dump_ascii_wrong_errno:
  assumes "shaped (payload nd)" and "\<not> printable (payload nd)" and "length (node_text F nd) < 2 ^ 31"
  shows "nbt_dump_ascii (\<lambda>_. True) F (Some nd) = Some (None, NBT_EMEM)"
proof -
  from assms(1,3) obtain b where "andthen (indent (\<lambda>_. True) 0) (dump_ascii (\<lambda>_. True) F 0 (SAFE_NAME (name nd)) (payload nd)) BUFFER_INIT =
      Some (NBT_ERR, b)"
    by (rule dump_node_goes) (use assms(2) in simp)
  then show ?thesis by (simp add: nbt_dump_ascii_def)
qed

theorem nbt_dump_ascii_wrong_errno_witness:
  "nbt_dump_ascii (\<lambda>_. True) no_floats (Some (nbt_node None (tag_long_array (Some [1, 2]) 2))) = Some (None, NBT_EMEM)"
  by (rule nbt_dump_ascii_wrong_errno) (simp_all add: node_text_def)

text \<open>When the first allocation is refused, \<^verbatim>\<open>bprintf\<close> writes through a null pointer: the behaviour is undefined for every tree.\<close>

theorem nbt_dump_ascii_oom_undefined:
  assumes "\<not> mal 1024"
  shows "nbt_dump_ascii mal F (Some nd) = None"
  using assms by (simp add: nbt_dump_ascii_def andthen_def indent_def bprintf_def buffer_reserve_def lazy_init_def BUFFER_INIT_def)

theorem nbt_dump_ascii_oom_undefined_witness:
  "nbt_dump_ascii (\<lambda>n. n < 1000) no_floats (Some small_tree) = None"
  by (rule nbt_dump_ascii_oom_undefined) simp

end
