(* ===== verification/SdsText.thy ===== *)
theory SdsText
  imports SdsNum
begin

text \<open>
  The text-processing end of \<^verbatim>\<open>src/sds.c\<close>: appending printf output, splitting at a separator, quoting (\<^verbatim>\<open>sdscatrepr\<close>) and splitting a command
  line into arguments (\<^verbatim>\<open>sdssplitargs\<close>). The output of \<^verbatim>\<open>vsnprintf\<close> for a format and its arguments is an argument of the model, the byte
  list \<open>out\<close>. The results of the splitters are the arrays of strings; an array of \<^verbatim>\<open>sds\<close> whose reallocation fails is \<open>NULL\<close>.

  The character classes are those of the C locale; a byte from \<open>0x80\<close> on reaches \<^verbatim>\<open>isprint\<close> and \<^verbatim>\<open>isspace\<close> as a negative \<^verbatim>\<open>char\<close>, for which
  glibc answers no.
\<close>

section \<open>Printf output\<close>

text \<open>\<^verbatim>\<open>vsnprintf(buf, n, ...)\<close> writes at most \<open>n - 1\<close> bytes of its output and a terminator. The loop doubles the buffer until the byte
  before the last one stays zero.\<close>

definition vsnprintf :: "nat \<Rightarrow> byte list \<Rightarrow> block \<Rightarrow> block option" where
  "vsnprintf n out buf = mem_write 0 (take (n - 1) out @ [0]) buf"

partial_function (option) vprintf_loop :: "(nat \<Rightarrow> bool) \<Rightarrow> u64 \<Rightarrow> byte list \<Rightarrow> block option option" where
  "vprintf_loop mal buflen out =
     (let n = unat buflen in
      if n < 2 then None
      else do {
        buf \<leftarrow> mem_write (n - 2) [0] (replicate n None);
        buf \<leftarrow> vsnprintf n out buf;
        c \<leftarrow> cell (n - 2) buf;
        if c \<noteq> 0
        then (if \<not> mal (unat (buflen * 2)) then Some None else vprintf_loop mal (buflen * 2) out)
        else Some (Some buf) })"

definition sdscatvprintf :: "(nat \<Rightarrow> bool) \<Rightarrow> sdsmem \<Rightarrow> nat \<Rightarrow> byte list \<Rightarrow> sdsmem option option" where
  "sdscatvprintf mal s fmtlen out = do {
     let buflen = (of_nat fmtlen :: u64) * 2;
     r \<leftarrow> (if buflen > 1024 then (if \<not> mal (unat buflen) then Some None else vprintf_loop mal buflen out)
          else vprintf_loop mal 1024 out);
     case r of None \<Rightarrow> Some None | Some buf \<Rightarrow> sdscat mal s (block_ptr buf) }"

definition sdscatprintf :: "(nat \<Rightarrow> bool) \<Rightarrow> sdsmem \<Rightarrow> nat \<Rightarrow> byte list \<Rightarrow> sdsmem option option" where
  "sdscatprintf mal s fmtlen out = sdscatvprintf mal s fmtlen out"

section \<open>Splitting at a separator\<close>

text \<open>\<^verbatim>\<open>while(count--) sdsfree(tokens[count]);\<close>\<close>

fun free_all :: "sdsmem option list \<Rightarrow> unit option" where
  "free_all [] = Some ()"
| "free_all (t # ts) = do { _ \<leftarrow> free_all ts; sdsfree t }"

definition sdsfreesplitres :: "sdsmem option list option \<Rightarrow> unit option" where
  "sdsfreesplitres tokens = (case tokens of None \<Rightarrow> Some () | Some ts \<Rightarrow> free_all ts)"

text \<open>The \<^verbatim>\<open>cleanup\<close> label.\<close>

definition split_cleanup :: "sdsmem list \<Rightarrow> sdsmem list option option" where
  "split_cleanup tokens = do { _ \<leftarrow> free_all (map Some tokens); Some None }"

text \<open>\<^verbatim>\<open>tokens[elements] = sdsnewlen(s+start, n); if (tokens[elements] == NULL) goto cleanup; elements++;\<close>\<close>

definition add_token :: "(nat \<Rightarrow> bool) \<Rightarrow> ptr \<Rightarrow> nat \<Rightarrow> nat \<Rightarrow> sdsmem list \<Rightarrow> sdsmem list option option" where
  "add_token mal s start n tokens = do {
     p \<leftarrow> adv start s;
     t \<leftarrow> sdsnewlen_m mal (Init p) (of_nat n);
     case t of None \<Rightarrow> split_cleanup tokens | Some t \<Rightarrow> Some (Some (tokens @ [t])) }"

text \<open>\<^verbatim>\<open>slots *= 2\<close> when the array has no room for the next element and the final one.\<close>

definition grow_slots :: "(nat \<Rightarrow> bool) \<Rightarrow> int \<Rightarrow> nat \<Rightarrow> int option option" where
  "grow_slots mal slots elements =
     (if slots < int elements + 2
      then (if slots * 2 > INT_MAX then None
            else if \<not> mal (8 * nat (slots * 2)) then Some None else Some (Some (slots * 2)))
      else Some (Some slots))"

definition sep_at :: "ptr \<Rightarrow> nat \<Rightarrow> ptr \<Rightarrow> nat \<Rightarrow> bool option" where
  "sep_at s j sep seplen = do {
     p \<leftarrow> adv j s;
     c \<leftarrow> deref p;
     d \<leftarrow> deref sep;
     if seplen = 1 \<and> c = d then Some True
     else do { m \<leftarrow> memcmp (Some p) (Some sep) seplen; Some (m = 0) } }"

function split_loop ::
  "(nat \<Rightarrow> bool) \<Rightarrow> ptr \<Rightarrow> nat \<Rightarrow> ptr \<Rightarrow> nat \<Rightarrow> nat \<Rightarrow> nat \<Rightarrow> sdsmem list \<Rightarrow> int \<Rightarrow> sdsmem list option option" where
  "split_loop mal s n sep seplen j start tokens slots =
     (if seplen = 0 then None
      else if j + seplen \<le> n then do {
        r \<leftarrow> grow_slots mal slots (length tokens);
        case r of
          None \<Rightarrow> split_cleanup tokens
        | Some slots \<Rightarrow> do {
            hit \<leftarrow> sep_at s j sep seplen;
            if hit then do {
              r \<leftarrow> add_token mal s start (j - start) tokens;
              case r of
                None \<Rightarrow> Some None
              | Some tokens \<Rightarrow> split_loop mal s n sep seplen (j + seplen) (j + seplen) tokens slots }
            else split_loop mal s n sep seplen (j + 1) start tokens slots } }
      else add_token mal s start (n - start) tokens)"
  by auto
termination by (relation "measure (\<lambda>(mal, s, n, sep, seplen, j, start, tokens, slots). Suc n - j)") auto

declare split_loop.simps [simp del]

definition sdssplitlen :: "(nat \<Rightarrow> bool) \<Rightarrow> ptr \<Rightarrow> int \<Rightarrow> ptr \<Rightarrow> int \<Rightarrow> sdsmem list option option" where
  "sdssplitlen mal s n sep seplen =
     (if seplen < 1 \<or> n < 0 then Some None
      else if \<not> mal (8 * 5) then Some None
      else if n = 0 then Some (Some [])
      else split_loop mal s (nat n) sep (nat seplen) 0 0 [] 5)"

section \<open>Quoting\<close>

definition isprint :: "byte \<Rightarrow> bool" where "isprint c \<longleftrightarrow> 32 \<le> c \<and> c \<le> 126"
definition isspace :: "byte \<Rightarrow> bool" where "isspace c \<longleftrightarrow> c = 32 \<or> 9 \<le> c \<and> c \<le> 13"

text \<open>The output of the format \<^verbatim>\<open>\x%02x\<close>.\<close>

definition hex_digit :: "nat \<Rightarrow> byte" where
  "hex_digit n = of_nat (if n < 10 then 48 + n else 87 + n)"

definition hex_text :: "byte \<Rightarrow> byte list" where
  "hex_text c = [92, 120, hex_digit (unat c div 16), hex_digit (unat c mod 16)]"

definition repr_step :: "(nat \<Rightarrow> bool) \<Rightarrow> sdsmem \<Rightarrow> byte \<Rightarrow> sdsmem option option" where
  "repr_step mal s c =
     (if c = 92 \<or> c = 34 then sdscatprintf mal s 3 [92, c]
      else if c = 10 then sdscatlen mal s [92, 110, 0] 2
      else if c = 13 then sdscatlen mal s [92, 114, 0] 2
      else if c = 9 then sdscatlen mal s [92, 116, 0] 2
      else if c = 7 then sdscatlen mal s [92, 97, 0] 2
      else if c = 8 then sdscatlen mal s [92, 98, 0] 2
      else if isprint c then sdscatprintf mal s 2 [c]
      else sdscatprintf mal s 6 (hex_text c))"

text \<open>The loop; a \<open>NULL\<close> from one append is passed to the next, which dereferences it.\<close>

primrec repr_loop :: "(nat \<Rightarrow> bool) \<Rightarrow> byte list \<Rightarrow> sdsmem option \<Rightarrow> sdsmem option option" where
  "repr_loop mal [] s = Some s"
| "repr_loop mal (c # p) s = do { s \<leftarrow> s; s \<leftarrow> repr_step mal s c; repr_loop mal p s }"

definition sdscatrepr :: "(nat \<Rightarrow> bool) \<Rightarrow> sdsmem \<Rightarrow> ptr \<Rightarrow> u64 \<Rightarrow> sdsmem option option" where
  "sdscatrepr mal s p n = do {
     s \<leftarrow> sdscatlen mal s [34, 0] 1;
     (bs, _) \<leftarrow> memrd (unat n) p;
     s \<leftarrow> repr_loop mal bs s;
     s \<leftarrow> s;
     sdscatlen mal s [34, 0] 1 }"

section \<open>Splitting a command line\<close>

definition is_hex_digit :: "byte \<Rightarrow> bool" where
  "is_hex_digit c \<longleftrightarrow> 48 \<le> c \<and> c \<le> 57 \<or> 97 \<le> c \<and> c \<le> 102 \<or> 65 \<le> c \<and> c \<le> 70"

definition hex_digit_to_int :: "byte \<Rightarrow> nat" where
  "hex_digit_to_int c =
     (if 48 \<le> c \<and> c \<le> 57 then unat c - 48
      else if 97 \<le> c \<and> c \<le> 102 then unat c - 87
      else if 65 \<le> c \<and> c \<le> 70 then unat c - 55 else 0)"

definition unescape :: "byte \<Rightarrow> byte" where
  "unescape c = (if c = 110 then 10 else if c = 114 then 13 else if c = 116 then 9 else if c = 98 then 8 else if c = 97 then 7 else c)"

text \<open>\<^verbatim>\<open>current = sdscatlen(current, &c, 1);\<close> where \<open>current\<close> may be \<open>NULL\<close> after a refused allocation.\<close>

definition cat1 :: "(nat \<Rightarrow> bool) \<Rightarrow> sdsmem option \<Rightarrow> byte \<Rightarrow> sdsmem option option" where
  "cat1 mal current c = do { s \<leftarrow> current; sdscatlen mal s [c] 1 }"

text \<open>\<^verbatim>\<open>*(p+1) == 'x' && is_hex_digit(*(p+2)) && is_hex_digit(*(p+3))\<close>, for \<open>p\<close> behind the backslash.\<close>

definition hex_escape :: "ptr \<Rightarrow> bool option" where
  "hex_escape p = do {
     x \<leftarrow> deref p;
     if x \<noteq> 120 then Some False
     else do { a \<leftarrow> deref (drop 1 p);
               if \<not> is_hex_digit a then Some False
               else do { b \<leftarrow> deref (drop 2 p); Some (is_hex_digit b) } } }"

text \<open>The token loop in its three modes. A result \<open>Inl\<close> is the jump to \<^verbatim>\<open>err\<close>; \<open>Inr\<close> has the pointer after the token. Each mode reads one
  character, and the pointer stays on a terminator.\<close>

fun tok_dq :: "(nat \<Rightarrow> bool) \<Rightarrow> ptr \<Rightarrow> sdsmem option \<Rightarrow> (sdsmem option + ptr \<times> sdsmem option) option" where
  "tok_dq mal [] current = None"
| "tok_dq mal (c # p) current =
     (if c = 92 then do {
        h \<leftarrow> hex_escape p;
        x \<leftarrow> deref p;
        if h then do {
          a \<leftarrow> deref (drop 1 p);
          b \<leftarrow> deref (drop 2 p);
          current \<leftarrow> cat1 mal current (of_nat (hex_digit_to_int a * 16 + hex_digit_to_int b));
          tok_dq mal (drop 3 p) current }
        else if x \<noteq> 0 then do { current \<leftarrow> cat1 mal current (unescape x); tok_dq mal (drop 1 p) current }
        else do { current \<leftarrow> cat1 mal current c; tok_dq mal p current } }
      else if c = 34 then do { x \<leftarrow> deref p; if x \<noteq> 0 \<and> \<not> isspace x then Some (Inl current) else Some (Inr (p, current)) }
      else if c = 0 then Some (Inl current)
      else do { current \<leftarrow> cat1 mal current c; tok_dq mal p current })"

fun tok_sq :: "(nat \<Rightarrow> bool) \<Rightarrow> ptr \<Rightarrow> sdsmem option \<Rightarrow> (sdsmem option + ptr \<times> sdsmem option) option" where
  "tok_sq mal [] current = None"
| "tok_sq mal (c # p) current = do {
     esc \<leftarrow> (if c = 92 then do { x \<leftarrow> deref p; Some (x = 39) } else Some False);
     if esc then do { current \<leftarrow> cat1 mal current 39; tok_sq mal (drop 1 p) current }
     else if c = 39 then do { x \<leftarrow> deref p; if x \<noteq> 0 \<and> \<not> isspace x then Some (Inl current) else Some (Inr (p, current)) }
     else if c = 0 then Some (Inl current)
     else do { current \<leftarrow> cat1 mal current c; tok_sq mal p current } }"

fun tok_plain :: "(nat \<Rightarrow> bool) \<Rightarrow> ptr \<Rightarrow> sdsmem option \<Rightarrow> (sdsmem option + ptr \<times> sdsmem option) option" where
  "tok_plain mal [] current = None"
| "tok_plain mal (c # p) current =
     (if c = 32 \<or> c = 10 \<or> c = 13 \<or> c = 9 then Some (Inr (p, current))
      else if c = 0 then Some (Inr (c # p, current))
      else if c = 34 then tok_dq mal p current
      else if c = 39 then tok_sq mal p current
      else do { current \<leftarrow> cat1 mal current c; tok_plain mal p current })"

fun skip_blanks :: "ptr \<Rightarrow> ptr option" where
  "skip_blanks [] = None"
| "skip_blanks (c # p) = (if c \<noteq> 0 \<and> isspace c then skip_blanks p else Some (c # p))"

text \<open>Every token takes at least one character from the line.\<close>

lemma tok_dq_shrinks: "tok_dq mal p cur = Some (Inr (q, cur')) \<Longrightarrow> length q < length p"
proof (induction mal p cur rule: tok_dq.induct)
  case (2 mal c p cur)
  have "length (drop n p) < length (c # p)" for n by simp
  then show ?case using 2(5) 2(1) 2(2) 2(3) 2(4) less_trans
    by (auto split: if_splits bind_splits; fastforce)
qed simp

lemma tok_sq_shrinks: "tok_sq mal p cur = Some (Inr (q, cur')) \<Longrightarrow> length q < length p"
proof (induction mal p cur rule: tok_sq.induct)
  case (2 mal c p cur)
  then show ?case by (auto split: if_splits bind_splits; fastforce)
qed simp

declare tok_dq.simps [simp del] tok_sq.simps [simp del]

lemma tok_plain_le: "tok_plain mal p cur = Some (Inr (q, cur')) \<Longrightarrow> length q \<le> length p"
proof (induction mal p cur rule: tok_plain.induct)
  case (2 mal c p cur)
  then show ?case
    by (auto split: if_splits bind_splits dest!: tok_dq_shrinks tok_sq_shrinks intro: le_SucI)
qed simp

lemma tok_plain_shrinks: "tok_plain mal (c # p) cur = Some (Inr (q, cur')) \<Longrightarrow> c \<noteq> 0 \<Longrightarrow> length q < length (c # p)"
  by (auto split: if_splits bind_splits dest!: tok_dq_shrinks tok_sq_shrinks tok_plain_le)

lemma skip_blanks_shorter: "skip_blanks p = Some q \<Longrightarrow> length q \<le> length p"
  by (induction p) (auto split: if_splits dest: le_SucI)

text \<open>The outer loop. The array is reallocated for each token without a check; \<open>vector\<close> is \<open>None\<close> while it is \<open>NULL\<close>.\<close>

function splitargs_loop :: "(nat \<Rightarrow> bool) \<Rightarrow> ptr \<Rightarrow> sdsmem option list option \<Rightarrow> sdsmem option list option option" where
  "splitargs_loop mal p vec = do {
     p \<leftarrow> skip_blanks p;
     c \<leftarrow> deref p;
     if c \<noteq> 0 then do {
       current \<leftarrow> sdsempty mal;
       r \<leftarrow> tok_plain mal p current;
       let argv = (case vec of None \<Rightarrow> [] | Some vs \<Rightarrow> vs);
       case r of
         Inl current \<Rightarrow> do { _ \<leftarrow> free_all argv; _ \<leftarrow> sdsfree current; Some None }
       | Inr (p, current) \<Rightarrow>
           if \<not> mal (8 * (length argv + 1)) then None
           else splitargs_loop mal p (Some (argv @ [current])) }
     else (case vec of None \<Rightarrow> if mal 8 then Some (Some []) else Some None | Some vs \<Rightarrow> Some (Some vs)) }"
  by auto
termination
proof (relation "measure (\<lambda>(mal, p, vec). length p)")
  fix mal p q c and cur cur' :: "sdsmem option" and vec :: "sdsmem option list option" and argv r b q'
  assume "skip_blanks p = Some q" "deref q = Some c" "c \<noteq> 0" "tok_plain mal q cur = Some r" "r = Inr b" "(q', cur') = b"
  moreover from this obtain q1 where "q = c # q1" by (cases q) auto
  ultimately have "length q' < length q" "length q \<le> length p"
    using tok_plain_shrinks [of mal c q1 cur q' cur'] skip_blanks_shorter [of p q] by auto
  then show "((mal, q', Some (argv @ [cur'])), mal, p, vec) \<in> measure (\<lambda>(mal, p, vec). length p)" by simp
qed simp

declare splitargs_loop.simps [simp del]

definition sdssplitargs :: "(nat \<Rightarrow> bool) \<Rightarrow> ptr \<Rightarrow> sdsmem option list option option" where
  "sdssplitargs mal line = splitargs_loop mal line None"

section \<open>Correctness of the printf loop\<close>

lemma guard_write: "mem_write m [0] (replicate (m + 2) None) = Some (replicate m None @ [Some 0, None])"
proof -
  have "replicate (m + 2) None = replicate m None @ [None] @ [None :: byte option]"
    unfolding replicate_add by (simp add: numeral_2_eq_2)
  then show ?thesis by (simp only:) (subst mem_write_mid, simp_all)
qed

lemma vprintf_fits:
  assumes n: "unat buflen = m + 2" and out: "length out \<le> m"
  shows "\<exists>buf rest. vprintf_loop mal buflen out = Some (Some buf) \<and> block_ptr buf = out @ 0 # rest"
proof -
  let ?b = "replicate m None @ [Some 0, None] :: block"
  let ?c = "map Some (out @ [0]) @ drop (length out + 1) ?b"
  have "vsnprintf (m + 2) out ?b = Some ?c" using out by (simp add: vsnprintf_def mem_write_def)
  moreover have "cell m ?c = Some 0"
  proof (cases "length out = m")
    case True
    then show ?thesis by (simp add: cell_def nth_append)
  next
    case False
    then have "m < length ?c" "\<not> m < length (map Some (out @ [0]))" using out by auto
    then have "cell m ?c = ?b ! (length out + 1 + (m - (length out + 1)))"
      by (simp only: cell_def nth_append) (simp add: nth_append)
    then show ?thesis using False out by (simp add: nth_append)
  qed
  ultimately have "vprintf_loop mal buflen out = Some (Some ?c)"
    using n guard_write [of m] by (subst vprintf_loop.simps) (simp add: Let_def)
  moreover have "take (length out + 1) ?c = map Some (out @ [0])" by simp
  ultimately show ?thesis using block_ptr_prefix [of "length out + 1" ?c "out @ [0]"] by auto
qed

lemma vprintf_grows:
  assumes n: "unat buflen = m + 2" and out: "m < length out" "0 \<notin> set out"
  shows "vprintf_loop mal buflen out = (if \<not> mal (unat (buflen * 2)) then Some None else vprintf_loop mal (buflen * 2) out)"
proof -
  let ?b = "replicate m None @ [Some 0, None] :: block"
  let ?c = "map Some (take (m + 1) out @ [0])"
  have "vsnprintf (m + 2) out ?b = Some ?c" using out by (simp add: vsnprintf_def mem_write_def)
  moreover have "cell m ?c = Some (out ! m)" using out(1) by (simp add: cell_def nth_append)
  moreover have "out ! m \<noteq> 0" using out by (metis nth_mem)
  ultimately show ?thesis using n guard_write [of m] by (subst vprintf_loop.simps) (simp add: Let_def)
qed

lemma vprintf_returns:
  assumes "0 \<notin> set out" and "length out < 2 ^ 60" and "2 \<le> unat buflen" and "unat buflen < 2 ^ 62"
  shows "\<exists>buf rest. vprintf_loop (\<lambda>_. True) buflen out = Some (Some buf) \<and> block_ptr buf = out @ 0 # rest"
  using assms(3,4)
proof (induction "length out + 2 - unat buflen" arbitrary: buflen rule: less_induct)
  case less
  from less(2) obtain m where m: "unat buflen = m + 2" by (metis add.commute le_Suc_ex)
  show ?case
  proof (cases "length out \<le> m")
    case True
    then show ?thesis using vprintf_fits [OF m] by blast
  next
    case False
    have "unat (buflen * 2) = 2 * unat buflen" using less(3) by (simp add: unat_word_ariths)
    then have "\<exists>buf rest. vprintf_loop (\<lambda>_. True) (buflen * 2) out = Some (Some buf) \<and> block_ptr buf = out @ 0 # rest"
      using m less(3) False assms(2) by (intro less(1)) simp_all
    then show ?thesis using vprintf_grows [OF m _ assms(1), of "\<lambda>_. True"] False by simp
  qed
qed

lemma sdscatvprintf_appends:
  assumes "0 \<notin> set out" and "length out < 2 ^ 60" and "fmtlen < 2 ^ 60"
  shows "appends sds_rep (\<lambda>s. sdscatvprintf (\<lambda>_. True) s fmtlen out) out"
proof -
  have "unat ((of_nat fmtlen :: u64) * 2) = fmtlen * 2" using assms(3) unat_of_nat64 [of "fmtlen * 2"] by simp
  then have "\<exists>buf rest. (if (of_nat fmtlen :: u64) * 2 > 1024 then vprintf_loop (\<lambda>_. True) (of_nat fmtlen * 2) out else vprintf_loop (\<lambda>_. True) 1024 out)
      = Some (Some buf) \<and> block_ptr buf = out @ 0 # rest"
    using vprintf_returns [OF assms(1,2)] assms(3) by (simp add: word_less_nat_alt)
  then obtain buf rest where "(if (of_nat fmtlen :: u64) * 2 > 1024 then vprintf_loop (\<lambda>_. True) (of_nat fmtlen * 2) out else vprintf_loop (\<lambda>_. True) 1024 out)
      = Some (Some buf)" and b: "block_ptr buf = out @ 0 # rest" by blast
  then have "sdscatvprintf (\<lambda>_. True) s fmtlen out = sdscat (\<lambda>_. True) s (out @ 0 # rest)" for s
    by (cases "(of_nat fmtlen :: u64) * 2 > 1024") (simp_all add: sdscatvprintf_def Let_def)
  then show ?thesis using cstr_appends [OF assms(1), of rest] by simp
qed

section \<open>Correctness of quoting\<close>

definition repr_char :: "byte \<Rightarrow> byte list" where
  "repr_char c =
     (if c = 92 \<or> c = 34 then [92, c] else if c = 10 then [92, 110] else if c = 13 then [92, 114] else if c = 9 then [92, 116]
      else if c = 7 then [92, 97] else if c = 8 then [92, 98] else if isprint c then [c] else hex_text c)"

definition repr :: "byte list \<Rightarrow> byte list" where
  "repr xs = 34 # concat (map repr_char xs) @ [34]"

lemma hex_digit_range: "n < 16 \<Longrightarrow> unat (hex_digit n) = (if n < 10 then 48 + n else 87 + n)"
  by (simp add: hex_digit_def unsigned_of_nat take_bit_nat_eq_self del: of_nat_add)

lemma hex_digit_ok: "n < 16 \<Longrightarrow> is_hex_digit (hex_digit n) \<and> hex_digit_to_int (hex_digit n) = n \<and> hex_digit n \<noteq> 0"
  by (simp add: is_hex_digit_def hex_digit_to_int_def word_le_nat_alt word_unat_eq_iff hex_digit_range)

lemma byte_halves: "unat (c :: byte) div 16 < 16" "unat c mod 16 < 16" "(of_nat (unat c div 16 * 16 + unat c mod 16) :: byte) = c"
proof -
  have "unat c < 2 ^ LENGTH(8)" by (rule unsigned_less)
  then show "unat c div 16 < 16" by (simp add: less_mult_imp_div_less)
qed simp_all

lemma repr_step_appends: "appends sds_rep (\<lambda>s. repr_step (\<lambda>_. True) s c) (repr_char c)"
proof -
  have lit: "appends sds_rep (\<lambda>s. sdscatlen (\<lambda>_. True) s [92, x, 0] 2) [92, x]" for x
    using sds_text.cat_appends [of "[92, x]" "[0]"] by simp
  have pr: "appends sds_rep (\<lambda>s. sdscatprintf (\<lambda>_. True) s n out) out" if "0 \<notin> set out" "length out < 5" "n < 7" for n out
    using that sdscatvprintf_appends [of out n] by (simp add: sdscatprintf_def)
  have "0 \<notin> set (hex_text c)" using hex_digit_ok byte_halves(1,2) [of c] by (auto simp: hex_text_def)
  then have "appends sds_rep (\<lambda>s. sdscatprintf (\<lambda>_. True) s 6 (hex_text c)) (hex_text c)" by (rule pr) (simp_all add: hex_text_def)
  moreover have "isprint c \<Longrightarrow> c \<noteq> 0" by (auto simp: isprint_def)
  ultimately show ?thesis using lit pr [of "[c]" 2] pr [of "[92, 92]" 3] pr [of "[92, 34]" 3] by (simp add: repr_step_def repr_char_def)
qed

lemma repr_loop_appends: "appends sds_rep (\<lambda>s. repr_loop (\<lambda>_. True) bs (Some s)) (concat (map repr_char bs))"
proof (induction bs)
  case Nil
  then show ?case by (simp add: appends_def)
next
  case (Cons c bs)
  show ?case unfolding appends_def
  proof (intro allI impI)
    fix xs s
    assume s: "sds_rep xs s" and n: "length xs + length (concat (map repr_char (c # bs))) < 2 ^ 62"
    obtain s1 where s1: "repr_step (\<lambda>_. True) s c = Some (Some s1)" "sds_rep (xs @ repr_char c) s1"
      using appendsD [OF repr_step_appends s, of c] n by auto
    from appendsD [OF Cons.IH s1(2)] n s1(1)
    show "\<exists>s'. repr_loop (\<lambda>_. True) (c # bs) (Some s) = Some (Some s') \<and> sds_rep (xs @ concat (map repr_char (c # bs))) s'" by auto
  qed
qed

lemma sdscatrepr_appends:
  assumes "length bs < 2 ^ 62"
  shows "appends sds_rep (\<lambda>s. sdscatrepr (\<lambda>_. True) s (bs @ rest) (of_nat (length bs))) (repr bs)"
proof -
  have q: "appends sds_rep (\<lambda>s. sdscatlen (\<lambda>_. True) s [34, 0] 1) [34]"
    using sds_text.cat_appends [of "[34]" "[0]"] by simp
  have "unat (of_nat (length bs) :: u64) = length bs" using assms by (simp add: unat_of_nat64)
  then have "sdscatrepr (\<lambda>_. True) s (bs @ rest) (of_nat (length bs)) =
      do { r \<leftarrow> sdscatlen (\<lambda>_. True) s [34, 0] 1; r \<leftarrow> repr_loop (\<lambda>_. True) bs r; s \<leftarrow> r; sdscatlen (\<lambda>_. True) s [34, 0] 1 }" for s
    by (simp add: sdscatrepr_def)
  then show ?thesis unfolding appends_def
  proof (intro allI impI)
    fix xs s
    assume s: "sds_rep xs s" and n: "length xs + length (repr bs) < 2 ^ 62"
    obtain s1 where s1: "sdscatlen (\<lambda>_. True) s [34, 0] 1 = Some (Some s1)" "sds_rep (xs @ [34]) s1"
      using appendsD [OF q s] n by (auto simp: repr_def)
    have "length (xs @ [34]) + length (concat (map repr_char bs)) < 2 ^ 62" using n by (simp add: repr_def)
    from appendsD [OF repr_loop_appends s1(2) this] obtain s2 where
      s2: "repr_loop (\<lambda>_. True) bs (Some s1) = Some (Some s2)" "sds_rep ((xs @ [34]) @ concat (map repr_char bs)) s2" by blast
    have "length ((xs @ [34]) @ concat (map repr_char bs)) + length [34 :: byte] < 2 ^ 62" using n by (simp add: repr_def)
    from appendsD [OF q s2(2) this] s1(1) s2(1)
    show "\<exists>s'. sdscatrepr (\<lambda>_. True) s (bs @ rest) (of_nat (length bs)) = Some (Some s') \<and> sds_rep (xs @ repr bs) s'"
      using \<open>\<And>s. sdscatrepr _ s _ _ = _\<close> [of s] by (simp add: repr_def)
  qed
qed

section \<open>Correctness of the command line\<close>

lemma cat1_rep:
  assumes "sds_rep xs s" and "length xs + 1 < 2 ^ 62"
  shows "\<exists>s'. cat1 (\<lambda>_. True) (Some s) c = Some (Some s') \<and> sds_rep (xs @ [c]) s'"
  using appendsD [OF sds_text.cat_exact [of "[c]"] assms(1)] assms(2) by (simp add: cat1_def)

text \<open>In double quotes, the representation of a character is read as that character.\<close>

lemma tok_dq_char: "tok_dq mal (repr_char c @ p) cur = do { cur \<leftarrow> cat1 mal cur c; tok_dq mal p cur }"
proof -
  have esc: "tok_dq mal (92 # x # p) cur = do { cur \<leftarrow> cat1 mal cur (unescape x); tok_dq mal p cur }" if "x \<noteq> 120" "x \<noteq> 0" for x
    using that by (simp add: tok_dq.simps(2) [of mal 92] hex_escape_def)
  have hex: "tok_dq mal (hex_text c @ p) cur = do { cur \<leftarrow> cat1 mal cur c; tok_dq mal p cur }"
    using hex_digit_ok byte_halves [of c] by (simp add: hex_text_def tok_dq.simps(2) [of mal 92] hex_escape_def del: of_nat_add)
  have plain: "tok_dq mal (c # p) cur = do { cur \<leftarrow> cat1 mal cur c; tok_dq mal p cur }" if "isprint c" "c \<noteq> 92" "c \<noteq> 34"
    using that by (auto simp: tok_dq.simps(2) [of mal c] isprint_def)
  show ?thesis using esc [of 92] esc [of 34] esc [of 110] esc [of 114] esc [of 116] esc [of 97] esc [of 98] hex plain
    by (simp add: repr_char_def unescape_def)
qed

lemma tok_dq_repr:
  assumes "deref q = Some x" and "x = 0 \<or> isspace x" and "sds_rep ys s" and "length ys + length xs < 2 ^ 62"
  shows "\<exists>s'. tok_dq (\<lambda>_. True) (concat (map repr_char xs) @ 34 # q) (Some s) = Some (Inr (q, Some s')) \<and> sds_rep (ys @ xs) s'"
  using assms(3,4)
proof (induction xs arbitrary: ys s)
  case Nil
  then show ?case using assms(1,2) by (simp add: tok_dq.simps(2) [of _ 34])
next
  case (Cons c xs)
  obtain s1 where "cat1 (\<lambda>_. True) (Some s) c = Some (Some s1)" "sds_rep (ys @ [c]) s1" using cat1_rep [OF Cons.prems(1)] Cons.prems(2) by auto
  then show ?case using Cons.IH [of "ys @ [c]" s1] Cons.prems(2) by (simp add: tok_dq_char)
qed

definition args_are :: "byte list list \<Rightarrow> sdsmem option list \<Rightarrow> bool" where
  "args_are xss vs \<longleftrightarrow> list_all2 (\<lambda>v xs. \<exists>s. v = Some s \<and> sds_rep xs s) vs xss"

lemma splitargs_blank: "splitargs_loop mal (32 # p) vec = splitargs_loop mal p vec"
proof -
  have "skip_blanks (32 # p) = skip_blanks p" by (simp add: isspace_def)
  then show ?thesis by (simp only: splitargs_loop.simps [of mal "32 # p"] splitargs_loop.simps [of mal p])
qed

lemma splitargs_quoted:
  assumes "deref q = Some x" and "x = 0 \<or> isspace x" and "length xs < 2 ^ 62"
  shows "\<exists>s. splitargs_loop (\<lambda>_. True) (repr xs @ q) vec =
      splitargs_loop (\<lambda>_. True) q (Some ((case vec of None \<Rightarrow> [] | Some vs \<Rightarrow> vs) @ [Some s])) \<and> sds_rep xs s"
proof -
  obtain e where e: "sdsempty (\<lambda>_. True) = Some (Some e)" "sds_rep [] e" using sds_text.emp_rep by blast
  from tok_dq_repr [OF assms(1,2) e(2), of xs] assms(3) obtain s where
    "tok_dq (\<lambda>_. True) (concat (map repr_char xs) @ 34 # q) (Some e) = Some (Inr (q, Some s))" "sds_rep xs s" by auto
  moreover have "skip_blanks (repr xs @ q) = Some (repr xs @ q)" by (simp add: repr_def isspace_def)
  ultimately show ?thesis using e(1)
    by (subst splitargs_loop.simps) (auto simp: repr_def Let_def)
qed

lemma splitargs_joined:
  assumes "\<forall>xs \<in> set xss. length xs < 2 ^ 62"
  shows "\<exists>vs. splitargs_loop (\<lambda>_. True) (joined [32] (map repr xss) @ 0 # rest) vec =
      Some (Some ((case vec of None \<Rightarrow> [] | Some vs \<Rightarrow> vs) @ vs)) \<and> args_are xss vs"
  using assms
proof (induction xss arbitrary: vec)
  case Nil
  then show ?case by (subst splitargs_loop.simps) (auto simp: args_are_def split: option.split)
next
  case (Cons xs xss)
  let ?vs = "case vec of None \<Rightarrow> [] | Some vs \<Rightarrow> vs"
  define q where "q = (if xss = [] then 0 # rest else 32 # joined [32] (map repr xss) @ 0 # rest)"
  have line: "joined [32] (map repr (xs # xss)) @ 0 # rest = repr xs @ q" by (cases xss) (simp_all add: q_def)
  obtain x where "deref q = Some x" "x = 0 \<or> isspace x" by (cases "xss = []") (auto simp: q_def isspace_def)
  from splitargs_quoted [OF this, of xs vec] Cons.prems obtain s where
    s: "splitargs_loop (\<lambda>_. True) (repr xs @ q) vec = splitargs_loop (\<lambda>_. True) q (Some (?vs @ [Some s]))" "sds_rep xs s" by auto
  moreover have "splitargs_loop (\<lambda>_. True) q v = splitargs_loop (\<lambda>_. True) (joined [32] (map repr xss) @ 0 # rest) v" for v
    by (simp add: q_def splitargs_blank)
  moreover obtain vs where "splitargs_loop (\<lambda>_. True) (joined [32] (map repr xss) @ 0 # rest) (Some (?vs @ [Some s])) = Some (Some ((?vs @ [Some s]) @ vs))"
    "args_are xss vs" using Cons.IH [of "Some (?vs @ [Some s])"] Cons.prems by auto
  ultimately show ?case unfolding line by (intro exI [of _ "Some s # vs"]) (simp add: args_are_def)
qed

section \<open>Correctness of the split\<close>

definition occurs_in :: "'a list \<Rightarrow> 'a list \<Rightarrow> bool" where
  "occurs_in sep xs \<longleftrightarrow> (\<exists>i. i + length sep \<le> length xs \<and> take (length sep) (drop i xs) = sep)"

lemma sep_at_eq:
  assumes "j + length sep \<le> length s" and "sep \<noteq> []"
  shows "sep_at s j (sep @ r) (length sep) = Some (take (length sep) (drop j s) = sep)"
proof -
  obtain d ds where sep: "sep = d # ds" using assms(2) by (cases sep) auto
  obtain c cs where p: "drop j s = c # cs" using assms(1) sep by (cases "drop j s") auto
  have "length (take (length sep) (drop j s)) = length sep" using assms(1) by simp
  then have "bytes_cmp (take (length sep) (drop j s)) sep = 0 \<longleftrightarrow> take (length sep) (drop j s) = sep" by (rule bytes_cmp_0_iff)
  moreover have "length (drop j s) \<ge> length sep" using assms(1) by simp
  ultimately show ?thesis using assms(1) p sep by (auto simp: sep_at_def adv_def memcmp_def)
qed

abbreviation strings :: "sdsmem list \<Rightarrow> byte list list \<Rightarrow> bool" where
  "strings \<equiv> list_all2 (\<lambda>t ts. sds_rep ts t)"

lemma add_token_rep:
  assumes "start + m \<le> length xs" and "length xs < 2 ^ 62" and "strings tokens tss"
  shows "\<exists>toks. add_token (\<lambda>_. True) (xs @ rest) start m tokens = Some (Some toks) \<and> length toks = Suc (length tokens) \<and>
    strings toks (tss @ [take m (drop start xs)])"
proof -
  let ?ts = "take m (drop start xs)"
  have l: "length ?ts = m" "length ?ts < 2 ^ 62" using assms(1,2) by simp_all
  have "drop start (xs @ rest) = ?ts @ (drop m (drop start xs) @ rest)"
    using assms(1) by (simp del: drop_drop flip: append_assoc)
  then obtain t where "sdsnewlen_m (\<lambda>_. True) (Init (drop start (xs @ rest))) (of_nat m) = Some (Some t)" "sds_rep ?ts t"
    using sdsnewlen_rep [OF l(2), of "\<lambda>_. True" "drop m (drop start xs) @ rest"] unfolding l(1) by auto
  then show ?thesis using assms by (simp add: add_token_def adv_def list_all2_appendI)
qed

lemma grow_slots_ok: "elements < 2 ^ 29 \<Longrightarrow> \<exists>k. grow_slots (\<lambda>_. True) slots elements = Some (Some k)"
  by (auto simp: grow_slots_def INT_MAX_def)

lemma no_occurrence:
  assumes free: "\<forall>i. start \<le> i \<and> i < j \<longrightarrow> take (length sep) (drop i xs) \<noteq> sep"
    and m: "\<And>i. i + length sep \<le> m \<Longrightarrow> start + i < j"
  shows "\<not> occurs_in sep (take m (drop start xs))"
proof
  assume "occurs_in sep (take m (drop start xs))"
  then obtain i where i: "i + length sep \<le> length (take m (drop start xs))" "take (length sep) (drop i (take m (drop start xs))) = sep"
    by (auto simp: occurs_in_def)
  then have "i + length sep \<le> m" by simp
  then have "take (length sep) (drop i (take m (drop start xs))) = take (length sep) (drop (start + i) xs)"
    by (simp add: drop_take min_def add.commute)
  with free m [OF \<open>i + length sep \<le> m\<close>] i(2) show False by auto
qed

lemma split_loop_rep:
  assumes sep: "sep \<noteq> []" and n: "length xs < 2 ^ 29"
    and "start \<le> j" "start \<le> length xs" "strings tokens tss" "length tokens \<le> start"
    and "\<forall>i. start \<le> i \<and> i < j \<longrightarrow> take (length sep) (drop i xs) \<noteq> sep"
  shows "\<exists>toks new. split_loop (\<lambda>_. True) (xs @ rest) (length xs) (sep @ r) (length sep) j start tokens slots = Some (Some toks) \<and>
    strings toks (tss @ new) \<and> new \<noteq> [] \<and> joined sep new = drop start xs \<and> (\<forall>ts \<in> set new. \<not> occurs_in sep ts)"
  using assms(3-)
proof (induction "length xs + 1 - j" arbitrary: j start tokens tss slots rule: less_induct)
  case less
  note inv = less(2-6)
  have n62: "length xs < 2 ^ 62" using n by simp
  have k: "0 < length sep" using sep by simp
  show ?case
  proof (cases "j + length sep \<le> length xs")
    case False
    let ?ts = "take (length xs - start) (drop start xs)"
    have "\<not> occurs_in sep ?ts" using False inv(2) k by (intro no_occurrence [OF inv(5)]) simp
    moreover from add_token_rep [OF _ n62 inv(3), of start "length xs - start" rest] inv(2) obtain toks where
      "add_token (\<lambda>_. True) (xs @ rest) start (length xs - start) tokens = Some (Some toks)" "strings toks (tss @ [?ts])" by auto
    ultimately show ?thesis using False k
      by (subst split_loop.simps) (auto intro!: exI [of _ "[drop start xs]"])
  next
    case True
    obtain slots' where slots': "grow_slots (\<lambda>_. True) slots (length tokens) = Some (Some slots')"
      using grow_slots_ok [of "length tokens" slots] inv(2,4) n by auto
    have hit: "sep_at (xs @ rest) j (sep @ r) (length sep) = Some (take (length sep) (drop j xs) = sep)"
      using sep_at_eq [of j sep "xs @ rest" r] True sep by simp
    show ?thesis
    proof (cases "take (length sep) (drop j xs) = sep")
      case eq: True
      let ?ts = "take (j - start) (drop start xs)"
      have "start + (j - start) \<le> length xs" using True inv(1) by simp
      from add_token_rep [OF this n62 inv(3), of rest] obtain toks where
        t: "add_token (\<lambda>_. True) (xs @ rest) start (j - start) tokens = Some (Some toks)" "length toks = Suc (length tokens)" "strings toks (tss @ [?ts])" by blast
      have a1: "length xs + 1 - (j + length sep) < length xs + 1 - j" using True k by linarith
      have a2: "length toks \<le> j + length sep" using inv(1,4) t(2) k by linarith
      have "\<exists>toks' new. split_loop (\<lambda>_. True) (xs @ rest) (length xs) (sep @ r) (length sep) (j + length sep) (j + length sep) toks slots' = Some (Some toks') \<and>
        strings toks' ((tss @ [?ts]) @ new) \<and> new \<noteq> [] \<and> joined sep new = drop (j + length sep) xs \<and> (\<forall>ts \<in> set new. \<not> occurs_in sep ts)"
        using True inv t(3) by (intro less(1) [OF a1 order.refl _ _ a2]) auto
      then obtain toks' new where new: "split_loop (\<lambda>_. True) (xs @ rest) (length xs) (sep @ r) (length sep) (j + length sep) (j + length sep) toks slots' = Some (Some toks')"
        "strings toks' ((tss @ [?ts]) @ new)" "new \<noteq> []" "joined sep new = drop (j + length sep) xs" "\<forall>ts \<in> set new. \<not> occurs_in sep ts" by blast
      have "drop j xs = sep @ drop (j + length sep) xs"
        using append_take_drop_id [of "length sep" "drop j xs"] eq by (simp add: add.commute)
      moreover have "drop start xs = ?ts @ drop j xs" using append_take_drop_id [of "j - start" "drop start xs"] inv(1) by simp
      ultimately have "joined sep (?ts # new) = drop start xs" using new(3,4) by (cases new) auto
      moreover have "\<not> occurs_in sep ?ts" using k inv(1) by (intro no_occurrence [OF inv(5)]) linarith
      moreover have "split_loop (\<lambda>_. True) (xs @ rest) (length xs) (sep @ r) (length sep) j start tokens slots = Some (Some toks')"
        using True slots' hit eq t(1) new(1) k by (subst split_loop.simps) simp
      ultimately show ?thesis using new(2,5) by (intro exI [of _ toks'] exI [of _ "?ts # new"]) simp
    next
      case ne: False
      have "split_loop (\<lambda>_. True) (xs @ rest) (length xs) (sep @ r) (length sep) j start tokens slots =
          split_loop (\<lambda>_. True) (xs @ rest) (length xs) (sep @ r) (length sep) (j + 1) start tokens slots'"
        using True slots' hit ne k by (subst split_loop.simps) simp
      moreover have "\<forall>i. start \<le> i \<and> i < j + 1 \<longrightarrow> take (length sep) (drop i xs) \<noteq> sep" using inv(5) ne by (auto simp: less_Suc_eq)
      ultimately show ?thesis using less(1) [of "j + 1" start tokens tss slots'] True inv k by auto
    qed
  qed
qed

section \<open>Properties\<close>

text \<open>C15. Quoting and splitting are inverse: a line made of the quoted forms of any byte strings, zero bytes and quotes included, separated by
  blanks, is split back into exactly those strings. The quoted form is what \<^verbatim>\<open>sdscatrepr\<close> appends.\<close>

theorem repr_splitargs_roundtrip:
  assumes "\<forall>xs \<in> set xss. length xs < 2 ^ 59"
  shows "(\<forall>xs \<in> set xss. \<exists>e s. sdsempty (\<lambda>_. True) = Some (Some e) \<and>
        sdscatrepr (\<lambda>_. True) e xs (of_nat (length xs)) = Some (Some s) \<and> sds_rep (repr xs) s) \<and>
    (\<exists>vs. sdssplitargs (\<lambda>_. True) (joined [32] (map repr xss) @ [0]) = Some (Some vs) \<and> args_are xss vs)"
proof (intro conjI ballI)
  fix xs
  assume "xs \<in> set xss"
  with assms have n: "length xs < 2 ^ 59" by blast
  have "length (repr_char c) \<le> 4" for c by (simp add: repr_char_def hex_text_def)
  then have "length (concat (map repr_char xs)) \<le> 4 * length xs" by (induction xs) (auto simp: add_mono)
  then have "length (repr xs) < 2 ^ 62" using n by (simp add: repr_def)
  moreover obtain e where "sdsempty (\<lambda>_. True) = Some (Some e)" "sds_rep [] e" using sds_text.emp_rep by blast
  moreover have "length xs < 2 ^ 62" using n by simp
  ultimately show "\<exists>e s. sdsempty (\<lambda>_. True) = Some (Some e) \<and>
      sdscatrepr (\<lambda>_. True) e xs (of_nat (length xs)) = Some (Some s) \<and> sds_rep (repr xs) s"
    using appendsD [OF sdscatrepr_appends [of xs "[]"], of "[]" e] by simp
next
  have "\<forall>xs \<in> set xss. length xs < 2 ^ 62" using assms by (auto intro: less_trans)
  from splitargs_joined [OF this, of "[]" None]
  show "\<exists>vs. sdssplitargs (\<lambda>_. True) (joined [32] (map repr xss) @ [0]) = Some (Some vs) \<and> args_are xss vs"
    by (simp add: sdssplitargs_def)
qed

theorem repr_splitargs_roundtrip_witness:
  "\<exists>vs. sdssplitargs (\<lambda>_. True) [34, 92, 120, 48, 48, 92, 34, 34, 32, 34, 97, 34, 0] = Some (Some vs) \<and> args_are [[0, 34], [97]] vs"
proof -
  have "joined [32] (map repr [[0, 34], [97]]) @ [0] = [34, 92, 120, 48, 48, 92, 34, 34, 32, 34, 97, 34, 0 :: byte]"
    by (simp add: repr_def repr_char_def hex_text_def hex_digit_def isprint_def)
  then show ?thesis using repr_splitargs_roundtrip [of "[[0, 34], [97]]"] by simp
qed

text \<open>C16. \<^verbatim>\<open>sdssplitlen\<close> and \<^verbatim>\<open>sdsjoinsds\<close> are inverse: joining the pieces with the separator gives the text back, and no piece contains the
  separator, so the split is complete. Every read stays within the text, the array of pieces grows as needed, and the call returns.\<close>

theorem split_join_roundtrip:
  assumes "xs \<noteq> []" and "sep \<noteq> []" and "length xs < 2 ^ 29" and "length sep < 2 ^ 31"
  shows "\<exists>toks tss s. sdssplitlen (\<lambda>_. True) xs (int (length xs)) sep (int (length sep)) = Some (Some toks) \<and>
    strings toks tss \<and> (\<forall>ts \<in> set tss. \<not> occurs_in sep ts) \<and>
    sdsjoinsds (\<lambda>_. True) toks sep (of_nat (length sep)) = Some (Some s) \<and> sds_rep xs s"
proof -
  from split_loop_rep [OF assms(2,3), of 0 0 "[]" "[]" "[]" "[]" 5] obtain toks tss where
    t: "split_loop (\<lambda>_. True) xs (length xs) sep (length sep) 0 0 [] 5 = Some (Some toks)"
    "strings toks tss" "joined sep tss = xs" "\<forall>ts \<in> set tss. \<not> occurs_in sep ts" by auto
  have pos: "\<not> int (length sep) < 1" using assms(2) by (cases sep) simp_all
  have "sdssplitlen (\<lambda>_. True) xs (int (length xs)) sep (int (length sep)) = Some (Some toks)"
    using t(1) assms(1) pos by (simp add: sdssplitlen_def)
  moreover have "length (joined sep tss) < 2 ^ 62" using t(3) assms(3) by simp
  from sdsjoinsds_rep [OF t(2) this, of "[]"] t(3) obtain s where
    "sdsjoinsds (\<lambda>_. True) toks sep (of_nat (length sep)) = Some (Some s)" "sds_rep xs s" by auto
  ultimately show ?thesis using t(2,4) by blast
qed

theorem split_join_roundtrip_witness:
  "\<exists>toks tss s. sdssplitlen (\<lambda>_. True) [97, 44, 98, 44] 4 [44] 1 = Some (Some toks) \<and> strings toks tss \<and>
     (\<forall>ts \<in> set tss. \<not> occurs_in [44] ts) \<and> sdsjoinsds (\<lambda>_. True) toks [44] 1 = Some (Some s) \<and> sds_rep [97, 44, 98, 44] s"
  using split_join_roundtrip [of "[97, 44, 98, 44]" "[44]"] by simp

end
