(* ===== verification/Tickets.thy ===== *)
theory Tickets
  imports Main
begin

text \<open>
  The ticket discipline behind the ring buffer of \<^verbatim>\<open>src/fibers/queue.c\<close>, with unbounded counters. The
  \<open>q\<close>-th successful push holds ticket \<open>q\<close> and uses cell \<open>q mod N\<close>, and so does the \<open>q\<close>-th successful pop. A
  cell's sequence number says what the cell is for: \<open>q\<close> means free for push \<open>q\<close> (or being filled by it), \<open>q + 1\<close>
  means it holds what push \<open>q\<close> wrote (or is being emptied by pop \<open>q\<close>). The theory \<open>Ringbuf\<close> shows that the C code
  follows this discipline.
\<close>

record ('t, 'a) tickets =
  issued :: nat
  served :: nat
  sq :: "nat \<Rightarrow> nat"
  dat :: "nat \<Rightarrow> 'a"
  log :: "'a list"
  pusher :: "'t \<Rightarrow> nat option"
  popper :: "'t \<Rightarrow> nat option"

text \<open>The four phases of cell \<open>i\<close> with ticket \<open>q\<close>: free, being filled, full, being emptied.\<close>

definition is_free :: "nat \<Rightarrow> ('t, 'a) tickets \<Rightarrow> nat \<Rightarrow> nat \<Rightarrow> bool" where
  "is_free N a i q \<longleftrightarrow> sq a i = q \<and> issued a \<le> q \<and> q < served a + N"

definition is_filling :: "('t, 'a) tickets \<Rightarrow> nat \<Rightarrow> nat \<Rightarrow> bool" where
  "is_filling a i q \<longleftrightarrow> sq a i = q \<and> served a \<le> q \<and> q < issued a \<and> (\<exists>t. pusher a t = Some q)"

definition is_full :: "('t, 'a) tickets \<Rightarrow> nat \<Rightarrow> nat \<Rightarrow> bool" where
  "is_full a i q \<longleftrightarrow> sq a i = q + 1 \<and> served a \<le> q \<and> q < issued a \<and> dat a i = log a ! q"

definition is_emptying :: "nat \<Rightarrow> ('t, 'a) tickets \<Rightarrow> nat \<Rightarrow> nat \<Rightarrow> bool" where
  "is_emptying N a i q \<longleftrightarrow>
     sq a i = q + 1 \<and> q < served a \<and> issued a \<le> q + N \<and> dat a i = log a ! q \<and> (\<exists>t. popper a t = Some q)"

definition phase :: "nat \<Rightarrow> ('t, 'a) tickets \<Rightarrow> nat \<Rightarrow> nat \<Rightarrow> bool" where
  "phase N a i q \<longleftrightarrow> is_free N a i q \<or> is_filling a i q \<or> is_full a i q \<or> is_emptying N a i q"

lemmas phase_defs = phase_def is_free_def is_filling_def is_full_def is_emptying_def

definition owners_ok :: "nat \<Rightarrow> ('t, 'a) tickets \<Rightarrow> bool" where
  "owners_ok N a \<longleftrightarrow>
     (\<forall>t q. pusher a t = Some q \<longrightarrow> q < issued a \<and> sq a (q mod N) = q) \<and>
     (\<forall>t q. popper a t = Some q \<longrightarrow> q < served a \<and> sq a (q mod N) = q + 1) \<and>
     (\<forall>t u q. pusher a t = Some q \<longrightarrow> pusher a u = Some q \<longrightarrow> t = u) \<and>
     (\<forall>t u q. popper a t = Some q \<longrightarrow> popper a u = Some q \<longrightarrow> t = u)"

definition ok :: "nat \<Rightarrow> ('t, 'a) tickets \<Rightarrow> bool" where
  "ok N a \<longleftrightarrow>
     2 \<le> N \<and> issued a = length (log a) \<and> served a \<le> issued a \<and> issued a \<le> served a + N \<and>
     (\<forall>i<N. \<exists>q. q mod N = i \<and> phase N a i q) \<and> owners_ok N a"

section \<open>Arithmetic of cells\<close>

lemma mod_Suc_neq: "2 \<le> N \<Longrightarrow> q mod N \<noteq> Suc q mod (N :: nat)"
  by (auto simp: mod_Suc split: if_splits)

lemma mod_window: "p mod N = q mod (N :: nat) \<Longrightarrow> p \<le> q \<Longrightarrow> q < p + N \<Longrightarrow> p = q"
proof -
  assume eq: "p mod N = q mod N" and le: "p \<le> q" and lt: "q < p + N"
  then obtain k where k: "q = p + N * k" by (metis mod_eq_nat1E)
  with lt have "k = 0" by (cases k) auto
  with k show "p = q" by simp
qed

text \<open>The sequence number and the cell determine the ticket.\<close>

lemma phase_ticket:
  assumes "2 \<le> N" and "phase N a i q" and "q mod N = i" and "r mod N = i" and "sq a i = r"
  shows "q = r" "sq a i = q" "\<not> is_full a i q" "\<not> is_emptying N a i q"
proof -
  have "q + 1 \<noteq> r" using assms mod_Suc_neq [OF assms(1), of q] by auto
  with assms(2,5) show "q = r" "sq a i = q" "\<not> is_full a i q" "\<not> is_emptying N a i q"
    by (auto simp: phase_defs)
qed

lemma phase_ticket_Suc:
  assumes "2 \<le> N" and "phase N a i q" and "q mod N = i" and "r mod N = i" and "sq a i = r + 1"
  shows "q = r" "\<not> is_free N a i q" "\<not> is_filling a i q"
proof -
  have "q \<noteq> r + 1" using assms mod_Suc_neq [OF assms(1), of r] by auto
  with assms(2,5) show "q = r" "\<not> is_free N a i q" "\<not> is_filling a i q"
    by (auto simp: phase_defs)
qed

lemma ok_phase: "ok N a \<Longrightarrow> \<exists>q. q mod N = r mod N \<and> phase N a (r mod N) q"
  by (auto simp: ok_def)

lemma ok_size: "ok N a \<Longrightarrow> 2 \<le> N"
  by (simp add: ok_def)

text \<open>No cell is used for a ticket outside the window of the last \<open>N\<close> pushes and the next ones.\<close>

lemma phase_window: "ok N a \<Longrightarrow> phase N a i q \<Longrightarrow> issued a \<le> q + N \<and> q < served a + N"
  by (auto simp: ok_def phase_defs)

lemma at_seq_free:
  assumes "ok N a" and "sq a (issued a mod N) = issued a"
  shows "is_free N a (issued a mod N) (issued a)"
proof -
  obtain q where q: "q mod N = issued a mod N" "phase N a (issued a mod N) q" using ok_phase [OF assms(1)] by blast
  have "q = issued a" using phase_ticket(1) [OF ok_size [OF assms(1)] q(2,1) refl assms(2)] .
  with q(2) phase_ticket(3,4) [OF ok_size [OF assms(1)] q(2,1) refl assms(2)] show ?thesis
    by (auto simp: phase_def is_filling_def)
qed

lemma at_seq_full:
  assumes "ok N a" and "sq a (served a mod N) = served a + 1"
  shows "is_full a (served a mod N) (served a)"
proof -
  obtain q where q: "q mod N = served a mod N" "phase N a (served a mod N) q" using ok_phase [OF assms(1)] by blast
  have "q = served a" using phase_ticket_Suc(1) [OF ok_size [OF assms(1)] q(2,1) refl assms(2)] .
  with q(2) phase_ticket_Suc(2,3) [OF ok_size [OF assms(1)] q(2,1) refl assms(2)] show ?thesis
    by (auto simp: phase_def is_emptying_def)
qed

lemma at_pusher:
  assumes "ok N a" and "pusher a t = Some q"
  shows "is_filling a (q mod N) q"
proof -
  have o: "q < issued a" "sq a (q mod N) = q" using assms by (auto simp: ok_def owners_ok_def)
  obtain r where r: "r mod N = q mod N" "phase N a (q mod N) r" using ok_phase [OF assms(1)] by blast
  have "r = q" using phase_ticket(1) [OF ok_size [OF assms(1)] r(2,1) refl o(2)] .
  with r(2) phase_ticket(3,4) [OF ok_size [OF assms(1)] r(2,1) refl o(2)] o(1) show ?thesis
    by (auto simp: phase_def is_free_def)
qed

lemma at_popper:
  assumes "ok N a" and "popper a t = Some q"
  shows "is_emptying N a (q mod N) q"
proof -
  have o: "q < served a" "sq a (q mod N) = q + 1" using assms by (auto simp: ok_def owners_ok_def)
  obtain r where r: "r mod N = q mod N" "phase N a (q mod N) r" using ok_phase [OF assms(1)] by blast
  have "r = q" using phase_ticket_Suc(1) [OF ok_size [OF assms(1)] r(2,1) refl o(2)] .
  with r(2) phase_ticket_Suc(2,3) [OF ok_size [OF assms(1)] r(2,1) refl o(2)] o(1) show ?thesis
    by (auto simp: phase_def is_full_def)
qed

lemma pusherD: "ok N a \<Longrightarrow> pusher a t = Some q \<Longrightarrow> q < issued a \<and> sq a (q mod N) = q"
  by (auto simp: ok_def owners_ok_def)

lemma popperD: "ok N a \<Longrightarrow> popper a t = Some q \<Longrightarrow> q < served a \<and> sq a (q mod N) = q + 1"
  by (auto simp: ok_def owners_ok_def)

lemma pusher_unique: "ok N a \<Longrightarrow> pusher a t = Some q \<Longrightarrow> pusher a u = Some q \<Longrightarrow> t = u"
  unfolding ok_def owners_ok_def by blast

lemma popper_unique: "ok N a \<Longrightarrow> popper a t = Some q \<Longrightarrow> popper a u = Some q \<Longrightarrow> t = u"
  unfolding ok_def owners_ok_def by blast

text \<open>Two owners never share a cell.\<close>

lemma pushers_apart:
  "ok N a \<Longrightarrow> pusher a t = Some q \<Longrightarrow> pusher a u = Some r \<Longrightarrow> t \<noteq> u \<Longrightarrow> r mod N \<noteq> q mod N"
  by (metis pusherD pusher_unique)

lemma poppers_apart:
  "ok N a \<Longrightarrow> popper a t = Some q \<Longrightarrow> popper a u = Some r \<Longrightarrow> t \<noteq> u \<Longrightarrow> r mod N \<noteq> q mod N"
  by (metis popperD popper_unique add_right_cancel)

lemma pusher_popper_apart:
  "ok N a \<Longrightarrow> pusher a t = Some q \<Longrightarrow> popper a u = Some r \<Longrightarrow> r mod N \<noteq> q mod N"
  by (metis pusherD popperD mod_Suc_neq ok_size Suc_eq_plus1)

lemma other_owner: "f u = Some r \<Longrightarrow> f t \<noteq> Some r \<Longrightarrow> \<exists>u. (f(t := x)) u = Some r"
  by (intro exI [of _ u]) auto

lemma phase_frame:
  assumes "phase N a i r" and "sq b i = sq a i" and "dat b i = dat a i"
    and "issued b = issued a" and "served b = served a" and "log b = log a"
    and "\<And>t. pusher a t = Some r \<Longrightarrow> \<exists>t. pusher b t = Some r"
    and "\<And>t. popper a t = Some r \<Longrightarrow> \<exists>t. popper b t = Some r"
  shows "phase N b i r"
  using assms unfolding phase_defs by metis

section \<open>The moves\<close>

definition claim_push :: "'t \<Rightarrow> 'a \<Rightarrow> ('t, 'a) tickets \<Rightarrow> ('t, 'a) tickets" where
  "claim_push t v a = a\<lparr>issued := issued a + 1, log := log a @ [v], pusher := (pusher a)(t := Some (issued a))\<rparr>"

definition fill :: "nat \<Rightarrow> nat \<Rightarrow> 'a \<Rightarrow> ('t, 'a) tickets \<Rightarrow> ('t, 'a) tickets" where
  "fill N q v a = a\<lparr>dat := (dat a)(q mod N := v)\<rparr>"

definition publish :: "nat \<Rightarrow> 't \<Rightarrow> nat \<Rightarrow> ('t, 'a) tickets \<Rightarrow> ('t, 'a) tickets" where
  "publish N t q a = a\<lparr>sq := (sq a)(q mod N := q + 1), pusher := (pusher a)(t := None)\<rparr>"

definition claim_pop :: "'t \<Rightarrow> ('t, 'a) tickets \<Rightarrow> ('t, 'a) tickets" where
  "claim_pop t a = a\<lparr>served := served a + 1, popper := (popper a)(t := Some (served a))\<rparr>"

definition release :: "nat \<Rightarrow> 't \<Rightarrow> nat \<Rightarrow> ('t, 'a) tickets \<Rightarrow> ('t, 'a) tickets" where
  "release N t q a = a\<lparr>sq := (sq a)(q mod N := q + N), popper := (popper a)(t := None)\<rparr>"

lemma ok_claim_push:
  assumes ok: "ok N a" and sq: "sq a (issued a mod N) = issued a" and t: "pusher a t = None"
  shows "ok N (claim_push t v a)"
proof -
  have free: "issued a < served a + N" using at_seq_free [OF ok sq] by (simp add: is_free_def)
  have len: "issued a = length (log a)" and le: "served a \<le> issued a" using ok by (simp_all add: ok_def)
  have "\<exists>q. q mod N = i \<and> phase N (claim_push t v a) i q" if "i < N" for i
  proof (cases "i = issued a mod N")
    case True
    then have "phase N (claim_push t v a) i (issued a)"
      using sq ok by (auto simp: phase_def is_filling_def claim_push_def ok_def)
    with True show ?thesis by blast
  next
    case False
    from ok \<open>i < N\<close> obtain q where q: "q mod N = i" "phase N a i q" by (auto simp: ok_def)
    have "q \<noteq> issued a" "q + N \<noteq> issued a" using q(1) False mod_add_self2 [of q N] by metis+
    then have "phase N (claim_push t v a) i q"
      using q(2) other_owner [of "pusher a" _ q t] len t le
      unfolding phase_def is_free_def is_full_def is_emptying_def is_filling_def claim_push_def
      by (elim disjE conjE exE) (auto simp: nth_append)
    with q(1) show ?thesis by blast
  qed
  moreover have "owners_ok N (claim_push t v a)"
    unfolding owners_ok_def claim_push_def
    using pusherD [OF ok] popperD [OF ok] pusher_unique [OF ok] popper_unique [OF ok] sq
    by (auto simp: less_Suc_eq)
  ultimately show ?thesis using ok free by (auto simp: ok_def claim_push_def)
qed

lemma ok_fill:
  assumes ok: "ok N a" and t: "pusher a t = Some q"
  shows "ok N (fill N q v a)"
proof -
  have "\<exists>r. r mod N = i \<and> phase N (fill N q v a) i r" if "i < N" for i
  proof (cases "i = q mod N")
    case True
    then have "phase N (fill N q v a) i q"
      using at_pusher [OF ok t] by (auto simp: phase_def is_filling_def fill_def)
    with True show ?thesis by blast
  next
    case False
    from ok \<open>i < N\<close> obtain r where "r mod N = i" "phase N a i r" by (auto simp: ok_def)
    with False show ?thesis by (auto simp: phase_defs fill_def)
  qed
  then show ?thesis using ok by (auto simp: ok_def fill_def owners_ok_def)
qed

lemma ok_publish:
  assumes ok: "ok N a" and t: "pusher a t = Some q" and d: "dat a (q mod N) = log a ! q"
  shows "ok N (publish N t q a)"
proof -
  note q = at_pusher [OF ok t]
  have "\<exists>r. r mod N = i \<and> phase N (publish N t q a) i r" if "i < N" for i
  proof (cases "i = q mod N")
    case True
    then have "phase N (publish N t q a) i q"
      using q d by (auto simp: phase_def is_filling_def is_full_def publish_def)
    with True show ?thesis by blast
  next
    case False
    from ok \<open>i < N\<close> obtain r where r: "r mod N = i" "phase N a i r" by (auto simp: ok_def)
    have "r \<noteq> q" using r(1) False by auto
    then have "phase N (publish N t q a) i r"
      using r(2) False t other_owner [of "pusher a" _ r t]
      by (elim phase_frame) (simp_all add: publish_def del: fun_upd_apply, auto)
    with r(1) show ?thesis by blast
  qed
  moreover have "owners_ok N (publish N t q a)"
    unfolding owners_ok_def publish_def
    using pusherD [OF ok] popperD [OF ok] pusher_unique [OF ok] popper_unique [OF ok] pushers_apart [OF ok t]
      pusher_popper_apart [OF ok t] by auto
  ultimately show ?thesis using ok by (auto simp: ok_def publish_def)
qed

lemma ok_claim_pop:
  assumes ok: "ok N a" and sq: "sq a (served a mod N) = served a + 1" and t: "popper a t = None"
  shows "ok N (claim_pop t a)" "served a < issued a"
proof -
  note full = at_seq_full [OF ok sq]
  then show lt: "served a < issued a" by (simp add: is_full_def)
  have "\<exists>q. q mod N = i \<and> phase N (claim_pop t a) i q" if "i < N" for i
  proof (cases "i = served a mod N")
    case True
    then have "phase N (claim_pop t a) i (served a)"
      using full ok by (auto simp: phase_def is_full_def is_emptying_def claim_pop_def ok_def)
    with True show ?thesis by blast
  next
    case False
    from ok \<open>i < N\<close> obtain q where q: "q mod N = i" "phase N a i q" by (auto simp: ok_def)
    have "q \<noteq> served a" using q(1) False by auto
    then have "phase N (claim_pop t a) i q" 
      using q(2) other_owner [of "popper a" _ q t] t
      unfolding phase_def is_free_def is_full_def is_emptying_def is_filling_def claim_pop_def
      by (elim disjE conjE exE) auto
    with q(1) show ?thesis by blast
  qed
  moreover have "owners_ok N (claim_pop t a)"
    unfolding owners_ok_def claim_pop_def
    using pusherD [OF ok] popperD [OF ok] pusher_unique [OF ok] popper_unique [OF ok] sq
    by (auto simp: less_Suc_eq)
  ultimately show "ok N (claim_pop t a)" using ok lt by (auto simp: ok_def claim_pop_def)
qed

lemma ok_release:
  assumes ok: "ok N a" and t: "popper a t = Some q"
  shows "ok N (release N t q a)"
proof -
  note q = at_popper [OF ok t]
  have "\<exists>r. r mod N = i \<and> phase N (release N t q a) i r" if "i < N" for i
  proof (cases "i = q mod N")
    case True
    then have "phase N (release N t q a) i (q + N)"
      using q ok by (auto simp: phase_def is_free_def is_emptying_def release_def ok_def)
    with True show ?thesis by (intro exI [of _ "q + N"]) simp
  next
    case False
    from ok \<open>i < N\<close> obtain r where r: "r mod N = i" "phase N a i r" by (auto simp: ok_def)
    have "r \<noteq> q" using r(1) False by auto
    then have "phase N (release N t q a) i r"
      using r(2) False t other_owner [of "popper a" _ r t]
      by (elim phase_frame) (simp_all add: release_def del: fun_upd_apply, auto)
    with r(1) show ?thesis by blast
  qed
  moreover have "owners_ok N (release N t q a)"
    unfolding owners_ok_def release_def
    using pusherD [OF ok] popperD [OF ok] pusher_unique [OF ok] popper_unique [OF ok] poppers_apart [OF ok t]
      pusher_popper_apart [OF ok _ t, THEN not_sym] by auto
  ultimately show ?thesis using ok by (auto simp: ok_def release_def)
qed

end
