(* ===== verification/Ringbuf.thy ===== *)
theory Ringbuf
  imports Prelude Tickets
begin

text \<open>
  The bounded multi-producer multi-consumer queue of \<^verbatim>\<open>src/fibers/queue.c\<close>. A thread inside \<^verbatim>\<open>vgc_push\<close> or \<^verbatim>\<open>vgc_pop\<close> is a
  program counter with its local variables (\<open>pc\<close>); \<open>thread_step\<close> executes up to and including the next access to
  memory that is shared, so that every interleaving of the threads' accesses is a sequence of such steps. A weak
  compare-and-exchange may fail for no reason, which the first argument of \<open>thread_step\<close> decides. Memory is
  sequentially consistent in the model; the plain accesses to \<^verbatim>\<open>cell->data\<close> are shown to be free of data races.
  Counters are 64-bit words: the invariant holds for up to \<open>2\<^sup>6\<^sup>2\<close> pushes, and it follows the ticket
  discipline of the theory \<open>Tickets\<close>.
\<close>

section \<open>The code\<close>

record 'a cell =
  seq :: u64
  cdata :: 'a

record 'a ringbuf =
  bufmask :: u64
  buf :: "'a cell list"
  head :: u64
  tail :: u64

text \<open>\<^verbatim>\<open>vgc_ringbuf_init(buf, size)\<close>: the cells are memory of the caller, at least \<open>size\<close> of them.\<close>

definition vgc_ringbuf_init :: "'a cell list \<Rightarrow> u64 \<Rightarrow> 'a ringbuf option" where
  "vgc_ringbuf_init cells sz =
     (if unat sz \<le> length cells
      then Some \<lparr>bufmask = sz - 1,
                 buf = map (\<lambda>i. (cells ! i)\<lparr>seq := of_nat i\<rparr>) [0..<unat sz], head = 0, tail = 0\<rparr>
      else None)"

text \<open>Where a thread stands: before which access, with \<open>pos\<close> and the data it carries.\<close>

datatype 'a pc =
    Idle
  | PushLoad 'a
  | PushSeq 'a u64
  | PushCas 'a u64
  | PushData 'a u64
  | PushStore 'a u64
  | PushRet int
  | PopLoad
  | PopSeq u64
  | PopCas u64
  | PopData u64
  | PopStore u64 'a
  | PopRet int "'a option"

definition cell_at :: "'a ringbuf \<Rightarrow> u64 \<Rightarrow> nat" where
  "cell_at rb pos = unat (pos AND bufmask rb)"

definition set_seq :: "u64 \<Rightarrow> u64 \<Rightarrow> 'a ringbuf \<Rightarrow> 'a ringbuf" where
  "set_seq pos v rb =
     rb\<lparr>buf := (buf rb)[cell_at rb pos := (buf rb ! cell_at rb pos)\<lparr>seq := v\<rparr>]\<rparr>"

definition set_data :: "u64 \<Rightarrow> 'a \<Rightarrow> 'a ringbuf \<Rightarrow> 'a ringbuf" where
  "set_data pos v rb =
     rb\<lparr>buf := (buf rb)[cell_at rb pos := (buf rb ! cell_at rb pos)\<lparr>cdata := v\<rparr>]\<rparr>"

text \<open>\<^verbatim>\<open>(intptr_t) seq - (intptr_t) pos\<close>.\<close>

definition dif :: "'a ringbuf \<Rightarrow> u64 \<Rightarrow> u64 \<Rightarrow> int" where
  "dif rb pos expected = sint (seq (buf rb ! cell_at rb pos)) - sint expected"

fun thread_step :: "bool \<Rightarrow> 'a ringbuf \<Rightarrow> 'a pc \<Rightarrow> 'a pc \<times> 'a ringbuf" where
  "thread_step spurious rb (PushLoad v) = (PushSeq v (tail rb), rb)"
| "thread_step spurious rb (PushSeq v pos) =
     (let d = dif rb pos pos in
      (if d = 0 then PushCas v pos else if d < 0 then PushRet (- 1) else PushLoad v, rb))"
| "thread_step spurious rb (PushCas v pos) =
     (if tail rb = pos \<and> \<not> spurious then (PushData v pos, rb\<lparr>tail := pos + 1\<rparr>)
      else (PushSeq v (tail rb), rb))"
| "thread_step spurious rb (PushData v pos) = (PushStore v pos, set_data pos v rb)"
| "thread_step spurious rb (PushStore v pos) = (PushRet 0, set_seq pos (pos + 1) rb)"
| "thread_step spurious rb (PushRet r) = (Idle, rb)"
| "thread_step spurious rb PopLoad = (PopSeq (head rb), rb)"
| "thread_step spurious rb (PopSeq pos) =
     (let d = dif rb pos (pos + 1) in
      (if d = 0 then PopCas pos else if d < 0 then PopRet (- 1) None else PopLoad, rb))"
| "thread_step spurious rb (PopCas pos) =
     (if head rb = pos \<and> \<not> spurious then (PopData pos, rb\<lparr>head := pos + 1\<rparr>)
      else (PopSeq (head rb), rb))"
| "thread_step spurious rb (PopData pos) = (PopStore pos (cdata (buf rb ! cell_at rb pos)), rb)"
| "thread_step spurious rb (PopStore pos v) = (PopRet 0 (Some v), set_seq pos (pos + bufmask rb + 1) rb)"
| "thread_step spurious rb (PopRet r v) = (Idle, rb)"
| "thread_step spurious rb Idle = (Idle, rb)"

section \<open>Interleavings\<close>

text \<open>
  The shared ring, the threads, and two logs kept for the statements only: the values in the order in which
  their tickets were claimed, and for every value that was read the ticket it was read with.
\<close>

record 'a sys =
  ring :: "'a ringbuf"
  pcs :: "nat \<Rightarrow> 'a pc"
  pushed :: "'a list"
  returned :: "(nat \<times> 'a) list"

definition log_push :: "'a pc \<Rightarrow> 'a pc \<Rightarrow> 'a list \<Rightarrow> 'a list" where
  "log_push p p' xs = (case (p, p') of (PushCas v _, PushData _ _) \<Rightarrow> xs @ [v] | _ \<Rightarrow> xs)"

definition log_pop :: "'a pc \<Rightarrow> (nat \<times> 'a) list \<Rightarrow> (nat \<times> 'a) list" where
  "log_pop p' xs = (case p' of PopStore pos v \<Rightarrow> xs @ [(unat pos, v)] | _ \<Rightarrow> xs)"

inductive step :: "'a sys \<Rightarrow> 'a sys \<Rightarrow> bool" where
  call_push: "pcs s t = Idle \<Longrightarrow> step s (s\<lparr>pcs := (pcs s)(t := PushLoad v)\<rparr>)"
| call_pop: "pcs s t = Idle \<Longrightarrow> step s (s\<lparr>pcs := (pcs s)(t := PopLoad)\<rparr>)"
| run: "pcs s t \<noteq> Idle \<Longrightarrow> thread_step spurious (ring s) (pcs s t) = (p, rb) \<Longrightarrow>
    step s \<lparr>ring = rb, pcs = (pcs s)(t := p), pushed = log_push (pcs s t) p (pushed s),
            returned = log_pop p (returned s)\<rparr>"

definition start_sys :: "'a ringbuf \<Rightarrow> 'a sys" where
  "start_sys rb = \<lparr>ring = rb, pcs = \<lambda>_. Idle, pushed = [], returned = []\<rparr>"

abbreviation reachable :: "'a ringbuf \<Rightarrow> 'a sys \<Rightarrow> bool" where
  "reachable rb \<equiv> step\<^sup>*\<^sup>* (start_sys rb)"

section \<open>The tickets of a state\<close>

fun push_ticket :: "'a pc \<Rightarrow> nat option" where
  "push_ticket (PushData v pos) = Some (unat pos)"
| "push_ticket (PushStore v pos) = Some (unat pos)"
| "push_ticket _ = None"

fun pop_ticket :: "'a pc \<Rightarrow> nat option" where
  "pop_ticket (PopData pos) = Some (unat pos)"
| "pop_ticket (PopStore pos v) = Some (unat pos)"
| "pop_ticket _ = None"

definition tick :: "'a sys \<Rightarrow> (nat, 'a) tickets" where
  "tick s = \<lparr>issued = unat (tail (ring s)), served = unat (head (ring s)),
     sq = \<lambda>i. unat (seq (buf (ring s) ! i)), dat = \<lambda>i. cdata (buf (ring s) ! i), log = pushed s,
     pusher = \<lambda>t. push_ticket (pcs s t), popper = \<lambda>t. pop_ticket (pcs s t)\<rparr>"

text \<open>What is known at each program point, in terms of the tickets.\<close>

fun pc_ok :: "nat \<Rightarrow> (nat, 'a) tickets \<Rightarrow> 'a pc \<Rightarrow> bool" where
  "pc_ok N a (PushSeq v pos) = (unat pos \<le> issued a)"
| "pc_ok N a (PushCas v pos) =
     (unat pos \<le> issued a \<and> (unat pos = issued a \<longrightarrow> sq a (issued a mod N) = issued a))"
| "pc_ok N a (PushData v pos) = (log a ! unat pos = v)"
| "pc_ok N a (PushStore v pos) = (log a ! unat pos = v \<and> dat a (unat pos mod N) = v)"
| "pc_ok N a (PopSeq pos) = (unat pos \<le> served a)"
| "pc_ok N a (PopCas pos) =
     (unat pos \<le> served a \<and> (unat pos = served a \<longrightarrow> sq a (served a mod N) = served a + 1))"
| "pc_ok N a (PopStore pos v) = (log a ! unat pos = v)"
| "pc_ok N a _ = True"

definition shape :: "nat \<Rightarrow> 'a ringbuf \<Rightarrow> bool" where
  "shape k rb \<longleftrightarrow> 1 \<le> k \<and> k \<le> 32 \<and> bufmask rb = mask k \<and> length (buf rb) = 2 ^ k"

definition readers :: "(nat \<Rightarrow> 'a pc) \<Rightarrow> u64 set" where
  "readers f = {pos. \<exists>t. f t = PopData pos}"

definition returns_ok :: "'a sys \<Rightarrow> bool" where
  "returns_ok s \<longleftrightarrow>
     (\<forall>(q, v) \<in> set (returned s). q < unat (head (ring s)) \<and> v = pushed s ! q) \<and>
     distinct (map fst (returned s)) \<and>
     (\<forall>q < unat (head (ring s)). q \<in> fst ` set (returned s) \<longleftrightarrow> of_nat q \<notin> readers (pcs s))"

definition ring_inv :: "nat \<Rightarrow> 'a sys \<Rightarrow> bool" where
  "ring_inv k s \<longleftrightarrow>
     shape k (ring s) \<and> ok (2 ^ k) (tick s) \<and> length (pushed s) < 2 ^ 62 \<and>
     (\<forall>t. pc_ok (2 ^ k) (tick s) (pcs s t)) \<and> returns_ok s"

section \<open>Words that stay in range\<close>

lemma sint_small: "unat (w :: u64) < 2 ^ 63 \<Longrightarrow> sint w = int (unat w)"
proof -
  assume "unat w < 2 ^ 63"
  then have "int (unat w) < int (2 ^ 63)" by (simp only: of_nat_less_iff)
  then have u: "uint w < 2 ^ 63" by simp
  have "0 \<le> uint w" by simp
  then have u': "- (2 ^ 63) \<le> uint w" by (rule order_trans [rotated]) simp
  have "sint w = signed_take_bit (64 - 1) (uint w)" by (simp add: sint_uint)
  also have "\<dots> = uint w" using u u' by (intro signed_take_bit_int_eq_self) simp_all
  finally show ?thesis by simp
qed

lemma unat_plus: "unat (w :: u64) + unat v < 2 ^ 64 \<Longrightarrow> unat (w + v) = unat w + unat v"
  by (simp add: unat_word_ariths)

lemma unat_Suc: "unat (w :: u64) < 2 ^ 63 \<Longrightarrow> unat (w + 1) = unat w + 1"
  using unat_plus [of w 1] by simp

lemma unat_mask64: "k \<le> 32 \<Longrightarrow> unat (mask k :: u64) = 2 ^ k - 1"
proof -
  assume "k \<le> 32"
  then have "uint (mask k :: u64) = int (2 ^ k - 1)"
    unfolding uint_mask_eq by (simp add: mask_eq_exp_minus_1 of_nat_diff)
  then show ?thesis by (simp only: unat_eq_nat_uint nat_int)
qed

lemma cell_at_mod: "shape k rb \<Longrightarrow> cell_at rb pos = unat pos mod 2 ^ k"
  unfolding shape_def cell_at_def by (metis take_bit_eq_mask unsigned_take_bit_eq take_bit_eq_mod)

lemma cell_at_bound: "shape k rb \<Longrightarrow> cell_at rb pos < length (buf rb)"
  using cell_at_mod [of k rb pos] by (auto simp: shape_def)

section \<open>Moves of other threads keep what a thread knows\<close>

lemma pc_ok_claim_push:
  assumes "ok N a" and "pc_ok N a p" and "push_ticket p = pusher a u" and "pop_ticket p = popper a u"
  shows "pc_ok N (claim_push t v a) p"
proof -
  have "issued a = length (log a)" "served a \<le> issued a" using assms(1) by (simp_all add: ok_def)
  then have "push_ticket p = Some q \<Longrightarrow> q < length (log a)" "pop_ticket p = Some q \<Longrightarrow> q < length (log a)" for q
    using assms(3,4) pusherD [OF assms(1), of u] popperD [OF assms(1), of u] by auto
  with \<open>issued a = length (log a)\<close> assms(2) show ?thesis by (cases p) (auto simp: claim_push_def nth_append)
qed

lemma pc_ok_fill:
  assumes "ok N a" and "pc_ok N a p" and "push_ticket p = pusher a u" and "pusher a t = Some q" and "t \<noteq> u"
  shows "pc_ok N (fill N q v a) p"
  using assms pushers_apart [OF assms(1,4), of u] by (cases p) (auto simp: fill_def)

lemma pc_ok_publish:
  assumes "ok N a" and "pc_ok N a p" and "pusher a t = Some q"
  shows "pc_ok N (publish N t q a) p"
proof -
  have "q < issued a" "sq a (q mod N) = q" using pusherD [OF assms(1,3)] by simp_all
  then have "q mod N = issued a mod N \<Longrightarrow> sq a (issued a mod N) \<noteq> issued a"
    "q mod N = served a mod N \<Longrightarrow> sq a (served a mod N) \<noteq> served a + 1"
    using mod_Suc_neq [OF ok_size [OF assms(1)], of "served a"] by auto
  then show ?thesis using assms(2) by (cases p) (auto simp: publish_def)
qed

lemma pc_ok_claim_pop: "pc_ok N a p \<Longrightarrow> pc_ok N (claim_pop t a) p"
  by (cases p) (auto simp: claim_pop_def)

lemma pc_ok_release:
  assumes "ok N a" and "pc_ok N a p" and "popper a t = Some q"
  shows "pc_ok N (release N t q a) p"
proof -
  have "q < served a" "sq a (q mod N) = q + 1" using popperD [OF assms(1,3)] by simp_all
  then have "q mod N = issued a mod N \<Longrightarrow> sq a (issued a mod N) \<noteq> issued a"
    "q mod N = served a mod N \<Longrightarrow> sq a (served a mod N) \<noteq> served a + 1"
    using mod_Suc_neq [OF ok_size [OF assms(1)], of q] by auto
  then show ?thesis using assms(2) by (cases p) (auto simp: release_def)
qed

section \<open>The invariant holds in every reachable state\<close>

lemma tick_simps [simp]:
  "issued (tick s) = unat (tail (ring s))" "served (tick s) = unat (head (ring s))"
  "sq (tick s) i = unat (seq (buf (ring s) ! i))" "dat (tick s) i = cdata (buf (ring s) ! i)"
  "log (tick s) = pushed s" "pusher (tick s) t = push_ticket (pcs s t)" "popper (tick s) t = pop_ticket (pcs s t)"
  by (simp_all add: tick_def)

lemma invD:
  assumes "ring_inv k s"
  shows "shape k (ring s)" "ok (2 ^ k) (tick s)" "pc_ok (2 ^ k) (tick s) (pcs s t)"
    "unat (tail (ring s)) = length (pushed s)" "unat (tail (ring s)) < 2 ^ 62"
    "unat (head (ring s)) \<le> unat (tail (ring s))" "returns_ok s"
  using assms by (auto simp: ring_inv_def ok_def)

lemma seq_range:
  assumes "ring_inv k s" and "i < 2 ^ k"
  shows "unat (seq (buf (ring s) ! i)) < 2 ^ 63"
proof -
  have "k \<le> 32" using invD(1) [OF assms(1)] by (simp add: shape_def)
  then have "(2 :: nat) ^ k \<le> 2 ^ 32" by (intro power_increasing) simp_all
  moreover obtain q where "phase (2 ^ k) (tick s) i q" using invD(2) [OF assms(1)] assms(2) by (auto simp: ok_def)
  then have "unat (seq (buf (ring s) ! i)) \<le> unat (tail (ring s)) + 2 ^ k"
    using invD(2) [OF assms(1)] unfolding phase_defs ok_def by auto
  ultimately show ?thesis using invD(5) [OF assms(1)] by simp
qed

lemma dif_exact:
  assumes "ring_inv k s" and "unat e < 2 ^ 63"
  shows "dif (ring s) pos e = int (sq (tick s) (unat pos mod 2 ^ k)) - int (unat e)"
  using seq_range [OF assms(1), of "unat pos mod 2 ^ k"] assms(2)
  by (simp add: dif_def cell_at_mod [OF invD(1) [OF assms(1)]] sint_small del: of_nat_unat)

lemma readers_same:
  "(\<And>x. f t \<noteq> PopData x) \<Longrightarrow> (\<And>x. p \<noteq> PopData x) \<Longrightarrow> readers (f(t := p)) = readers f"
  unfolding readers_def by (metis fun_upd_other fun_upd_same)

lemma readers_enter:
  assumes "\<And>x. f t \<noteq> PopData x"
  shows "readers (f(t := PopData pos)) = insert pos (readers f)"
proof (rule set_eqI)
  fix x
  show "x \<in> readers (f(t := PopData pos)) \<longleftrightarrow> x \<in> insert pos (readers f)"
    unfolding readers_def insert_iff mem_Collect_eq fun_upd_apply using assms by (metis pc.inject(9))
qed

lemma readers_leave:
  assumes "f t = PopData pos" and "\<And>u. f u = PopData pos \<Longrightarrow> u = t" and "\<And>x. p \<noteq> PopData x"
  shows "readers (f(t := p)) = readers f - {pos}"
proof (rule set_eqI)
  fix x
  show "x \<in> readers (f(t := p)) \<longleftrightarrow> x \<in> readers f - {pos}"
    unfolding readers_def Diff_iff singleton_iff mem_Collect_eq fun_upd_apply using assms by (metis pc.inject(9))
qed

lemma inv_local:
  assumes "ring_inv k s" and "push_ticket (pcs s t) = None" and "pop_ticket (pcs s t) = None"
    and "push_ticket p = None" and "pop_ticket p = None" and "pc_ok (2 ^ k) (tick s) p"
  shows "ring_inv k (s\<lparr>pcs := (pcs s)(t := p)\<rparr>)"
proof -
  have "tick (s\<lparr>pcs := (pcs s)(t := p)\<rparr>) = tick s"
    using assms(2-5) by (auto simp: tick_def fun_eq_iff)
  moreover have "readers ((pcs s)(t := p)) = readers (pcs s)"
    using assms(3,5) by (intro readers_same) auto
  ultimately show ?thesis using assms(1,6) by (simp add: ring_inv_def returns_ok_def)
qed

lemma inv_call_push: "ring_inv k s \<Longrightarrow> pcs s t = Idle \<Longrightarrow> ring_inv k (s\<lparr>pcs := (pcs s)(t := PushLoad v)\<rparr>)"
  by (rule inv_local) simp_all

lemma inv_call_pop: "ring_inv k s \<Longrightarrow> pcs s t = Idle \<Longrightarrow> ring_inv k (s\<lparr>pcs := (pcs s)(t := PopLoad)\<rparr>)"
  by (rule inv_local) simp_all

text \<open>The steps that change the ring, each as a move of the ticket discipline.\<close>

lemma inv_push_cas:
  assumes inv: "ring_inv k s" and t: "pcs s t = PushCas v pos" and pos: "tail (ring s) = pos"
    and bound: "length (pushed s) + 1 < 2 ^ 62"
  shows "ring_inv k (s\<lparr>ring := (ring s)\<lparr>tail := pos + 1\<rparr>, pcs := (pcs s)(t := PushData v pos), pushed := pushed s @ [v]\<rparr>)"
    (is "ring_inv k ?s")
proof -
  note ok = invD(2) [OF inv]
  have tick: "tick ?s = claim_push t v (tick s)"
    using invD(5) [OF inv] t by (auto simp: tick_def claim_push_def fun_eq_iff pos unat_Suc)
  have sq: "sq (tick s) (issued (tick s) mod 2 ^ k) = issued (tick s)"
    using invD(3) [OF inv, of t] t pos by simp
  have "ok (2 ^ k) (tick ?s)" unfolding tick using t by (intro ok_claim_push [OF ok sq]) simp
  moreover have "pc_ok (2 ^ k) (tick ?s) (pcs ?s u)" for u
  proof (cases "u = t")
    case True
    then show ?thesis using invD(4) [OF inv] pos by simp
  next
    case False
    then show ?thesis unfolding tick using invD(3) [OF inv, of u]
      by (simp add: pc_ok_claim_push [OF ok, of "pcs s u" u])
  qed
  moreover have "returns_ok ?s"
  proof -
    have "readers (pcs ?s) = readers (pcs s)" using t by (simp add: readers_same)
    moreover have "q < unat (head (ring s)) \<Longrightarrow> q < length (pushed s)" for q using invD(4,6) [OF inv] by simp
    ultimately show ?thesis using invD(7) [OF inv] by (auto simp: returns_ok_def nth_append)
  qed
  ultimately show ?thesis using invD(1) [OF inv] bound by (simp add: ring_inv_def shape_def)
qed

lemma inv_push_data:
  assumes inv: "ring_inv k s" and t: "pcs s t = PushData v pos"
  shows "ring_inv k (s\<lparr>ring := set_data pos v (ring s), pcs := (pcs s)(t := PushStore v pos)\<rparr>)" (is "ring_inv k ?s")
proof -
  note ok = invD(2) [OF inv] and shape = invD(1) [OF inv]
  have tick: "tick ?s = fill (2 ^ k) (unat pos) v (tick s)"
    using cell_at_bound [OF shape, of pos] t
    by (auto simp: tick_def fill_def fun_eq_iff set_data_def cell_at_mod [OF shape] nth_list_update)
  have own: "pusher (tick s) t = Some (unat pos)" using t by simp
  have "ok (2 ^ k) (tick ?s)" unfolding tick by (rule ok_fill [OF ok own])
  moreover have "pc_ok (2 ^ k) (tick ?s) (pcs ?s u)" for u
  proof (cases "u = t")
    case True
    then show ?thesis unfolding tick using invD(3) [OF inv, of t] t by (simp add: fill_def)
  next
    case False
    then show ?thesis unfolding tick using invD(3) [OF inv, of u]
      by (simp add: pc_ok_fill [OF ok, of "pcs s u" u t, OF _ _ own])
  qed
  moreover have "returns_ok ?s"
  proof -
    have "readers (pcs ?s) = readers (pcs s)" using t by (simp add: readers_same)
    then show ?thesis using invD(7) [OF inv] by (auto simp: returns_ok_def set_data_def)
  qed
  moreover have "shape k (ring ?s)" using shape by (simp add: shape_def set_data_def)
  ultimately show ?thesis using inv by (simp add: ring_inv_def)
qed

lemma inv_push_store:
  assumes inv: "ring_inv k s" and t: "pcs s t = PushStore v pos"
  shows "ring_inv k (s\<lparr>ring := set_seq pos (pos + 1) (ring s), pcs := (pcs s)(t := PushRet 0)\<rparr>)" (is "ring_inv k ?s")
proof -
  note ok = invD(2) [OF inv] and shape = invD(1) [OF inv]
  have own: "pusher (tick s) t = Some (unat pos)" using t by simp
  have "unat pos < 2 ^ 62" using pusherD [OF ok own] invD(5) [OF inv] by simp
  then have tick: "tick ?s = publish (2 ^ k) t (unat pos) (tick s)"
    using cell_at_bound [OF shape, of pos] t
    by (auto simp: tick_def publish_def fun_eq_iff set_seq_def cell_at_mod [OF shape] nth_list_update unat_Suc)
  have "dat (tick s) (unat pos mod 2 ^ k) = log (tick s) ! unat pos" using invD(3) [OF inv, of t] t by simp
  then have "ok (2 ^ k) (tick ?s)" unfolding tick by (rule ok_publish [OF ok own])
  moreover have "pc_ok (2 ^ k) (tick ?s) (pcs ?s u)" for u
    unfolding tick using pc_ok_publish [OF ok invD(3) [OF inv, of u] own] by (cases "u = t") simp_all
  moreover have "returns_ok ?s"
    using invD(7) [OF inv] t by (simp add: returns_ok_def set_seq_def readers_same)
  moreover have "shape k (ring ?s)" using shape by (simp add: shape_def set_seq_def)
  ultimately show ?thesis using inv by (simp add: ring_inv_def)
qed

lemma of_nat_unat_iff: "q < 2 ^ 64 \<Longrightarrow> of_nat q = (w :: u64) \<longleftrightarrow> q = unat w"
  using unat_of_nat64 [of q] by auto

lemma inv_pop_cas:
  assumes inv: "ring_inv k s" and t: "pcs s t = PopCas pos" and pos: "head (ring s) = pos"
  shows "ring_inv k (s\<lparr>ring := (ring s)\<lparr>head := pos + 1\<rparr>, pcs := (pcs s)(t := PopData pos)\<rparr>)" (is "ring_inv k ?s")
proof -
  note ok = invD(2) [OF inv] and range = invD(5,6) [OF inv]
  have tick: "tick ?s = claim_pop t (tick s)"
    using range t by (auto simp: tick_def claim_pop_def fun_eq_iff pos unat_Suc)
  have sq: "sq (tick s) (served (tick s) mod 2 ^ k) = served (tick s) + 1"
    using invD(3) [OF inv, of t] t pos by simp
  have free: "popper (tick s) t = None" using t by simp
  have "ok (2 ^ k) (tick ?s)" unfolding tick by (rule ok_claim_pop(1) [OF ok sq free])
  moreover have "pc_ok (2 ^ k) (tick ?s) (pcs ?s u)" for u
    unfolding tick using pc_ok_claim_pop [OF invD(3) [OF inv, of u]] by (cases "u = t") simp_all
  moreover have "returns_ok ?s"
  proof -
    have upd: "readers ((pcs s)(t := PopData pos)) = insert pos (readers (pcs s))"
      using t by (intro readers_enter) simp
    have "unat (pos + 1) = unat pos + 1" using range pos by (simp add: unat_Suc)
    moreover have "of_nat q = pos \<longleftrightarrow> q = unat pos" if "q \<le> unat pos" for q
      using that range pos by (intro of_nat_unat_iff) simp
    ultimately show ?thesis
      using invD(7) [OF inv] pos by (auto simp: returns_ok_def upd less_Suc_eq)
  qed
  ultimately show ?thesis using inv by (simp add: ring_inv_def shape_def)
qed

lemma inv_pop_data:
  assumes inv: "ring_inv k s" and t: "pcs s t = PopData pos"
  shows "ring_inv k (s\<lparr>pcs := (pcs s)(t := PopStore pos (cdata (buf (ring s) ! cell_at (ring s) pos))),
    returned := returned s @ [(unat pos, cdata (buf (ring s) ! cell_at (ring s) pos))]\<rparr>)" (is "ring_inv k ?s")
proof -
  note ok = invD(2) [OF inv] and shape = invD(1) [OF inv] and range = invD(5,6) [OF inv]
  let ?v = "cdata (buf (ring s) ! cell_at (ring s) pos)"
  have tick: "tick ?s = tick s" using t by (auto simp: tick_def fun_eq_iff)
  have own: "popper (tick s) t = Some (unat pos)" using t by simp
  have v: "?v = pushed s ! unat pos" and lt: "unat pos < unat (head (ring s))"
    using at_popper [OF ok own] unfolding is_emptying_def cell_at_mod [OF shape] tick_simps by blast+
  have "pc_ok (2 ^ k) (tick ?s) (pcs ?s u)" for u
    unfolding tick using invD(3) [OF inv, of u] v by (cases "u = t") simp_all
  moreover have "returns_ok ?s"
  proof -
    have other: "u = t" if "pcs s u = PopData pos" for u
      using popper_unique [OF ok own, of u] that by simp
    have upd: "readers ((pcs s)(t := PopStore pos ?v)) = readers (pcs s) - {pos}"
      by (rule readers_leave [of "pcs s" t pos, OF t other]) simp_all
    have pos: "pos \<in> readers (pcs s)" using t by (auto simp: readers_def)
    have eq: "of_nat q = pos \<longleftrightarrow> q = unat pos" if "q < unat (head (ring s))" for q
      using that range by (intro of_nat_unat_iff) simp
    note ret = invD(7) [OF inv, unfolded returns_ok_def]
    have fresh: "unat pos \<notin> fst ` set (returned s)" using ret pos lt by simp
    have "q \<in> insert (unat pos) (fst ` set (returned s)) \<longleftrightarrow> of_nat q \<notin> readers (pcs s) - {pos}"
      if "q < unat (head (ring s))" for q
      using ret that eq [OF that] pos by (cases "q = unat pos") simp_all
    with ret fresh v lt show ?thesis by (simp add: returns_ok_def upd [unfolded v])
  qed
  ultimately show ?thesis using inv tick by (simp add: ring_inv_def)
qed

lemma inv_pop_store:
  assumes inv: "ring_inv k s" and t: "pcs s t = PopStore pos v"
  shows "ring_inv k (s\<lparr>ring := set_seq pos (pos + bufmask (ring s) + 1) (ring s), pcs := (pcs s)(t := PopRet 0 (Some v))\<rparr>)"
    (is "ring_inv k ?s")
proof -
  note ok = invD(2) [OF inv] and shape = invD(1) [OF inv]
  have own: "popper (tick s) t = Some (unat pos)" using t by simp
  have pos: "unat pos < 2 ^ 62" using popperD [OF ok own] invD(5,6) [OF inv] by simp
  have k: "k \<le> 32" using shape by (simp add: shape_def)
  then have "(2 :: nat) ^ k \<le> 2 ^ 32" by (intro power_increasing) simp_all
  moreover have "unat (pos + (bufmask (ring s) + 1)) = unat pos + 2 ^ k" if "(2 :: nat) ^ k \<le> 2 ^ 32"
  proof -
    have m: "unat (bufmask (ring s) + 1) = 2 ^ k"
      using that k shape by (subst unat_Suc) (simp_all add: shape_def unat_mask64)
    show ?thesis using that pos by (subst unat_plus) (simp_all add: m)
  qed
  ultimately have "unat (pos + bufmask (ring s) + 1) = unat pos + 2 ^ k" by (simp add: add.assoc)
  then have tick: "tick ?s = release (2 ^ k) t (unat pos) (tick s)"
    using cell_at_bound [OF shape, of pos] t
    by (auto simp: tick_def release_def fun_eq_iff set_seq_def cell_at_mod [OF shape] nth_list_update)
  have "ok (2 ^ k) (tick ?s)" unfolding tick by (rule ok_release [OF ok own])
  moreover have "pc_ok (2 ^ k) (tick ?s) (pcs ?s u)" for u
    unfolding tick using pc_ok_release [OF ok invD(3) [OF inv, of u] own] by (cases "u = t") simp_all
  moreover have "returns_ok ?s"
    using invD(7) [OF inv] t by (simp add: returns_ok_def set_seq_def readers_same)
  moreover have "shape k (ring ?s)" using shape by (simp add: shape_def set_seq_def)
  ultimately show ?thesis using inv by (simp add: ring_inv_def)
qed

section \<open>Every reachable state\<close>

lemma sys_eta:
  "s\<lparr>ring := r, pcs := f, pushed := xs\<rparr> = \<lparr>ring = r, pcs = f, pushed = xs, returned = returned s\<rparr>"
  "s\<lparr>ring := r, pcs := f\<rparr> = \<lparr>ring = r, pcs = f, pushed = pushed s, returned = returned s\<rparr>"
  "s\<lparr>pcs := f, returned := ys\<rparr> = \<lparr>ring = ring s, pcs = f, pushed = pushed s, returned = ys\<rparr>"
  for s :: "'a sys"
  by simp_all

lemma inv_run:
  assumes inv: "ring_inv k s" and run: "thread_step spurious (ring s) (pcs s t) = (p, rb)"
    and bound: "length (log_push (pcs s t) p (pushed s)) < 2 ^ 62"
  shows "ring_inv k \<lparr>ring = rb, pcs = (pcs s)(t := p), pushed = log_push (pcs s t) p (pushed s),
            returned = log_pop p (returned s)\<rparr>" (is "ring_inv k ?s")
proof -
  have local: "ring_inv k ?s"
    if "rb = ring s" "log_push (pcs s t) p (pushed s) = pushed s" "log_pop p (returned s) = returned s"
      "push_ticket (pcs s t) = None" "pop_ticket (pcs s t) = None" "push_ticket p = None" "pop_ticket p = None"
      "pc_ok (2 ^ k) (tick s) p"
  proof -
    have "?s = s\<lparr>pcs := (pcs s)(t := p)\<rparr>" using that(1-3) by simp
    with inv_local [OF inv that(4-8)] show ?thesis by (simp only:)
  qed
  have range: "unat (tail (ring s)) < 2 ^ 62" "unat (head (ring s)) \<le> unat (tail (ring s))"
    by (rule invD(5,6) [OF inv])+
  note pc = invD(3) [OF inv, of t]
  show ?thesis
  proof (cases "pcs s t")
    case Idle
    then show ?thesis using run by (intro local) (auto simp: log_push_def log_pop_def)
  next
    case (PushLoad v)
    then show ?thesis using run by (intro local) (auto simp: log_push_def log_pop_def)
  next
    case (PushSeq v pos)
    then have "unat pos < 2 ^ 63" using pc range by simp
    then have "dif (ring s) pos pos = int (sq (tick s) (unat pos mod 2 ^ k)) - int (unat pos)"
      by (rule dif_exact [OF inv])
    then have "dif (ring s) pos pos = 0 \<Longrightarrow> sq (tick s) (unat pos mod 2 ^ k) = unat pos" by linarith
    then show ?thesis using run pc PushSeq
      by (intro local) (auto simp: log_push_def log_pop_def Let_def split: if_splits)
  next
    case (PushCas v pos)
    show ?thesis
    proof (cases "tail (ring s) = pos \<and> \<not> spurious")
      case True
      with PushCas run inv_push_cas [OF inv PushCas, unfolded sys_eta] bound show ?thesis
        by (auto simp: log_push_def log_pop_def)
    next
      case False
      then show ?thesis using run PushCas by (intro local) (auto simp: log_push_def log_pop_def)
    qed
  next
    case (PushData v pos)
    then show ?thesis using run inv_push_data [OF inv PushData, unfolded sys_eta] by (auto simp: log_push_def log_pop_def)
  next
    case (PushStore v pos)
    then show ?thesis using run inv_push_store [OF inv PushStore, unfolded sys_eta] by (auto simp: log_push_def log_pop_def)
  next
    case (PushRet r)
    then show ?thesis using run by (intro local) (auto simp: log_push_def log_pop_def)
  next
    case PopLoad
    then show ?thesis using run by (intro local) (auto simp: log_push_def log_pop_def)
  next
    case (PopSeq pos)
    then have "unat pos < 2 ^ 62" using pc range by simp
    then have "unat (pos + 1) = unat pos + 1" "unat (pos + 1) < 2 ^ 63" by (simp_all add: unat_Suc)
    then have "dif (ring s) pos (pos + 1) = int (sq (tick s) (unat pos mod 2 ^ k)) - int (unat pos + 1)"
      using dif_exact [OF inv] by metis
    then have "dif (ring s) pos (pos + 1) = 0 \<Longrightarrow> sq (tick s) (unat pos mod 2 ^ k) = unat pos + 1" by linarith
    then show ?thesis using run pc PopSeq
      by (intro local) (auto simp: log_push_def log_pop_def Let_def split: if_splits)
  next
    case (PopCas pos)
    show ?thesis
    proof (cases "head (ring s) = pos \<and> \<not> spurious")
      case True
      with PopCas run inv_pop_cas [OF inv PopCas, unfolded sys_eta] show ?thesis
        by (auto simp: log_push_def log_pop_def)
    next
      case False
      then show ?thesis using run PopCas by (intro local) (auto simp: log_push_def log_pop_def)
    qed
  next
    case (PopData pos)
    then show ?thesis using run inv_pop_data [OF inv PopData, unfolded sys_eta] by (auto simp: log_push_def log_pop_def)
  next
    case (PopStore pos v)
    then show ?thesis using run inv_pop_store [OF inv PopStore, unfolded sys_eta] by (auto simp: log_push_def log_pop_def)
  next
    case (PopRet r v)
    then show ?thesis using run by (intro local) (auto simp: log_push_def log_pop_def)
  qed
qed

lemma step_pushed: "step s s' \<Longrightarrow> length (pushed s) \<le> length (pushed s')"
  by (cases rule: step.cases) (auto simp: log_push_def split: pc.splits)

lemma inv_step:
  assumes "step s s'" and "ring_inv k s" and "length (pushed s') < 2 ^ 62"
  shows "ring_inv k s'"
  using assms(1)
proof cases
  case (call_push t v)
  with assms(2) show ?thesis by (simp add: inv_call_push)
next
  case (call_pop t)
  with assms(2) show ?thesis by (simp add: inv_call_pop)
next
  case (run t spurious p rb)
  with assms inv_run [OF assms(2) run(3)] show ?thesis by simp
qed

lemma inv_reachable: "step\<^sup>*\<^sup>* s s' \<Longrightarrow> ring_inv k s \<Longrightarrow> length (pushed s') < 2 ^ 62 \<Longrightarrow> ring_inv k s'"
proof (induction rule: rtranclp_induct)
  case (step s1 s2)
  have "length (pushed s1) \<le> length (pushed s2)" by (rule step_pushed [OF step.hyps(2)])
  with step show ?case by (intro inv_step [OF step.hyps(2)]) simp_all
qed

text \<open>A ring that \<^verbatim>\<open>vgc_ringbuf_init\<close> made for a size that is a power of two, as its comment demands.\<close>

definition fresh_ring :: "nat \<Rightarrow> 'a ringbuf \<Rightarrow> bool" where
  "fresh_ring k rb \<longleftrightarrow> 1 \<le> k \<and> k \<le> 32 \<and> (\<exists>cells. vgc_ringbuf_init cells (2 ^ k) = Some rb)"

lemma unat_pow: "k \<le> 32 \<Longrightarrow> unat (2 ^ k :: u64) = 2 ^ k"
proof -
  assume "k \<le> 32"
  have "(2 :: nat) ^ k < 2 ^ 64" using \<open>k \<le> 32\<close> by (intro power_strict_increasing) simp_all
  with unat_of_nat64 [of "2 ^ k"] show ?thesis by simp
qed

lemma inv_start:
  assumes "fresh_ring k rb"
  shows "ring_inv k (start_sys rb)"
proof -
  from assms obtain cells where k: "1 \<le> k" "k \<le> 32" and "vgc_ringbuf_init cells (2 ^ k) = Some rb"
    by (auto simp: fresh_ring_def)
  then have rb: "rb = \<lparr>bufmask = mask k, buf = map (\<lambda>i. (cells ! i)\<lparr>seq := of_nat i\<rparr>) [0..<2 ^ k], head = 0, tail = 0\<rparr>"
    by (simp add: vgc_ringbuf_init_def unat_pow mask_eq_exp_minus_1 split: if_splits)
  have p: "(2 :: nat) ^ k < 2 ^ 64" using k by (intro power_strict_increasing) simp_all
  have two: "2 \<le> (2 :: nat) ^ k" using power_increasing [of 1 k "2 :: nat"] k(1) by simp
  have "phase (2 ^ k) (tick (start_sys rb)) i i" if "i < 2 ^ k" for i
    using that p unat_of_nat64 [of i] unfolding phase_def is_free_def by (simp add: start_sys_def rb)
  then have "\<exists>q. q mod 2 ^ k = i \<and> phase (2 ^ k) (tick (start_sys rb)) i q" if "i < 2 ^ k" for i
    using that by (intro exI [of _ i]) simp
  then have "ok (2 ^ k) (tick (start_sys rb))"
    using two unfolding ok_def owners_ok_def by (auto simp: start_sys_def rb)
  then show ?thesis using k by (simp add: ring_inv_def shape_def returns_ok_def start_sys_def rb)
qed

lemma reachable_inv: "fresh_ring k rb \<Longrightarrow> reachable rb s \<Longrightarrow> length (pushed s) < 2 ^ 62 \<Longrightarrow> ring_inv k s"
  by (rule inv_reachable [OF _ inv_start])

section \<open>Schedules\<close>

text \<open>A schedule names the threads in the order in which they act; it makes states of concrete runs computable.\<close>

datatype 'a action = CallPush 'a | CallPop | Go bool

fun act :: "nat \<times> 'a action \<Rightarrow> 'a sys \<Rightarrow> 'a sys" where
  "act (t, CallPush v) s = (if pcs s t = Idle then s\<lparr>pcs := (pcs s)(t := PushLoad v)\<rparr> else s)"
| "act (t, CallPop) s = (if pcs s t = Idle then s\<lparr>pcs := (pcs s)(t := PopLoad)\<rparr> else s)"
| "act (t, Go spurious) s =
     (if pcs s t = Idle then s
      else case thread_step spurious (ring s) (pcs s t) of (p, rb) \<Rightarrow>
        \<lparr>ring = rb, pcs = (pcs s)(t := p), pushed = log_push (pcs s t) p (pushed s), returned = log_pop p (returned s)\<rparr>)"

definition exec :: "(nat \<times> 'a action) list \<Rightarrow> 'a sys \<Rightarrow> 'a sys" where
  "exec acts s = fold act acts s"

lemma act_step: "step\<^sup>*\<^sup>* s (act a s)"
  by (cases "(a, s)" rule: act.cases) (auto intro: step.intros split: prod.split)

lemma exec_reachable: "step\<^sup>*\<^sup>* s (exec acts s)"
  unfolding exec_def by (induction acts arbitrary: s) (auto intro: rtranclp_trans act_step)

definition cells2 :: "nat cell list" where
  "cells2 = [\<lparr>seq = 0, cdata = 0\<rparr>, \<lparr>seq = 0, cdata = 0\<rparr>]"

definition ring2 :: "nat ringbuf" where
  "ring2 = \<lparr>bufmask = 1, buf = [\<lparr>seq = 0, cdata = 0\<rparr>, \<lparr>seq = 1, cdata = 0\<rparr>], head = 0, tail = 0\<rparr>"

lemma fresh_ring2: "fresh_ring 1 ring2"
proof -
  have "[0..<unat (2 :: u64)] = [0, 1]" by (simp add: upt_rec)
  then have "vgc_ringbuf_init cells2 (2 ^ 1) = Some ring2"
    by (simp add: vgc_ringbuf_init_def cells2_def ring2_def)
  then show ?thesis unfolding fresh_ring_def by (intro conjI exI) simp_all
qed

definition both_pushing :: "nat sys" where
  "both_pushing = exec [(0, CallPush 7), (1, CallPush 8), (0, Go False), (1, Go False), (0, Go False), (0, Go False),
     (1, Go False), (1, Go False), (1, Go False), (1, Go False)] (start_sys ring2)"

lemmas exec_simps = exec_def start_sys_def ring2_def log_push_def log_pop_def dif_def cell_at_def set_seq_def
  set_data_def Let_def

section \<open>What the queue guarantees\<close>

text \<open>The cell whose plain member \<^verbatim>\<open>data\<close> a thread is about to read or write.\<close>

definition touched :: "'a ringbuf \<Rightarrow> 'a pc \<Rightarrow> nat option" where
  "touched rb p = (case p of PushData v pos \<Rightarrow> Some (cell_at rb pos) | PopData pos \<Rightarrow> Some (cell_at rb pos) | _ \<Rightarrow> None)"

lemma touched_owner:
  "shape k rb \<Longrightarrow> touched rb p = Some i \<Longrightarrow>
     (\<exists>q. push_ticket p = Some q \<and> i = q mod 2 ^ k) \<or> (\<exists>q. pop_ticket p = Some q \<and> i = q mod 2 ^ k)"
  by (auto simp: touched_def cell_at_mod split: pc.splits)

text \<open>C18. In every interleaving of any number of pushing and popping threads, no two threads are ever about to
  access the data of the same cell: the accesses of \<^verbatim>\<open>vgc_push\<close> and \<^verbatim>\<open>vgc_pop\<close> that are not atomic do not race, and they
  stay inside the buffer.\<close>

theorem ring_data_race_free:
  assumes "fresh_ring k rb" and "reachable rb s" and "length (pushed s) < 2 ^ 62"
    and "t \<noteq> u" and "touched (ring s) (pcs s t) = Some i" and "touched (ring s) (pcs s u) = Some j"
  shows "i \<noteq> j \<and> i < length (buf (ring s)) \<and> j < length (buf (ring s))"
proof -
  have inv: "ring_inv k s" by (rule reachable_inv [OF assms(1-3)])
  note ok = invD(2) [OF inv] and shape = invD(1) [OF inv]
  have "i \<noteq> j"
    using touched_owner [OF shape assms(5)] touched_owner [OF shape assms(6)] pushers_apart [OF ok, of t _ u]
      poppers_apart [OF ok, of t _ u] pusher_popper_apart [OF ok, of t _ u] pusher_popper_apart [OF ok, of u _ t]
      \<open>t \<noteq> u\<close> by (elim disjE exE conjE) (simp_all, metis+)
  moreover have "i < length (buf (ring s))" "j < length (buf (ring s))"
    using assms(5,6) cell_at_bound [OF shape] by (auto simp: touched_def split: pc.splits)
  ultimately show ?thesis by simp
qed

text \<open>C5. Nothing is lost, duplicated or reordered: whatever the interleaving, the \<open>q\<close>-th successful pop gets the value
  of the \<open>q\<close>-th successful push, every ticket is served at most once, and the tickets that were claimed but not
  yet served are exactly those of pops still in progress; at most \<open>2\<^sup>k\<close> values are in the ring.\<close>

theorem ring_fifo:
  assumes "fresh_ring k rb" and "reachable rb s" and "length (pushed s) < 2 ^ 62"
  shows "(\<forall>(q, v) \<in> set (returned s). q < length (pushed s) \<and> v = pushed s ! q) \<and>
    distinct (map fst (returned s)) \<and>
    (\<forall>q < unat (head (ring s)). q \<in> fst ` set (returned s) \<or> (\<exists>t. pcs s t = PopData (of_nat q))) \<and>
    unat (tail (ring s)) = length (pushed s) \<and>
    unat (head (ring s)) \<le> length (pushed s) \<and> length (pushed s) \<le> unat (head (ring s)) + 2 ^ k"
proof (intro conjI)
  have inv: "ring_inv k s" by (rule reachable_inv [OF assms])
  note ret = invD(7) [OF inv, unfolded returns_ok_def] and ok = invD(2) [OF inv]
  show le: "unat (head (ring s)) \<le> length (pushed s)" using invD(4,6) [OF inv] by simp
  show "\<forall>(q, v) \<in> set (returned s). q < length (pushed s) \<and> v = pushed s ! q" using ret le by fastforce
  show "distinct (map fst (returned s))" using ret by simp
  show "\<forall>q < unat (head (ring s)). q \<in> fst ` set (returned s) \<or> (\<exists>t. pcs s t = PopData (of_nat q))"
    using ret by (auto simp: readers_def)
  show "unat (tail (ring s)) = length (pushed s)" by (rule invD(4) [OF inv])
  show "length (pushed s) \<le> unat (head (ring s)) + 2 ^ k" using ok by (simp add: ok_def)
qed

text \<open>Two pushes race; the thread that loses the first ticket gets the second; then both values are popped.\<close>

definition raced :: "nat sys" where
  "raced = exec ((2, CallPop) # replicate 5 (2, Go False) @ [(2, Go False), (2, CallPop)] @ replicate 5 (2, Go False))
     (exec [(1, Go False), (1, Go False), (0, Go False), (0, Go False)] both_pushing)"

lemma reachable_raced: "reachable ring2 raced"
proof -
  have "reachable ring2 both_pushing" unfolding both_pushing_def by (rule exec_reachable)
  then show ?thesis unfolding raced_def by (metis exec_reachable rtranclp_trans)
qed

lemma raced_logs: "pushed raced = [7, 8]" "returned raced = [(0, 7), (1, 8)]"
  by (simp_all add: raced_def both_pushing_def exec_simps numeral_eq_Suc)

theorem ring_fifo_witness:
  "pushed raced = [7, 8] \<and> returned raced = [(0, 7), (1, 8)] \<and> distinct (map fst (returned raced)) \<and>
   unat (tail (ring raced)) = 2"
  using ring_fifo [OF fresh_ring2 reachable_raced] by (simp add: raced_logs)

section \<open>Refinement of a bounded FIFO\<close>

text \<open>The contents of the abstract queue: the values pushed whose ticket no pop has claimed.\<close>

definition contents :: "'a sys \<Rightarrow> 'a list" where
  "contents s = drop (unat (head (ring s))) (pushed s)"

inductive fifo_step :: "nat \<Rightarrow> 'a list \<Rightarrow> 'a list \<Rightarrow> bool" for N where
  stutter: "fifo_step N xs xs"
| enq: "length xs < N \<Longrightarrow> fifo_step N xs (xs @ [v])"
| deq: "fifo_step N (v # xs) xs"

lemma contents_run:
  assumes inv: "ring_inv k s" and run: "thread_step spurious (ring s) (pcs s t) = (p, rb)"
  shows "fifo_step (2 ^ k) (contents s)
    (drop (unat (head rb)) (log_push (pcs s t) p (pushed s)))"
proof -
  note ok = invD(2) [OF inv] and range = invD(4-6) [OF inv]
  show ?thesis
  proof (cases "pcs s t")
    case (PushCas v pos)
    show ?thesis
    proof (cases "tail (ring s) = pos \<and> \<not> spurious")
      case True
      have "is_free (2 ^ k) (tick s) (issued (tick s) mod 2 ^ k) (issued (tick s))"
        using True invD(3) [OF inv, of t] PushCas by (intro at_seq_free [OF ok]) simp
      then have "length (contents s) < 2 ^ k" using range by (simp add: contents_def is_free_def) linarith
      from fifo_step.enq [OF this, of v] show ?thesis
        using True run PushCas range by (auto simp: log_push_def contents_def)
    qed (use run PushCas in \<open>auto simp: log_push_def contents_def fifo_step.stutter\<close>)
  next
    case (PopCas pos)
    show ?thesis
    proof (cases "head (ring s) = pos \<and> \<not> spurious")
      case True
      have "is_full (tick s) (served (tick s) mod 2 ^ k) (served (tick s))"
        using True invD(3) [OF inv, of t] PopCas by (intro at_seq_full [OF ok]) simp
      then have "unat pos < length (pushed s)" using True range by (simp add: is_full_def)
      then have "contents s = pushed s ! unat pos # drop (unat pos + 1) (pushed s)"
        using True by (simp add: contents_def Cons_nth_drop_Suc)
      moreover have "unat (pos + 1) = unat pos + 1" using True range by (simp add: unat_Suc)
      ultimately show ?thesis using True run PopCas by (auto simp: log_push_def intro: fifo_step.deq)
    qed (use run PopCas in \<open>auto simp: log_push_def contents_def fifo_step.stutter\<close>)
  qed (use run in \<open>auto simp: log_push_def contents_def set_data_def set_seq_def Let_def fifo_step.stutter\<close>)
qed

text \<open>C6. Every step of every interleaving is, on the abstract contents, a step of a FIFO queue that holds at most \<open>2\<^sup>k\<close>
  values, or changes nothing.\<close>

theorem ring_refines_fifo:
  assumes "fresh_ring k rb" and "reachable rb s" and "step s s'" and "length (pushed s') < 2 ^ 62"
  shows "fifo_step (2 ^ k) (contents s) (contents s')"
proof -
  have "length (pushed s) < 2 ^ 62" using step_pushed [OF assms(3)] assms(4) by simp
  then have inv: "ring_inv k s" by (rule reachable_inv [OF assms(1,2)])
  from assms(3) show ?thesis
  proof cases
    case (run t spurious p rb')
    with contents_run [OF inv run(3)] show ?thesis by (simp add: contents_def)
  qed (simp_all add: contents_def fifo_step.stutter)
qed

theorem ring_data_race_free_witness:
  "touched (ring both_pushing) (pcs both_pushing 0) = Some 0 \<and> touched (ring both_pushing) (pcs both_pushing 1) = Some 1 \<and>
   (0 :: nat) \<noteq> 1 \<and> length (buf (ring both_pushing)) = 2"
proof -
  have r: "reachable ring2 both_pushing" unfolding both_pushing_def by (rule exec_reachable)
  have l: "length (pushed both_pushing) < 2 ^ 62" by (simp add: both_pushing_def exec_simps)
  have t: "touched (ring both_pushing) (pcs both_pushing 0) = Some 0"
    "touched (ring both_pushing) (pcs both_pushing 1) = Some 1" "length (buf (ring both_pushing)) = 2"
    by (simp_all add: both_pushing_def exec_simps touched_def)
  from ring_data_race_free [OF fresh_ring2 r l _ t(1,2)] t show ?thesis by simp
qed

lemma act_go_step: "pcs s t \<noteq> Idle \<Longrightarrow> step s (act (t, Go spurious) s)"
  by (auto intro: step.run split: prod.split)

definition claiming :: "nat sys" where
  "claiming = exec [(0, CallPush 7), (0, Go False), (0, Go False)] (start_sys ring2)"

definition claimed :: "nat sys" where
  "claimed = act (0, Go False) claiming"

theorem ring_refines_fifo_witness:
  "step claiming claimed \<and> contents claiming = [] \<and> contents claimed = [7] \<and>
   fifo_step 2 (contents claiming) (contents claimed)"
proof -
  have r: "reachable ring2 claiming" unfolding claiming_def by (rule exec_reachable)
  have st: "step claiming claimed"
    unfolding claimed_def by (rule act_go_step) (simp add: claiming_def exec_simps)
  have c: "contents claiming = []" "contents claimed = [7]" "length (pushed claimed) < 2 ^ 62"
    by (simp_all add: claimed_def claiming_def exec_simps contents_def)
  from ring_refines_fifo [OF fresh_ring2 r st c(3)] st c show ?thesis by simp
qed

section \<open>When an operation reports failure\<close>

lemma push_fails:
  assumes inv: "ring_inv k s" and t: "pcs s t = PushSeq v pos" and "dif (ring s) pos pos < 0"
  shows "unat pos = length (pushed s) \<and>
    (length (pushed s) = unat (head (ring s)) + 2 ^ k \<or>
     (\<exists>u. pop_ticket (pcs s u) = Some (length (pushed s) - 2 ^ k)))"
proof -
  note ok = invD(2) [OF inv] and range = invD(4-6) [OF inv]
  let ?i = "unat pos mod 2 ^ k"
  have pos: "unat pos \<le> length (pushed s)" using invD(3) [OF inv, of t] t range by simp
  then have "dif (ring s) pos pos = int (sq (tick s) ?i) - int (unat pos)"
    using range by (intro dif_exact [OF inv]) simp
  with assms(3) have lt: "sq (tick s) ?i < unat pos" by linarith
  obtain q where q: "q mod 2 ^ k = ?i" "phase (2 ^ k) (tick s) ?i q" using ok_phase [OF ok] by blast
  have qlt: "q < unat pos" using lt q(2) unfolding phase_defs by auto
  then have qN: "q + 2 ^ k \<le> unat pos" using mod_window [OF q(1)] by linarith
  moreover have "length (pushed s) \<le> q + 2 ^ k" using phase_window [OF ok q(2)] range by simp
  ultimately have eq: "q + 2 ^ k = length (pushed s)" "unat pos = length (pushed s)" using pos by simp_all
  have "q < unat (tail (ring s))" using eq range by (metis less_add_same_cancel1 zero_less_numeral zero_less_power)
  then consider "is_filling (tick s) ?i q \<or> is_full (tick s) ?i q" | "is_emptying (2 ^ k) (tick s) ?i q"
    using q(2) unfolding phase_def is_free_def by auto
  then show ?thesis
  proof cases
    case 1
    then have "unat (head (ring s)) \<le> q" unfolding is_filling_def is_full_def by auto
    moreover have "length (pushed s) \<le> unat (head (ring s)) + 2 ^ k" using ok by (simp add: ok_def)
    ultimately show ?thesis using eq by linarith
  next
    case 2
    then have "\<exists>u. pop_ticket (pcs s u) = Some q" unfolding is_emptying_def by simp
    moreover have "q = length (pushed s) - 2 ^ k" using eq by linarith
    ultimately show ?thesis using eq by simp
  qed
qed

lemma pop_fails:
  assumes inv: "ring_inv k s" and t: "pcs s t = PopSeq pos" and "dif (ring s) pos (pos + 1) < 0"
  shows "unat pos = unat (head (ring s)) \<and>
    (length (pushed s) = unat (head (ring s)) \<or> (\<exists>u. push_ticket (pcs s u) = Some (unat (head (ring s)))))"
proof -
  note ok = invD(2) [OF inv] and range = invD(4-6) [OF inv]
  let ?i = "unat pos mod 2 ^ k"
  have pos: "unat pos \<le> unat (head (ring s))" using invD(3) [OF inv, of t] t by simp
  then have Suc: "unat (pos + 1) = unat pos + 1" using range by (intro unat_Suc) simp
  have "dif (ring s) pos (pos + 1) = int (sq (tick s) ?i) - int (unat (pos + 1))"
    using range pos by (intro dif_exact [OF inv]) (simp add: Suc)
  with assms(3) Suc have le: "sq (tick s) ?i \<le> unat pos" by linarith
  obtain q where q: "q mod 2 ^ k = ?i" "phase (2 ^ k) (tick s) ?i q" using ok_phase [OF ok] by blast
  have window: "length (pushed s) \<le> q + 2 ^ k" using phase_window [OF ok q(2)] range by simp
  have qle: "q \<le> unat pos" using le q(2) unfolding phase_defs by auto
  show ?thesis
  proof (cases "q = unat pos")
    case True
    then have "is_free (2 ^ k) (tick s) ?i q \<or> is_filling (tick s) ?i q"
      using le q(2) unfolding phase_def is_full_def is_emptying_def by auto
    then show ?thesis using True pos range unfolding is_free_def is_filling_def by auto
  next
    case False
    then have "q + 2 ^ k \<le> unat pos" using mod_window [OF q(1) qle] qle by linarith
    then show ?thesis using window pos range by linarith
  qed
qed

text \<open>\<^verbatim>\<open>vgc_push\<close> gives up only when the ring is full: every one of the last \<open>2\<^sup>k\<close> tickets is still held by a value in
  the ring, or the pop of the oldest of them has not finished with its cell. A stale position never makes it give up.\<close>

theorem ring_push_failure:
  assumes "fresh_ring k rb" and "reachable rb s" and "length (pushed s) < 2 ^ 62"
    and "pcs s t = PushSeq v pos" and "fst (thread_step spurious (ring s) (pcs s t)) = PushRet (- 1)"
  shows "unat pos = length (pushed s) \<and>
      (length (contents s) = 2 ^ k \<or> (\<exists>u. pop_ticket (pcs s u) = Some (length (pushed s) - 2 ^ k)))"
  using push_fails [OF reachable_inv [OF assms(1-3)] assms(4)] assms(4,5)
  by (auto simp: Let_def contents_def split: if_splits)

text \<open>The third push into a ring of two cells.\<close>

definition full_ring :: "nat sys" where
  "full_ring = exec ((0, CallPush 5) # replicate 6 (0, Go False) @ (0, CallPush 6) # replicate 6 (0, Go False) @
     [(0, CallPush 9), (0, Go False)]) (start_sys ring2)"

theorem ring_push_failure_witness:
  "fst (thread_step False (ring full_ring) (pcs full_ring 0)) = PushRet (- 1) \<and>
   (length (contents full_ring) = 2 \<or> (\<exists>u. pop_ticket (pcs full_ring u) = Some 0))"
proof -
  have r: "reachable ring2 full_ring" unfolding full_ring_def by (rule exec_reachable)
  have facts: "pcs full_ring 0 = PushSeq 9 2" "pushed full_ring = [5, 6]"
    "fst (thread_step False (ring full_ring) (pcs full_ring 0)) = PushRet (- 1)"
    by (simp_all add: full_ring_def exec_simps numeral_eq_Suc)
  from ring_push_failure [OF fresh_ring2 r _ facts(1,3)] facts(2,3) show ?thesis by simp
qed

lemma ring_pop_failure:
  assumes "fresh_ring k rb" and "reachable rb s" and "length (pushed s) < 2 ^ 62"
    and "pcs s t = PopSeq pos" and "fst (thread_step spurious (ring s) (pcs s t)) = PopRet (- 1) None"
  shows "unat pos = unat (head (ring s)) \<and>
      (contents s = [] \<or> (\<exists>u. push_ticket (pcs s u) = Some (unat (head (ring s)))))"
  using pop_fails [OF reachable_inv [OF assms(1-3)] assms(4)] assms(4,5)
  by (auto simp: Let_def contents_def split: if_splits)

end
