(* ===== verification/Vqueue.thy ===== *)
theory Vqueue
  imports Ringbuf
begin

text \<open>
  The ring buffer as one thread sees it that no other disturbs: \<open>vgc_push\<close> and \<open>vgc_pop\<close> are the thread steps of
  \<open>Ringbuf\<close> run to the return. The locale \<open>bounded_queue\<close> is the contract the scheduler relies on; it is interpreted on
  these two functions. \<open>vgc_queue_init\<close>, \<open>vgc_enqueue\<close> and \<open>vgc_dequeue\<close> are the queue with its scheduler, of which only
  the flag and the condition variable matter here.
\<close>

section \<open>Undisturbed runs\<close>

definition returned_pc :: "'a pc \<Rightarrow> bool" where
  "returned_pc p = (case p of PushRet _ \<Rightarrow> True | PopRet _ _ \<Rightarrow> True | _ \<Rightarrow> False)"

fun run_thread :: "nat \<Rightarrow> 'a ringbuf \<Rightarrow> 'a pc \<Rightarrow> ('a pc \<times> 'a ringbuf) option" where
  "run_thread 0 rb p = None"
| "run_thread (Suc n) rb p =
     (if returned_pc p then Some (p, rb)
      else case thread_step False rb p of (p, rb) \<Rightarrow> run_thread n rb p)"

text \<open>Five accesses to memory are enough for either function; \<open>None\<close> would mean that the loop goes on.\<close>

definition vgc_push :: "'a ringbuf \<Rightarrow> 'a \<Rightarrow> (int \<times> 'a ringbuf) option" where
  "vgc_push rb v = do { (p, rb) \<leftarrow> run_thread 6 rb (PushLoad v); case p of PushRet r \<Rightarrow> Some (r, rb) | _ \<Rightarrow> None }"

definition vgc_pop :: "'a ringbuf \<Rightarrow> (int \<times> 'a option \<times> 'a ringbuf) option" where
  "vgc_pop rb = do { (p, rb) \<leftarrow> run_thread 6 rb PopLoad; case p of PopRet r v \<Rightarrow> Some (r, v, rb) | _ \<Rightarrow> None }"

section \<open>The contract\<close>

text \<open>Several pushes in a row, and popping until the queue reports that it is empty.\<close>

fun push_all :: "('q \<Rightarrow> 'a \<Rightarrow> (int \<times> 'q) option) \<Rightarrow> 'q \<Rightarrow> 'a list \<Rightarrow> (int \<times> 'q) option" where
  "push_all push q [] = Some (0, q)"
| "push_all push q (v # vs) = do { (r, q) \<leftarrow> push q v; if r \<noteq> 0 then Some (r, q) else push_all push q vs }"

fun drain :: "('q \<Rightarrow> (int \<times> 'a option \<times> 'q) option) \<Rightarrow> nat \<Rightarrow> 'q \<Rightarrow> ('a list \<times> 'q) option" where
  "drain pop 0 q = None"
| "drain pop (Suc n) q =
     do { (r, v, q) \<leftarrow> pop q;
          if r \<noteq> 0 then Some ([], q)
          else do { x \<leftarrow> v; (xs, q) \<leftarrow> drain pop n q; Some (x # xs, q) } }"

text \<open>\<open>rep n q xs\<close>: the queue \<open>q\<close> holds \<open>xs\<close> and its counters have room for \<open>n\<close> more pushes.\<close>

locale bounded_queue =
  fixes push :: "'q \<Rightarrow> 'a \<Rightarrow> (int \<times> 'q) option"
    and pop :: "'q \<Rightarrow> (int \<times> 'a option \<times> 'q) option"
    and rep :: "nat \<Rightarrow> 'q \<Rightarrow> 'a list \<Rightarrow> bool"
    and cap :: nat
  assumes push_room: "rep (Suc n) q xs \<Longrightarrow> length xs < cap \<Longrightarrow> \<exists>q'. push q v = Some (0, q') \<and> rep n q' (xs @ [v])"
    and push_full: "rep n q xs \<Longrightarrow> length xs = cap \<Longrightarrow> push q v = Some (- 1, q)"
    and pop_some: "rep n q (x # xs) \<Longrightarrow> \<exists>q'. pop q = Some (0, Some x, q') \<and> rep n q' xs"
    and pop_none: "rep n q [] \<Longrightarrow> pop q = Some (- 1, None, q)"
    and rep_cap: "rep n q xs \<Longrightarrow> length xs \<le> cap"
begin

lemma push_all_room:
  "rep (n + length vs) q xs \<Longrightarrow> length xs + length vs \<le> cap \<Longrightarrow>
     \<exists>q'. push_all push q vs = Some (0, q') \<and> rep n q' (xs @ vs)"
proof (induction vs arbitrary: q xs)
  case (Cons v vs)
  then have "rep (Suc (n + length vs)) q xs" "length xs < cap" by simp_all
  from push_room [OF this, of v] obtain q1 where q1: "push q v = Some (0, q1)" "rep (n + length vs) q1 (xs @ [v])"
    by blast
  from Cons.IH [OF q1(2)] Cons.prems(2) obtain q2 where "push_all push q1 vs = Some (0, q2)" "rep n q2 (xs @ v # vs)" by auto
  with q1(1) show ?case by simp
qed simp

lemma drain_all: "rep n q xs \<Longrightarrow> \<exists>q'. drain pop (Suc (length xs)) q = Some (xs, q') \<and> rep n q' []"
proof (induction xs arbitrary: q)
  case Nil
  then show ?case by (auto simp: pop_none)
next
  case (Cons x xs)
  from pop_some [OF Cons.prems] obtain q1 where q1: "pop q = Some (0, Some x, q1)" "rep n q1 xs" by blast
  from Cons.IH [OF q1(2)] obtain q2 where "drain pop (Suc (length xs)) q1 = Some (xs, q2)" "rep n q2 []" by blast
  with q1(1) show ?case by (simp add: drain.simps(2) [of pop "Suc (length xs)" q] del: drain.simps)
qed

lemma push_all_drain:
  assumes "rep (length vs) q []" and "length vs \<le> cap"
  shows "\<exists>q' q''. push_all push q vs = Some (0, q') \<and> drain pop (Suc (length vs)) q' = Some (vs, q'')"
  using push_all_room [of 0 vs q "[]"] drain_all [of 0 _ vs] assms by fastforce

end

section \<open>The ring fulfils it\<close>

definition quiet :: "'a sys \<Rightarrow> bool" where
  "quiet s \<longleftrightarrow> (\<forall>t. pcs s t = Idle)"

definition ring_rep :: "nat \<Rightarrow> nat \<Rightarrow> 'a ringbuf \<Rightarrow> 'a list \<Rightarrow> bool" where
  "ring_rep k n rb xs \<longleftrightarrow>
     (\<exists>s. ring_inv k s \<and> quiet s \<and> ring s = rb \<and> contents s = xs \<and> length (pushed s) + n < 2 ^ 62)"

lemma quiet_phase:
  assumes "ring_inv k s" and "quiet s"
  shows "\<exists>q. q mod 2 ^ k = r mod 2 ^ k \<and>
    (is_free (2 ^ k) (tick s) (r mod 2 ^ k) q \<or> is_full (tick s) (r mod 2 ^ k) q)"
proof -
  from ok_phase [OF invD(2) [OF assms(1)]] obtain q where
    "q mod 2 ^ k = r mod 2 ^ k" "phase (2 ^ k) (tick s) (r mod 2 ^ k) q" by blast
  then show ?thesis using assms(2) by (auto simp: phase_def is_filling_def is_emptying_def quiet_def)
qed

lemma quiet_tail_seq:
  assumes inv: "ring_inv k s" and "quiet s"
  shows "length (contents s) < 2 ^ k \<Longrightarrow> sq (tick s) (length (pushed s) mod 2 ^ k) = length (pushed s)"
    and "length (contents s) = 2 ^ k \<Longrightarrow> sq (tick s) (length (pushed s) mod 2 ^ k) < length (pushed s)"
proof -
  note range = invD(4-6) [OF inv] and ok = invD(2) [OF inv]
  let ?T = "length (pushed s)" and ?H = "unat (head (ring s))" and ?i = "length (pushed s) mod 2 ^ k"
  obtain q where q: "q mod 2 ^ k = ?T mod 2 ^ k" "is_free (2 ^ k) (tick s) ?i q \<or> is_full (tick s) ?i q"
    using quiet_phase [OF assms] by blast
  have N: "2 \<le> (2 :: nat) ^ k" by (rule ok_size [OF ok])
  have le: "?T \<le> ?H + 2 ^ k" using ok by (simp add: ok_def)
  have same: "q = ?T" if "?T \<le> q" "q < ?T + 2 ^ k" using mod_window [OF q(1) [symmetric] that] by simp
  have apart: "q + 2 ^ k \<le> ?T" if "q < ?T" using mod_window [OF q(1)] that by linarith
  show "length (contents s) < 2 ^ k \<Longrightarrow> sq (tick s) ?i = ?T"
    using q(2) same apart range le unfolding is_free_def is_full_def contents_def length_drop tick_simps by linarith
  show "length (contents s) = 2 ^ k \<Longrightarrow> sq (tick s) ?i < ?T"
    using q(2) apart range le N unfolding is_free_def is_full_def contents_def length_drop tick_simps by linarith
qed

lemma quiet_head_seq:
  assumes inv: "ring_inv k s" and "quiet s"
  shows "contents s \<noteq> [] \<Longrightarrow> sq (tick s) (unat (head (ring s)) mod 2 ^ k) = unat (head (ring s)) + 1"
    and "contents s = [] \<Longrightarrow> sq (tick s) (unat (head (ring s)) mod 2 ^ k) = unat (head (ring s))"
proof -
  note range = invD(4-6) [OF inv] and ok = invD(2) [OF inv]
  let ?T = "length (pushed s)" and ?H = "unat (head (ring s))" and ?i = "unat (head (ring s)) mod 2 ^ k"
  obtain q where q: "q mod 2 ^ k = ?H mod 2 ^ k" "is_free (2 ^ k) (tick s) ?i q \<or> is_full (tick s) ?i q"
    using quiet_phase [OF assms] by blast
  have le: "?T \<le> ?H + 2 ^ k" using ok by (simp add: ok_def)
  have same: "q = ?H" if "?H \<le> q" "q < ?H + 2 ^ k" using mod_window [OF q(1) [symmetric] that] by simp
  have "contents s \<noteq> [] \<longleftrightarrow> ?H < ?T" by (auto simp: contents_def)
  then show "contents s \<noteq> [] \<Longrightarrow> sq (tick s) ?i = ?H + 1" "contents s = [] \<Longrightarrow> sq (tick s) ?i = ?H"
    using q(2) same range le unfolding is_free_def is_full_def tick_simps by linarith+
qed

text \<open>A thread that runs alone, as states of the whole system.\<close>

lemma quiet_local:
  assumes "ring_inv k s" and "quiet s" and "push_ticket p = None" and "pop_ticket p = None"
    and "pc_ok (2 ^ k) (tick s) p"
  shows "ring_inv k (s\<lparr>pcs := (pcs s)(0 := p)\<rparr>)"
  using assms by (intro inv_local) (simp_all add: quiet_def)

lemma dif_tail:
  assumes "ring_inv k s"
  shows "dif (ring s) (tail (ring s)) (tail (ring s)) =
    int (sq (tick s) (length (pushed s) mod 2 ^ k)) - int (length (pushed s))"
  using dif_exact [OF assms, of "tail (ring s)" "tail (ring s)"] invD(4,5) [OF assms] by simp

lemma dif_head:
  assumes "ring_inv k s"
  shows "dif (ring s) (head (ring s)) (head (ring s) + 1) =
    int (sq (tick s) (unat (head (ring s)) mod 2 ^ k)) - int (unat (head (ring s)) + 1)"
proof -
  have "unat (head (ring s)) < 2 ^ 62" using invD(5,6) [OF assms] by simp
  then have "unat (head (ring s) + 1) = unat (head (ring s)) + 1" "unat (head (ring s) + 1) < 2 ^ 63"
    by (simp_all add: unat_Suc)
  with dif_exact [OF assms, of "head (ring s) + 1" "head (ring s)"] show ?thesis by metis
qed

lemmas run_simps = numeral_eq_Suc returned_pc_def Let_def

lemma push_alone_room:
  assumes inv: "ring_inv k s" and "quiet s" and "length (contents s) < 2 ^ k" and "length (pushed s) + 1 < 2 ^ 62"
  shows "\<exists>s'. vgc_push (ring s) v = Some (0, ring s') \<and> ring_inv k s' \<and> quiet s' \<and>
    contents s' = contents s @ [v] \<and> length (pushed s') = length (pushed s) + 1"
proof -
  let ?pos = "tail (ring s)"
  have sq: "sq (tick s) (length (pushed s) mod 2 ^ k) = length (pushed s)"
    by (rule quiet_tail_seq(1) [OF assms(1-3)])
  have range: "unat ?pos = length (pushed s)" by (rule invD(4) [OF inv])
  let ?r1 = "(ring s)\<lparr>tail := ?pos + 1\<rparr>"
  let ?r3 = "set_seq ?pos (?pos + 1) (set_data ?pos v ?r1)"
  have "dif (ring s) ?pos ?pos = 0" using dif_tail [OF inv] sq by linarith
  then have run: "vgc_push (ring s) v = Some (0, ?r3)" by (simp add: vgc_push_def run_simps)
  let ?s0 = "s\<lparr>pcs := (pcs s)(0 := PushCas v ?pos)\<rparr>"
  have "ring_inv k ?s0" using sq range by (intro quiet_local [OF inv \<open>quiet s\<close>]) simp_all
  from inv_push_cas [OF this, of 0 v ?pos] assms(4)
  have 1: "ring_inv k \<lparr>ring = ?r1, pcs = (pcs s)(0 := PushData v ?pos), pushed = pushed s @ [v], returned = returned s\<rparr>"
    by (simp add: sys_eta)
  from inv_push_data [OF this, of 0 v ?pos]
  have 2: "ring_inv k \<lparr>ring = set_data ?pos v ?r1, pcs = (pcs s)(0 := PushStore v ?pos), pushed = pushed s @ [v],
    returned = returned s\<rparr>" by simp
  from inv_push_store [OF this, of 0 v ?pos]
  have 3: "ring_inv k \<lparr>ring = ?r3, pcs = (pcs s)(0 := PushRet 0), pushed = pushed s @ [v], returned = returned s\<rparr>"
    by simp
  from inv_local [OF this, of 0 Idle]
  have 4: "ring_inv k \<lparr>ring = ?r3, pcs = (pcs s)(0 := Idle), pushed = pushed s @ [v], returned = returned s\<rparr>"
    (is "ring_inv k ?s4") by simp
  have "contents ?s4 = contents s @ [v]"
    using invD(4,6) [OF inv] by (simp add: contents_def set_seq_def set_data_def)
  with run 4 \<open>quiet s\<close> show ?thesis by (intro exI [of _ ?s4]) (simp add: quiet_def)
qed

lemma pop_alone_some:
  assumes inv: "ring_inv k s" and "quiet s" and xs: "contents s = x # xs"
  shows "\<exists>s'. vgc_pop (ring s) = Some (0, Some x, ring s') \<and> ring_inv k s' \<and> quiet s' \<and>
    contents s' = xs \<and> pushed s' = pushed s"
proof -
  let ?pos = "head (ring s)"
  have sq: "sq (tick s) (unat ?pos mod 2 ^ k) = unat ?pos + 1"
    using xs by (intro quiet_head_seq(1) [OF assms(1-2)]) simp
  have lt: "unat ?pos < length (pushed s)" using xs by (cases "unat ?pos < length (pushed s)") (simp_all add: contents_def)
  have split: "x = pushed s ! unat ?pos" "xs = drop (unat ?pos + 1) (pushed s)"
    using xs lt by (simp_all add: contents_def Cons_nth_drop_Suc [symmetric])
  let ?r1 = "(ring s)\<lparr>head := ?pos + 1\<rparr>" and ?c = "cdata (buf (ring s) ! cell_at (ring s) ?pos)"
  let ?r3 = "set_seq ?pos (?pos + bufmask (ring s) + 1) ?r1"
  have cell: "cell_at ?r1 p = cell_at (ring s) p" for p by (simp add: cell_at_def)
  have "dif (ring s) ?pos (?pos + 1) = 0" using dif_head [OF inv] sq by linarith
  then have run: "vgc_pop (ring s) = Some (0, Some ?c, ?r3)" by (simp add: vgc_pop_def run_simps cell)
  let ?s0 = "s\<lparr>pcs := (pcs s)(0 := PopCas ?pos)\<rparr>"
  have "ring_inv k ?s0" using sq by (intro quiet_local [OF inv \<open>quiet s\<close>]) simp_all
  from inv_pop_cas [OF this, of 0 ?pos]
  have 1: "ring_inv k \<lparr>ring = ?r1, pcs = (pcs s)(0 := PopData ?pos), pushed = pushed s, returned = returned s\<rparr>"
    by (simp add: sys_eta)
  from inv_pop_data [OF this, of 0 ?pos]
  have 2: "ring_inv k \<lparr>ring = ?r1, pcs = (pcs s)(0 := PopStore ?pos ?c), pushed = pushed s,
    returned = returned s @ [(unat ?pos, ?c)]\<rparr>" (is "ring_inv k ?s2") by (simp add: cell)
  have "?c = x" using invD(3) [OF 2, of 0] split(1) by simp
  from inv_pop_store [OF 2, of 0 ?pos ?c]
  have 3: "ring_inv k \<lparr>ring = ?r3, pcs = (pcs s)(0 := PopRet 0 (Some ?c)), pushed = pushed s,
    returned = returned s @ [(unat ?pos, ?c)]\<rparr>" by simp
  from inv_local [OF this, of 0 Idle]
  have 4: "ring_inv k \<lparr>ring = ?r3, pcs = (pcs s)(0 := Idle), pushed = pushed s,
    returned = returned s @ [(unat ?pos, ?c)]\<rparr>" (is "ring_inv k ?s4") by simp
  have "unat (?pos + 1) = unat ?pos + 1" using lt invD(4,5) [OF inv] by (intro unat_Suc) simp
  then have "contents ?s4 = xs" using split(2) by (simp add: contents_def set_seq_def)
  with run 4 \<open>?c = x\<close> \<open>quiet s\<close> show ?thesis by (intro exI [of _ ?s4]) (simp add: quiet_def)
qed

lemma push_alone_full:
  assumes "ring_inv k s" and "quiet s" and "length (contents s) = 2 ^ k"
  shows "vgc_push (ring s) v = Some (- 1, ring s)"
proof -
  have "dif (ring s) (tail (ring s)) (tail (ring s)) < 0"
    using dif_tail [OF assms(1)] quiet_tail_seq(2) [OF assms] by linarith
  then show ?thesis by (simp add: vgc_push_def run_simps)
qed

lemma pop_alone_none:
  assumes "ring_inv k s" and "quiet s" and "contents s = []"
  shows "vgc_pop (ring s) = Some (- 1, None, ring s)"
proof -
  have "dif (ring s) (head (ring s)) (head (ring s) + 1) < 0"
    using dif_head [OF assms(1)] quiet_head_seq(2) [OF assms] by linarith
  then show ?thesis by (simp add: vgc_pop_def run_simps)
qed

interpretation rq: bounded_queue vgc_push vgc_pop "ring_rep k" "2 ^ k" for k
proof
  fix n and q :: "'a ringbuf" and xs v
  assume "ring_rep k (Suc n) q xs" and "length xs < 2 ^ k"
  then obtain s where s: "ring_inv k s" "quiet s" "ring s = q" "contents s = xs" "length (pushed s) + Suc n < 2 ^ 62"
    by (auto simp: ring_rep_def)
  with \<open>length xs < 2 ^ k\<close> obtain s' where "vgc_push (ring s) v = Some (0, ring s')" "ring_inv k s'" "quiet s'"
    "contents s' = contents s @ [v]" "length (pushed s') = length (pushed s) + 1"
    using push_alone_room [of k s v] by auto
  with s show "\<exists>q'. vgc_push q v = Some (0, q') \<and> ring_rep k n q' (xs @ [v])" by (auto simp: ring_rep_def)
next
  fix n and q :: "'a ringbuf" and xs v
  assume "ring_rep k n q xs" and "length xs = 2 ^ k"
  then show "vgc_push q v = Some (- 1, q)" using push_alone_full by (auto simp: ring_rep_def)
next
  fix n and q :: "'a ringbuf" and x xs
  assume "ring_rep k n q (x # xs)"
  then obtain s where s: "ring_inv k s" "quiet s" "ring s = q" "contents s = x # xs" "length (pushed s) + n < 2 ^ 62"
    by (auto simp: ring_rep_def)
  from pop_alone_some [OF s(1,2,4)] s show "\<exists>q'. vgc_pop q = Some (0, Some x, q') \<and> ring_rep k n q' xs"
    by (metis ring_rep_def)
next
  fix n and q :: "'a ringbuf"
  assume "ring_rep k n q []"
  then show "vgc_pop q = Some (- 1, None, q)" using pop_alone_none by (auto simp: ring_rep_def)
next
  fix n and q :: "'a ringbuf" and xs
  assume "ring_rep k n q xs"
  then obtain s where s: "ring_inv k s" "contents s = xs" by (auto simp: ring_rep_def)
  have "length (pushed s) \<le> unat (head (ring s)) + 2 ^ k" using invD(2) [OF s(1)] by (simp add: ok_def)
  then show "length xs \<le> 2 ^ k" using s(2) by (auto simp: contents_def)
qed

lemma fresh_ring_rep: "fresh_ring k rb \<Longrightarrow> n < 2 ^ 62 \<Longrightarrow> ring_rep k n rb []"
proof -
  assume "fresh_ring k rb" "n < 2 ^ 62"
  have "quiet (start_sys rb)" "ring (start_sys rb) = rb" "contents (start_sys rb) = []" "pushed (start_sys rb) = []"
    by (simp_all add: contents_def quiet_def start_sys_def)
  with inv_start [OF \<open>fresh_ring k rb\<close>] \<open>n < 2 ^ 62\<close> show "ring_rep k n rb []"
    unfolding ring_rep_def by (intro exI [of _ "start_sys rb"]) simp
qed

text \<open>A single thread can put any sequence that fits into a fresh ring and gets exactly that sequence back, in order, before
  the ring reports that it is empty.\<close>

theorem ring_roundtrip:
  assumes "fresh_ring k rb" and "length vs \<le> 2 ^ k" and "length vs < 2 ^ 62"
  shows "\<exists>rb' rb''. push_all vgc_push rb vs = Some (0, rb') \<and> drain vgc_pop (Suc (length vs)) rb' = Some (vs, rb'')"
  by (rule rq.push_all_drain [OF fresh_ring_rep [OF assms(1,3)] assms(2)])

theorem ring_roundtrip_witness:
  "\<exists>rb' rb''. push_all vgc_push ring2 [4, 5] = Some (0, rb') \<and> drain vgc_pop (Suc (length [4, 5 :: nat])) rb' = Some ([4, 5], rb'')"
proof -
  have "length [4, 5 :: nat] \<le> 2 ^ 1" "length [4, 5 :: nat] < 2 ^ 62" by simp_all
  from ring_roundtrip [OF fresh_ring2 this] show ?thesis .
qed

end
