(* ===== verification/Scheduler.thy ===== *)
theory Scheduler
  imports Vqueue
begin

text \<open>
  The fiber scheduler: \<^verbatim>\<open>src/fibers/scheduler.c\<close>, \<^verbatim>\<open>src/fibers/fiber.c\<close> and the queues of \<^verbatim>\<open>src/fibers/queue.c\<close> with their
  wake-up flag. Fibers and counters live at addresses; a pointer kept in a queue names a fiber or is the address of a
  local variable (\<open>LocalSlot\<close>), which one error path stores by mistake. \<^verbatim>\<open>vgc_make\<close> and \<^verbatim>\<open>vgc_jump\<close> are assembly: the first is an argument, and
  what a fiber does between two jumps is a change of the state between \<open>next_fiber\<close> and \<open>after_jump\<close>, the two halves of the
  body of \<^verbatim>\<open>vgc_scheduler_run\<close>. Queue operations are the undisturbed ones of \<open>Vqueue\<close>. \<open>None\<close> is undefined behaviour or a wait that only
  another thread can end; \<open>Exited\<close> is a call of \<^verbatim>\<open>exit\<close>.
\<close>

section \<open>Data\<close>

datatype fptr = FiberAt nat | LocalSlot

datatype fiber_priority = FIBER_LO | FIBER_MID | FIBER_HI | FIBER_OTHER int

datatype fiber_state = FIBER_START | FIBER_RESUME | FIBER_RUN | FIBER_WAIT | FIBER_DONE

text \<open>\<^verbatim>\<open>vgc_fiber\<close> together with the \<^verbatim>\<open>fiber_data\<close> its member \<^verbatim>\<open>fd\<close> points to.\<close>

record fiber =
  fdata :: nat
  ctx :: nat
  fid :: int
  fstate :: fiber_state
  priority :: fiber_priority
  dependency_count :: "nat option"
  parent_count :: "nat option"
  stack_limit :: u64
  stack_base :: u64

definition WAIT_FIBER_LEN :: nat where "WAIT_FIBER_LEN = 4"

record vgc_counter =
  lock :: int
  counter :: int
  waiters_len :: nat
  waiters :: "fptr option list"

record vgc_job =
  proc :: nat
  jdata :: nat
  jpriority :: fiber_priority

record world =
  hi_q :: "fptr ringbuf"
  mid_q :: "fptr ringbuf"
  lo_q :: "fptr ringbuf"
  free_q_pool :: "fptr ringbuf"
  is_waiter :: bool
  broadcasts :: nat
  fibers :: "nat \<Rightarrow> fiber"
  counters :: "nat \<Rightarrow> vgc_counter"

datatype 'a result = Returned 'a | Exited int

section \<open>Fibers\<close>

definition vgc_fiber_init :: "u64 \<Rightarrow> u64 \<Rightarrow> fiber \<Rightarrow> fiber" where
  "vgc_fiber_init stack sz fd =
     fd\<lparr>stack_base := (stack + (sz - 1)) AND NOT 15, stack_limit := stack, fstate := FIBER_START,
        parent_count := None, dependency_count := None\<rparr>"

definition vgc_fiber_assign :: "(u64 \<Rightarrow> u64 \<Rightarrow> nat \<Rightarrow> nat) \<Rightarrow> fiber \<Rightarrow> nat \<Rightarrow> fiber" where
  "vgc_fiber_assign mk fb p = fb\<lparr>ctx := mk (stack_base fb) (stack_limit fb) p\<rparr>"

text \<open>\<^verbatim>\<open>vgc_fiber_finish\<close> up to its jump back to the scheduler.\<close>

definition vgc_fiber_finish :: "nat \<Rightarrow> world \<Rightarrow> world" where
  "vgc_fiber_finish i w = w\<lparr>fibers := (fibers w)(i := (fibers w i)\<lparr>fstate := FIBER_DONE\<rparr>)\<rparr>"

section \<open>Queues with their scheduler\<close>

datatype ready = HiQ | MidQ | LoQ

fun queue_of :: "ready \<Rightarrow> world \<Rightarrow> fptr ringbuf" where
  "queue_of HiQ w = hi_q w"
| "queue_of MidQ w = mid_q w"
| "queue_of LoQ w = lo_q w"

fun set_queue :: "ready \<Rightarrow> fptr ringbuf \<Rightarrow> world \<Rightarrow> world" where
  "set_queue HiQ rb w = w\<lparr>hi_q := rb\<rparr>"
| "set_queue MidQ rb w = w\<lparr>mid_q := rb\<rparr>"
| "set_queue LoQ rb w = w\<lparr>lo_q := rb\<rparr>"

definition vgc_enqueue :: "ready \<Rightarrow> fptr \<Rightarrow> world \<Rightarrow> (int \<times> world) option" where
  "vgc_enqueue q f w =
     do { (r, rb) \<leftarrow> vgc_push (queue_of q w) f;
          let w = set_queue q rb w in
          if r \<noteq> 0 then Some (- 1, w)
          else Some (0, if is_waiter w then w\<lparr>broadcasts := Suc (broadcasts w)\<rparr> else w) }"

definition vgc_dequeue :: "ready \<Rightarrow> world \<Rightarrow> (int \<times> fptr option \<times> world) option" where
  "vgc_dequeue q w = do { (r, f, rb) \<leftarrow> vgc_pop (queue_of q w); Some (r, f, set_queue q rb w) }"

definition ready_of :: "fiber_priority \<Rightarrow> ready option" where
  "ready_of p = (case p of FIBER_HI \<Rightarrow> Some HiQ | FIBER_MID \<Rightarrow> Some MidQ | FIBER_LO \<Rightarrow> Some LoQ | FIBER_OTHER _ \<Rightarrow> None)"

section \<open>Counters\<close>

definition vgc_counter_init :: "int \<Rightarrow> vgc_counter" where
  "vgc_counter_init count =
     \<lparr>lock = 0, counter = count, waiters_len = 0, waiters = replicate WAIT_FIBER_LEN None\<rparr>"

text \<open>A held lock is released by another thread only.\<close>

definition vgc_counter_acquire :: "nat \<Rightarrow> world \<Rightarrow> world option" where
  "vgc_counter_acquire c w =
     (if lock (counters w c) = 0 then Some (w\<lparr>counters := (counters w)(c := (counters w c)\<lparr>lock := 1\<rparr>)\<rparr>) else None)"

definition vgc_counter_release :: "nat \<Rightarrow> world \<Rightarrow> world" where
  "vgc_counter_release c w = w\<lparr>counters := (counters w)(c := (counters w c)\<lparr>lock := 0\<rparr>)\<rparr>"

definition vgc_counter_add_waiter :: "nat \<Rightarrow> fptr \<Rightarrow> world \<Rightarrow> int \<times> world" where
  "vgc_counter_add_waiter c f w =
     (let ct = counters w c in
      if waiters_len ct = WAIT_FIBER_LEN then (- 1, w)
      else (0, w\<lparr>counters := (counters w)(c := ct\<lparr>waiters := (waiters ct)[waiters_len ct := Some f],
              waiters_len := waiters_len ct + 1\<rparr>)\<rparr>))"

section \<open>Jobs\<close>

definition vgc_job_init :: "nat \<Rightarrow> nat \<Rightarrow> fiber_priority \<Rightarrow> vgc_job" where
  "vgc_job_init p d prio = \<lparr>proc = p, jdata = d, jpriority = prio\<rparr>"

text \<open>The error exit stores \<^verbatim>\<open>(void **) &fiber\<close>, the address of the local variable.\<close>

definition enque_err :: "world \<Rightarrow> (int \<times> world) result option" where
  "enque_err w =
     do { (r, rb) \<leftarrow> vgc_push (free_q_pool w) LocalSlot;
          if r \<noteq> 0 then Some (Exited (- 1)) else Some (Returned (- 1, w\<lparr>free_q_pool := rb\<rparr>)) }"

definition vgc_enque_job ::
  "(u64 \<Rightarrow> u64 \<Rightarrow> nat \<Rightarrow> nat) \<Rightarrow> vgc_job \<Rightarrow> nat option \<Rightarrow> world \<Rightarrow> (int \<times> world) result option" where
  "vgc_enque_job mk job count w =
     do { (r, f, rb) \<leftarrow> vgc_pop (free_q_pool w);
          let w = w\<lparr>free_q_pool := rb\<rparr> in
          if r \<noteq> 0 then Some (Returned (- 1, w))
          else case f of
            Some (FiberAt i) \<Rightarrow>
              (let w = w\<lparr>fibers := (fibers w)(i := (vgc_fiber_assign mk (fibers w i) (proc job))
                     \<lparr>fdata := jdata job, priority := jpriority job, parent_count := count\<rparr>)\<rparr> in
               case ready_of (jpriority job) of
                 None \<Rightarrow> enque_err w
               | Some q \<Rightarrow>
                   do { (r, w) \<leftarrow> vgc_enqueue q (FiberAt i) w;
                        if r \<noteq> 0 then enque_err w else Some (Returned (0, w)) })
          | _ \<Rightarrow> None }"

definition vgc_schedule_job ::
  "(u64 \<Rightarrow> u64 \<Rightarrow> nat \<Rightarrow> nat) \<Rightarrow> vgc_job \<Rightarrow> nat option \<Rightarrow> world \<Rightarrow> (int \<times> world) result option" where
  "vgc_schedule_job mk job count w =
     vgc_enque_job mk job count
       (case count of None \<Rightarrow> w | Some c \<Rightarrow> w\<lparr>counters := (counters w)(c := vgc_counter_init 1)\<rparr>)"

text \<open>\<^verbatim>\<open>vgc_schedule_jobs\<close>: the loop from index \<open>i\<close>; a failure at index \<open>i\<close> returns \<open>i\<close>. A
  length beyond the array of jobs is undefined.\<close>

fun schedule_loop ::
  "(u64 \<Rightarrow> u64 \<Rightarrow> nat \<Rightarrow> nat) \<Rightarrow> nat option \<Rightarrow> int \<Rightarrow> vgc_job list \<Rightarrow> world \<Rightarrow> (int \<times> world) result option" where
  "schedule_loop mk count i [] w = Some (Returned (0, w))"
| "schedule_loop mk count i (job # jobs) w =
     do { res \<leftarrow> vgc_enque_job mk job count w;
          case res of
            Exited e \<Rightarrow> Some (Exited e)
          | Returned (r, w) \<Rightarrow>
              if r \<noteq> 0 then Some (Returned (i, w)) else schedule_loop mk count (i + 1) jobs w }"

definition vgc_schedule_jobs ::
  "(u64 \<Rightarrow> u64 \<Rightarrow> nat \<Rightarrow> nat) \<Rightarrow> vgc_job list \<Rightarrow> int \<Rightarrow> nat option \<Rightarrow> world \<Rightarrow> (int \<times> world) result option" where
  "vgc_schedule_jobs mk jobs len count w =
     (if nat len \<le> length jobs
      then schedule_loop mk count 0 (take (nat len) jobs)
             (case count of None \<Rightarrow> w
              | Some c \<Rightarrow> w\<lparr>counters := (counters w)(c := vgc_counter_init len)\<rparr>)
      else None)"

section \<open>Waiting\<close>

text \<open>
  \<^verbatim>\<open>vgc_wait_for_counter\<close> and \<^verbatim>\<open>vgc_wait_for_counter2\<close>, called by fiber \<open>i\<close>, up to their return (\<open>False\<close>) or their jump to the scheduler
  (\<open>True\<close>), which keeps the lock.
\<close>

definition suspend :: "nat \<Rightarrow> nat \<Rightarrow> world \<Rightarrow> world" where
  "suspend i c w = w\<lparr>fibers := (fibers w)(i := (fibers w i)\<lparr>fstate := FIBER_WAIT, dependency_count := Some c\<rparr>)\<rparr>"

definition vgc_wait_for_counter :: "nat \<Rightarrow> nat \<Rightarrow> world \<Rightarrow> (bool \<times> world) option" where
  "vgc_wait_for_counter i c w =
     do { w \<leftarrow> vgc_counter_acquire c w;
          if counter (counters w c) = 0 then Some (False, vgc_counter_release c w)
          else Some (True, suspend i c w) }"

definition vgc_wait_for_counter2 :: "nat \<Rightarrow> nat \<Rightarrow> world \<Rightarrow> (bool \<times> int \<times> world) option" where
  "vgc_wait_for_counter2 i c w =
     do { w \<leftarrow> vgc_counter_acquire c w;
          if counter (counters w c) = 0 then Some (False, 0, vgc_counter_release c w)
          else if waiters_len (counters w c) = WAIT_FIBER_LEN then Some (False, - 1, vgc_counter_release c w)
          else Some (True, 0, suspend i c w) }"

section \<open>The scheduler loop\<close>

text \<open>The fiber to run next: high, middle, low priority.\<close>

definition try_dequeue :: "world \<Rightarrow> (fptr option \<times> world) option" where
  "try_dequeue w =
     do { (r, f, w) \<leftarrow> vgc_dequeue HiQ w;
          if r = 0 then Some (f, w)
          else do { (r, f, w) \<leftarrow> vgc_dequeue MidQ w;
                    if r = 0 then Some (f, w)
                    else do { (r, f, w) \<leftarrow> vgc_dequeue LoQ w;
                              Some (if r = 0 then f else None, w) } } }"

text \<open>A round of the inner loop, with the mutex held: the thread announces that it waits and tries again; it stops waiting
  when it got a fiber and otherwise sleeps on the condition variable (\<open>None\<close> as the fiber).\<close>

definition waiter_round :: "world \<Rightarrow> (fptr option \<times> world) option" where
  "waiter_round w =
     do { (f, w) \<leftarrow> try_dequeue (w\<lparr>is_waiter := True\<rparr>);
          Some (f, if f = None then w else w\<lparr>is_waiter := False\<rparr>) }"

definition next_fiber :: "world \<Rightarrow> (fptr option \<times> world) option" where
  "next_fiber w = do { (f, w) \<leftarrow> try_dequeue w; if f = None then waiter_round w else Some (f, w) }"

text \<open>The fiber that was taken is marked before the jump into it.\<close>

definition dispatch :: "nat \<Rightarrow> world \<Rightarrow> world" where
  "dispatch i w = w\<lparr>fibers := (fibers w)(i := (fibers w i)\<lparr>fstate := FIBER_RUN\<rparr>)\<rparr>"

text \<open>The loop over the waiters of a counter that reached zero; the results of \<^verbatim>\<open>vgc_enqueue\<close> are ignored.\<close>

fun wake :: "fptr option list \<Rightarrow> world \<Rightarrow> world option" where
  "wake [] w = Some w"
| "wake (f # fs) w =
     (case f of
        Some (FiberAt i) \<Rightarrow>
          (case ready_of (priority (fibers w i)) of
             None \<Rightarrow> wake fs w
           | Some q \<Rightarrow> do { (_, w) \<leftarrow> vgc_enqueue q (FiberAt i) w; wake fs w })
      | _ \<Rightarrow> None)"

definition after_jump :: "nat \<Rightarrow> world \<Rightarrow> world result option" where
  "after_jump i w =
     (let fd = fibers w i in
      if fstate fd = FIBER_WAIT then
        do { c \<leftarrow> dependency_count fd;
             Some (Returned (vgc_counter_release c (snd (vgc_counter_add_waiter c (FiberAt i) w)))) }
      else case (fstate fd, parent_count fd) of
        (FIBER_DONE, Some c) \<Rightarrow>
          do { w \<leftarrow> vgc_counter_acquire c w;
               n \<leftarrow> iadd (counter (counters w c)) (- 1);
               let w = w\<lparr>counters := (counters w)(c := (counters w c)\<lparr>counter := n\<rparr>)\<rparr>;
               w \<leftarrow> (if n = 0 then wake (take (waiters_len (counters w c)) (waiters (counters w c))) w else Some w);
               let w = vgc_counter_release c w;
               (r, rb) \<leftarrow> vgc_push (free_q_pool w) (FiberAt i);
               if r \<noteq> 0 then Some (Exited 1) else Some (Returned (w\<lparr>free_q_pool := rb\<rparr>)) }
      | _ \<Rightarrow> Some (Returned w))"

section \<open>Initialisation\<close>

text \<open>A queue is its ring; the member \<^verbatim>\<open>sched\<close> of all queues is the one scheduler of the \<open>world\<close>.\<close>

definition vgc_queue_init :: "fptr cell list \<Rightarrow> u64 \<Rightarrow> fptr ringbuf option" where
  "vgc_queue_init cells sz = vgc_ringbuf_init cells sz"

text \<open>
  \<^verbatim>\<open>vgc_scheduler_init\<close>: \<open>cells i\<close> is what \<^verbatim>\<open>malloc\<close> returned for the \<open>i\<close>-th ring (its result is not checked), \<open>stack i\<close> the address of the
  \<open>i\<close>-th stack of 1 MiB and \<open>obj\<close> the contents of the fiber objects before they are set. A size that is not a power of two leaves the
  zeroed structure (\<open>Inl\<close>).
\<close>

fun init_pool :: "(nat \<Rightarrow> u64) \<Rightarrow> nat \<Rightarrow> nat \<Rightarrow> fptr ringbuf \<times> (nat \<Rightarrow> fiber) \<Rightarrow> (fptr ringbuf \<times> (nat \<Rightarrow> fiber)) option" where
  "init_pool stack i 0 s = Some s"
| "init_pool stack i (Suc n) (rb, fs) =
     do { (_, rb') \<leftarrow> vgc_push rb (FiberAt i);
          init_pool stack (Suc i) n
            (rb', fs(i := (vgc_fiber_init (stack i) (push_bit 20 1) (fs i))\<lparr>fid := int i\<rparr>)) }"

definition vgc_scheduler_init ::
  "(nat \<Rightarrow> fptr cell list option) \<Rightarrow> (nat \<Rightarrow> u64) \<Rightarrow> (nat \<Rightarrow> fiber) \<Rightarrow> u64 \<Rightarrow> (nat \<Rightarrow> vgc_counter) \<Rightarrow>
     (unit + world) option" where
  "vgc_scheduler_init cells stack obj sz cts =
     (if sz < 2 \<or> sz AND (sz - 1) \<noteq> 0 then Some (Inl ())
      else do { c0 \<leftarrow> cells 0; hi \<leftarrow> vgc_queue_init c0 sz;
                c1 \<leftarrow> cells 1; mid \<leftarrow> vgc_queue_init c1 sz;
                c2 \<leftarrow> cells 2; lo \<leftarrow> vgc_queue_init c2 sz;
                c3 \<leftarrow> cells 3; free \<leftarrow> vgc_ringbuf_init c3 sz;
                (pool, fs) \<leftarrow> init_pool stack 0 (unat sz) (free, obj);
                Some (Inr \<lparr>hi_q = hi, mid_q = mid, lo_q = lo, free_q_pool = pool, is_waiter = False, broadcasts = 0,
                          fibers = fs, counters = cts\<rparr>) })"

section \<open>What the queues hold\<close>

record lists =
  his :: "fptr list"
  mids :: "fptr list"
  los :: "fptr list"
  pool :: "fptr list"

text \<open>The four rings of \<open>2\<^sup>k\<close> cells hold these lists, and \<open>n\<close> more pushes fit the counters of each.\<close>

definition holds :: "nat \<Rightarrow> nat \<Rightarrow> world \<Rightarrow> lists \<Rightarrow> bool" where
  "holds k n w l \<longleftrightarrow> ring_rep k n (hi_q w) (his l) \<and> ring_rep k n (mid_q w) (mids l) \<and>
     ring_rep k n (lo_q w) (los l) \<and> ring_rep k n (free_q_pool w) (pool l)"

fun list_of :: "ready \<Rightarrow> lists \<Rightarrow> fptr list" where
  "list_of HiQ l = his l"
| "list_of MidQ l = mids l"
| "list_of LoQ l = los l"

fun set_list :: "ready \<Rightarrow> fptr list \<Rightarrow> lists \<Rightarrow> lists" where
  "set_list HiQ xs l = l\<lparr>his := xs\<rparr>"
| "set_list MidQ xs l = l\<lparr>mids := xs\<rparr>"
| "set_list LoQ xs l = l\<lparr>los := xs\<rparr>"

lemma rep_mono: "ring_rep k m rb xs \<Longrightarrow> n \<le> m \<Longrightarrow> ring_rep k n rb xs"
  unfolding ring_rep_def by (metis add_le_cancel_left order_le_less_trans)

lemma holds_mono: "holds k m w l \<Longrightarrow> n \<le> m \<Longrightarrow> holds k n w l"
  by (auto simp: holds_def intro: rep_mono)

lemma holds_queue: "holds k n w l \<Longrightarrow> ring_rep k n (queue_of q w) (list_of q l)"
  by (cases q) (simp_all add: holds_def)

lemma holds_set: "holds k n w l \<Longrightarrow> ring_rep k n rb xs \<Longrightarrow> holds k n (set_queue q rb w) (set_list q xs l)"
  by (cases q) (simp_all add: holds_def)

lemma holds_frame [simp]:
  "holds k n (w\<lparr>fibers := fs\<rparr>) l = holds k n w l" "holds k n (w\<lparr>counters := cs\<rparr>) l = holds k n w l"
  "holds k n (w\<lparr>is_waiter := b\<rparr>) l = holds k n w l" "holds k n (w\<lparr>broadcasts := m\<rparr>) l = holds k n w l"
  by (simp_all add: holds_def)

lemma set_queue_frame [simp]:
  "fibers (set_queue q rb w) = fibers w" "counters (set_queue q rb w) = counters w"
  "is_waiter (set_queue q rb w) = is_waiter w" "broadcasts (set_queue q rb w) = broadcasts w"
  "free_q_pool (set_queue q rb w) = free_q_pool w"
  by (cases q; simp)+

lemma enqueue_room:
  assumes "holds k (Suc n) w l" and "length (list_of q l) < 2 ^ k"
  shows "\<exists>w'. vgc_enqueue q f w = Some (0, w') \<and> holds k n w' (set_list q (list_of q l @ [f]) l) \<and>
    fibers w' = fibers w \<and> counters w' = counters w \<and>
    broadcasts w' = broadcasts w + (if is_waiter w then 1 else 0) \<and> is_waiter w' = is_waiter w"
proof -
  from rq.push_room [OF holds_queue [OF assms(1)] assms(2), of f] obtain rb where
    rb: "vgc_push (queue_of q w) f = Some (0, rb)" "ring_rep k n rb (list_of q l @ [f])" by blast
  have "holds k n (set_queue q rb w) (set_list q (list_of q l @ [f]) l)"
    by (rule holds_set [OF holds_mono [OF assms(1)] rb(2)]) simp
  with rb(1) show ?thesis by (simp add: vgc_enqueue_def Let_def)
qed

lemma set_queue_same [simp]: "set_queue q (queue_of q w) w = w"
  by (cases q) simp_all

lemma enqueue_full:
  "holds k n w l \<Longrightarrow> length (list_of q l) = 2 ^ k \<Longrightarrow> vgc_enqueue q f w = Some (- 1, w)"
  using rq.push_full [OF holds_queue] by (simp add: vgc_enqueue_def Let_def)

lemma dequeue_some:
  assumes "holds k n w l" and "list_of q l = f # fs"
  shows "\<exists>w'. vgc_dequeue q w = Some (0, Some f, w') \<and> holds k n w' (set_list q fs l) \<and>
    fibers w' = fibers w \<and> counters w' = counters w \<and> is_waiter w' = is_waiter w"
proof -
  from rq.pop_some holds_queue [OF assms(1), of q] assms(2) obtain rb where
    "vgc_pop (queue_of q w) = Some (0, Some f, rb)" "ring_rep k n rb fs" by metis
  with holds_set [OF assms(1)] show ?thesis by (simp add: vgc_dequeue_def)
qed

lemma dequeue_none: "holds k n w l \<Longrightarrow> list_of q l = [] \<Longrightarrow> vgc_dequeue q w = Some (- 1, None, w)"
  using rq.pop_none [of k n "queue_of q w"] holds_queue [of k n w l q] by (simp add: vgc_dequeue_def)

section \<open>Scheduling by priority\<close>

text \<open>Reference: the first fiber of the first list that is not empty.\<close>

definition take_next :: "lists \<Rightarrow> fptr option \<times> lists" where
  "take_next l =
     (case his l of f # fs \<Rightarrow> (Some f, l\<lparr>his := fs\<rparr>)
      | [] \<Rightarrow> (case mids l of f # fs \<Rightarrow> (Some f, l\<lparr>mids := fs\<rparr>)
        | [] \<Rightarrow> (case los l of f # fs \<Rightarrow> (Some f, l\<lparr>los := fs\<rparr>) | [] \<Rightarrow> (None, l))))"

lemma try_dequeue_takes:
  assumes "holds k n w l"
  shows "\<exists>w'. try_dequeue w = Some (fst (take_next l), w') \<and> holds k n w' (snd (take_next l)) \<and>
    fibers w' = fibers w \<and> counters w' = counters w \<and> is_waiter w' = is_waiter w"
proof (cases "his l")
  case (Cons f fs)
  then show ?thesis using dequeue_some [OF assms, of HiQ f fs] by (auto simp: try_dequeue_def take_next_def)
next
  case hi: Nil
  have none: "vgc_dequeue HiQ w = Some (- 1, None, w)" using dequeue_none [OF assms, of HiQ] hi by simp
  show ?thesis
  proof (cases "mids l")
    case (Cons f fs)
    then show ?thesis using dequeue_some [OF assms, of MidQ f fs] none hi
      by (auto simp: try_dequeue_def take_next_def)
  next
    case mid: Nil
    have none': "vgc_dequeue MidQ w = Some (- 1, None, w)" using dequeue_none [OF assms, of MidQ] mid by simp
    show ?thesis
    proof (cases "los l")
      case (Cons f fs)
      then show ?thesis using dequeue_some [OF assms, of LoQ f fs] none none' hi mid
        by (auto simp: try_dequeue_def take_next_def)
    next
      case Nil
      then show ?thesis using dequeue_none [OF assms, of LoQ] none none' hi mid assms
        by (auto simp: try_dequeue_def take_next_def)
    qed
  qed
qed

lemma next_priority:
  assumes "holds k n w l"
  shows "\<exists>w'. next_fiber w = Some (fst (take_next l), w') \<and> holds k n w' (snd (take_next l)) \<and>
    fibers w' = fibers w \<and> counters w' = counters w \<and>
    (is_waiter w' \<longleftrightarrow> fst (take_next l) = None \<or> is_waiter w)"
proof -
  obtain w1 where w1: "try_dequeue w = Some (fst (take_next l), w1)" "holds k n w1 (snd (take_next l))"
    "fibers w1 = fibers w" "counters w1 = counters w" "is_waiter w1 = is_waiter w"
    using try_dequeue_takes [OF assms] by blast
  show ?thesis
  proof (cases "fst (take_next l)")
    case (Some f)
    with w1 show ?thesis by (auto simp: next_fiber_def)
  next
    case None
    then have l: "take_next l = (None, l)" by (auto simp: take_next_def split: list.splits)
    then have "holds k n (w1\<lparr>is_waiter := True\<rparr>) l" using w1(2) by simp
    from try_dequeue_takes [OF this] l w1 None show ?thesis
      by (auto simp: next_fiber_def waiter_round_def)
  qed
qed

section \<open>Enqueueing jobs\<close>

definition configured :: "(u64 \<Rightarrow> u64 \<Rightarrow> nat \<Rightarrow> nat) \<Rightarrow> vgc_job \<Rightarrow> nat option \<Rightarrow> fiber \<Rightarrow> fiber" where
  "configured mk job count fb =
     (vgc_fiber_assign mk fb (proc job))\<lparr>fdata := jdata job, priority := jpriority job, parent_count := count\<rparr>"

lemma enque_none:
  assumes "holds k n w l" and "pool l = []"
  shows "vgc_enque_job mk job count w = Some (Returned (- 1, w))"
proof -
  have "vgc_pop (free_q_pool w) = Some (- 1, None, free_q_pool w)"
    using rq.pop_none [of k n] assms by (auto simp: holds_def)
  then show ?thesis by (simp add: vgc_enque_job_def Let_def)
qed

lemma pool_pop:
  assumes "holds k n w l" and "pool l = f # fs"
  shows "\<exists>rb. vgc_pop (free_q_pool w) = Some (0, Some f, rb) \<and> holds k n (w\<lparr>free_q_pool := rb\<rparr>) (l\<lparr>pool := fs\<rparr>)"
  using rq.pop_some [of k n "free_q_pool w" f fs] assms by (auto simp: holds_def)

lemma pool_push:
  assumes "holds k (Suc n) w l" and "length (pool l) < 2 ^ k"
  shows "\<exists>rb. vgc_push (free_q_pool w) f = Some (0, rb) \<and> holds k n (w\<lparr>free_q_pool := rb\<rparr>) (l\<lparr>pool := pool l @ [f]\<rparr>)"
proof -
  from assms have "ring_rep k (Suc n) (free_q_pool w) (pool l)" by (simp add: holds_def)
  from rq.push_room [OF this assms(2), of f] holds_mono [OF assms(1), of n] show ?thesis
    by (auto simp: holds_def)
qed

lemma enque_ok:
  assumes "holds k (Suc n) w l" and "pool l = FiberAt i # ps" and "ready_of (jpriority job) = Some q"
    and "length (list_of q l) < 2 ^ k"
  shows "\<exists>w'. vgc_enque_job mk job count w = Some (Returned (0, w')) \<and>
    holds k n w' (set_list q (list_of q l @ [FiberAt i]) (l\<lparr>pool := ps\<rparr>)) \<and>
    fibers w' = (fibers w)(i := configured mk job count (fibers w i)) \<and> counters w' = counters w"
proof -
  obtain rb where rb: "vgc_pop (free_q_pool w) = Some (0, Some (FiberAt i), rb)"
    "holds k (Suc n) (w\<lparr>free_q_pool := rb\<rparr>) (l\<lparr>pool := ps\<rparr>)"
    using pool_pop [OF assms(1,2)] by blast
  let ?w = "w\<lparr>free_q_pool := rb, fibers := (fibers w)(i := configured mk job count (fibers w i))\<rparr>"
  have len: "length (list_of q (l\<lparr>pool := ps\<rparr>)) < 2 ^ k" using assms(4) by (cases q) simp_all
  have same: "list_of q (l\<lparr>pool := ps\<rparr>) = list_of q l" by (cases q) simp_all
  have "holds k (Suc n) ?w (l\<lparr>pool := ps\<rparr>)" using rb(2) by simp
  from enqueue_room [OF this len, of "FiberAt i"] rb(1) assms(3) same show ?thesis
    by (auto simp: vgc_enque_job_def Let_def configured_def)
qed

lemma enque_full:
  assumes "holds k (Suc n) w l" and "pool l = FiberAt i # ps"
    and "case ready_of (jpriority job) of None \<Rightarrow> True | Some q \<Rightarrow> length (list_of q l) = 2 ^ k"
  shows "\<exists>w'. vgc_enque_job mk job count w = Some (Returned (- 1, w')) \<and> holds k n w' (l\<lparr>pool := ps @ [LocalSlot]\<rparr>)"
proof -
  obtain rb where rb: "vgc_pop (free_q_pool w) = Some (0, Some (FiberAt i), rb)"
    "holds k (Suc n) (w\<lparr>free_q_pool := rb\<rparr>) (l\<lparr>pool := ps\<rparr>)"
    using pool_pop [OF assms(1,2)] by blast
  let ?w = "w\<lparr>free_q_pool := rb, fibers := (fibers w)(i := configured mk job count (fibers w i))\<rparr>"
  have w: "holds k (Suc n) ?w (l\<lparr>pool := ps\<rparr>)" using rb(2) by simp
  have "length (pool l) \<le> 2 ^ k" using assms(1) rq.rep_cap by (auto simp: holds_def)
  then have "length (pool (l\<lparr>pool := ps\<rparr>)) < 2 ^ k" using assms(2) by simp
  from pool_push [OF w this, of LocalSlot] have err:
    "\<exists>w'. enque_err ?w = Some (Returned (- 1, w')) \<and> holds k n w' (l\<lparr>pool := ps @ [LocalSlot]\<rparr>)"
    by (auto simp: enque_err_def)
  show ?thesis
  proof (cases "ready_of (jpriority job)")
    case None
    with rb(1) err show ?thesis by (simp add: vgc_enque_job_def Let_def configured_def)
  next
    case (Some q)
    have "list_of q (l\<lparr>pool := ps\<rparr>) = list_of q l" by (cases q) simp_all
    with Some assms(3) have "vgc_enqueue q (FiberAt i) ?w = Some (- 1, ?w)" by (intro enqueue_full [OF w]) simp
    with Some rb(1) err show ?thesis by (simp add: vgc_enque_job_def Let_def configured_def)
  qed
qed

section \<open>Several jobs\<close>

definition place :: "vgc_job \<Rightarrow> lists \<Rightarrow> lists" where
  "place job l =
     (case (pool l, ready_of (jpriority job)) of
        (f # ps, Some q) \<Rightarrow> set_list q (list_of q l @ [f]) (l\<lparr>pool := ps\<rparr>)
      | _ \<Rightarrow> l)"

text \<open>There is a fiber and room for every job.\<close>

fun fits :: "nat \<Rightarrow> vgc_job list \<Rightarrow> lists \<Rightarrow> bool" where
  "fits k [] l = True"
| "fits k (job # jobs) l =
     ((case (pool l, ready_of (jpriority job)) of
         (FiberAt i # ps, Some q) \<Rightarrow> length (list_of q l) < 2 ^ k
       | _ \<Rightarrow> False) \<and> fits k jobs (place job l))"

text \<open>The fibers the jobs were given, in the order of the pool.\<close>

fun assigned ::
  "(u64 \<Rightarrow> u64 \<Rightarrow> nat \<Rightarrow> nat) \<Rightarrow> nat option \<Rightarrow> vgc_job list \<Rightarrow> fptr list \<Rightarrow> (nat \<Rightarrow> fiber) \<Rightarrow> nat \<Rightarrow> fiber" where
  "assigned mk count (job # jobs) (FiberAt i # ps) fs = assigned mk count jobs ps (fs(i := configured mk job count (fs i)))"
| "assigned mk count jobs ps fs = fs"

lemma pool_set_list [simp]: "pool (set_list q xs l) = pool l"
  by (cases q) simp_all

lemma schedule_loop_all:
  "holds k (n + length jobs) w l \<Longrightarrow> fits k jobs l \<Longrightarrow>
     \<exists>w'. schedule_loop mk count i jobs w = Some (Returned (0, w')) \<and> holds k n w' (fold place jobs l) \<and>
       counters w' = counters w \<and> fibers w' = assigned mk count jobs (pool l) (fibers w)"
proof (induction jobs arbitrary: i w l)
  case (Cons job jobs)
  from Cons.prems(2) obtain j ps q where j: "pool l = FiberAt j # ps" "ready_of (jpriority job) = Some q"
    "length (list_of q l) < 2 ^ k" and fits: "fits k jobs (place job l)"
    by (auto split: list.splits fptr.splits option.splits)
  have "holds k (Suc (n + length jobs)) w l" using Cons.prems(1) by simp
  from enque_ok [OF this j, of mk count] obtain w1 where w1:
    "vgc_enque_job mk job count w = Some (Returned (0, w1))" "holds k (n + length jobs) w1 (place job l)"
    "counters w1 = counters w" "fibers w1 = (fibers w)(j := configured mk job count (fibers w j))"
    by (auto simp: place_def j)
  have "pool (place job l) = ps" by (simp add: place_def j)
  with Cons.IH [OF w1(2) fits, of "i + 1"] w1 j(1) show ?case by (auto simp: fun_upd_def)
qed auto

lemma schedule_all:
  assumes "holds k (n + length jobs) w l" and "fits k jobs l"
  shows "\<exists>w'. vgc_schedule_jobs mk jobs (int (length jobs)) (Some c) w = Some (Returned (0, w')) \<and>
    holds k n w' (fold place jobs l) \<and> counters w' = (counters w)(c := vgc_counter_init (int (length jobs))) \<and>
    fibers w' = assigned mk (Some c) jobs (pool l) (fibers w)"
proof -
  let ?w = "w\<lparr>counters := (counters w)(c := vgc_counter_init (int (length jobs)))\<rparr>"
  have "holds k (n + length jobs) ?w l" using assms(1) by simp
  from schedule_loop_all [OF this assms(2), of mk "Some c" 0] show ?thesis
    by (simp add: vgc_schedule_jobs_def)
qed

section \<open>Completion\<close>

text \<open>The waiters of priority \<open>q\<close>, appended to their queues.\<close>

definition ready_part :: "(nat \<Rightarrow> fiber) \<Rightarrow> ready \<Rightarrow> nat list \<Rightarrow> fptr list" where
  "ready_part fs q is = map FiberAt (filter (\<lambda>i. ready_of (priority (fs i)) = Some q) is)"

definition add_ready :: "(nat \<Rightarrow> fiber) \<Rightarrow> nat list \<Rightarrow> lists \<Rightarrow> lists" where
  "add_ready fs is l =
     l\<lparr>his := his l @ ready_part fs HiQ is, mids := mids l @ ready_part fs MidQ is, los := los l @ ready_part fs LoQ is\<rparr>"

lemma add_ready_Cons:
  "ready_of (priority (fs i)) = Some q \<Longrightarrow>
     add_ready fs (i # is) l = add_ready fs is (set_list q (list_of q l @ [FiberAt i]) l)"
  by (cases q) (simp_all add: add_ready_def ready_part_def)

lemma wake_all:
  assumes "holds k (n + length is) w l" and "\<forall>i \<in> set is. ready_of (priority (fibers w i)) \<noteq> None"
    and "\<forall>q. length (list_of q l) + length is \<le> 2 ^ k"
  shows "\<exists>w'. wake (map (\<lambda>i. Some (FiberAt i)) is) w = Some w' \<and> holds k n w' (add_ready (fibers w) is l) \<and>
    fibers w' = fibers w \<and> counters w' = counters w"
  using assms
proof (induction "is" arbitrary: w l)
  case Nil
  then show ?case by (simp add: add_ready_def ready_part_def)
next
  case (Cons i "is")
  then obtain q where q: "ready_of (priority (fibers w i)) = Some q" by auto
  have "length (list_of q l) < 2 ^ k" using Cons.prems(3) [rule_format, of q] by simp
  moreover have "holds k (Suc (n + length is)) w l" using Cons.prems(1) by simp
  ultimately obtain w1 where w1: "vgc_enqueue q (FiberAt i) w = Some (0, w1)"
    "holds k (n + length is) w1 (set_list q (list_of q l @ [FiberAt i]) l)" "fibers w1 = fibers w" "counters w1 = counters w"
    using enqueue_room by blast
  have len: "length (list_of q' (set_list q (list_of q l @ [FiberAt i]) l)) + length is \<le> 2 ^ k" for q'
    using Cons.prems(3) [rule_format, of q'] by (cases q; cases q') simp_all
  have prio: "\<forall>i \<in> set is. ready_of (priority (fibers w1 i)) \<noteq> None" using Cons.prems(2) w1(3) by simp
  from Cons.IH [OF w1(2) prio] len obtain w' where "wake (map (\<lambda>i. Some (FiberAt i)) is) w1 = Some w'"
    "holds k n w' (add_ready (fibers w1) is (set_list q (list_of q l @ [FiberAt i]) l))"
    "fibers w' = fibers w1" "counters w' = counters w1" by blast
  with q w1 show ?case by (simp add: add_ready_Cons)
qed

end
