(* ===== verification/SchedCycle.thy ===== *)
theory SchedCycle
  imports Scheduler
begin

text \<open>
  Jobs from scheduling to completion: what the scheduler does after a fiber has jumped back, the whole cycle of a job on an idle
  scheduler, and initialisation. \<open>run_job\<close> composes the operations of \<open>Scheduler\<close> the way one worker thread does for a job that
  runs to its end without waiting.
\<close>

definition run_job ::
  "(u64 \<Rightarrow> u64 \<Rightarrow> nat \<Rightarrow> nat) \<Rightarrow> vgc_job \<Rightarrow> nat option \<Rightarrow> world \<Rightarrow> world result option" where
  "run_job mk job count w =
     do { res \<leftarrow> vgc_schedule_job mk job count w;
          case res of
            Exited e \<Rightarrow> Some (Exited e)
          | Returned (r, w) \<Rightarrow>
              do { (f, w) \<leftarrow> next_fiber w;
                   case f of
                     Some (FiberAt i) \<Rightarrow> after_jump i (vgc_fiber_finish i (dispatch i w))
                   | _ \<Rightarrow> None } }"

fun run_jobs :: "(u64 \<Rightarrow> u64 \<Rightarrow> nat \<Rightarrow> nat) \<Rightarrow> vgc_job list \<Rightarrow> nat option \<Rightarrow> world \<Rightarrow> world result option" where
  "run_jobs mk [] count w = Some (Returned w)"
| "run_jobs mk (job # jobs) count w =
     do { res \<leftarrow> run_job mk job count w;
          case res of Exited e \<Rightarrow> Some (Exited e) | Returned w \<Rightarrow> run_jobs mk jobs count w }"

section \<open>A finished fiber\<close>

lemma add_ready_frame [simp]: "pool (add_ready fs is l) = pool l"
  by (simp add: add_ready_def)

lemma add_ready_Nil [simp]: "add_ready fs [] l = l"
  by (simp add: add_ready_def ready_part_def)

lemma lock_same: "lock ct = 0 \<Longrightarrow> ct\<lparr>counter := m, lock := 0\<rparr> = ct\<lparr>counter := m\<rparr>"
  by (cases ct) simp

lemma finished_step:
  assumes "holds k (Suc n + length is) w l" and "fstate (fibers w i) = FIBER_DONE" and "parent_count (fibers w i) = Some c"
    and "lock (counters w c) = 0" and "counter (counters w c) = m" and "1 \<le> m" and "m \<le> INT_MAX"
    and "take (waiters_len (counters w c)) (waiters (counters w c)) = map (\<lambda>i. Some (FiberAt i)) is"
    and "\<forall>i \<in> set is. ready_of (priority (fibers w i)) \<noteq> None"
    and "\<forall>q. length (list_of q l) + length is \<le> 2 ^ k" and "length (pool l) < 2 ^ k"
  shows "\<exists>w'. after_jump i w = Some (Returned w') \<and>
    holds k n w' ((if m = 1 then add_ready (fibers w) is l else l)\<lparr>pool := pool l @ [FiberAt i]\<rparr>) \<and>
    fibers w' = fibers w \<and> counters w' = (counters w)(c := (counters w c)\<lparr>counter := m - 1\<rparr>)"
proof -
  let ?ct = "(counters w c)\<lparr>lock := 1, counter := m - 1\<rparr>"
  let ?w1 = "w\<lparr>counters := (counters w)(c := ?ct)\<rparr>" and ?l = "if m = 1 then add_ready (fibers w) is l else l"
  have acq: "vgc_counter_acquire c w = Some (w\<lparr>counters := (counters w)(c := (counters w c)\<lparr>lock := 1\<rparr>)\<rparr>)"
    using assms(4) by (simp add: vgc_counter_acquire_def)
  have dec: "iadd m (- 1) = Some (m - 1)" using assms(6,7) by (simp add: iadd_def INT_MIN_def)
  have h1: "holds k (Suc n + length is) ?w1 l" using assms(1) by simp
  obtain w2 where w2: "(if m - 1 = 0 then wake (take (waiters_len ?ct) (waiters ?ct)) ?w1 else Some ?w1) = Some w2"
    "holds k (Suc n) w2 ?l" "fibers w2 = fibers w" "counters w2 = counters ?w1"
  proof (cases "m = 1")
    case True
    from wake_all [OF h1] assms(8-10) True that show ?thesis by auto
  next
    case False
    with holds_mono [OF h1, of "Suc n"] that show ?thesis by auto
  qed
  have h3: "holds k (Suc n) (vgc_counter_release c w2) ?l" using w2(2) by (simp add: vgc_counter_release_def)
  have pl: "pool ?l = pool l" by simp
  obtain rb where rb: "vgc_push (free_q_pool w2) (FiberAt i) = Some (0, rb)"
    "holds k n ((vgc_counter_release c w2)\<lparr>free_q_pool := rb\<rparr>) (?l\<lparr>pool := pool l @ [FiberAt i]\<rparr>)"
    using pool_push [OF h3, of "FiberAt i"] assms(11) unfolding pl by (auto simp: vgc_counter_release_def)
  have ct: "counters ((vgc_counter_release c w2)\<lparr>free_q_pool := rb\<rparr>) =
    (counters w)(c := (counters w c)\<lparr>counter := m - 1\<rparr>)"
    using w2(4) assms(4) by (simp add: vgc_counter_release_def lock_same)
  have "after_jump i w = Some (Returned ((vgc_counter_release c w2)\<lparr>free_q_pool := rb\<rparr>))"
    using assms(2,3,5) acq dec w2(1) rb(1)
    by (cases "m = 1") (auto simp: after_jump_def Let_def vgc_counter_release_def)
  with rb(2) ct w2(3) show ?thesis by (simp add: vgc_counter_release_def)
qed

section \<open>A job on an idle scheduler\<close>

definition idle :: "fptr list \<Rightarrow> lists" where
  "idle ps = \<lparr>his = [], mids = [], los = [], pool = ps\<rparr>"

lemma idle_simps [simp]: "list_of q (idle ps) = []" "pool (idle ps) = ps" "(idle ps)\<lparr>pool := qs\<rparr> = idle qs"
  by (cases q) (simp_all add: idle_def)

lemma take_only: "take_next (set_list q [f] (idle ps)) = (Some f, idle ps)"
  by (cases q) (simp_all add: take_next_def idle_def)

definition counted :: "nat option \<Rightarrow> (nat \<Rightarrow> vgc_counter) \<Rightarrow> nat \<Rightarrow> vgc_counter" where
  "counted count cs = (case count of None \<Rightarrow> cs | Some c \<Rightarrow> cs(c := vgc_counter_init 1))"

lemma schedule_then_next:
  assumes "holds k (Suc n) w (idle (FiberAt i # ps))" and "ready_of (jpriority job) = Some q"
  shows "\<exists>w1 w2. vgc_schedule_job mk job count w = Some (Returned (0, w1)) \<and>
    next_fiber w1 = Some (Some (FiberAt i), w2) \<and> holds k n w2 (idle ps) \<and>
    fibers w2 = (fibers w)(i := configured mk job count (fibers w i)) \<and> counters w2 = counted count (counters w)"
proof -
  let ?w = "w\<lparr>counters := counted count (counters w)\<rparr>"
  have w: "vgc_schedule_job mk job count w = vgc_enque_job mk job count ?w"
    by (cases count) (simp_all add: vgc_schedule_job_def counted_def)
  have "holds k (Suc n) ?w (idle (FiberAt i # ps))" using assms(1) by simp
  from enque_ok [OF this _ assms(2), of i ps mk count] obtain w1 where w1:
    "vgc_enque_job mk job count ?w = Some (Returned (0, w1))" "holds k n w1 (set_list q [FiberAt i] (idle ps))"
    "fibers w1 = (fibers w)(i := configured mk job count (fibers w i))" "counters w1 = counted count (counters w)"
    by auto
  obtain w2 where "next_fiber w1 = Some (Some (FiberAt i), w2)" "holds k n w2 (idle ps)" "fibers w2 = fibers w1"
    "counters w2 = counters w1"
    using next_priority [OF w1(2)] by (auto simp: take_only)
  with w w1 show ?thesis by auto
qed

lemma pool_length: "holds k n w l \<Longrightarrow> length (pool l) \<le> 2 ^ k"
  using rq.rep_cap by (auto simp: holds_def)

lemma run_job_counted:
  assumes "holds k (Suc (Suc n)) w (idle (FiberAt i # ps))" and "ready_of (jpriority job) = Some q"
  shows "\<exists>w'. run_job mk job (Some c) w = Some (Returned w') \<and> holds k n w' (idle (ps @ [FiberAt i])) \<and>
    counters w' = (counters w)(c := vgc_counter_init 0)"
proof -
  obtain w1 w2 where w: "vgc_schedule_job mk job (Some c) w = Some (Returned (0, w1))"
    "next_fiber w1 = Some (Some (FiberAt i), w2)" "holds k (Suc n) w2 (idle ps)"
    "fibers w2 = (fibers w)(i := configured mk job (Some c) (fibers w i))"
    "counters w2 = (counters w)(c := vgc_counter_init 1)"
    using schedule_then_next [OF assms, of mk "Some c"] by (auto simp: counted_def)
  let ?w = "vgc_fiber_finish i (dispatch i w2)"
  have st: "fstate (fibers ?w i) = FIBER_DONE" "parent_count (fibers ?w i) = Some c" "counters ?w = counters w2"
    "holds k (Suc n) ?w (idle ps)"
    using w(3,4) by (simp_all add: vgc_fiber_finish_def dispatch_def configured_def)
  have "length ps < 2 ^ k" using pool_length [OF assms(1)] by simp
  then have "\<exists>w'. after_jump i ?w = Some (Returned w') \<and> holds k n w' (idle (ps @ [FiberAt i])) \<and>
    counters w' = (counters ?w)(c := (counters ?w c)\<lparr>counter := 0\<rparr>)"
    using finished_step [of k n "[]" ?w "idle ps" i c 1] st w(5)
    by (auto simp: vgc_counter_init_def INT_MAX_def)
  with w(1,2,5) st(3) show ?thesis by (auto simp: run_job_def vgc_counter_init_def)
qed

lemma run_job_uncounted:
  assumes "holds k (Suc n) w (idle (FiberAt i # ps))" and "ready_of (jpriority job) = Some q"
  shows "\<exists>w'. run_job mk job None w = Some (Returned w') \<and> holds k n w' (idle ps)"
proof -
  obtain w1 w2 where w: "vgc_schedule_job mk job None w = Some (Returned (0, w1))"
    "next_fiber w1 = Some (Some (FiberAt i), w2)" "holds k n w2 (idle ps)"
    "fibers w2 = (fibers w)(i := configured mk job None (fibers w i))"
    using schedule_then_next [OF assms, of mk None] by auto
  let ?w = "vgc_fiber_finish i (dispatch i w2)"
  have "after_jump i ?w = Some (Returned ?w)" "holds k n ?w (idle ps)"
    using w(3,4) by (simp_all add: after_jump_def Let_def vgc_fiber_finish_def dispatch_def configured_def)
  with w(1,2) show ?thesis by (auto simp: run_job_def)
qed

text \<open>C13. Any number of jobs, one after the other: with a counter every job is dispatched, runs to its end, brings its counter to zero
  and returns its fiber to the pool, so that fibers are reused in turn.\<close>

theorem job_lifecycle:
  assumes "holds k (n + 2 * length jobs) w (idle (map FiberAt (i # is)))"
    and "list_all (\<lambda>job. ready_of (jpriority job) \<noteq> None) jobs" and "jobs \<noteq> []"
  shows "\<exists>w'. run_jobs mk jobs (Some c) w = Some (Returned w') \<and>
    holds k n w' (idle (map FiberAt (rotate (length jobs) (i # is)))) \<and> counters w' = (counters w)(c := vgc_counter_init 0)"
  using assms
proof (induction jobs arbitrary: w i "is")
  case (Cons job jobs)
  then obtain q where q: "ready_of (jpriority job) = Some q" by auto
  have "holds k (Suc (Suc (n + 2 * length jobs))) w (idle (FiberAt i # map FiberAt is))" using Cons.prems(1) by simp
  from run_job_counted [OF this q, of mk c] obtain w1 where w1: "run_job mk job (Some c) w = Some (Returned w1)"
    "holds k (n + 2 * length jobs) w1 (idle (map FiberAt (is @ [i])))" "counters w1 = (counters w)(c := vgc_counter_init 0)"
    by auto
  have rot: "rotate (length (job # jobs)) (i # is) = rotate (length jobs) (is @ [i])"
    by (simp add: rotate1_rotate_swap [symmetric] del: rotate1_rotate_swap) (simp add: rotate1_rotate_swap)
  show ?case
  proof (cases "jobs = []")
    case True
    with w1 rot show ?thesis by auto
  next
    case False
    obtain j js where js: "is @ [i] = j # js" by (cases "is @ [i]") auto
    have "list_all (\<lambda>job. ready_of (jpriority job) \<noteq> None) jobs" using Cons.prems(2) by simp
    from Cons.IH [OF w1(2) [unfolded js] this False] w1(1,3) rot js show ?thesis by (auto simp: fun_eq_iff)
  qed
qed simp

text \<open>Without a counter no fiber comes back: after as many jobs as there are fibers the pool is empty, although all jobs have
  finished, and scheduling fails from then on.\<close>

theorem fibers_leak:
  assumes "holds k (n + length jobs) w (idle (map FiberAt is))"
    and "list_all (\<lambda>job. ready_of (jpriority job) \<noteq> None) jobs" and "length jobs = length is"
  shows "\<exists>w'. run_jobs mk jobs None w = Some (Returned w') \<and> holds k n w' (idle []) \<and>
    (\<forall>job count. vgc_enque_job mk job count w' = Some (Returned (- 1, w')))"
  using assms
proof (induction jobs arbitrary: w "is")
  case Nil
  then have "holds k n w (idle [])" by simp
  with enque_none [OF this] show ?case by simp
next
  case (Cons job jobs)
  then obtain i js where js: "is = i # js" by (cases "is") auto
  from Cons.prems obtain q where q: "ready_of (jpriority job) = Some q" by auto
  have "holds k (Suc (n + length jobs)) w (idle (FiberAt i # map FiberAt js))" using Cons.prems(1) js by simp
  from run_job_uncounted [OF this q, of mk] obtain w1 where w1: "run_job mk job None w = Some (Returned w1)"
    "holds k (n + length jobs) w1 (idle (map FiberAt js))" by auto
  from Cons.IH [OF w1(2)] Cons.prems(2,3) js w1(1) show ?case by auto
qed

section \<open>Waiting for a counter\<close>

definition counter_ok :: "vgc_counter \<Rightarrow> bool" where
  "counter_ok ct \<longleftrightarrow> length (waiters ct) = WAIT_FIBER_LEN \<and> waiters_len ct \<le> WAIT_FIBER_LEN"

definition waiting :: "vgc_counter \<Rightarrow> fptr option list" where
  "waiting ct = take (waiters_len ct) (waiters ct)"

text \<open>A fiber that waits and the scheduler's half of it.\<close>

definition wait_step :: "nat \<Rightarrow> nat \<Rightarrow> world \<Rightarrow> world result option" where
  "wait_step j c w = do { (jumped, w) \<leftarrow> vgc_wait_for_counter j c w; if jumped then after_jump j w else Some (Returned w) }"

lemma wait_step_full:
  assumes "lock (counters w c) = 0" and "counter (counters w c) \<noteq> 0"
  shows "wait_step j c w = Some (Returned
    (w\<lparr>counters := (counters w)(c := if waiters_len (counters w c) = WAIT_FIBER_LEN then counters w c
         else (counters w c)\<lparr>waiters := (waiters (counters w c))[waiters_len (counters w c) := Some (FiberAt j)],
           waiters_len := waiters_len (counters w c) + 1\<rparr>),
       fibers := (fibers w)(j := (fibers w j)\<lparr>fstate := FIBER_WAIT, dependency_count := Some c\<rparr>)\<rparr>))"
proof -
  have "(counters w c)\<lparr>lock := 0\<rparr> = counters w c" using assms(1) by (cases "counters w c") simp
  with assms show ?thesis
    by (cases "counters w c")
      (auto simp: wait_step_def vgc_wait_for_counter_def vgc_counter_acquire_def suspend_def after_jump_def Let_def
        vgc_counter_release_def vgc_counter_add_waiter_def fun_eq_iff)
qed

lemma waiting_snoc:
  assumes "counter_ok ct" and "waiters_len ct < WAIT_FIBER_LEN"
  shows "waiting (ct\<lparr>waiters := (waiters ct)[waiters_len ct := Some f], waiters_len := waiters_len ct + 1\<rparr>) =
    waiting ct @ [Some f]"
  using assms by (simp add: waiting_def counter_ok_def take_Suc_conv_app_nth take_update_cancel)

text \<open>A fiber that waits for an unfinished counter with a free slot is recorded last among its waiters, the lock is free again
  and nothing else changed but the fiber's own state.\<close>

theorem wait_recorded:
  assumes "counter_ok (counters w c)" and "waiters_len (counters w c) < WAIT_FIBER_LEN"
    and "lock (counters w c) = 0" and "counter (counters w c) \<noteq> 0"
  shows "\<exists>w'. wait_step j c w = Some (Returned w') \<and> waiting (counters w' c) = waiting (counters w c) @ [Some (FiberAt j)] \<and>
    counter_ok (counters w' c) \<and> lock (counters w' c) = 0 \<and> counter (counters w' c) = counter (counters w c) \<and>
    fstate (fibers w' j) = FIBER_WAIT \<and> (\<forall>d. d = c \<or> counters w' d = counters w d) \<and>
    (\<forall>k n l. holds k n w' l = holds k n w l)"
  using wait_step_full [OF assms(3,4), of j] waiting_snoc [OF assms(1,2), of "FiberAt j"] assms
  by (simp add: counter_ok_def)

lemma counter_init_ok: "counter_ok (vgc_counter_init m)" "waiting (vgc_counter_init m) = []"
  "lock (vgc_counter_init m) = 0" "counter (vgc_counter_init m) = m" "waiters_len (vgc_counter_init m) = 0"
  by (simp_all add: counter_ok_def vgc_counter_init_def waiting_def)

text \<open>C14. A fiber that waits for a job is queued again, at the end of the queue of its priority, by the scheduler that sees the job
  finish; the job's fiber is free again and the counter is zero.\<close>

theorem wait_then_woken:
  assumes "holds k (Suc (Suc n)) w l" and "counters w c = vgc_counter_init 1" and "parent_count (fibers w i) = Some c"
    and "i \<noteq> j" and "ready_of (priority (fibers w j)) = Some q"
    and "\<forall>q. length (list_of q l) < 2 ^ k" and "length (pool l) < 2 ^ k"
  shows "\<exists>w1 w2. wait_step j c w = Some (Returned w1) \<and> after_jump i (vgc_fiber_finish i w1) = Some (Returned w2) \<and>
    holds k n w2 ((set_list q (list_of q l @ [FiberAt j]) l)\<lparr>pool := pool l @ [FiberAt i]\<rparr>) \<and>
    counter (counters w2 c) = 0 \<and> lock (counters w2 c) = 0"
proof -
  let ?ct = "(vgc_counter_init 1)\<lparr>waiters := (waiters (vgc_counter_init 1))[0 := Some (FiberAt j)], waiters_len := 1\<rparr>"
  let ?w1 = "w\<lparr>counters := (counters w)(c := ?ct),
    fibers := (fibers w)(j := (fibers w j)\<lparr>fstate := FIBER_WAIT, dependency_count := Some c\<rparr>)\<rparr>"
  let ?w = "vgc_fiber_finish i ?w1"
  have w1: "wait_step j c w = Some (Returned ?w1)"
    using wait_step_full [of w c j] assms(2) by (simp add: counter_init_ok WAIT_FIBER_LEN_def)
  have h: "holds k (Suc n + length [j]) ?w l" using assms(1) by (simp add: vgc_fiber_finish_def)
  have f: "fstate (fibers ?w i) = FIBER_DONE" "parent_count (fibers ?w i) = Some c" "priority (fibers ?w j) = priority (fibers w j)"
    "counters ?w c = ?ct"
    using assms(3,4) by (simp_all add: vgc_fiber_finish_def)
  have wt: "take (waiters_len ?ct) (waiters ?ct) = map (\<lambda>i. Some (FiberAt i)) [j]"
    by (simp add: vgc_counter_init_def WAIT_FIBER_LEN_def numeral_eq_Suc)
  have room: "\<forall>q. length (list_of q l) + length [j] \<le> 2 ^ k" using assms(6) by (simp add: Suc_leI)
  have add: "add_ready (fibers ?w) [j] l = set_list q (list_of q l @ [FiberAt j]) l"
    using add_ready_Cons [of "fibers ?w" j q "[]" l] assms(5) f(3) by simp
  have "\<exists>w'. after_jump i ?w = Some (Returned w') \<and>
    holds k n w' ((if (1 :: int) = 1 then add_ready (fibers ?w) [j] l else l)\<lparr>pool := pool l @ [FiberAt i]\<rparr>) \<and>
    fibers w' = fibers ?w \<and> counters w' = (counters ?w)(c := (counters ?w c)\<lparr>counter := 1 - 1\<rparr>)"
    by (rule finished_step [OF h f(1,2)])
      (use f(3,4) wt room assms(5,7) in \<open>simp_all add: counter_init_ok INT_MAX_def\<close>)
  then obtain w' where "after_jump i ?w = Some (Returned w')"
    "holds k n w' ((set_list q (list_of q l @ [FiberAt j]) l)\<lparr>pool := pool l @ [FiberAt i]\<rparr>)"
    "counters w' c = ?ct\<lparr>counter := 0\<rparr>"
    unfolding add f(4) by auto
  with w1 show ?thesis by (intro exI [of _ ?w1] exI [of _ w']) (simp add: counter_init_ok)
qed

text \<open>When all four waiter slots are taken, \<^verbatim>\<open>vgc_wait_for_counter2\<close> refuses with \<open>-1\<close> and leaves the state alone, while the unchecked
  \<^verbatim>\<open>vgc_wait_for_counter\<close> suspends the fiber without recording it anywhere: nothing will ever resume it.\<close>

theorem waiters_full:
  assumes "waiters_len (counters w c) = WAIT_FIBER_LEN" and "lock (counters w c) = 0" and "counter (counters w c) \<noteq> 0"
  shows "vgc_wait_for_counter2 j c w = Some (False, - 1, w) \<and>
    (\<exists>w'. wait_step j c w = Some (Returned w') \<and> fstate (fibers w' j) = FIBER_WAIT \<and> counters w' = counters w \<and>
      (\<forall>k n l. holds k n w' l = holds k n w l))"
proof -
  have "(counters w c)\<lparr>lock := 0\<rparr> = counters w c" using assms(2) by (cases "counters w c") simp
  then have "w\<lparr>counters := (counters w)(c := (counters w c)\<lparr>lock := 0\<rparr>)\<rparr> = w" by simp
  then have "vgc_wait_for_counter2 j c w = Some (False, - 1, w)"
    using assms by (simp add: vgc_wait_for_counter2_def vgc_counter_acquire_def vgc_counter_release_def)
  with wait_step_full [OF assms(2,3), of j] assms(1) show ?thesis by simp
qed

section \<open>Initialisation\<close>

definition init_fiber :: "u64 \<Rightarrow> nat \<Rightarrow> fiber \<Rightarrow> fiber" where
  "init_fiber stack i fb = (vgc_fiber_init stack (push_bit 20 1) fb)\<lparr>fid := int i\<rparr>"

lemma align_down: "unat ((x :: u64) AND NOT 15) = unat x - unat x mod 16"
proof -
  have 15: "(15 :: u64) = mask 4" by (simp add: mask_eq_exp_minus_1)
  have "x AND NOT 15 = push_bit 4 (drop_bit 4 x)"
    unfolding 15 by (rule bit_word_eqI) (auto simp: bit_simps)
  moreover have "unat (push_bit 4 (drop_bit 4 x)) = unat x div 16 * 16"
  proof -
    have "unat x div 16 * 16 \<le> unat x" by simp
    also have "\<dots> < 2 ^ 64" using unsigned_less [of x] by simp
    finally show ?thesis by (simp add: push_bit_eq_mult drop_bit_eq_div unat_word_ariths unat_div mult.commute)
  qed
  ultimately show ?thesis by (simp add: minus_mod_eq_div_mult)
qed

text \<open>The fiber is ready to run: its state, its links to counters and the top of its stack of \<open>sz\<close> bytes, which is aligned and lies in its
  last 16 bytes.\<close>

definition fresh_fiber :: "u64 \<Rightarrow> nat \<Rightarrow> fiber \<Rightarrow> bool" where
  "fresh_fiber stack sz f \<longleftrightarrow> fstate f = FIBER_START \<and> parent_count f = None \<and> dependency_count f = None \<and> stack_limit f = stack \<and>
     unat (stack_base f) mod 16 = 0 \<and>
     (unat stack + sz \<le> 2 ^ 64 \<longrightarrow> unat stack + sz < unat (stack_base f) + 17 \<and> unat (stack_base f) < unat stack + sz)"

lemma init_fiber_fresh: "fresh_fiber stack (2 ^ 20) (init_fiber stack i fb) \<and> fid (init_fiber stack i fb) = int i"
proof -
  let ?b = "stack + (push_bit 20 1 - 1)"
  have "unat ?b = unat stack + 1048575" if "unat stack + 2 ^ 20 \<le> 2 ^ 64"
    using that by (simp add: push_bit_eq_mult unat_word_ariths)
  moreover have "unat ?b mod 16 < 16" "unat ?b mod 16 \<le> unat ?b" by simp_all
  moreover have "(unat ?b - unat ?b mod 16) mod 16 = 0" by (simp add: minus_mod_eq_div_mult)
  ultimately show ?thesis
    by (auto simp: fresh_fiber_def init_fiber_def vgc_fiber_init_def align_down [simplified])
qed
lemma init_pool_fills:
  "ring_rep k (n + m) rb xs \<Longrightarrow> length xs + m \<le> 2 ^ k \<Longrightarrow>
     \<exists>rb'. init_pool stack i m (rb, fs) =
       Some (rb', \<lambda>j. if i \<le> j \<and> j < i + m then init_fiber (stack j) j (fs j) else fs j) \<and>
       ring_rep k n rb' (xs @ map FiberAt [i..<i + m])"
proof (induction m arbitrary: i rb xs fs)
  case (Suc m)
  then have "ring_rep k (Suc (n + m)) rb xs" "length xs < 2 ^ k" by simp_all
  from rq.push_room [OF this, of "FiberAt i"] obtain rb1 where rb1: "vgc_push rb (FiberAt i) = Some (0, rb1)"
    "ring_rep k (n + m) rb1 (xs @ [FiberAt i])" by blast
  let ?fs = "fs(i := init_fiber (stack i) i (fs i))"
  have all: "(\<lambda>j. if Suc i \<le> j \<and> j < Suc i + m then init_fiber (stack j) j (?fs j) else ?fs j) =
    (\<lambda>j. if i \<le> j \<and> j < i + Suc m then init_fiber (stack j) j (fs j) else fs j)"
    by (auto simp: fun_eq_iff)
  have upt: "(xs @ [FiberAt i]) @ map FiberAt [Suc i..<Suc i + m] = xs @ map FiberAt [i..<i + Suc m]"
    using upt_conv_Cons [of i "i + Suc m"] by simp
  have "length (xs @ [FiberAt i]) + m \<le> 2 ^ k" using Suc.prems(2) by simp
  from Suc.IH [OF rb1(2) this, of "Suc i" ?fs, unfolded all upt] obtain rb2 where "init_pool stack (Suc i) m (rb1, ?fs) =
      Some (rb2, \<lambda>j. if i \<le> j \<and> j < i + Suc m then init_fiber (stack j) j (fs j) else fs j)"
    "ring_rep k n rb2 (xs @ map FiberAt [i..<i + Suc m])"
    by blast
  with rb1(1) show ?case by (simp only: init_pool.simps init_fiber_def [symmetric]) simp
qed (auto simp: fun_eq_iff)

lemma pow2_test: "k \<le> 32 \<Longrightarrow> 1 \<le> k \<Longrightarrow> \<not> ((2 :: u64) ^ k < 2 \<or> (2 :: u64) ^ k AND (2 ^ k - 1) \<noteq> 0)"
proof -
  assume k: "k \<le> 32" "1 \<le> k"
  have "2 \<le> (2 :: nat) ^ k" using power_increasing [of 1 k "2 :: nat"] k(2) by simp
  then have "\<not> (2 :: u64) ^ k < 2" using k(1) by (simp add: word_less_nat_alt unat_pow)
  moreover have "(2 :: u64) ^ k AND (2 ^ k - 1) = take_bit k (2 ^ k)"
    by (simp add: take_bit_eq_mask mask_eq_exp_minus_1)
  moreover have "take_bit k ((2 :: u64) ^ k) = 0" by (simp add: take_bit_eq_mod)
  ultimately show ?thesis by simp
qed

lemma init_ready:
  assumes "1 \<le> k" and "k \<le> 32" and "n + 2 ^ k < 2 ^ 62"
    and "list_all (\<lambda>i. \<exists>cs. cells i = Some cs \<and> length cs = 2 ^ k) [0, 1, 2, 3]"
  shows "\<exists>w. vgc_scheduler_init cells stack obj (2 ^ k) cts = Some (Inr w) \<and> holds k n w (idle (map FiberAt [0..<2 ^ k])) \<and>
    fibers w = (\<lambda>i. if i < 2 ^ k then init_fiber (stack i) i (obj i) else obj i) \<and> counters w = cts \<and> \<not> is_waiter w"
proof -
  have un: "unat (2 ^ k :: u64) = 2 ^ k" by (rule unat_pow [OF assms(2)])
  have ring: "\<exists>rb. vgc_ringbuf_init cs (2 ^ k) = Some rb \<and> fresh_ring k rb" if "length cs = 2 ^ k" for cs :: "fptr cell list"
    using that assms(1,2) by (auto simp: vgc_ringbuf_init_def un fresh_ring_def)
  obtain c0 c1 c2 c3 where c: "cells 0 = Some c0" "cells 1 = Some c1" "cells 2 = Some c2" "cells 3 = Some c3"
    "length c0 = 2 ^ k" "length c1 = 2 ^ k" "length c2 = 2 ^ k" "length c3 = 2 ^ k" using assms(4) by auto
  obtain r0 r1 r2 r3 where r: "vgc_ringbuf_init c0 (2 ^ k) = Some r0" "vgc_ringbuf_init c1 (2 ^ k) = Some r1"
    "vgc_ringbuf_init c2 (2 ^ k) = Some r2" "vgc_ringbuf_init c3 (2 ^ k) = Some r3" and
    f: "fresh_ring k r0" "fresh_ring k r1" "fresh_ring k r2" "fresh_ring k r3"
    using ring c(5-8) by metis
  note rep = f [THEN fresh_ring_rep, OF assms(3)]
  from init_pool_fills [OF rep(4), of stack 0 obj] obtain rb where
    rb: "init_pool stack 0 (2 ^ k) (r3, obj) =
      Some (rb, \<lambda>i. if i < 2 ^ k then init_fiber (stack i) i (obj i) else obj i)"
    "ring_rep k n rb (map FiberAt [0..<2 ^ k])" by auto
  with pow2_test [OF assms(2,1)] c(1-4) r rep(1-3) [THEN rep_mono, of n] un show ?thesis
    by (simp add: vgc_scheduler_init_def vgc_queue_init_def holds_def idle_def)
qed

text \<open>C36. A scheduler initialised with a power of two has empty queues and a pool of that many fibers, in order: the \<open>i\<close>-th has the id \<open>i\<close>, is in
  the state \<open>FIBER_START\<close>, depends on no counter, and has the \<open>i\<close>-th stack, whose base is 16-byte aligned and lies in the last 16 bytes of the
  1 MiB that were allocated. Objects behind the last fiber are untouched.\<close>

theorem scheduler_init_ready:
  assumes "1 \<le> k" and "k \<le> 32" and "n + 2 ^ k < 2 ^ 62"
    and "list_all (\<lambda>i. \<exists>cs. cells i = Some cs \<and> length cs = 2 ^ k) [0, 1, 2, 3]"
  shows "\<exists>w. vgc_scheduler_init cells stack obj (2 ^ k) cts = Some (Inr w) \<and> holds k n w (idle (map FiberAt [0..<2 ^ k])) \<and>
    (\<forall>i < 2 ^ k. fresh_fiber (stack i) (2 ^ 20) (fibers w i) \<and> fid (fibers w i) = int i) \<and>
    fibers w = (\<lambda>i. if i < 2 ^ k then init_fiber (stack i) i (obj i) else obj i) \<and> counters w = cts \<and> \<not> is_waiter w"
  using init_ready [OF assms, of stack obj cts] by (auto simp: init_fiber_fresh [simplified])

section \<open>Concrete schedulers\<close>

definition cells_of_two :: "nat \<Rightarrow> fptr cell list option" where
  "cells_of_two i = Some (replicate 2 \<lparr>seq = 0, cdata = LocalSlot\<rparr>)"

definition some_fiber :: fiber where
  "some_fiber = \<lparr>fdata = 0, ctx = 0, fid = 0, fstate = FIBER_START, priority = FIBER_LO, dependency_count = None,
     parent_count = None, stack_limit = 0, stack_base = 0\<rparr>"

definition no_ring :: "fptr ringbuf" where
  "no_ring = \<lparr>bufmask = 0, buf = [], head = 0, tail = 0\<rparr>"

definition no_world :: world where
  "no_world = \<lparr>hi_q = no_ring, mid_q = no_ring, lo_q = no_ring, free_q_pool = no_ring, is_waiter = False, broadcasts = 0,
     fibers = \<lambda>_. some_fiber, counters = \<lambda>_. vgc_counter_init 1\<rparr>"

definition started :: world where
  "started =
     (case vgc_scheduler_init cells_of_two (\<lambda>i. 4096 * of_nat (Suc i)) (\<lambda>_. some_fiber) (2 ^ 1) (\<lambda>_. vgc_counter_init 1) of
        Some (Inr w) \<Rightarrow> w | _ \<Rightarrow> no_world)"

lemma cells_of_two_ok: "list_all (\<lambda>i. \<exists>cs. cells_of_two i = Some cs \<and> length cs = 2 ^ 1) [0, 1, 2, 3]"
  by (simp add: cells_of_two_def)

lemma started_ok:
  "holds 1 1000 started (idle (map FiberAt [0, 1]))" "counters started = (\<lambda>_. vgc_counter_init 1)"
  "priority (fibers started i) = FIBER_LO"
proof -
  have two: "[0..<2 ^ 1] = [0, 1]" by (simp add: upt_rec)
  have n: "(1000 :: nat) + 2 ^ 1 < 2 ^ 62" by simp
  from init_ready [OF _ _ n cells_of_two_ok, of "\<lambda>i. 4096 * of_nat (Suc i)" "\<lambda>_. some_fiber" "\<lambda>_. vgc_counter_init 1"] two
  have "holds 1 1000 started (idle (map FiberAt [0, 1])) \<and> counters started = (\<lambda>_. vgc_counter_init 1) \<and>
    priority (fibers started i) = FIBER_LO"
    by (auto simp: started_def init_fiber_def vgc_fiber_init_def some_fiber_def)
  then show "holds 1 1000 started (idle (map FiberAt [0, 1]))" "counters started = (\<lambda>_. vgc_counter_init 1)"
    "priority (fibers started i) = FIBER_LO" by simp_all
qed

text \<open>A world whose pool is empty, as when every fiber is in use.\<close>

definition busy :: world where
  "busy = started\<lparr>free_q_pool := hi_q started\<rparr>"

lemma busy_ok: "holds 1 1000 busy (idle [])" "counters busy = (\<lambda>_. vgc_counter_init 1)" "fibers busy = fibers started"
  using started_ok(1,2) by (simp_all add: busy_def holds_def idle_def)

definition jobs_lo_hi :: "vgc_job list" where
  "jobs_lo_hi = [vgc_job_init 7 1 FIBER_LO, vgc_job_init 8 2 FIBER_HI]"

lemma jobs_lo_hi_fit:
  "length jobs_lo_hi = 2" "fits 1 jobs_lo_hi (idle (map FiberAt [0, 1]))"
  "fold place jobs_lo_hi (idle (map FiberAt [0, 1])) = \<lparr>his = [FiberAt 1], mids = [], los = [FiberAt 0], pool = []\<rparr>"
  "list_all (\<lambda>job. ready_of (jpriority job) \<noteq> None) jobs_lo_hi"
  by (simp_all add: jobs_lo_hi_def vgc_job_init_def idle_def place_def ready_of_def)

theorem scheduler_init_ready_witness:
  "\<exists>w. vgc_scheduler_init cells_of_two (\<lambda>_. 4096) (\<lambda>_. some_fiber) (2 ^ 1) (\<lambda>_. vgc_counter_init 1) = Some (Inr w) \<and>
     holds 1 0 w (idle (map FiberAt [0..<2 ^ 1])) \<and> fstate (fibers w 1) = FIBER_START \<and> fid (fibers w 1) = 1 \<and>
     unat (stack_base (fibers w 1)) mod 16 = 0 \<and> unat (stack_base (fibers w 1)) < 4096 + 2 ^ 20"
proof -
  have n: "(0 :: nat) + 2 ^ 1 < 2 ^ 62" by simp
  from scheduler_init_ready [OF _ _ n cells_of_two_ok, of "\<lambda>_. 4096" "\<lambda>_. some_fiber" "\<lambda>_. vgc_counter_init 1"] obtain w where
    w: "vgc_scheduler_init cells_of_two (\<lambda>_. 4096) (\<lambda>_. some_fiber) (2 ^ 1) (\<lambda>_. vgc_counter_init 1) = Some (Inr w)"
      "holds 1 0 w (idle (map FiberAt [0..<2 ^ 1]))"
      "\<forall>i < 2 ^ 1. fresh_fiber 4096 (2 ^ 20) (fibers w i) \<and> fid (fibers w i) = int i" by auto
  from w(3) [rule_format, of 1] w(1,2) show ?thesis by (intro exI [of _ w]) (simp add: fresh_fiber_def)
qed

section \<open>What scheduling guarantees\<close>

text \<open>The scheduler takes the oldest fiber of the highest priority that has one, and leaves everything else alone; when
  all queues are empty it announces that it waits.\<close>

theorem next_fiber_priority:
  assumes "holds k n w l"
  shows "\<exists>w'. next_fiber w = Some (fst (take_next l), w') \<and> holds k n w' (snd (take_next l)) \<and>
    fibers w' = fibers w \<and> counters w' = counters w \<and>
    (is_waiter w' \<longleftrightarrow> fst (take_next l) = None \<or> is_waiter w)"
  by (rule next_priority [OF assms])

theorem next_fiber_priority_witness:
  "\<exists>w w'. holds 1 0 w \<lparr>his = [FiberAt 1], mids = [], los = [FiberAt 0], pool = []\<rparr> \<and> next_fiber w = Some (Some (FiberAt 1), w')"
proof -
  have "holds 1 (0 + length jobs_lo_hi) started (idle (map FiberAt [0, 1]))"
    using holds_mono [OF started_ok(1)] by (simp add: jobs_lo_hi_fit)
  from schedule_loop_all [OF this jobs_lo_hi_fit(2)] obtain w where
    w: "holds 1 0 w \<lparr>his = [FiberAt 1], mids = [], los = [FiberAt 0], pool = []\<rparr>" unfolding jobs_lo_hi_fit(3) by blast
  from w next_fiber_priority [OF w] show ?thesis by (auto simp: take_next_def)
qed

text \<open>\<^verbatim>\<open>vgc_schedule_jobs\<close> with a fiber and room for every job returns 0, has moved one fiber per job from the pool to the queue of
  the job's priority, in order, and has set the counter to the number of jobs.\<close>

theorem schedule_jobs_all:
  assumes "holds k (n + length jobs) w l" and "fits k jobs l"
  shows "\<exists>w'. vgc_schedule_jobs mk jobs (int (length jobs)) (Some c) w = Some (Returned (0, w')) \<and> holds k n w' (fold place jobs l) \<and>
    counters w' = (counters w)(c := vgc_counter_init (int (length jobs)))"
  using schedule_all [OF assms] by blast

theorem schedule_jobs_all_witness:
  "\<exists>w'. vgc_schedule_jobs (\<lambda>_ _ p. p) jobs_lo_hi 2 (Some 3) started = Some (Returned (0, w')) \<and>
     holds 1 0 w' \<lparr>his = [FiberAt 1], mids = [], los = [FiberAt 0], pool = []\<rparr> \<and> counter (counters w' 3) = 2"
proof -
  have "holds 1 (0 + length jobs_lo_hi) started (idle (map FiberAt [0, 1]))"
    using holds_mono [OF started_ok(1)] by (simp add: jobs_lo_hi_fit)
  from schedule_jobs_all [OF this jobs_lo_hi_fit(2), of "\<lambda>_ _ p. p" 3] show ?thesis
    unfolding jobs_lo_hi_fit(3) by (auto simp: counter_init_ok jobs_lo_hi_fit(1))
qed

text \<open>The same 0 is returned when the pool of fibers is empty and the very first job fails: no job is queued, the counter
  still waits for all of them, and the caller cannot tell.\<close>

theorem schedule_jobs_fails_with_zero:
  assumes "holds k n w l" and "pool l = []"
  shows "\<exists>w'. vgc_schedule_jobs mk (job # jobs) (int (length (job # jobs))) (Some c) w = Some (Returned (0, w')) \<and> holds k n w' l \<and>
    counter (counters w' c) = int (length (job # jobs))"
proof -
  let ?w = "w\<lparr>counters := (counters w)(c := vgc_counter_init (int (length (job # jobs))))\<rparr>"
  have "holds k n ?w l" using assms(1) by simp
  from enque_none [OF this assms(2)] this show ?thesis
    by (simp add: vgc_schedule_jobs_def vgc_counter_init_def)
qed

theorem schedule_jobs_fails_with_zero_witness:
  "\<exists>w'. vgc_schedule_jobs (\<lambda>_ _ p. p) [vgc_job_init 7 1 FIBER_LO] 1 (Some 3) busy = Some (Returned (0, w')) \<and>
     counter (counters w' 3) = 1"
  using schedule_jobs_fails_with_zero [OF busy_ok(1), of "\<lambda>_ _ p. p" "vgc_job_init 7 1 FIBER_LO" "[]" 3] by auto

text \<open>A job of invalid priority loses its fiber: the error exit puts the address of a local variable into the pool instead, so the
  next job that is scheduled writes through a dangling pointer (undefined behaviour, \<open>None\<close>).\<close>

theorem enque_error_corrupts_pool:
  assumes "holds k (Suc n) w (idle [FiberAt i])" and "ready_of (jpriority job) = None"
  shows "\<exists>w'. vgc_enque_job mk job count w = Some (Returned (- 1, w')) \<and> holds k n w' (idle [LocalSlot]) \<and>
    vgc_enque_job mk job' count' w' = None"
proof -
  from enque_full [OF assms(1), of i "[]" job mk count] assms(2) obtain w' where
    w': "vgc_enque_job mk job count w = Some (Returned (- 1, w'))" "holds k n w' (idle [LocalSlot])" by auto
  from pool_pop [OF w'(2), of LocalSlot "[]"] have "vgc_enque_job mk job' count' w' = None"
    by (auto simp: vgc_enque_job_def)
  with w' show ?thesis by auto
qed

definition one_free :: world where
  "one_free = busy\<lparr>free_q_pool := (case vgc_pop (free_q_pool started) of Some (_, _, rb) \<Rightarrow> rb | None \<Rightarrow> no_ring)\<rparr>"

lemma one_free_ok: "holds 1 1000 one_free (idle [FiberAt 1])"
  using pool_pop [OF started_ok(1), of "FiberAt 0" "[FiberAt 1]"] by (auto simp: one_free_def busy_def holds_def idle_def)

theorem enque_error_corrupts_pool_witness:
  "\<exists>w'. vgc_enque_job (\<lambda>_ _ p. p) (vgc_job_init 7 1 (FIBER_OTHER 9)) None one_free = Some (Returned (- 1, w')) \<and>
     vgc_enque_job (\<lambda>_ _ p. p) (vgc_job_init 7 1 FIBER_LO) None w' = None"
proof -
  have "holds 1 (Suc 999) one_free (idle [FiberAt 1])" using one_free_ok by simp
  moreover have "ready_of (jpriority (vgc_job_init 7 1 (FIBER_OTHER 9))) = None" by (simp add: vgc_job_init_def ready_of_def)
  ultimately show ?thesis
    using enque_error_corrupts_pool [of 1 999 one_free 1 "vgc_job_init 7 1 (FIBER_OTHER 9)" "\<lambda>_ _ p. p" None
      "vgc_job_init 7 1 FIBER_LO" None] by blast
qed

theorem job_lifecycle_witness:
  "\<exists>w'. run_jobs (\<lambda>_ _ p. p) jobs_lo_hi (Some 3) started = Some (Returned w') \<and> holds 1 0 w' (idle [FiberAt 0, FiberAt 1]) \<and>
     counter (counters w' 3) = 0"
proof -
  have "holds 1 (0 + 2 * length jobs_lo_hi) started (idle (map FiberAt (0 # [1])))"
    using holds_mono [OF started_ok(1)] by (simp add: jobs_lo_hi_fit)
  from job_lifecycle [OF this jobs_lo_hi_fit(4), of "\<lambda>_ _ p. p" 3] show ?thesis
    by (auto simp: jobs_lo_hi_def rotate_def counter_init_ok)
qed

theorem fibers_leak_witness:
  "\<exists>w'. run_jobs (\<lambda>_ _ p. p) jobs_lo_hi None started = Some (Returned w') \<and>
     vgc_enque_job (\<lambda>_ _ p. p) (vgc_job_init 9 0 FIBER_HI) None w' = Some (Returned (- 1, w'))"
proof -
  have "holds 1 (0 + length jobs_lo_hi) started (idle (map FiberAt [0, 1]))"
    using holds_mono [OF started_ok(1)] by (simp add: jobs_lo_hi_fit)
  from fibers_leak [OF this jobs_lo_hi_fit(4), of "\<lambda>_ _ p. p"] jobs_lo_hi_fit(1) show ?thesis by auto
qed

theorem wait_recorded_witness:
  "\<exists>w'. wait_step 1 3 busy = Some (Returned w') \<and> waiting (counters w' 3) = [Some (FiberAt 1)] \<and> fstate (fibers w' 1) = FIBER_WAIT"
  using wait_recorded [of busy 3 1] by (auto simp: busy_ok counter_init_ok WAIT_FIBER_LEN_def)

definition parented :: world where
  "parented = busy\<lparr>fibers := (fibers busy)(0 := (fibers busy 0)\<lparr>parent_count := Some 3\<rparr>)\<rparr>"

theorem wait_then_woken_witness:
  "\<exists>w1 w2. wait_step 1 3 parented = Some (Returned w1) \<and> after_jump 0 (vgc_fiber_finish 0 w1) = Some (Returned w2) \<and>
     holds 1 0 w2 \<lparr>his = [], mids = [], los = [FiberAt 1], pool = [FiberAt 0]\<rparr> \<and> counter (counters w2 3) = 0"
proof -
  have "holds 1 (Suc (Suc 0)) parented (idle [])"
    using holds_mono [OF busy_ok(1)] by (simp add: parented_def)
  moreover have "counters parented 3 = vgc_counter_init 1" "parent_count (fibers parented 0) = Some 3"
    "ready_of (priority (fibers parented 1)) = Some LoQ"
    by (simp_all add: parented_def busy_ok started_ok(3) ready_of_def)
  moreover have "(set_list LoQ (list_of LoQ (idle []) @ [FiberAt 1]) (idle []))\<lparr>pool := pool (idle []) @ [FiberAt 0]\<rparr> =
    \<lparr>his = [], mids = [], los = [FiberAt 1], pool = [FiberAt 0]\<rparr>" by (simp add: idle_def)
  moreover have "\<forall>q. length (list_of q (idle [])) < 2 ^ 1" "length (pool (idle [])) < 2 ^ 1" by simp_all
  ultimately show ?thesis
    using wait_then_woken [of 1 0 parented "idle []" 3 0 1 LoQ] by (metis zero_neq_one)
qed

definition crowded :: world where
  "crowded = busy\<lparr>counters := \<lambda>_. (vgc_counter_init 1)\<lparr>waiters_len := 4\<rparr>\<rparr>"

theorem waiters_full_witness:
  "vgc_wait_for_counter2 1 3 crowded = Some (False, - 1, crowded) \<and>
    (\<exists>w'. wait_step 1 3 crowded = Some (Returned w') \<and> fstate (fibers w' 1) = FIBER_WAIT \<and> counters w' = counters crowded)"
  using waiters_full [of crowded 3 1] by (auto simp: crowded_def vgc_counter_init_def WAIT_FIBER_LEN_def)

end
