(* ===== verification/Event.thy ===== *)
theory Event
  imports SchedCycle Sds
begin

text \<open>
  The event core (\<^verbatim>\<open>src/event/sb_event.c\<close>, \<^verbatim>\<open>include/sb_event.h\<close>) and the plugin base it locks with (\<^verbatim>\<open>src/base/base.c\<close>): registration of events and of their
  callbacks. The locks are calls of libuv; the model records the calls, in order, and gives them no meaning of its own. Arrays are lists
  of cells that may be uninitialised; the hash table of uthash is the list of its entries, newest first, each a key and the index of
  the event it points to. \<open>env\<close> holds the answers of the allocator and of the initialisation of locks. A result \<open>Exited\<close> is a call
  of \<^verbatim>\<open>exit\<close>, \<open>None\<close> undefined behaviour.
\<close>

section \<open>Data\<close>

datatype lock_id = EventLock | NetLock | EntryLock nat

datatype lock_call = Rdlock lock_id | Rdunlock lock_id | Wrlock lock_id | Wrunlock lock_id

record env =
  mal :: "nat \<Rightarrow> bool"
  rwlock_init :: "lock_id \<Rightarrow> int"

text \<open>\<^verbatim>\<open>sbev_cb_and_data\<close>: \<open>None\<close> is not initialised, \<open>Some None\<close> for \<open>cb\<close> is \<^verbatim>\<open>NULL\<close>.\<close>

record cb_and_data =
  cb :: "nat option option"
  cb_data :: "nat option"

record event_entry =
  nomen :: sds
  handle :: u64
  cbs :: "cb_and_data list"
  max_cbs :: u64
  cur_cbs :: u64
  free_max :: u64
  free_cur :: u64
  free_handles :: "u64 option list"

record eventcore =
  entries_map :: "(sds \<times> nat) list"
  entries :: "event_entry option list"
  max_events :: u64
  cur_events :: u64
  start_event :: u64
  tick_event :: u64
  kill_event :: u64
  kill_flag :: int
  lock_calls :: "lock_call list"

text \<open>The sizes of the array elements on x86-64.\<close>

definition sizeof_event_entry :: u64 where "sizeof_event_entry = 176"
definition sizeof_cb_and_data :: u64 where "sizeof_cb_and_data = 16"
definition sizeof_handle :: u64 where "sizeof_handle = 8"

section \<open>Results, allocation and locks\<close>

definition bind_result :: "'a result option \<Rightarrow> ('a \<Rightarrow> 'b result option) \<Rightarrow> 'b result option" where
  "bind_result m f = (case m of None \<Rightarrow> None | Some (Exited e) \<Rightarrow> Some (Exited e) | Some (Returned x) \<Rightarrow> f x)"

definition ret :: "'a \<Rightarrow> 'a result option" where
  "ret x = Some (Returned x)"

lemma bind_result_simps [simp]:
  "bind_result None f = None" "bind_result (Some (Exited e)) f = Some (Exited e)"
  "bind_result (Some (Returned x)) f = f x" "bind_result (ret x) f = f x"
  by (simp_all add: bind_result_def ret_def)

lemma ret_inject [simp]: "ret x = ret y \<longleftrightarrow> x = y" "ret x \<noteq> Some (Exited e)" "ret x \<noteq> None" "Some (Exited e) \<noteq> ret x" "None \<noteq> ret x"
  by (simp_all add: ret_def)

text \<open>\<^verbatim>\<open>CHK_ALLOC(p = malloc(size * n))\<close> and \<^verbatim>\<open>realloc\<close>: the product is computed modulo \<open>2\<^sup>6\<^sup>4\<close>, and as many cells as fit are kept or new.\<close>

definition array_len :: "u64 \<Rightarrow> u64 \<Rightarrow> nat" where
  "array_len sz n = unat (sz * n) div unat sz"

definition chk_alloc :: "env \<Rightarrow> u64 \<Rightarrow> u64 \<Rightarrow> 'a \<Rightarrow> 'a list \<Rightarrow> 'a list result option" where
  "chk_alloc env sz n blank xs =
     (if mal env (unat (sz * n))
      then ret (take (array_len sz n) xs @ replicate (array_len sz n - length xs) blank)
      else Some (Exited (- 1)))"

text \<open>A request of at most \<open>b\<close> bytes is refused; such a request or the lock of an entry is.\<close>

definition short_of :: "env \<Rightarrow> nat \<Rightarrow> bool" where
  "short_of env b \<longleftrightarrow> (\<exists>n \<le> b. \<not> mal env n)"

definition refuses :: "env \<Rightarrow> nat \<Rightarrow> bool" where
  "refuses env b \<longleftrightarrow> short_of env b \<or> (\<exists>i. rwlock_init env (EntryLock i) < 0)"

lemma short_ofI: "\<not> mal env n \<Longrightarrow> n \<le> b \<Longrightarrow> short_of env b"
  by (auto simp: short_of_def)

lemma short_of_mono: "short_of env a \<Longrightarrow> a \<le> b \<Longrightarrow> short_of env b"
  by (meson le_trans short_of_def)

lemma refuses_mono: "refuses env a \<Longrightarrow> a \<le> b \<Longrightarrow> refuses env b"
  by (auto simp: refuses_def intro: short_of_mono)

definition csb_init_plugin :: "env \<Rightarrow> lock_id \<Rightarrow> int" where
  "csb_init_plugin env l = rwlock_init env l"

definition csb_rdlock_plugin :: "eventcore \<Rightarrow> eventcore" where
  "csb_rdlock_plugin ev = ev\<lparr>lock_calls := lock_calls ev @ [Rdlock EventLock]\<rparr>"

definition csb_rdunlock_plugin :: "eventcore \<Rightarrow> eventcore" where
  "csb_rdunlock_plugin ev = ev\<lparr>lock_calls := lock_calls ev @ [Rdunlock EventLock]\<rparr>"

definition csb_wrlock_plugin :: "eventcore \<Rightarrow> eventcore" where
  "csb_wrlock_plugin ev = ev\<lparr>lock_calls := lock_calls ev @ [Wrlock EventLock]\<rparr>"

definition csb_wrunlock_plugin :: "eventcore \<Rightarrow> eventcore" where
  "csb_wrunlock_plugin ev = ev\<lparr>lock_calls := lock_calls ev @ [Wrunlock EventLock]\<rparr>"

definition call_lock :: "lock_call \<Rightarrow> eventcore \<Rightarrow> eventcore" where
  "call_lock c ev = ev\<lparr>lock_calls := lock_calls ev @ [c]\<rparr>"

text \<open>An element of an array of the core that must be initialised.\<close>

definition entry_at :: "eventcore \<Rightarrow> nat \<Rightarrow> event_entry option" where
  "entry_at ev i = (if i < length (entries ev) then entries ev ! i else None)"

definition set_entry :: "nat \<Rightarrow> event_entry \<Rightarrow> eventcore \<Rightarrow> eventcore" where
  "set_entry i ent ev = ev\<lparr>entries := (entries ev)[i := Some ent]\<rparr>"

section \<open>Events\<close>

definition blank_slot :: cb_and_data where
  "blank_slot = \<lparr>cb = None, cb_data = None\<rparr>"

definition sbev_init_event_entry :: "env \<Rightarrow> byte list \<Rightarrow> u64 \<Rightarrow> event_entry result option" where
  "sbev_init_event_entry env nom h =
     (if rwlock_init env (EntryLock (unat h)) < 0 then Some (Exited (- 1))
      else case sdsnew (mal env) nom of
        None \<Rightarrow> None
      | Some None \<Rightarrow> Some (Exited (- 1))
      | Some (Some str) \<Rightarrow>
          bind_result (chk_alloc env sizeof_cb_and_data 20 blank_slot []) (\<lambda>cells.
          bind_result (chk_alloc env sizeof_handle 20 None []) (\<lambda>frees.
          ret \<lparr>nomen = str, handle = h, cbs = cells, max_cbs = 20, cur_cbs = 0, free_max = 20, free_cur = 0,
               free_handles = frees\<rparr>)))"

text \<open>The first half of \<^verbatim>\<open>sbev_reg_event\<close>: the search, under the read lock.\<close>

definition reg_event_find :: "byte list \<Rightarrow> eventcore \<Rightarrow> (u64 option \<times> eventcore) option" where
  "reg_event_find nom ev =
     (let ev = csb_rdlock_plugin ev;
          found = map_of (entries_map ev) nom;
          ev = csb_rdunlock_plugin ev
      in case found of
           None \<Rightarrow> Some (None, ev)
         | Some i \<Rightarrow> do { ent \<leftarrow> entry_at ev i; Some (Some (handle ent), ev) })"

text \<open>\<^verbatim>\<open>HASH_ADD_KEYPTR\<close> for the entries from index \<open>i\<close> on, \<open>n\<close> of them.\<close>

fun rehash :: "nat \<Rightarrow> nat \<Rightarrow> eventcore \<Rightarrow> eventcore option" where
  "rehash i 0 ev = Some ev"
| "rehash i (Suc n) ev =
     do { ent \<leftarrow> entry_at ev i;
          rehash (Suc i) n (ev\<lparr>entries_map := (nomen ent, i) # entries_map ev\<rparr>) }"

definition grow_events :: "env \<Rightarrow> eventcore \<Rightarrow> eventcore result option" where
  "grow_events env ev =
     (if cur_events ev = max_events ev then
        let ev = ev\<lparr>max_events := max_events ev * 2, entries_map := []\<rparr> in
        bind_result (chk_alloc env sizeof_event_entry (max_events ev) None (entries ev)) (\<lambda>cells.
        case rehash 0 (unat (cur_events ev)) (ev\<lparr>entries := cells\<rparr>) of None \<Rightarrow> None | Some ev \<Rightarrow> ret ev)
      else ret ev)"

text \<open>The second half: the new entry, under the write lock.\<close>

definition reg_event_add :: "env \<Rightarrow> byte list \<Rightarrow> eventcore \<Rightarrow> (u64 \<times> eventcore) result option" where
  "reg_event_add env nom ev =
     bind_result (grow_events env (csb_wrlock_plugin ev)) (\<lambda>ev.
       let h = cur_events ev;
           ev = ev\<lparr>cur_events := cur_events ev + 1\<rparr>
       in if unat h < length (entries ev)
          then bind_result (sbev_init_event_entry env nom h) (\<lambda>ent.
                 let ev = set_entry (unat h) ent ev;
                     ev = ev\<lparr>entries_map := (nomen ent, unat h) # entries_map ev\<rparr>
                 in ret (h, csb_wrunlock_plugin ev))
          else None)"

definition sbev_reg_event :: "env \<Rightarrow> byte list \<Rightarrow> eventcore \<Rightarrow> (u64 \<times> eventcore) result option" where
  "sbev_reg_event env nom ev =
     (case reg_event_find nom ev of
        None \<Rightarrow> None
      | Some (Some h, ev) \<Rightarrow> ret (h, ev)
      | Some (None, ev) \<Rightarrow> reg_event_add env nom ev)"

text \<open>\<open>str_start\<close>, \<open>str_tick\<close> and \<open>str_kill\<close> are the three string literals.\<close>

definition str_start :: "byte list" where "str_start = map of_char ''start''"
definition str_tick :: "byte list" where "str_tick = map of_char ''tick''"
definition str_kill :: "byte list" where "str_kill = map of_char ''kill''"

definition sbev_init_event :: "env \<Rightarrow> eventcore result option" where
  "sbev_init_event env =
     (if csb_init_plugin env EventLock < 0 then Some (Exited (- 1))
      else bind_result (chk_alloc env sizeof_event_entry 20 None []) (\<lambda>cells.
        let ev = \<lparr>entries_map = [], entries = cells, max_events = 20, cur_events = 0, start_event = 0, tick_event = 0,
                  kill_event = 0, kill_flag = 0, lock_calls = []\<rparr> in
        bind_result (sbev_reg_event env str_start ev) (\<lambda>(h, ev).
        let ev = ev\<lparr>start_event := h\<rparr> in
        bind_result (sbev_reg_event env str_tick ev) (\<lambda>(h, ev).
        let ev = ev\<lparr>tick_event := h\<rparr> in
        bind_result (sbev_reg_event env str_kill ev) (\<lambda>(h, ev).
        ret (ev\<lparr>kill_event := h\<rparr>))))))"

section \<open>Callbacks\<close>

definition grow_cbs :: "env \<Rightarrow> event_entry \<Rightarrow> event_entry result option" where
  "grow_cbs env ent =
     (if cur_cbs ent = max_cbs ent then
        let ent = ent\<lparr>max_cbs := max_cbs ent * 2\<rparr> in
        bind_result (chk_alloc env sizeof_cb_and_data (max_cbs ent) blank_slot (cbs ent)) (\<lambda>cells.
        ret (ent\<lparr>cbs := cells\<rparr>))
      else ret ent)"

text \<open>The slot for a new callback: the last handle that was given back, or the next one, growing the array when it is full.\<close>

definition take_slot :: "env \<Rightarrow> event_entry \<Rightarrow> (u64 \<times> event_entry) result option" where
  "take_slot env ent =
     (if free_cur ent \<noteq> 0 then
        let ent = ent\<lparr>free_cur := free_cur ent - 1\<rparr> in
        if unat (free_cur ent) < length (free_handles ent)
        then (case free_handles ent ! unat (free_cur ent) of None \<Rightarrow> None | Some h \<Rightarrow> ret (h, ent))
        else None
      else bind_result (grow_cbs env ent) (\<lambda>ent. ret (cur_cbs ent, ent\<lparr>cur_cbs := cur_cbs ent + 1\<rparr>)))"

definition sbev_reg_cb :: "env \<Rightarrow> u64 \<Rightarrow> nat option \<Rightarrow> nat \<Rightarrow> eventcore \<Rightarrow> (u64 \<times> eventcore) result option" where
  "sbev_reg_cb env ev_handle f d ev =
     (let ev = csb_rdlock_plugin ev in
      case entry_at ev (unat ev_handle) of
        None \<Rightarrow> None
      | Some ent \<Rightarrow>
          let ev = call_lock (Wrlock (EntryLock (unat ev_handle))) ev in
          bind_result (take_slot env ent) (\<lambda>(h, ent).
          if unat h < length (cbs ent)
          then let ent = ent\<lparr>cbs := (cbs ent)[unat h := \<lparr>cb = Some f, cb_data = Some d\<rparr>]\<rparr>;
                   ev = call_lock (Wrunlock (EntryLock (unat ev_handle))) (set_entry (unat ev_handle) ent ev)
               in ret (h, csb_rdunlock_plugin ev)
          else None))"

definition grow_frees :: "env \<Rightarrow> event_entry \<Rightarrow> event_entry result option" where
  "grow_frees env ent =
     (if free_cur ent = free_max ent then
        let ent = ent\<lparr>free_max := free_max ent * 2\<rparr> in
        bind_result (chk_alloc env sizeof_handle (free_max ent) None (free_handles ent)) (\<lambda>frees.
        ret (ent\<lparr>free_handles := frees\<rparr>))
      else ret ent)"

definition give_back :: "env \<Rightarrow> u64 \<Rightarrow> event_entry \<Rightarrow> event_entry result option" where
  "give_back env h ent =
     bind_result (grow_frees env ent)
       (\<lambda>ent. if unat h < length (cbs ent) \<and> unat (free_cur ent) < length (free_handles ent)
              then ret (ent\<lparr>cbs := (cbs ent)[unat h := (cbs ent ! unat h)\<lparr>cb := Some None\<rparr>],
                            free_handles := (free_handles ent)[unat (free_cur ent) := Some h],
                            free_cur := free_cur ent + 1\<rparr>)
              else None)"

definition sbev_unreg_cb :: "env \<Rightarrow> u64 \<Rightarrow> u64 \<Rightarrow> eventcore \<Rightarrow> eventcore result option" where
  "sbev_unreg_cb env ev_handle ent_handle ev =
     (let ev = csb_rdlock_plugin ev in
      case entry_at ev (unat ev_handle) of
        None \<Rightarrow> None
      | Some ent \<Rightarrow>
          let ev = call_lock (Wrlock (EntryLock (unat ev_handle))) ev in
          bind_result (give_back env ent_handle ent) (\<lambda>ent.
          ret (csb_rdunlock_plugin
                 (call_lock (Wrunlock (EntryLock (unat ev_handle))) (set_entry (unat ev_handle) ent ev)))))"

definition sbev_reg_event_cb :: "env \<Rightarrow> byte list \<Rightarrow> nat option \<Rightarrow> nat \<Rightarrow> eventcore \<Rightarrow> eventcore result option" where
  "sbev_reg_event_cb env nom f d ev =
     bind_result (sbev_reg_event env nom ev) (\<lambda>(h, ev).
     bind_result (sbev_reg_cb env h f d ev) (\<lambda>(_, ev). ret ev))"

definition sbev_kill :: "eventcore \<Rightarrow> eventcore" where
  "sbev_kill ev = csb_wrunlock_plugin ((csb_wrlock_plugin ev)\<lparr>kill_flag := 1\<rparr>)"

section \<open>Lock calls\<close>

text \<open>The locks still held, innermost first, after a sequence of calls; \<open>None\<close> if an unlock does not match the innermost lock.\<close>

fun held :: "lock_call list \<Rightarrow> lock_call list \<Rightarrow> lock_call list option" where
  "held st [] = Some st"
| "held st (c # cs) =
     (case c of
        Rdlock l \<Rightarrow> held (c # st) cs
      | Wrlock l \<Rightarrow> held (c # st) cs
      | Rdunlock l \<Rightarrow> (case st of Rdlock k # st \<Rightarrow> if k = l then held st cs else None | _ \<Rightarrow> None)
      | Wrunlock l \<Rightarrow> (case st of Wrlock k # st \<Rightarrow> if k = l then held st cs else None | _ \<Rightarrow> None))"

lemma held_append: "held st (xs @ ys) = do { st \<leftarrow> held st xs; held st ys }"
  by (induction xs arbitrary: st) (auto split: lock_call.splits list.splits)

text \<open>Between the two states the calls are properly nested and every lock taken was released.\<close>

definition locks_released :: "eventcore \<Rightarrow> eventcore \<Rightarrow> bool" where
  "locks_released ev ev' \<longleftrightarrow> (\<exists>cs. lock_calls ev' = lock_calls ev @ cs \<and> (\<forall>st. held st cs = Some st))"

lemma locks_released_refl: "locks_released ev ev"
  unfolding locks_released_def by (intro exI [of _ "[]"]) simp

lemma locks_released_trans: "locks_released a b \<Longrightarrow> locks_released b c \<Longrightarrow> locks_released a c"
  by (auto simp: locks_released_def held_append)

lemma locks_releasedI: "lock_calls ev' = lock_calls ev @ cs \<Longrightarrow> (\<And>st. held st cs = Some st) \<Longrightarrow> locks_released ev ev'"
  by (auto simp: locks_released_def)

section \<open>What an entry holds\<close>

definition slot_of :: "nat option \<times> nat \<Rightarrow> cb_and_data" where
  "slot_of x = \<lparr>cb = Some (fst x), cb_data = Some (snd x)\<rparr>"

text \<open>The slots handed out so far with their callbacks (\<open>None\<close> after an unregistration), and the handles given back.\<close>

definition entry_rep :: "event_entry \<Rightarrow> (nat option \<times> nat) list \<Rightarrow> nat list \<Rightarrow> bool" where
  "entry_rep ent slots frees \<longleftrightarrow>
     cbs ent = map slot_of slots @ replicate (unat (max_cbs ent) - length slots) blank_slot \<and>
     length slots \<le> unat (max_cbs ent) \<and> unat (cur_cbs ent) = length slots \<and>
     20 \<le> unat (max_cbs ent) \<and> unat (max_cbs ent) \<le> 2 ^ 51 \<and>
     length (free_handles ent) = unat (free_max ent) \<and> unat (free_cur ent) = length frees \<and>
     length frees \<le> unat (free_max ent) \<and> 20 \<le> unat (free_max ent) \<and> unat (free_max ent) \<le> 2 ^ 52 \<and>
     take (length frees) (free_handles ent) = map (\<lambda>h. Some (of_nat h)) frees \<and> distinct frees \<and>
     (\<forall>h \<in> set frees. h < length slots \<and> fst (slots ! h) = None)"

lemma array_len_exact: "0 < unat sz \<Longrightarrow> unat sz * unat n < 2 ^ 64 \<Longrightarrow> array_len sz n = unat n"
proof -
  assume "0 < unat sz" "unat sz * unat n < 2 ^ 64"
  then have "unat (sz * n) = unat sz * unat n" by (simp add: unat_word_ariths)
  with \<open>0 < unat sz\<close> show ?thesis by (simp add: array_len_def)
qed

lemma chk_alloc_cases:
  assumes "0 < unat sz" and "unat sz * unat n < 2 ^ 64"
  shows "short_of env (unat sz * unat n) \<and> chk_alloc env sz n blank xs = Some (Exited (- 1)) \<or>
    chk_alloc env sz n blank xs = ret (take (unat n) xs @ replicate (unat n - length xs) blank)"
proof -
  have "unat (sz * n) = unat sz * unat n" using assms(2) by (simp add: unat_word_ariths)
  then show ?thesis using assms by (auto simp: chk_alloc_def array_len_exact intro: short_ofI)
qed

lemma unat_double: "unat (w :: u64) < 2 ^ 63 \<Longrightarrow> unat (w * 2) = 2 * unat w"
  by (simp add: unat_word_ariths)

text \<open>The abstract operation: reuse the last handle given back, or append.\<close>

fun add_cb :: "nat option \<times> nat \<Rightarrow> (nat option \<times> nat) list \<times> nat list \<Rightarrow> nat \<times> (nat option \<times> nat) list \<times> nat list" where
  "add_cb x (slots, frees) =
     (if frees = [] then (length slots, slots @ [x], [])
      else (last frees, slots[last frees := x], butlast frees))"

lemma take_slot_free:
  assumes "entry_rep ent slots (fs @ [h])"
  shows "\<exists>ent'. take_slot env ent = ret (of_nat h, ent') \<and> h < length slots \<and> entry_rep ent' slots fs \<and> cbs ent' = cbs ent \<and>
    nomen ent' = nomen ent \<and> handle ent' = handle ent"
proof -
  have fc: "unat (free_cur ent) = Suc (length fs)" using assms by (simp add: entry_rep_def)
  then have nz: "free_cur ent \<noteq> 0" by (metis Zero_not_Suc unsigned_0)
  then have fc': "unat (free_cur ent - 1) = length fs" using fc unat_minus_one [OF nz] by simp
  have tk: "take (Suc (length fs)) (free_handles ent) = map (\<lambda>h. Some (of_nat h)) (fs @ [h])"
    and len: "Suc (length fs) \<le> length (free_handles ent)" using assms by (simp_all add: entry_rep_def)
  have hd: "free_handles ent ! length fs = Some (of_nat h)"
    using nth_take [of "length fs" "Suc (length fs)" "free_handles ent"] tk by (simp add: nth_append)
  have "take (length fs) (free_handles ent) = take (length fs) (take (Suc (length fs)) (free_handles ent))" by simp
  then have tk': "take (length fs) (free_handles ent) = map (\<lambda>h. Some (of_nat h)) fs" unfolding tk by simp
  have "take_slot env ent = ret (of_nat h, ent\<lparr>free_cur := free_cur ent - 1\<rparr>)"
    using nz fc' hd len by (simp add: take_slot_def Let_def)
  moreover have "entry_rep (ent\<lparr>free_cur := free_cur ent - 1\<rparr>) slots fs" "h < length slots"
    using assms fc' tk' by (auto simp: entry_rep_def)
  ultimately show ?thesis by auto
qed

text \<open>An entry with room for one more slot than it has handed out.\<close>

definition slot_room :: "event_entry \<Rightarrow> (nat option \<times> nat) list \<Rightarrow> bool" where
  "slot_room ent slots \<longleftrightarrow> entry_rep ent slots [] \<and> length slots < unat (max_cbs ent)"

lemma grow_cbs_room:
  assumes "entry_rep ent slots []" and "length slots < 2 ^ 50"
  shows "short_of env (32 * length slots) \<and> grow_cbs env ent = Some (Exited (- 1)) \<or>
    (\<exists>ent'. grow_cbs env ent = ret ent' \<and> slot_room ent' slots \<and> nomen ent' = nomen ent \<and> handle ent' = handle ent)"
proof (cases "cur_cbs ent = max_cbs ent")
  case True
  then have m: "unat (max_cbs ent) = length slots" "20 \<le> length slots" using assms(1) by (auto simp: entry_rep_def)
  then have d: "unat (max_cbs ent * 2) = 2 * length slots" using assms(2) unat_double [of "max_cbs ent"] by simp
  have len: "length (cbs ent) = length slots" using assms(1) m by (simp add: entry_rep_def)
  have small: "unat sizeof_cb_and_data * unat (max_cbs ent * 2) < 2 ^ 64" using d assms(2) by (simp add: sizeof_cb_and_data_def)
  have "slot_room (ent\<lparr>max_cbs := max_cbs ent * 2, cbs := cbs ent @ replicate (length slots) blank_slot\<rparr>) slots"
    using assms m d by (auto simp: slot_room_def entry_rep_def)
  with chk_alloc_cases [OF _ small, of env blank_slot "cbs ent"] True d len show ?thesis
    by (auto simp: grow_cbs_def Let_def sizeof_cb_and_data_def elim: short_of_mono)
next
  case False
  then have "unat (cur_cbs ent) \<noteq> unat (max_cbs ent)" by (metis word_unat_eq_iff)
  then have "slot_room ent slots" using assms(1) by (auto simp: slot_room_def entry_rep_def)
  with False show ?thesis by (auto simp: grow_cbs_def)
qed

lemma append_slot:
  assumes "slot_room ent slots"
  shows "entry_rep (ent\<lparr>cur_cbs := cur_cbs ent + 1, cbs := (cbs ent)[length slots := slot_of x]\<rparr>) (slots @ [x]) []"
    and "length slots < length (cbs ent)" and "unat (cur_cbs ent) = length slots"
proof -
  have r: "cbs ent = map slot_of slots @ replicate (unat (max_cbs ent) - length slots) blank_slot"
    "unat (cur_cbs ent) = length slots" "length slots < unat (max_cbs ent)" "unat (max_cbs ent) \<le> 2 ^ 51"
    using assms by (simp_all add: slot_room_def entry_rep_def)
  obtain m where m: "unat (max_cbs ent) - length slots = Suc m" using r(3) by (metis Suc_diff_Suc)
  have "(cbs ent)[length slots := slot_of x] = map slot_of (slots @ [x]) @ replicate m blank_slot"
    using r(1) m by (simp add: list_update_append)
  moreover have "unat (cur_cbs ent + 1) = Suc (length slots)" using r by (subst unat_Suc) simp_all
  moreover have "m = unat (max_cbs ent) - Suc (length slots)" using m by simp
  ultimately show "entry_rep (ent\<lparr>cur_cbs := cur_cbs ent + 1, cbs := (cbs ent)[length slots := slot_of x]\<rparr>) (slots @ [x]) []"
    using assms r(3) by (simp add: slot_room_def entry_rep_def)
  show "length slots < length (cbs ent)" using r(1,3) by simp
  show "unat (cur_cbs ent) = length slots" by (rule r(2))
qed

lemma reuse_slot:
  assumes "entry_rep ent slots fs" and "h < length slots" and "h \<notin> set fs"
  shows "entry_rep (ent\<lparr>cbs := (cbs ent)[h := slot_of x]\<rparr>) (slots[h := x]) fs" and "h < length (cbs ent)"
proof -
  have c: "cbs ent = map slot_of slots @ replicate (unat (max_cbs ent) - length slots) blank_slot"
    using assms(1) by (simp add: entry_rep_def)
  then have "(cbs ent)[h := slot_of x] = map slot_of (slots[h := x]) @ replicate (unat (max_cbs ent) - length slots) blank_slot"
    using assms(2) by (simp add: list_update_append map_update)
  moreover have "\<forall>i \<in> set fs. fst (slots[h := x] ! i) = None"
    using assms by (auto simp: entry_rep_def nth_list_update)
  ultimately show "entry_rep (ent\<lparr>cbs := (cbs ent)[h := slot_of x]\<rparr>) (slots[h := x]) fs"
    using assms(1) by (simp add: entry_rep_def)
  show "h < length (cbs ent)" using c assms(2) by simp
qed

text \<open>The part of \<^verbatim>\<open>sbev_reg_cb\<close> that works on the entry.\<close>

lemma take_slot_write:
  assumes "entry_rep ent slots frees" and "length slots < 2 ^ 50" and "add_cb x (slots, frees) = (h, slots', frees')"
  shows "short_of env (32 * length slots) \<and> take_slot env ent = Some (Exited (- 1)) \<or>
    (\<exists>h' ent'. take_slot env ent = ret (h', ent') \<and> unat h' = h \<and> h < length (cbs ent') \<and>
      entry_rep (ent'\<lparr>cbs := (cbs ent')[h := slot_of x]\<rparr>) slots' frees' \<and> nomen ent' = nomen ent \<and> handle ent' = handle ent)"
proof (cases frees rule: rev_cases)
  case Nil
  then have h: "h = length slots" "slots' = slots @ [x]" "frees' = []" using assms(3) by simp_all
  have nz: "free_cur ent = 0" using assms(1) Nil by (simp add: entry_rep_def unat_eq_0)
  from grow_cbs_room [OF assms(1) [unfolded Nil] assms(2), of env] show ?thesis
  proof (elim disjE exE conjE)
    assume "short_of env (32 * length slots)" "grow_cbs env ent = Some (Exited (- 1))"
    then show ?thesis using nz by (simp add: take_slot_def)
  next
    fix ent' assume "grow_cbs env ent = ret ent'" "slot_room ent' slots" "nomen ent' = nomen ent" "handle ent' = handle ent"
    with append_slot(1) [OF this(2), of x] append_slot(2,3) [OF this(2)] h nz show ?thesis by (simp add: take_slot_def)
  qed
next
  case (snoc fs f)
  then have h: "h = f" "slots' = slots[f := x]" "frees' = fs" using assms(3) by auto
  from take_slot_free [OF assms(1) [unfolded snoc], of env] obtain ent' where e: "take_slot env ent = ret (of_nat f, ent')"
    "f < length slots" "entry_rep ent' slots fs" "nomen ent' = nomen ent" "handle ent' = handle ent" by blast
  have "f \<notin> set fs" using assms(1) snoc by (simp add: entry_rep_def)
  from reuse_slot(1) [OF e(3,2) this, of x] reuse_slot(2) [OF e(3,2) this] e h assms(2) show ?thesis by (auto simp: unat_of_nat64)
qed

lemma grow_frees_room:
  assumes "entry_rep ent slots frees" and "length frees < length slots"
  shows "short_of env (16 * length slots) \<and> grow_frees env ent = Some (Exited (- 1)) \<or>
    (\<exists>ent'. grow_frees env ent = ret ent' \<and> entry_rep ent' slots frees \<and> length frees < unat (free_max ent') \<and>
      nomen ent' = nomen ent \<and> handle ent' = handle ent)"
proof (cases "free_cur ent = free_max ent")
  case True
  have r: "length (free_handles ent) = unat (free_max ent)" "unat (free_cur ent) = length frees"
    "length slots \<le> unat (max_cbs ent)" "unat (max_cbs ent) \<le> 2 ^ 51" "20 \<le> unat (free_max ent)"
    using assms(1) by (simp_all add: entry_rep_def)
  have m: "unat (free_max ent) = length frees" "length frees < 2 ^ 51" "length (free_handles ent) = length frees"
    using r True assms(2) by simp_all
  then have d: "unat (free_max ent * 2) = 2 * length frees" using unat_double [of "free_max ent"] by simp
  have small: "unat sizeof_handle * unat (free_max ent * 2) < 2 ^ 64" using d m by (simp add: sizeof_handle_def)
  have "entry_rep (ent\<lparr>free_max := free_max ent * 2, free_handles := free_handles ent @ replicate (length frees) None\<rparr>) slots frees"
    using assms m d r(5) by (auto simp: entry_rep_def)
  moreover have "0 < length frees" using m(1) r(5) by linarith
  ultimately show ?thesis using chk_alloc_cases [OF _ small, of env None "free_handles ent"] True d m
    assms(2) by (auto simp: grow_frees_def Let_def sizeof_handle_def elim: short_of_mono)
next
  case False
  then have "unat (free_cur ent) \<noteq> unat (free_max ent)" by (metis word_unat_eq_iff)
  then have "length frees < unat (free_max ent)" using assms(1) by (auto simp: entry_rep_def)
  with False assms(1) show ?thesis by (auto simp: grow_frees_def)
qed

lemma frees_less:
  assumes "entry_rep ent slots frees" and "h < length slots" and "h \<notin> set frees"
  shows "length frees < length slots"
proof -
  have "set (h # frees) \<subseteq> {..<length slots}" "distinct (h # frees)" using assms by (auto simp: entry_rep_def)
  from card_mono [OF _ this(1)] distinct_card [OF this(2)] show ?thesis by simp
qed

lemma give_back_frees:
  assumes "entry_rep ent slots frees" and "h < length slots" and "fst (slots ! h) \<noteq> None"
  shows "short_of env (16 * length slots) \<and> give_back env (of_nat h) ent = Some (Exited (- 1)) \<or>
    (\<exists>ent'. give_back env (of_nat h) ent = ret ent' \<and> entry_rep ent' (slots[h := (None, snd (slots ! h))]) (frees @ [h]) \<and>
      nomen ent' = nomen ent \<and> handle ent' = handle ent)"
proof -
  have new: "h \<notin> set frees" using assms(1,3) by (auto simp: entry_rep_def)
  have "length slots \<le> 2 ^ 51" using assms(1) by (simp add: entry_rep_def)
  then have un: "unat (of_nat h :: u64) = h" using assms(2) by (intro unat_of_nat64) simp
  from grow_frees_room [OF assms(1) frees_less [OF assms(1,2) new], of env] show ?thesis
  proof (elim disjE exE conjE)
    assume "short_of env (16 * length slots)" "grow_frees env ent = Some (Exited (- 1))"
    then show ?thesis by (simp add: give_back_def)
  next
    fix e assume e: "grow_frees env ent = ret e" "entry_rep e slots frees" "length frees < unat (free_max e)"
      "nomen e = nomen ent" "handle e = handle ent"
    let ?x = "(None, snd (slots ! h)) :: nat option \<times> nat"
    let ?e = "e\<lparr>cbs := (cbs e)[h := slot_of ?x]\<rparr>"
    from reuse_slot(1) [OF e(2) assms(2) new, of ?x] reuse_slot(2) [OF e(2) assms(2) new] have rep: "entry_rep ?e (slots[h := ?x]) frees" and h: "h < length (cbs e)" .
    have "cbs e ! h = slot_of (slots ! h)" using e(2) assms(2) by (simp add: entry_rep_def nth_append)
    then have slot: "(cbs e ! h)\<lparr>cb := Some None\<rparr> = slot_of ?x" by (simp add: slot_of_def)
    have fc: "unat (free_cur e) = length frees" "length (free_handles e) = unat (free_max e)" "unat (free_max e) \<le> 2 ^ 52"
      using e(2) by (simp_all add: entry_rep_def)
    then have fc': "unat (free_cur e + 1) = Suc (length frees)" using e(3) by (subst unat_Suc) simp_all
    have "take (Suc (length frees)) ((free_handles e)[length frees := Some (of_nat h)]) =
      take (length frees) (free_handles e) @ [Some (of_nat h)]"
      using fc e(3) by (simp add: take_Suc_conv_app_nth)
    then have "entry_rep (?e\<lparr>free_handles := (free_handles e)[length frees := Some (of_nat h)], free_cur := free_cur e + 1\<rparr>)
      (slots[h := ?x]) (frees @ [h])"
      using rep fc' fc e(3) new assms(2) by (auto simp: entry_rep_def)
    with e(1,4,5) h fc e(3) un slot show ?thesis by (auto simp: give_back_def)
  qed
qed

section \<open>What the core holds\<close>

definition index_map :: "event_entry list \<Rightarrow> sds \<Rightarrow> nat option" where
  "index_map es = map_of (zip (map nomen es) [0..<length es])"

text \<open>The core holds the events \<open>es\<close>: names are distinct, the handle of an event is its position, and the hash table finds it.\<close>

definition ev_rep :: "eventcore \<Rightarrow> event_entry list \<Rightarrow> bool" where
  "ev_rep ev es \<longleftrightarrow>
     entries ev = map Some es @ replicate (unat (max_events ev) - length es) None \<and>
     length es \<le> unat (max_events ev) \<and> unat (cur_events ev) = length es \<and>
     20 \<le> unat (max_events ev) \<and> unat (max_events ev) \<le> 2 ^ 51 \<and>
     map_of (entries_map ev) = index_map es \<and> distinct (map nomen es) \<and>
     (\<forall>i < length es. handle (es ! i) = of_nat i)"

lemma index_map_None: "index_map es n = None \<longleftrightarrow> n \<notin> set (map nomen es)"
proof -
  have "set (map fst (zip (map nomen es) [0..<length es])) = set (map nomen es)" by (simp only: map_fst_zip length_map length_upt diff_zero)
  then show ?thesis by (simp only: index_map_def map_of_eq_None_iff set_map)
qed

lemma index_map_Some: "index_map es n = Some i \<Longrightarrow> i < length es \<and> nomen (es ! i) = n"
  by (auto simp: index_map_def dest!: map_of_SomeD simp: set_zip)

lemma index_map_nth: "distinct (map nomen es) \<Longrightarrow> i < length es \<Longrightarrow> index_map es (nomen (es ! i)) = Some i"
  by (cases "index_map es (nomen (es ! i))") (auto simp: index_map_None dest!: index_map_Some simp: distinct_conv_nth)

lemma index_map_snoc: "nomen e \<notin> set (map nomen es) \<Longrightarrow> index_map (es @ [e]) = (index_map es)(nomen e \<mapsto> length es)"
proof -
  assume new: "nomen e \<notin> set (map nomen es)"
  have "index_map (es @ [e]) = [nomen e \<mapsto> length es] ++ index_map es" by (simp add: index_map_def)
  also have "\<dots> = (index_map es)(nomen e \<mapsto> length es)"
    using new index_map_None [of es "nomen e"] by (auto simp: fun_eq_iff map_add_def split: option.splits)
  finally show ?thesis .
qed

lemma entry_at_rep: "ev_rep ev es \<Longrightarrow> entry_at ev i = (if i < length es then Some (es ! i) else None)"
  by (auto simp: ev_rep_def entry_at_def nth_append)

lemma ev_rep_frame [simp]:
  "ev_rep (ev\<lparr>lock_calls := cs\<rparr>) es = ev_rep ev es" "ev_rep (ev\<lparr>start_event := h\<rparr>) es = ev_rep ev es"
  "ev_rep (ev\<lparr>tick_event := h\<rparr>) es = ev_rep ev es" "ev_rep (ev\<lparr>kill_event := h\<rparr>) es = ev_rep ev es"
  "ev_rep (ev\<lparr>kill_flag := k\<rparr>) es = ev_rep ev es"
  by (simp_all add: ev_rep_def)

lemma rehash_all:
  assumes "\<And>j. j < length es \<Longrightarrow> entry_at ev j = Some (es ! j)" and "distinct (map nomen es)"
    and "map_of (entries_map ev) = index_map (take i es)" and "i + n = length es"
  shows "\<exists>m. rehash i n ev = Some (ev\<lparr>entries_map := m\<rparr>) \<and> map_of m = index_map es"
  using assms
proof (induction n arbitrary: i ev)
  case 0
  then show ?case by (intro exI [of _ "entries_map ev"]) simp
next
  case (Suc n)
  let ?ev = "ev\<lparr>entries_map := (nomen (es ! i), i) # entries_map ev\<rparr>"
  have i: "i < length es" using Suc.prems(4) by simp
  then have t: "take (Suc i) es = take i es @ [es ! i]" by (rule take_Suc_conv_app_nth)
  have "distinct (map nomen (take i es @ [es ! i]))" using Suc.prems(2) t by (metis distinct_take take_map)
  then have "nomen (es ! i) \<notin> set (map nomen (take i es))" by simp
  then have "map_of (entries_map ?ev) = index_map (take (Suc i) es)"
    using index_map_snoc [of "es ! i" "take i es"] Suc.prems(3) i t by simp
  moreover have "entry_at ?ev j = entry_at ev j" for j by (simp add: entry_at_def)
  ultimately show ?case using Suc.IH [of ?ev "Suc i"] Suc.prems i by simp
qed

lemma grow_events_rep:
  assumes "ev_rep ev es" and "length es < 2 ^ 50"
  shows "short_of env (352 * length es) \<and> grow_events env ev = Some (Exited (- 1)) \<or>
    (\<exists>ev'. grow_events env ev = ret ev' \<and> ev_rep ev' es \<and> length es < unat (max_events ev') \<and>
      lock_calls ev' = lock_calls ev)"
proof (cases "cur_events ev = max_events ev")
  case True
  then have m: "unat (max_events ev) = length es" "20 \<le> length es" using assms(1) by (auto simp: ev_rep_def)
  then have d: "unat (max_events ev * 2) = 2 * length es" using assms(2) unat_double [of "max_events ev"] by simp
  have ents: "entries ev = map Some es" "distinct (map nomen es)" using assms(1) m by (simp_all add: ev_rep_def)
  have small: "unat sizeof_event_entry * unat (max_events ev * 2) < 2 ^ 64" using d assms(2) by (simp add: sizeof_event_entry_def)
  let ?ev = "ev\<lparr>max_events := max_events ev * 2, entries_map := [], entries := map Some es @ replicate (length es) None\<rparr>"
  obtain mp where mp: "rehash 0 (length es) ?ev = Some (?ev\<lparr>entries_map := mp\<rparr>)" "map_of mp = index_map es"
    using rehash_all [OF _ ents(2), of ?ev 0 "length es"] by (auto simp: entry_at_def nth_append index_map_def)
  have "ev_rep (?ev\<lparr>entries_map := mp\<rparr>) es" using assms m d mp(2) by (simp add: ev_rep_def)
  moreover have "0 < length es" "unat (cur_events ev) = length es" using m(2) assms(1) by (auto simp: ev_rep_def)
  ultimately show ?thesis using chk_alloc_cases [OF _ small, of env None "entries ev"] True d mp(1) ents(1)
    by (auto simp: grow_events_def Let_def sizeof_event_entry_def elim: short_of_mono)
next
  case False
  then have "unat (cur_events ev) \<noteq> unat (max_events ev)" by (metis word_unat_eq_iff)
  then have "length es < unat (max_events ev)" using assms(1) by (auto simp: ev_rep_def)
  with False assms(1) show ?thesis by (auto simp: grow_events_def)
qed

section \<open>Registration of events\<close>

lemmas lock_defs = csb_rdlock_plugin_def csb_rdunlock_plugin_def csb_wrlock_plugin_def csb_wrunlock_plugin_def call_lock_def

lemma init_entry_rep:
  assumes "length nom < 2 ^ 64"
  shows "refuses env (length nom + 320) \<and> sbev_init_event_entry env nom h = Some (Exited (- 1)) \<or>
    (\<exists>ent. sbev_init_event_entry env nom h = ret ent \<and> entry_rep ent [] [] \<and> nomen ent = nom \<and> handle ent = h)"
proof -
  have 1: "short_of env 320 \<and> chk_alloc env sizeof_cb_and_data 20 blank_slot [] = Some (Exited (- 1)) \<or>
    chk_alloc env sizeof_cb_and_data 20 blank_slot [] = ret (replicate 20 blank_slot)"
    using chk_alloc_cases [of sizeof_cb_and_data 20 env blank_slot "[]"] by (simp add: sizeof_cb_and_data_def)
  have 2: "short_of env 160 \<and> chk_alloc env sizeof_handle 20 (None :: u64 option) [] = Some (Exited (- 1)) \<or>
    chk_alloc env sizeof_handle 20 (None :: u64 option) [] = ret (replicate 20 None)"
    using chk_alloc_cases [of sizeof_handle 20 env "None :: u64 option" "[]"] by (simp add: sizeof_handle_def)
  show ?thesis
    using sdsnew_cases [OF assms, of "mal env"] 1 2
    by (auto simp: sbev_init_event_entry_def entry_rep_def refuses_def elim: short_of_mono short_ofI)
qed

text \<open>The entry an event gets, or the end of the program when an allocation or the lock is refused.\<close>

definition registered :: "byte list \<Rightarrow> event_entry list \<Rightarrow> nat \<Rightarrow> event_entry list \<Rightarrow> bool" where
  "registered nom es h es' \<longleftrightarrow>
     (if nom \<in> set (map nomen es) then es' = es \<and> h < length es \<and> nomen (es ! h) = nom
      else h = length es \<and> (\<exists>ent. es' = es @ [ent] \<and> nomen ent = nom \<and> entry_rep ent [] []))"

lemma add_event_rep:
  assumes "ev_rep ev es" and "length es < 2 ^ 50" and "length nom < 2 ^ 64" and "nom \<notin> set (map nomen es)"
  shows "refuses env (352 * length es + length nom + 320) \<and> reg_event_add env nom ev = Some (Exited (- 1)) \<or>
    (\<exists>ev' es'. reg_event_add env nom ev = ret (of_nat (length es), ev') \<and> ev_rep ev' es' \<and> registered nom es (length es) es' \<and>
      lock_calls ev' = lock_calls ev @ [Wrlock EventLock, Wrunlock EventLock])"
proof -
  have "ev_rep (csb_wrlock_plugin ev) es" using assms(1) by (simp add: lock_defs)
  from grow_events_rep [OF this assms(2), of env] show ?thesis
  proof (elim disjE exE conjE)
    assume "short_of env (352 * length es)" "grow_events env (csb_wrlock_plugin ev) = Some (Exited (- 1))"
    then show ?thesis by (auto simp: reg_event_add_def refuses_def elim: short_of_mono)
  next
    fix e assume e: "grow_events env (csb_wrlock_plugin ev) = ret e" "ev_rep e es" "length es < unat (max_events e)"
      "lock_calls e = lock_calls (csb_wrlock_plugin ev)"
    have c: "cur_events e = of_nat (length es)" "length es < length (entries e)"
      using e(2,3) by (auto simp: ev_rep_def word_unat_eq_iff unat_of_nat)
    from init_entry_rep [OF assms(3), of env "cur_events e"] show ?thesis
    proof (elim disjE exE conjE)
      assume "refuses env (length nom + 320)" "sbev_init_event_entry env nom (cur_events e) = Some (Exited (- 1))"
      then show ?thesis using e(1) c assms(2) refuses_mono by (auto simp: reg_event_add_def Let_def unat_of_nat64)
    next
      fix ent assume ent: "sbev_init_event_entry env nom (cur_events e) = ret ent" "entry_rep ent [] []" "nomen ent = nom"
        "handle ent = cur_events e"
      let ?ev = "e\<lparr>cur_events := cur_events e + 1, entries := (entries e)[length es := Some ent],
        entries_map := (nom, length es) # entries_map e\<rparr>"
      obtain m where m: "unat (max_events e) - length es = Suc m" using e(3) by (metis Suc_diff_Suc)
      have "entries ?ev = map Some (es @ [ent]) @ replicate m None"
        using e(2) m by (simp add: ev_rep_def list_update_append)
      moreover have "m = unat (max_events e) - Suc (length es)" using m by simp
      moreover have "unat (cur_events e + 1) = Suc (length es)"
        using c(1) assms(2) by (subst unat_Suc) (simp_all add: unat_of_nat64)
      moreover have "index_map (es @ [ent]) = (index_map es)(nom \<mapsto> length es)"
        using index_map_snoc [of ent es] ent(3) assms(4) by simp
      moreover have "handle ((es @ [ent]) ! i) = of_nat i" if "i < Suc (length es)" for i
        using that e(2) ent(4) c(1) by (cases "i = length es") (auto simp: ev_rep_def nth_append)
      ultimately have "ev_rep ?ev (es @ [ent])"
        using e(2,3) ent(3) assms(4) unfolding ev_rep_def by simp
      then have "ev_rep (csb_wrunlock_plugin ?ev) (es @ [ent])" by (simp add: lock_defs)
      moreover have "reg_event_add env nom ev = ret (of_nat (length es), csb_wrunlock_plugin ?ev)"
        using e(1) c ent(1,3) assms(2) by (simp add: reg_event_add_def Let_def set_entry_def unat_of_nat64)
      moreover have "registered nom es (length es) (es @ [ent])"
        using assms(4) ent(2,3) by (auto simp: registered_def)
      moreover have "lock_calls (csb_wrunlock_plugin ?ev) = lock_calls ev @ [Wrlock EventLock, Wrunlock EventLock]"
        using e(4) by (simp add: lock_defs)
      ultimately show ?thesis by blast
    qed
  qed
qed

lemma find_event_rep:
  assumes "ev_rep ev es"
  shows "reg_event_find nom ev = Some (map_option of_nat (index_map es nom),
    ev\<lparr>lock_calls := lock_calls ev @ [Rdlock EventLock, Rdunlock EventLock]\<rparr>)"
proof -
  let ?ev = "ev\<lparr>lock_calls := lock_calls ev @ [Rdlock EventLock, Rdunlock EventLock]\<rparr>"
  have m: "map_of (entries_map ev) = index_map es" using assms by (simp add: ev_rep_def)
  have e: "entry_at ?ev i = (if i < length es then Some (es ! i) else None)" for i
    using entry_at_rep [of ?ev es] assms by simp
  show ?thesis
  proof (cases "index_map es nom")
    case None
    then show ?thesis using m by (simp add: reg_event_find_def Let_def lock_defs)
  next
    case (Some i)
    then have "i < length es" using index_map_Some by blast
    moreover from this have "handle (es ! i) = of_nat i" using assms by (simp add: ev_rep_def)
    ultimately show ?thesis using Some m e by (simp add: reg_event_find_def Let_def lock_defs)
  qed
qed

lemma reg_event_rep:
  assumes "ev_rep ev es" and "length es < 2 ^ 50" and "length nom < 2 ^ 64"
  shows "refuses env (352 * length es + length nom + 320) \<and> nom \<notin> set (map nomen es) \<and> sbev_reg_event env nom ev = Some (Exited (- 1)) \<or>
    (\<exists>h ev' es'. sbev_reg_event env nom ev = ret (of_nat h, ev') \<and> ev_rep ev' es' \<and> registered nom es h es' \<and>
      locks_released ev ev')"
proof (cases "index_map es nom")
  case (Some i)
  then have "i < length es" "nomen (es ! i) = nom" using index_map_Some by blast+
  then have "registered nom es i es" by (auto simp: registered_def)
  moreover have "locks_released ev (ev\<lparr>lock_calls := lock_calls ev @ [Rdlock EventLock, Rdunlock EventLock]\<rparr>)"
    by (rule locks_releasedI [of _ _ "[Rdlock EventLock, Rdunlock EventLock]"]) simp_all
  ultimately show ?thesis using Some find_event_rep [OF assms(1), of nom] assms(1) by (auto simp: sbev_reg_event_def)
next
  case None
  let ?ev = "ev\<lparr>lock_calls := lock_calls ev @ [Rdlock EventLock, Rdunlock EventLock]\<rparr>"
  have eq: "sbev_reg_event env nom ev = reg_event_add env nom ?ev"
    using None find_event_rep [OF assms(1), of nom] by (simp add: sbev_reg_event_def)
  have "ev_rep ?ev es" "nom \<notin> set (map nomen es)" using assms(1) None by (simp_all add: index_map_None del: set_map)
  from add_event_rep [OF this(1) assms(2,3) this(2), of env] this(2) show ?thesis unfolding eq
  proof (elim disjE exE conjE)
    fix ev' es' assume r: "reg_event_add env nom ?ev = ret (of_nat (length es), ev')" "ev_rep ev' es'"
      "registered nom es (length es) es'" "lock_calls ev' = lock_calls ?ev @ [Wrlock EventLock, Wrunlock EventLock]"
    have "locks_released ev ev'"
      by (rule locks_releasedI [of _ _ "[Rdlock EventLock, Rdunlock EventLock, Wrlock EventLock, Wrunlock EventLock]"])
        (simp_all add: r(4))
    with r show "refuses env (352 * length es + length nom + 320) \<and> nom \<notin> set (map nomen es) \<and>
        reg_event_add env nom ?ev = Some (Exited (- 1)) \<or>
      (\<exists>h ev' es'. reg_event_add env nom ?ev = ret (of_nat h, ev') \<and> ev_rep ev' es' \<and> registered nom es h es' \<and> locks_released ev ev')"
      by blast
  qed blast
qed

section \<open>The whole core\<close>

text \<open>Abstract view: for each event its name, the slots handed out and the handles given back.\<close>

type_synonym event_view = "sds \<times> (nat option \<times> nat) list \<times> nat list"

definition core_rep :: "eventcore \<Rightarrow> event_view list \<Rightarrow> bool" where
  "core_rep ev rs \<longleftrightarrow> (\<exists>es. ev_rep ev es \<and> list_all2 (\<lambda>e r. nomen e = fst r \<and> entry_rep e (fst (snd r)) (snd (snd r))) es rs)"

lemma core_rep_names: "list_all2 (\<lambda>e r. nomen e = fst r \<and> P e r) es rs \<Longrightarrow> map nomen es = map fst rs"
  by (induction rule: list_all2_induct) simp_all

fun position :: "sds \<Rightarrow> event_view list \<Rightarrow> nat option" where
  "position nom [] = None"
| "position nom (r # rs) = (if fst r = nom then Some 0 else map_option Suc (position nom rs))"

lemma position_None: "position nom rs = None \<longleftrightarrow> nom \<notin> set (map fst rs)"
  by (induction rs) auto

lemma position_nth:
  "distinct (map fst rs) \<Longrightarrow> i < length rs \<Longrightarrow> fst (rs ! i) = nom \<Longrightarrow> position nom rs = Some i"
proof (induction rs arbitrary: i)
  case (Cons r rs)
  then show ?case by (cases i) auto
qed simp

lemma core_rep_distinct: "core_rep ev rs \<Longrightarrow> distinct (map fst rs)"
  by (auto simp: core_rep_def ev_rep_def dest!: core_rep_names)

text \<open>Registering an event: the known handle, or a new event without callbacks at the end.\<close>

definition add_event :: "byte list \<Rightarrow> event_view list \<Rightarrow> nat \<times> event_view list" where
  "add_event nom rs = (case position nom rs of Some h \<Rightarrow> (h, rs) | None \<Rightarrow> (length rs, rs @ [(nom, [], [])]))"

lemma reg_event_core:
  assumes "core_rep ev rs" and "length rs < 2 ^ 50" and "length nom < 2 ^ 64" and "add_event nom rs = (h, rs')"
  shows "refuses env (352 * length rs + length nom + 320) \<and> nom \<notin> set (map fst rs) \<and> sbev_reg_event env nom ev = Some (Exited (- 1)) \<or>
    (\<exists>ev'. sbev_reg_event env nom ev = ret (of_nat h, ev') \<and> core_rep ev' rs' \<and> locks_released ev ev')"
proof -
  let ?P = "\<lambda>e r. nomen e = fst r \<and> entry_rep e (fst (snd r)) (snd (snd r))"
  from assms(1) obtain es where es: "ev_rep ev es" "list_all2 ?P es rs" by (auto simp: core_rep_def)
  have names: "map nomen es = map fst rs" by (rule core_rep_names [OF es(2)])
  have len: "length es = length rs" by (rule list_all2_lengthD [OF es(2)])
  have "length es < 2 ^ 50" using len assms(2) by simp
  from reg_event_rep [OF es(1) this assms(3), of env] show ?thesis
  proof (elim disjE exE conjE)
    fix i ev' es' assume r: "sbev_reg_event env nom ev = ret (of_nat i, ev')" "ev_rep ev' es'" "registered nom es i es'"
      "locks_released ev ev'"
    have "i = h \<and> core_rep ev' rs'"
    proof (cases "nom \<in> set (map nomen es)")
      case True
      then have i: "es' = es" "i < length es" "nomen (es ! i) = nom" using r(3) by (simp_all add: registered_def del: set_map)
      have "fst (rs ! i) = nom" using list_all2_nthD [OF es(2) i(2)] i(3) by simp
      then have "position nom rs = Some i" using position_nth [OF core_rep_distinct [OF assms(1)]] i(2) len by simp
      with assms(4) i(1) r(2) es(2) show ?thesis by (auto simp: add_event_def core_rep_def)
    next
      case False
      then obtain ent where i: "i = length es" "es' = es @ [ent]" "nomen ent = nom" "entry_rep ent [] []"
        using r(3) by (auto simp: registered_def simp del: set_map)
      have "position nom rs = None" using False names by (simp add: position_None del: set_map)
      then have "h = length rs" "rs' = rs @ [(nom, [], [])]" using assms(4) by (simp_all add: add_event_def)
      with i r(2) es(2) len show ?thesis by (auto simp: core_rep_def intro!: exI [of _ es'] list_all2_appendI)
    qed
    with r(1,4) show ?thesis by blast
  qed (simp only: names len simp_thms)
qed

lemma set_entry_core:
  assumes "ev_rep ev es" and "list_all2 (\<lambda>e r. nomen e = fst r \<and> entry_rep e (fst (snd r)) (snd (snd r))) es rs"
    and "i < length es" and "nomen ent = nomen (es ! i)" and "handle ent = handle (es ! i)" and "entry_rep ent slots frees"
  shows "core_rep (set_entry i ent ev) (rs[i := (fst (rs ! i), slots, frees)])"
proof -
  have n: "map nomen (es[i := ent]) = map nomen es" using assms(3,4) by (metis list_update_id map_update nth_map)
  have im: "index_map (es[i := ent]) = index_map es" unfolding index_map_def n by simp
  have "(map Some es @ xs)[i := Some ent] = map Some (es[i := ent]) @ xs" for xs :: "event_entry option list"
    using assms(3) by (simp add: list_update_append map_update)
  moreover have "\<forall>j < length es. handle (es[i := ent] ! j) = of_nat j"
    using assms(1,3,5) by (auto simp: ev_rep_def nth_list_update)
  ultimately have "ev_rep (set_entry i ent ev) (es[i := ent])"
    using assms(1) n im by (simp add: ev_rep_def set_entry_def)
  moreover have "fst (rs ! i) = nomen ent" using list_all2_nthD [OF assms(2,3)] assms(4) by simp
  ultimately show ?thesis
    using assms(2,6) by (auto simp: core_rep_def intro!: exI [of _ "es[i := ent]"] list_all2_update_cong)
qed

lemma core_rep_frame [simp]:
  "core_rep (ev\<lparr>lock_calls := cs\<rparr>) es = core_rep ev es" "core_rep (ev\<lparr>kill_flag := k\<rparr>) es = core_rep ev es"
  by (simp_all add: core_rep_def)

lemma reg_cb_core:
  assumes "core_rep ev rs" and "i < length rs" and "rs ! i = (nom, slots, frees)" and "length slots < 2 ^ 50"
    and "add_cb (f, d) (slots, frees) = (h, slots', frees')" and "unat e = i"
  shows "short_of env (32 * length slots) \<and> sbev_reg_cb env e f d ev = Some (Exited (- 1)) \<or>
    (\<exists>h' ev'. sbev_reg_cb env e f d ev = ret (h', ev') \<and> unat h' = h \<and> core_rep ev' (rs[i := (nom, slots', frees')]) \<and>
      locks_released ev ev')"
proof -
  let ?P = "\<lambda>e r. nomen e = fst r \<and> entry_rep e (fst (snd r)) (snd (snd r))"
  from assms(1) obtain es where es: "ev_rep ev es" "list_all2 ?P es rs" by (auto simp: core_rep_def)
  have i: "i < length es" using assms(2) list_all2_lengthD [OF es(2)] by simp
  have rep: "entry_rep (es ! i) slots frees" using list_all2_nthD [OF es(2) i] assms(3) by simp
  let ?ev = "ev\<lparr>lock_calls := lock_calls ev @ [Rdlock EventLock]\<rparr>"
  let ?ev2 = "ev\<lparr>lock_calls := lock_calls ev @ [Rdlock EventLock, Wrlock (EntryLock i)]\<rparr>"
  have at: "entry_at ?ev i = Some (es ! i)" using entry_at_rep [of ?ev es i] es(1) i by simp
  have es2: "ev_rep ?ev2 es" using es(1) by simp
  from take_slot_write [OF rep assms(4,5), of env] show ?thesis
  proof (elim disjE exE conjE)
    assume "short_of env (32 * length slots)" "take_slot env (es ! i) = Some (Exited (- 1))"
    then show ?thesis using at assms(6) by (simp add: sbev_reg_cb_def lock_defs Let_def)
  next
    fix h' ent assume t: "take_slot env (es ! i) = ret (h', ent)" "unat h' = h" "h < length (cbs ent)"
      "entry_rep (ent\<lparr>cbs := (cbs ent)[h := slot_of (f, d)]\<rparr>) slots' frees'" "nomen ent = nomen (es ! i)" "handle ent = handle (es ! i)"
    let ?ent = "ent\<lparr>cbs := (cbs ent)[h := slot_of (f, d)]\<rparr>"
    let ?ev' = "csb_rdunlock_plugin (call_lock (Wrunlock (EntryLock i)) (set_entry i ?ent ?ev2))"
    have "core_rep (set_entry i ?ent ?ev2) (rs[i := (nom, slots', frees')])"
      using set_entry_core [OF es2 es(2) i _ _ t(4)] t(5,6) assms(3) by simp
    then have "core_rep ?ev' (rs[i := (nom, slots', frees')])" by (simp add: lock_defs)
    moreover have "sbev_reg_cb env e f d ev = ret (h', ?ev')"
      using at t(1-3) assms(6) by (simp add: sbev_reg_cb_def lock_defs Let_def slot_of_def)
    moreover have "locks_released ev ?ev'"
      by (rule locks_releasedI [of _ _ "[Rdlock EventLock, Wrlock (EntryLock i), Wrunlock (EntryLock i), Rdunlock EventLock]"])
        (simp_all add: lock_defs set_entry_def)
    ultimately show ?thesis using t(2) by blast
  qed
qed

lemma unreg_cb_core:
  assumes "core_rep ev rs" and "i < length rs" and "rs ! i = (nom, slots, frees)" and "h < length slots"
    and "fst (slots ! h) \<noteq> None" and "unat e = i"
  shows "short_of env (16 * length slots) \<and> sbev_unreg_cb env e (of_nat h) ev = Some (Exited (- 1)) \<or>
    (\<exists>ev'. sbev_unreg_cb env e (of_nat h) ev = ret ev' \<and>
      core_rep ev' (rs[i := (nom, slots[h := (None, snd (slots ! h))], frees @ [h])]) \<and> locks_released ev ev')"
proof -
  let ?P = "\<lambda>e r. nomen e = fst r \<and> entry_rep e (fst (snd r)) (snd (snd r))"
  from assms(1) obtain es where es: "ev_rep ev es" "list_all2 ?P es rs" by (auto simp: core_rep_def)
  have i: "i < length es" using assms(2) list_all2_lengthD [OF es(2)] by simp
  have rep: "entry_rep (es ! i) slots frees" using list_all2_nthD [OF es(2) i] assms(3) by simp
  let ?ev = "ev\<lparr>lock_calls := lock_calls ev @ [Rdlock EventLock]\<rparr>"
  let ?ev2 = "ev\<lparr>lock_calls := lock_calls ev @ [Rdlock EventLock, Wrlock (EntryLock i)]\<rparr>"
  have at: "entry_at ?ev i = Some (es ! i)" using entry_at_rep [of ?ev es i] es(1) i by simp
  have es2: "ev_rep ?ev2 es" using es(1) by simp
  from give_back_frees [OF rep assms(4,5), of env] show ?thesis
  proof (elim disjE exE conjE)
    assume "short_of env (16 * length slots)" "give_back env (of_nat h) (es ! i) = Some (Exited (- 1))"
    then show ?thesis using at assms(6) by (simp add: sbev_unreg_cb_def lock_defs Let_def)
  next
    fix ent assume t: "give_back env (of_nat h) (es ! i) = ret ent"
      "entry_rep ent (slots[h := (None, snd (slots ! h))]) (frees @ [h])" "nomen ent = nomen (es ! i)" "handle ent = handle (es ! i)"
    let ?ev' = "csb_rdunlock_plugin (call_lock (Wrunlock (EntryLock i)) (set_entry i ent ?ev2))"
    have "core_rep (set_entry i ent ?ev2) (rs[i := (nom, slots[h := (None, snd (slots ! h))], frees @ [h])])"
      using set_entry_core [OF es2 es(2) i t(3,4,2)] assms(3) by simp
    then have "core_rep ?ev' (rs[i := (nom, slots[h := (None, snd (slots ! h))], frees @ [h])])" by (simp add: lock_defs)
    moreover have "sbev_unreg_cb env e (of_nat h) ev = ret ?ev'"
      using at t(1) assms(6) by (simp add: sbev_unreg_cb_def lock_defs Let_def)
    moreover have "locks_released ev ?ev'"
      by (rule locks_releasedI [of _ _ "[Rdlock EventLock, Wrlock (EntryLock i), Wrunlock (EntryLock i), Rdunlock EventLock]"])
        (simp_all add: lock_defs set_entry_def)
    ultimately show ?thesis by blast
  qed
qed

section \<open>The contract of the registry\<close>

text \<open>Registering several events, as a plugin does for its packets.\<close>

fun reg_all :: "(byte list \<Rightarrow> 's \<Rightarrow> ('h \<times> 's) result option) \<Rightarrow> byte list list \<Rightarrow> 's \<Rightarrow> ('h list \<times> 's) result option" where
  "reg_all reg [] s = ret ([], s)"
| "reg_all reg (nom # noms) s =
     bind_result (reg nom s) (\<lambda>(h, s). bind_result (reg_all reg noms s) (\<lambda>(hs, s). ret (h # hs, s)))"

text \<open>\<open>inv n s\<close>: the registry is in order and takes \<open>n\<close> more events, of names that are \<open>fine\<close>. Registering an event that is not known may end the
  program, but only when something that it needs is \<open>refused\<close>.\<close>

locale event_registry =
  fixes reg :: "byte list \<Rightarrow> 's \<Rightarrow> ('h \<times> 's) result option"
    and lookup :: "'s \<Rightarrow> byte list \<Rightarrow> 'h option"
    and inv :: "nat \<Rightarrow> 's \<Rightarrow> bool"
    and fine :: "byte list \<Rightarrow> bool"
    and refused :: bool
  assumes reg_ok: "inv (Suc n) s \<Longrightarrow> fine nom \<Longrightarrow>
      refused \<and> lookup s nom = None \<and> reg nom s = Some (Exited (- 1)) \<or>
      (\<exists>h s'. reg nom s = ret (h, s') \<and> inv n s' \<and> lookup s' nom = Some h \<and> (\<forall>m. m \<noteq> nom \<longrightarrow> lookup s' m = lookup s m) \<and>
        (\<forall>h'. lookup s nom = Some h' \<longrightarrow> h' = h))"
    and lookup_inj: "inv n s \<Longrightarrow> lookup s a = Some h \<Longrightarrow> lookup s b = Some h \<Longrightarrow> a = b"
begin

lemma reg_all_ok:
  "inv (n + length noms) s \<Longrightarrow> list_all fine noms \<Longrightarrow>
     refused \<and> reg_all reg noms s = Some (Exited (- 1)) \<or>
     (\<exists>hs s'. reg_all reg noms s = ret (hs, s') \<and> inv n s' \<and> map (lookup s') noms = map Some hs \<and>
       (\<forall>m h. lookup s m = Some h \<longrightarrow> lookup s' m = Some h))"
proof (induction noms arbitrary: s)
  case (Cons nom noms)
  then have "inv (Suc (n + length noms)) s" "fine nom" by simp_all
  from reg_ok [OF this] show ?case
  proof (elim disjE exE conjE)
    fix h s1 assume s1: "reg nom s = ret (h, s1)" "inv (n + length noms) s1" "lookup s1 nom = Some h"
      "\<forall>m. m \<noteq> nom \<longrightarrow> lookup s1 m = lookup s m" "\<forall>h'. lookup s nom = Some h' \<longrightarrow> h' = h"
    have keep: "lookup s1 m = Some g" if "lookup s m = Some g" for m g
      using s1(3-5) that by (cases "m = nom") auto
    from Cons.IH [OF s1(2)] Cons.prems(2) s1(1,3) keep show ?thesis by fastforce
  qed simp
qed simp

lemma reg_all_distinct:
  assumes "inv n s" and "map (lookup s) noms = map Some hs" and "distinct noms"
  shows "distinct hs"
  unfolding distinct_conv_nth
proof (intro allI impI)
  fix i j assume ij: "i < length hs" "j < length hs" "i \<noteq> j"
  have len: "length noms = length hs" using assms(2) by (rule map_eq_imp_length_eq)
  have at: "lookup s (noms ! i) = Some (hs ! i)" if "i < length hs" for i
    using arg_cong [OF assms(2), of "\<lambda>xs. xs ! i"] that len by simp
  show "hs ! i \<noteq> hs ! j"
  proof
    assume eq: "hs ! i = hs ! j"
    have "noms ! i = noms ! j" by (rule lookup_inj [OF assms(1) at [OF ij(1)]]) (use at [OF ij(2)] eq in simp)
    with assms(3) ij len show False by (simp add: nth_eq_iff_index_eq)
  qed
qed

end

lemma map_position: "core_rep ev rs \<Longrightarrow> map_of (entries_map ev) nom = position nom rs"
proof -
  assume core: "core_rep ev rs"
  then obtain es where es: "ev_rep ev es" "list_all2 (\<lambda>e r. nomen e = fst r \<and> entry_rep e (fst (snd r)) (snd (snd r))) es rs"
    by (auto simp: core_rep_def)
  have n: "map nomen es = map fst rs" by (rule core_rep_names [OF es(2)])
  have "map_of (entries_map ev) nom = index_map es nom" using es(1) by (simp add: ev_rep_def)
  also have "\<dots> = position nom rs"
  proof (cases "index_map es nom")
    case None
    then show ?thesis using n by (metis index_map_None position_None)
  next
    case (Some i)
    then have i: "i < length es" "nomen (es ! i) = nom" using index_map_Some by blast+
    then have "fst (rs ! i) = nom" "i < length rs" using list_all2_nthD [OF es(2) i(1)] list_all2_lengthD [OF es(2)] by simp_all
    with position_nth [OF core_rep_distinct [OF core]] Some show ?thesis by simp
  qed
  finally show ?thesis .
qed

definition event_of :: "eventcore \<Rightarrow> byte list \<Rightarrow> u64 option" where
  "event_of ev nom = map_option of_nat (map_of (entries_map ev) nom)"

text \<open>The core has room for \<open>n\<close> more events, and then at most \<open>N\<close>.\<close>

definition core_inv :: "nat \<Rightarrow> nat \<Rightarrow> eventcore \<Rightarrow> bool" where
  "core_inv N n ev \<longleftrightarrow> N \<le> 2 ^ 50 \<and> (\<exists>rs. core_rep ev rs \<and> length rs + n \<le> N)"

lemma position_less: "position nom rs = Some i \<Longrightarrow> i < length rs \<and> fst (rs ! i) = nom"
  by (induction rs arbitrary: i) (auto split: if_splits)

lemma position_snoc: "position nom (rs @ [r]) = (case position nom rs of Some i \<Rightarrow> Some i
    | None \<Rightarrow> if fst r = nom then Some (length rs) else None)"
  by (induction rs) (auto split: option.splits)

interpretation er: event_registry "sbev_reg_event env" event_of "core_inv N" "\<lambda>nom. length nom \<le> L \<and> L < 2 ^ 64"
  "refuses env (352 * N + L + 320)" for env N L
proof
  fix n and nom :: "byte list" and ev :: eventcore
  assume "core_inv N (Suc n) ev" and L: "length nom \<le> L \<and> L < 2 ^ 64"
  then obtain rs where rs: "core_rep ev rs" "length rs + Suc n \<le> N" "N \<le> 2 ^ 50" by (auto simp: core_inv_def)
  obtain h rs' where a: "add_event nom rs = (h, rs')" by (cases "add_event nom rs")
  have len: "length rs < 2 ^ 50" and nom: "length nom < 2 ^ 64" using rs(2,3) L by linarith+
  have mono: "refuses env (352 * length rs + length nom + 320) \<Longrightarrow> refuses env (352 * N + L + 320)"
    using rs(2) L by (auto elim: refuses_mono)
  from reg_event_core [OF rs(1) len nom a, of env]
  show "refuses env (352 * N + L + 320) \<and> event_of ev nom = None \<and> sbev_reg_event env nom ev = Some (Exited (- 1)) \<or>
    (\<exists>h s'. sbev_reg_event env nom ev = ret (h, s') \<and> core_inv N n s' \<and> event_of s' nom = Some h \<and>
      (\<forall>m. m \<noteq> nom \<longrightarrow> event_of s' m = event_of ev m) \<and> (\<forall>h'. event_of ev nom = Some h' \<longrightarrow> h' = h))"
  proof (elim disjE exE conjE)
    fix ev' assume r: "sbev_reg_event env nom ev = ret (of_nat h, ev')" "core_rep ev' rs'"
    have "length rs' + n \<le> N" using a rs(2) by (auto simp: add_event_def split: option.splits)
    then have "core_inv N n ev'" using r(2) rs(3) by (auto simp: core_inv_def)
    moreover have "position nom rs' = Some h" "\<And>m. m \<noteq> nom \<Longrightarrow> position m rs' = position m rs"
      "\<And>i. position nom rs = Some i \<Longrightarrow> i = h"
      using a by (auto simp: add_event_def position_snoc split: option.splits)
    ultimately show ?thesis using r by (auto simp: event_of_def map_position [OF rs(1)] map_position [OF r(2)])
  next
    assume "refuses env (352 * length rs + length nom + 320)" "nom \<notin> set (map fst rs)" "sbev_reg_event env nom ev = Some (Exited (- 1))"
    then show ?thesis using mono by (simp add: event_of_def map_position [OF rs(1)] position_None del: set_map)
  qed
next
  fix n ev a b and h :: u64
  assume "core_inv N n ev" "event_of ev a = Some h" "event_of ev b = Some h"
  then obtain rs i j where rs: "core_rep ev rs" "length rs \<le> 2 ^ 50" "position a rs = Some i" "position b rs = Some j"
    "(of_nat i :: u64) = of_nat j" by (auto simp: core_inv_def event_of_def map_position)
  then have ij: "i < length rs" "fst (rs ! i) = a" "j < length rs" "fst (rs ! j) = b" using position_less by blast+
  have "unat (of_nat i :: u64) = i" "unat (of_nat j :: u64) = j" using ij rs(2) by (simp_all add: unat_of_nat64)
  then have "i = j" using rs(5) by metis
  with ij show "a = b" by simp
qed

end
