(* ===== verification/EventRun.thy ===== *)
theory EventRun
  imports Event
begin

text \<open>
  Events at run time: \<^verbatim>\<open>sbev_emit_event\<close>, the trampoline its fibers run, and the functions that drive the ticks, on top of the
  scheduler. The state joins the event core, the scheduler, the trampoline arguments on the heap (by address; freed ones are \<open>None\<close>)
  and the counters whose contents have been initialised. A callback is an argument, a function on the state. A function that waits is
  modelled up to its wait: its result says whether the fiber has jumped to the scheduler.
\<close>

section \<open>State and operations\<close>

record tramp_arg =
  arg_cbs :: cb_and_data
  arg_ev_data :: nat
  arg_handle :: u64

record run_state =
  core :: eventcore
  sched :: world
  args :: "tramp_arg option list"
  inited :: "nat list"

definition sizeof_job :: u64 where "sizeof_job = 24"
definition sizeof_tramp_arg :: nat where "sizeof_tramp_arg = 32"

text \<open>The address of \<^verbatim>\<open>sbev_trampoline\<close>.\<close>

definition TRAMPOLINE :: nat where "TRAMPOLINE = 1"

text \<open>The loop that makes a job of every copied callback.\<close>

fun make_jobs ::
  "env \<Rightarrow> u64 \<Rightarrow> nat \<Rightarrow> cb_and_data list \<Rightarrow> tramp_arg option list \<Rightarrow> (vgc_job list \<times> tramp_arg option list) result option" where
  "make_jobs env h ev_data [] as = ret ([], as)"
| "make_jobs env h ev_data (c # cs) as =
     (if mal env sizeof_tramp_arg
      then bind_result
             (make_jobs env h ev_data cs (as @ [Some \<lparr>arg_cbs = c, arg_ev_data = ev_data, arg_handle = h\<rparr>]))
             (\<lambda>(jobs, as'). ret (vgc_job_init TRAMPOLINE (length as) FIBER_MID # jobs, as'))
      else Some (Exited (- 1)))"

definition set_core :: "eventcore \<Rightarrow> run_state \<Rightarrow> run_state" where
  "set_core ev s = s\<lparr>core := ev\<rparr>"

definition sbev_emit_event ::
  "env \<Rightarrow> (u64 \<Rightarrow> u64 \<Rightarrow> nat \<Rightarrow> nat) \<Rightarrow> u64 \<Rightarrow> nat \<Rightarrow> nat option \<Rightarrow> run_state \<Rightarrow> run_state result option" where
  "sbev_emit_event env mk h ev_data count s =
     (let ev = csb_rdlock_plugin (core s) in
      case entry_at ev (unat h) of
        None \<Rightarrow> None
      | Some ent \<Rightarrow>
          let ev = call_lock (Rdlock (EntryLock (unat h))) ev;
              cur = cur_cbs ent;
              unlocked = csb_rdunlock_plugin (call_lock (Rdunlock (EntryLock (unat h))) ev)
          in if cur = 0 then ret (set_core unlocked s)
             else if \<not> mal env (unat (sizeof_cb_and_data * cur)) then Some (Exited (- 1))
             else if array_len sizeof_cb_and_data cur < unat cur \<or> length (cbs ent) < unat cur then None
             else
               let copied = take (unat cur) (cbs ent) in
               if \<not> mal env (unat (sizeof_job * cur)) then Some (Exited (- 1))
               else if array_len sizeof_job cur < unat cur then None
               else bind_result (make_jobs env h ev_data copied (args s)) (\<lambda>(jobs, as).
                    bind_result (vgc_schedule_jobs mk jobs (int_of_size cur) count (sched s)) (\<lambda>(r, w).
                    if r \<noteq> 0 then Some (Exited (- 1))
                    else ret (s\<lparr>core := unlocked, sched := w, args := as,
                               inited := (case count of None \<Rightarrow> inited s | Some c \<Rightarrow> c # inited s)\<rparr>))))"

text \<open>\<^verbatim>\<open>sbev_trampoline\<close>, run by fiber \<open>i\<close>, up to its jump back.\<close>

definition arg_of :: "nat \<Rightarrow> run_state \<Rightarrow> tramp_arg option" where
  "arg_of i s = (let a = fdata (fibers (sched s) i) in if a < length (args s) then args s ! a else None)"

definition free_arg :: "nat \<Rightarrow> run_state \<Rightarrow> run_state option" where
  "free_arg a s = (if a < length (args s) \<and> args s ! a \<noteq> None then Some (s\<lparr>args := (args s)[a := None]\<rparr>) else None)"

definition sbev_trampoline ::
  "(nat \<Rightarrow> nat \<Rightarrow> nat \<Rightarrow> u64 \<Rightarrow> run_state \<Rightarrow> run_state option) \<Rightarrow> nat \<Rightarrow> run_state \<Rightarrow> run_state option" where
  "sbev_trampoline call i s =
     do { arg \<leftarrow> arg_of i s;
          f \<leftarrow> cb (arg_cbs arg);
          f \<leftarrow> f;
          d \<leftarrow> cb_data (arg_cbs arg);
          let a = fdata (fibers (sched s) i);
          s \<leftarrow> call f d (arg_ev_data arg) (arg_handle arg) s;
          s \<leftarrow> free_arg a s;
          Some (s\<lparr>sched := vgc_fiber_finish i (sched s)\<rparr>) }"

text \<open>A local \<^verbatim>\<open>vgc_counter count;\<close> at address \<open>c\<close>, and the wait for it; using it without a value is undefined.\<close>

definition declare_count :: "nat \<Rightarrow> run_state \<Rightarrow> run_state" where
  "declare_count c s = s\<lparr>inited := removeAll c (inited s)\<rparr>"

definition wait_count :: "nat \<Rightarrow> nat \<Rightarrow> run_state \<Rightarrow> (bool \<times> run_state) result option" where
  "wait_count i c s =
     (if c \<in> set (inited s)
      then (case vgc_wait_for_counter i c (sched s) of None \<Rightarrow> None | Some (jumped, w) \<Rightarrow> ret (jumped, s\<lparr>sched := w\<rparr>))
      else None)"

definition emit_and_wait ::
  "env \<Rightarrow> (u64 \<Rightarrow> u64 \<Rightarrow> nat \<Rightarrow> nat) \<Rightarrow> nat \<Rightarrow> nat \<Rightarrow> u64 \<Rightarrow> run_state \<Rightarrow> (bool \<times> run_state) result option" where
  "emit_and_wait env mk i c h s = bind_result (sbev_emit_event env mk h 0 (Some c) s) (wait_count i c)"

definition sbev_run_event_once ::
  "env \<Rightarrow> (u64 \<Rightarrow> u64 \<Rightarrow> nat \<Rightarrow> nat) \<Rightarrow> nat \<Rightarrow> nat \<Rightarrow> run_state \<Rightarrow> (bool \<times> run_state) result option" where
  "sbev_run_event_once env mk i c s =
     (let s = declare_count c s;
          ev = csb_rdlock_plugin (core s)
      in if kill_flag ev = 0
         then emit_and_wait env mk i c (tick_event ev) (set_core (csb_rdunlock_plugin ev) s)
         else emit_and_wait env mk i c (kill_event ev) (set_core (csb_rdunlock_plugin ev) s))"

text \<open>
  \<^verbatim>\<open>sbev_run_event_continous\<close> from the read lock before a test of \<^verbatim>\<open>kill_flag\<close> to the next wait; the first component of the result says
  whether the loop goes on when the fiber is resumed.
\<close>

definition run_round ::
  "env \<Rightarrow> (u64 \<Rightarrow> u64 \<Rightarrow> nat \<Rightarrow> nat) \<Rightarrow> nat \<Rightarrow> nat \<Rightarrow> run_state \<Rightarrow> (bool \<times> bool \<times> run_state) result option" where
  "run_round env mk i c s =
     (let ev = csb_rdlock_plugin (core s);
          s = set_core (csb_rdunlock_plugin ev) s
      in if kill_flag ev = 0
         then bind_result (emit_and_wait env mk i c (tick_event ev) s) (\<lambda>(jumped, s). ret (True, jumped, s))
         else bind_result (emit_and_wait env mk i c (kill_event ev) s) (\<lambda>(jumped, s). ret (False, jumped, s)))"

definition sbev_run_event_continous ::
  "env \<Rightarrow> (u64 \<Rightarrow> u64 \<Rightarrow> nat \<Rightarrow> nat) \<Rightarrow> nat \<Rightarrow> nat \<Rightarrow> run_state \<Rightarrow> (bool \<times> bool \<times> run_state) result option" where
  "sbev_run_event_continous env mk i c s = run_round env mk i c (declare_count c s)"

text \<open>\<^verbatim>\<open>sbev_start_event\<close> up to its wait, and what follows it.\<close>

definition sbev_start_event ::
  "env \<Rightarrow> (u64 \<Rightarrow> u64 \<Rightarrow> nat \<Rightarrow> nat) \<Rightarrow> nat \<Rightarrow> nat \<Rightarrow> run_state \<Rightarrow> (bool \<times> run_state) result option" where
  "sbev_start_event env mk i c s = emit_and_wait env mk i c (start_event (core s)) (declare_count c s)"

definition start_event_resumed ::
  "env \<Rightarrow> (u64 \<Rightarrow> u64 \<Rightarrow> nat \<Rightarrow> nat) \<Rightarrow> nat \<Rightarrow> nat \<Rightarrow> int \<Rightarrow> run_state \<Rightarrow> (bool \<times> bool \<times> run_state) result option" where
  "start_event_resumed env mk i c continuous s =
     (if continuous \<noteq> 0 then sbev_run_event_continous env mk i c s else ret (False, False, s))"

section \<open>Emitting\<close>

lemma make_jobs_all:
  "mal env sizeof_tramp_arg \<Longrightarrow>
     make_jobs env h d cs as =
       ret (map (\<lambda>j. vgc_job_init TRAMPOLINE (length as + j) FIBER_MID) [0..<length cs],
            as @ map (\<lambda>c. Some \<lparr>arg_cbs = c, arg_ev_data = d, arg_handle = h\<rparr>) cs)"
proof (induction cs arbitrary: as)
  case (Cons c cs)
  have "map (\<lambda>j. vgc_job_init TRAMPOLINE (length as + j) FIBER_MID) [0..<Suc (length cs)] =
    vgc_job_init TRAMPOLINE (length as) FIBER_MID #
      map (\<lambda>j. vgc_job_init TRAMPOLINE (Suc (length as) + j) FIBER_MID) [0..<length cs]"
    by (simp add: upt_conv_Cons map_Suc_upt [symmetric] del: upt_Suc)
  with Cons show ?case by (simp del: upt_Suc)
qed simp

lemma place_mid:
  "pool l = f # ps \<Longrightarrow> jpriority job = FIBER_MID \<Longrightarrow> place job l = l\<lparr>mids := mids l @ [f], pool := ps\<rparr>"
  by (simp add: place_def ready_of_def)

lemma fits_mid:
  assumes "\<forall>job \<in> set jobs. jpriority job = FIBER_MID" and "length jobs = length is"
    and "pool l = map FiberAt is @ ps" and "length (mids l) + length is \<le> 2 ^ k"
  shows "fits k jobs l \<and> fold place jobs l = l\<lparr>mids := mids l @ map FiberAt is, pool := ps\<rparr>"
  using assms
proof (induction jobs arbitrary: "is" l)
  case Nil
  then show ?case by simp
next
  case (Cons job jobs)
  then obtain i js where js: "is = i # js" by (cases "is") auto
  let ?l = "l\<lparr>mids := mids l @ [FiberAt i], pool := map FiberAt js @ ps\<rparr>"
  have p: "place job l = ?l" using place_mid [of l] Cons.prems js by simp
  have "fits k jobs ?l \<and> fold place jobs ?l = ?l\<lparr>mids := mids ?l @ map FiberAt js, pool := ps\<rparr>"
    by (rule Cons.IH) (use Cons.prems js in simp_all)
  with p Cons.prems js show ?case by (simp add: ready_of_def)
qed

lemma assigned_other:
  "length jobs = length is \<Longrightarrow> i \<notin> set is \<Longrightarrow> assigned mk count jobs (map FiberAt is @ ps) fs i = fs i"
proof (induction jobs arbitrary: "is" fs)
  case (Cons job jobs)
  then show ?case by (cases "is") auto
qed simp

lemma assigned_nth:
  "length jobs = length is \<Longrightarrow> distinct is \<Longrightarrow> j < length is \<Longrightarrow>
     assigned mk count jobs (map FiberAt is @ ps) fs (is ! j) = configured mk (jobs ! j) count (fs (is ! j))"
proof (induction jobs arbitrary: "is" fs j)
  case (Cons job jobs)
  then obtain i js where js: "is = i # js" by (cases "is") auto
  show ?case
  proof (cases j)
    case 0
    with Cons.prems js show ?thesis by (simp add: assigned_other)
  next
    case (Suc j')
    have "js ! j' \<noteq> i" using Cons.prems js Suc nth_mem [of j' js] by auto
    with Suc Cons.prems js Cons.IH [of js j' "fs(i := configured mk job count (fs i))"] show ?thesis
      by (simp add: fun_upd_def)
  qed
qed simp

lemma slots_copied:
  assumes "entry_rep ent slots frees"
  shows "take (length slots) (cbs ent) = map slot_of slots" and "length slots \<le> length (cbs ent)"
    and "unat (cur_cbs ent) = length slots"
  using assms by (simp_all add: entry_rep_def)

lemma emit_entry:
  assumes "ev_rep (core s) es" and "unat h < length es" and "entry_rep (es ! unat h) slots frees"
    and "\<forall>n. mal env n" and "slots \<noteq> []" and "length slots < 2 ^ 31"
    and "holds k (n + length slots) (sched s) l" and "pool l = map FiberAt is @ ps" and "length is = length slots"
    and "length (mids l) + length slots \<le> 2 ^ k"
  shows "\<exists>s'. sbev_emit_event env mk h d (Some c) s = ret s' \<and>
    holds k n (sched s') (l\<lparr>mids := mids l @ map FiberAt is, pool := ps\<rparr>) \<and>
    args s' = args s @ map (\<lambda>x. Some \<lparr>arg_cbs = slot_of x, arg_ev_data = d, arg_handle = h\<rparr>) slots \<and>
    counters (sched s') = (counters (sched s))(c := vgc_counter_init (int (length slots))) \<and>
    (\<forall>i. i \<notin> set is \<longrightarrow> fibers (sched s') i = fibers (sched s) i) \<and>
    (\<forall>j < length slots. distinct is \<longrightarrow> fibers (sched s') (is ! j) =
      configured mk (vgc_job_init TRAMPOLINE (length (args s) + j) FIBER_MID) (Some c) (fibers (sched s) (is ! j))) \<and>
    inited s' = c # inited s \<and> core s' = (core s)\<lparr>lock_calls := lock_calls (core s) @
      [Rdlock EventLock, Rdlock (EntryLock (unat h)), Rdunlock (EntryLock (unat h)), Rdunlock EventLock]\<rparr>"
proof -
  let ?ent = "es ! unat h" and ?ev = "(core s)\<lparr>lock_calls := lock_calls (core s) @ [Rdlock EventLock]\<rparr>"
  note sl = slots_copied [OF assms(3)]
  have at: "entry_at ?ev (unat h) = Some ?ent" using entry_at_rep [of ?ev es] assms(1,2) by simp
  have cur: "cur_cbs ?ent \<noteq> 0" using sl(3) assms(5) by auto
  have small: "length slots < 2 ^ 31" by (rule assms(6))
  have len: "array_len sizeof_cb_and_data (cur_cbs ?ent) = length slots" "array_len sizeof_job (cur_cbs ?ent) = length slots"
    using small sl(3) by (simp_all add: array_len_exact sizeof_cb_and_data_def sizeof_job_def)
  have "cur_cbs ?ent = of_nat (length slots)" using sl(3) small by (simp add: word_unat_eq_iff unat_of_nat64)
  then have ci: "int_of_size (cur_cbs ?ent) = int (length slots)"
    using int_of_size_of_nat [of "length slots"] small by (simp add: INT_MAX_def)
  let ?jobs = "map (\<lambda>j. vgc_job_init TRAMPOLINE (length (args s) + j) FIBER_MID) [0..<length slots]"
  let ?as = "args s @ map (\<lambda>x. Some \<lparr>arg_cbs = slot_of x, arg_ev_data = d, arg_handle = h\<rparr>) slots"
  have jobs: "make_jobs env h d (map slot_of slots) (args s) = ret (?jobs, ?as)"
    using make_jobs_all [of env h d "map slot_of slots" "args s"] assms(4) by (simp add: o_def)
  have fit: "fits k ?jobs l \<and> fold place ?jobs l = l\<lparr>mids := mids l @ map FiberAt is, pool := ps\<rparr>"
    by (rule fits_mid) (use assms(8-10) in \<open>auto simp: vgc_job_init_def\<close>)
  have "holds k (n + length ?jobs) (sched s) l" using assms(7) by simp
  from schedule_all [OF this conjunct1 [OF fit], of mk c] fit obtain w where w:
    "vgc_schedule_jobs mk ?jobs (int (length slots)) (Some c) (sched s) = ret (0, w)"
    "holds k n w (l\<lparr>mids := mids l @ map FiberAt is, pool := ps\<rparr>)"
    "counters w = (counters (sched s))(c := vgc_counter_init (int (length slots)))"
    "fibers w = assigned mk (Some c) ?jobs (pool l) (fibers (sched s))"
    by (auto simp: ret_def)
  have "fibers w i = fibers (sched s) i" if "i \<notin> set is" for i
    using assigned_other [of ?jobs "is" i mk "Some c" ps "fibers (sched s)"] that w(4) assms(8,9) by simp
  moreover have "fibers w (is ! j) = configured mk (vgc_job_init TRAMPOLINE (length (args s) + j) FIBER_MID) (Some c) (fibers (sched s) (is ! j))"
    if "j < length slots" "distinct is" for j
    using assigned_nth [of ?jobs "is" j mk "Some c" ps "fibers (sched s)"] that w(4) assms(8,9) by simp
  moreover have "sbev_emit_event env mk h d (Some c) s =
    ret (s\<lparr>core := (core s)\<lparr>lock_calls := lock_calls (core s) @
      [Rdlock EventLock, Rdlock (EntryLock (unat h)), Rdunlock (EntryLock (unat h)), Rdunlock EventLock]\<rparr>,
      sched := w, args := ?as, inited := c # inited s\<rparr>)"
    using at cur len sl assms(4) ci jobs w(1) by (simp add: sbev_emit_event_def lock_defs Let_def)
  ultimately show ?thesis using w by simp
qed

text \<open>What the trampoline does in a fiber that has the argument of a callback: it calls its function, which must not be null, and frees the argument.\<close>

lemma trampoline_calls:
  assumes "arg_of i s = Some \<lparr>arg_cbs = slot_of x, arg_ev_data = d, arg_handle = h\<rparr>"
  shows "sbev_trampoline call i s =
    do { f \<leftarrow> fst x;
         s1 \<leftarrow> call f (snd x) d h s;
         s2 \<leftarrow> free_arg (fdata (fibers (sched s) i)) s1;
         Some (s2\<lparr>sched := vgc_fiber_finish i (sched s2)\<rparr>) }"
  using assms by (simp add: sbev_trampoline_def slot_of_def Let_def)

text \<open>Fiber \<open>i\<close> is set up to run the trampoline with middle priority on its own stack, \<open>c\<close> counts it, and when it is run in a state that has not
  touched its argument it calls the function of slot \<open>x\<close> with its data, the data of the event and the handle.\<close>

definition queued_callback ::
  "(u64 \<Rightarrow> u64 \<Rightarrow> nat \<Rightarrow> nat) \<Rightarrow> nat \<Rightarrow> nat \<Rightarrow> u64 \<Rightarrow> run_state \<Rightarrow> nat \<Rightarrow> nat option \<times> nat \<Rightarrow> bool" where
  "queued_callback mk c d h s i x \<longleftrightarrow>
     (let fb = fibers (sched s) i in
      ctx fb = mk (stack_base fb) (stack_limit fb) TRAMPOLINE \<and> priority fb = FIBER_MID \<and> parent_count fb = Some c \<and>
      (\<forall>call t. arg_of i t = arg_of i s \<longrightarrow> sbev_trampoline call i t =
         do { f \<leftarrow> fst x;
              t1 \<leftarrow> call f (snd x) d h t;
              t2 \<leftarrow> free_arg (fdata (fibers (sched t) i)) t1;
              Some (t2\<lparr>sched := vgc_fiber_finish i (sched t2)\<rparr>) }))"

lemma queued_callbackI:
  assumes "fibers (sched s) i = configured mk (vgc_job_init TRAMPOLINE a FIBER_MID) (Some c) fb"
    and "arg_of i s = Some \<lparr>arg_cbs = slot_of x, arg_ev_data = d, arg_handle = h\<rparr>"
  shows "queued_callback mk c d h s i x"
  using assms trampoline_calls [of i _ x d h]
  by (simp add: queued_callback_def configured_def vgc_fiber_assign_def vgc_job_init_def)

lemma emit_core:
  assumes "core_rep (core s) rs" and "unat h < length rs" and "rs ! unat h = (nom, slots, frees)"
    and "\<forall>n. mal env n" and "slots \<noteq> []" and "length slots < 2 ^ 31"
    and "holds k (n + length slots) (sched s) l" and "pool l = map FiberAt is @ ps" and "length is = length slots"
    and "distinct is" and "length (mids l) + length slots \<le> 2 ^ k"
  shows "\<exists>s'. sbev_emit_event env mk h d (Some c) s = ret s' \<and>
    holds k n (sched s') (l\<lparr>mids := mids l @ map FiberAt is, pool := ps\<rparr>) \<and>
    map (\<lambda>i. arg_of i s') is = map (\<lambda>x. Some \<lparr>arg_cbs = slot_of x, arg_ev_data = d, arg_handle = h\<rparr>) slots \<and>
    list_all2 (queued_callback mk c d h s') is slots \<and> (\<forall>i. i \<notin> set is \<longrightarrow> fibers (sched s') i = fibers (sched s) i) \<and>
    counters (sched s') = (counters (sched s))(c := vgc_counter_init (int (length slots))) \<and> inited s' = c # inited s \<and>
    core_rep (core s') rs \<and> locks_released (core s) (core s')"
proof -
  from assms(1) obtain es where es: "ev_rep (core s) es"
    "list_all2 (\<lambda>e r. nomen e = fst r \<and> entry_rep e (fst (snd r)) (snd (snd r))) es rs" by (auto simp: core_rep_def)
  have h: "unat h < length es" using assms(2) list_all2_lengthD [OF es(2)] by simp
  have rep: "entry_rep (es ! unat h) slots frees" using list_all2_nthD [OF es(2) h] assms(3) by simp
  obtain s' where s': "sbev_emit_event env mk h d (Some c) s = ret s'"
    "holds k n (sched s') (l\<lparr>mids := mids l @ map FiberAt is, pool := ps\<rparr>)"
    "args s' = args s @ map (\<lambda>x. Some \<lparr>arg_cbs = slot_of x, arg_ev_data = d, arg_handle = h\<rparr>) slots"
    "counters (sched s') = (counters (sched s))(c := vgc_counter_init (int (length slots)))"
    "\<forall>i. i \<notin> set is \<longrightarrow> fibers (sched s') i = fibers (sched s) i"
    "\<forall>j < length slots. fibers (sched s') (is ! j) =
      configured mk (vgc_job_init TRAMPOLINE (length (args s) + j) FIBER_MID) (Some c) (fibers (sched s) (is ! j))"
    "core s' = (core s)\<lparr>lock_calls := lock_calls (core s) @
      [Rdlock EventLock, Rdlock (EntryLock (unat h)), Rdunlock (EntryLock (unat h)), Rdunlock EventLock]\<rparr>" "inited s' = c # inited s"
    using emit_entry [OF es(1) h rep assms(4-9,11), of mk d c] assms(10) by blast
  have "fdata (fibers (sched s') (is ! j)) = length (args s) + j" if "j < length slots" for j
    using s'(6) that by (simp add: configured_def vgc_job_init_def)
  then have arg: "arg_of (is ! j) s' = Some \<lparr>arg_cbs = slot_of (slots ! j), arg_ev_data = d, arg_handle = h\<rparr>" if "j < length slots" for j
    using that s'(3) by (simp add: arg_of_def nth_append)
  then have "map (\<lambda>i. arg_of i s') is = map (\<lambda>x. Some \<lparr>arg_cbs = slot_of x, arg_ev_data = d, arg_handle = h\<rparr>) slots"
    using assms(9) by (intro nth_equalityI) simp_all
  moreover have "list_all2 (queued_callback mk c d h s') is slots"
    using assms(9) s'(6) arg by (intro list_all2_all_nthI queued_callbackI) auto
  moreover have "locks_released (core s) (core s')"
    by (rule locks_releasedI [of _ _ "[Rdlock EventLock, Rdlock (EntryLock (unat h)), Rdunlock (EntryLock (unat h)), Rdunlock EventLock]"])
      (simp_all add: s'(7))
  ultimately show ?thesis using s' assms(1) by auto
qed

lemma emit_silent:
  assumes "core_rep (core s) rs" and "unat h < length rs" and "rs ! unat h = (nom, [], [])"
  shows "\<exists>s'. sbev_emit_event env mk h d count s = ret s' \<and> inited s' = inited s \<and> sched s' = sched s \<and> args s' = args s \<and>
    core_rep (core s') rs \<and> locks_released (core s) (core s')"
proof -
  from assms(1) obtain es where es: "ev_rep (core s) es"
    "list_all2 (\<lambda>e r. nomen e = fst r \<and> entry_rep e (fst (snd r)) (snd (snd r))) es rs" by (auto simp: core_rep_def)
  have h: "unat h < length es" using assms(2) list_all2_lengthD [OF es(2)] by simp
  have "entry_rep (es ! unat h) [] []" using list_all2_nthD [OF es(2) h] assms(3) by simp
  then have cur: "cur_cbs (es ! unat h) = 0" by (simp add: entry_rep_def unat_eq_0)
  let ?ev = "(core s)\<lparr>lock_calls := lock_calls (core s) @ [Rdlock EventLock]\<rparr>"
  let ?ev' = "(core s)\<lparr>lock_calls := lock_calls (core s) @
    [Rdlock EventLock, Rdlock (EntryLock (unat h)), Rdunlock (EntryLock (unat h)), Rdunlock EventLock]\<rparr>"
  have "entry_at ?ev (unat h) = Some (es ! unat h)" using entry_at_rep [of ?ev es] es(1) h by simp
  then have "sbev_emit_event env mk h d count s = ret (s\<lparr>core := ?ev'\<rparr>)"
    using cur by (simp add: sbev_emit_event_def lock_defs Let_def set_core_def)
  moreover have "locks_released (core s) ?ev'"
    by (rule locks_releasedI [of _ _ "[Rdlock EventLock, Rdlock (EntryLock (unat h)), Rdunlock (EntryLock (unat h)), Rdunlock EventLock]"])
      simp_all
  ultimately show ?thesis using assms(1) by auto
qed

section \<open>Emitting and waiting\<close>

lemma queued_callback_frame:
  assumes "queued_callback mk c d h s i x" and "args t = args s" and "fdata (fibers (sched t) i) = fdata (fibers (sched s) i)"
    and "ctx (fibers (sched t) i) = ctx (fibers (sched s) i)" and "priority (fibers (sched t) i) = priority (fibers (sched s) i)"
    and "parent_count (fibers (sched t) i) = parent_count (fibers (sched s) i)"
    and "stack_base (fibers (sched t) i) = stack_base (fibers (sched s) i)"
    and "stack_limit (fibers (sched t) i) = stack_limit (fibers (sched s) i)"
  shows "queued_callback mk c d h t i x"
proof -
  have "arg_of i t = arg_of i s" using assms(2,3) by (simp add: arg_of_def Let_def)
  with assms show ?thesis by (simp add: queued_callback_def Let_def)
qed

text \<open>A fiber that waits for the counter of what it has just emitted: it jumps, and the scheduler's half records it as the only waiter and
  releases the counter.\<close>

definition parked :: "nat \<Rightarrow> nat \<Rightarrow> nat \<Rightarrow> world \<Rightarrow> world \<Rightarrow> bool" where
  "parked i c m w w' \<longleftrightarrow> fstate (fibers w i) = FIBER_WAIT \<and> after_jump i w = Some (Returned w') \<and> fibers w' = fibers w \<and>
     waiting (counters w' c) = [Some (FiberAt i)] \<and> lock (counters w' c) = 0 \<and> counter (counters w' c) = int m"

lemma wait_parks:
  assumes "counters w c = vgc_counter_init (int m)" and "0 < m" and "holds k n w l"
  shows "\<exists>w1 w2. vgc_wait_for_counter i c w = Some (True, w1) \<and> fibers w1 = (fibers w)(i := (fibers w i)\<lparr>fstate := FIBER_WAIT, dependency_count := Some c\<rparr>) \<and>
    parked i c m w1 w2 \<and> holds k n w2 l"
proof -
  let ?w1 = "suspend i c (w\<lparr>counters := (counters w)(c := (counters w c)\<lparr>lock := 1\<rparr>)\<rparr>)"
  have nz: "lock (counters w c) = 0" "counter (counters w c) \<noteq> 0" using assms(1,2) by (simp_all add: counter_init_ok)
  have v: "vgc_wait_for_counter i c w = Some (True, ?w1)" using nz by (simp add: vgc_wait_for_counter_def vgc_counter_acquire_def)
  let ?ct = "(vgc_counter_init (int m))\<lparr>waiters := (waiters (vgc_counter_init (int m)))[0 := Some (FiberAt i)], waiters_len := 0 + 1\<rparr>"
  let ?w2 = "w\<lparr>counters := (counters w)(c := ?ct),
    fibers := (fibers w)(i := (fibers w i)\<lparr>fstate := FIBER_WAIT, dependency_count := Some c\<rparr>)\<rparr>"
  have "after_jump i ?w1 = Some (Returned ?w2)"
    using wait_step_full [OF nz, of i] v assms(1) by (simp add: wait_step_def counter_init_ok WAIT_FIBER_LEN_def)
  moreover have "waiting ?ct = [Some (FiberAt i)]"
    using waiting_snoc [OF counter_init_ok(1) [of "int m"], of "FiberAt i"] by (simp add: counter_init_ok WAIT_FIBER_LEN_def)
  ultimately show ?thesis using v assms(3)
    by (intro exI [of _ ?w1] exI [of _ ?w2]) (simp add: parked_def suspend_def counter_init_ok)
qed

lemma emit_waits:
  assumes "core_rep (core s) rs" and "unat h < length rs" and "rs ! unat h = (nom, slots, frees)"
    and "\<forall>n. mal env n" and "slots \<noteq> []" and "length slots < 2 ^ 31"
    and "holds k (n + length slots) (sched s) l" and "pool l = map FiberAt is @ ps" and "length is = length slots"
    and "distinct is" and "length (mids l) + length slots \<le> 2 ^ k"
  shows "\<exists>s1 s2 w. sbev_emit_event env mk h d (Some c) s = ret s1 \<and> wait_count i c s1 = ret (True, s2) \<and>
    list_all2 (queued_callback mk c d h s2) is slots \<and> parked i c (length slots) (sched s2) w \<and>
    holds k n w (l\<lparr>mids := mids l @ map FiberAt is, pool := ps\<rparr>) \<and> core_rep (core s2) rs \<and> locks_released (core s) (core s2)"
proof -
  from emit_core [OF assms, of mk d c] obtain s1 where s1: "sbev_emit_event env mk h d (Some c) s = ret s1"
    "holds k n (sched s1) (l\<lparr>mids := mids l @ map FiberAt is, pool := ps\<rparr>)" "list_all2 (queued_callback mk c d h s1) is slots"
    "counters (sched s1) = (counters (sched s))(c := vgc_counter_init (int (length slots)))" "inited s1 = c # inited s"
    "core_rep (core s1) rs" "locks_released (core s) (core s1)" by auto
  have "counters (sched s1) c = vgc_counter_init (int (length slots))" "0 < length slots" using s1(4) assms(5) by simp_all
  from wait_parks [OF this s1(2), of i] obtain w1 w2 where w: "vgc_wait_for_counter i c (sched s1) = Some (True, w1)"
    "fibers w1 = (fibers (sched s1))(i := (fibers (sched s1) i)\<lparr>fstate := FIBER_WAIT, dependency_count := Some c\<rparr>)"
    "parked i c (length slots) w1 w2" "holds k n w2 (l\<lparr>mids := mids l @ map FiberAt is, pool := ps\<rparr>)" by auto
  have "wait_count i c s1 = ret (True, s1\<lparr>sched := w1\<rparr>)" using s1(5) w(1) by (simp add: wait_count_def)
  moreover have "queued_callback mk c d h (s1\<lparr>sched := w1\<rparr>) j x" if "queued_callback mk c d h s1 j x" for j x
    by (rule queued_callback_frame [OF that]) (simp_all add: w(2))
  then have "list_all2 (queued_callback mk c d h (s1\<lparr>sched := w1\<rparr>)) is slots" by (rule list_all2_mono [OF s1(3)])
  ultimately show ?thesis using s1 w(3,4) by auto
qed

section \<open>Concrete cores\<close>

definition granted :: env where
  "granted = \<lparr>mal = \<lambda>_. True, rwlock_init = \<lambda>_. 0\<rparr>"

definition the_core :: "eventcore result option \<Rightarrow> eventcore" where
  "the_core r = (case r of Some (Returned ev) \<Rightarrow> ev
     | _ \<Rightarrow> \<lparr>entries_map = [], entries = [], max_events = 0, cur_events = 0, start_event = 0, tick_event = 0, kill_event = 0,
              kill_flag = 0, lock_calls = []\<rparr>)"

lemma blank_core_rep:
  "core_rep \<lparr>entries_map = [], entries = replicate 20 None, max_events = 20, cur_events = 0, start_event = 0, tick_event = 0,
     kill_event = 0, kill_flag = 0, lock_calls = []\<rparr> []"
  by (simp add: core_rep_def ev_rep_def index_map_def)

lemma core_rep_handles [simp]:
  "core_rep (ev\<lparr>start_event := h\<rparr>) rs = core_rep ev rs" "core_rep (ev\<lparr>tick_event := h\<rparr>) rs = core_rep ev rs"
  "core_rep (ev\<lparr>kill_event := h\<rparr>) rs = core_rep ev rs"
  by (simp_all add: core_rep_def)

lemma names_short: "length str_start < 2 ^ 64" "length str_tick < 2 ^ 64" "length str_kill < 2 ^ 64"
  by (simp_all add: str_start_def str_tick_def str_kill_def)

lemma names_distinct: "str_start \<noteq> str_tick" "str_start \<noteq> str_kill" "str_tick \<noteq> str_kill"
  by (simp_all add: str_start_def str_tick_def str_kill_def)

text \<open>The members that registration leaves alone.\<close>

definition same_handles :: "eventcore \<Rightarrow> eventcore \<Rightarrow> bool" where
  "same_handles ev ev' \<longleftrightarrow> start_event ev' = start_event ev \<and> tick_event ev' = tick_event ev \<and> kill_event ev' = kill_event ev \<and>
     kill_flag ev' = kill_flag ev"

lemma rehash_handles: "rehash i n ev = Some ev' \<Longrightarrow> same_handles ev ev'"
proof (induction i n ev rule: rehash.induct)
  case (2 i n ev)
  then obtain ent where "entry_at ev i = Some ent" "rehash (Suc i) n (ev\<lparr>entries_map := (nomen ent, i) # entries_map ev\<rparr>) = Some ev'"
    by (auto split: bind_splits)
  with 2 show ?case by (simp add: same_handles_def)
qed (simp add: same_handles_def)

lemma bind_result_ret: "bind_result m f = ret y \<longleftrightarrow> (\<exists>x. m = ret x \<and> f x = ret y)"
  by (auto simp: bind_result_def ret_def split: option.splits result.splits)

lemma case_ret: "(case m of None \<Rightarrow> None | Some x \<Rightarrow> ret x) = ret y \<longleftrightarrow> m = Some y"
  by (cases m) auto

lemma grow_events_handles: "grow_events env ev = ret ev' \<Longrightarrow> same_handles ev ev'"
  by (auto simp: grow_events_def bind_result_ret Let_def case_ret same_handles_def split: if_splits dest!: rehash_handles)

lemma reg_event_add_handles: "reg_event_add env nom ev = ret (h, ev') \<Longrightarrow> same_handles ev ev'"
  by (auto simp: reg_event_add_def bind_result_ret Let_def lock_defs same_handles_def set_entry_def
      split: if_splits dest!: grow_events_handles)

lemma reg_event_handles: "sbev_reg_event env nom ev = ret (h, ev') \<Longrightarrow> same_handles ev ev'"
  by (auto simp: sbev_reg_event_def reg_event_find_def Let_def lock_defs same_handles_def
      split: option.splits bind_splits dest!: reg_event_add_handles)

lemma init_core:
  "sbev_init_event env = Some (Exited (- 1)) \<or>
   (\<exists>ev. sbev_init_event env = ret ev \<and> core_rep ev [(str_start, [], []), (str_tick, [], []), (str_kill, [], [])] \<and>
     start_event ev = 0 \<and> tick_event ev = 1 \<and> kill_event ev = 2 \<and> kill_flag ev = 0)"
proof -
  let ?ev0 = "\<lparr>entries_map = [], entries = replicate 20 None, max_events = 20, cur_events = 0, start_event = 0, tick_event = 0,
     kill_event = 0, kill_flag = 0, lock_calls = []\<rparr>"
  have a0: "chk_alloc env sizeof_event_entry 20 (None :: event_entry option) [] = Some (Exited (- 1)) \<or>
    chk_alloc env sizeof_event_entry 20 (None :: event_entry option) [] = ret (replicate 20 None)"
    using chk_alloc_cases [of sizeof_event_entry 20 env "None :: event_entry option" "[]"] by (auto simp: sizeof_event_entry_def)
  show ?thesis
  proof (rule ccontr)
    assume no: "\<not> ?thesis"
    then have i: "sbev_init_event env = bind_result (sbev_reg_event env str_start ?ev0) (\<lambda>(h, ev).
        bind_result (sbev_reg_event env str_tick (ev\<lparr>start_event := h\<rparr>)) (\<lambda>(h, ev).
        bind_result (sbev_reg_event env str_kill (ev\<lparr>tick_event := h\<rparr>)) (\<lambda>(h, ev). ret (ev\<lparr>kill_event := h\<rparr>))))"
      using a0 by (auto simp: sbev_init_event_def Let_def)
    have "add_event str_start [] = (0, [(str_start, [], [])])" by (simp add: add_event_def)
    from reg_event_core [OF blank_core_rep _ names_short(1) this, of env] no i obtain ev1 where
      1: "sbev_reg_event env str_start ?ev0 = ret (0, ev1)" "core_rep ev1 [(str_start, [], [])]" by auto
    have "add_event str_tick [(str_start, [], [])] = (1, [(str_start, [], []), (str_tick, [], [])])"
      using names_distinct by (simp add: add_event_def)
    moreover have "core_rep (ev1\<lparr>start_event := 0\<rparr>) [(str_start, [], [])]" using 1(2) by simp
    ultimately obtain ev2 where
      2: "sbev_reg_event env str_tick (ev1\<lparr>start_event := 0\<rparr>) = ret (1, ev2)"
        "core_rep ev2 [(str_start, [], []), (str_tick, [], [])]"
      using reg_event_core [of "ev1\<lparr>start_event := 0\<rparr>" "[(str_start, [], [])]" str_tick 1 _ env] names_short(2) no i 1(1) by auto
    have "add_event str_kill [(str_start, [], []), (str_tick, [], [])] =
      (2, [(str_start, [], []), (str_tick, [], []), (str_kill, [], [])])"
      using names_distinct by (simp add: add_event_def)
    moreover have "core_rep (ev2\<lparr>tick_event := 1\<rparr>) [(str_start, [], []), (str_tick, [], [])]" using 2(2) by simp
    ultimately obtain ev3 where
      3: "sbev_reg_event env str_kill (ev2\<lparr>tick_event := 1\<rparr>) = ret (2, ev3)"
        "core_rep ev3 [(str_start, [], []), (str_tick, [], []), (str_kill, [], [])]"
      using reg_event_core [of "ev2\<lparr>tick_event := 1\<rparr>" "[(str_start, [], []), (str_tick, [], [])]" str_kill 2 _ env]
        names_short(3) no i 1(1) 2(1) by auto
    have "same_handles (ev2\<lparr>tick_event := 1\<rparr>) ev3" "same_handles (ev1\<lparr>start_event := 0\<rparr>) ev2" "same_handles ?ev0 ev1"
      using reg_event_handles 1(1) 2(1) 3(1) by blast+
    then have "start_event ev3 = 0" "tick_event ev3 = 1" "kill_flag ev3 = 0" by (simp_all add: same_handles_def)
    with no i 1(1) 2(1) 3 show False by simp
  qed
qed

lemma bind_result_exit:
  "bind_result m f = Some (Exited e) \<longleftrightarrow> m = Some (Exited e) \<or> (\<exists>x. m = ret x \<and> f x = Some (Exited e))"
  by (auto simp: bind_result_def ret_def split: option.splits result.splits)

lemma granted_refuses [simp]: "\<not> short_of granted b" "\<not> refuses granted b"
  by (simp_all add: short_of_def refuses_def granted_def)

lemma granted_chk_alloc [simp]: "chk_alloc granted sz n blank xs \<noteq> Some (Exited e)"
  by (simp add: chk_alloc_def granted_def)

lemma granted_entry [simp]: "sbev_init_event_entry granted nom h \<noteq> Some (Exited e)"
proof -
  have "sdsnew (mal granted) nom \<noteq> Some None" "rwlock_init granted l = 0" for l
    by (simp_all add: sdsnew_def sdsnewlen_def Let_def granted_def split: bind_splits)
  then show ?thesis by (auto simp: sbev_init_event_entry_def bind_result_exit split: option.splits)
qed

lemma granted_grow [simp]: "grow_events granted ev \<noteq> Some (Exited e)"
  by (auto simp: grow_events_def bind_result_exit Let_def split: option.splits if_splits)

lemma granted_add [simp]: "reg_event_add granted nom ev \<noteq> Some (Exited e)"
  by (auto simp: reg_event_add_def bind_result_exit Let_def split: if_splits)

lemma granted_reg [simp]: "sbev_reg_event granted nom ev \<noteq> Some (Exited e)"
  by (auto simp: sbev_reg_event_def split: option.splits)

lemma granted_reg_cb [simp]: "sbev_reg_cb granted e f d ev \<noteq> Some (Exited x)"
  by (auto simp: sbev_reg_cb_def take_slot_def grow_cbs_def bind_result_exit Let_def split: option.splits if_splits)

lemma granted_init [simp]: "sbev_init_event granted \<noteq> Some (Exited e)"
proof -
  have "rwlock_init granted l = 0" for l by (simp add: granted_def)
  then show ?thesis by (auto simp: sbev_init_event_def csb_init_plugin_def bind_result_exit Let_def)
qed

lemma granted_unreg_cb [simp]: "sbev_unreg_cb granted e h ev \<noteq> Some (Exited x)"
  by (auto simp: sbev_unreg_cb_def give_back_def grow_frees_def bind_result_exit Let_def split: option.splits if_splits)

definition booted :: eventcore where
  "booted = the_core (sbev_init_event granted)"

abbreviation booted_view :: "event_view list" where
  "booted_view \<equiv> [(str_start, [], []), (str_tick, [], []), (str_kill, [], [])]"

lemma booted_ok: "core_rep booted booted_view" "start_event booted = 0" "tick_event booted = 1" "kill_event booted = 2"
  "kill_flag booted = 0"
  using init_core [of granted] by (auto simp: booted_def the_core_def ret_def)

section \<open>What the event core guarantees\<close>



text \<open>C26. Registering a callback stores it in the slot that was given back last, or in a new one, growing the array when it is full; the callbacks in
  use keep their handles and the locks are released. The program ends only when a request for at most twice the size of the slots there are is
  refused.\<close>

theorem reg_cb_refines:
  assumes "core_rep ev rs" and "i < length rs" and "rs ! i = (nom, slots, frees)" and "length slots < 2 ^ 50"
    and "add_cb (f, d) (slots, frees) = (h, slots', frees')" and "unat e = i"
  shows "short_of env (32 * length slots) \<and> sbev_reg_cb env e f d ev = Some (Exited (- 1)) \<or>
    (\<exists>h' ev'. sbev_reg_cb env e f d ev = ret (h', ev') \<and> unat h' = h \<and> core_rep ev' (rs[i := (nom, slots', frees')]) \<and>
      locks_released ev ev')"
  by (rule reg_cb_core [OF assms])

theorem reg_cb_refines_witness:
  "\<exists>h' ev'. sbev_reg_cb granted 1 (Some 7) 5 booted = ret (h', ev') \<and> unat h' = 0 \<and>
     core_rep ev' [(str_start, [], []), (str_tick, [(Some 7, 5)], []), (str_kill, [], [])]"
  using reg_cb_refines [OF booted_ok(1), of 1 str_tick "[]" "[]" "Some 7" 5 0 "[(Some 7, 5)]" "[]" 1 granted] by auto

text \<open>Unregistering a callback in use clears its slot and gives the handle back, unless the array of free handles cannot be grown.\<close>

theorem unreg_cb_refines:
  assumes "core_rep ev rs" and "i < length rs" and "rs ! i = (nom, slots, frees)" and "h < length slots"
    and "fst (slots ! h) \<noteq> None" and "unat e = i"
  shows "short_of env (16 * length slots) \<and> sbev_unreg_cb env e (of_nat h) ev = Some (Exited (- 1)) \<or>
    (\<exists>ev'. sbev_unreg_cb env e (of_nat h) ev = ret ev' \<and>
      core_rep ev' (rs[i := (nom, slots[h := (None, snd (slots ! h))], frees @ [h])]) \<and> locks_released ev ev')"
  by (rule unreg_cb_core [OF assms])

lemma two_callbacks:
  "\<exists>ev. core_rep ev [(str_start, [], []), (str_tick, [(Some 7, 5), (Some 8, 6)], []), (str_kill, [], [])]"
proof -
  obtain h ev where ev: "core_rep ev [(str_start, [], []), (str_tick, [(Some 7, 5)], []), (str_kill, [], [])]"
    using reg_cb_core [OF booted_ok(1), of 1 str_tick "[]" "[]" "Some 7" 5 0 "[(Some 7, 5)]" "[]" 1 granted] by auto
  show ?thesis
    using reg_cb_core [OF ev, of 1 str_tick "[(Some 7, 5)]" "[]" "Some 8" 6 1 "[(Some 7, 5), (Some 8, 6)]" "[]" 1 granted] by auto
qed

theorem unreg_cb_refines_witness:
  "\<exists>ev ev'. sbev_unreg_cb granted 1 (of_nat 0) ev = ret ev' \<and>
     core_rep ev' [(str_start, [], []), (str_tick, [(None, 5), (Some 8, 6)], [0]), (str_kill, [], [])]"
proof -
  obtain ev where ev: "core_rep ev [(str_start, [], []), (str_tick, [(Some 7, 5), (Some 8, 6)], []), (str_kill, [], [])]"
    using two_callbacks by blast
  from unreg_cb_refines [OF ev, of 1 str_tick "[(Some 7, 5), (Some 8, 6)]" "[]" 0 1 granted] show ?thesis by auto
qed

text \<open>C11. When the event has callbacks, all memory that is asked for is granted, and the pool and the queue of middle priority have a fiber and
  room for each of them, emitting it queues one fiber for each, in the order of their slots. Each of these fibers is set up for
  \<^verbatim>\<open>sbev_trampoline\<close>, and running that calls the function of its slot with the slot's data, the data of the event and the handle, frees the
  argument and finishes the fiber (a slot that was given back is a call of a null pointer, undefined). The counter is the number of callbacks,
  every other fiber and counter is unchanged, and so is the core, which is unlocked again. Without enough fibers the code does not notice that
  nothing was queued: \<^verbatim>\<open>vgc_schedule_jobs\<close> returns 0 when its first job fails.\<close>

theorem emit_runs_callbacks:
  assumes "core_rep (core s) rs" and "unat h < length rs" and "rs ! unat h = (nom, slots, frees)"
    and "\<forall>n. mal env n" and "slots \<noteq> []" and "length slots < 2 ^ 31"
    and "holds k (n + length slots) (sched s) l" and "pool l = map FiberAt is @ ps" and "length is = length slots"
    and "distinct is" and "length (mids l) + length slots \<le> 2 ^ k"
  shows "\<exists>s'. sbev_emit_event env mk h d (Some c) s = ret s' \<and>
    holds k n (sched s') (l\<lparr>mids := mids l @ map FiberAt is, pool := ps\<rparr>) \<and>
    map (\<lambda>i. arg_of i s') is = map (\<lambda>x. Some \<lparr>arg_cbs = slot_of x, arg_ev_data = d, arg_handle = h\<rparr>) slots \<and>
    list_all2 (queued_callback mk c d h s') is slots \<and> (\<forall>i. i \<notin> set is \<longrightarrow> fibers (sched s') i = fibers (sched s) i) \<and>
    counters (sched s') = (counters (sched s))(c := vgc_counter_init (int (length slots))) \<and> inited s' = c # inited s \<and>
    core_rep (core s') rs \<and> locks_released (core s) (core s')"
  by (rule emit_core [OF assms])

theorem emit_runs_callbacks_witness:
  "\<exists>s s'. sbev_emit_event granted (\<lambda>_ _ p. p) 1 9 (Some 3) s = ret s' \<and>
     holds 1 0 (sched s') \<lparr>his = [], mids = [FiberAt 0, FiberAt 1], los = [], pool = []\<rparr> \<and>
     map (\<lambda>i. arg_of i s') [0, 1] = [Some \<lparr>arg_cbs = slot_of (Some 7, 5), arg_ev_data = 9, arg_handle = 1\<rparr>,
       Some \<lparr>arg_cbs = slot_of (Some 8, 6), arg_ev_data = 9, arg_handle = 1\<rparr>] \<and>
     ctx (fibers (sched s') 0) = TRAMPOLINE \<and> ctx (fibers (sched s') 1) = TRAMPOLINE \<and>
     queued_callback (\<lambda>_ _ p. p) 3 9 1 s' 1 (Some 8, 6) \<and> counter (counters (sched s') 3) = 2"
proof -
  obtain ev where ev: "core_rep ev [(str_start, [], []), (str_tick, [(Some 7, 5), (Some 8, 6)], []), (str_kill, [], [])]"
    using two_callbacks by blast
  let ?s = "\<lparr>core = ev, sched = started, args = [], inited = []\<rparr>"
  have h: "holds 1 (0 + length [(Some 7, 5), (Some 8, 6) :: nat option \<times> nat]) started (idle (map FiberAt [0, 1]))"
    by (rule holds_mono [OF started_ok(1)]) simp
  have "\<exists>s'. sbev_emit_event granted (\<lambda>_ _ p. p) 1 9 (Some 3) ?s = ret s' \<and>
    holds 1 0 (sched s') ((idle (map FiberAt [0, 1]))\<lparr>mids := mids (idle (map FiberAt [0, 1])) @ map FiberAt [0, 1], pool := []\<rparr>) \<and>
    map (\<lambda>i. arg_of i s') [0, 1] =
      map (\<lambda>x. Some \<lparr>arg_cbs = slot_of x, arg_ev_data = 9, arg_handle = 1\<rparr>) [(Some 7, 5), (Some 8, 6)] \<and>
    list_all2 (queued_callback (\<lambda>_ _ p. p) 3 9 1 s') [0, 1] [(Some 7, 5), (Some 8, 6)] \<and>
    (\<forall>i. i \<notin> set [0, 1] \<longrightarrow> fibers (sched s') i = fibers (sched ?s) i) \<and>
    counters (sched s') = (counters (sched ?s))(3 := vgc_counter_init (int (length [(Some 7, 5), (Some 8, 6) :: nat option \<times> nat]))) \<and>
    inited s' = 3 # inited ?s \<and>
    core_rep (core s') [(str_start, [], []), (str_tick, [(Some 7, 5), (Some 8, 6)], []), (str_kill, [], [])] \<and>
    locks_released (core ?s) (core s')"
    by (rule emit_runs_callbacks [of _ _ _ str_tick _ "[]"])
      (use ev h in \<open>simp_all add: granted_def idle_def\<close>)
  then obtain s' where s': "sbev_emit_event granted (\<lambda>_ _ p. p) 1 9 (Some 3) ?s = ret s'"
    "holds 1 0 (sched s') \<lparr>his = [], mids = [FiberAt 0, FiberAt 1], los = [], pool = []\<rparr>"
    "map (\<lambda>i. arg_of i s') [0, 1] =
      map (\<lambda>x. Some \<lparr>arg_cbs = slot_of x, arg_ev_data = 9, arg_handle = 1\<rparr>) [(Some 7, 5), (Some 8, 6)]"
    "queued_callback (\<lambda>_ _ p. p) 3 9 1 s' 0 (Some 7, 5)" "queued_callback (\<lambda>_ _ p. p) 3 9 1 s' 1 (Some 8, 6)"
    "counters (sched s') = (counters (sched ?s))(3 := vgc_counter_init 2)" by (auto simp: idle_def)
  then show ?thesis by (intro exI [of _ ?s] exI [of _ s']) (simp add: queued_callback_def Let_def vgc_counter_init_def)
qed

text \<open>A callback that was unregistered is emitted all the same: its fiber calls a null pointer.\<close>

theorem emit_null_callback:
  assumes "core_rep (core s) rs" and "unat h < length rs" and "rs ! unat h = (nom, slots, frees)"
    and "\<forall>n. mal env n" and "length slots < 2 ^ 31"
    and "holds k (n + length slots) (sched s) l" and "pool l = map FiberAt is @ ps" and "length is = length slots"
    and "distinct is" and "length (mids l) + length slots \<le> 2 ^ k" and "j < length slots" and "fst (slots ! j) = None"
  shows "\<exists>s'. sbev_emit_event env mk h d (Some c) s = ret s' \<and> sbev_trampoline call (is ! j) s' = None"
proof -
  have "slots \<noteq> []" using assms(11) by auto
  from emit_core [OF assms(1-4) this assms(5-10), of mk d c] obtain s' where
    s': "sbev_emit_event env mk h d (Some c) s = ret s'"
      "map (\<lambda>i. arg_of i s') is = map (\<lambda>x. Some \<lparr>arg_cbs = slot_of x, arg_ev_data = d, arg_handle = h\<rparr>) slots" by blast
  from arg_cong [OF s'(2), of "\<lambda>xs. xs ! j"] assms(8,11)
  have "arg_of (is ! j) s' = Some \<lparr>arg_cbs = slot_of (slots ! j), arg_ev_data = d, arg_handle = h\<rparr>" by simp
  then have "sbev_trampoline call (is ! j) s' = None" using assms(12) by (simp add: sbev_trampoline_def slot_of_def)
  with s'(1) show ?thesis by blast
qed

theorem emit_null_callback_witness:
  "\<exists>s s'. sbev_emit_event granted (\<lambda>_ _ p. p) 1 9 (Some 3) s = ret s' \<and>
     sbev_trampoline (\<lambda>_ _ _ _ s. Some s) 0 s' = None \<and> core_rep (core s) [(str_start, [], []), (str_tick, [(None, 5)], [0]), (str_kill, [], [])]"
proof -
  obtain ev1 where ev1: "core_rep ev1 [(str_start, [], []), (str_tick, [(Some 7, 5)], []), (str_kill, [], [])]"
    using reg_cb_core [OF booted_ok(1), of 1 str_tick "[]" "[]" "Some 7" 5 0 "[(Some 7, 5)]" "[]" 1 granted] by auto
  obtain ev where ev: "core_rep ev [(str_start, [], []), (str_tick, [(None, 5)], [0]), (str_kill, [], [])]"
    using unreg_cb_core [OF ev1, of 1 str_tick "[(Some 7, 5)]" "[]" 0 1 granted] by auto
  let ?s = "\<lparr>core = ev, sched = started, args = [], inited = []\<rparr>"
  have h: "holds 1 (0 + length [(None, 5) :: nat option \<times> nat]) started (idle (map FiberAt [0, 1]))"
    by (rule holds_mono [OF started_ok(1)]) simp
  have "\<exists>s'. sbev_emit_event granted (\<lambda>_ _ p. p) 1 9 (Some 3) ?s = ret s' \<and>
    sbev_trampoline (\<lambda>_ _ _ _ s. Some s) ([0] ! 0) s' = None"
    by (rule emit_null_callback [of _ "[(str_start, [], []), (str_tick, [(None, 5)], [0]), (str_kill, [], [])]" _ str_tick
        "[(None, 5)]" "[0]" _ 1 0 "idle (map FiberAt [0, 1])" "[0]" "[FiberAt 1]" 0])
      (use ev h in \<open>simp_all add: granted_def idle_def\<close>)
  then obtain s' where "sbev_emit_event granted (\<lambda>_ _ p. p) 1 9 (Some 3) ?s = ret s'"
    "sbev_trampoline (\<lambda>_ _ _ _ s. Some s) 0 s' = None" by auto
  with ev show ?thesis by (intro exI [of _ ?s] exI [of _ s']) simp
qed


text \<open>An event without callbacks is left at once and the counter is never set: a driver that waits for its own counter afterwards
  reads an uninitialised object.\<close>

theorem silent_event_uninitialised:
  assumes "core_rep (core s) rs" and "kill_flag (core s) = 0" and "unat (tick_event (core s)) < length rs"
    and "rs ! unat (tick_event (core s)) = (nom, [], [])"
  shows "sbev_run_event_once env mk i c s = None"
proof -
  let ?s = "set_core (csb_rdunlock_plugin (csb_rdlock_plugin (core s))) (declare_count c s)"
  have "core_rep (core ?s) rs" using assms(1) by (simp add: set_core_def lock_defs)
  from emit_silent [OF this, of "tick_event (core s)" nom env mk 0 "Some c"] assms(3,4) obtain s' where
    "sbev_emit_event env mk (tick_event (core s)) 0 (Some c) ?s = ret s'" "inited s' = inited ?s" by auto
  moreover have "c \<notin> set (inited ?s)" by (simp add: set_core_def declare_count_def)
  ultimately show ?thesis
    using assms(2) by (simp add: sbev_run_event_once_def Let_def emit_and_wait_def wait_count_def lock_defs declare_count_def)
qed

theorem silent_event_uninitialised_witness:
  "sbev_run_event_once granted (\<lambda>_ _ p. p) 0 3 \<lparr>core = booted, sched = started, args = [], inited = [3]\<rparr> = None"
  by (rule silent_event_uninitialised [of _ booted_view str_tick]) (simp_all add: booted_ok)


text \<open>After \<^verbatim>\<open>sbev_kill\<close> the loop ends at its next round: with no callback for the kill event the fiber does not even wait,
  because the counter of the last tick is already zero.\<close>

theorem kill_ends_loop:
  assumes "core_rep (core s) rs" and "unat (kill_event (core s)) < length rs" and "rs ! unat (kill_event (core s)) = (nom, [], [])"
    and "c \<in> set (inited s)" and "counters (sched s) c = vgc_counter_init 0"
  shows "\<exists>s'. run_round env mk i c (s\<lparr>core := sbev_kill (core s)\<rparr>) = ret (False, False, s') \<and>
    core_rep (core s') rs \<and> sched s' = sched s \<and> locks_released (core s) (core s')"
proof -
  let ?ev = "csb_rdunlock_plugin (csb_rdlock_plugin (sbev_kill (core s)))"
  let ?s = "set_core ?ev (s\<lparr>core := sbev_kill (core s)\<rparr>)"
  have ev: "kill_flag ?ev = 1" "kill_event ?ev = kill_event (core s)" "core_rep ?ev rs"
    "lock_calls ?ev = lock_calls (core s) @ [Wrlock EventLock, Wrunlock EventLock, Rdlock EventLock, Rdunlock EventLock]"
    using assms(1) by (simp_all add: sbev_kill_def lock_defs)
  have "core_rep (core ?s) rs" using ev(3) by (simp add: set_core_def)
  from emit_silent [OF this assms(2,3), of env mk 0 "Some c"] obtain s' where
    s': "sbev_emit_event env mk (kill_event (core s)) 0 (Some c) ?s = ret s'" "inited s' = inited ?s" "sched s' = sched ?s"
      "core_rep (core s') rs" "locks_released (core ?s) (core s')" by auto
  have w: "vgc_wait_for_counter i c (sched s) = Some (False, sched s)"
  proof -
    have "(vgc_counter_init 0)\<lparr>lock := 0\<rparr> = vgc_counter_init 0" by (simp add: vgc_counter_init_def)
    then have "(sched s)\<lparr>counters := (counters (sched s))(c := vgc_counter_init 0)\<rparr> = sched s"
      using assms(5) by (metis fun_upd_triv world.surjective world.update_convs(8))
    then show ?thesis using assms(5)
      by (simp add: vgc_wait_for_counter_def vgc_counter_acquire_def vgc_counter_release_def vgc_counter_init_def)
  qed
  have "locks_released (core s) (core ?s)"
    by (rule locks_releasedI [of _ _ "[Wrlock EventLock, Wrunlock EventLock, Rdlock EventLock, Rdunlock EventLock]"])
      (simp_all add: set_core_def ev(4))
  moreover have "run_round env mk i c (s\<lparr>core := sbev_kill (core s)\<rparr>) = ret (False, False, s')"
  proof -
    have "wait_count i c s' = ret (False, s')" using w s'(2,3) assms(4) by (simp add: wait_count_def set_core_def)
    then show ?thesis using s'(1) ev(1,2)
      by (simp add: run_round_def Let_def emit_and_wait_def) (simp add: set_core_def sbev_kill_def lock_defs)
  qed
  ultimately show ?thesis using s' locks_released_trans by (auto simp: set_core_def)
qed

theorem kill_ends_loop_witness:
  "\<exists>s'. run_round granted (\<lambda>_ _ p. p) 0 3
       \<lparr>core = sbev_kill booted, sched = started\<lparr>counters := \<lambda>_. vgc_counter_init 0\<rparr>, args = [], inited = [3]\<rparr> =
     ret (False, False, s')"
  using kill_ends_loop [of "\<lparr>core = booted, sched = started\<lparr>counters := \<lambda>_. vgc_counter_init 0\<rparr>, args = [], inited = [3]\<rparr>"
      booted_view str_kill 3 granted "\<lambda>_ _ p. p" 0]
  by (auto simp: booted_ok)

section \<open>Two threads that register the same event\<close>

lemma add_event_handle:
  assumes "reg_event_add env nom ev = ret (h, ev')" and "length nom < 2 ^ 64"
  shows "h = cur_events ev \<and> cur_events ev' = cur_events ev + 1 \<and> map_of (entries_map ev') nom = Some (unat h)"
proof -
  have re: "rehash i n e = Some e' \<Longrightarrow> cur_events e' = cur_events e" for i n e e'
    by (induction i n e rule: rehash.induct) (auto split: bind_splits)
  have grow: "cur_events e' = cur_events e" if "grow_events env e = ret e'" for e e'
    using that by (auto simp: grow_events_def bind_result_ret Let_def case_ret split: if_splits dest!: re)
  have nm: "nomen ent = nom" if "sbev_init_event_entry env nom g = ret ent" for g ent
    using that init_entry_rep [OF assms(2), of env g] by auto
  show ?thesis using assms(1)
    by (auto simp: reg_event_add_def bind_result_ret Let_def lock_defs set_entry_def split: if_splits dest!: grow nm)
qed

text \<open>The search and the insertion of \<^verbatim>\<open>sbev_reg_event\<close> are separate critical sections: when two threads search before either
  inserts, the same name gets two handles, and the hash table only finds the second.\<close>

theorem reg_event_race:
  assumes "reg_event_find nom ev = Some (None, ev1)" and "reg_event_find nom ev1 = Some (None, ev2)"
    and "reg_event_add env nom ev2 = ret (h1, ev3)" and "reg_event_add env nom ev3 = ret (h2, ev4)" and "length nom < 2 ^ 64"
  shows "h1 \<noteq> h2 \<and> event_of ev4 nom = Some h2"
proof -
  have "h2 = h1 + 1" "map_of (entries_map ev4) nom = Some (unat h2)"
    using add_event_handle [OF assms(3,5)] add_event_handle [OF assms(4,5)] by simp_all
  moreover have "h1 + 1 \<noteq> h1" by simp
  ultimately show ?thesis unfolding event_of_def by (metis of_nat_unat option.simps(9) unsigned_ucast_eq ucast_id)
qed


definition race_run :: "(u64 \<times> u64) option" where
  "race_run =
     do { (_, ev1) \<leftarrow> reg_event_find [120] booted; (_, ev2) \<leftarrow> reg_event_find [120] ev1;
          case reg_event_add granted [120] ev2 of
            Some (Returned (h1, ev3)) \<Rightarrow>
              (case reg_event_add granted [120] ev3 of Some (Returned (h2, ev4)) \<Rightarrow> Some (h1, h2) | _ \<Rightarrow> None)
          | _ \<Rightarrow> None }"

lemma race_run_eval: "race_run = Some (3, 4)"
  by code_simp

theorem reg_event_race_witness:
  "\<exists>ev1 ev2 ev3 ev4. reg_event_find [120] booted = Some (None, ev1) \<and> reg_event_find [120] ev1 = Some (None, ev2) \<and>
     reg_event_add granted [120] ev2 = ret (3, ev3) \<and> reg_event_add granted [120] ev3 = ret (4, ev4) \<and>
     event_of ev4 [120] = Some 4"
proof -
  obtain es where es: "ev_rep booted es" "map nomen es = map fst booted_view"
    using booted_ok(1) by (auto simp: core_rep_def dest: core_rep_names)
  have no: "index_map es [120] = None"
    unfolding index_map_None es(2) by (simp add: str_start_def str_tick_def str_kill_def)
  let ?l = "\<lambda>ev. ev\<lparr>lock_calls := lock_calls ev @ [Rdlock EventLock, Rdunlock EventLock]\<rparr>"
  have f1: "reg_event_find [120] booted = Some (None, ?l booted)" using find_event_rep [OF es(1), of "[120]"] no by simp
  have "ev_rep (?l booted) es" using es(1) by simp
  from find_event_rep [OF this, of "[120]"] no have f2: "reg_event_find [120] (?l booted) = Some (None, ?l (?l booted))" by simp
  obtain ev3 ev4 where "reg_event_add granted [120] (?l (?l booted)) = ret (3, ev3)" "reg_event_add granted [120] ev3 = ret (4, ev4)"
    using race_run_eval f1 f2 by (auto simp: race_run_def ret_def split: option.splits result.splits)
  with reg_event_race [OF f1 f2 this] f1 f2 show ?thesis by auto
qed

end
