(* ===== verification/Net.thy ===== *)
theory Net
  imports EventRun Varint
begin

text \<open>
  The receive side of the network plugin (\<^verbatim>\<open>src/net/sb_net.c\<close>, \<^verbatim>\<open>include/sb_net.h\<close>): the sliding read buffer and the loop that cuts the
  byte stream into packets. The block of the buffer is a list of bytes that may be uninitialised, \<^verbatim>\<open>cur\<close> is an offset into it. zlib
  is an argument: \<open>zinit\<close> says whether \<^verbatim>\<open>inflateInit\<close> returns \<^verbatim>\<open>Z_OK\<close>, and \<open>zinflate inp n\<close> is the output of \<^verbatim>\<open>inflate(&z, Z_FINISH)\<close> on \<open>inp\<close> with \<open>n\<close>
  bytes of room, if it returns \<^verbatim>\<open>Z_STREAM_END\<close>.
\<close>

section \<open>The read buffer\<close>

record bbuf =
  base :: "byte option list"
  buf_cur :: nat
  buf_len :: u64
  in_use :: u64
  rem :: u64

text \<open>The bytes that can be read through \<^verbatim>\<open>buf->cur\<close>.\<close>

definition read_ptr :: "bbuf \<Rightarrow> ptr" where
  "read_ptr b = map the (takeWhile (\<lambda>c. c \<noteq> None) (drop (buf_cur b) (base b)))"

definition sbnet_adv_bbuf :: "bbuf \<Rightarrow> u64 \<Rightarrow> int \<times> bbuf" where
  "sbnet_adv_bbuf b dist =
     (if in_use b < dist then (- 1, b)
      else (0, b\<lparr>buf_cur := buf_cur b + unat dist, in_use := in_use b - dist\<rparr>))"

text \<open>\<^verbatim>\<open>sbnet_recv_bbuf\<close> with the bytes it wrote to \<^verbatim>\<open>dest\<close>.\<close>

definition sbnet_recv_bbuf :: "bbuf \<Rightarrow> u64 \<Rightarrow> (int \<times> byte list \<times> bbuf) option" where
  "sbnet_recv_bbuf b n =
     (if in_use b < n then Some (- 1, [], b)
      else do { (bs, _) \<leftarrow> memrd (unat n) (read_ptr b);
                Some (0, bs, b\<lparr>buf_cur := buf_cur b + unat n, in_use := in_use b - n\<rparr>) })"

definition sbnet_bbuf_make_room :: "env \<Rightarrow> bbuf \<Rightarrow> u64 \<Rightarrow> bbuf result option" where
  "sbnet_bbuf_make_room env b n =
     (if n \<le> rem b then ret b
      else if length (base b) < buf_cur b + unat (in_use b) then None
      else
        let moved = take (unat (in_use b)) (drop (buf_cur b) (base b));
            b = b\<lparr>base := moved @ drop (length moved) (base b), buf_cur := 0, rem := buf_len b - in_use b\<rparr>
        in if n \<le> rem b then ret b
           else let b = b\<lparr>buf_len := in_use b + n, rem := n\<rparr> in
                if mal env (unat (buf_len b))
                then ret (b\<lparr>base := take (unat (buf_len b)) (base b) @ replicate (unat (buf_len b) - length (base b)) None,
                            buf_cur := 0\<rparr>)
                else Some (Exited (- 1)))"

text \<open>What libuv does with the buffer of \<^verbatim>\<open>sbnet_alloc_cb\<close>: it stores the bytes it received behind the ones in use.\<close>

definition uv_store :: "bbuf \<Rightarrow> byte list \<Rightarrow> bbuf option" where
  "uv_store b bs =
     (let off = buf_cur b + unat (in_use b) in
      if off + length bs \<le> length (base b)
      then Some (b\<lparr>base := take off (base b) @ map Some bs @ drop (off + length bs) (base b)\<rparr>) else None)"

section \<open>The plugin\<close>

definition NO_SIZE :: int where "NO_SIZE = - 1"

datatype compression_state = uncompressed | compressed

record netcore =
  read_buf :: bbuf
  next_packet_size :: int
  compression :: compression_state
  threshold :: u32
  proto_state :: nat
  handles :: "u64 list list list"

record zlib =
  zinit :: bool
  zinflate :: "byte list \<Rightarrow> nat \<Rightarrow> byte list option"

text \<open>The packet id, the pointer \<^verbatim>\<open>pdata\<close> and \<^verbatim>\<open>data_len\<close>.\<close>

type_synonym packet = "u32 \<times> ptr \<times> u64"

text \<open>The size of the next packet, and whether all of it is there; \<open>False\<close> leaves the loop.\<close>

definition read_size :: "netcore \<Rightarrow> (bool \<times> netcore) result option" where
  "read_size net =
     (let b = read_buf net in
      if next_packet_size net = NO_SIZE then
        case walk_varint (read_ptr b) (in_use b) of
          None \<Rightarrow> None
        | Some r \<Rightarrow>
            if r = varnum_overrun then ret (False, net)
            else if r = varnum_invalid then Some (Exited (- 1))
            else case dec_varint (read_ptr b) of
                   None \<Rightarrow> None
                 | Some (packet_size, _) \<Rightarrow>
                     let net = net\<lparr>read_buf := snd (sbnet_adv_bbuf b (size_of_int r)), next_packet_size := sint packet_size\<rparr>
                     in ret (word_of_int (next_packet_size net) \<le> in_use (read_buf net), net)
      else ret (word_of_int (next_packet_size net) \<le> in_use b, net))"

text \<open>\<^verbatim>\<open>walk_varint\<close>, \<^verbatim>\<open>ERR_CHK\<close>, \<^verbatim>\<open>dec_varint\<close> and \<^verbatim>\<open>sbnet_adv_bbuf\<close> on the read buffer.\<close>

definition take_varint :: "bbuf \<Rightarrow> (int \<times> u32 \<times> bbuf) result option" where
  "take_varint b =
     (case walk_varint (read_ptr b) (in_use b) of
        None \<Rightarrow> None
      | Some r \<Rightarrow>
          if r < 0 then Some (Exited (- 1))
          else case dec_varint (read_ptr b) of
                 None \<Rightarrow> None
               | Some (v, _) \<Rightarrow> ret (r, v, snd (sbnet_adv_bbuf b (size_of_int r))))"

text \<open>\<^verbatim>\<open>CHK_ALLOC(data = malloc(data_len)); sbnet_recv_bbuf(data, ...)\<close>, whose result is ignored.\<close>

definition take_data :: "env \<Rightarrow> bbuf \<Rightarrow> u64 \<Rightarrow> (ptr \<times> bbuf) result option" where
  "take_data env b data_len =
     (if mal env (unat data_len)
      then (case sbnet_recv_bbuf b data_len of None \<Rightarrow> None | Some (_, bs, b) \<Rightarrow> ret (bs, b))
      else Some (Exited (- 1)))"

definition uncompressed_packet :: "env \<Rightarrow> int \<Rightarrow> bbuf \<Rightarrow> (packet \<times> bbuf) result option" where
  "uncompressed_packet env psize b =
     bind_result (take_varint b) (\<lambda>(r, pid, b).
     let data_len = word_of_int (psize - r) in
     bind_result (take_data env b data_len) (\<lambda>(bs, b). ret ((pid, bs, data_len), b)))"

text \<open>The members \<^verbatim>\<open>avail_in\<close> and \<^verbatim>\<open>avail_out\<close> of a stream are 32-bit.\<close>

definition inflate_packet :: "env \<Rightarrow> zlib \<Rightarrow> u64 \<Rightarrow> u64 \<Rightarrow> bbuf \<Rightarrow> (packet \<times> bbuf) result option" where
  "inflate_packet env z data_len compressed_size b =
     (if \<not> mal env (unat data_len) then Some (Exited (- 1))
      else if \<not> zinit z then Some (Exited (- 1))
      else case memrd (unat (ucast compressed_size :: u32)) (read_ptr b) of
        None \<Rightarrow> None
      | Some (inp, _) \<Rightarrow>
          (case zinflate z inp (unat (ucast data_len :: u32)) of
             None \<Rightarrow> Some (Exited (- 1))
           | Some out \<Rightarrow>
               let b = snd (sbnet_adv_bbuf b compressed_size) in
               (case walk_varint out data_len of
                  None \<Rightarrow> None
                | Some r \<Rightarrow>
                    if r < 0 then Some (Exited (- 1))
                    else case dec_varint out of
                           None \<Rightarrow> None
                         | Some (pid, pdata) \<Rightarrow> ret ((pid, pdata, data_len - size_of_int r), b))))"

definition compressed_packet :: "env \<Rightarrow> zlib \<Rightarrow> int \<Rightarrow> bbuf \<Rightarrow> (packet \<times> bbuf) result option" where
  "compressed_packet env z psize b =
     bind_result (take_varint b) (\<lambda>(r, tmp, b).
     if tmp \<noteq> 0 then inflate_packet env z (word_of_int (sint tmp)) (word_of_int (psize - r)) b
     else let data_len = word_of_int (psize - r) in
          bind_result (take_varint b) (\<lambda>(r, pid, b).
          let data_len = data_len - size_of_int r in
          bind_result (take_data env b data_len) (\<lambda>(bs, b). ret ((pid, bs, data_len), b))))"

text \<open>A round of the loop of \<^verbatim>\<open>sbnet_read_cb\<close> up to the decoding of the packet; \<open>None\<close> as the packet leaves the loop.\<close>

definition next_packet :: "env \<Rightarrow> zlib \<Rightarrow> netcore \<Rightarrow> (packet option \<times> netcore) result option" where
  "next_packet env z net =
     bind_result (read_size net) (\<lambda>(complete, net).
     if \<not> complete then ret (None, net)
     else bind_result
            (if compression net = uncompressed then uncompressed_packet env (next_packet_size net) (read_buf net)
             else compressed_packet env z (next_packet_size net) (read_buf net))
            (\<lambda>(p, b). ret (Some p, net\<lparr>read_buf := b, next_packet_size := NO_SIZE\<rparr>)))"

section \<open>The buffer as a queue of bytes\<close>

text \<open>The bytes in use.\<close>

definition buf_rep :: "bbuf \<Rightarrow> byte list \<Rightarrow> bool" where
  "buf_rep b xs \<longleftrightarrow>
     length (base b) = unat (buf_len b) \<and> unat (in_use b) = length xs \<and>
     buf_cur b + length xs + unat (rem b) = unat (buf_len b) \<and>
     (\<exists>ys. drop (buf_cur b) (base b) = map Some xs @ ys)"

lemma takeWhile_written:
  "map the (takeWhile (\<lambda>c. c \<noteq> None) (map Some xs @ ys)) = xs @ map the (takeWhile (\<lambda>c. c \<noteq> None) ys)"
  by (induction xs) simp_all

lemma read_ptr_rep:
  assumes "buf_rep b xs"
  shows "\<exists>more. read_ptr b = xs @ more"
proof -
  from assms obtain ys where "drop (buf_cur b) (base b) = map Some xs @ ys" by (auto simp: buf_rep_def)
  then have "read_ptr b = xs @ map the (takeWhile (\<lambda>c. c \<noteq> None) ys)"
    by (simp only: read_ptr_def takeWhile_written)
  then show ?thesis by blast
qed

lemma in_use_rep: "buf_rep b xs \<Longrightarrow> in_use b = of_nat (length xs) \<and> length xs < 2 ^ 64"
proof -
  assume "buf_rep b xs"
  then have "unat (in_use b) = length xs" by (simp add: buf_rep_def)
  moreover have "unat (in_use b) < 2 ^ 64" by (rule order_less_le_trans [OF unsigned_less]) simp
  ultimately show ?thesis by (simp add: word_unat_eq_iff unat_of_nat64)
qed

lemma advanced_rep:
  assumes "buf_rep b xs" and "unat n \<le> length xs"
  shows "buf_rep (b\<lparr>buf_cur := buf_cur b + unat n, in_use := in_use b - n\<rparr>) (drop (unat n) xs)"
proof -
  from assms(1) obtain ys where ys: "drop (buf_cur b) (base b) = map Some xs @ ys" "unat (in_use b) = length xs"
    by (auto simp: buf_rep_def)
  have "drop (buf_cur b + unat n) (base b) = drop (unat n) (drop (buf_cur b) (base b))" by (simp add: add.commute)
  then have "drop (buf_cur b + unat n) (base b) = map Some (drop (unat n) xs) @ ys"
    using assms(2) by (simp add: ys drop_map)
  moreover have "unat (in_use b - n) = length xs - unat n"
    using assms(2) ys(2) by (simp add: unat_sub word_le_nat_alt)
  ultimately show ?thesis using assms by (auto simp: buf_rep_def)
qed

lemma adv_rep:
  assumes "buf_rep b xs" and "unat n \<le> length xs"
  shows "\<exists>b'. sbnet_adv_bbuf b n = (0, b') \<and> buf_rep b' (drop (unat n) xs)"
proof -
  have "\<not> in_use b < n" using in_use_rep [OF assms(1)] assms(2) by (simp add: word_less_nat_alt unat_of_nat64)
  with advanced_rep [OF assms] show ?thesis by (simp add: sbnet_adv_bbuf_def)
qed

lemma recv_rep:
  assumes "buf_rep b xs" and "unat n \<le> length xs"
  shows "\<exists>b'. sbnet_recv_bbuf b n = Some (0, take (unat n) xs, b') \<and> buf_rep b' (drop (unat n) xs)"
proof -
  obtain more where "read_ptr b = xs @ more" using read_ptr_rep [OF assms(1)] by blast
  then have "memrd (unat n) (read_ptr b) = Some (take (unat n) xs, drop (unat n) (read_ptr b))"
    using assms(2) by (simp add: memrd_def)
  moreover have "\<not> in_use b < n" using in_use_rep [OF assms(1)] assms(2) by (simp add: word_less_nat_alt unat_of_nat64)
  ultimately show ?thesis using advanced_rep [OF assms] by (simp add: sbnet_recv_bbuf_def)
qed

lemma recv_short: "buf_rep b xs \<Longrightarrow> length xs < unat n \<Longrightarrow> sbnet_recv_bbuf b n = Some (- 1, [], b)"
  using in_use_rep [of b xs] by (simp add: sbnet_recv_bbuf_def word_less_nat_alt unat_of_nat64)

text \<open>Making room keeps the bytes in use; afterwards the received bytes fit behind them.\<close>

lemma make_room_rep:
  assumes "buf_rep b xs" and "length xs + unat n < 2 ^ 64"
  shows "sbnet_bbuf_make_room env b n = Some (Exited (- 1)) \<or>
    (\<exists>b'. sbnet_bbuf_make_room env b n = ret b' \<and> buf_rep b' xs \<and> n \<le> rem b')"
proof (cases "n \<le> rem b")
  case True
  with assms(1) show ?thesis by (auto simp: sbnet_bbuf_make_room_def)
next
  case False
  from assms(1) obtain ys where ys: "drop (buf_cur b) (base b) = map Some xs @ ys"
    and r: "length (base b) = unat (buf_len b)" "unat (in_use b) = length xs"
      "buf_cur b + length xs + unat (rem b) = unat (buf_len b)" by (auto simp: buf_rep_def)
  let ?b1 = "b\<lparr>base := map Some xs @ drop (length xs) (base b), buf_cur := 0, rem := buf_len b - in_use b\<rparr>"
  have un: "unat (buf_len b - in_use b) = unat (buf_len b) - length xs" using r by (simp add: unat_sub word_le_nat_alt)
  then have b1: "buf_rep ?b1 xs" using r by (auto simp: buf_rep_def)
  have step: "sbnet_bbuf_make_room env b n =
    (if n \<le> rem ?b1 then ret ?b1
     else if mal env (unat (in_use b + n))
     then ret (?b1\<lparr>buf_len := in_use b + n, rem := n,
       base := take (unat (in_use b + n)) (base ?b1) @ replicate (unat (in_use b + n) - length (base ?b1)) None, buf_cur := 0\<rparr>)
     else Some (Exited (- 1)))"
    using False r ys by (simp add: sbnet_bbuf_make_room_def Let_def)
  show ?thesis
  proof (cases "n \<le> rem ?b1")
    case True
    then show ?thesis using step b1 by auto
  next
    case False
    then have less: "unat (buf_len b) < length xs + unat n" using un r by (simp add: word_le_nat_alt)
    have sum: "unat (in_use b + n) = length xs + unat n" using assms(2) r(2) by (subst unat_plus) simp_all
    have "buf_rep (?b1\<lparr>buf_len := in_use b + n, rem := n,
       base := take (unat (in_use b + n)) (base ?b1) @ replicate (unat (in_use b + n) - length (base ?b1)) None, buf_cur := 0\<rparr>) xs"
      using sum less r by (auto simp: buf_rep_def)
    then show ?thesis using step False by auto
  qed
qed

lemma store_rep:
  assumes "buf_rep b xs" and "length bs \<le> unat (rem b)"
  shows "\<exists>b'. uv_store b bs = Some b' \<and>
    buf_rep (b'\<lparr>in_use := in_use b' + of_nat (length bs), rem := rem b' - of_nat (length bs)\<rparr>) (xs @ bs)"
proof -
  from assms(1) obtain ys where ys: "drop (buf_cur b) (base b) = map Some xs @ ys"
    and r: "length (base b) = unat (buf_len b)" "unat (in_use b) = length xs"
      "buf_cur b + length xs + unat (rem b) = unat (buf_len b)" by (auto simp: buf_rep_def)
  have lt: "unat (buf_len b) < 2 ^ 64" by (rule order_less_le_trans [OF unsigned_less]) simp
  let ?off = "buf_cur b + length xs"
  let ?base = "take ?off (base b) @ map Some bs @ drop (?off + length bs) (base b)"
  have fits: "?off + length bs \<le> length (base b)" using r assms(2) by simp
  have "take ?off (base b) = take (buf_cur b) (base b) @ map Some xs"
    using ys r by (simp add: take_add)
  then have d: "drop (buf_cur b) ?base = map Some (xs @ bs) @ drop (?off + length bs) (base b)" using r by simp
  have n: "unat (of_nat (length bs) :: u64) = length bs" using r lt assms(2) by (intro unat_of_nat64) linarith
  have use: "unat (in_use b + of_nat (length bs)) = length xs + length bs"
    using r n lt assms(2) by (subst unat_plus) simp_all
  have rm: "unat (rem b - of_nat (length bs)) = unat (rem b) - length bs"
    using n assms(2) by (simp add: unat_sub word_le_nat_alt)
  have len: "length ?base = unat (buf_len b)" using fits r(1) by simp
  have "uv_store b bs = Some (b\<lparr>base := ?base\<rparr>)" using fits r by (simp add: uv_store_def Let_def)
  moreover have "buf_rep (b\<lparr>base := ?base, in_use := in_use b + of_nat (length bs), rem := rem b - of_nat (length bs)\<rparr>) (xs @ bs)"
    unfolding buf_rep_def using d use rm len r assms(2) by auto
  ultimately show ?thesis by simp
qed

section \<open>Frames\<close>

text \<open>The image of a packet on the wire, without compression.\<close>

definition frame_size :: "u32 \<times> byte list \<Rightarrow> nat" where
  "frame_size f = length (leb128 (unat (fst f))) + length (snd f)"

definition frame :: "u32 \<times> byte list \<Rightarrow> byte list" where
  "frame f = leb128 (frame_size f) @ leb128 (unat (fst f)) @ snd f"

definition sendable_frame :: "u32 \<times> byte list \<Rightarrow> bool" where
  "sendable_frame f \<longleftrightarrow> frame_size f < 2 ^ 31"

definition as_packet :: "u32 \<times> byte list \<Rightarrow> packet" where
  "as_packet f = (fst f, snd f, of_nat (length (snd f)))"

text \<open>The bytes that have been received and not yet delivered; the size of a packet may have been read already.\<close>

definition pending :: "netcore \<Rightarrow> byte list \<Rightarrow> bool" where
  "pending net bs \<longleftrightarrow> (\<exists>xs. buf_rep (read_buf net) xs \<and>
     (next_packet_size net = NO_SIZE \<and> bs = xs \<or>
      (\<exists>n < 2 ^ 31. next_packet_size net = int n \<and> bs = leb128 n @ xs)))"

lemma length_leb_small: "n < 2 ^ 32 \<Longrightarrow> length (leb128 n) \<le> 5"
proof -
  assume "n < 2 ^ 32"
  moreover have "(2 :: nat) ^ 32 \<le> 128 ^ Suc 4" by simp
  ultimately have "n < 128 ^ Suc 4" by linarith
  then have "length (leb128 n) \<le> Suc 4" by (rule length_leb128_le)
  then show ?thesis by simp
qed

lemma take_varint_rep:
  assumes "buf_rep b (leb128 n @ xs)" and "n < 2 ^ 32"
  shows "walk_varint (read_ptr b) (in_use b) = Some (int (length (leb128 n)))"
    and "\<exists>more. dec_varint (read_ptr b) = Some (of_nat n, more)"
    and "\<exists>b'. sbnet_adv_bbuf b (size_of_int (int (length (leb128 n)))) = (0, b') \<and> buf_rep b' xs"
proof -
  obtain more where more: "read_ptr b = leb128 n @ xs @ more" using read_ptr_rep [OF assms(1)] by auto
  have len: "length (leb128 n) \<le> 5" by (rule length_leb_small [OF assms(2)])
  have use: "length (leb128 n) \<le> unat (in_use b)" using assms(1) by (simp add: buf_rep_def)
  show "walk_varint (read_ptr b) (in_use b) = Some (int (length (leb128 n)))"
    unfolding more by (rule walk_varint_leb [OF len use])
  show "\<exists>more. dec_varint (read_ptr b) = Some (of_nat n, more)"
    unfolding more using dec_varint_leb [OF assms(2)] by blast
  have "unat (size_of_int (int (length (leb128 n)))) = length (leb128 n)" using len by (simp add: unat_of_nat64)
  with adv_rep [OF assms(1), of "size_of_int (int (length (leb128 n)))"]
  show "\<exists>b'. sbnet_adv_bbuf b (size_of_int (int (length (leb128 n)))) = (0, b') \<and> buf_rep b' xs" by simp
qed

lemma take_varint_leb:
  assumes "buf_rep b (leb128 (unat v) @ xs)"
  shows "\<exists>b'. take_varint b = ret (int (length (leb128 (unat v))), v, b') \<and> buf_rep b' xs"
proof -
  have lt: "unat v < 2 ^ 32" by (rule order_less_le_trans [OF unsigned_less]) simp
  from take_varint_rep(2,3) [OF assms lt] obtain more b' where
    "dec_varint (read_ptr b) = Some (v, more)" "sbnet_adv_bbuf b (size_of_int (int (length (leb128 (unat v))))) = (0, b')"
    "buf_rep b' xs" by auto
  with take_varint_rep(1) [OF assms lt] show ?thesis by (auto simp: take_varint_def)
qed

lemma sint_u32_small: "n < 2 ^ 31 \<Longrightarrow> sint (of_nat n :: u32) = int n"
  using int_of_size_of_nat [of n] by (simp add: int_of_size_def INT_MAX_def unsigned_of_nat take_bit_nat_eq_self)

lemma scast_small: "n < 2 ^ 31 \<Longrightarrow> (scast (of_nat n :: u32) :: u64) = of_nat n"
proof -
  assume n: "n < 2 ^ 31"
  have "(scast (of_nat n :: u32) :: u64) = of_int (sint (of_nat n :: u32))" by simp
  also have "\<dots> = of_nat n" by (simp only: sint_u32_small [OF n] of_int_of_nat_eq)
  finally show ?thesis .
qed

lemma complete_iff:
  "buf_rep b xs \<Longrightarrow> n < 2 ^ 31 \<Longrightarrow> (word_of_int (int n) :: u64) \<le> in_use b \<longleftrightarrow> n \<le> length xs"
  using in_use_rep [of b xs] by (simp add: word_le_nat_alt unat_of_nat64)

text \<open>Reading the size: it is taken from the buffer unless it is known.\<close>

lemma read_size_known:
  assumes "buf_rep (read_buf net) xs" and "next_packet_size net = int n" and "n < 2 ^ 31"
  shows "read_size net = ret (n \<le> length xs, net)"
  using complete_iff [OF assms(1,3)] assms(2) by (simp add: read_size_def NO_SIZE_def Let_def)

lemma read_size_header:
  assumes "buf_rep (read_buf net) (leb128 n @ xs)" and "next_packet_size net = NO_SIZE" and "n < 2 ^ 31"
  shows "\<exists>net'. read_size net = ret (n \<le> length xs, net') \<and> buf_rep (read_buf net') xs \<and> next_packet_size net' = int n \<and>
    compression net' = compression net"
proof -
  have lt: "n < 2 ^ 32" using assms(3) by simp
  from take_varint_rep(2,3) [OF assms(1) lt] obtain more b' where
    b': "dec_varint (read_ptr (read_buf net)) = Some (of_nat n, more)"
      "sbnet_adv_bbuf (read_buf net) (size_of_int (int (length (leb128 n)))) = (0, b')" "buf_rep b' xs" by auto
  let ?net = "net\<lparr>read_buf := b', next_packet_size := int n\<rparr>"
  have "read_size net = ret (word_of_int (int n) \<le> in_use b', ?net)"
    using take_varint_rep(1) [OF assms(1) lt] b' assms(2) sint_u32_small [OF assms(3)] scast_small [OF assms(3)]
    by (simp add: read_size_def Let_def varnum_overrun_def varnum_invalid_def)
  then show ?thesis using complete_iff [OF b'(3) assms(3)] b'(3) by auto
qed

lemma leb128_prefix:
  assumes "leb128 n @ xs = leb128 m @ ys" and "n < 2 ^ 32" and "m < 2 ^ 32"
  shows "n = m \<and> xs = ys"
proof -
  have "dec_varint (leb128 n @ xs) = Some (of_nat n, xs)" "dec_varint (leb128 n @ xs) = Some (of_nat m, ys)"
    using dec_varint_leb [OF assms(2), of xs] dec_varint_leb [OF assms(3), of ys] assms(1) by simp_all
  then have "(of_nat n :: u32) = of_nat m" "xs = ys" by simp_all
  moreover have "unat (of_nat n :: u32) = n" "unat (of_nat m :: u32) = m" using assms(2,3) by (simp_all add: unat_of_nat)
  ultimately show ?thesis by metis
qed

lemma read_size_pending:
  assumes "pending net (leb128 n @ xs)" and "n < 2 ^ 31"
  shows "\<exists>net'. read_size net = ret (n \<le> length xs, net') \<and> buf_rep (read_buf net') xs \<and> next_packet_size net' = int n \<and>
    compression net' = compression net"
proof -
  from assms(1) consider "buf_rep (read_buf net) (leb128 n @ xs)" "next_packet_size net = NO_SIZE"
    | m ys where "buf_rep (read_buf net) ys" "next_packet_size net = int m" "leb128 n @ xs = leb128 m @ ys" "m < 2 ^ 31"
    by (auto simp: pending_def)
  then show ?thesis
  proof cases
    case 1
    then show ?thesis by (rule read_size_header) (rule assms(2))
  next
    case 2
    then have "m = n" "ys = xs" using leb128_prefix [OF 2(3)] assms(2) by auto
    with 2 read_size_known [OF 2(1,2,4)] show ?thesis by auto
  qed
qed

section \<open>Delivering packets\<close>

lemma frame_delivered:
  assumes "pending net (frame f @ rest)" and "sendable_frame f" and "compression net = uncompressed" and "\<forall>n. mal env n"
  shows "\<exists>net'. next_packet env z net = ret (Some (as_packet f), net') \<and> pending net' rest \<and> compression net' = uncompressed"
proof -
  obtain pid pl where f: "f = (pid, pl)" by (cases f)
  let ?n = "frame_size f" and ?i = "leb128 (unat pid)"
  have n: "?n < 2 ^ 31" "?n = length ?i + length pl" using assms(2) f by (simp_all add: sendable_frame_def frame_size_def)
  have "pending net (leb128 ?n @ (?i @ pl @ rest))" using assms(1) f by (simp add: frame_def)
  from read_size_pending [OF this n(1)] obtain net1 where net1: "read_size net = ret (True, net1)"
    "buf_rep (read_buf net1) (?i @ pl @ rest)" "next_packet_size net1 = int ?n" "compression net1 = compression net"
    using n(2) by auto
  from take_varint_leb [OF net1(2)] obtain b1 where b1: "take_varint (read_buf net1) = ret (int (length ?i), pid, b1)"
    "buf_rep b1 (pl @ rest)" by blast
  have dl: "(word_of_int (int ?n - int (length ?i)) :: u64) = of_nat (length pl)" using n(2) by simp
  have "length pl < 2 ^ 64" using n by simp
  then have un: "unat (of_nat (length pl) :: u64) = length pl" by (rule unat_of_nat64)
  from recv_rep [OF b1(2), of "of_nat (length pl)"] un obtain b2 where
    b2: "sbnet_recv_bbuf b1 (of_nat (length pl)) = Some (0, pl, b2)" "buf_rep b2 rest" by auto
  have "uncompressed_packet env (int ?n) (read_buf net1) = ret ((pid, pl, of_nat (length pl)), b2)"
    using b1(1) b2(1) assms(4) dl by (simp add: uncompressed_packet_def take_data_def Let_def)
  then have "next_packet env z net = ret (Some (as_packet f), net1\<lparr>read_buf := b2, next_packet_size := NO_SIZE\<rparr>)"
    using net1 assms(3) f by (simp add: next_packet_def as_packet_def)
  moreover have "pending (net1\<lparr>read_buf := b2, next_packet_size := NO_SIZE\<rparr>) rest" using b2(2) by (auto simp: pending_def)
  ultimately show ?thesis using net1(4) assms(3) by auto
qed

text \<open>A proper prefix of a frame.\<close>

definition incomplete :: "byte list \<Rightarrow> bool" where
  "incomplete bs \<longleftrightarrow> (\<exists>f c. sendable_frame f \<and> c \<noteq> [] \<and> bs @ c = frame f)"

lemma cont_prefix:
  assumes "xs @ c = leb128 n @ ys" and "length xs < length (leb128 n)"
  shows "length xs \<le> conts (xs @ rest)"
proof -
  have "conts (xs @ c) = length (leb128 n) - 1" unfolding assms(1) by (rule conts_leb128)
  then have len: "length xs \<le> length (takeWhile cont (xs @ c))" using assms(2) by (simp add: conts_def)
  have "\<forall>x \<in> set xs. cont x"
  proof (rule ccontr)
    assume "\<not> (\<forall>x \<in> set xs. cont x)"
    then obtain x where "x \<in> set xs" "\<not> cont x" by blast
    then have same: "takeWhile cont (xs @ c) = takeWhile cont xs" and "takeWhile cont xs \<noteq> xs"
      by (auto simp: takeWhile_append1 takeWhile_eq_all_conv)
    then show False using len by (metis take_all takeWhile_eq_take)
  qed
  then show ?thesis by (simp add: conts_def takeWhile_append2)
qed

lemma incomplete_kept:
  assumes "pending net bs" and "incomplete bs"
  shows "\<exists>net'. next_packet env z net = ret (None, net') \<and> pending net' bs \<and> compression net' = compression net"
proof -
  from assms(2) obtain f c where f: "sendable_frame f" "c \<noteq> []" "bs @ c = frame f" by (auto simp: incomplete_def)
  let ?n = "frame_size f" and ?body = "leb128 (unat (fst f)) @ snd f"
  have n: "?n < 2 ^ 31" "?n = length ?body" using f(1) by (simp_all add: sendable_frame_def frame_size_def)
  have eq: "bs @ c = leb128 ?n @ ?body" using f(3) by (simp add: frame_def)
  show ?thesis
  proof (cases "length bs < length (leb128 ?n)")
    case False
    have "take (length (leb128 ?n)) (bs @ c) = leb128 ?n" unfolding eq by simp
    then have "take (length (leb128 ?n)) bs = leb128 ?n" using False by simp
    then obtain xs where xs: "bs = leb128 ?n @ xs" by (metis append_take_drop_id)
    then have body: "xs @ c = ?body" using eq by simp
    have "length xs < ?n" unfolding n(2) body [symmetric] using f(2) by simp
    from read_size_pending [of net ?n xs] assms(1) xs n(1) this obtain net' where
      "read_size net = ret (False, net')" "buf_rep (read_buf net') xs" "next_packet_size net' = int ?n"
      "compression net' = compression net" by auto
    moreover from this have "pending net' bs" using xs n(1) by (auto simp: pending_def)
    ultimately show ?thesis by (auto simp: next_packet_def)
  next
    case True
    have "bs \<noteq> leb128 m @ ys" if "m < 2 ^ 31" for m ys
    proof
      assume "bs = leb128 m @ ys"
      then have "leb128 m @ ys @ c = leb128 ?n @ ?body" using eq by simp
      then have "m = ?n" using leb128_prefix [of m] that n(1) by simp
      with \<open>bs = leb128 m @ ys\<close> True show False by simp
    qed
    then have b: "buf_rep (read_buf net) bs" "next_packet_size net = NO_SIZE" using assms(1) by (auto simp: pending_def)
    obtain more where more: "read_ptr (read_buf net) = bs @ more" using read_ptr_rep [OF b(1)] by blast
    have len: "unat (in_use (read_buf net)) = length bs" using b(1) by (simp add: buf_rep_def)
    have five: "length bs < 5" using True length_leb_small [of ?n] n(1) by simp
    have "walk_varint (bs @ more) (in_use (read_buf net)) = Some varnum_overrun"
      using walk_varint_spec [of "in_use (read_buf net)" "bs @ more"] cont_prefix [OF eq True, of more] len five by simp
    then have "read_size net = ret (False, net)" using b(2) more by (simp add: read_size_def Let_def)
    then show ?thesis using assms(1) by (auto simp: next_packet_def)
  qed
qed

section \<open>Reassembly\<close>

text \<open>How the stream is cut into packets: the iteration of \<open>next_packet\<close> alone, without the decoding, the lock, the event and the wait that follow
  each packet in the loop (those are in \<open>read_round\<close> of \<open>NetRun\<close>); \<open>fuel\<close> bounds the number of packets.\<close>

fun packets :: "env \<Rightarrow> zlib \<Rightarrow> nat \<Rightarrow> netcore \<Rightarrow> (packet list \<times> netcore) result option" where
  "packets env z 0 net = None"
| "packets env z (Suc fuel) net =
     bind_result (next_packet env z net) (\<lambda>(p, net).
     case p of None \<Rightarrow> ret ([], net)
     | Some p \<Rightarrow> bind_result (packets env z fuel net) (\<lambda>(ps, net). ret (p # ps, net)))"

text \<open>
  What one read does to the buffer: \<^verbatim>\<open>sbnet_alloc_cb\<close> with the size libuv suggests, the bytes libuv stores, their count, and the packets that can be
  cut off; the tests and the lock at the start of \<^verbatim>\<open>sbnet_read_cb\<close> are in \<open>read_cb_start\<close>. Every packet takes at least one byte of the buffer, so the
  fuel is enough.
\<close>

definition sbnet_alloc_cb :: "env \<Rightarrow> netcore \<Rightarrow> u64 \<Rightarrow> netcore result option" where
  "sbnet_alloc_cb env net n = bind_result (sbnet_bbuf_make_room env (read_buf net) n) (\<lambda>b. ret (net\<lparr>read_buf := b\<rparr>))"

definition count_read :: "u64 \<Rightarrow> netcore \<Rightarrow> netcore" where
  "count_read nread net =
     net\<lparr>read_buf := (read_buf net)\<lparr>in_use := in_use (read_buf net) + nread, rem := rem (read_buf net) - nread\<rparr>\<rparr>"

definition feed :: "env \<Rightarrow> zlib \<Rightarrow> u64 \<Rightarrow> byte list \<Rightarrow> netcore \<Rightarrow> (packet list \<times> netcore) result option" where
  "feed env z suggested bs net =
     bind_result (sbnet_alloc_cb env net suggested) (\<lambda>net.
     case uv_store (read_buf net) bs of
       None \<Rightarrow> None
     | Some b \<Rightarrow>
         let net = count_read (of_nat (length bs)) (net\<lparr>read_buf := b\<rparr>)
         in packets env z (unat (in_use (read_buf net)) + 2) net)"

fun feed_all :: "env \<Rightarrow> zlib \<Rightarrow> u64 \<Rightarrow> byte list list \<Rightarrow> netcore \<Rightarrow> (packet list \<times> netcore) result option" where
  "feed_all env z suggested [] net = ret ([], net)"
| "feed_all env z suggested (bs # chunks) net =
     bind_result (feed env z suggested bs net) (\<lambda>(ps, net).
     bind_result (feed_all env z suggested chunks net) (\<lambda>(qs, net). ret (ps @ qs, net)))"

lemma packets_all:
  assumes "pending net (concat (map frame fs) @ part)" and "\<forall>f \<in> set fs. sendable_frame f" and "incomplete part"
    and "compression net = uncompressed" and "\<forall>n. mal env n" and "length fs < fuel"
  shows "\<exists>net'. packets env z fuel net = ret (map as_packet fs, net') \<and> pending net' part \<and> compression net' = uncompressed"
  using assms
proof (induction fs arbitrary: net fuel)
  case Nil
  from Nil.prems(6) obtain n where n: "fuel = Suc n" by (cases fuel) auto
  from incomplete_kept [of net part env z] Nil.prems n show ?case by auto
next
  case (Cons f fs)
  from Cons.prems(6) obtain n where n: "fuel = Suc n" "length fs < n" by (cases fuel) auto
  have "pending net (frame f @ (concat (map frame fs) @ part))" using Cons.prems(1) by simp
  from frame_delivered [OF this _ Cons.prems(4,5), of z] Cons.prems(2) obtain net1 where
    net1: "next_packet env z net = ret (Some (as_packet f), net1)" "pending net1 (concat (map frame fs) @ part)"
      "compression net1 = uncompressed" by auto
  from Cons.IH [OF net1(2) _ Cons.prems(3) net1(3) Cons.prems(5) n(2)] Cons.prems(2) net1(1) n(1) show ?case by auto
qed

lemma frame_not_Nil: "frame f \<noteq> []"
  by (simp add: frame_def)

lemma incomplete_Nil: "incomplete []"
proof -
  have "sendable_frame (0, [])" by (simp add: sendable_frame_def frame_size_def leb128_small)
  then show ?thesis using frame_not_Nil by (auto simp: incomplete_def)
qed

text \<open>Every prefix of a sequence of frames is some of the frames and a proper prefix of the next one.\<close>

lemma prefix_frames:
  assumes "xs @ ys = concat (map frame fs)" and "\<forall>f \<in> set fs. sendable_frame f"
  shows "\<exists>fs1 fs2 part. fs = fs1 @ fs2 \<and> xs = concat (map frame fs1) @ part \<and> part @ ys = concat (map frame fs2) \<and> incomplete part"
  using assms
proof (induction fs arbitrary: xs)
  case Nil
  then show ?case using incomplete_Nil by auto
next
  case (Cons f fs)
  have eq: "xs @ ys = frame f @ concat (map frame fs)" using Cons.prems(1) by simp
  show ?case
  proof (cases "length xs < length (frame f)")
    case True
    then have "xs @ drop (length xs) (frame f) = frame f" using eq
      by (metis append_eq_append_conv_if append_take_drop_id less_or_eq_imp_le)
    moreover have "drop (length xs) (frame f) \<noteq> []" using True by simp
    ultimately have "incomplete xs" unfolding incomplete_def using Cons.prems(2) by (metis list.set_intros(1))
    then show ?thesis using Cons.prems(1) by (intro exI [of _ "[]"] exI [of _ "f # fs"] exI [of _ xs]) simp
  next
    case False
    have "take (length (frame f)) (xs @ ys) = frame f" unfolding eq by simp
    then have "take (length (frame f)) xs = frame f" using False by simp
    then obtain xs' where xs': "xs = frame f @ xs'" by (metis append_take_drop_id)
    then have "xs' @ ys = concat (map frame fs)" using eq by simp
    from Cons.IH [OF this] Cons.prems(2) obtain fs1 fs2 part where
      "fs = fs1 @ fs2" "xs' = concat (map frame fs1) @ part" "part @ ys = concat (map frame fs2)" "incomplete part" by auto
    with xs' show ?thesis by (intro exI [of _ "f # fs1"] exI [of _ fs2] exI [of _ part]) simp
  qed
qed

lemma pending_store:
  assumes "pending net part" and "length bs \<le> unat (rem (read_buf net))"
  shows "\<exists>b. uv_store (read_buf net) bs = Some b \<and> pending (count_read (of_nat (length bs)) (net\<lparr>read_buf := b\<rparr>)) (part @ bs)"
proof -
  from assms(1) obtain xs where xs: "buf_rep (read_buf net) xs"
    "next_packet_size net = NO_SIZE \<and> part = xs \<or> (\<exists>n < 2 ^ 31. next_packet_size net = int n \<and> part = leb128 n @ xs)"
    by (auto simp: pending_def)
  from store_rep [OF xs(1) assms(2)] obtain b where "uv_store (read_buf net) bs = Some b"
    "buf_rep (b\<lparr>in_use := in_use b + of_nat (length bs), rem := rem b - of_nat (length bs)\<rparr>) (xs @ bs)" by blast
  with xs(2) show ?thesis unfolding pending_def by (auto simp: count_read_def)
qed

lemma frames_length: "length fs \<le> length (concat (map frame fs))"
proof (induction fs)
  case (Cons f fs)
  have "0 < length (frame f)" using frame_not_Nil by simp
  with Cons show ?case by (simp del: length_greater_0_conv)
qed simp

lemma pending_frames:
  assumes "pending net (concat (map frame fs) @ part)" and "\<forall>f \<in> set fs. sendable_frame f"
  shows "length fs \<le> unat (in_use (read_buf net))"
proof -
  from assms(1) obtain xs where xs: "buf_rep (read_buf net) xs"
    "concat (map frame fs) @ part = xs \<or> (\<exists>n < 2 ^ 31. concat (map frame fs) @ part = leb128 n @ xs)"
    by (auto simp: pending_def)
  have len: "unat (in_use (read_buf net)) = length xs" using xs(1) by (simp add: buf_rep_def)
  from xs(2) have "length fs \<le> length xs"
  proof (elim disjE exE conjE)
    assume "concat (map frame fs) @ part = xs"
    then have "length xs = length (concat (map frame fs)) + length part" by (metis length_append)
    then show ?thesis using frames_length [of fs] by linarith
  next
    fix n :: nat assume n: "n < 2 ^ 31" "concat (map frame fs) @ part = leb128 n @ xs"
    show ?thesis
    proof (cases fs)
      case (Cons f gs)
      have "frame_size f < 2 ^ 31" using assms(2) Cons by (simp add: sendable_frame_def)
      moreover have "leb128 (frame_size f) @ (leb128 (unat (fst f)) @ snd f @ concat (map frame gs) @ part) = leb128 n @ xs"
        using n(2) Cons by (simp add: frame_def)
      ultimately have "xs = leb128 (unat (fst f)) @ snd f @ concat (map frame gs) @ part"
        using leb128_prefix [of "frame_size f" "leb128 (unat (fst f)) @ snd f @ concat (map frame gs) @ part" n xs] n(1) by simp
      then have "length (leb128 (unat (fst f))) + length (concat (map frame gs)) \<le> length xs" by simp
      moreover have "0 < length (leb128 (unat (fst f)))" by (rule leb128_length_pos)
      ultimately have "Suc (length gs) \<le> length xs" using frames_length [of gs] by linarith
      then show ?thesis using Cons by simp
    qed simp
  qed
  with len show ?thesis by simp
qed

lemma feed_pending:
  assumes "pending net part" and "part @ bs = concat (map frame fs) @ part'" and "\<forall>f \<in> set fs. sendable_frame f"
    and "incomplete part'" and "compression net = uncompressed" and "\<forall>n. mal env n"
    and "length bs \<le> unat suggested" and "length part + unat suggested < 2 ^ 64"
  shows "\<exists>net'. feed env z suggested bs net = ret (map as_packet fs, net') \<and> pending net' part' \<and> compression net' = uncompressed"
proof -
  from assms(1) obtain xs where xs: "buf_rep (read_buf net) xs" "length xs \<le> length part"
    "next_packet_size net = NO_SIZE \<and> part = xs \<or> (\<exists>n < 2 ^ 31. next_packet_size net = int n \<and> part = leb128 n @ xs)"
    by (auto simp: pending_def)
  have noexit: "sbnet_bbuf_make_room env (read_buf net) suggested \<noteq> Some (Exited (- 1))"
    using assms(6) by (simp add: sbnet_bbuf_make_room_def Let_def)
  have "length xs + unat suggested < 2 ^ 64" using xs(2) assms(8) by linarith
  from make_room_rep [OF xs(1) this, of env] noexit obtain b where
    b: "sbnet_bbuf_make_room env (read_buf net) suggested = ret b" "buf_rep b xs" "suggested \<le> rem b" by blast
  let ?net1 = "net\<lparr>read_buf := b\<rparr>"
  have p1: "pending ?net1 part" using xs(3) b(2) by (auto simp: pending_def)
  have "length bs \<le> unat (rem (read_buf ?net1))" using b(3) assms(7) by (simp add: word_le_nat_alt)
  from pending_store [OF p1 this] obtain b2 where b2: "uv_store b bs = Some b2"
    "pending (count_read (of_nat (length bs)) (?net1\<lparr>read_buf := b2\<rparr>)) (concat (map frame fs) @ part')"
    using assms(2) by auto
  let ?net2 = "count_read (of_nat (length bs)) (?net1\<lparr>read_buf := b2\<rparr>)"
  have fuel: "length fs < unat (in_use (read_buf ?net2)) + 2" using pending_frames [OF b2(2) assms(3)] by simp
  have c: "compression ?net2 = uncompressed" using assms(5) by (simp add: count_read_def)
  from packets_all [OF b2(2) assms(3,4) c assms(6) fuel, of z] b(1) b2(1) show ?thesis
    by (simp add: feed_def sbnet_alloc_cb_def Let_def)
qed

lemma frame_not_incomplete:
  assumes "sendable_frame f"
  shows "\<not> incomplete (frame f @ rest)"
proof
  assume "incomplete (frame f @ rest)"
  then obtain g c where g: "sendable_frame g" "c \<noteq> []" "(frame f @ rest) @ c = frame g" by (auto simp: incomplete_def)
  let ?b = "leb128 (unat (fst f)) @ snd f" and ?c = "leb128 (unat (fst g)) @ snd g"
  have "leb128 (frame_size f) @ (?b @ rest @ c) = leb128 (frame_size g) @ ?c" using g(3) by (simp add: frame_def)
  from leb128_prefix [OF this] assms g(1) have "frame_size f = frame_size g" "?b @ rest @ c = ?c"
    by (simp_all add: sendable_frame_def)
  moreover have "length (?b @ rest @ c) = frame_size f + length rest + length c" "length ?c = frame_size g"
    by (simp_all add: frame_size_def)
  ultimately show False using g(2) by simp
qed

lemma reassemble:
  assumes "pending net part" and "incomplete part" and "part @ concat chunks = concat (map frame fs)" and "\<forall>f \<in> set fs. sendable_frame f"
    and "compression net = uncompressed" and "\<forall>n. mal env n"
    and "\<forall>bs \<in> set chunks. length bs \<le> unat suggested" and "length (concat (map frame fs)) + unat suggested < 2 ^ 64"
  shows "\<exists>net'. feed_all env z suggested chunks net = ret (map as_packet fs, net') \<and> pending net' []"
  using assms
proof (induction chunks arbitrary: net part fs)
  case Nil
  have "fs = []"
  proof (cases fs)
    case (Cons f gs)
    then show ?thesis using Nil.prems(2-4) frame_not_incomplete [of f "concat (map frame gs)"] by simp
  qed simp
  with Nil.prems show ?case by simp
next
  case (Cons bs chunks)
  have "(part @ bs) @ concat chunks = concat (map frame fs)" using Cons.prems(3) by simp
  from prefix_frames [OF this Cons.prems(4)] obtain fs1 fs2 part' where
    s: "fs = fs1 @ fs2" "part @ bs = concat (map frame fs1) @ part'" "part' @ concat chunks = concat (map frame fs2)" "incomplete part'"
    by blast
  have len: "length part + unat suggested < 2 ^ 64" 
    using Cons.prems(8) unfolding Cons.prems(3) [symmetric] by simp
  have ok: "\<forall>f \<in> set fs1. sendable_frame f" "\<forall>f \<in> set fs2. sendable_frame f" using Cons.prems(4) s(1) by auto
  from feed_pending [OF Cons.prems(1) s(2) ok(1) s(4) Cons.prems(5,6) _ len, of z] Cons.prems(7) obtain net1 where
    net1: "feed env z suggested bs net = ret (map as_packet fs1, net1)" "pending net1 part'" "compression net1 = uncompressed" by auto
  have "length (concat (map frame fs2)) + unat suggested < 2 ^ 64" using Cons.prems(8) s(1) by simp
  from Cons.IH [OF net1(2) s(4,3) ok(2) net1(3) Cons.prems(6) _ this] Cons.prems(7) net1(1) s(1) show ?case by auto
qed

section \<open>What the receive side guarantees\<close>

definition fresh_net :: netcore where
  "fresh_net = \<lparr>read_buf = \<lparr>base = replicate 4096 None, buf_cur = 0, buf_len = 4096, in_use = 0, rem = 4096\<rparr>,
     next_packet_size = NO_SIZE, compression = uncompressed, threshold = 0, proto_state = 0, handles = []\<rparr>"

lemma fresh_pending: "pending fresh_net []" "compression fresh_net = uncompressed"
  by (simp_all add: pending_def fresh_net_def buf_rep_def)

text \<open>The framing of an uncompressed connection: however the stream of packets is cut into reads, each no longer than what libuv was given room
  for, the packets that can be cut off are exactly those that were sent, in order and with their data, and nothing is left over. The loop of the
  program does not survive most of these cuts, because of its lock (\<open>partial_read_keeps_lock\<close> and \<open>second_packet_unlocks_again\<close>).\<close>

theorem reassembly:
  assumes "pending net []" and "compression net = uncompressed" and "concat chunks = concat (map frame fs)"
    and "\<forall>f \<in> set fs. sendable_frame f" and "\<forall>n. mal env n"
    and "\<forall>bs \<in> set chunks. length bs \<le> unat suggested" and "length (concat chunks) + unat suggested < 2 ^ 64"
  shows "\<exists>net'. feed_all env z suggested chunks net = ret (map as_packet fs, net') \<and> pending net' []"
  using reassemble [OF assms(1) incomplete_Nil _ assms(4,2,5,6), of z] assms(3,7) by simp

theorem reassembly_witness:
  "\<exists>net'. feed_all granted \<lparr>zinit = False, zinflate = \<lambda>_ _. None\<rparr> 65536 [[3, 5], [10, 11, 1], [7]] fresh_net =
     ret ([(5, [10, 11], 2), (7, [], 0)], net')"
proof -
  have fr: "frame (5, [10, 11]) = [3, 5, 10, 11]" "frame (7, []) = [1, 7]"
    by (simp_all add: frame_def frame_size_def leb128_small)
  have ok: "sendable_frame (5, [10, 11])" "sendable_frame (7, [])"
    by (simp_all add: sendable_frame_def frame_size_def leb128_small)
  from reassembly [OF fresh_pending, of "[[3, 5], [10, 11, 1], [7]]" "[(5, [10, 11]), (7, [])]" granted 65536
      "\<lparr>zinit = False, zinflate = \<lambda>_ _. None\<rparr>"]
  show ?thesis using fr ok by (auto simp: granted_def as_packet_def)
qed

text \<open>Making room for a read keeps the bytes in use, whether they are moved to the front or the block grows, and leaves at least
  the requested room behind them; only a refused allocation ends the program.\<close>

theorem make_room_keeps:
  assumes "buf_rep b xs" and "length xs + unat n < 2 ^ 64"
  shows "sbnet_bbuf_make_room env b n = Some (Exited (- 1)) \<or>
    (\<exists>b'. sbnet_bbuf_make_room env b n = ret b' \<and> buf_rep b' xs \<and> n \<le> rem b')"
  by (rule make_room_rep [OF assms])

theorem make_room_keeps_witness:
  "\<exists>b'. sbnet_bbuf_make_room granted
       \<lparr>base = [None, Some 1, Some 2], buf_cur = 1, buf_len = 3, in_use = 2, rem = 0\<rparr> 4 = ret b' \<and> buf_rep b' [1, 2] \<and> 4 \<le> rem b'"
proof -
  let ?b = "\<lparr>base = [None, Some 1, Some 2], buf_cur = 1, buf_len = 3, in_use = 2, rem = 0\<rparr>"
  have "buf_rep ?b [1, 2]" by (simp add: buf_rep_def)
  moreover have "sbnet_bbuf_make_room granted ?b 4 \<noteq> Some (Exited (- 1))" by (simp add: sbnet_bbuf_make_room_def granted_def Let_def)
  ultimately show ?thesis using make_room_keeps [of ?b "[1, 2]" 4 granted] by auto
qed

end
