(* ===== verification/NetRun.thy ===== *)
theory NetRun
  imports Net
begin

text \<open>
  The network plugin on the event core: \<^verbatim>\<open>sbnet_read_cb\<close> with its lock, the decoding of a packet and the event it emits; the headers of
  the packets that are sent; the registration of the plugin's events and callbacks. The generated protocol code is an argument: the
  names of the packets by state and direction (\<open>proto\<close>), and the decoder.
\<close>

section \<open>State\<close>

record client =
  runs :: run_state
  net :: netcore

record proto =
  protocol_strings :: "byte list list list list"
  toclient_id :: nat
  handshaking_id :: nat
  login_id :: nat
  play_id :: nat

definition lock_net :: "lock_call \<Rightarrow> client \<Rightarrow> client" where
  "lock_net c s = s\<lparr>runs := (runs s)\<lparr>core := call_lock c (core (runs s))\<rparr>\<rparr>"

section \<open>Reading\<close>

text \<open>\<^verbatim>\<open>sbnet_read_cb\<close> up to its loop, which is entered when the first component is \<open>True\<close>; \<open>uv_eof\<close> is the constant of libuv.\<close>

definition read_cb_start :: "int \<Rightarrow> int \<Rightarrow> client \<Rightarrow> (bool \<times> client) result option" where
  "read_cb_start uv_eof nread s =
     (if nread < 0 then Some (Exited (- 1))
      else if nread = uv_eof then ret (False, s\<lparr>runs := (runs s)\<lparr>core := sbev_kill (core (runs s))\<rparr>\<rparr>)
      else let s = lock_net (Wrlock NetLock) s in ret (True, s\<lparr>net := count_read (word_of_int nread) (net s)\<rparr>))"

definition handle_at :: "proto \<Rightarrow> netcore \<Rightarrow> u32 \<Rightarrow> u64 option" where
  "handle_at pr n pid =
     (if proto_state n < length (handles n) \<and> toclient_id pr < length (handles n ! proto_state n) \<and>
         unat pid < length (handles n ! proto_state n ! toclient_id pr)
      then Some (handles n ! proto_state n ! toclient_id pr ! unat pid) else None)"

text \<open>
  A round of the loop, run by fiber \<open>i\<close>, up to its break or its wait; \<open>c\<close> is the address of the local counter. The first component of
  the result says whether the loop goes on, the second whether the fiber has jumped.
\<close>

definition read_round ::
  "env \<Rightarrow> zlib \<Rightarrow> (u64 \<Rightarrow> u64 \<Rightarrow> nat \<Rightarrow> nat) \<Rightarrow> proto \<Rightarrow> (nat \<Rightarrow> u32 \<Rightarrow> ptr \<Rightarrow> u64 \<Rightarrow> nat option) \<Rightarrow> nat \<Rightarrow> nat \<Rightarrow> client \<Rightarrow>
     (bool \<times> bool \<times> client) result option" where
  "read_round env z mk pr decode i c s =
     bind_result (next_packet env z (net s)) (\<lambda>(p, n).
     let s = s\<lparr>net := n\<rparr> in
     case p of
       None \<Rightarrow> ret (False, False, s)
     | Some (pid, pdata, data_len) \<Rightarrow>
         (case decode (proto_state n) pid pdata data_len of
            None \<Rightarrow> Some (Exited (- 1))
          | Some pak \<Rightarrow>
              let s = lock_net (Wrunlock NetLock) s;
                  r = declare_count c (runs s)
              in (case handle_at pr n pid of
                    None \<Rightarrow> None
                  | Some h \<Rightarrow>
                      bind_result (sbev_emit_event env mk h pak (Some c) r) (\<lambda>r.
                      bind_result (wait_count i c r) (\<lambda>(jumped, r). ret (True, jumped, s\<lparr>runs := r\<rparr>))))))"

text \<open>A read of \<open>bs\<close> as libuv drives it, up to the first wait or the end of the callback: \<^verbatim>\<open>sbnet_alloc_cb\<close>, the bytes that libuv stores, and
  \<^verbatim>\<open>sbnet_read_cb\<close>.\<close>

definition read_chunk ::
  "env \<Rightarrow> zlib \<Rightarrow> (u64 \<Rightarrow> u64 \<Rightarrow> nat \<Rightarrow> nat) \<Rightarrow> proto \<Rightarrow> (nat \<Rightarrow> u32 \<Rightarrow> ptr \<Rightarrow> u64 \<Rightarrow> nat option) \<Rightarrow> nat \<Rightarrow> nat \<Rightarrow> int \<Rightarrow> u64 \<Rightarrow> byte list \<Rightarrow> client \<Rightarrow>
     (bool \<times> bool \<times> client) result option" where
  "read_chunk env z mk pr decode i c uv_eof suggested bs s =
     bind_result (sbnet_alloc_cb env (net s) suggested) (\<lambda>n.
     case uv_store (read_buf n) bs of
       None \<Rightarrow> None
     | Some b \<Rightarrow>
         bind_result (read_cb_start uv_eof (int (length bs)) (s\<lparr>net := n\<lparr>read_buf := b\<rparr>\<rparr>)) (\<lambda>(go, s).
         if go then read_round env z mk pr decode i c s else ret (False, False, s)))"

section \<open>Callbacks of the plugin\<close>

definition sbnet_compress_cb :: "u32 \<Rightarrow> netcore \<Rightarrow> netcore" where
  "sbnet_compress_cb t n = n\<lparr>threshold := t, compression := compressed\<rparr>"

definition sbnet_success_cb :: "proto \<Rightarrow> netcore \<Rightarrow> netcore" where
  "sbnet_success_cb pr n = n\<lparr>proto_state := play_id pr\<rparr>"

section \<open>Sending\<close>

definition sbnet_size_uncom_hdr :: "u32 \<Rightarrow> u32 \<Rightarrow> u64" where
  "sbnet_size_uncom_hdr src_size src_id =
     (let pid_size = size_varint src_id;
          total_size = ucast (ucast src_size + pid_size) :: u32
      in size_varint total_size + pid_size)"

definition sbnet_enc_uncom_hdr :: "ptr \<Rightarrow> u32 \<Rightarrow> u32 \<Rightarrow> ptr" where
  "sbnet_enc_uncom_hdr dest src_size src_id =
     (let total_size = ucast src_size + size_varint src_id :: u64
      in enc_varint (enc_varint dest (ucast total_size)) src_id)"

text \<open>
  The two packets of \<^verbatim>\<open>sbnet_connect_cb\<close>, given by their ids, the results of the generated size functions and what the generated encoders
  write: the size of the buffer and its contents. Writing behind the buffer is undefined.
\<close>

definition connect_buffer :: "env \<Rightarrow> u32 \<times> u64 \<times> byte list \<Rightarrow> u32 \<times> u64 \<times> byte list \<Rightarrow> (u64 \<times> byte list) result option" where
  "connect_buffer env set_proto login_start =
     (case (set_proto, login_start) of ((id1, s1, bs1), (id2, s2, bs2)) \<Rightarrow>
        let tot_size = sbnet_size_uncom_hdr (ucast s1) id1 + s1 + sbnet_size_uncom_hdr (ucast s2) id2 + s2;
            tmp = sbnet_enc_uncom_hdr [] (ucast s1) id1 @ bs1;
            tmp = sbnet_enc_uncom_hdr tmp (ucast s2) id2 @ bs2
        in if \<not> mal env (unat tot_size) then Some (Exited (- 1))
           else if unat tot_size < length tmp then None
           else ret (tot_size, tmp))"

definition sbnet_connect_cb ::
  "env \<Rightarrow> proto \<Rightarrow> int \<Rightarrow> u32 \<times> u64 \<times> byte list \<Rightarrow> u32 \<times> u64 \<times> byte list \<Rightarrow> netcore \<Rightarrow> (byte list \<times> netcore) result option" where
  "sbnet_connect_cb env pr status set_proto login_start n =
     (if status < 0 then Some (Exited (- 1))
      else bind_result (connect_buffer env set_proto login_start) (\<lambda>(_, bs). ret (bs, n\<lparr>proto_state := login_id pr\<rparr>)))"

section \<open>Registration\<close>

text \<open>The arrays of \<^verbatim>\<open>sbnet_alloc_handles\<close>: one for each state and direction that has packets.\<close>

fun alloc_arrays :: "env \<Rightarrow> nat list \<Rightarrow> unit result option" where
  "alloc_arrays env [] = ret ()"
| "alloc_arrays env (n # ns) =
     (if n = 0 \<or> mal env (unat (of_nat n * 8 :: u64)) then alloc_arrays env ns else Some (Exited (- 1)))"

definition sbnet_alloc_handles :: "env \<Rightarrow> proto \<Rightarrow> unit result option" where
  "sbnet_alloc_handles env pr = alloc_arrays env (concat (map (map length) (protocol_strings pr)))"

text \<open>The loops of \<^verbatim>\<open>sbnet_reg_handles\<close>.\<close>

fun reg_directions :: "env \<Rightarrow> byte list list list \<Rightarrow> eventcore \<Rightarrow> (u64 list list \<times> eventcore) result option" where
  "reg_directions env [] ev = ret ([], ev)"
| "reg_directions env (ids # ds) ev =
     bind_result (reg_all (sbev_reg_event env) ids ev) (\<lambda>(hs, ev).
     bind_result (reg_directions env ds ev) (\<lambda>(hss, ev). ret (hs # hss, ev)))"

fun reg_states :: "env \<Rightarrow> byte list list list list \<Rightarrow> eventcore \<Rightarrow> (u64 list list list \<times> eventcore) result option" where
  "reg_states env [] ev = ret ([], ev)"
| "reg_states env (ds # ss) ev =
     bind_result (reg_directions env ds ev) (\<lambda>(hss, ev).
     bind_result (reg_states env ss ev) (\<lambda>(hsss, ev). ret (hss # hsss, ev)))"

definition sbnet_reg_handles :: "env \<Rightarrow> proto \<Rightarrow> eventcore \<Rightarrow> (u64 list list list \<times> eventcore) result option" where
  "sbnet_reg_handles env pr ev = reg_states env (protocol_strings pr) ev"

definition str_compress :: "byte list" where "str_compress = map of_char ''login_toclient_compress''"
definition str_success :: "byte list" where "str_success = map of_char ''login_toclient_success''"

text \<open>The addresses of the callbacks.\<close>

definition START_CB :: nat where "START_CB = 11"
definition ONTICK_CB :: nat where "ONTICK_CB = 12"
definition COMPRESS_CB :: nat where "COMPRESS_CB = 13"
definition SUCCESS_CB :: nat where "SUCCESS_CB = 14"

text \<open>\<^verbatim>\<open>sbnet_init_net\<close>; \<open>uv_init\<close> are the results of \<^verbatim>\<open>uv_loop_init\<close> and \<^verbatim>\<open>uv_tcp_init\<close>, \<open>me\<close> is the address of the plugin.\<close>

definition sbnet_init_net ::
  "env \<Rightarrow> proto \<Rightarrow> int \<times> int \<Rightarrow> nat \<Rightarrow> eventcore \<Rightarrow> (int \<times> (netcore \<times> eventcore) option) result option" where
  "sbnet_init_net env pr uv_init me ev =
     (let r = csb_init_plugin env NetLock in
      if r < 0 then ret (r, None)
      else bind_result (chk_alloc env 1 4096 None []) (\<lambda>block.
        let n = \<lparr>read_buf = \<lparr>base = block, buf_cur = 0, buf_len = 4096, in_use = 0, rem = 4096\<rparr>, next_packet_size = NO_SIZE,
                 compression = uncompressed, threshold = 0, proto_state = handshaking_id pr, handles = []\<rparr> in
        if fst uv_init < 0 then ret (fst uv_init, None)
        else if snd uv_init < 0 then ret (snd uv_init, None)
        else bind_result (sbnet_alloc_handles env pr) (\<lambda>_.
             bind_result (sbnet_reg_handles env pr ev) (\<lambda>(hs, ev).
             bind_result (sbev_reg_event_cb env str_start (Some START_CB) me ev) (\<lambda>ev.
             bind_result (sbev_reg_event_cb env str_tick (Some ONTICK_CB) me ev) (\<lambda>ev.
             bind_result (sbev_reg_event_cb env str_compress (Some COMPRESS_CB) me ev) (\<lambda>ev.
             bind_result (sbev_reg_event_cb env str_success (Some SUCCESS_CB) me ev) (\<lambda>ev.
             ret (0, Some (n\<lparr>handles := hs\<rparr>, ev))))))))))"

section \<open>Headers\<close>

text \<open>\<^verbatim>\<open>size_varint\<close> agrees with the encoder.\<close>

definition size_exact :: "nat \<Rightarrow> bool" where
  "size_exact n \<longleftrightarrow> \<not> (128 \<le> n \<and> n < 256)"

lemma size_varint_nat:
  assumes "n < 2 ^ 32"
  shows "size_varint (of_nat n) = of_nat (length (leb128 n) - (if size_exact n then 0 else 1))"
proof -
  have u: "unat (of_nat n :: u32) = n" using assms by (simp add: unat_of_nat)
  show ?thesis
  proof (cases "size_exact n")
    case True
    then show ?thesis using size_varint_leb [of "of_nat n"] u by (auto simp: size_exact_def)
  next
    case False
    then have n: "128 \<le> n" "n < 256" by (auto simp: size_exact_def)
    have "length (leb128 n) = Suc 1" by (rule length_leb128_eq) (use n in simp_all)
    moreover have "size_varint (of_nat n) = 1" using n u by (simp add: size_varint_def word_less_nat_alt)
    ultimately show ?thesis using False by simp
  qed
qed

lemma size_varint_u32: "size_exact (unat (v :: u32)) \<Longrightarrow> size_varint v = of_nat (length (leb128 (unat v)))"
  using size_varint_leb [of v] by (auto simp: size_exact_def)

lemma hdr_sum:
  fixes v :: u32
  assumes "frame_size (v, pl) < 2 ^ 31" and "size_exact (unat v)"
  shows "(ucast (of_nat (length pl) :: u32) + size_varint v :: u64) = of_nat (frame_size (v, pl))"
proof -
  have "length pl < 2 ^ 32" using assms(1) by (simp add: frame_size_def)
  then have "(ucast (of_nat (length pl) :: u32) :: u64) = of_nat (length pl)"
    by (simp add: unsigned_of_nat take_bit_nat_eq_self)
  then show ?thesis using size_varint_u32 [OF assms(2)] by (simp add: frame_size_def add.commute)
qed

lemma ucast_small: "n < 2 ^ 32 \<Longrightarrow> (ucast (of_nat n :: u64) :: u32) = of_nat n"
  by (simp add: unsigned_of_nat take_bit_nat_eq_self)

lemma enc_hdr_frame:
  assumes "sendable_frame (v, pl)" and "size_exact (unat v)"
  shows "sbnet_enc_uncom_hdr dest (of_nat (length pl)) v @ pl = dest @ frame (v, pl)"
proof -
  have n: "frame_size (v, pl) < 2 ^ 31" using assms(1) by (simp add: sendable_frame_def)
  then have "unat (of_nat (frame_size (v, pl)) :: u32) = frame_size (v, pl)" by (simp add: unat_of_nat)
  then show ?thesis using hdr_sum [OF n assms(2)] n
    by (simp add: sbnet_enc_uncom_hdr_def Let_def ucast_small enc_varint_leb frame_def)
qed

lemma size_hdr_frame:
  assumes "sendable_frame (v, pl)" and "size_exact (unat v)"
  shows "sbnet_size_uncom_hdr (of_nat (length pl)) v + of_nat (length pl) =
    of_nat (length (frame (v, pl)) - (if size_exact (frame_size (v, pl)) then 0 else 1))"
proof -
  have n: "frame_size (v, pl) < 2 ^ 31" using assms(1) by (simp add: sendable_frame_def)
  obtain m where m: "length (leb128 (frame_size (v, pl))) = Suc m"
    using leb128_length_pos [of "frame_size (v, pl)"] by (metis gr0_implies_Suc)
  have "sbnet_size_uncom_hdr (of_nat (length pl)) v =
    of_nat (length (leb128 (frame_size (v, pl))) - (if size_exact (frame_size (v, pl)) then 0 else 1)) +
      of_nat (length (leb128 (unat v)))"
    using hdr_sum [OF n assms(2)] size_varint_nat [of "frame_size (v, pl)"] n size_varint_u32 [OF assms(2)]
    by (simp add: sbnet_size_uncom_hdr_def Let_def ucast_small)
  moreover have "length (frame (v, pl)) = length (leb128 (frame_size (v, pl))) + length (leb128 (unat v)) + length pl"
    by (simp add: frame_def)
  ultimately show ?thesis by (cases "size_exact (frame_size (v, pl))") (simp_all add: m algebra_simps)
qed

section \<open>What the plugin guarantees, and what it does not\<close>

text \<open>C28. The two login packets fill the buffer exactly, as two frames, unless the size of one of them is between 128 and 255: then
  its header is one byte longer than was allocated and the last byte is written behind the buffer.\<close>

theorem connect_buffer_iff:
  assumes "sendable_frame (id1, pl1)" and "sendable_frame (id2, pl2)" and "size_exact (unat id1)" and "size_exact (unat id2)"
    and "\<forall>n. mal env n"
  shows "connect_buffer env (id1, of_nat (length pl1), pl1) (id2, of_nat (length pl2), pl2) =
    (if size_exact (frame_size (id1, pl1)) \<and> size_exact (frame_size (id2, pl2))
     then ret (of_nat (length (frame (id1, pl1) @ frame (id2, pl2))), frame (id1, pl1) @ frame (id2, pl2)) else None)"
proof -
  let ?f1 = "frame (id1, pl1)" and ?f2 = "frame (id2, pl2)"
  let ?d1 = "if size_exact (frame_size (id1, pl1)) then 0 else 1 :: nat"
  let ?d2 = "if size_exact (frame_size (id2, pl2)) then 0 else 1 :: nat"
  have len: "length pl1 < 2 ^ 31" "length pl2 < 2 ^ 31" using assms(1,2) by (simp_all add: sendable_frame_def frame_size_def)
  have lf: "length (frame f) \<le> frame_size f + 5" if "sendable_frame f" for f
    using that length_leb_small [of "frame_size f"] by (simp add: frame_def frame_size_def sendable_frame_def)
  have l1: "1 \<le> length ?f1" "1 \<le> length ?f2" using frame_not_Nil by (simp_all add: Suc_leI)
  have l2: "length ?f1 < 2 ^ 32" "length ?f2 < 2 ^ 32" using lf [OF assms(1)] lf [OF assms(2)] assms(1,2) by (simp_all add: sendable_frame_def)
  have c: "(ucast (of_nat (length pl1) :: u64) :: u32) = of_nat (length pl1)" "(ucast (of_nat (length pl2) :: u64) :: u32) = of_nat (length pl2)"
    using len by (simp_all add: ucast_small)
  let ?tot = "sbnet_size_uncom_hdr (of_nat (length pl1)) id1 + of_nat (length pl1) +
    sbnet_size_uncom_hdr (of_nat (length pl2)) id2 + of_nat (length pl2)"
  have "?tot = of_nat (length ?f1 - ?d1) + of_nat (length ?f2 - ?d2)"
    using size_hdr_frame [OF assms(1,3)] size_hdr_frame [OF assms(2,4)] by (simp add: add.assoc)
  then have tot: "?tot = of_nat ((length ?f1 - ?d1) + (length ?f2 - ?d2))" by (simp only: of_nat_add)
  have "(length ?f1 - ?d1) + (length ?f2 - ?d2) \<le> length ?f1 + length ?f2" by (intro add_mono diff_le_self)
  then have "(length ?f1 - ?d1) + (length ?f2 - ?d2) < 2 ^ 64" using l2 by simp
  then have un: "unat ?tot = (length ?f1 - ?d1) + (length ?f2 - ?d2)" unfolding tot by (rule unat_of_nat64)
  have w1: "sbnet_enc_uncom_hdr [] (of_nat (length pl1)) id1 @ pl1 = ?f1" using enc_hdr_frame [OF assms(1,3), of "[]"] by simp
  have w2: "sbnet_enc_uncom_hdr ?f1 (of_nat (length pl2)) id2 @ pl2 = ?f1 @ ?f2" by (rule enc_hdr_frame [OF assms(2,4)])
  have buf: "connect_buffer env (id1, of_nat (length pl1), pl1) (id2, of_nat (length pl2), pl2) =
    (if unat ?tot < length (?f1 @ ?f2) then None else ret (?tot, ?f1 @ ?f2))"
    using assms(5) by (simp only: connect_buffer_def prod.case Let_def c w1 w2 not_False_eq_True if_False simp_thms)
  show ?thesis
  proof (cases "size_exact (frame_size (id1, pl1)) \<and> size_exact (frame_size (id2, pl2))")
    case True
    then have "unat ?tot = length (?f1 @ ?f2)" "?tot = of_nat (length (?f1 @ ?f2))" using un tot by simp_all
    with True buf show ?thesis by simp
  next
    case False
    then have "unat ?tot < length (?f1 @ ?f2)" using un l1 by auto
    with False buf show ?thesis by simp
  qed
qed

theorem connect_buffer_iff_witness:
  "connect_buffer granted (0, of_nat (length [1, 2 :: byte]), [1, 2]) (0, of_nat (length [3 :: byte]), [3]) = ret (7, [3, 0, 1, 2, 2, 0, 3])"
proof -
  have "frame (0, [1, 2]) = [3, 0, 1, 2]" "frame (0, [3]) = [2, 0, 3]" "frame_size (0, [1, 2]) = 3" "frame_size (0, [3]) = 2"
    by (simp_all add: frame_def frame_size_def leb128_small)
  then show ?thesis
    using connect_buffer_iff [of 0 "[1, 2]" 0 "[3]" granted] by (simp add: sendable_frame_def size_exact_def granted_def)
qed

text \<open>The end of the stream ends the program: the error test comes first and the constant of libuv is negative, so the branch that
  would call \<^verbatim>\<open>sbev_kill\<close> is never taken and no result of the callback has the kill flag set.\<close>

theorem eof_exits:
  assumes "uv_eof < 0"
  shows "read_cb_start uv_eof uv_eof s = Some (Exited (- 1)) \<and>
    (\<forall>nread b s'. read_cb_start uv_eof nread s \<noteq> ret (False, s'))"
  using assms by (simp add: read_cb_start_def Let_def)

theorem eof_exits_witness:
  "read_cb_start (- 4095) (- 4095)
     \<lparr>runs = \<lparr>core = booted, sched = started, args = [], inited = []\<rparr>, net = fresh_net\<rparr> = Some (Exited (- 1))"
  using eof_exits [of "- 4095"] by simp

text \<open>A read that does not complete a packet leaves the loop with the write lock of the plugin held: the callback has locked and
  never unlocks.\<close>

theorem partial_read_keeps_lock:
  assumes "pending (count_read (word_of_int nread) (net s)) bs" and "incomplete bs" and "0 \<le> nread" and "nread \<noteq> uv_eof"
  shows "\<exists>s1 s2. read_cb_start uv_eof nread s = ret (True, s1) \<and> read_round env z mk pr decode i c s1 = ret (False, False, s2) \<and>
    lock_calls (core (runs s2)) = lock_calls (core (runs s)) @ [Wrlock NetLock] \<and> pending (net s2) bs"
proof -
  let ?s1 = "(lock_net (Wrlock NetLock) s)\<lparr>net := count_read (word_of_int nread) (net s)\<rparr>"
  have start: "read_cb_start uv_eof nread s = ret (True, ?s1)" using assms(3,4) by (simp add: read_cb_start_def lock_net_def Let_def)
  from incomplete_kept [OF assms(1,2), of env z] obtain n where
    n: "next_packet env z (count_read (word_of_int nread) (net s)) = ret (None, n)" "pending n bs" by blast
  have "read_round env z mk pr decode i c ?s1 = ret (False, False, ?s1\<lparr>net := n\<rparr>)" using n(1) by (simp add: read_round_def)
  with start n(2) show ?thesis by (auto simp: lock_net_def lock_defs)
qed

theorem partial_read_keeps_lock_witness:
  "\<exists>s1 s2. read_cb_start (- 4095) 0 \<lparr>runs = \<lparr>core = booted, sched = started, args = [], inited = []\<rparr>, net = fresh_net\<rparr> = ret (True, s1) \<and>
     read_round granted \<lparr>zinit = False, zinflate = \<lambda>_ _. None\<rparr> (\<lambda>_ _ p. p)
       \<lparr>protocol_strings = [], toclient_id = 0, handshaking_id = 0, login_id = 0, play_id = 0\<rparr> (\<lambda>_ _ _ _. None) 0 3 s1 = ret (False, False, s2) \<and>
     lock_calls (core (runs s2)) = lock_calls booted @ [Wrlock NetLock]"
proof -
  let ?s = "\<lparr>runs = \<lparr>core = booted, sched = started, args = [], inited = []\<rparr>, net = fresh_net\<rparr>"
  have "count_read 0 fresh_net = fresh_net" by (simp add: count_read_def fresh_net_def)
  then have "pending (count_read (word_of_int 0) (net ?s)) []" using fresh_pending(1) by simp
  from partial_read_keeps_lock [OF this incomplete_Nil, of "- 4095" granted "\<lparr>zinit = False, zinflate = \<lambda>_ _. None\<rparr>" "\<lambda>_ _ p. p"
      "\<lparr>protocol_strings = [], toclient_id = 0, handshaking_id = 0, login_id = 0, play_id = 0\<rparr>" "\<lambda>_ _ _ _. None" 0 3]
  show ?thesis by auto
qed

lemma next_packet_keeps:
  assumes "next_packet env z n = ret (p, n')"
  shows "handles n' = handles n \<and> proto_state n' = proto_state n"
proof -
  have size: "handles m' = handles m \<and> proto_state m' = proto_state m" if "read_size m = ret (c, m')" for m m' c
    using that by (auto simp: read_size_def Let_def split: if_splits option.splits)
  show ?thesis using assms by (auto simp: next_packet_def bind_result_ret split: if_splits dest!: size)
qed

lemma emit_locks:
  assumes "sbev_emit_event env mk h d count r = ret r'"
  shows "lock_calls (core r') = lock_calls (core r) @
    [Rdlock EventLock, Rdlock (EntryLock (unat h)), Rdunlock (EntryLock (unat h)), Rdunlock EventLock]"
  using assms by (auto simp: sbev_emit_event_def Let_def lock_defs set_core_def bind_result_ret split: option.splits if_splits)

lemma wait_locks: "wait_count i c r = ret (j, r') \<Longrightarrow> core r' = core r"
  by (auto simp: wait_count_def split: if_splits option.splits)

lemma round_locks:
  assumes "read_round env z mk pr decode i c s = ret (True, j, s')"
  shows "\<exists>k. lock_calls (core (runs s')) = lock_calls (core (runs s)) @
    [Wrunlock NetLock, Rdlock EventLock, Rdlock (EntryLock k), Rdunlock (EntryLock k), Rdunlock EventLock]"
proof -
  from assms obtain p n where np: "next_packet env z (net s) = ret (p, n)" by (auto simp: read_round_def bind_result_ret)
  with assms obtain pid pdata dl where p: "p = Some (pid, pdata, dl)" by (cases p) (auto simp: read_round_def)
  with assms np obtain pak where pak: "decode (proto_state n) pid pdata dl = Some pak"
    by (cases "decode (proto_state n) pid pdata dl") (auto simp: read_round_def)
  with assms np p obtain h where h: "handle_at pr n pid = Some h"
    by (cases "handle_at pr n pid") (auto simp: read_round_def Let_def)
  from assms np p pak h obtain r r' where
    e: "sbev_emit_event env mk h pak (Some c) (declare_count c (runs (lock_net (Wrunlock NetLock) (s\<lparr>net := n\<rparr>)))) = ret r"
      "wait_count i c r = ret (j, r')" "s' = (lock_net (Wrunlock NetLock) (s\<lparr>net := n\<rparr>))\<lparr>runs := r'\<rparr>"
    by (auto simp: read_round_def bind_result_ret Let_def)
  from emit_locks [OF e(1)] wait_locks [OF e(2)] e(3) show ?thesis
    by (auto simp: declare_count_def lock_net_def lock_defs)
qed

text \<open>\<^verbatim>\<open>sbnet_alloc_cb\<close> and what libuv stores, on a buffer with nothing in it.\<close>

lemma chunk_stored:
  assumes "pending n []" and "next_packet_size n = NO_SIZE" and "\<forall>n. mal env n" and "length bs \<le> unat suggested"
  shows "\<exists>n' b. sbnet_alloc_cb env n suggested = ret n' \<and> uv_store (read_buf n') bs = Some b \<and>
    pending (count_read (of_nat (length bs)) (n'\<lparr>read_buf := b\<rparr>)) bs \<and>
    compression n' = compression n \<and> handles n' = handles n \<and> proto_state n' = proto_state n"
proof -
  have xs: "buf_rep (read_buf n) []" using assms(1) by (auto simp: pending_def)
  have noexit: "sbnet_bbuf_make_room env (read_buf n) suggested \<noteq> Some (Exited (- 1))"
    using assms(3) by (simp add: sbnet_bbuf_make_room_def Let_def)
  have "length ([] :: byte list) + unat suggested < 2 ^ 64" using unsigned_less [of suggested] by simp
  from make_room_rep [OF xs this, of env] noexit obtain b where
    b: "sbnet_bbuf_make_room env (read_buf n) suggested = ret b" "buf_rep b []" "suggested \<le> rem b" by blast
  let ?n = "n\<lparr>read_buf := b\<rparr>"
  have "pending ?n []" using b(2) assms(2) by (auto simp: pending_def)
  moreover have "length bs \<le> unat (rem (read_buf ?n))" using b(3) assms(4) by (simp add: word_le_nat_alt)
  ultimately obtain b2 where "uv_store b bs = Some b2" "pending (count_read (of_nat (length bs)) (?n\<lparr>read_buf := b2\<rparr>)) bs"
    using pending_store [of ?n "[]" bs] by auto
  with b(1) show ?thesis by (intro exI [of _ ?n] exI [of _ b2]) (simp add: sbnet_alloc_cb_def)
qed

text \<open>C4. A read that brings exactly one packet to an empty buffer, on a connection without compression, for an event with callbacks, when the
  memory is granted and there are fibers and room for the callbacks: the loop of \<^verbatim>\<open>sbnet_read_cb\<close> decodes the packet, takes the lock of the
  plugin once and has released it when it emits the event of the packet's id on the handle that was registered for it; every callback of the
  event is queued with the decoded packet, and the fiber jumps and is parked on the counter of the event. When it is resumed, whatever the
  callbacks have done to the rest of the program, the loop finds the buffer empty and ends without another call of a lock.\<close>

theorem packet_delivered:
  assumes "pending (net s) []" and "next_packet_size (net s) = NO_SIZE" and "compression (net s) = uncompressed" and "sendable_frame f"
    and "length (frame f) \<le> unat suggested" and "uv_eof < 0" and "\<forall>n. mal env n"
    and "decode (proto_state (net s)) (fst f) (snd f) (of_nat (length (snd f))) = Some pak" and "handle_at pr (net s) (fst f) = Some h"
    and "core_rep (core (runs s)) rs" and "unat h < length rs" and "rs ! unat h = (nom, slots, frees)" and "slots \<noteq> []" and "length slots < 2 ^ 31"
    and "holds k (n + length slots) (sched (runs s)) l" and "pool l = map FiberAt is @ ps" and "length is = length slots"
    and "distinct is" and "length (mids l) + length slots \<le> 2 ^ k"
  shows "\<exists>s' w. read_chunk env z mk pr decode i c uv_eof suggested (frame f) s = ret (True, True, s') \<and>
    lock_calls (core (runs s')) = lock_calls (core (runs s)) @
      [Wrlock NetLock, Wrunlock NetLock, Rdlock EventLock, Rdlock (EntryLock (unat h)), Rdunlock (EntryLock (unat h)), Rdunlock EventLock] \<and>
    core_rep (core (runs s')) rs \<and> list_all2 (queued_callback mk c pak h (runs s')) is slots \<and>
    parked i c (length slots) (sched (runs s')) w \<and> holds k n w (l\<lparr>mids := mids l @ map FiberAt is, pool := ps\<rparr>) \<and>
    pending (net s') [] \<and> next_packet_size (net s') = NO_SIZE \<and> compression (net s') = uncompressed \<and>
    handles (net s') = handles (net s) \<and> proto_state (net s') = proto_state (net s) \<and>
    (\<forall>t. read_buf (net t) = read_buf (net s') \<and> next_packet_size (net t) = NO_SIZE \<longrightarrow>
      read_round env z mk pr decode i c t = ret (False, False, t))"
proof -
  from chunk_stored [OF assms(1,2,7,5)] obtain n1 b where n1: "sbnet_alloc_cb env (net s) suggested = ret n1" "uv_store (read_buf n1) (frame f) = Some b"
    "pending (count_read (of_nat (length (frame f))) (n1\<lparr>read_buf := b\<rparr>)) (frame f)"
    "compression n1 = compression (net s)" "handles n1 = handles (net s)" "proto_state n1 = proto_state (net s)" by blast
  let ?n2 = "count_read (of_nat (length (frame f))) (n1\<lparr>read_buf := b\<rparr>)"
  let ?s1 = "(lock_net (Wrlock NetLock) (s\<lparr>net := n1\<lparr>read_buf := b\<rparr>\<rparr>))\<lparr>net := ?n2\<rparr>"
  have start: "read_cb_start uv_eof (int (length (frame f))) (s\<lparr>net := n1\<lparr>read_buf := b\<rparr>\<rparr>) = ret (True, ?s1)"
    using assms(6) by (simp add: read_cb_start_def Let_def lock_net_def)
  have n2: "compression ?n2 = uncompressed" "handles ?n2 = handles (net s)" "proto_state ?n2 = proto_state (net s)"
    using n1(4-6) assms(3) by (simp_all add: count_read_def)
  have "pending ?n2 (frame f @ [])" using n1(3) by simp
  from frame_delivered [OF this assms(4) n2(1) assms(7), of z] obtain n3 where
    n3: "next_packet env z ?n2 = ret (Some (as_packet f), n3)" "pending n3 []" "compression n3 = uncompressed" by blast
  have keep: "handles n3 = handles (net s)" "proto_state n3 = proto_state (net s)" using next_packet_keeps [OF n3(1)] n2 by simp_all
  have size: "next_packet_size n3 = NO_SIZE" using n3(1) by (auto simp: next_packet_def bind_result_ret split: if_splits)
  have at: "handle_at pr n3 (fst f) = Some h" using assms(9) unfolding handle_at_def keep .
  let ?s2 = "lock_net (Wrunlock NetLock) (?s1\<lparr>net := n3\<rparr>)"
  let ?r = "declare_count c (runs ?s2)"
  have r: "core_rep (core ?r) rs" "sched ?r = sched (runs s)"
    "lock_calls (core ?r) = lock_calls (core (runs s)) @ [Wrlock NetLock, Wrunlock NetLock]"
    using assms(10) by (simp_all add: declare_count_def lock_net_def lock_defs)
  from emit_waits [OF r(1) assms(11,12,7,13,14) assms(15) [folded r(2)] assms(16-19), of mk pak c i] obtain r1 r2 w where
    e: "sbev_emit_event env mk h pak (Some c) ?r = ret r1" "wait_count i c r1 = ret (True, r2)"
      "list_all2 (queued_callback mk c pak h r2) is slots" "parked i c (length slots) (sched r2) w"
      "holds k n w (l\<lparr>mids := mids l @ map FiberAt is, pool := ps\<rparr>)" "core_rep (core r2) rs" by blast
  have locks: "lock_calls (core r2) = lock_calls (core (runs s)) @
      [Wrlock NetLock, Wrunlock NetLock, Rdlock EventLock, Rdlock (EntryLock (unat h)), Rdunlock (EntryLock (unat h)), Rdunlock EventLock]"
    using emit_locks [OF e(1)] wait_locks [OF e(2)] r(3) by simp
  let ?s' = "?s2\<lparr>runs := r2\<rparr>"
  have net: "net ?s' = n3" by (simp add: lock_net_def)
  have "read_round env z mk pr decode i c ?s1 = ret (True, True, ?s')"
    using n3(1) keep(2) assms(8) at e(1,2) by (simp add: read_round_def as_packet_def Let_def)
  then have "read_chunk env z mk pr decode i c uv_eof suggested (frame f) s = ret (True, True, ?s')"
    using n1(1,2) start by (simp add: read_chunk_def)
  moreover have "read_round env z mk pr decode i c t = ret (False, False, t)"
    if "read_buf (net t) = read_buf (net ?s')" "next_packet_size (net t) = NO_SIZE" for t
  proof -
    have "buf_rep (read_buf n3) []" using n3(2) size by (auto simp: pending_def NO_SIZE_def)
    then have "in_use (read_buf (net t)) = 0" using that(1) net by (simp add: buf_rep_def unat_eq_0)
    then show ?thesis using that(2)
      by (simp add: read_round_def next_packet_def read_size_def walk_varint_spec Let_def)
  qed
  ultimately show ?thesis using e(3-6) locks n3(2,3) size keep net by (intro exI [of _ ?s'] exI [of _ w]) simp
qed

text \<open>A read that completes two packets unlocks the plugin twice although it was locked once: no matter what the callbacks of the
  first packet do, as long as they release what they lock.\<close>

theorem second_packet_unlocks_again:
  assumes "read_cb_start uv_eof nread s = ret (True, s1)" and "read_round env z mk pr decode i c s1 = ret (True, j, s2)"
    and "locks_released (core (runs s2)) (core (runs s3))" and "read_round env z mk pr decode i c s3 = ret (True, j', s4)"
  shows "\<exists>cs. lock_calls (core (runs s4)) = lock_calls (core (runs s)) @ cs \<and> held [] cs = None"
proof -
  have 1: "lock_calls (core (runs s1)) = lock_calls (core (runs s)) @ [Wrlock NetLock]"
    using assms(1) by (auto simp: read_cb_start_def Let_def lock_net_def lock_defs split: if_splits)
  from round_locks [OF assms(2)] obtain k where 2: "lock_calls (core (runs s2)) = lock_calls (core (runs s1)) @
    [Wrunlock NetLock, Rdlock EventLock, Rdlock (EntryLock k), Rdunlock (EntryLock k), Rdunlock EventLock]" by blast
  from assms(3) obtain ds where 3: "lock_calls (core (runs s3)) = lock_calls (core (runs s2)) @ ds" "\<forall>st. held st ds = Some st"
    by (auto simp: locks_released_def)
  from round_locks [OF assms(4)] obtain k' where 4: "lock_calls (core (runs s4)) = lock_calls (core (runs s3)) @
    [Wrunlock NetLock, Rdlock EventLock, Rdlock (EntryLock k'), Rdunlock (EntryLock k'), Rdunlock EventLock]" by blast
  let ?a = "[Wrlock NetLock, Wrunlock NetLock, Rdlock EventLock, Rdlock (EntryLock k), Rdunlock (EntryLock k), Rdunlock EventLock]"
  let ?b = "[Wrunlock NetLock, Rdlock EventLock, Rdlock (EntryLock k'), Rdunlock (EntryLock k'), Rdunlock EventLock]"
  have "lock_calls (core (runs s4)) = lock_calls (core (runs s)) @ (?a @ ds @ ?b)" using 1 2 3(1) 4 by simp
  moreover have "held [] (?a @ ds @ ?b) = None" using 3(2) by (simp add: held_append)
  ultimately show ?thesis by blast
qed

text \<open>A packet for whose event nobody has registered a callback is undefined behaviour: the local counter that is waited for has
  never been set.\<close>

theorem silent_packet_undefined:
  assumes "pending (net s) (frame f @ rest)" and "sendable_frame f" and "compression (net s) = uncompressed" and "\<forall>n. mal env n"
    and "core_rep (core (runs s)) es" and "handle_at pr (net s) (fst f) = Some h" and "unat h < length es"
    and "es ! unat h = (nom, [], [])" and "decode (proto_state (net s)) (fst f) (snd f) (of_nat (length (snd f))) = Some pak"
  shows "read_round env z mk pr decode i c s = None"
proof -
  from frame_delivered [OF assms(1-4), of z] obtain n where n: "next_packet env z (net s) = ret (Some (as_packet f), n)" by blast
  from next_packet_keeps [OF n] have keep: "proto_state n = proto_state (net s)" "handle_at pr n (fst f) = Some h"
    using assms(6) by (auto simp: handle_at_def split: if_splits)
  let ?r = "declare_count c (runs (lock_net (Wrunlock NetLock) (s\<lparr>net := n\<rparr>)))"
  have "core_rep (core ?r) es" using assms(5) by (simp add: declare_count_def lock_net_def lock_defs)
  from emit_silent [OF this assms(7,8), of env mk pak "Some c"] obtain r where
    r: "sbev_emit_event env mk h pak (Some c) ?r = ret r" "inited r = inited ?r" by blast
  have "c \<notin> set (inited r)" unfolding r(2) by (simp add: declare_count_def)
  then have "wait_count i c r = None" by (simp add: wait_count_def)
  with n keep assms(9) r(1) show ?thesis by (simp add: read_round_def as_packet_def Let_def)
qed

definition demo_proto :: proto where
  "demo_proto = \<lparr>protocol_strings = [], toclient_id = 0, handshaking_id = 0, login_id = 0, play_id = 0\<rparr>"

definition no_zlib :: zlib where
  "no_zlib = \<lparr>zinit = False, zinflate = \<lambda>_ _. None\<rparr>"

text \<open>Two packets of one byte have been stored and not yet been counted; their event is the third one.\<close>

definition demo_net :: "u64 \<Rightarrow> netcore" where
  "demo_net used = \<lparr>read_buf = \<lparr>base = [Some 1, Some 0, Some 1, Some 0], buf_cur = 0, buf_len = 4, in_use = used, rem = 4 - used\<rparr>,
     next_packet_size = NO_SIZE, compression = uncompressed, threshold = 0, proto_state = 0, handles = [[[2]]]\<rparr>"

theorem silent_packet_undefined_witness:
  "read_round granted no_zlib (\<lambda>_ _ p. p) demo_proto (\<lambda>_ _ _ _. Some 5) 0 3
     \<lparr>runs = \<lparr>core = booted, sched = started, args = [], inited = []\<rparr>, net = demo_net 4\<rparr> = None"
proof -
  have f: "frame (0, []) = [1, 0]" "sendable_frame (0, [])"
    by (simp_all add: frame_def frame_size_def leb128_small sendable_frame_def)
  have "pending (demo_net 4) (frame (0, []) @ [1, 0])"
    unfolding pending_def by (intro exI [of _ "[1, 0, 1, 0]"]) (simp add: f demo_net_def buf_rep_def)
  then show ?thesis
    by (intro silent_packet_undefined [of _ "(0, [])" "[1, 0]" _ booted_view _ 2 str_kill _ 5])
      (simp_all add: f booted_ok granted_def, simp_all add: demo_net_def handle_at_def demo_proto_def)
qed

definition kill_watched :: eventcore where
  "kill_watched = (case sbev_reg_cb granted 2 (Some 7) 0 booted of Some (Returned (_, ev)) \<Rightarrow> ev | _ \<Rightarrow> booted)"

lemma kill_watched_ok: "core_rep kill_watched [(str_start, [], []), (str_tick, [], []), (str_kill, [(Some 7, 0)], [])]"
  using reg_cb_core [OF booted_ok(1), of 2 str_kill "[]" "[]" "Some 7" 0 0 "[(Some 7, 0)]" "[]" 2 granted]
  by (auto simp: kill_watched_def ret_def)

theorem packet_delivered_witness:
  "\<exists>s' w. read_chunk granted no_zlib (\<lambda>_ _ p. p) demo_proto (\<lambda>_ _ _ _. Some 5) 0 3 (- 4095) 4 [1, 0]
       \<lparr>runs = \<lparr>core = kill_watched, sched = one_free, args = [], inited = []\<rparr>, net = demo_net 0\<rparr> = ret (True, True, s') \<and>
     queued_callback (\<lambda>_ _ p. p) 3 5 2 (runs s') 1 (Some 7, 0) \<and> parked 0 3 1 (sched (runs s')) w \<and> pending (net s') [] \<and>
     read_round granted no_zlib (\<lambda>_ _ p. p) demo_proto (\<lambda>_ _ _ _. Some 5) 0 3 s' = ret (False, False, s')"
proof -
  let ?s = "\<lparr>runs = \<lparr>core = kill_watched, sched = one_free, args = [], inited = []\<rparr>, net = demo_net 0\<rparr>"
  have f: "frame (0, []) = [1, 0]" "sendable_frame (0, [])"
    by (simp_all add: frame_def frame_size_def leb128_small sendable_frame_def)
  have net: "pending (net ?s) []" "next_packet_size (net ?s) = NO_SIZE" "compression (net ?s) = uncompressed"
    by (simp_all add: pending_def demo_net_def buf_rep_def)
  have at: "handle_at demo_proto (net ?s) (fst (0, [])) = Some 2" by (simp add: handle_at_def demo_proto_def demo_net_def)
  have rs: "core_rep (core (runs ?s)) [(str_start, [], []), (str_tick, [], []), (str_kill, [(Some 7, 0)], [])]"
    using kill_watched_ok by simp
  have h: "holds 1 (0 + length [(Some 7, 0) :: nat option \<times> nat]) (sched (runs ?s)) (idle [FiberAt 1])"
    using holds_mono [OF one_free_ok] by simp
  show ?thesis
    using packet_delivered [OF net f(2) _ _ _ _ at rs _ _ _ _ h, of 4 "- 4095" granted "\<lambda>_ _ _ _. Some 5" 5 str_kill "[]" "[1]" "[]"
      no_zlib "\<lambda>_ _ p. p" 0 3]
    by (simp add: f(1) granted_def idle_def) blast
qed

definition demo_client :: client where
  "demo_client = \<lparr>runs = \<lparr>core = kill_watched, sched = started, args = [], inited = []\<rparr>, net = demo_net 0\<rparr>"

definition demo_round :: "client \<Rightarrow> (bool \<times> bool \<times> client) result option" where
  "demo_round s = read_round granted no_zlib (\<lambda>_ _ p. p) demo_proto (\<lambda>_ _ _ _. Some 5) 0 3 s"

definition going_on :: "(bool \<times> 'a) result option \<Rightarrow> 'a option" where
  "going_on r = (case r of Some (Returned (b, s)) \<Rightarrow> if b then Some s else None | _ \<Rightarrow> None)"

lemma going_on_Some: "going_on r = Some s \<longleftrightarrow> r = ret (True, s)"
  by (auto simp: going_on_def ret_def split: option.splits result.splits prod.splits if_splits)

definition delivers_two :: "unit option" where
  "delivers_two =
     do { s1 \<leftarrow> going_on (read_cb_start (- 4095) 4 demo_client);
          (_, s2) \<leftarrow> going_on (demo_round s1);
          _ \<leftarrow> going_on (demo_round s2);
          Some () }"

lemma delivers_two_eval: "delivers_two = Some ()"
  by code_simp

theorem second_packet_unlocks_again_witness:
  "\<exists>s1 s2 s4 j j' cs. read_cb_start (- 4095) 4 demo_client = ret (True, s1) \<and> demo_round s1 = ret (True, j, s2) \<and>
     demo_round s2 = ret (True, j', s4) \<and>
     lock_calls (core (runs s4)) = lock_calls (core (runs demo_client)) @ cs \<and> held [] cs = None"
proof -
  obtain s1 j s2 j' s4 where s: "read_cb_start (- 4095) 4 demo_client = ret (True, s1)" "demo_round s1 = ret (True, j, s2)"
    "demo_round s2 = ret (True, j', s4)"
    using delivers_two_eval by (auto simp: delivers_two_def bind_eq_Some_conv going_on_Some)
  from second_packet_unlocks_again [OF s(1) s(2) [unfolded demo_round_def] locks_released_refl s(3) [unfolded demo_round_def]] s
  show ?thesis by blast
qed

section \<open>The registration of the packets\<close>

lemma bind_result_assoc: "bind_result (bind_result m f) g = bind_result m (\<lambda>x. bind_result (f x) g)"
  by (auto simp: bind_result_def split: option.splits result.splits)

lemma reg_all_append:
  "reg_all reg (xs @ ys) s = bind_result (reg_all reg xs s) (\<lambda>(hs, s). bind_result (reg_all reg ys s) (\<lambda>(gs, s). ret (hs @ gs, s)))"
proof (induction xs arbitrary: s)
  case Nil
  show ?case by (cases "reg_all reg ys s") (auto simp: bind_result_def ret_def split: result.splits)
next
  case (Cons x xs)
  have "reg_all reg ((x # xs) @ ys) s = bind_result (reg x s) (\<lambda>(h, s).
      bind_result (bind_result (reg_all reg xs s) (\<lambda>(hs, s). bind_result (reg_all reg ys s) (\<lambda>(gs, s). ret (hs @ gs, s))))
        (\<lambda>(hs, s). ret (h # hs, s)))"
    by (simp add: Cons)
  then show ?case by (simp add: bind_result_assoc split_def)
qed

text \<open>The nested loops register the names one after the other, in the order of states, directions and ids.\<close>

lemma reg_directions_flat:
  "bind_result (reg_directions env ds ev) (\<lambda>(hss, ev). ret (concat hss, ev)) = reg_all (sbev_reg_event env) (concat ds) ev"
proof (induction ds arbitrary: ev)
  case (Cons ids ds)
  then show ?case by (simp add: reg_all_append Cons.IH [symmetric] bind_result_assoc split_def)
qed simp

lemma reg_states_flat:
  "bind_result (reg_states env ss ev) (\<lambda>(hsss, ev). ret (concat (concat hsss), ev)) =
     reg_all (sbev_reg_event env) (concat (concat ss)) ev"
proof (induction ss arbitrary: ev)
  case (Cons ds ss)
  then show ?case
    by (simp add: reg_all_append Cons.IH [symmetric] reg_directions_flat [of env ds, symmetric] bind_result_assoc split_def)
qed simp

lemma reg_all_length: "reg_all reg noms s = ret (hs, s') \<Longrightarrow> length hs = length noms"
  by (induction noms arbitrary: s hs) (auto simp: bind_result_ret)

lemma reg_directions_shape: "reg_directions env ds ev = ret (hss, ev') \<Longrightarrow> map length hss = map length ds"
  by (induction ds arbitrary: ev hss) (auto simp: bind_result_ret reg_all_length)

lemma reg_states_shape: "reg_states env ss ev = ret (hsss, ev') \<Longrightarrow> map (map length) hsss = map (map length) ss"
  by (induction ss arbitrary: ev hsss) (auto simp: bind_result_ret reg_directions_shape)


text \<open>A protocol of 25 packets in three groups: with the three events of the core the array of events, which starts with 20, has to grow.\<close>

definition letters :: "byte list list" where
  "letters = [[65], [66], [67], [68], [69], [70], [71], [72], [73], [74], [75], [76], [77], [78], [79], [80], [81], [82], [83], [84], [85], [86]]"

lemma letters_facts: "length letters = 22" "distinct letters" "list_all (\<lambda>nom. length nom \<le> 1) letters"
  "\<forall>nom \<in> set letters. nom \<notin> {[97], [98], [99]}"
  by (simp_all add: letters_def)


end
