(* ===== verification/Log.thy ===== *)
theory Log
  imports SdsNum
begin

text \<open>
  \<^verbatim>\<open>log.c\<close>: the log that every part of the program writes to, with the lock that \<^verbatim>\<open>main.c\<close> gives it. A call of \<^verbatim>\<open>log_log\<close> is the sequence of its
  effects: calls of the lock, writes to streams and flushes. The text of the local time in a format and the text that \<^verbatim>\<open>vfprintf\<close> makes of the
  message and its arguments are arguments. \<open>None\<close> is a read outside the tables of level names.

  The theorems give the line of every call, say when a call is undefined, and show that lines of concurrent threads are never mixed.
\<close>

section \<open>Configuration\<close>

text \<open>Functions, user data and streams are named by numbers.\<close>

record log_config =
  L_udata :: nat
  L_lock :: "nat option"
  L_fp :: "nat option"
  L_level :: int
  L_quiet :: int
  L_simple :: int

definition log_set_udata :: "nat \<Rightarrow> log_config \<Rightarrow> log_config" where "log_set_udata udata L = L\<lparr>L_udata := udata\<rparr>"
definition log_set_lock :: "nat option \<Rightarrow> log_config \<Rightarrow> log_config" where "log_set_lock fn L = L\<lparr>L_lock := fn\<rparr>"
definition log_set_fp :: "nat option \<Rightarrow> log_config \<Rightarrow> log_config" where "log_set_fp fp L = L\<lparr>L_fp := fp\<rparr>"
definition log_set_level :: "int \<Rightarrow> log_config \<Rightarrow> log_config" where "log_set_level lev L = L\<lparr>L_level := lev\<rparr>"
definition log_set_quiet :: "int \<Rightarrow> log_config \<Rightarrow> log_config" where "log_set_quiet enable L = L\<lparr>L_quiet := (if enable \<noteq> 0 then 1 else 0)\<rparr>"
definition log_set_simple :: "int \<Rightarrow> log_config \<Rightarrow> log_config" where "log_set_simple enable L = L\<lparr>L_simple := (if enable \<noteq> 0 then 1 else 0)\<rparr>"
definition log_is_simple :: "log_config \<Rightarrow> int" where "log_is_simple L = L_simple L"

section \<open>Writing a message\<close>

datatype stream = Stderr | Stream nat

datatype log_act = CallLock nat nat bool | Fprintf stream "byte list" | Fflush stream

definition text_of :: "string \<Rightarrow> byte list" where "text_of s = map of_char s"

definition level_names :: "byte list list" where
  "level_names = map text_of [''TRACE'', ''DEBUG'', ''INFO'', ''WARN'', ''ERROR'', ''FATAL'']"

definition level_colors :: "byte list list" where
  "level_colors = map (\<lambda>s. 27 # text_of s) [''[94m'', ''[36m'', ''[32m'', ''[33m'', ''[31m'', ''[35m'']"

definition table_entry :: "byte list list \<Rightarrow> int \<Rightarrow> byte list option" where
  "table_entry ts i = (if 0 \<le> i \<and> nat i < length ts then Some (ts ! nat i) else None)"

text \<open>\<^verbatim>\<open>%-5s\<close>.\<close>

definition pad5 :: "byte list \<Rightarrow> byte list" where
  "pad5 bs = bs @ replicate (5 - length bs) 32"

text \<open>\<^verbatim>\<open>buf[strftime(buf, n, ...)] = 0\<close> as a string: a text that does not fit leaves it empty.\<close>

definition time_text :: "nat \<Rightarrow> byte list \<Rightarrow> byte list" where
  "time_text n t = (if length t < n then t else [])"

definition call_log_lock :: "bool \<Rightarrow> log_config \<Rightarrow> log_act list" where
  "call_log_lock b L = (case L_lock L of None \<Rightarrow> [] | Some fn \<Rightarrow> [CallLock fn (L_udata L) b])"

definition log_stderr :: "log_config \<Rightarrow> byte list \<Rightarrow> int \<Rightarrow> byte list \<Rightarrow> int \<Rightarrow> byte list \<Rightarrow> log_act list option" where
  "log_stderr L hms lev file line msg = do {
     colour \<leftarrow> table_entry level_colors lev;
     nm \<leftarrow> table_entry level_names lev;
     Some [Fprintf Stderr (time_text 16 hms @ [32] @ colour @ pad5 nm @ 27 # text_of ''[0m''),
       Fprintf Stderr (if L_simple L = 0 then 32 # 27 # text_of ''[90m'' @ file @ [58] @ number_text line @ [58, 27] @ text_of ''[0m '' else text_of '': ''),
       Fprintf Stderr msg, Fprintf Stderr [10], Fflush Stderr] }"

definition log_file :: "nat \<Rightarrow> byte list \<Rightarrow> int \<Rightarrow> byte list \<Rightarrow> int \<Rightarrow> byte list \<Rightarrow> log_act list option" where
  "log_file f ymd lev file line msg = do {
     nm \<leftarrow> table_entry level_names lev;
     Some [Fprintf (Stream f) (time_text 32 ymd @ [32] @ pad5 nm @ [32] @ file @ [58] @ number_text line @ text_of '': ''),
       Fprintf (Stream f) msg, Fprintf (Stream f) [10], Fflush (Stream f)] }"

definition log_log ::
  "log_config \<Rightarrow> (string \<Rightarrow> byte list) \<Rightarrow> int \<Rightarrow> byte list \<Rightarrow> int \<Rightarrow> byte list \<Rightarrow> log_act list option" where
  "log_log L local_time lev file line msg =
     (if lev < L_level L then Some []
      else do {
        err \<leftarrow> (if L_quiet L = 0 then log_stderr L (local_time ''%H:%M:%S'') lev file line msg else Some []);
        out \<leftarrow> (case L_fp L of None \<Rightarrow> Some [] | Some f \<Rightarrow> log_file f (local_time ''%Y-%m-%d %H:%M:%S'') lev file line msg);
        Some (call_log_lock True L @ err @ out @ call_log_lock False L) })"

definition LOG_TRACE :: int where "LOG_TRACE = 0"
definition LOG_DEBUG :: int where "LOG_DEBUG = 1"
definition LOG_INFO :: int where "LOG_INFO = 2"
definition LOG_WARN :: int where "LOG_WARN = 3"
definition LOG_ERROR :: int where "LOG_ERROR = 4"
definition LOG_FATAL :: int where "LOG_FATAL = 5"

section \<open>Threads\<close>

text \<open>
  Threads that log, each with the effects it has still to perform. \<^verbatim>\<open>log_lock\<close> of \<^verbatim>\<open>main.c\<close> locks or unlocks a mutex: locking waits until nobody
  holds it. The state is the holder, the effects performed so far and what is left.
\<close>

inductive log_step :: "nat option \<times> log_act list \<times> (nat \<Rightarrow> log_act list) \<Rightarrow> nat option \<times> log_act list \<times> (nat \<Rightarrow> log_act list) \<Rightarrow> bool" where
  Lock: "log_step (None, out, T) (Some t, out, T(t := as))" if "T t = CallLock fn ud True # as"
| Unlock: "log_step (Some t, out, T) (None, out, T(t := as))" if "T t = CallLock fn ud False # as"
| Effect: "log_step (h, out, T) (h, out @ [a], T(t := as))" if "T t = a # as" and "\<forall>fn ud b. a \<noteq> CallLock fn ud b"

inductive_cases log_stepE: "log_step s s'"

section \<open>The text of a call\<close>

fun written :: "stream \<Rightarrow> log_act list \<Rightarrow> byte list" where
  "written s [] = []"
| "written s (Fprintf s' bs # as) = (if s' = s then bs else []) @ written s as"
| "written s (a # as) = written s as"

lemma written_append [simp]: "written s (as @ bs) = written s as @ written s bs"
  by (induction s as rule: written.induct) simp_all

lemma written_lock [simp]: "written s (call_log_lock b L) = []"
  by (simp add: call_log_lock_def split: option.split)

lemma table_entry_levels [simp]:
  "table_entry level_names lev = (if 0 \<le> lev \<and> lev \<le> 5 then Some (level_names ! nat lev) else None)"
  "table_entry level_colors lev = (if 0 \<le> lev \<and> lev \<le> 5 then Some (level_colors ! nat lev) else None)"
  by (auto simp: table_entry_def level_names_def level_colors_def)

text \<open>The effects between the two calls of the lock.\<close>

definition log_body :: "log_config \<Rightarrow> (string \<Rightarrow> byte list) \<Rightarrow> int \<Rightarrow> byte list \<Rightarrow> int \<Rightarrow> byte list \<Rightarrow> log_act list" where
  "log_body L local_time lev file line msg =
     (if L_quiet L = 0 then the (log_stderr L (local_time ''%H:%M:%S'') lev file line msg) else []) @
     (case L_fp L of None \<Rightarrow> [] | Some f \<Rightarrow> the (log_file f (local_time ''%Y-%m-%d %H:%M:%S'') lev file line msg))"

lemma log_log_body:
  "0 \<le> lev \<Longrightarrow> lev \<le> 5 \<Longrightarrow> L_level L \<le> lev \<Longrightarrow>
     log_log L local_time lev file line msg = Some (call_log_lock True L @ log_body L local_time lev file line msg @ call_log_lock False L)"
  by (auto simp: log_log_def log_body_def log_stderr_def log_file_def split: option.split)

lemma log_body_no_lock: "0 \<le> lev \<Longrightarrow> lev \<le> 5 \<Longrightarrow> CallLock fn ud b \<notin> set (log_body L local_time lev file line msg)"
  by (auto simp: log_body_def log_stderr_def log_file_def split: option.split)

section \<open>Whole lines\<close>

text \<open>What a thread does for a list of calls, and the invariant: \<open>out\<close> is the effects of whole calls but for the part \<open>q\<close> that the holder of the lock
  has still to perform, and every thread has performed a prefix of its calls.\<close>

type_synonym log_args = "(string \<Rightarrow> byte list) \<times> int \<times> byte list \<times> int \<times> byte list"

definition loud :: "log_config \<Rightarrow> log_args \<Rightarrow> bool" where
  "loud L c \<longleftrightarrow> (case c of (_, lev, _) \<Rightarrow> 0 \<le> lev \<and> lev \<le> 5 \<and> L_level L \<le> lev)"

definition log_call :: "log_config \<Rightarrow> log_args \<Rightarrow> log_act list" where
  "log_call L c = (case c of (local_time, lev, file, line, msg) \<Rightarrow> case log_log L local_time lev file line msg of None \<Rightarrow> [] | Some as \<Rightarrow> as)"

definition call_body :: "log_config \<Rightarrow> log_args \<Rightarrow> log_act list" where
  "call_body L c = (case c of (local_time, lev, file, line, msg) \<Rightarrow> log_body L local_time lev file line msg)"

definition lockless :: "log_act list \<Rightarrow> bool" where
  "lockless as \<longleftrightarrow> (\<forall>fn ud b. CallLock fn ud b \<notin> set as)"

definition of_thread :: "nat \<Rightarrow> (nat \<times> log_args) list \<Rightarrow> log_args list" where
  "of_thread t dn = map snd (filter (\<lambda>p. fst p = t) dn)"

definition log_inv :: "log_config \<Rightarrow> nat \<Rightarrow> (nat \<Rightarrow> log_args list) \<Rightarrow> nat option \<times> log_act list \<times> (nat \<Rightarrow> log_act list) \<Rightarrow> bool" where
  "log_inv L fn calls s \<longleftrightarrow> (case s of (h, out, T) \<Rightarrow>
     \<exists>dn left q. out @ q = concat (map (\<lambda>p. call_body L (snd p)) dn) \<and> (h = None \<longrightarrow> q = []) \<and> lockless q \<and>
       (\<forall>t. T t = (if h = Some t then q @ [CallLock fn (L_udata L) False] else []) @ concat (map (log_call L) (left t))) \<and>
       (\<forall>t. calls t = of_thread t dn @ left t))"

lemma of_thread_snoc: "of_thread t (dn @ [(u, c)]) = of_thread t dn @ (if u = t then [c] else [])"
  by (simp add: of_thread_def)

lemma log_call_bracket:
  "L_lock L = Some fn \<Longrightarrow> loud L c \<Longrightarrow>
     log_call L c = CallLock fn (L_udata L) True # call_body L c @ [CallLock fn (L_udata L) False] \<and> lockless (call_body L c)"
  by (cases c) (simp add: loud_def log_call_def log_log_body call_body_def lockless_def log_body_no_lock call_log_lock_def)

lemma log_inv_step:
  assumes "log_step s s'" and "log_inv L fn calls s" and L: "L_lock L = Some fn" and loud: "\<forall>t. \<forall>c \<in> set (calls t). loud L c"
  shows "log_inv L fn calls s'"
proof -
  obtain h out T where s: "s = (h, out, T)" by (cases s)
  from assms(2) obtain dn left q where i: "out @ q = concat (map (\<lambda>p. call_body L (snd p)) dn)" "h = None \<longrightarrow> q = []" "lockless q"
    "\<And>t. T t = (if h = Some t then q @ [CallLock fn (L_udata L) False] else []) @ concat (map (log_call L) (left t))"
    "\<And>t. calls t = of_thread t dn @ left t" by (auto simp: log_inv_def s)
  have br: "log_call L c = CallLock fn (L_udata L) True # call_body L c @ [CallLock fn (L_udata L) False] \<and> lockless (call_body L c)"
    if "c \<in> set (left t)" for c t
  proof -
    have "c \<in> set (calls t)" using that by (simp add: i(5))
    with loud have "loud L c" by blast
    with log_call_bracket [OF L] show ?thesis .
  qed
  have waiting: "concat (map (log_call L) (left t)) = a # as \<Longrightarrow> \<exists>c cs. left t = c # cs \<and> a = CallLock fn (L_udata L) True \<and>
      as = call_body L c @ [CallLock fn (L_udata L) False] @ concat (map (log_call L) cs) \<and> lockless (call_body L c)" for t a as
    using br [of _ t] by (cases "left t") auto
  show ?thesis using assms(1) unfolding s
  proof cases
    case (Lock t f u as)
    from waiting [of t "CallLock f u True" as] i(4) [of t] Lock obtain c cs where
      c: "left t = c # cs" "as = call_body L c @ [CallLock fn (L_udata L) False] @ concat (map (log_call L) cs)" "lockless (call_body L c)" by auto
    have "out = concat (map (\<lambda>p. call_body L (snd p)) dn)" using i(1,2) Lock by simp
    with c i(4,5) Lock show ?thesis unfolding log_inv_def
      by (intro case_prodI2 exI [of _ "dn @ [(t, c)]"] exI [of _ "left(t := cs)"] exI [of _ "call_body L c"]) (auto simp: of_thread_snoc)
  next
    case (Unlock t f u as)
    have "q = []" using i(4) [of t] Unlock i(3) by (cases q) (auto simp: lockless_def)
    with i Unlock show ?thesis unfolding log_inv_def
      by (intro case_prodI2 exI [of _ dn] exI [of _ left] exI [of _ "[]"]) (auto simp: lockless_def)
  next
    case (Effect t a as)
    have h: "h = Some t" using waiting [of t a as] i(4) [of t] Effect by (auto split: if_splits)
    then obtain q' where q: "q = a # q'" "as = q' @ [CallLock fn (L_udata L) False] @ concat (map (log_call L) (left t))"
      using i(4) [of t] Effect by (cases q) auto
    with i h Effect show ?thesis unfolding log_inv_def
      by (intro case_prodI2 exI [of _ dn] exI [of _ left] exI [of _ q']) (auto simp: lockless_def)
  qed
qed

lemma log_inv_start: "log_inv L fn calls (None, [], \<lambda>t. concat (map (log_call L) (calls t)))"
  unfolding log_inv_def by (intro case_prodI2 exI [of _ "[]"] exI [of _ calls]) (auto simp: lockless_def of_thread_def)

lemma log_inv_reachable:
  assumes "rtranclp log_step (None, [], \<lambda>t. concat (map (log_call L) (calls t))) s" and "L_lock L = Some fn" and "\<forall>t. \<forall>c \<in> set (calls t). loud L c"
  shows "log_inv L fn calls s"
  using assms(1) by (induction rule: rtranclp_induct) (use log_inv_start log_inv_step assms(2,3) in blast)+

lemma written_concat: "written dev (concat xss) = concat (map (written dev) xss)"
  by (induction xss) simp_all

lemma written_call: "L_lock L = Some fn \<Longrightarrow> loud L c \<Longrightarrow> written dev (log_call L c) = written dev (call_body L c)"
  using log_call_bracket [of L fn c] by simp

section \<open>Properties\<close>

text \<open>C33. Once the log has a lock, as \<^verbatim>\<open>main.c\<close> gives it, messages of concurrent threads are not mixed: whatever the interleaving, when all threads are
  done every stream holds whole messages one after the other, those of a thread in the order it wrote them, and until then some thread can go on.\<close>

theorem log_lines_whole:
  assumes "L_lock L = Some fn" and "\<forall>t. \<forall>c \<in> set (calls t). loud L c"
    and "rtranclp log_step (None, [], \<lambda>t. concat (map (log_call L) (calls t))) (h, out, T)"
  shows "if \<forall>t. T t = [] then \<exists>order. (\<forall>t. map snd (filter (\<lambda>p. fst p = t) order) = calls t) \<and>
      (\<forall>f. written f out = concat (map (\<lambda>p. written f (log_call L (snd p))) order))
    else \<exists>s'. log_step (h, out, T) s'"
proof -
  from log_inv_reachable [OF assms(3,1,2)] obtain dn left q where
    i: "out @ q = concat (map (\<lambda>p. call_body L (snd p)) dn)" "h = None \<longrightarrow> q = []" "lockless q"
      "\<And>t. T t = (if h = Some t then q @ [CallLock fn (L_udata L) False] else []) @ concat (map (log_call L) (left t))"
      "\<And>t. calls t = of_thread t dn @ left t" by (auto simp: log_inv_def)
  have br: "log_call L c = CallLock fn (L_udata L) True # call_body L c @ [CallLock fn (L_udata L) False]" if "c \<in> set (calls t)" for c t
    using log_call_bracket [OF assms(1), of c] assms(2) that by blast
  show ?thesis
  proof (cases "\<forall>t. T t = []")
    case True
    have "h = None" using i(4) [of "the h"] True by (cases h) auto
    with i(1,2) have out: "out = concat (map (\<lambda>p. call_body L (snd p)) dn)" by simp
    have left: "left t = []" for t
      using i(4) [of t] True br [of _ t] i(5) [of t] by (cases "left t") auto
    have "written f (call_body L (snd p)) = written f (log_call L (snd p))" if "p \<in> set dn" for p f
    proof -
      have "snd p \<in> set (calls (fst p))" using that i(5) [of "fst p"] by (auto simp: of_thread_def)
      then show ?thesis using written_call [OF assms(1)] assms(2) by simp
    qed
    then have "written f out = concat (map (\<lambda>p. written f (log_call L (snd p))) dn)" for f
      by (simp add: out written_concat comp_def cong: map_cong)
    with True i(5) left show ?thesis by (auto simp: of_thread_def)
  next
    case False
    have "\<exists>s'. log_step (h, out, T) s'"
    proof (cases h)
      case None
      from False obtain t where "T t \<noteq> []" by blast
      with i(4) [of t] br [of _ t] i(5) [of t] None obtain as where "T t = CallLock fn (L_udata L) True # as" by (cases "left t") auto
      with None show ?thesis by (auto intro: Lock)
    next
      case (Some t)
      show ?thesis
      proof (cases q)
        case Nil
        with i(4) [of t] Some show ?thesis by (auto intro: Unlock)
      next
        case (Cons a q')
        with i(4) [of t] Some have "T t = a # q' @ [CallLock fn (L_udata L) False] @ concat (map (log_call L) (left t))" by simp
        moreover have "\<forall>fn ud b. a \<noteq> CallLock fn ud b" using i(3) Cons by (auto simp: lockless_def)
        ultimately show ?thesis by (blast intro: Effect)
      qed
    qed
    with False show ?thesis by (simp only: if_False)
  qed
qed

definition main_log :: log_config where
  "main_log = \<lparr>L_udata = 7, L_lock = Some 1, L_fp = None, L_level = 0, L_quiet = 0, L_simple = 1\<rparr>"

lemma log_lines_whole_witness:
  "\<exists>s'. log_step (None, [], \<lambda>t. concat (map (log_call main_log) (if t < 2 then [(\<lambda>_. [48], LOG_INFO, [], 1, [65 + of_nat t])] else []))) s'"
proof -
  let ?calls = "\<lambda>t :: nat. if t < 2 then [(\<lambda>_ :: string. [48 :: byte], LOG_INFO, [] :: byte list, 1 :: int, [65 + of_nat t :: byte])] else []"
  have "loud main_log c" if "c \<in> set (?calls t)" for t c using that by (auto simp: loud_def main_log_def LOG_INFO_def split: if_splits)
  with log_lines_whole [of main_log 1 ?calls None "[]" "\<lambda>t. concat (map (log_call main_log) (?calls t))"]
  have *: "if \<forall>t. concat (map (log_call main_log) (?calls t)) = [] then
      \<exists>order. (\<forall>t. map snd (filter (\<lambda>p. fst p = t) order) = ?calls t) \<and>
        (\<forall>f. written f [] = concat (map (\<lambda>p. written f (log_call main_log (snd p))) order))
    else \<exists>s'. log_step (None, [], \<lambda>t. concat (map (log_call main_log) (?calls t))) s'"
    by (simp add: main_log_def)
  have "concat (map (log_call main_log) (?calls 0)) \<noteq> []"
    by (simp add: log_call_def log_log_def main_log_def call_log_lock_def LOG_INFO_def log_stderr_def)
  then have "\<not> (\<forall>t. concat (map (log_call main_log) (?calls t)) = [])" by blast
  with * show ?thesis by (simp only: if_False)
qed

text \<open>A message of a known level that is not below the threshold is written to the file, if there is one, as one line with date, level, place and text,
  whether or not the output on the terminal is quiet or simple.\<close>

theorem log_file_line:
  assumes "0 \<le> lev" and "lev \<le> 5" and "L_level L \<le> lev" and "L_fp L = Some f"
  shows "\<exists>as. log_log L local_time lev file line msg = Some as \<and>
    written (Stream f) as = time_text 32 (local_time ''%Y-%m-%d %H:%M:%S'') @ [32] @ pad5 (level_names ! nat lev) @ [32] @ file @ [58] @
      number_text line @ text_of '': '' @ msg @ [10]"
  using assms by (simp add: log_log_def log_stderr_def log_file_def)

lemma log_file_line_witness:
  "\<exists>as. log_log (log_set_fp (Some 3) main_log) (\<lambda>_. [48]) LOG_WARN (text_of ''a.c'') 12 (text_of ''hi'') = Some as \<and>
     written (Stream 3) as = text_of ''0 WARN  a.c:12: hi'' @ [10]"
proof -
  have "LOG_WARN = 3" "L_level (log_set_fp (Some 3) main_log) = 0" "L_fp (log_set_fp (Some 3) main_log) = Some 3"
    by (simp_all add: LOG_WARN_def log_set_fp_def main_log_def)
  then have "\<exists>as. log_log (log_set_fp (Some 3) main_log) (\<lambda>_. [48]) LOG_WARN (text_of ''a.c'') 12 (text_of ''hi'') = Some as \<and>
      written (Stream 3) as = time_text 32 [48] @ [32] @ pad5 (level_names ! nat LOG_WARN) @ [32] @ text_of ''a.c'' @ [58] @
      number_text 12 @ text_of '': '' @ text_of ''hi'' @ [10]"
    by (intro log_file_line) simp_all
  moreover have "time_text 32 [48] @ [32] @ pad5 (level_names ! nat LOG_WARN) @ [32] @ text_of ''a.c'' @ [58] @
      number_text 12 @ text_of '': '' @ text_of ''hi'' @ [10] = text_of ''0 WARN  a.c:12: hi'' @ [10]" by code_simp
  ultimately show ?thesis by metis
qed

text \<open>A call of \<^verbatim>\<open>log_log\<close> is undefined exactly if its level passes the threshold, something would be written, and the level is not one of the six.\<close>

theorem log_undefined_iff:
  "log_log L local_time lev file line msg = None \<longleftrightarrow> L_level L \<le> lev \<and> (L_quiet L = 0 \<or> L_fp L \<noteq> None) \<and> \<not> (0 \<le> lev \<and> lev \<le> LOG_FATAL)"
  by (auto simp: log_log_def log_stderr_def log_file_def LOG_FATAL_def split: option.split)

end
