(* ===== verification/Startup.thy ===== *)
theory Startup
  imports NetRun Log
begin

text \<open>
  \<^verbatim>\<open>main.c\<close>: the start of the program. \<^verbatim>\<open>main\<close> gives the log its lock, makes a scheduler of 128 fibers and queues the job \<^verbatim>\<open>run_event\<close>, which a worker
  thread then runs: it initialises the event core and the network plugin and emits the event \<^verbatim>\<open>start\<close>. The number of processors and the results of
  libuv are arguments. The theorems compose the components: the first callback that the program runs is \<^verbatim>\<open>sbnet_start_cb\<close>, and an error of the
  initialisation of the network is not noticed but ends in undefined behaviour.
\<close>

section \<open>Definitions\<close>

text \<open>Addresses of \<^verbatim>\<open>run_event\<close>, \<^verbatim>\<open>log_lock\<close> and the mutex of the log, different from those of \<^verbatim>\<open>sbev_trampoline\<close> and the callbacks.\<close>

definition RUN_EVENT :: nat where "RUN_EVENT = 15"
definition LOG_LOCK :: nat where "LOG_LOCK = 16"
definition LOG_MUX :: nat where "LOG_MUX = 17"

text \<open>\<^verbatim>\<open>main\<close> up to the start of the threads: what it returns, and the log and the scheduler unless it returns early. The queues of a scheduler
  that could not be initialised are null.\<close>

definition main_setup ::
  "env \<Rightarrow> int \<Rightarrow> int \<Rightarrow> log_config \<Rightarrow> (nat \<Rightarrow> fptr cell list option) \<Rightarrow> (nat \<Rightarrow> u64) \<Rightarrow> (nat \<Rightarrow> fiber) \<Rightarrow> (nat \<Rightarrow> vgc_counter) \<Rightarrow>
     (u64 \<Rightarrow> u64 \<Rightarrow> nat \<Rightarrow> nat) \<Rightarrow> (int \<times> (log_config \<times> world) option) result option" where
  "main_setup env cpu_info cpu_count L cells stack obj cts mk =
     (if cpu_info < 0 then ret (- 1, None)
      else let L = log_set_udata LOG_MUX (log_set_lock (Some LOG_LOCK) L) in
           if \<not> mal env (unat (8 * word_of_int cpu_count :: u64)) then Some (Exited (- 1))
           else case vgc_scheduler_init cells stack obj 128 cts of
                  Some (Inr w) \<Rightarrow>
                    bind_result (vgc_enque_job mk (vgc_job_init RUN_EVENT 0 FIBER_HI) None w) (\<lambda>(_, w). ret (0, Some (L, w)))
                | _ \<Rightarrow> None)"

text \<open>\<^verbatim>\<open>run_event\<close>, run by fiber \<open>i\<close>, up to its first wait, with \<open>c\<close> the address of the counter and \<open>me\<close> that of the plugin. What
  \<^verbatim>\<open>sbnet_init_net\<close> returns is ignored.\<close>

definition run_event ::
  "env \<Rightarrow> proto \<Rightarrow> int \<times> int \<Rightarrow> nat \<Rightarrow> (u64 \<Rightarrow> u64 \<Rightarrow> nat \<Rightarrow> nat) \<Rightarrow> nat \<Rightarrow> nat \<Rightarrow> world \<Rightarrow> ((bool \<times> run_state) \<times> netcore option) result option" where
  "run_event env pr uv_init me mk i c w =
     bind_result (sbev_init_event env) (\<lambda>ev.
     bind_result (sbnet_init_net env pr uv_init me ev) (\<lambda>(_, r).
     let ev = (case r of None \<Rightarrow> ev | Some (_, ev) \<Rightarrow> ev) in
     bind_result (sbev_start_event env mk i c \<lparr>core = ev, sched = w, args = [], inited = []\<rparr>) (\<lambda>s. ret (s, map_option fst r))))"

section \<open>Registration on the abstract view\<close>

text \<open>A core of at most \<open>e\<close> events whose first is \<open>r0\<close>, with at most \<open>m\<close> callbacks each.\<close>

definition view :: "nat \<Rightarrow> nat \<Rightarrow> event_view \<Rightarrow> eventcore \<Rightarrow> event_view list \<Rightarrow> bool" where
  "view m e r0 ev rs \<longleftrightarrow> core_rep ev rs \<and> rs \<noteq> [] \<and> rs ! 0 = r0 \<and> length rs \<le> e \<and> (\<forall>r \<in> set rs. length (fst (snd r)) \<le> m)"

lemma add_event_view:
  "add_event nom rs = (h, rs') \<Longrightarrow> rs \<noteq> [] \<Longrightarrow> h < length rs' \<and> fst (rs' ! h) = nom \<and> rs' \<noteq> [] \<and> rs' ! 0 = rs ! 0 \<and>
     length rs' \<le> Suc (length rs) \<and> set rs' \<subseteq> insert (nom, [], []) (set rs)"
  by (auto simp: add_event_def nth_append dest: position_less split: option.splits)

lemma reg_event_view:
  assumes "view m e r0 ev rs" and "e < 2 ^ 50" and "length nom < 2 ^ 64" and "sbev_reg_event env nom ev \<noteq> Some (Exited (- 1))"
  shows "\<exists>h ev' rs'. sbev_reg_event env nom ev = ret (of_nat h, ev') \<and> view m (Suc e) r0 ev' rs' \<and> h < length rs' \<and> fst (rs' ! h) = nom \<and>
    same_handles ev ev'"
proof -
  have v: "core_rep ev rs" "rs \<noteq> []" "rs ! 0 = r0" "length rs \<le> e" "\<forall>r \<in> set rs. length (fst (snd r)) \<le> m"
    using assms(1) by (simp_all add: view_def)
  obtain h rs' where a: "add_event nom rs = (h, rs')" by (cases "add_event nom rs")
  have "length rs < 2 ^ 50" using v(4) assms(2) by simp
  from reg_event_core [OF v(1) this assms(3) a, of env] assms(4) obtain ev' where
    r: "sbev_reg_event env nom ev = ret (of_nat h, ev')" "core_rep ev' rs'" by blast
  note n = add_event_view [OF a v(2)]
  have "length (fst (snd r)) \<le> m" if "r \<in> set rs'" for r using n v(5) that by auto
  with r n v have "view m (Suc e) r0 ev' rs'" by (auto simp: view_def)
  with r(1) n reg_event_handles [OF r(1)] show ?thesis by blast
qed

lemma reg_all_view:
  assumes "view m e r0 ev rs" and "e + length noms \<le> 2 ^ 50" and "list_all (\<lambda>nom. length nom < 2 ^ 64) noms"
    and "reg_all (sbev_reg_event env) noms ev \<noteq> Some (Exited (- 1))"
  shows "\<exists>hs ev' rs'. reg_all (sbev_reg_event env) noms ev = ret (hs, ev') \<and> view m (e + length noms) r0 ev' rs' \<and> same_handles ev ev'"
  using assms
proof (induction noms arbitrary: e ev rs)
  case Nil
  then show ?case by (auto simp: same_handles_def)
next
  case (Cons nom noms)
  have "sbev_reg_event env nom ev \<noteq> Some (Exited (- 1))" "e < 2 ^ 50" "length nom < 2 ^ 64" using Cons.prems(2-4) by auto
  with reg_event_view [OF Cons.prems(1)] obtain h ev1 rs1 where
    r: "sbev_reg_event env nom ev = ret (of_nat h, ev1)" "view m (Suc e) r0 ev1 rs1" "same_handles ev ev1" by blast
  have "reg_all (sbev_reg_event env) noms ev1 \<noteq> Some (Exited (- 1))" using Cons.prems(4) r(1) by auto
  with Cons.IH [OF r(2)] Cons.prems(2,3) obtain hs ev' rs' where
    i: "reg_all (sbev_reg_event env) noms ev1 = ret (hs, ev')" "view m (Suc e + length noms) r0 ev' rs'" "same_handles ev1 ev'" by auto
  have "same_handles ev ev'" using i(3) r(3) by (simp add: same_handles_def)
  with i r(1) show ?case by auto
qed

lemma reg_cb_handles: "sbev_reg_cb env e f d ev = ret (h, ev') \<Longrightarrow> same_handles ev ev'"
  by (auto simp: sbev_reg_cb_def bind_result_ret Let_def lock_defs same_handles_def set_entry_def split: option.splits if_splits)

text \<open>A callback for the first event, or for another one.\<close>

lemma reg_event_cb_view:
  assumes "view m e r0 ev rs" and "e < 2 ^ 50" and "m < 2 ^ 50" and "length nom < 2 ^ 64"
    and "sbev_reg_event_cb env nom f d ev \<noteq> Some (Exited (- 1))"
  shows "\<exists>ev' rs'. sbev_reg_event_cb env nom f d ev = ret ev' \<and> same_handles ev ev' \<and>
    view (Suc m) (Suc e) (if fst r0 = nom then (nom, snd (add_cb (f, d) (snd r0))) else r0) ev' rs'"
proof -
  have "sbev_reg_event env nom ev \<noteq> Some (Exited (- 1))" using assms(5) by (auto simp: sbev_reg_event_cb_def)
  from reg_event_view [OF assms(1,2,4) this] obtain h ev1 rs1 where
    r: "sbev_reg_event env nom ev = ret (of_nat h, ev1)" "view m (Suc e) r0 ev1 rs1" "h < length rs1" "fst (rs1 ! h) = nom"
      "same_handles ev ev1" by blast
  have v: "core_rep ev1 rs1" "rs1 \<noteq> []" "rs1 ! 0 = r0" "length rs1 \<le> Suc e" "\<forall>r \<in> set rs1. length (fst (snd r)) \<le> m"
    using r(2) by (simp_all add: view_def)
  obtain slots frees where rh: "rs1 ! h = (nom, slots, frees)" using r(4) by (metis prod.collapse)
  have sl: "length slots \<le> m" using v(5) nth_mem [OF r(3)] rh by force
  obtain g slots' frees' where c: "add_cb (f, d) (slots, frees) = (g, slots', frees')" by (metis prod.collapse)
  have un: "unat (of_nat h :: u64) = h" using r(3) v(4) assms(2) by (simp add: unat_of_nat64)
  have "sbev_reg_cb env (of_nat h) f d ev1 \<noteq> Some (Exited (- 1))" using assms(5) r(1) by (auto simp: sbev_reg_event_cb_def)
  moreover have "length slots < 2 ^ 50" using sl assms(3) by simp
  ultimately obtain g' ev' where k: "sbev_reg_cb env (of_nat h) f d ev1 = ret (g', ev')" "core_rep ev' (rs1[h := (nom, slots', frees')])"
    using reg_cb_core [OF v(1) r(3) rh _ c un, of env] by blast
  have "length slots' \<le> Suc m" using c sl by (auto split: if_splits)
  then have "\<forall>r \<in> set (rs1[h := (nom, slots', frees')]). length (fst (snd r)) \<le> Suc m"
    using v(5) set_update_subset_insert [of rs1 h "(nom, slots', frees')"] by fastforce
  moreover have "h = 0 \<longleftrightarrow> fst r0 = nom"
  proof
    assume "fst r0 = nom"
    then show "h = 0"
      using core_rep_distinct [OF v(1)] v(2,3) r(3,4) nth_eq_iff_index_eq [of "map fst rs1" h 0] by simp
  qed (use v(3) r(4) in auto)
  then have "rs1[h := (nom, slots', frees')] ! 0 = (if fst r0 = nom then (nom, snd (add_cb (f, d) (snd r0))) else r0)"
    using c arg_cong [OF rh, of snd] v(2,3) by (auto simp del: add_cb.simps)
  ultimately have "view (Suc m) (Suc e) (if fst r0 = nom then (nom, snd (add_cb (f, d) (snd r0))) else r0) ev' (rs1[h := (nom, slots', frees')])"
    using k(2) v(2,4) by (simp add: view_def)
  moreover have "same_handles ev ev'" using r(5) reg_cb_handles [OF k(1)] by (simp add: same_handles_def)
  moreover have "sbev_reg_event_cb env nom f d ev = ret ev'" using r(1) k(1) by (simp add: sbev_reg_event_cb_def)
  ultimately show ?thesis by blast
qed

section \<open>The network plugin\<close>

lemma granted_all [simp]: "mal granted n" "rwlock_init granted l = 0"
  by (simp_all add: granted_def)

lemma alloc_arrays_granted: "alloc_arrays granted ns = ret ()"
  by (induction ns) simp_all

lemma reg_all_granted: "reg_all (sbev_reg_event granted) noms ev \<noteq> Some (Exited x)"
  by (induction noms arbitrary: ev) (auto simp: bind_result_exit)

lemma reg_event_cb_granted: "sbev_reg_event_cb granted nom f d ev \<noteq> Some (Exited x)"
  by (auto simp: sbev_reg_event_cb_def bind_result_exit)

lemma callback_names: "length str_compress < 2 ^ 64" "length str_success < 2 ^ 64" "str_start \<noteq> str_compress" "str_start \<noteq> str_success"
  by (simp_all add: str_compress_def str_success_def str_start_def)

lemma reg_handles_view:
  assumes "view m e r0 ev rs" and "e + length (concat (concat (protocol_strings pr))) \<le> 2 ^ 50"
    and "list_all (\<lambda>nom. length nom < 2 ^ 64) (concat (concat (protocol_strings pr)))"
  shows "\<exists>hs ev' rs'. sbnet_reg_handles granted pr ev = ret (hs, ev') \<and> view m (e + length (concat (concat (protocol_strings pr)))) r0 ev' rs' \<and>
    same_handles ev ev'"
proof -
  from reg_all_view [OF assms reg_all_granted] obtain hs ev' rs' where
    r: "reg_all (sbev_reg_event granted) (concat (concat (protocol_strings pr))) ev = ret (hs, ev')"
      "view m (e + length (concat (concat (protocol_strings pr)))) r0 ev' rs'" "same_handles ev ev'" by blast
  from r(1) reg_states_flat [of granted "protocol_strings pr" ev] obtain hsss where "sbnet_reg_handles granted pr ev = ret (hsss, ev')"
    by (auto simp: bind_result_ret sbnet_reg_handles_def)
  with r(2,3) show ?thesis by blast
qed

lemma init_net_view:
  assumes "view 0 e (str_start, [], []) ev rs" and "e + length (concat (concat (protocol_strings pr))) + 4 < 2 ^ 50"
    and "list_all (\<lambda>nom. length nom < 2 ^ 64) (concat (concat (protocol_strings pr)))" and "0 \<le> fst uv_init" and "0 \<le> snd uv_init"
  shows "\<exists>n ev' rs'. sbnet_init_net granted pr uv_init me ev = ret (0, Some (n, ev')) \<and> same_handles ev ev' \<and>
    core_rep ev' rs' \<and> rs' \<noteq> [] \<and> rs' ! 0 = (str_start, [(Some START_CB, me)], [])"
proof -
  let ?e = "e + length (concat (concat (protocol_strings pr)))"
  have "?e \<le> 2 ^ 50" using assms(2) by simp
  from reg_handles_view [OF assms(1) this assms(3)] obtain hs ev1 rs1 where
    1: "sbnet_reg_handles granted pr ev = ret (hs, ev1)" "view 0 ?e (str_start, [], []) ev1 rs1" "same_handles ev ev1" by blast
  from reg_event_cb_view [OF 1(2) _ _ names_short(1) reg_event_cb_granted, of "Some START_CB" me] assms(2) obtain ev2 rs2 where
    2: "sbev_reg_event_cb granted str_start (Some START_CB) me ev1 = ret ev2" "same_handles ev1 ev2"
      "view 1 (Suc ?e) (str_start, [(Some START_CB, me)], []) ev2 rs2" by auto
  from reg_event_cb_view [OF 2(3) _ _ names_short(2) reg_event_cb_granted, of "Some ONTICK_CB" me] assms(2) names_distinct(1) obtain ev3 rs3 where
    3: "sbev_reg_event_cb granted str_tick (Some ONTICK_CB) me ev2 = ret ev3" "same_handles ev2 ev3"
      "view (Suc 1) (Suc (Suc ?e)) (str_start, [(Some START_CB, me)], []) ev3 rs3" by auto
  from reg_event_cb_view [OF 3(3) _ _ callback_names(1) reg_event_cb_granted, of "Some COMPRESS_CB" me] assms(2) callback_names(3) obtain ev4 rs4 where
    4: "sbev_reg_event_cb granted str_compress (Some COMPRESS_CB) me ev3 = ret ev4" "same_handles ev3 ev4"
      "view (Suc (Suc 1)) (Suc (Suc (Suc ?e))) (str_start, [(Some START_CB, me)], []) ev4 rs4" by auto
  from reg_event_cb_view [OF 4(3) _ _ callback_names(2) reg_event_cb_granted, of "Some SUCCESS_CB" me] assms(2) callback_names(4) obtain ev5 rs5 where
    5: "sbev_reg_event_cb granted str_success (Some SUCCESS_CB) me ev4 = ret ev5" "same_handles ev4 ev5"
      "view (Suc (Suc (Suc 1))) (Suc (Suc (Suc (Suc ?e)))) (str_start, [(Some START_CB, me)], []) ev5 rs5" by auto
  have "same_handles ev ev5" using 1(3) 2(2) 3(2) 4(2) 5(2) by (simp add: same_handles_def)
  moreover have "chk_alloc granted 1 4096 None [] = ret (replicate (array_len 1 4096) (None :: byte option))" by (simp add: chk_alloc_def)
  ultimately show ?thesis using 1(1) 2(1) 3(1) 4(1) 5 assms(4,5)
    by (auto simp: sbnet_init_net_def csb_init_plugin_def sbnet_alloc_handles_def alloc_arrays_granted Let_def view_def)
qed

section \<open>The event start\<close>

lemma start_event_runs:
  assumes "core_rep ev rs" and "rs \<noteq> []" and "rs ! 0 = (nom, [x], [])" and "start_event ev = 0"
    and "holds k (Suc n) w l" and "pool l = FiberAt j # ps" and "length (mids l) < 2 ^ k"
  shows "\<exists>s w'. sbev_start_event granted mk i c \<lparr>core = ev, sched = w, args = [], inited = []\<rparr> = ret (True, s) \<and>
    queued_callback mk c 0 0 s j x \<and> parked i c 1 (sched s) w' \<and> holds k n w' (l\<lparr>mids := mids l @ [FiberAt j], pool := ps\<rparr>)"
proof -
  let ?s = "declare_count c \<lparr>core = ev, sched = w, args = [], inited = []\<rparr>"
  have "core_rep (core ?s) rs" "unat (0 :: u64) < length rs" "rs ! unat (0 :: u64) = (nom, [x], [])" "\<forall>n. mal granted n"
    "holds k (n + length [x]) (sched ?s) l" "pool l = map FiberAt [j] @ ps" "length (mids l) + length [x] \<le> 2 ^ k"
    using assms by (simp_all add: declare_count_def)
  from emit_waits [OF this(1-4) _ _ this(5,6) _ _ this(7), of mk 0 c i] obtain s1 s2 w' where
    "sbev_emit_event granted mk 0 0 (Some c) ?s = ret s1" "wait_count i c s1 = ret (True, s2)"
    "list_all2 (queued_callback mk c 0 0 s2) [j] [x]" "parked i c 1 (sched s2) w'"
    "holds k n w' (l\<lparr>mids := mids l @ [FiberAt j], pool := ps\<rparr>)" by auto
  then show ?thesis using assms(4) by (auto simp: sbev_start_event_def emit_and_wait_def)
qed

section \<open>Properties\<close>

lemma upt_128: "map FiberAt [0..<2 ^ 7] = FiberAt 0 # FiberAt 1 # map FiberAt [2..<128]"
  using upt_conv_Cons [of 0 128] upt_conv_Cons [of 1 128] by (simp add: numeral_2_eq_2 [symmetric] del: upt_Suc)

lemma main_ready:
  assumes "0 \<le> cpu_info" and "list_all (\<lambda>i. \<exists>cs. cells i = Some cs \<and> length cs = 128) [0, 1, 2, 3]"
  shows "\<exists>L' w. main_setup granted cpu_info cpu_count L cells stack obj cts mk = ret (0, Some (L', w)) \<and> L_lock L' = Some LOG_LOCK \<and> L_udata L' = LOG_MUX \<and>
    holds 7 1 w \<lparr>his = [FiberAt 0], mids = [], los = [], pool = FiberAt 1 # map FiberAt [2..<128]\<rparr> \<and>
    fibers w 0 = configured mk (vgc_job_init RUN_EVENT 0 FIBER_HI) None (init_fiber (stack 0) 0 (obj 0))"
proof -
  from init_ready [of 7 2 cells stack obj cts] assms(2) obtain w where
    w: "vgc_scheduler_init cells stack obj 128 cts = Some (Inr w)" "holds 7 2 w (idle (FiberAt 0 # FiberAt 1 # map FiberAt [2..<128]))"
      "fibers w 0 = init_fiber (stack 0) 0 (obj 0)" unfolding upt_128 by auto
  have "holds 7 (Suc 1) w (idle (FiberAt 0 # FiberAt 1 # map FiberAt [2..<128]))" using w(2) by (simp add: numeral_2_eq_2)
  from enque_ok [OF this, of 0 "FiberAt 1 # map FiberAt [2..<128]" "vgc_job_init RUN_EVENT 0 FIBER_HI" HiQ mk None] w(3) obtain w' where
    "vgc_enque_job mk (vgc_job_init RUN_EVENT 0 FIBER_HI) None w = Some (Returned (0, w'))"
    "holds 7 1 w' \<lparr>his = [FiberAt 0], mids = [], los = [], pool = FiberAt 1 # map FiberAt [2..<128]\<rparr>"
    "fibers w' 0 = configured mk (vgc_job_init RUN_EVENT 0 FIBER_HI) None (init_fiber (stack 0) 0 (obj 0))"
    by (auto simp: idle_def vgc_job_init_def ready_of_def)
  with w(1) assms(1) show ?thesis by (simp add: main_setup_def Let_def log_set_udata_def log_set_lock_def)
qed

text \<open>C12. The program starts: when no request for memory or locks is refused, \<^verbatim>\<open>main\<close> leaves a scheduler whose first fiber is set up for \<^verbatim>\<open>run_event\<close>
  and the log with its lock. That fiber is the one a worker thread takes; it initialises core and plugin, emits \<^verbatim>\<open>start\<close> and jumps to wait, and the
  scheduler records it as the waiter of the counter. The next fiber that it takes is set up for \<^verbatim>\<open>sbev_trampoline\<close> (a procedure other than
  \<^verbatim>\<open>run_event\<close>), counted by that counter, and running it calls \<^verbatim>\<open>sbnet_start_cb\<close>, whatever that does, with the plugin as its data and then
  finishes the fiber.\<close>

theorem startup_reaches_start_cb:
  assumes "0 \<le> cpu_info" and "list_all (\<lambda>i. \<exists>cs. cells i = Some cs \<and> length cs = 128) [0, 1, 2, 3]"
    and "length (concat (concat (protocol_strings pr))) + 7 < 2 ^ 50"
    and "list_all (\<lambda>nom. length nom < 2 ^ 64) (concat (concat (protocol_strings pr)))" and "0 \<le> fst uv_init" and "0 \<le> snd uv_init"
  shows "\<exists>L' w w' s n w1 w2. main_setup granted cpu_info cpu_count L cells stack obj cts mk = ret (0, Some (L', w)) \<and> L_lock L' = Some LOG_LOCK \<and>
    next_fiber w = Some (Some (FiberAt 0), w') \<and>
    fibers w' 0 = configured mk (vgc_job_init RUN_EVENT 0 FIBER_HI) None (init_fiber (stack 0) 0 (obj 0)) \<and>
    run_event granted pr uv_init me mk 0 c w' = ret ((True, s), Some n) \<and>
    fstate (fibers (sched s) 0) = FIBER_WAIT \<and> after_jump 0 (sched s) = Some (Returned w1) \<and>
    waiting (counters w1 c) = [Some (FiberAt 0)] \<and> counter (counters w1 c) = 1 \<and> lock (counters w1 c) = 0 \<and>
    next_fiber w1 = Some (Some (FiberAt 1), w2) \<and> TRAMPOLINE \<noteq> RUN_EVENT \<and>
    ctx (fibers w2 1) = mk (stack_base (fibers w2 1)) (stack_limit (fibers w2 1)) TRAMPOLINE \<and> parent_count (fibers w2 1) = Some c \<and>
    (\<forall>call. sbev_trampoline call 1 (s\<lparr>sched := dispatch 1 w2\<rparr>) =
      do { t1 \<leftarrow> call START_CB me 0 0 (s\<lparr>sched := dispatch 1 w2\<rparr>);
           t2 \<leftarrow> free_arg (fdata (fibers w2 1)) t1;
           Some (t2\<lparr>sched := vgc_fiber_finish 1 (sched t2)\<rparr>) })"
proof -
  from main_ready [OF assms(1,2)] obtain L' w where
    w: "main_setup granted cpu_info cpu_count L cells stack obj cts mk = ret (0, Some (L', w))" "L_lock L' = Some LOG_LOCK"
      "holds 7 1 w \<lparr>his = [FiberAt 0], mids = [], los = [], pool = FiberAt 1 # map FiberAt [2..<128]\<rparr>"
      "fibers w 0 = configured mk (vgc_job_init RUN_EVENT 0 FIBER_HI) None (init_fiber (stack 0) 0 (obj 0))" by blast
  from next_priority [OF w(3)] obtain w' where
    w': "next_fiber w = Some (Some (FiberAt 0), w')" "holds 7 (Suc 0) w' \<lparr>his = [], mids = [], los = [], pool = FiberAt 1 # map FiberAt [2..<128]\<rparr>"
      "fibers w' = fibers w" by (auto simp: take_next_def)
  from init_core [of granted] obtain ev where ev: "sbev_init_event granted = ret ev" "core_rep ev booted_view" "start_event ev = 0" by auto
  have "view 0 3 (str_start, [], []) ev booted_view" using ev(2) by (simp add: view_def)
  from init_net_view [OF this _ assms(4-6), of me] assms(3) obtain n ev' rs where
    n: "sbnet_init_net granted pr uv_init me ev = ret (0, Some (n, ev'))" "same_handles ev ev'"
      "core_rep ev' rs" "rs \<noteq> []" "rs ! 0 = (str_start, [(Some START_CB, me)], [])" by auto
  have "start_event ev' = 0" using n(2) ev(3) by (simp add: same_handles_def)
  from start_event_runs [OF n(3-5) this w'(2), of 1 "map FiberAt [2..<128]" mk 0 c] obtain s w1 where
    s: "sbev_start_event granted mk 0 c \<lparr>core = ev', sched = w', args = [], inited = []\<rparr> = ret (True, s)"
      "queued_callback mk c 0 0 s 1 (Some START_CB, me)" "parked 0 c 1 (sched s) w1"
      "holds 7 0 w1 \<lparr>his = [], mids = [FiberAt 1], los = [], pool = map FiberAt [2..<128]\<rparr>" by auto
  from next_priority [OF s(4)] obtain w2 where w2: "next_fiber w1 = Some (Some (FiberAt 1), w2)" "fibers w2 = fibers w1"
    by (auto simp: take_next_def)
  have f: "fibers w2 = fibers (sched s)" using w2(2) s(3) by (simp add: parked_def)
  let ?t = "s\<lparr>sched := dispatch 1 w2\<rparr>"
  have "arg_of 1 ?t = arg_of 1 s" using f by (simp add: arg_of_def dispatch_def Let_def)
  then have "sbev_trampoline call 1 ?t = do { t1 \<leftarrow> call START_CB me 0 0 ?t; t2 \<leftarrow> free_arg (fdata (fibers w2 1)) t1;
      Some (t2\<lparr>sched := vgc_fiber_finish 1 (sched t2)\<rparr>) }" for call
    using s(2) by (simp add: queued_callback_def Let_def dispatch_def)
  moreover have "run_event granted pr uv_init me mk 0 c w' = ret ((True, s), Some n)" using ev(1) n(1) s(1) by (simp add: run_event_def)
  moreover have "ctx (fibers w2 1) = mk (stack_base (fibers w2 1)) (stack_limit (fibers w2 1)) TRAMPOLINE" "parent_count (fibers w2 1) = Some c"
    using s(2) f by (simp_all add: queued_callback_def Let_def)
  moreover have "TRAMPOLINE \<noteq> RUN_EVENT" by (simp add: TRAMPOLINE_def RUN_EVENT_def)
  moreover have "fibers w' 0 = configured mk (vgc_job_init RUN_EVENT 0 FIBER_HI) None (init_fiber (stack 0) 0 (obj 0))" using w(4) w'(3) by simp
  moreover have "fstate (fibers (sched s) 0) = FIBER_WAIT" "after_jump 0 (sched s) = Some (Returned w1)"
    "waiting (counters w1 c) = [Some (FiberAt 0)]" "counter (counters w1 c) = 1" "lock (counters w1 c) = 0"
    using s(3) by (simp_all add: parked_def)
  ultimately show ?thesis using w(1,2) w'(1) w2(1) by blast
qed

lemma startup_reaches_start_cb_witness:
  "\<exists>L' w w' s n w1 w2.
     main_setup granted 0 4 main_log (\<lambda>_. Some (replicate 128 \<lparr>seq = 0, cdata = LocalSlot\<rparr>)) (\<lambda>i. 4096 * of_nat (Suc i)) (\<lambda>_. some_fiber)
       (\<lambda>_. vgc_counter_init 1) (\<lambda>_ _ p. p) = ret (0, Some (L', w)) \<and>
     next_fiber w = Some (Some (FiberAt 0), w') \<and> run_event granted demo_proto (0, 0) 9 (\<lambda>_ _ p. p) 0 3 w' = ret ((True, s), Some n) \<and>
     after_jump 0 (sched s) = Some (Returned w1) \<and> next_fiber w1 = Some (Some (FiberAt 1), w2) \<and> ctx (fibers w2 1) = TRAMPOLINE \<and>
     sbev_trampoline (\<lambda>f d _ _ t. if f = START_CB \<and> d = 9 then None else Some t) 1 (s\<lparr>sched := dispatch 1 w2\<rparr>) = None"
proof -
  have "\<exists>L' w w' s n w1 w2.
     main_setup granted 0 4 main_log (\<lambda>_. Some (replicate 128 \<lparr>seq = 0, cdata = LocalSlot\<rparr>)) (\<lambda>i. 4096 * of_nat (Suc i)) (\<lambda>_. some_fiber)
       (\<lambda>_. vgc_counter_init 1) (\<lambda>_ _ p. p) = ret (0, Some (L', w)) \<and> L_lock L' = Some LOG_LOCK \<and>
     next_fiber w = Some (Some (FiberAt 0), w') \<and>
     fibers w' 0 = configured (\<lambda>_ _ p. p) (vgc_job_init RUN_EVENT 0 FIBER_HI) None (init_fiber (4096 * of_nat (Suc 0)) 0 some_fiber) \<and>
     run_event granted demo_proto (0, 0) 9 (\<lambda>_ _ p. p) 0 3 w' = ret ((True, s), Some n) \<and>
     fstate (fibers (sched s) 0) = FIBER_WAIT \<and> after_jump 0 (sched s) = Some (Returned w1) \<and>
     waiting (counters w1 3) = [Some (FiberAt 0)] \<and> counter (counters w1 3) = 1 \<and> lock (counters w1 3) = 0 \<and>
     next_fiber w1 = Some (Some (FiberAt 1), w2) \<and> TRAMPOLINE \<noteq> RUN_EVENT \<and> ctx (fibers w2 1) = TRAMPOLINE \<and> parent_count (fibers w2 1) = Some 3 \<and>
     (\<forall>call. sbev_trampoline call 1 (s\<lparr>sched := dispatch 1 w2\<rparr>) =
       do { t1 \<leftarrow> call START_CB 9 0 0 (s\<lparr>sched := dispatch 1 w2\<rparr>);
            t2 \<leftarrow> free_arg (fdata (fibers w2 1)) t1;
            Some (t2\<lparr>sched := vgc_fiber_finish 1 (sched t2)\<rparr>) })"
    by (rule startup_reaches_start_cb) (simp_all add: demo_proto_def)
  then obtain L' w w' s n w1 w2 where
    r: "main_setup granted 0 4 main_log (\<lambda>_. Some (replicate 128 \<lparr>seq = 0, cdata = LocalSlot\<rparr>)) (\<lambda>i. 4096 * of_nat (Suc i)) (\<lambda>_. some_fiber)
       (\<lambda>_. vgc_counter_init 1) (\<lambda>_ _ p. p) = ret (0, Some (L', w))"
      "next_fiber w = Some (Some (FiberAt 0), w')" "run_event granted demo_proto (0, 0) 9 (\<lambda>_ _ p. p) 0 3 w' = ret ((True, s), Some n)"
      "after_jump 0 (sched s) = Some (Returned w1)" "next_fiber w1 = Some (Some (FiberAt 1), w2)" "ctx (fibers w2 1) = TRAMPOLINE"
    and call: "\<forall>call. sbev_trampoline call 1 (s\<lparr>sched := dispatch 1 w2\<rparr>) =
       do { t1 \<leftarrow> call START_CB 9 0 0 (s\<lparr>sched := dispatch 1 w2\<rparr>);
            t2 \<leftarrow> free_arg (fdata (fibers w2 1)) t1;
            Some (t2\<lparr>sched := vgc_fiber_finish 1 (sched t2)\<rparr>) }" by blast
  have "sbev_trampoline (\<lambda>f d _ _ t. if f = START_CB \<and> d = 9 then None else Some t) 1 (s\<lparr>sched := dispatch 1 w2\<rparr>) = None"
    using call by simp
  with r show ?thesis by blast
qed

text \<open>C37. \<^verbatim>\<open>run_event\<close> ignores that the initialisation of the network has failed: nobody has then registered a callback for \<^verbatim>\<open>start\<close>, and the wait for
  the counter of that event is undefined, because emitting an event without callbacks does not set it.\<close>

theorem run_event_ignores_error:
  assumes "fst uv_init < 0 \<or> snd uv_init < 0"
  shows "run_event granted pr uv_init me mk i c w = None"
proof -
  from init_core [of granted] obtain ev where ev: "sbev_init_event granted = ret ev" "core_rep ev booted_view" "start_event ev = 0" by auto
  obtain r where n: "sbnet_init_net granted pr uv_init me ev = ret (r, None)"
    using assms by (cases "fst uv_init < 0") (simp_all add: sbnet_init_net_def csb_init_plugin_def chk_alloc_def Let_def)
  let ?s = "declare_count c \<lparr>core = ev, sched = w, args = [], inited = []\<rparr>"
  from emit_silent [of ?s booted_view 0 str_start granted mk 0 "Some c"] ev(2) obtain s where
    "sbev_emit_event granted mk 0 0 (Some c) ?s = ret s" "inited s = inited ?s" by (auto simp: declare_count_def)
  then have "sbev_start_event granted mk i c \<lparr>core = ev, sched = w, args = [], inited = []\<rparr> = None"
    using ev(3) by (simp add: sbev_start_event_def emit_and_wait_def wait_count_def declare_count_def)
  with ev(1) n show ?thesis by (simp add: run_event_def)
qed

lemma run_event_ignores_error_witness: "run_event granted demo_proto (- 12, 0) 9 (\<lambda>_ _ p. p) 0 3 started = None"
  using run_event_ignores_error [of "(- 12, 0)" demo_proto 9 "\<lambda>_ _ p. p" 0 3 started] by simp

end
