(* ===== verification/Uthash.thy ===== *)
theory Uthash
  imports EventRun ListHead
begin

unbundle bit_operations_syntax

text \<open>
  The hash table of \<^verbatim>\<open>include/uthash.h\<close>, as far as the event core uses it: \<^verbatim>\<open>HASH_FIND_STR\<close>, \<^verbatim>\<open>HASH_ADD_KEYPTR\<close> with the Jenkins hash and the
  expansion of buckets, \<^verbatim>\<open>HASH_DELETE\<close> and \<^verbatim>\<open>HASH_CLEAR\<close>. The configuration is the default one (no Bloom filter, no debug checks, \<^verbatim>\<open>exit\<close> when memory
  runs out). An element is named by the address of the handle embedded in it, so \<^verbatim>\<open>ELMT_FROM_HH\<close> and \<^verbatim>\<open>HH_FROM_ELMT\<close> are the identity; the handles of
  all elements point to the one table. A key is given by the bytes it points to. \<open>None\<close> is undefined behaviour, \<open>Exited\<close> a call of \<^verbatim>\<open>exit\<close>.

  The theorems show that the table, on elements with different keys, is the finite map from keys to elements that the theory \<open>Event\<close> uses, whatever
  the hash function does: chains and the doubly linked list of insertion order stay intact, also when the buckets are doubled.
  Of two elements with the same key, which the event core can only add when two threads register a name at once, the one added last is in front of its
  chain and is found, as in \<open>Event\<close>, until an expansion reverses the chain.
\<close>

section \<open>Data\<close>

record UT_hash_handle =
  app_prev :: lptr
  app_next :: lptr
  hh_prev :: lptr
  hh_next :: lptr
  key :: "byte list"
  keylen :: u32
  hashv :: u32

record UT_hash_bucket =
  hh_head :: lptr
  count :: u32
  expand_mult :: u32

record UT_hash_table =
  buckets :: "UT_hash_bucket list"
  num_buckets :: u32
  log2_num_buckets :: u32
  num_items :: u32
  tbl_tail :: lptr
  ideal_chain_maxlen :: u32
  nonideal_items :: u32
  ineff_expands :: u32
  noexpand :: u32

type_synonym handles = "addr \<rightharpoonup> UT_hash_handle"

text \<open>\<open>tbl_head\<close> is the variable the macros call \<^verbatim>\<open>head\<close>; \<open>tbl\<close> means nothing while it is \<open>NULL\<close>.\<close>

record hash_state =
  tbl_head :: lptr
  tbl :: UT_hash_table
  hhs :: handles

definition sizeof_UT_hash_table :: nat where "sizeof_UT_hash_table = 64"
definition sizeof_UT_hash_bucket :: nat where "sizeof_UT_hash_bucket = 16"

definition HASH_INITIAL_NUM_BUCKETS :: u32 where "HASH_INITIAL_NUM_BUCKETS = 32"
definition HASH_INITIAL_NUM_BUCKETS_LOG2 :: u32 where "HASH_INITIAL_NUM_BUCKETS_LOG2 = 5"
definition HASH_BKT_CAPACITY_THRESH :: u32 where "HASH_BKT_CAPACITY_THRESH = 10"

section \<open>The hash function\<close>

definition HASH_JEN_MIX :: "u32 \<Rightarrow> u32 \<Rightarrow> u32 \<Rightarrow> u32 \<times> u32 \<times> u32" where
  "HASH_JEN_MIX a b c =
     (let a = (a - b - c) XOR drop_bit 13 c;
          b = (b - c - a) XOR push_bit 8 a;
          c = (c - a - b) XOR drop_bit 13 b;
          a = (a - b - c) XOR drop_bit 12 c;
          b = (b - c - a) XOR push_bit 16 a;
          c = (c - a - b) XOR drop_bit 5 b;
          a = (a - b - c) XOR drop_bit 3 c;
          b = (b - c - a) XOR push_bit 10 a;
          c = (c - a - b) XOR drop_bit 15 b
      in (a, b, c))"

text \<open>\<open>octet ks n sh\<close> is \<^verbatim>\<open>(unsigned)_hj_key[n] << sh\<close>, or nothing when the key has no such byte left: the cases of the \<^verbatim>\<open>switch\<close> that are not reached.\<close>

definition octet :: "byte list \<Rightarrow> nat \<Rightarrow> nat \<Rightarrow> u32" where
  "octet ks n sh = (if n < length ks then push_bit sh (ucast (ks ! n)) else 0)"

definition quad :: "byte list \<Rightarrow> nat \<Rightarrow> u32" where
  "quad ks n = octet ks n 0 + octet ks (n + 1) 8 + octet ks (n + 2) 16 + octet ks (n + 3) 24"

fun jen_loop :: "byte list \<Rightarrow> u32 \<times> u32 \<times> u32 \<Rightarrow> byte list \<times> u32 \<times> u32 \<times> u32" where
  "jen_loop ks (i, j, h) =
     (if length ks \<ge> 12 then jen_loop (drop 12 ks) (HASH_JEN_MIX (i + quad ks 0) (j + quad ks 4) (h + quad ks 8))
      else (ks, i, j, h))"

declare jen_loop.simps [simp del]

definition HASH_JEN :: "byte list \<Rightarrow> u32 \<Rightarrow> u32 option" where
  "HASH_JEN keyptr klen =
     (if length keyptr < unat klen then None
      else let (ks, i, j, h) = jen_loop (take (unat klen) keyptr) (0x9e3779b9, 0x9e3779b9, 0xfeedbeef);
               h = h + klen + octet ks 10 24 + octet ks 9 16 + octet ks 8 8;
               j = j + quad ks 4;
               i = i + quad ks 0;
               (i, j, h) = HASH_JEN_MIX i j h
           in Some h)"

definition HASH_TO_BKT :: "u32 \<Rightarrow> u32 \<Rightarrow> u32" where
  "HASH_TO_BKT hv num_bkts = hv AND (num_bkts - 1)"

section \<open>Operations\<close>

definition upd_handle :: "addr \<Rightarrow> (UT_hash_handle \<Rightarrow> UT_hash_handle) \<Rightarrow> handles \<Rightarrow> handles option" where
  "upd_handle e f hs = do { h \<leftarrow> hs e; Some (hs(e \<mapsto> f h)) }"

definition bucket_at :: "UT_hash_bucket list \<Rightarrow> nat \<Rightarrow> UT_hash_bucket option" where
  "bucket_at bs i = (if i < length bs then Some (bs ! i) else None)"

partial_function (option) find_loop :: "handles \<Rightarrow> byte list \<Rightarrow> u32 \<Rightarrow> u32 \<Rightarrow> lptr \<Rightarrow> lptr option" where
  "find_loop hs keyptr klen hv out =
     (case out of
        None \<Rightarrow> Some None
      | Some e \<Rightarrow> do {
          h \<leftarrow> hs e;
          same \<leftarrow> (if hashv h = hv \<and> keylen h = klen
                   then do { c \<leftarrow> memcmp (Some (key h)) (Some keyptr) (unat klen); Some (c = 0) } else Some False);
          if same then Some (Some e) else find_loop hs keyptr klen hv (hh_next h) })"

definition HASH_FIND_IN_BKT :: "handles \<Rightarrow> UT_hash_bucket \<Rightarrow> byte list \<Rightarrow> u32 \<Rightarrow> u32 \<Rightarrow> lptr option" where
  "HASH_FIND_IN_BKT hs b keyptr klen hv = find_loop hs keyptr klen hv (hh_head b)"

definition HASH_FIND :: "hash_state \<Rightarrow> byte list \<Rightarrow> u32 \<Rightarrow> lptr option" where
  "HASH_FIND s keyptr klen =
     (case tbl_head s of
        None \<Rightarrow> Some None
      | Some first \<Rightarrow> do {
          hv \<leftarrow> HASH_JEN keyptr klen;
          b \<leftarrow> bucket_at (buckets (tbl s)) (unat (HASH_TO_BKT hv (num_buckets (tbl s))));
          HASH_FIND_IN_BKT (hhs s) b keyptr klen hv })"

text \<open>\<^verbatim>\<open>findstr\<close> is a C string: its bytes with the terminator.\<close>

definition HASH_FIND_STR :: "hash_state \<Rightarrow> byte list \<Rightarrow> lptr option" where
  "HASH_FIND_STR s findstr = HASH_FIND s findstr (of_nat (length (takeWhile (\<lambda>c. c \<noteq> 0) findstr)))"

text \<open>Linking an element into a bucket at its head: the part of \<^verbatim>\<open>HASH_ADD_TO_BKT\<close> before the test, and the same statements in the loop of
  \<^verbatim>\<open>HASH_EXPAND_BUCKETS\<close>.\<close>

definition link_front :: "lptr \<Rightarrow> addr \<Rightarrow> handles \<Rightarrow> handles option" where
  "link_front first e hs = do {
     hs \<leftarrow> upd_handle e (\<lambda>h. h\<lparr>hh_next := first, hh_prev := None\<rparr>) hs;
     case first of None \<Rightarrow> Some hs | Some f \<Rightarrow> upd_handle f (\<lambda>h. h\<lparr>hh_prev := Some e\<rparr>) hs }"

text \<open>The inner loop of the expansion over one old chain. The state is the new buckets, the handles and \<^verbatim>\<open>nonideal_items\<close>.\<close>

partial_function (option) move_chain ::
  "u32 \<Rightarrow> u32 \<Rightarrow> lptr \<Rightarrow> UT_hash_bucket list \<times> handles \<times> u32 \<Rightarrow> (UT_hash_bucket list \<times> handles \<times> u32) option" where
  "move_chain nb2 ideal thh st =
     (case thh of
        None \<Rightarrow> Some st
      | Some e \<Rightarrow> (case st of (nbs, hs, non) \<Rightarrow> do {
          h \<leftarrow> hs e;
          let bkt = unat (HASH_TO_BKT (hashv h) nb2);
          b \<leftarrow> bucket_at nbs bkt;
          let cnt = count b + 1;
          let non' = (if cnt > ideal then non + 1 else non);
          let mult = (if cnt > ideal \<and> cnt > expand_mult b * ideal then expand_mult b + 1 else expand_mult b);
          hs \<leftarrow> link_front (hh_head b) e hs;
          move_chain nb2 ideal (hh_next h)
            (nbs[bkt := \<lparr>hh_head = Some e, count = cnt, expand_mult = mult\<rparr>], hs, non') }))"

fun move_buckets ::
  "u32 \<Rightarrow> u32 \<Rightarrow> UT_hash_bucket list \<Rightarrow> UT_hash_bucket list \<times> handles \<times> u32 \<Rightarrow> (UT_hash_bucket list \<times> handles \<times> u32) option" where
  "move_buckets nb2 ideal [] st = Some st"
| "move_buckets nb2 ideal (b # bs) st = do { st \<leftarrow> move_chain nb2 ideal (hh_head b) st; move_buckets nb2 ideal bs st }"

definition blank_bucket :: UT_hash_bucket where
  "blank_bucket = \<lparr>hh_head = None, count = 0, expand_mult = 0\<rparr>"

text \<open>\<^verbatim>\<open>ideal_chain_maxlen\<close>, the number of items over the doubled number of buckets rounded up, and the fields set after the loops.\<close>

definition ideal_len :: "UT_hash_table \<Rightarrow> u32" where
  "ideal_len t = drop_bit (unat (log2_num_buckets t + 1)) (num_items t) +
     (if num_items t AND (num_buckets t * 2 - 1) \<noteq> 0 then 1 else 0)"

definition expanded :: "UT_hash_table \<Rightarrow> UT_hash_bucket list \<Rightarrow> u32 \<Rightarrow> UT_hash_table" where
  "expanded t nbs non =
     (let ineff = (if non > drop_bit 1 (num_items t) then ineff_expands t + 1 else 0)
      in t\<lparr>buckets := nbs, num_buckets := num_buckets t * 2, log2_num_buckets := log2_num_buckets t + 1,
           ideal_chain_maxlen := ideal_len t, nonideal_items := non, ineff_expands := ineff,
           noexpand := (if ineff > 1 then 1 else noexpand t)\<rparr>)"

definition HASH_EXPAND_BUCKETS :: "(nat \<Rightarrow> bool) \<Rightarrow> hash_state \<Rightarrow> hash_state result option" where
  "HASH_EXPAND_BUCKETS alloc s =
     (let t = tbl s; n = 2 * unat (num_buckets t) in
      if \<not> alloc (n * sizeof_UT_hash_bucket) then Some (Exited (- 1))
      else if length (buckets t) < unat (num_buckets t) then None
      else do {
        (nbs, hs, non) \<leftarrow> move_buckets (num_buckets t * 2) (ideal_len t) (take (unat (num_buckets t)) (buckets t))
           (replicate n blank_bucket, hhs s, 0);
        ret (s\<lparr>hhs := hs, tbl := expanded t nbs non\<rparr>) })"

definition HASH_ADD_TO_BKT :: "(nat \<Rightarrow> bool) \<Rightarrow> nat \<Rightarrow> addr \<Rightarrow> hash_state \<Rightarrow> hash_state result option" where
  "HASH_ADD_TO_BKT alloc i e s = do {
     b \<leftarrow> bucket_at (buckets (tbl s)) i;
     hs \<leftarrow> link_front (hh_head b) e (hhs s);
     let b = b\<lparr>hh_head := Some e, count := count b + 1\<rparr>;
     let s = s\<lparr>hhs := hs, tbl := (tbl s)\<lparr>buckets := (buckets (tbl s))[i := b]\<rparr>\<rparr>;
     if count b \<ge> (expand_mult b + 1) * HASH_BKT_CAPACITY_THRESH \<and> noexpand (tbl s) = 0
     then HASH_EXPAND_BUCKETS alloc s else ret s }"

definition HASH_MAKE_TABLE :: "(nat \<Rightarrow> bool) \<Rightarrow> addr \<Rightarrow> hash_state \<Rightarrow> hash_state result option" where
  "HASH_MAKE_TABLE alloc e s =
     (if \<not> alloc sizeof_UT_hash_table then Some (Exited (- 1))
      else if \<not> alloc (unat HASH_INITIAL_NUM_BUCKETS * sizeof_UT_hash_bucket) then Some (Exited (- 1))
      else ret (s\<lparr>tbl := \<lparr>buckets = replicate (unat HASH_INITIAL_NUM_BUCKETS) blank_bucket, num_buckets = HASH_INITIAL_NUM_BUCKETS,
        log2_num_buckets = HASH_INITIAL_NUM_BUCKETS_LOG2, num_items = 0, tbl_tail = Some e, ideal_chain_maxlen = 0,
        nonideal_items = 0, ineff_expands = 0, noexpand = 0\<rparr>\<rparr>))"

definition HASH_APPEND_LIST :: "addr \<Rightarrow> hash_state \<Rightarrow> hash_state option" where
  "HASH_APPEND_LIST e s = do {
     hs \<leftarrow> upd_handle e (\<lambda>h. h\<lparr>app_next := None, app_prev := tbl_tail (tbl s)\<rparr>) (hhs s);
     l \<leftarrow> tbl_tail (tbl s);
     hs \<leftarrow> upd_handle l (\<lambda>h. h\<lparr>app_next := Some e\<rparr>) hs;
     Some (s\<lparr>hhs := hs, tbl := (tbl s)\<lparr>tbl_tail := Some e\<rparr>\<rparr>) }"

definition HASH_ADD_TO_TABLE :: "(nat \<Rightarrow> bool) \<Rightarrow> u32 \<Rightarrow> addr \<Rightarrow> hash_state \<Rightarrow> hash_state result option" where
  "HASH_ADD_TO_TABLE alloc hv e s =
     (let t = tbl s in
      HASH_ADD_TO_BKT alloc (unat (HASH_TO_BKT hv (num_buckets t))) e (s\<lparr>tbl := t\<lparr>num_items := num_items t + 1\<rparr>\<rparr>))"

definition HASH_ADD_KEYPTR :: "(nat \<Rightarrow> bool) \<Rightarrow> byte list \<Rightarrow> u32 \<Rightarrow> addr \<Rightarrow> hash_state \<Rightarrow> hash_state result option" where
  "HASH_ADD_KEYPTR alloc keyptr klen e s = do {
     hv \<leftarrow> HASH_JEN keyptr klen;
     hs \<leftarrow> upd_handle e (\<lambda>h. h\<lparr>hashv := hv, key := keyptr, keylen := klen\<rparr>) (hhs s);
     let s = s\<lparr>hhs := hs\<rparr>;
     (case tbl_head s of
        None \<Rightarrow> do {
          hs \<leftarrow> upd_handle e (\<lambda>h. h\<lparr>app_next := None, app_prev := None\<rparr>) (hhs s);
          bind_result (HASH_MAKE_TABLE alloc e (s\<lparr>hhs := hs\<rparr>)) (\<lambda>s.
          HASH_ADD_TO_TABLE alloc hv e (s\<lparr>tbl_head := Some e\<rparr>)) }
      | Some first \<Rightarrow> do {
          s \<leftarrow> HASH_APPEND_LIST e s;
          HASH_ADD_TO_TABLE alloc hv e s }) }"

text \<open>The loop of \<^verbatim>\<open>sbev_reg_event\<close> after \<^verbatim>\<open>HASH_CLEAR\<close>: every entry is added again under its name, here with the address of its handle.\<close>

fun readd_entries :: "(nat \<Rightarrow> bool) \<Rightarrow> (byte list \<times> addr) list \<Rightarrow> hash_state \<Rightarrow> hash_state result option" where
  "readd_entries alloc [] s = ret s"
| "readd_entries alloc ((nom, e) # ents) s =
     bind_result (HASH_ADD_KEYPTR alloc nom (of_nat (length nom)) e s) (readd_entries alloc ents)"

text \<open>Both statements that bypass an element, for either pair of fields: \<open>sn\<close> and \<open>sp\<close> set a next and a previous link.\<close>

definition bypass ::
  "(lptr \<Rightarrow> UT_hash_handle \<Rightarrow> UT_hash_handle) \<Rightarrow> (lptr \<Rightarrow> UT_hash_handle \<Rightarrow> UT_hash_handle) \<Rightarrow> lptr \<Rightarrow> lptr \<Rightarrow> handles \<Rightarrow> handles option" where
  "bypass sn sp p n hs = do {
     hs \<leftarrow> (case p of None \<Rightarrow> Some hs | Some p \<Rightarrow> upd_handle p (sn n) hs);
     case n of None \<Rightarrow> Some hs | Some n \<Rightarrow> upd_handle n (sp p) hs }"

definition HASH_DEL_IN_BKT :: "nat \<Rightarrow> addr \<Rightarrow> hash_state \<Rightarrow> hash_state option" where
  "HASH_DEL_IN_BKT i e s = do {
     b \<leftarrow> bucket_at (buckets (tbl s)) i;
     d \<leftarrow> hhs s e;
     let b = b\<lparr>count := count b - 1, hh_head := (if hh_head b = Some e then hh_next d else hh_head b)\<rparr>;
     hs \<leftarrow> bypass (\<lambda>v h. h\<lparr>hh_next := v\<rparr>) (\<lambda>v h. h\<lparr>hh_prev := v\<rparr>) (hh_prev d) (hh_next d) (hhs s);
     Some (s\<lparr>hhs := hs, tbl := (tbl s)\<lparr>buckets := (buckets (tbl s))[i := b]\<rparr>\<rparr>) }"

definition HASH_DELETE :: "addr \<Rightarrow> hash_state \<Rightarrow> hash_state option" where
  "HASH_DELETE e s = do {
     d \<leftarrow> hhs s e;
     if app_prev d = None \<and> app_next d = None then Some (s\<lparr>tbl_head := None\<rparr>)
     else do {
       let s = (if Some e = tbl_tail (tbl s) then s\<lparr>tbl := (tbl s)\<lparr>tbl_tail := app_prev d\<rparr>\<rparr> else s);
       let s = (if app_prev d = None then s\<lparr>tbl_head := app_next d\<rparr> else s);
       hs \<leftarrow> bypass (\<lambda>v h. h\<lparr>app_next := v\<rparr>) (\<lambda>v h. h\<lparr>app_prev := v\<rparr>) (app_prev d) (app_next d) (hhs s);
       let s = s\<lparr>hhs := hs\<rparr>;
       s \<leftarrow> HASH_DEL_IN_BKT (unat (HASH_TO_BKT (hashv d) (num_buckets (tbl s)))) e s;
       Some (s\<lparr>tbl := (tbl s)\<lparr>num_items := num_items (tbl s) - 1\<rparr>\<rparr>) } }"

definition HASH_CLEAR :: "hash_state \<Rightarrow> hash_state" where
  "HASH_CLEAR s = s\<lparr>tbl_head := None\<rparr>"

definition HASH_COUNT :: "hash_state \<Rightarrow> u32" where
  "HASH_COUNT s = (if tbl_head s \<noteq> None then num_items (tbl s) else 0)"

section \<open>Linked lists of handles\<close>

text \<open>\<open>dll pv nx hs pr p xs q\<close>: from \<open>p\<close> on, with previous element \<open>pr\<close>, the handles of \<open>xs\<close> are linked in both directions through the fields \<open>pv\<close> and
  \<open>nx\<close>, and the last one leads to \<open>q\<close>. It is used for the chains of the buckets and for the list of all elements.\<close>

fun dll :: "(UT_hash_handle \<Rightarrow> lptr) \<Rightarrow> (UT_hash_handle \<Rightarrow> lptr) \<Rightarrow> handles \<Rightarrow> lptr \<Rightarrow> lptr \<Rightarrow> addr list \<Rightarrow> lptr \<Rightarrow> bool" where
  "dll pv nx hs pr p [] q = (p = q)"
| "dll pv nx hs pr p (x # xs) q = (p = Some x \<and> (\<exists>h. hs x = Some h \<and> pv h = pr \<and> dll pv nx hs (Some x) (nx h) xs q))"

lemma dll_dom: "dll pv nx hs pr p xs q \<Longrightarrow> set xs \<subseteq> dom hs"
  by (induction xs arbitrary: pr p) auto

lemma dll_cong:
  assumes "\<And>x. x \<in> set xs \<Longrightarrow> map_option pv (hs' x) = map_option pv (hs x) \<and> map_option nx (hs' x) = map_option nx (hs x)"
  shows "dll pv nx hs' pr p xs q = dll pv nx hs pr p xs q"
  using assms
proof (induction xs arbitrary: pr p)
  case (Cons x xs)
  have eq: "map_option pv (hs' x) = map_option pv (hs x)" "map_option nx (hs' x) = map_option nx (hs x)"
    using Cons.prems [of x] by simp_all
  have IH: "dll pv nx hs' pr p xs q = dll pv nx hs pr p xs q" for pr p using Cons.IH Cons.prems by simp
  from eq show ?case by (cases "hs x"; cases "hs' x") (auto simp: IH)
qed simp

definition ends :: "lptr \<Rightarrow> addr list \<Rightarrow> lptr" where
  "ends pr xs = (if xs = [] then pr else Some (last xs))"

definition starts :: "addr list \<Rightarrow> lptr \<Rightarrow> lptr" where
  "starts xs q = (if xs = [] then q else Some (hd xs))"

lemma dll_starts: "dll pv nx hs pr p xs q \<Longrightarrow> p = starts xs q"
  by (cases xs) (auto simp: starts_def)

lemma dll_append: "dll pv nx hs pr p (xs @ ys) q \<longleftrightarrow> dll pv nx hs pr p xs (starts ys q) \<and> dll pv nx hs (ends pr xs) (starts ys q) ys q"
proof (induction xs arbitrary: pr p)
  case Nil
  then show ?case using dll_starts [of pv nx hs pr p ys q] by (auto simp: ends_def)
next
  case (Cons x xs)
  have "ends pr (x # xs) = ends (Some x) xs" by (simp add: ends_def)
  with Cons show ?case by auto
qed

text \<open>What a change of the bucket links leaves alone.\<close>

definition kept :: "UT_hash_handle \<Rightarrow> lptr \<times> lptr \<times> byte list \<times> u32 \<times> u32" where
  "kept h = (app_prev h, app_next h, key h, keylen h, hashv h)"

definition relink :: "addr set \<Rightarrow> handles \<Rightarrow> handles \<Rightarrow> bool" where
  "relink A hs hs' \<longleftrightarrow> (\<forall>x. map_option kept (hs' x) = map_option kept (hs x)) \<and> (\<forall>x. x \<notin> A \<longrightarrow> hs' x = hs x)"

lemma relink_refl: "relink A hs hs"
  by (simp add: relink_def)

lemma relink_trans: "relink A hs hs1 \<Longrightarrow> relink B hs1 hs2 \<Longrightarrow> A \<union> B \<subseteq> C \<Longrightarrow> relink C hs hs2"
  unfolding relink_def by (metis UnI1 UnI2 subsetD)

lemma relink_frame: "relink A hs hs' \<Longrightarrow> x \<notin> A \<Longrightarrow> hs' x = hs x"
  by (simp add: relink_def)

lemma relink_fields:
  assumes "relink A hs hs'"
  shows "map_option app_prev (hs' x) = map_option app_prev (hs x)" "map_option app_next (hs' x) = map_option app_next (hs x)"
    "map_option key (hs' x) = map_option key (hs x)" "map_option keylen (hs' x) = map_option keylen (hs x)"
    "map_option hashv (hs' x) = map_option hashv (hs x)"
proof -
  have "map_option kept (hs' x) = map_option kept (hs x)" using assms by (simp add: relink_def)
  then show "map_option app_prev (hs' x) = map_option app_prev (hs x)" "map_option app_next (hs' x) = map_option app_next (hs x)"
    "map_option key (hs' x) = map_option key (hs x)" "map_option keylen (hs' x) = map_option keylen (hs x)"
    "map_option hashv (hs' x) = map_option hashv (hs x)"
    by (cases "hs x"; cases "hs' x"; simp add: kept_def)+
qed

lemma relink_dom: "relink A hs hs' \<Longrightarrow> dom hs' = dom hs"
proof -
  assume r: "relink A hs hs'"
  have "hs' x = None \<longleftrightarrow> hs x = None" for x
  proof -
    have "map_option kept (hs' x) = map_option kept (hs x)" using r by (simp add: relink_def)
    then show ?thesis by (cases "hs x"; cases "hs' x") simp_all
  qed
  then show ?thesis by (auto simp: dom_def)
qed

lemma dll_frame: "relink A hs hs' \<Longrightarrow> set xs \<inter> A = {} \<Longrightarrow> dll pv nx hs' pr p xs q = dll pv nx hs pr p xs q"
  by (rule dll_cong) (use relink_frame in fastforce)

lemma dll_app: "relink A hs hs' \<Longrightarrow> dll app_prev app_next hs' pr p xs q = dll app_prev app_next hs pr p xs q"
  by (rule dll_cong) (simp add: relink_fields)

abbreviation chain_of :: "handles \<Rightarrow> lptr \<Rightarrow> addr list \<Rightarrow> bool" where
  "chain_of hs p xs \<equiv> dll hh_prev hh_next hs None p xs None"

lemma link_front_ok:
  assumes "chain_of hs first xs" and "e \<in> dom hs" and "e \<notin> set xs" and "distinct xs"
  shows "\<exists>hs'. link_front first e hs = Some hs' \<and> chain_of hs' (Some e) (e # xs) \<and> relink (set (e # xs)) hs hs'"
proof -
  from assms(2) obtain h where h: "hs e = Some h" by blast
  let ?hs = "hs(e \<mapsto> h\<lparr>hh_next := first, hh_prev := None\<rparr>)"
  show ?thesis
  proof (cases xs)
    case Nil
    with assms(1) h show ?thesis by (auto simp: link_front_def upd_handle_def relink_def kept_def)
  next
    case (Cons f ys)
    with assms(1) obtain g where g: "first = Some f" "hs f = Some g" "dll hh_prev hh_next hs (Some f) (hh_next g) ys None" by auto
    have neq: "f \<noteq> e" "e \<notin> set ys" "f \<notin> set ys" using assms(3,4) Cons by auto
    let ?hs' = "?hs(f \<mapsto> g\<lparr>hh_prev := Some e\<rparr>)"
    have "dll hh_prev hh_next ?hs' (Some f) (hh_next g) ys None = dll hh_prev hh_next hs (Some f) (hh_next g) ys None"
      by (rule dll_cong) (use neq in auto)
    with g h neq have "chain_of ?hs' (Some e) (e # xs)" by (auto simp: Cons)
    moreover have "link_front first e hs = Some ?hs'" using g h neq by (simp add: link_front_def upd_handle_def)
    moreover have "relink (set (e # xs)) hs ?hs'" using g h neq Cons by (auto simp: relink_def kept_def)
    ultimately show ?thesis by blast
  qed
qed


section \<open>Buckets\<close>

lemma HASH_TO_BKT_take_bit: "HASH_TO_BKT v (2 ^ k) = take_bit k v"
  by (simp add: HASH_TO_BKT_def take_bit_eq_mask mask_eq_exp_minus_1)

lemma HASH_TO_BKT_less: "unat (HASH_TO_BKT v (2 ^ k)) < 2 ^ k"
  by (simp add: HASH_TO_BKT_take_bit unsigned_take_bit_eq take_bit_nat_def)

text \<open>\<open>bchains hs bs B\<close>: the chain of bucket \<open>i\<close> consists of the elements \<open>B i\<close>; no element is in two chains or twice in one.\<close>

definition bchains :: "handles \<Rightarrow> UT_hash_bucket list \<Rightarrow> (nat \<Rightarrow> addr list) \<Rightarrow> bool" where
  "bchains hs bs B \<longleftrightarrow>
     (\<forall>i < length bs. chain_of hs (hh_head (bs ! i)) (B i) \<and> count (bs ! i) = of_nat (length (B i)) \<and> distinct (B i)) \<and>
     (\<forall>i < length bs. \<forall>j < length bs. i \<noteq> j \<longrightarrow> set (B i) \<inter> set (B j) = {})"

definition in_chains :: "UT_hash_bucket list \<Rightarrow> (nat \<Rightarrow> addr list) \<Rightarrow> addr set" where
  "in_chains bs B = (\<Union>i < length bs. set (B i))"

lemma bchains_blank: "bchains hs (replicate n blank_bucket) (\<lambda>_. [])"
  by (simp add: bchains_def blank_bucket_def)

lemma bchains_push:
  assumes "bchains hs bs B" and i: "i < length bs" and "e \<in> dom hs" and "e \<notin> in_chains bs B"
    and b: "hh_head b = Some e" "count b = count (bs ! i) + 1"
  shows "\<exists>hs'. link_front (hh_head (bs ! i)) e hs = Some hs' \<and> bchains hs' (bs[i := b]) (B(i := e # B i)) \<and>
    relink (set (e # B i)) hs hs'"
proof -
  have c: "chain_of hs (hh_head (bs ! i)) (B i)" "distinct (B i)" "count (bs ! i) = of_nat (length (B i))"
    using assms(1) i by (simp_all add: bchains_def)
  have fresh: "e \<notin> set (B j)" if "j < length bs" for j using assms(4) that by (auto simp: in_chains_def)
  from link_front_ok [OF c(1) assms(3) fresh [OF i] c(2)] obtain hs' where
    hs': "link_front (hh_head (bs ! i)) e hs = Some hs'" "chain_of hs' (Some e) (e # B i)" "relink (set (e # B i)) hs hs'" by blast
  have disj: "set (B j) \<inter> set (e # B i) = {}" if "j < length bs" "j \<noteq> i" for j
    using assms(1) that i fresh [OF that(1)] by (auto simp: bchains_def)
  have other: "chain_of hs' (hh_head (bs ! j)) (B j)" if "j < length bs" "j \<noteq> i" for j
    using dll_frame [OF hs'(3) disj [OF that]] assms(1) that(1) by (simp add: bchains_def)
  have "bchains hs' (bs[i := b]) (B(i := e # B i))"
    unfolding bchains_def
  proof (intro conjI allI impI)
    fix j assume j: "j < length (bs[i := b])"
    show "chain_of hs' (hh_head (bs[i := b] ! j)) ((B(i := e # B i)) j)"
      using other [of j] hs'(2) b(1) j i by (cases "j = i") simp_all
    show "count (bs[i := b] ! j) = of_nat (length ((B(i := e # B i)) j))"
      using assms(1) b(2) c(3) j by (cases "j = i") (simp_all add: bchains_def)
    show "distinct ((B(i := e # B i)) j)" using assms(1) fresh i j by (auto simp: bchains_def)
  next
    fix j l assume "j < length (bs[i := b])" "l < length (bs[i := b])" "j \<noteq> l"
    then show "set ((B(i := e # B i)) j) \<inter> set ((B(i := e # B i)) l) = {}"
      using assms(1) fresh i by (auto simp: bchains_def)
  qed
  with hs' show ?thesis by blast
qed

lemma in_chains_push: "i < length bs \<Longrightarrow> in_chains (bs[i := b]) (B(i := e # B i)) = insert e (in_chains bs B)"
  by (auto simp: in_chains_def split: if_splits)

section \<open>Expansion\<close>

text \<open>The loop over an old chain follows the forward links only.\<close>

fun path :: "handles \<Rightarrow> lptr \<Rightarrow> addr list \<Rightarrow> bool" where
  "path hs p [] = (p = None)"
| "path hs p (x # xs) = (p = Some x \<and> (\<exists>h. hs x = Some h \<and> path hs (hh_next h) xs))"

lemma dll_path: "dll pv hh_next hs pr p xs None \<Longrightarrow> path hs p xs"
  by (induction xs arbitrary: pr p) auto

lemma path_frame: "relink A hs hs' \<Longrightarrow> set xs \<inter> A = {} \<Longrightarrow> path hs p xs \<Longrightarrow> path hs' p xs"
  by (induction xs arbitrary: p) (auto simp: relink_frame)

lemma path_dom: "path hs p xs \<Longrightarrow> set xs \<subseteq> dom hs"
  by (induction xs arbitrary: p) auto

definition slot_index :: "handles \<Rightarrow> u32 \<Rightarrow> addr \<Rightarrow> nat" where
  "slot_index hs m x = unat (HASH_TO_BKT (hashv (the (hs x))) m)"

lemma slot_index_relink: "relink A hs hs' \<Longrightarrow> x \<in> dom hs \<Longrightarrow> slot_index hs' m x = slot_index hs m x"
  using relink_fields(5) [of A hs hs' x] by (auto simp: slot_index_def)

definition moved :: "handles \<Rightarrow> u32 \<Rightarrow> addr list \<Rightarrow> (nat \<Rightarrow> addr list) \<Rightarrow> nat \<Rightarrow> addr list" where
  "moved hs m xs B j = rev (filter (\<lambda>x. slot_index hs m x = j) xs) @ B j"

lemma moved_simps:
  "moved hs m [] B = B"
  "moved hs m (x # xs) B = moved hs m xs (B(slot_index hs m x := x # B (slot_index hs m x)))"
  "moved hs m (xs @ ys) B = moved hs m ys (moved hs m xs B)"
  by (auto simp: moved_def fun_eq_iff)

lemma set_moved: "set (moved hs m xs B j) = {x \<in> set xs. slot_index hs m x = j} \<union> set (B j)"
  by (auto simp: moved_def)

lemma moved_relink:
  assumes "relink A hs hs'" and "set xs \<subseteq> dom hs"
  shows "moved hs' m xs B = moved hs m xs B"
proof -
  have "filter (\<lambda>x. slot_index hs' m x = j) xs = filter (\<lambda>x. slot_index hs m x = j) xs" for j
    by (rule filter_cong [OF refl]) (simp add: slot_index_relink [OF assms(1) subsetD [OF assms(2)]])
  then show ?thesis by (simp add: moved_def fun_eq_iff)
qed

text \<open>When the ideal length of a chain is 1, the loop makes \<^verbatim>\<open>expand_mult\<close> of a bucket as large as the number of its elements, or one less.\<close>

definition tight :: "UT_hash_bucket \<Rightarrow> bool" where
  "tight b \<longleftrightarrow> unat (expand_mult b) \<le> unat (count b) \<and> unat (count b) \<le> unat (expand_mult b) + 1"

lemma tight_next:
  assumes "tight b" and "unat (count b) + 1 < 2 ^ 32"
  shows "tight \<lparr>hh_head = p, count = count b + 1,
    expand_mult = (if count b + 1 > 1 \<and> count b + 1 > expand_mult b * 1 then expand_mult b + 1 else expand_mult b)\<rparr>"
proof -
  have c: "unat (count b + 1) = unat (count b) + 1" using assms(2) by (simp add: unat_word_ariths)
  have m: "unat (expand_mult b + 1) = unat (expand_mult b) + 1" using assms by (simp add: tight_def unat_word_ariths)
  show ?thesis using assms(1) c m by (auto simp: tight_def word_less_nat_alt word_le_nat_alt)
qed

lemma finite_in_chains: "finite (in_chains bs B)"
  by (simp add: in_chains_def)

lemma length_chain: "bchains hs bs B \<Longrightarrow> i < length bs \<Longrightarrow> length (B i) = card (set (B i)) \<and> set (B i) \<subseteq> in_chains bs B"
  by (auto simp: bchains_def distinct_card in_chains_def)

lemma move_chain_ok:
  assumes "path hs p xs" and "distinct xs" and "bchains hs nbs B" and "set xs \<inter> in_chains nbs B = {}" and len: "length nbs = 2 ^ k"
  shows "\<exists>nbs' hs' non'. move_chain (2 ^ k) ideal p (nbs, hs, non) = Some (nbs', hs', non') \<and> length nbs' = length nbs \<and>
    bchains hs' nbs' (moved hs (2 ^ k) xs B) \<and> in_chains nbs' (moved hs (2 ^ k) xs B) = set xs \<union> in_chains nbs B \<and>
    relink (set xs \<union> in_chains nbs B) hs hs' \<and>
    (ideal = 1 \<and> card (set xs \<union> in_chains nbs B) < 2 ^ 32 \<and> list_all tight nbs \<longrightarrow> list_all tight nbs')"
  using assms
proof (induction xs arbitrary: hs p nbs B non)
  case Nil
  then show ?case by (simp add: move_chain.simps moved_simps relink_refl)
next
  case (Cons x xs)
  then obtain h where h: "p = Some x" "hs x = Some h" "path hs (hh_next h) xs" by auto
  define i where "i = unat (HASH_TO_BKT (hashv h) (2 ^ k))"
  have i: "i < length nbs" using HASH_TO_BKT_less [of "hashv h" k] Cons.prems(5) by (simp add: i_def)
  have si: "slot_index hs (2 ^ k) x = i" by (simp add: slot_index_def h i_def)
  define cnt where "cnt = count (nbs ! i) + 1"
  define b where "b = \<lparr>hh_head = Some x, count = cnt,
    expand_mult = (if cnt > ideal \<and> cnt > expand_mult (nbs ! i) * ideal then expand_mult (nbs ! i) + 1 else expand_mult (nbs ! i))\<rparr>"
  have "x \<in> dom hs" "x \<notin> in_chains nbs B" using h Cons.prems(4) by auto
  from bchains_push [OF Cons.prems(3) i this, of b] obtain hs1 where
    hs1: "link_front (hh_head (nbs ! i)) x hs = Some hs1" "bchains hs1 (nbs[i := b]) (B(i := x # B i))" "relink (set (x # B i)) hs hs1"
    by (auto simp: b_def cnt_def)
  have sub: "set (x # B i) \<subseteq> insert x (in_chains nbs B)" using i by (auto simp: in_chains_def)
  have "set xs \<inter> set (x # B i) = {}" using sub Cons.prems(2,4) by auto
  from path_frame [OF hs1(3) this h(3)] have p1: "path hs1 (hh_next h) xs" .
  have inc: "in_chains (nbs[i := b]) (B(i := x # B i)) = insert x (in_chains nbs B)" using i by (rule in_chains_push)
  have "distinct xs" "set xs \<inter> in_chains (nbs[i := b]) (B(i := x # B i)) = {}" "length (nbs[i := b]) = 2 ^ k"
    using inc Cons.prems(2,4,5) by auto
  from Cons.IH [OF p1 this(1) hs1(2) this(2,3), of "if cnt > ideal then non + 1 else non"]
  obtain nbs' hs' non' where IH: "move_chain (2 ^ k) ideal (hh_next h) (nbs[i := b], hs1, if cnt > ideal then non + 1 else non) = Some (nbs', hs', non')"
    "length nbs' = length nbs" "bchains hs' nbs' (moved hs1 (2 ^ k) xs (B(i := x # B i)))"
    "in_chains nbs' (moved hs1 (2 ^ k) xs (B(i := x # B i))) = set xs \<union> insert x (in_chains nbs B)"
    "relink (set xs \<union> insert x (in_chains nbs B)) hs1 hs'"
    "ideal = 1 \<and> card (set xs \<union> insert x (in_chains nbs B)) < 2 ^ 32 \<and> list_all tight (nbs[i := b]) \<longrightarrow> list_all tight nbs'"
    unfolding inc length_list_update by blast
  have "list_all tight nbs'" if a: "ideal = 1 \<and> card (set (x # xs) \<union> in_chains nbs B) < 2 ^ 32 \<and> list_all tight nbs"
  proof -
    have "length (B i) = card (set (B i))" "set (B i) \<subseteq> in_chains nbs B" using length_chain [OF Cons.prems(3) i] by simp_all
    moreover have "card (insert x (set (B i))) \<le> card (set (x # xs) \<union> in_chains nbs B)"
      by (rule card_mono) (use calculation in \<open>auto simp: finite_in_chains\<close>)
    moreover have "x \<notin> set (B i)" using calculation(2) Cons.prems(4) by auto
    ultimately have "length (B i) + 1 < 2 ^ 32" using a by simp
    moreover from this have "unat (count (nbs ! i)) = length (B i)" using Cons.prems(3) i by (simp add: bchains_def unat_of_nat take_bit_nat_eq_self)
    moreover have "tight (nbs ! i)" using a i by (simp add: list_all_length)
    ultimately have "tight b" unfolding b_def cnt_def using tight_next [of "nbs ! i" "Some x"] a by simp
    then have "list_all tight (nbs[i := b])" using a set_update_subset_insert [of nbs i b] by (auto simp: list_all_iff)
    with IH(6) a show ?thesis by simp
  qed
  have mv: "moved hs1 (2 ^ k) xs (B(i := x # B i)) = moved hs (2 ^ k) (x # xs) B"
    using moved_relink [OF hs1(3) path_dom [OF h(3)]] by (simp add: moved_simps si)
  have "move_chain (2 ^ k) ideal p (nbs, hs, non) = Some (nbs', hs', non')"
    using IH(1) hs1(1) h i by (simp add: move_chain.simps [of _ _ "Some x"] bucket_at_def i_def [symmetric] b_def cnt_def Let_def)
  moreover have "relink (set (x # xs) \<union> in_chains nbs B) hs hs'"
    by (rule relink_trans [OF hs1(3) IH(5)]) (use sub in auto)
  ultimately show ?case using IH(2-4) \<open>_ \<Longrightarrow> list_all tight nbs'\<close> unfolding mv by auto
qed

lemma move_buckets_ok:
  assumes "list_all2 (\<lambda>b xs. path hs (hh_head b) xs) bs xss" and "distinct (concat xss)" and "bchains hs nbs B"
    and "set (concat xss) \<inter> in_chains nbs B = {}" and "length nbs = 2 ^ k"
  shows "\<exists>nbs' hs' non'. move_buckets (2 ^ k) ideal bs (nbs, hs, non) = Some (nbs', hs', non') \<and> length nbs' = length nbs \<and>
    bchains hs' nbs' (moved hs (2 ^ k) (concat xss) B) \<and> relink (set (concat xss) \<union> in_chains nbs B) hs hs' \<and>
    (ideal = 1 \<and> card (set (concat xss) \<union> in_chains nbs B) < 2 ^ 32 \<and> list_all tight nbs \<longrightarrow> list_all tight nbs')"
  using assms
proof (induction bs arbitrary: xss hs nbs B non)
  case Nil
  then show ?case by (simp add: moved_simps relink_refl)
next
  case (Cons b bs yss)
  then obtain xs xss where yss: "yss = xs # xss" "path hs (hh_head b) xs" "list_all2 (\<lambda>b xs. path hs (hh_head b) xs) bs xss"
    by (auto simp: list_all2_Cons1)
  have xs: "distinct xs" "set xs \<inter> in_chains nbs B = {}" "distinct (concat xss)" "set xs \<inter> set (concat xss) = {}"
    "set (concat xss) \<inter> in_chains nbs B = {}" using Cons.prems(2,4) by (auto simp: yss)
  from move_chain_ok [OF yss(2) xs(1) Cons.prems(3) xs(2) Cons.prems(5), of ideal non] obtain nbs1 hs1 non1 where
    m: "move_chain (2 ^ k) ideal (hh_head b) (nbs, hs, non) = Some (nbs1, hs1, non1)" "length nbs1 = length nbs"
      "bchains hs1 nbs1 (moved hs (2 ^ k) xs B)" "in_chains nbs1 (moved hs (2 ^ k) xs B) = set xs \<union> in_chains nbs B"
      "relink (set xs \<union> in_chains nbs B) hs hs1"
      "ideal = 1 \<and> card (set xs \<union> in_chains nbs B) < 2 ^ 32 \<and> list_all tight nbs \<longrightarrow> list_all tight nbs1" by blast
  have p1: "list_all2 (\<lambda>b xs. path hs1 (hh_head b) xs) bs xss"
    unfolding list_all2_conv_all_nth
  proof (intro conjI allI impI)
    show "length bs = length xss" using yss(3) by (rule list_all2_lengthD)
    fix i assume i: "i < length bs"
    with yss(3) have "path hs (hh_head (bs ! i)) (xss ! i)" "i < length xss" by (auto simp: list_all2_conv_all_nth)
    moreover from this(2) have "xss ! i \<in> set xss" by simp
    then have "set (xss ! i) \<subseteq> set (concat xss)" by auto
    then have "set (xss ! i) \<inter> (set xs \<union> in_chains nbs B) = {}" using xs by blast
    ultimately show "path hs1 (hh_head (bs ! i)) (xss ! i)" using path_frame [OF m(5)] by blast
  qed
  have "set (concat xss) \<subseteq> dom hs"
    using yss(3) path_dom by (fastforce simp: list_all2_conv_all_nth in_set_conv_nth)
  then have mv: "moved hs1 (2 ^ k) (concat xss) (moved hs (2 ^ k) xs B) = moved hs (2 ^ k) (concat yss) B"
    using moved_relink [OF m(5)] by (simp add: moved_simps yss)
  have "set (concat xss) \<inter> in_chains nbs1 (moved hs (2 ^ k) xs B) = {}" using xs m(4) by auto
  moreover have "length nbs1 = 2 ^ k" using m(2) Cons.prems(5) by simp
  ultimately obtain nbs' hs' non' where
    "move_buckets (2 ^ k) ideal bs (nbs1, hs1, non1) = Some (nbs', hs', non')" "length nbs' = length nbs1"
    "bchains hs' nbs' (moved hs1 (2 ^ k) (concat xss) (moved hs (2 ^ k) xs B))"
    "relink (set (concat xss) \<union> in_chains nbs1 (moved hs (2 ^ k) xs B)) hs1 hs'"
    "ideal = 1 \<and> card (set (concat xss) \<union> in_chains nbs1 (moved hs (2 ^ k) xs B)) < 2 ^ 32 \<and> list_all tight nbs1 \<longrightarrow> list_all tight nbs'"
    using Cons.IH [OF p1 xs(3) m(3), of non1] by blast
  moreover from this(4) have "relink (set (concat yss) \<union> in_chains nbs B) hs hs'"
    by (rule relink_trans [OF m(5)]) (auto simp: m(4) yss)
  moreover have "card (set xs \<union> in_chains nbs B) \<le> card (set (concat yss) \<union> in_chains nbs B)"
    by (rule card_mono) (auto simp: finite_in_chains yss)
  moreover have "set (concat xss) \<union> in_chains nbs1 (moved hs (2 ^ k) xs B) = set (concat yss) \<union> in_chains nbs B" by (auto simp: m(4) yss)
  ultimately show ?case using m(1,2,6) by (auto simp: mv)
qed


section \<open>The table as a set of elements\<close>

definition spread :: "hash_state \<Rightarrow> nat \<Rightarrow> addr list \<Rightarrow> (nat \<Rightarrow> addr list) \<Rightarrow> bool" where
  "spread s k es B \<longleftrightarrow> k \<le> 31 \<and> num_buckets (tbl s) = 2 ^ k \<and> length (buckets (tbl s)) = 2 ^ k \<and>
     bchains (hhs s) (buckets (tbl s)) B \<and> (\<forall>i < 2 ^ k. set (B i) = {e \<in> set es. slot_index (hhs s) (2 ^ k) e = i})"

lemma slot_index_less: "slot_index hs (2 ^ k) e < 2 ^ k"
  by (simp add: slot_index_def HASH_TO_BKT_less)

lemma spread_all: "spread s k es B \<Longrightarrow> in_chains (buckets (tbl s)) B = set es"
  using slot_index_less by (auto simp: spread_def in_chains_def)

lemma spread_dom: "spread s k es B \<Longrightarrow> set es \<subseteq> dom (hhs s)"
proof
  fix e assume sp: "spread s k es B" and "e \<in> set es"
  then obtain i where i: "i < length (buckets (tbl s))" "e \<in> set (B i)" using spread_all [OF sp] by (auto simp: in_chains_def)
  then have "chain_of (hhs s) (hh_head (buckets (tbl s) ! i)) (B i)" using sp by (simp add: spread_def bchains_def)
  from dll_dom [OF this] i(2) show "e \<in> dom (hhs s)" by blast
qed

lemma unat_pow2_32: "k \<le> 31 \<Longrightarrow> unat (2 ^ k :: u32) = 2 ^ k"
proof -
  assume "k \<le> 31"
  then have "(2::nat) ^ k < 2 ^ 32" by (intro power_strict_increasing) simp_all
  then have "unat (of_nat (2 ^ k) :: u32) = 2 ^ k" by (simp only: unsigned_of_nat take_bit_nat_eq_self len_num1 len_bit0 len_bit1) (use \<open>k \<le> 31\<close> in simp)
  then show ?thesis by simp
qed

lemma distinct_concat_map:
  assumes "distinct is" and "\<And>i. i \<in> set is \<Longrightarrow> distinct (B i)"
    and "\<And>i j. i \<in> set is \<Longrightarrow> j \<in> set is \<Longrightarrow> i \<noteq> j \<Longrightarrow> set (B i) \<inter> set (B j) = {}"
  shows "distinct (concat (map B is))"
  using assms by (induction "is") fastforce+

lemma expand_ok:
  assumes sp: "spread s k es B" and "k < 31" and "alloc (2 * 2 ^ k * sizeof_UT_hash_bucket)"
  shows "\<exists>s' B'. HASH_EXPAND_BUCKETS alloc s = ret s' \<and> spread s' (Suc k) es B' \<and> relink (set es) (hhs s) (hhs s') \<and>
    tbl_head s' = tbl_head s \<and> tbl_tail (tbl s') = tbl_tail (tbl s) \<and> num_items (tbl s') = num_items (tbl s) \<and>
    log2_num_buckets (tbl s') = log2_num_buckets (tbl s) + 1 \<and>
    (ideal_len (tbl s) = 1 \<and> length es < 2 ^ 32 \<longrightarrow> list_all tight (buckets (tbl s')))"
proof -
  let ?t = "tbl s" and ?hs = "hhs s"
  let ?xss = "map B [0..<2 ^ k]"
  from sp have nb: "num_buckets ?t = 2 ^ k" "length (buckets ?t) = 2 ^ k" and c: "bchains ?hs (buckets ?t) B"
    by (simp_all add: spread_def)
  have u: "unat (num_buckets ?t) = 2 ^ k" using assms(2) by (simp add: nb(1) unat_pow2_32)
  have paths: "list_all2 (\<lambda>b xs. path ?hs (hh_head b) xs) (buckets ?t) ?xss"
    using c nb(2) dll_path by (auto simp: list_all2_conv_all_nth bchains_def)
  have d: "distinct (concat ?xss)"
    by (rule distinct_concat_map) (use c nb(2) in \<open>auto simp: bchains_def\<close>)
  have all: "set (concat ?xss) = set es" using spread_all [OF sp] nb(2) by (simp add: in_chains_def atLeast0LessThan)
  have len: "length (replicate (2 * 2 ^ k) blank_bucket) = 2 ^ Suc k" by simp
  have "set (concat ?xss) \<inter> in_chains (replicate (2 * 2 ^ k) blank_bucket) (\<lambda>_. []) = {}" by (simp add: in_chains_def)
  from move_buckets_ok [OF paths d bchains_blank this len, of "ideal_len ?t" 0] obtain nbs hs non where
    m: "move_buckets (2 ^ Suc k) (ideal_len ?t) (buckets ?t) (replicate (2 * 2 ^ k) blank_bucket, ?hs, 0) = Some (nbs, hs, non)"
      "length nbs = 2 ^ Suc k" "bchains hs nbs (moved ?hs (2 ^ Suc k) (concat ?xss) (\<lambda>_. []))"
      "relink (set (concat ?xss) \<union> in_chains (replicate (2 * 2 ^ k) blank_bucket) (\<lambda>_. [])) ?hs hs"
      "ideal_len ?t = 1 \<and> card (set (concat ?xss) \<union> in_chains (replicate (2 * 2 ^ k) blank_bucket) (\<lambda>_. [])) < 2 ^ 32 \<and>
        list_all tight (replicate (2 * 2 ^ k) blank_bucket) \<longrightarrow> list_all tight nbs"
    by auto
  have tg: "list_all tight nbs" if "ideal_len ?t = 1 \<and> length es < 2 ^ 32"
  proof -
    have "card (set es) < 2 ^ 32" using that card_length [of es] by simp
    moreover have "tight blank_bucket" by (simp add: tight_def blank_bucket_def)
    ultimately show ?thesis using m(5) that all by (simp add: in_chains_def list_all_iff)
  qed
  have r: "relink (set es) ?hs hs" using m(4) all by (simp add: in_chains_def)
  have two: "num_buckets ?t * 2 = 2 ^ Suc k" by (simp add: nb(1))
  define s' where "s' = s\<lparr>hhs := hs, tbl := expanded ?t nbs non\<rparr>"
  have "HASH_EXPAND_BUCKETS alloc s = ret s'"
    using m(1) assms(3) by (simp add: HASH_EXPAND_BUCKETS_def u nb(2) two s'_def del: power_Suc)
  moreover have "spread s' (Suc k) es (moved ?hs (2 ^ Suc k) (concat ?xss) (\<lambda>_. []))"
  proof -
    have "set (moved ?hs (2 ^ Suc k) (concat ?xss) (\<lambda>_. []) i) = {e \<in> set es. slot_index hs (2 ^ Suc k) e = i}" for i
    proof -
      have "slot_index hs (2 ^ Suc k) e = slot_index ?hs (2 ^ Suc k) e" if "e \<in> set es" for e
        by (rule slot_index_relink [OF r]) (use spread_dom [OF sp] that in blast)
      then show ?thesis unfolding set_moved all by auto
    qed
    with m(2,3) assms(2) two show ?thesis by (simp add: spread_def s'_def expanded_def Let_def)
  qed
  ultimately show ?thesis using r tg by (auto simp: s'_def expanded_def Let_def)
qed


section \<open>Adding an element\<close>

text \<open>Memory of which every request below \<open>2\<^sup>3\<^sup>6\<close> bytes is granted and no larger one. A table of \<open>2\<^sup>3\<^sup>1\<close> buckets, the most an \<^verbatim>\<open>unsigned\<close> can
  count before it wraps, is then as large as it gets.\<close>

definition limited :: "(nat \<Rightarrow> bool) \<Rightarrow> bool" where
  "limited alloc \<longleftrightarrow> (\<forall>n. alloc n = (n < 2 ^ 36))"

lemma limited_expand:
  assumes "limited alloc" and "k \<le> 31"
  shows "alloc (2 * 2 ^ k * sizeof_UT_hash_bucket) = (k < 31)"
proof (cases "k = 31")
  case True
  with assms show ?thesis by (simp add: limited_def sizeof_UT_hash_bucket_def)
next
  case False
  with assms(2) have "k \<le> 30" by simp
  then have "(2 :: nat) ^ k \<le> 2 ^ 30" by (intro power_increasing) simp_all
  with False assms show ?thesis by (simp add: limited_def sizeof_UT_hash_bucket_def)
qed

text \<open>
  How the table grows with the number \<open>n\<close> of its elements: a bucket is doubled only after nine additions, because every bucket has room for nine
  elements more than it had at the last expansion, unless there were more elements than buckets. \<open>a\<close> counts the additions since then.
\<close>

definition growth :: "nat \<Rightarrow> nat \<Rightarrow> nat \<Rightarrow> UT_hash_table \<Rightarrow> bool" where
  "growth k n a t \<longleftrightarrow> num_buckets t = 2 ^ k \<and> k \<le> 31 \<and> 5 \<le> k \<and> log2_num_buckets t = of_nat k \<and>
     (2 ^ k < n \<or> 9 * (k - 5) + a \<le> n \<and>
       (\<forall>b \<in> set (buckets t). unat (expand_mult b) \<le> unat (count b) \<and> unat (count b) \<le> unat (expand_mult b) + 1 + a))"

definition lean :: "nat \<Rightarrow> UT_hash_table \<Rightarrow> bool" where
  "lean n t \<longleftrightarrow> (\<exists>k a. growth k n a t)"

lemma pow2_inject: "k \<le> 31 \<Longrightarrow> j \<le> 31 \<Longrightarrow> (2 ^ k :: u32) = 2 ^ j \<Longrightarrow> k = j"
proof -
  assume k: "k \<le> 31" "j \<le> 31" and eq: "(2 ^ k :: u32) = 2 ^ j"
  have "(2 :: nat) ^ k = 2 ^ j" using unat_pow2_32 [OF k(1)] unat_pow2_32 [OF k(2)] by (simp only: eq)
  then show "k = j" by simp
qed

lemma nine_log: "5 \<le> k \<Longrightarrow> 9 * (Suc k - 5) \<le> 2 ^ k"
  by (induction k rule: nat_induct_at_least) (simp_all add: Suc_diff_le)

lemma ideal_len_1:
  assumes "num_items t = of_nat n" and "num_buckets t = 2 ^ k" and "log2_num_buckets t = of_nat k" and "k < 31" and "0 < n" and "n \<le> 2 ^ Suc k"
  shows "ideal_len t = 1"
proof -
  have p: "(2 :: nat) ^ Suc k \<le> 2 ^ 31" using assms(4) by (intro power_increasing) simp_all
  then have u: "unat (of_nat n :: u32) = n" using assms(6) by (simp add: unat_of_nat take_bit_nat_eq_self)
  have l: "unat (of_nat k + 1 :: u32) = Suc k" using assms(4) by (simp add: unat_of_nat take_bit_nat_eq_self unat_word_ariths)
  have two: "num_buckets t * 2 - 1 = mask (Suc k)" by (simp add: assms(2) mask_eq_exp_minus_1)
  have a: "(of_nat n :: u32) AND mask (Suc k) = take_bit (Suc k) (of_nat n)" by (rule take_bit_eq_mask [symmetric])
  have d: "unat (drop_bit (Suc k) (of_nat n :: u32)) = n div 2 ^ Suc k" unfolding unsigned_drop_bit_eq u
    using p assms(6) by (simp add: drop_bit_eq_div take_bit_nat_eq_self del: power_Suc)
  have m: "unat (take_bit (Suc k) (of_nat n :: u32)) = n mod 2 ^ Suc k" unfolding unsigned_take_bit_eq u
    using assms(4) by (simp add: take_bit_nat_def del: power_Suc)
  show ?thesis
  proof (cases "n = 2 ^ Suc k")
    case True
    then have "drop_bit (Suc k) (of_nat n :: u32) = 1" "take_bit (Suc k) (of_nat n :: u32) = 0"
      using d m by (simp_all add: word_unat_eq_iff del: power_Suc)
    then show ?thesis by (simp add: ideal_len_def assms(1,3) l two a)
  next
    case False
    then have "n < 2 ^ Suc k" using assms(6) by simp
    then have "drop_bit (Suc k) (of_nat n :: u32) = 0" "take_bit (Suc k) (of_nat n :: u32) \<noteq> 0"
      using d m assms(5) by (simp_all add: word_unat_eq_iff del: power_Suc)
    then show ?thesis by (simp add: ideal_len_def assms(1,3) l two a)
  qed
qed

text \<open>An addition without expansion, the test that starts one, and the state after it.\<close>

lemma growth_linked:
  assumes "growth k n a t" and "i < length (buckets t)" and "unat (count (buckets t ! i)) \<le> n" and "n < 2 ^ 20"
    and b: "count b = count (buckets t ! i) + 1" "expand_mult b = expand_mult (buckets t ! i)"
  shows "growth k (Suc n) (Suc a) (t\<lparr>buckets := (buckets t)[i := b]\<rparr>)"
proof -
  have u: "unat (count b) = Suc (unat (count (buckets t ! i)))" using assms(3,4) b(1) by (simp add: unat_word_ariths)
  have "unat (expand_mult c) \<le> unat (count c) \<and> unat (count c) \<le> unat (expand_mult c) + 1 + Suc a"
    if "c \<in> set ((buckets t)[i := b])" and all: "\<forall>b \<in> set (buckets t). unat (expand_mult b) \<le> unat (count b) \<and> unat (count b) \<le> unat (expand_mult b) + 1 + a" for c
  proof -
    have "c = b \<or> c \<in> set (buckets t)" using that(1) set_update_subset_insert [of "buckets t" i b] by auto
    then show ?thesis using all nth_mem [OF assms(2)] u b(2) by fastforce
  qed
  with assms(1) show ?thesis by (auto simp: growth_def)
qed

lemma growth_trigger:
  assumes "growth k n a t" and "b \<in> set (buckets t)" and "unat (count b) \<le> n" and "n \<le> 2 ^ 20" and "\<not> 2 ^ k < n"
    and "count b \<ge> (expand_mult b + 1) * HASH_BKT_CAPACITY_THRESH"
  shows "9 * (Suc k - 5) \<le> n"
proof -
  have g: "9 * (k - 5) + a \<le> n" "unat (expand_mult b) \<le> unat (count b)" "unat (count b) \<le> unat (expand_mult b) + 1 + a" "5 \<le> k"
    using assms(1,2,5) by (auto simp: growth_def)
  have m: "unat (expand_mult b + 1) = unat (expand_mult b) + 1" using g(2) assms(3,4) by (simp add: unat_word_ariths)
  have "unat (w * 10) = unat w * 10 mod 2 ^ 32" for w :: u32 by (subst unat_word_ariths(2)) simp
  from this [of "expand_mult b + 1"] have "unat ((expand_mult b + 1) * 10) = (unat (expand_mult b) + 1) * 10 mod 2 ^ 32" by (simp only: m)
  also have "\<dots> = (unat (expand_mult b) + 1) * 10" using g(2) assms(3,4) by (intro mod_less) simp
  finally have "unat ((expand_mult b + 1) * 10) = (unat (expand_mult b) + 1) * 10" .
  with assms(6) have "(unat (expand_mult b) + 1) * 10 \<le> unat (count b)" by (simp add: HASH_BKT_CAPACITY_THRESH_def word_le_nat_alt)
  with g show ?thesis by simp
qed

lemma growth_expanded:
  assumes "growth k n a t" and "k < 31" and "num_buckets t' = 2 ^ Suc k" and "log2_num_buckets t' = log2_num_buckets t + 1"
    and "2 ^ k < n \<or> 9 * (Suc k - 5) \<le> n" and "n \<le> 2 ^ Suc k \<Longrightarrow> list_all tight (buckets t')"
  shows "lean n t'"
proof (cases "2 ^ Suc k < n")
  case True
  with assms show ?thesis unfolding lean_def growth_def by (intro exI [of _ "Suc k"] exI [of _ 0]) auto
next
  case False
  have "9 * (Suc k - 5) \<le> n" using assms(1,5) nine_log [of k] by (auto simp: growth_def)
  with False assms show ?thesis unfolding lean_def growth_def
    by (intro exI [of _ "Suc k"] exI [of _ 0]) (auto simp: list_all_iff tight_def)
qed

lemma add_to_bkt_ok:
  assumes sp: "spread s k es B" and e: "e \<in> dom (hhs s)" "e \<notin> set es" and lim: "limited alloc"
    and i: "i = slot_index (hhs s) (2 ^ k) e"
  shows "(\<exists>s' k' B'. HASH_ADD_TO_BKT alloc i e s = ret s' \<and> spread s' k' (es @ [e]) B' \<and>
      relink (set (e # es)) (hhs s) (hhs s') \<and> tbl_head s' = tbl_head s \<and> tbl_tail (tbl s') = tbl_tail (tbl s) \<and>
      num_items (tbl s') = num_items (tbl s) \<and>
      (lean (length es) (tbl s) \<and> length es < 2 ^ 20 \<and> num_items (tbl s) = of_nat (Suc (length es)) \<longrightarrow> lean (Suc (length es)) (tbl s'))) \<or>
    HASH_ADD_TO_BKT alloc i e s = Some (Exited (- 1)) \<and> k = 31 \<and> (lean (length es) (tbl s) \<and> length es < 2 ^ 20 \<longrightarrow> 242 \<le> length es)"
proof -
  let ?bs = "buckets (tbl s)"
  have il: "i < length ?bs" using sp slot_index_less by (simp add: spread_def i)
  define b where "b = (?bs ! i)\<lparr>hh_head := Some e, count := count (?bs ! i) + 1\<rparr>"
  have "e \<notin> in_chains ?bs B" using e(2) spread_all [OF sp] by simp
  moreover have "bchains (hhs s) ?bs B" using sp by (simp add: spread_def)
  ultimately obtain hs where hs: "link_front (hh_head (?bs ! i)) e (hhs s) = Some hs"
    "bchains hs (?bs[i := b]) (B(i := e # B i))" "relink (set (e # B i)) (hhs s) hs"
    using bchains_push [of "hhs s" ?bs B i e b] il e(1) by (auto simp: b_def)
  have "set (B i) \<subseteq> set es" using spread_all [OF sp] il by (auto simp: in_chains_def)
  then have r: "relink (set (e # es)) (hhs s) hs" using hs(3) by (intro relink_trans [OF hs(3) relink_refl [of "{}"]]) auto
  define s1 where "s1 = s\<lparr>hhs := hs, tbl := (tbl s)\<lparr>buckets := ?bs[i := b]\<rparr>\<rparr>"
  have idx: "slot_index hs (2 ^ k) x = slot_index (hhs s) (2 ^ k) x" if "x \<in> set (es @ [e])" for x
    by (rule slot_index_relink [OF r]) (use that e(1) spread_dom [OF sp] in auto)
  have sp1: "spread s1 k (es @ [e]) (B(i := e # B i))"
  proof -
    have "set ((B(i := e # B i)) j) = {x \<in> set (es @ [e]). slot_index hs (2 ^ k) x = j}" if "j < 2 ^ k" for j
    proof -
      have "{x \<in> set (es @ [e]). slot_index hs (2 ^ k) x = j} = {x \<in> set (es @ [e]). slot_index (hhs s) (2 ^ k) x = j}"
        using idx by auto
      also have "\<dots> = (if j = i then insert e (set (B j)) else set (B j))" using sp that i by (auto simp: spread_def)
      finally show ?thesis by simp
    qed
    with sp hs(2) show ?thesis by (simp add: spread_def s1_def)
  qed
  have run: "HASH_ADD_TO_BKT alloc i e s =
    (if count b \<ge> (expand_mult b + 1) * HASH_BKT_CAPACITY_THRESH \<and> noexpand (tbl s1) = 0 then HASH_EXPAND_BUCKETS alloc s1 else ret s1)"
    using il hs(1) by (simp add: HASH_ADD_TO_BKT_def bucket_at_def Let_def b_def s1_def)
  have k: "k \<le> 31" and nb: "unat (num_buckets (tbl s1)) = 2 ^ k" using sp1 unat_pow2_32 by (simp_all add: spread_def)
  have cnt: "unat (count (?bs ! i)) \<le> length es"
  proof -
    have "length (B i) = card (set (B i))" "set (B i) \<subseteq> set es" using length_chain [of "hhs s" ?bs B i] sp il spread_all [OF sp] by (simp_all add: spread_def)
    then have "length (B i) \<le> length es" using card_mono [of "set es" "set (B i)"] card_length [of es] by simp
    moreover have "count (?bs ! i) = of_nat (length (B i))" using sp il by (simp add: spread_def bchains_def)
    ultimately show ?thesis by (simp add: unat_of_nat)
  qed
  have lean: "\<exists>a. growth k (Suc (length es)) a (tbl s1)" if "lean (length es) (tbl s) \<and> length es < 2 ^ 20"
  proof -
    from that obtain j a where g: "growth j (length es) a (tbl s)" by (auto simp: lean_def)
    have "j = k" by (rule pow2_inject) (use g sp in \<open>auto simp: growth_def spread_def\<close>)
    with growth_linked [OF g, of i b] il cnt that show ?thesis by (auto simp: b_def s1_def)
  qed
  have bs1: "b \<in> set (buckets (tbl s1))" using il by (simp add: s1_def set_update_memI)
  have cb: "unat (count b) \<le> Suc (length es)" using cnt by (simp add: b_def unat_word_ariths)
  show ?thesis
  proof (cases "count b \<ge> (expand_mult b + 1) * HASH_BKT_CAPACITY_THRESH \<and> noexpand (tbl s1) = 0")
    case False
    with run sp1 r lean show ?thesis by (auto simp: s1_def lean_def)
  next
    case True
    have nine: "9 * (Suc k - 5) \<le> Suc (length es)" if "growth k (Suc (length es)) a (tbl s1)" "length es < 2 ^ 20" "\<not> 2 ^ k < Suc (length es)" for a
      by (rule growth_trigger [OF that(1) bs1 cb]) (use that True in auto)
    show ?thesis
    proof (cases "k < 31")
      case less: True
      with limited_expand [OF lim k] have "alloc (2 * 2 ^ k * sizeof_UT_hash_bucket)" by simp
      from expand_ok [OF sp1 less, of alloc, OF this] obtain s' B' where s': "HASH_EXPAND_BUCKETS alloc s1 = ret s'"
        "spread s' (Suc k) (es @ [e]) B'" "relink (set (es @ [e])) (hhs s1) (hhs s')" "tbl_head s' = tbl_head s1"
        "tbl_tail (tbl s') = tbl_tail (tbl s1)" "num_items (tbl s') = num_items (tbl s1)" "log2_num_buckets (tbl s') = log2_num_buckets (tbl s1) + 1"
        "ideal_len (tbl s1) = 1 \<and> length (es @ [e]) < 2 ^ 32 \<longrightarrow> list_all tight (buckets (tbl s'))" by blast
      have "lean (Suc (length es)) (tbl s')" if l: "lean (length es) (tbl s) \<and> length es < 2 ^ 20" and n: "num_items (tbl s) = of_nat (Suc (length es))"
      proof -
        from lean [OF l] obtain a where g: "growth k (Suc (length es)) a (tbl s1)" by blast
        show ?thesis
        proof (rule growth_expanded [OF g less _ s'(7)])
          show "num_buckets (tbl s') = 2 ^ Suc k" using s'(2) by (simp add: spread_def)
          show "2 ^ k < Suc (length es) \<or> 9 * (Suc k - 5) \<le> Suc (length es)" using nine [OF g] l by blast
          assume "Suc (length es) \<le> 2 ^ Suc k"
          with ideal_len_1 [of "tbl s1" "Suc (length es)" k] g less n have "ideal_len (tbl s1) = 1" by (simp add: growth_def s1_def)
          with s'(8) l show "list_all tight (buckets (tbl s'))" by simp
        qed
      qed
      have "relink (set (e # es)) (hhs s) (hhs s')"
        using s'(3) by (intro relink_trans [OF r]) (auto simp: s1_def)
      with s' run True \<open>_ \<Longrightarrow> _ \<Longrightarrow> lean _ (tbl s')\<close> show ?thesis by (auto simp: s1_def)
    next
      case False
      with k limited_expand [OF lim k] True run nb have "HASH_ADD_TO_BKT alloc i e s = Some (Exited (- 1))"
        by (simp add: HASH_EXPAND_BUCKETS_def)
      moreover have "242 \<le> length es" if "lean (length es) (tbl s) \<and> length es < 2 ^ 20"
        using lean [OF that] nine that False k by fastforce
      ultimately show ?thesis using False k by simp
    qed
  qed
qed


text \<open>The whole table: the elements in the order of insertion, their hash values, and the buckets.\<close>

definition keyed :: "handles \<Rightarrow> addr list \<Rightarrow> bool" where
  "keyed hs es \<longleftrightarrow> (\<forall>e \<in> set es. \<exists>h. hs e = Some h \<and> HASH_JEN (key h) (keylen h) = Some (hashv h))"

definition key_of :: "handles \<Rightarrow> addr \<Rightarrow> byte list" where
  "key_of hs e = (case hs e of None \<Rightarrow> [] | Some h \<Rightarrow> take (unat (keylen h)) (key h))"

definition table_rep :: "hash_state \<Rightarrow> addr list \<Rightarrow> bool" where
  "table_rep s es \<longleftrightarrow> distinct es \<and>
     (if es = [] then tbl_head s = None
      else tbl_head s = Some (hd es) \<and> tbl_tail (tbl s) = Some (last es) \<and> num_items (tbl s) = of_nat (length es) \<and>
        dll app_prev app_next (hhs s) None (Some (hd es)) es None \<and> keyed (hhs s) es \<and> (\<exists>k B. spread s k es B))"

text \<open>Changes of the fields that do not concern the buckets.\<close>

lemma spread_frame:
  assumes "spread s k es B" and "buckets (tbl s') = buckets (tbl s) \<and> num_buckets (tbl s') = num_buckets (tbl s)" and
    eq: "\<And>x. x \<in> set es \<Longrightarrow> map_option hh_prev (hhs s' x) = map_option hh_prev (hhs s x) \<and>
      map_option hh_next (hhs s' x) = map_option hh_next (hhs s x) \<and> map_option hashv (hhs s' x) = map_option hashv (hhs s x)"
  shows "spread s' k es B"
proof -
  have sub: "set (B i) \<subseteq> set es" if "i < 2 ^ k" for i using assms(1) that by (auto simp: spread_def)
  have "chain_of (hhs s') p (B i) = chain_of (hhs s) p (B i)" if "i < 2 ^ k" for i p
    by (rule dll_cong) (use eq sub [OF that] in blast)
  moreover have "slot_index (hhs s') m x = slot_index (hhs s) m x" if x: "x \<in> set es" for x m
  proof -
    obtain h where "hhs s x = Some h" using spread_dom [OF assms(1)] x by blast
    with eq [OF x] show ?thesis by (auto simp: slot_index_def)
  qed
  ultimately show ?thesis using assms(1,2) by (auto simp: spread_def bchains_def)
qed

lemma keyed_frame:
  assumes "keyed hs es" and "\<And>x. x \<in> set es \<Longrightarrow> map_option key (hs' x) = map_option key (hs x) \<and>
    map_option keylen (hs' x) = map_option keylen (hs x) \<and> map_option hashv (hs' x) = map_option hashv (hs x)"
  shows "keyed hs' es"
  unfolding keyed_def
proof
  fix e assume e: "e \<in> set es"
  with assms(1) obtain h where "hs e = Some h" "HASH_JEN (key h) (keylen h) = Some (hashv h)" by (auto simp: keyed_def)
  with assms(2) [OF e] show "\<exists>h. hs' e = Some h \<and> HASH_JEN (key h) (keylen h) = Some (hashv h)" by (cases "hs' e") auto
qed

lemma key_of_frame:
  "map_option key (hs' x) = map_option key (hs x) \<Longrightarrow> map_option keylen (hs' x) = map_option keylen (hs x) \<Longrightarrow>
     key_of hs' x = key_of hs x"
  by (cases "hs x"; cases "hs' x") (auto simp: key_of_def)

lemma append_list_ok:
  assumes d: "dll app_prev app_next hs None p es None" and "es \<noteq> []" and "distinct es" and e: "e \<notin> set es" "e \<in> dom hs"
    and s: "hhs s = hs" "tbl_tail (tbl s) = Some (last es)"
  shows "\<exists>hs'. HASH_APPEND_LIST e s = Some (s\<lparr>hhs := hs', tbl := (tbl s)\<lparr>tbl_tail := Some e\<rparr>\<rparr>) \<and>
    dll app_prev app_next hs' None p (es @ [e]) None \<and> dom hs' = dom hs \<and>
    (\<forall>x. map_option hh_prev (hs' x) = map_option hh_prev (hs x) \<and> map_option hh_next (hs' x) = map_option hh_next (hs x) \<and>
      map_option hashv (hs' x) = map_option hashv (hs x) \<and> map_option key (hs' x) = map_option key (hs x) \<and>
      map_option keylen (hs' x) = map_option keylen (hs x))"
proof -
  from \<open>es \<noteq> []\<close> obtain ys l where es: "es = ys @ [l]" by (cases es rule: rev_cases) auto
  from d obtain hl where hl: "hs l = Some hl" "app_prev hl = ends None ys" "dll app_prev app_next hs None p ys (Some l)"
    by (auto simp: es dll_append starts_def)
  from e obtain he where he: "hs e = Some he" by blast
  have neq: "e \<noteq> l" "e \<notin> set ys" "l \<notin> set ys" using e(1) assms(3) by (auto simp: es)
  define hs' where "hs' = hs(e \<mapsto> he\<lparr>app_next := None, app_prev := Some l\<rparr>, l \<mapsto> hl\<lparr>app_next := Some e\<rparr>)"
  have "dll app_prev app_next hs' None p ys (Some l) = dll app_prev app_next hs None p ys (Some l)"
    by (rule dll_cong) (use neq in \<open>auto simp: hs'_def\<close>)
  with hl neq have "dll app_prev app_next hs' None p (es @ [e]) None"
    by (auto simp: es dll_append starts_def ends_def hs'_def)
  moreover have "HASH_APPEND_LIST e s = Some (s\<lparr>hhs := hs', tbl := (tbl s)\<lparr>tbl_tail := Some e\<rparr>\<rparr>)"
    using he hl(1) neq s by (simp add: HASH_APPEND_LIST_def upd_handle_def es hs'_def)
  moreover have "dom hs' = dom hs" using he hl(1) by (auto simp: hs'_def)
  moreover have "map_option hh_prev (hs' x) = map_option hh_prev (hs x) \<and> map_option hh_next (hs' x) = map_option hh_next (hs x) \<and>
      map_option hashv (hs' x) = map_option hashv (hs x) \<and> map_option key (hs' x) = map_option key (hs x) \<and>
      map_option keylen (hs' x) = map_option keylen (hs x)" for x
    using he hl(1) by (simp add: hs'_def)
  ultimately show ?thesis by blast
qed

text \<open>The second half of the addition, on a table whose list of elements already ends with the new one.\<close>

lemma add_to_table_ok:
  assumes sp: "spread s k es B" and "distinct (es @ [e])" and lim: "limited alloc"
    and d: "dll app_prev app_next (hhs s) None (Some (hd (es @ [e]))) (es @ [e]) None" and ky: "keyed (hhs s) (es @ [e])"
    and hv: "map_option hashv (hhs s e) = Some hv" and s: "tbl_head s = Some (hd (es @ [e]))" "tbl_tail (tbl s) = Some e"
    "num_items (tbl s) = of_nat (length es)"
  shows "(\<exists>s'. HASH_ADD_TO_TABLE alloc hv e s = ret s' \<and> table_rep s' (es @ [e]) \<and> relink (set (es @ [e])) (hhs s) (hhs s') \<and>
      (lean (length es) (tbl s) \<and> length es < 2 ^ 20 \<longrightarrow> lean (Suc (length es)) (tbl s'))) \<or>
    HASH_ADD_TO_TABLE alloc hv e s = Some (Exited (- 1)) \<and> k = 31 \<and> (lean (length es) (tbl s) \<and> length es < 2 ^ 20 \<longrightarrow> 242 \<le> length es)"
proof -
  define s1 where "s1 = s\<lparr>tbl := (tbl s)\<lparr>num_items := num_items (tbl s) + 1\<rparr>\<rparr>"
  have sp1: "spread s1 k es B" using sp by (simp add: spread_def s1_def)
  have nb: "num_buckets (tbl s) = 2 ^ k" using sp by (simp add: spread_def)
  from hv have e: "e \<in> dom (hhs s1)" "e \<notin> set es" using assms(2) by (auto simp: s1_def)
  have i: "unat (HASH_TO_BKT hv (2 ^ k)) = slot_index (hhs s1) (2 ^ k) e" using hv by (auto simp: slot_index_def s1_def)
  have run: "HASH_ADD_TO_TABLE alloc hv e s = HASH_ADD_TO_BKT alloc (unat (HASH_TO_BKT hv (2 ^ k))) e s1"
    by (simp add: HASH_ADD_TO_TABLE_def Let_def nb s1_def)
  have ln: "lean (length es) (tbl s1) = lean (length es) (tbl s)" by (simp add: lean_def growth_def s1_def)
  have n1: "num_items (tbl s1) = of_nat (Suc (length es))" using s(3) by (simp add: s1_def)
  from add_to_bkt_ok [OF sp1 e lim i] show ?thesis unfolding ln
  proof (elim disjE exE conjE)
    fix s' k' B'
    assume a: "HASH_ADD_TO_BKT alloc (unat (HASH_TO_BKT hv (2 ^ k))) e s1 = ret s'" "spread s' k' (es @ [e]) B'"
      "relink (set (e # es)) (hhs s1) (hhs s')" "tbl_head s' = tbl_head s1" "tbl_tail (tbl s') = tbl_tail (tbl s1)"
      "num_items (tbl s') = num_items (tbl s1)"
      "lean (length es) (tbl s) \<and> length es < 2 ^ 20 \<and> num_items (tbl s1) = of_nat (Suc (length es)) \<longrightarrow> lean (Suc (length es)) (tbl s')"
    have "keyed (hhs s') (es @ [e])"
      by (rule keyed_frame [OF ky]) (use relink_fields [OF a(3)] in \<open>simp add: s1_def\<close>)
    moreover have "dll app_prev app_next (hhs s') None (Some (hd (es @ [e]))) (es @ [e]) None"
      using d dll_app [OF a(3)] by (simp add: s1_def)
    ultimately have "table_rep s' (es @ [e])"
      using a assms(2) s by (auto simp: table_rep_def s1_def)
    with a n1 run show ?thesis by (auto simp: s1_def)
  qed (use run in simp)
qed


lemma table_rep_nonempty:
  assumes "table_rep s es" and "es \<noteq> []"
  obtains k B where "spread s k es B" "tbl_head s = Some (hd es)" "tbl_tail (tbl s) = Some (last es)"
    "num_items (tbl s) = of_nat (length es)" "dll app_prev app_next (hhs s) None (Some (hd es)) es None" "keyed (hhs s) es"
  using assms unfolding table_rep_def by auto

lemma JEN_defined: "unat klen \<le> length keyptr \<Longrightarrow> \<exists>hv. HASH_JEN keyptr klen = Some hv"
  by (auto simp: HASH_JEN_def split: prod.splits)

lemma JEN_length: "HASH_JEN keyptr klen = Some hv \<Longrightarrow> unat klen \<le> length keyptr"
  by (simp add: HASH_JEN_def split: if_splits)

lemma JEN_take: "HASH_JEN keyptr klen = Some hv \<Longrightarrow> take (unat klen) keyptr = take (unat klen) k2 \<Longrightarrow> unat klen \<le> length k2 \<Longrightarrow>
    HASH_JEN k2 klen = Some hv"
  by (simp add: HASH_JEN_def split: if_splits)

lemma add_keyptr_ok:
  assumes rep: "table_rep s es" and e: "e \<in> dom (hhs s)" "e \<notin> set es" and lim: "limited alloc" and kl: "unat klen \<le> length keyptr"
  shows "(\<exists>s'. HASH_ADD_KEYPTR alloc keyptr klen e s = ret s' \<and> table_rep s' (es @ [e]) \<and>
      key_of (hhs s') e = take (unat klen) keyptr \<and> (\<forall>x \<in> set es. key_of (hhs s') x = key_of (hhs s) x) \<and> dom (hhs s') = dom (hhs s) \<and>
      ((es = [] \<or> lean (length es) (tbl s)) \<and> length es < 2 ^ 20 \<longrightarrow> lean (Suc (length es)) (tbl s'))) \<or>
    HASH_ADD_KEYPTR alloc keyptr klen e s = Some (Exited (- 1)) \<and> es \<noteq> [] \<and> num_buckets (tbl s) = 2 ^ 31 \<and>
      (lean (length es) (tbl s) \<and> length es < 2 ^ 20 \<longrightarrow> 242 \<le> length es)"
proof -
  from JEN_defined [OF kl] obtain hv where hv: "HASH_JEN keyptr klen = Some hv" by blast
  from e(1) obtain h where h: "hhs s e = Some h" by blast
  define h1 where "h1 = h\<lparr>hashv := hv, key := keyptr, keylen := klen\<rparr>"
  define hs1 where "hs1 = (hhs s)(e \<mapsto> h1)"
  have dom1: "dom hs1 = dom (hhs s)" using h by (auto simp: hs1_def)
  have d: "distinct (es @ [e])" using rep e(2) by (simp add: table_rep_def)
  show ?thesis
  proof (cases "es = []")
    case True
    define hs2 where "hs2 = hs1(e \<mapsto> h1\<lparr>app_next := None, app_prev := None\<rparr>)"
    define s2 where "s2 = s\<lparr>hhs := hs2, tbl := \<lparr>buckets = replicate 32 blank_bucket, num_buckets = 32,
      log2_num_buckets = 5, num_items = 0, tbl_tail = Some e, ideal_chain_maxlen = 0, nonideal_items = 0, ineff_expands = 0, noexpand = 0\<rparr>,
      tbl_head := Some e\<rparr>"
    have run: "HASH_ADD_KEYPTR alloc keyptr klen e s = HASH_ADD_TO_TABLE alloc hv e s2"
      using hv h rep lim True
      by (simp add: HASH_ADD_KEYPTR_def upd_handle_def table_rep_def HASH_MAKE_TABLE_def limited_def sizeof_UT_hash_table_def
          sizeof_UT_hash_bucket_def HASH_INITIAL_NUM_BUCKETS_def HASH_INITIAL_NUM_BUCKETS_LOG2_def s2_def hs2_def hs1_def h1_def)
    have sp: "spread s2 5 [] (\<lambda>_. [])" using bchains_blank [of hs2 32] by (simp add: spread_def s2_def)
    have "dll app_prev app_next (hhs s2) None (Some (hd ([] @ [e]))) ([] @ [e]) None" "keyed (hhs s2) ([] @ [e])"
      "map_option hashv (hhs s2 e) = Some hv" "tbl_head s2 = Some (hd ([] @ [e]))" "tbl_tail (tbl s2) = Some e"
      "num_items (tbl s2) = of_nat (length ([] :: addr list))"
      using hv by (simp_all add: s2_def hs2_def h1_def keyed_def)
    from add_to_table_ok [OF sp _ lim this] obtain s' where
      s': "HASH_ADD_TO_TABLE alloc hv e s2 = ret s'" "table_rep s' ([] @ [e])" "relink (set ([] @ [e])) (hhs s2) (hhs s')"
      "lean 0 (tbl s2) \<longrightarrow> lean (Suc 0) (tbl s')" by auto
    have "growth 5 0 0 (tbl s2)" by (simp add: growth_def s2_def blank_bucket_def)
    then have l: "lean (Suc 0) (tbl s')" using s'(4) by (auto simp: lean_def)
    have "key_of (hhs s') e = key_of (hhs s2) e" by (rule key_of_frame) (rule relink_fields [OF s'(3)])+
    with s'(1-3) l run True relink_dom [OF s'(3)] dom1 show ?thesis
      by (auto simp: s2_def hs2_def h1_def hs1_def key_of_def)
  next
    case False
    from table_rep_nonempty [OF rep False] obtain k B where t: "spread s k es B" "tbl_head s = Some (hd es)" "tbl_tail (tbl s) = Some (last es)"
      "num_items (tbl s) = of_nat (length es)" "dll app_prev app_next (hhs s) None (Some (hd es)) es None" "keyed (hhs s) es" by blast
    define s1 where "s1 = s\<lparr>hhs := hs1\<rparr>"
    have same: "hs1 x = hhs s x" if "x \<in> set es" for x using that e(2) by (auto simp: hs1_def)
    have d1: "dll app_prev app_next hs1 None (Some (hd es)) es None"
      using t(5) by (subst dll_cong [of es _ hs1 "hhs s"]) (auto simp: same)
    have "hhs s1 = hs1" "tbl_tail (tbl s1) = Some (last es)" "e \<in> dom hs1" using t(3) by (simp_all add: s1_def hs1_def)
    from append_list_ok [OF d1 False _ e(2) this(3,1,2)] d obtain hs2 where
      a: "HASH_APPEND_LIST e s1 = Some (s1\<lparr>hhs := hs2, tbl := (tbl s1)\<lparr>tbl_tail := Some e\<rparr>\<rparr>)"
        "dll app_prev app_next hs2 None (Some (hd es)) (es @ [e]) None" "dom hs2 = dom hs1"
        "\<And>x. map_option hh_prev (hs2 x) = map_option hh_prev (hs1 x)" "\<And>x. map_option hh_next (hs2 x) = map_option hh_next (hs1 x)"
        "\<And>x. map_option hashv (hs2 x) = map_option hashv (hs1 x)" "\<And>x. map_option key (hs2 x) = map_option key (hs1 x)"
        "\<And>x. map_option keylen (hs2 x) = map_option keylen (hs1 x)" by auto
    define s2 where "s2 = s1\<lparr>hhs := hs2, tbl := (tbl s1)\<lparr>tbl_tail := Some e\<rparr>\<rparr>"
    have run: "HASH_ADD_KEYPTR alloc keyptr klen e s = HASH_ADD_TO_TABLE alloc hv e s2"
      using hv h t(2) a(1) by (simp add: HASH_ADD_KEYPTR_def upd_handle_def s1_def hs1_def h1_def s2_def)
    have "spread (s\<lparr>hhs := hs2\<rparr>) k es B" by (rule spread_frame [OF t(1)]) (simp_all add: a(4-6) same)
    then have sp: "spread s2 k es B" by (simp add: spread_def s2_def s1_def)
    have "keyed hs2 es" by (rule keyed_frame [OF t(6)]) (simp add: a(6-8) same)
    moreover have "keyed hs2 [e]"
      by (rule keyed_frame [of hs1]) (use hv in \<open>simp_all add: a(6-8)\<close>, simp add: keyed_def hs1_def h1_def)
    ultimately have ky: "keyed (hhs s2) (es @ [e])" by (auto simp: keyed_def s2_def)
    have "dll app_prev app_next (hhs s2) None (Some (hd (es @ [e]))) (es @ [e]) None" "map_option hashv (hhs s2 e) = Some hv"
      "tbl_head s2 = Some (hd (es @ [e]))" "tbl_tail (tbl s2) = Some e" "num_items (tbl s2) = of_nat (length es)"
      using a(2,6) t(2,4) False by (simp_all add: s2_def s1_def, simp add: hs1_def h1_def)
    note added = add_to_table_ok [OF sp d lim this(1) ky this(2-5)]
    have "lean (length es) (tbl s2) = lean (length es) (tbl s)" by (simp add: lean_def growth_def s2_def s1_def)
    from added [unfolded this] show ?thesis
    proof (elim disjE exE conjE)
      fix s'
      assume s': "HASH_ADD_TO_TABLE alloc hv e s2 = ret s'" "table_rep s' (es @ [e])" "relink (set (es @ [e])) (hhs s2) (hhs s')"
        "lean (length es) (tbl s) \<and> length es < 2 ^ 20 \<longrightarrow> lean (Suc (length es)) (tbl s')"
      have k2: "key_of (hhs s') x = key_of hs1 x" for x
        by (rule key_of_frame) (simp_all add: relink_fields [OF s'(3)], simp_all add: s2_def a(7,8))
      have "key_of (hhs s') e = take (unat klen) keyptr" unfolding k2 by (simp add: key_of_def hs1_def h1_def)
      moreover have "key_of (hhs s') x = key_of (hhs s) x" if "x \<in> set es" for x unfolding k2 by (simp add: key_of_def same [OF that])
      moreover have "dom (hhs s') = dom (hhs s)" using relink_dom [OF s'(3)] a(3) dom1 by (simp add: s2_def)
      ultimately show ?thesis using s'(1,2,4) run False by auto
    qed (use run False t(1) in \<open>simp add: spread_def\<close>)
  qed
qed


section \<open>Finding an element\<close>

lemma keyed_match:
  assumes "keyed hs es" and "x \<in> set es" and "hs x = Some h" and "HASH_JEN keyptr klen = Some hv"
  shows "hashv h = hv \<and> keylen h = klen \<and> take (unat klen) (key h) = take (unat klen) keyptr \<longleftrightarrow> key_of hs x = take (unat klen) keyptr"
proof -
  have j: "HASH_JEN (key h) (keylen h) = Some (hashv h)" using assms(1-3) by (auto simp: keyed_def)
  have "keylen h = klen" if "take (unat (keylen h)) (key h) = take (unat klen) keyptr"
  proof -
    from that have "length (take (unat (keylen h)) (key h)) = length (take (unat klen) keyptr)" by simp
    with JEN_length [OF j] JEN_length [OF assms(4)] show ?thesis by (simp add: word_unat_eq_iff)
  qed
  moreover have "hashv h = hv" if "keylen h = klen" "take (unat klen) (key h) = take (unat klen) keyptr"
    using JEN_take [OF assms(4), of "key h"] that j JEN_length [OF j] by simp
  ultimately show ?thesis using assms(3) by (auto simp: key_of_def)
qed

lemma find_loop_ok:
  assumes "path hs p xs" and "keyed hs es" and "set xs \<subseteq> set es" and hv: "HASH_JEN keyptr klen = Some hv"
  shows "find_loop hs keyptr klen hv p = Some (find (\<lambda>x. key_of hs x = take (unat klen) keyptr) xs)"
  using assms(1,3)
proof (induction xs arbitrary: p)
  case Nil
  then show ?case by (simp add: find_loop.simps)
next
  case (Cons x xs)
  then obtain h where h: "p = Some x" "hs x = Some h" "path hs (hh_next h) xs" and x: "x \<in> set es" by auto
  have l: "unat klen \<le> length keyptr" using JEN_length [OF hv] .
  have lk: "unat (keylen h) \<le> length (key h)" using assms(2) x h(2) JEN_length by (fastforce simp: keyed_def)
  have mem: "memcmp (Some (key h)) (Some keyptr) (unat klen) = Some (bytes_cmp (take (unat klen) (key h)) (take (unat klen) keyptr))"
    if "keylen h = klen" using that l lk by (simp add: memcmp_def)
  have zero: "bytes_cmp (take (unat klen) (key h)) (take (unat klen) keyptr) = 0 \<longleftrightarrow> take (unat klen) (key h) = take (unat klen) keyptr"
    if "keylen h = klen" using that l lk by (intro bytes_cmp_0_iff) simp
  from Cons.IH [OF h(3)] Cons.prems(2) keyed_match [OF assms(2) x h(2) hv] mem zero h(1,2) show ?case
    by (cases "hashv h = hv \<and> keylen h = klen") (auto simp: find_loop.simps [of _ _ _ _ "Some x"])
qed

lemma HASH_FIND_ok:
  assumes rep: "table_rep s es" and kl: "unat klen \<le> length keyptr" and "distinct (map (key_of (hhs s)) es)"
  shows "HASH_FIND s keyptr klen = Some (map_of (map (\<lambda>e. (key_of (hhs s) e, e)) es) (take (unat klen) keyptr))"
proof (cases "es = []")
  case True
  with rep show ?thesis by (simp add: table_rep_def HASH_FIND_def)
next
  case False
  let ?K = "take (unat klen) keyptr"
  from table_rep_nonempty [OF rep False] obtain k B where t: "spread s k es B" "tbl_head s = Some (hd es)" "keyed (hhs s) es" by blast
  from JEN_defined [OF kl] obtain hv where hv: "HASH_JEN keyptr klen = Some hv" by blast
  define i where "i = unat (HASH_TO_BKT hv (2 ^ k))"
  have i: "i < 2 ^ k" by (simp add: i_def HASH_TO_BKT_less)
  have b: "length (buckets (tbl s)) = 2 ^ k" "num_buckets (tbl s) = 2 ^ k" "set (B i) = {e \<in> set es. slot_index (hhs s) (2 ^ k) e = i}"
    "chain_of (hhs s) (hh_head (buckets (tbl s) ! i)) (B i)"
    using t(1) i by (simp_all add: spread_def bchains_def)
  have run: "HASH_FIND s keyptr klen = Some (find (\<lambda>x. key_of (hhs s) x = ?K) (B i))"
    using find_loop_ok [OF dll_path [OF b(4)] t(3) _ hv] b i t(2) hv
    by (simp add: HASH_FIND_def HASH_FIND_IN_BKT_def bucket_at_def i_def [symmetric])
  have own: "x \<in> set (B i)" if x: "x \<in> set es" "key_of (hhs s) x = ?K" for x
  proof -
    obtain h where h: "hhs s x = Some h" using t(3) x(1) by (auto simp: keyed_def)
    with keyed_match [OF t(3) x(1) h hv] x have "slot_index (hhs s) (2 ^ k) x = i" by (simp add: slot_index_def i_def)
    with x(1) show ?thesis by (simp add: b(3))
  qed
  show ?thesis
  proof (cases "find (\<lambda>x. key_of (hhs s) x = ?K) (B i)")
    case None
    then have "\<forall>x \<in> set es. key_of (hhs s) x \<noteq> ?K" using own by (auto simp: find_None_iff)
    then have "map_of (map (\<lambda>e. (key_of (hhs s) e, e)) es) ?K = None" by (auto simp: map_of_eq_None_iff)
    with run None show ?thesis by simp
  next
    case (Some x)
    then have "x \<in> set (B i)" "key_of (hhs s) x = ?K" by (auto simp: find_Some_iff)
    then have "x \<in> set es" "key_of (hhs s) x = ?K" by (simp_all add: b(3))
    then have "map_of (map (\<lambda>e. (key_of (hhs s) e, e)) es) ?K = Some x"
      using assms(3) by (intro map_of_is_SomeI) (simp add: comp_def, force)
    with run Some show ?thesis by simp
  qed
qed


section \<open>Removing an element\<close>

lemma dll_remove:
  assumes d: "dll pv nx hs pr p (xs @ e # ys) q" and "distinct (xs @ e # ys)"
    and nx: "\<And>x. x \<in> set (xs @ ys) \<Longrightarrow> map_option nx (hs' x) = (if xs \<noteq> [] \<and> x = last xs then Some (starts ys q) else map_option nx (hs x))"
    and pv: "\<And>x. x \<in> set (xs @ ys) \<Longrightarrow> map_option pv (hs' x) = (if ys \<noteq> [] \<and> x = hd ys then Some (ends pr xs) else map_option pv (hs x))"
  shows "dll pv nx hs' pr (if xs = [] then starts ys q else p) (xs @ ys) q"
proof -
  have last: "last xs \<notin> set ys" if "xs \<noteq> []" using assms(2) last_in_set [OF that] by auto
  have front: "dll pv nx hs' pr p xs (starts ys q)" if "xs \<noteq> []"
  proof -
    from that obtain us l where xs: "xs = us @ [l]" by (cases xs rule: rev_cases) auto
    from d obtain hl where hl: "dll pv nx hs pr p us (Some l)" "hs l = Some hl" "pv hl = ends pr us" by (auto simp: xs dll_append starts_def)
    have l: "map_option nx (hs' l) = Some (starts ys q)" "map_option pv (hs' l) = Some (pv hl)"
      using nx [of l] pv [of l] assms(2) hl(2) by (auto simp: xs)
    have "dll pv nx hs' pr p us (Some l) = dll pv nx hs pr p us (Some l)"
      by (rule dll_cong) (use nx pv assms(2) in \<open>auto simp: xs\<close>)
    with hl l show ?thesis by (auto simp: xs dll_append starts_def ends_def)
  qed
  have rear: "dll pv nx hs' (ends pr xs) (starts ys q) ys q"
  proof (cases ys)
    case (Cons f zs)
    from d obtain hf where hf: "hs f = Some hf" "dll pv nx hs (Some f) (nx hf) zs q" by (auto simp: Cons dll_append)
    have f: "map_option nx (hs' f) = Some (nx hf)" "map_option pv (hs' f) = Some (ends pr xs)"
      using nx [of f] pv [of f] last hf(1) by (auto simp: Cons)
    have "dll pv nx hs' (Some f) (nx hf) zs q = dll pv nx hs (Some f) (nx hf) zs q"
    proof (rule dll_cong)
      fix x assume x: "x \<in> set zs"
      then have "x \<noteq> f" "xs \<noteq> [] \<Longrightarrow> x \<noteq> last xs" using assms(2) last by (auto simp: Cons)
      with nx [of x] pv [of x] x show "map_option pv (hs' x) = map_option pv (hs x) \<and> map_option nx (hs' x) = map_option nx (hs x)"
        by (auto simp: Cons)
    qed
    with hf f show ?thesis by (auto simp: Cons starts_def)
  qed (simp add: starts_def)
  show ?thesis
  proof (cases "xs = []")
    case True
    with rear show ?thesis by (simp add: ends_def)
  next
    case False
    with front rear show ?thesis by (simp add: dll_append)
  qed
qed

text \<open>Where the neighbours of an element in the middle of a list are.\<close>

lemma dll_middle:
  assumes "dll pv nx hs pr p (xs @ e # ys) q"
  obtains h where "hs e = Some h" "pv h = ends pr xs" "nx h = starts ys q" "p = (if xs = [] then Some e else Some (hd xs))"
proof -
  from assms obtain h where "hs e = Some h" "pv h = ends pr xs" "dll pv nx hs (Some e) (nx h) ys q" by (auto simp: dll_append)
  with dll_starts [of pv nx hs "Some e" "nx h" ys q] dll_starts [OF assms] show thesis
    by (intro that [of h]) (auto simp: starts_def hd_append)
qed

lemma bypass_ok:
  assumes d: "dll pv nx hs None p (xs @ e # ys) None" and "distinct (xs @ e # ys)"
    and sn: "\<And>v h. nx (sn v h) = v \<and> pv (sn v h) = pv h \<and> other (sn v h) = other h"
    and sp: "\<And>v h. pv (sp v h) = v \<and> nx (sp v h) = nx h \<and> other (sp v h) = other h"
  shows "\<exists>hs'. bypass sn sp (ends None xs) (starts ys None) hs = Some hs' \<and>
    dll pv nx hs' None (if xs = [] then starts ys None else p) (xs @ ys) None \<and>
    dom hs' = dom hs \<and> (\<forall>x. map_option other (hs' x) = map_option other (hs x)) \<and> (\<forall>x. x \<notin> set (xs @ ys) \<longrightarrow> hs' x = hs x)"
proof -
  have in_dom: "set (xs @ ys) \<subseteq> dom hs" using dll_dom [OF d] by auto
  have neq: "e \<notin> set xs" "e \<notin> set ys" "set xs \<inter> set ys = {}" using assms(2) by auto
  define hs1 where "hs1 = (if xs = [] then hs else hs(last xs \<mapsto> sn (starts ys None) (the (hs (last xs)))))"
  define hs2 where "hs2 = (if ys = [] then hs1 else hs1(hd ys \<mapsto> sp (ends None xs) (the (hs1 (hd ys)))))"
  have l: "hs (last xs) \<noteq> None" if "xs \<noteq> []"
  proof -
    from that have "last xs \<in> set (xs @ ys)" by simp
    with in_dom show ?thesis by blast
  qed
  have f: "hs (hd ys) \<noteq> None" "hs1 (hd ys) = hs (hd ys)" if "ys \<noteq> []"
  proof -
    have y: "hd ys \<in> set ys" using that by simp
    then have "hd ys \<in> set (xs @ ys)" by simp
    with in_dom show "hs (hd ys) \<noteq> None" by blast
    have "hd ys \<noteq> last xs" if "xs \<noteq> []" using last_in_set [OF that] y neq(3) by (metis disjoint_iff)
    then show "hs1 (hd ys) = hs (hd ys)" by (simp add: hs1_def)
  qed
  have "bypass sn sp (ends None xs) (starts ys None) hs = Some hs2"
  proof -
    have "(case ends None xs of None \<Rightarrow> Some hs | Some p \<Rightarrow> upd_handle p (sn (starts ys None)) hs) = Some hs1"
    proof (cases "xs = []")
      case False
      with l obtain hl where "hs (last xs) = Some hl" by blast
      with False show ?thesis by (simp add: ends_def upd_handle_def hs1_def)
    qed (simp add: ends_def hs1_def)
    moreover have "(case starts ys None of None \<Rightarrow> Some hs1 | Some n \<Rightarrow> upd_handle n (sp (ends None xs)) hs1) = Some hs2"
    proof (cases "ys = []")
      case False
      with f obtain hf where "hs1 (hd ys) = Some hf" by (cases "hs (hd ys)") simp_all
      with False show ?thesis by (simp add: starts_def upd_handle_def hs2_def)
    qed (simp add: starts_def hs2_def)
    ultimately show ?thesis by (simp add: bypass_def)
  qed
  moreover have at: "hs2 x = (if xs \<noteq> [] \<and> x = last xs then Some (sn (starts ys None) (the (hs x)))
    else if ys \<noteq> [] \<and> x = hd ys then Some (sp (ends None xs) (the (hs x))) else hs x)" for x
  proof -
    have "hd ys \<noteq> last xs" if "xs \<noteq> []" "ys \<noteq> []" using neq(3) last_in_set [OF that(1)] hd_in_set [OF that(2)] by (metis disjoint_iff)
    with f(2) show ?thesis by (cases "xs = []"; cases "ys = []") (simp_all add: hs2_def hs1_def)
  qed
  have ne: "hs x \<noteq> None" if "xs \<noteq> [] \<and> x = last xs \<or> ys \<noteq> [] \<and> x = hd ys" for x using l f(1) that by auto
  have fields: "map_option nx (hs2 x) = (if xs \<noteq> [] \<and> x = last xs then Some (starts ys None) else map_option nx (hs x))"
    "map_option pv (hs2 x) = (if ys \<noteq> [] \<and> x = hd ys then Some (ends None xs) else map_option pv (hs x))"
    "map_option other (hs2 x) = map_option other (hs x)" for x
  proof -
    have "hd ys \<noteq> last xs" if "xs \<noteq> []" "ys \<noteq> []" using neq(3) last_in_set [OF that(1)] hd_in_set [OF that(2)] by (metis disjoint_iff)
    then consider (l) h where "xs \<noteq> [] \<and> x = last xs" "\<not> (ys \<noteq> [] \<and> x = hd ys)" "hs x = Some h"
      | (f) h where "\<not> (xs \<noteq> [] \<and> x = last xs)" "ys \<noteq> [] \<and> x = hd ys" "hs x = Some h"
      | (o) "\<not> (xs \<noteq> [] \<and> x = last xs)" "\<not> (ys \<noteq> [] \<and> x = hd ys)"
      using ne [of x] by (cases "hs x") metis+
    then have "map_option nx (hs2 x) = (if xs \<noteq> [] \<and> x = last xs then Some (starts ys None) else map_option nx (hs x)) \<and>
      map_option pv (hs2 x) = (if ys \<noteq> [] \<and> x = hd ys then Some (ends None xs) else map_option pv (hs x)) \<and>
      map_option other (hs2 x) = map_option other (hs x)"
    proof cases
      case l
      then show ?thesis unfolding at by (simp only: simp_thms if_True if_False option.map option.sel sn)
    next
      case f
      then show ?thesis unfolding at by (simp only: simp_thms if_True if_False option.map option.sel sp)
    next
      case o
      then show ?thesis unfolding at by (simp only: simp_thms if_True if_False)
    qed
    then show "map_option nx (hs2 x) = (if xs \<noteq> [] \<and> x = last xs then Some (starts ys None) else map_option nx (hs x))"
      "map_option pv (hs2 x) = (if ys \<noteq> [] \<and> x = hd ys then Some (ends None xs) else map_option pv (hs x))"
      "map_option other (hs2 x) = map_option other (hs x)"
      by blast+
  qed
  moreover have "dll pv nx hs2 None (if xs = [] then starts ys None else p) (xs @ ys) None"
    by (rule dll_remove [OF d assms(2)]) (rule fields)+
  moreover have "hs2 x = None \<longleftrightarrow> hs x = None" for x using ne [of x] by (auto simp: at)
  then have "dom hs2 = dom hs" by (auto simp: dom_def)
  moreover have "hs2 x = hs x" if "x \<notin> set (xs @ ys)" for x
  proof -
    have "x \<noteq> last xs" if "xs \<noteq> []" using \<open>x \<notin> set (xs @ ys)\<close> that by auto
    moreover have "x \<noteq> hd ys" if "ys \<noteq> []" using \<open>x \<notin> set (xs @ ys)\<close> that by auto
    ultimately show ?thesis by (auto simp: at)
  qed
  ultimately show ?thesis by blast
qed


lemma del_in_bkt_ok:
  assumes sp: "spread s k es B" and e: "e \<in> set es" and "distinct es" and i: "i = slot_index (hhs s) (2 ^ k) e"
  shows "\<exists>s' B'. HASH_DEL_IN_BKT i e s = Some s' \<and> spread s' k (remove1 e es) B' \<and> relink (set es) (hhs s) (hhs s') \<and>
    tbl_head s' = tbl_head s \<and> tbl_tail (tbl s') = tbl_tail (tbl s) \<and> num_items (tbl s') = num_items (tbl s)"
proof -
  let ?bs = "buckets (tbl s)"
  have il: "i < 2 ^ k" using slot_index_less by (simp add: i)
  have t: "length ?bs = 2 ^ k" "bchains (hhs s) ?bs B" "\<And>j. j < 2 ^ k \<Longrightarrow> set (B j) = {x \<in> set es. slot_index (hhs s) (2 ^ k) x = j}"
    using sp by (simp_all add: spread_def)
  have "e \<in> set (B i)" using t(3) [OF il] e i by simp
  then obtain us vs where B: "B i = us @ e # vs" by (auto simp: in_set_conv_decomp)
  have "chain_of (hhs s) (hh_head (?bs ! i)) (B i)" "distinct (B i)" "count (?bs ! i) = of_nat (length (B i))"
    using t(1,2) il by (simp_all add: bchains_def)
  note c = this [unfolded B]
  from dll_middle [OF c(1)] obtain d where d: "hhs s e = Some d" "hh_prev d = ends None us" "hh_next d = starts vs None"
    "hh_head (?bs ! i) = (if us = [] then Some e else Some (hd us))" by blast
  obtain hs where hs: "bypass (\<lambda>v h. h\<lparr>hh_next := v\<rparr>) (\<lambda>v h. h\<lparr>hh_prev := v\<rparr>) (ends None us) (starts vs None) (hhs s) = Some hs"
    "chain_of hs (if us = [] then starts vs None else hh_head (?bs ! i)) (us @ vs)" "dom hs = dom (hhs s)"
    "\<And>x. map_option kept (hs x) = map_option kept (hhs s x)" "\<And>x. x \<notin> set (us @ vs) \<Longrightarrow> hs x = hhs s x"
    using bypass_ok [OF c(1,2), of "\<lambda>v h. h\<lparr>hh_next := v\<rparr>" kept "\<lambda>v h. h\<lparr>hh_prev := v\<rparr>"] by (auto simp: kept_def)
  have sub: "set (us @ vs) \<subseteq> set es" using t(3) [OF il] B by auto
  have r: "relink (set (us @ vs)) (hhs s) hs" using hs(4,5) by (simp add: relink_def)
  have res: "relink (set es) (hhs s) hs" by (rule relink_trans [OF r relink_refl [of "{}"]]) (use sub in auto)
  define b where "b = (?bs ! i)\<lparr>count := count (?bs ! i) - 1, hh_head := (if hh_head (?bs ! i) = Some e then hh_next d else hh_head (?bs ! i))\<rparr>"
  define s' where "s' = s\<lparr>hhs := hs, tbl := (tbl s)\<lparr>buckets := ?bs[i := b]\<rparr>\<rparr>"
  have "e \<noteq> hd us" if "us \<noteq> []" using c(2) hd_in_set [OF that] by auto
  then have head: "hh_head b = (if us = [] then starts vs None else hh_head (?bs ! i))" using d(3,4) by (auto simp: b_def)
  have run: "HASH_DEL_IN_BKT i e s = Some s'"
    using hs(1) d t(1) il by (simp add: HASH_DEL_IN_BKT_def bucket_at_def Let_def b_def s'_def)
  have "bchains hs (?bs[i := b]) (B(i := us @ vs))"
    unfolding bchains_def
  proof (intro conjI allI impI)
    fix j assume j: "j < length (?bs[i := b])"
    have "chain_of hs (hh_head (?bs ! j)) (B j)" if "j \<noteq> i"
    proof -
      have "set (B j) \<inter> set (B i) = {}" using t(1,2) that il j by (simp add: bchains_def)
      then have "set (B j) \<inter> set (us @ vs) = {}" by (auto simp: B)
      with dll_frame [OF r this] t(2) j show ?thesis by (simp add: bchains_def)
    qed
    then show "chain_of hs (hh_head (?bs[i := b] ! j)) ((B(i := us @ vs)) j)" using hs(2) head j il t(1) by (cases "j = i") simp_all
    show "count (?bs[i := b] ! j) = of_nat (length ((B(i := us @ vs)) j))"
      using t(1,2) c(3) j B by (cases "j = i") (simp_all add: b_def bchains_def)
    show "distinct ((B(i := us @ vs)) j)" using t(2) c(2) j by (auto simp: bchains_def)
  next
    fix j l assume "j < length (?bs[i := b])" "l < length (?bs[i := b])" "j \<noteq> l"
    then have "set (B j) \<inter> set (B l) = {}" using t(2) by (simp add: bchains_def)
    moreover have "set ((B(i := us @ vs)) m) \<subseteq> set (B m)" for m by (auto simp: B)
    ultimately show "set ((B(i := us @ vs)) j) \<inter> set ((B(i := us @ vs)) l) = {}" by blast
  qed
  moreover have "set ((B(i := us @ vs)) j) = {x \<in> set (remove1 e es). slot_index hs (2 ^ k) x = j}" if "j < 2 ^ k" for j
  proof -
    have "slot_index hs (2 ^ k) x = slot_index (hhs s) (2 ^ k) x" if "x \<in> set es" for x
      by (rule slot_index_relink [OF res]) (use spread_dom [OF sp] that in blast)
    then have "{x \<in> set (remove1 e es). slot_index hs (2 ^ k) x = j} = {x \<in> set es. slot_index (hhs s) (2 ^ k) x = j} - {e}"
      using assms(3) by (auto simp: set_remove1_eq)
    also have "\<dots> = set (B j) - {e}" by (simp only: t(3) [OF that])
    also have "\<dots> = set ((B(i := us @ vs)) j)"
      using c(2) t(3) [OF that] i B by (cases "j = i") auto
    finally show ?thesis by simp
  qed
  ultimately have "spread s' k (remove1 e es) (B(i := us @ vs))" using sp by (simp add: spread_def s'_def)
  with run res show ?thesis by (auto simp: s'_def)
qed

lemma HASH_DELETE_ok:
  assumes rep: "table_rep s es" and "e \<in> set es"
  shows "\<exists>s'. HASH_DELETE e s = Some s' \<and> table_rep s' (remove1 e es) \<and> dom (hhs s') = dom (hhs s) \<and>
    (\<forall>x. key_of (hhs s') x = key_of (hhs s) x)"
proof -
  have ne: "es \<noteq> []" and dist: "distinct es" using assms by (auto simp: table_rep_def)
  from table_rep_nonempty [OF rep ne] obtain k B where t: "spread s k es B" "tbl_head s = Some (hd es)" "tbl_tail (tbl s) = Some (last es)"
    "num_items (tbl s) = of_nat (length es)" "dll app_prev app_next (hhs s) None (Some (hd es)) es None" "keyed (hhs s) es" by blast
  from assms(2) obtain xs ys where es: "es = xs @ e # ys" by (auto simp: in_set_conv_decomp)
  have e: "e \<notin> set xs" "e \<notin> set ys" using dist by (auto simp: es)
  then have rem: "remove1 e es = xs @ ys" by (simp add: es remove1_append)
  from t(5) have dl: "dll app_prev app_next (hhs s) None (Some (hd es)) (xs @ e # ys) None" by (simp only: es)
  from dll_middle [OF dl] obtain d where d: "hhs s e = Some d" "app_prev d = ends None xs" "app_next d = starts ys None" by blast
  show ?thesis
  proof (cases "xs = [] \<and> ys = []")
    case True
    then have "HASH_DELETE e s = Some (s\<lparr>tbl_head := None\<rparr>)" using d by (simp add: HASH_DELETE_def ends_def starts_def)
    with True rem show ?thesis by (auto simp: table_rep_def)
  next
    case False
    let ?other = "\<lambda>h. (hh_prev h, hh_next h, key h, keylen h, hashv h)"
    obtain hs where hs: "bypass (\<lambda>v h. h\<lparr>app_next := v\<rparr>) (\<lambda>v h. h\<lparr>app_prev := v\<rparr>) (ends None xs) (starts ys None) (hhs s) = Some hs"
      "dll app_prev app_next hs None (if xs = [] then starts ys None else Some (hd es)) (xs @ ys) None" "dom hs = dom (hhs s)"
      "\<And>x. map_option ?other (hs x) = map_option ?other (hhs s x)"
      using bypass_ok [OF dl dist [unfolded es], of "\<lambda>v h. h\<lparr>app_next := v\<rparr>" ?other "\<lambda>v h. h\<lparr>app_prev := v\<rparr>"] by auto
    have same: "map_option hh_prev (hs x) = map_option hh_prev (hhs s x) \<and> map_option hh_next (hs x) = map_option hh_next (hhs s x) \<and>
      map_option hashv (hs x) = map_option hashv (hhs s x) \<and> map_option key (hs x) = map_option key (hhs s x) \<and>
      map_option keylen (hs x) = map_option keylen (hhs s x)" for x
      using hs(4) [of x] by (cases "hs x"; cases "hhs s x") simp_all
    define s1 where "s1 = s\<lparr>tbl_head := Some (hd (xs @ ys)), tbl := (tbl s)\<lparr>tbl_tail := Some (last (xs @ ys))\<rparr>, hhs := hs\<rparr>"
    have sp1: "spread s1 k es B" by (rule spread_frame [OF t(1)]) (simp_all add: s1_def same)
    obtain d1 where d1: "hs e = Some d1" "hashv d1 = hashv d" using same [of e] d(1) by (cases "hs e") auto
    have i: "unat (HASH_TO_BKT (hashv d) (2 ^ k)) = slot_index (hhs s1) (2 ^ k) e" using d1 by (simp add: slot_index_def s1_def)
    from del_in_bkt_ok [OF sp1 assms(2) dist i] obtain s2 B2 where
      s2: "HASH_DEL_IN_BKT (unat (HASH_TO_BKT (hashv d) (2 ^ k))) e s1 = Some s2" "spread s2 k (remove1 e es) B2"
        "relink (set es) (hhs s1) (hhs s2)" "tbl_head s2 = tbl_head s1" "tbl_tail (tbl s2) = tbl_tail (tbl s1)"
        "num_items (tbl s2) = num_items (tbl s1)" by blast
    define s' where "s' = s2\<lparr>tbl := (tbl s2)\<lparr>num_items := num_items (tbl s2) - 1\<rparr>\<rparr>"
    have nb: "num_buckets (tbl s) = 2 ^ k" using t(1) by (simp add: spread_def)
    define sa where "sa = (if Some e = tbl_tail (tbl s) then s\<lparr>tbl := (tbl s)\<lparr>tbl_tail := app_prev d\<rparr>\<rparr> else s)"
    define sb where "sb = (if app_prev d = None then sa\<lparr>tbl_head := app_next d\<rparr> else sa)"
    have tl: "Some e = tbl_tail (tbl s) \<longleftrightarrow> ys = []" using t(3) e(2) by (auto simp: es)
    have fl: "hhs sb = hhs s" "num_buckets (tbl sb) = 2 ^ k" by (simp_all add: sb_def sa_def nb)
    have head: "tbl_head sb = Some (hd (xs @ ys))"
      using False t(2) d(2,3) by (cases "xs = []") (simp_all add: sb_def sa_def ends_def starts_def es)
    have "tbl sb = (tbl s)\<lparr>tbl_tail := Some (last (xs @ ys))\<rparr>"
      using False t(3) d(2) tl
      by (cases "ys = []") (simp_all add: sb_def sa_def ends_def es UT_hash_table.equality)
    with head have s1: "sb\<lparr>hhs := hs\<rparr> = s1" by (simp add: s1_def hash_state.equality)
    have ne2: "\<not> (app_prev d = None \<and> app_next d = None)"
      using False d(2,3) by (auto simp: ends_def starts_def split: if_splits)
    have "HASH_DELETE e s = Option.bind (bypass (\<lambda>v h. h\<lparr>app_next := v\<rparr>) (\<lambda>v h. h\<lparr>app_prev := v\<rparr>) (app_prev d) (app_next d) (hhs sb))
      (\<lambda>hs. Option.bind (HASH_DEL_IN_BKT (unat (HASH_TO_BKT (hashv d) (num_buckets (tbl (sb\<lparr>hhs := hs\<rparr>))))) e (sb\<lparr>hhs := hs\<rparr>))
        (\<lambda>s. Some (s\<lparr>tbl := (tbl s)\<lparr>num_items := num_items (tbl s) - 1\<rparr>\<rparr>)))"
      unfolding HASH_DELETE_def d(1) sa_def sb_def Let_def by (simp only: Option.bind.simps ne2 if_False)
    then have "HASH_DELETE e s = Some s'"
      unfolding d(2,3) fl hs(1) using fl(2) s2(1) by (simp add: s1 s'_def nb s1_def [symmetric])
    moreover have "table_rep s' (xs @ ys)"
    proof -
      have "keyed hs es" by (rule keyed_frame [OF t(6)]) (simp add: same)
      then have "keyed (hhs s2) es" by (rule keyed_frame) (use relink_fields [OF s2(3)] in \<open>simp add: s1_def\<close>)
      then have "keyed (hhs s') (xs @ ys)" by (simp add: keyed_def es s'_def)
      moreover have "dll app_prev app_next (hhs s') None (Some (hd (xs @ ys))) (xs @ ys) None"
        using hs(2) dll_app [OF s2(3)] False by (cases "xs = []") (simp_all add: s'_def s1_def starts_def es)
      moreover have "spread s' k (xs @ ys) B2" using s2(2) by (simp add: spread_def s'_def rem)
      ultimately show ?thesis
        using s2(4-6) dist False t(4) by (auto simp: table_rep_def s'_def s1_def es)
    qed
    moreover have "key_of (hhs s') x = key_of (hhs s) x" for x
      by (rule key_of_frame) (simp_all add: s'_def relink_fields [OF s2(3)], simp_all add: s1_def same)
    moreover have "dom (hhs s') = dom (hhs s)" using relink_dom [OF s2(3)] hs(3) by (simp add: s'_def s1_def)
    ultimately show ?thesis unfolding rem by blast
  qed
qed

section \<open>The table as a finite map\<close>

text \<open>What a client relies on: \<open>rep s m\<close> says that the table holds the entries \<open>m\<close>, in the order of insertion, under their keys. \<open>live\<close> is the set of
  elements in memory, \<open>fits\<close> a bound on keys. Only a table that is \<open>full\<close> may end the program.\<close>

locale keyed_table =
  fixes rep :: "'s \<Rightarrow> ('k \<times> 'e) list \<Rightarrow> bool"
    and live :: "'s \<Rightarrow> 'e set"
    and fits :: "'k \<Rightarrow> bool"
    and full :: "'s \<Rightarrow> bool"
    and find :: "'s \<Rightarrow> 'k \<Rightarrow> 'e option option"
    and add :: "'k \<Rightarrow> 'e \<Rightarrow> 's \<Rightarrow> 's result option"
    and remove :: "'e \<Rightarrow> 's \<Rightarrow> 's option"
  assumes find_law: "rep s m \<Longrightarrow> distinct (map fst m) \<Longrightarrow> fits k \<Longrightarrow> find s k = Some (map_of m k)"
    and add_law: "rep s m \<Longrightarrow> e \<in> live s \<Longrightarrow> e \<notin> snd ` set m \<Longrightarrow> fits k \<Longrightarrow>
      (\<exists>s'. add k e s = ret s' \<and> rep s' (m @ [(k, e)]) \<and> live s' = live s) \<or> add k e s = Some (Exited (- 1)) \<and> full s"
    and remove_law: "rep s m \<Longrightarrow> e \<in> snd ` set m \<Longrightarrow>
      \<exists>s'. remove e s = Some s' \<and> rep s' (filter (\<lambda>p. snd p \<noteq> e) m) \<and> live s' = live s"
begin

text \<open>An entry added under a new key is found under it, and all others as before.\<close>

lemma find_after_add:
  assumes "rep s m" and "distinct (map fst m)" and "e \<in> live s" and "e \<notin> snd ` set m" and "fits k" and "k \<notin> fst ` set m" and "\<not> full s"
  shows "\<exists>s'. add k e s = ret s' \<and> (\<forall>k'. fits k' \<longrightarrow> find s' k' = Some (if k' = k then Some e else map_of m k'))"
proof -
  from add_law [OF assms(1,3,4,5)] assms(7) obtain s' where s': "add k e s = ret s'" "rep s' (m @ [(k, e)])" by blast
  have "distinct (map fst (m @ [(k, e)]))" using assms(2,6) by simp
  from find_law [OF s'(2) this] have "find s' k' = Some (map_of (m @ [(k, e)]) k')" if "fits k'" for k' using that .
  moreover have "map_of (m @ [(k, e)]) k' = (if k' = k then Some e else map_of m k')" for k'
    using assms(6) by (induction m) auto
  ultimately show ?thesis using s'(1) by auto
qed

text \<open>Removing an entry removes its key and no other.\<close>

lemma find_after_remove:
  assumes "rep s m" and "distinct (map fst m)" and "distinct (map snd m)" and "(k, e) \<in> set m"
  shows "\<exists>s'. remove e s = Some s' \<and> (\<forall>k'. fits k' \<longrightarrow> find s' k' = Some (if k' = k then None else map_of m k'))"
proof -
  have "e \<in> snd ` set m" using assms(4) by force
  from remove_law [OF assms(1) this] obtain s' where s': "remove e s = Some s'" "rep s' (filter (\<lambda>p. snd p \<noteq> e) m)" by blast
  have inj: "inj_on fst (set m)" "inj_on snd (set m)" using assms(2,3) by (simp_all add: distinct_map)
  have "snd p \<noteq> e \<longleftrightarrow> fst p \<noteq> k" if p: "p \<in> set m" for p
    using inj_onD [OF inj(1) _ p assms(4)] inj_onD [OF inj(2) _ p assms(4)] by (cases p) auto
  then have "filter (\<lambda>p. snd p \<noteq> e) m = filter (\<lambda>p. fst p \<noteq> k) m" by (intro filter_cong) auto
  with s' have r: "rep s' (filter (\<lambda>p. fst p \<noteq> k) m)" by simp
  have "distinct (map fst (filter (\<lambda>p. fst p \<noteq> k) m))" using assms(2) by (rule distinct_map_filter)
  from find_law [OF r this] have "find s' k' = Some (map_of (filter (\<lambda>p. fst p \<noteq> k) m) k')" if "fits k'" for k' using that .
  moreover have "map_of (filter (\<lambda>p. fst p \<noteq> k) m) k' = (if k' = k then None else map_of m k')" for k'
    by (induction m) auto
  ultimately show ?thesis using s'(1) by auto
qed

end

definition hash_rep :: "hash_state \<Rightarrow> (byte list \<times> addr) list \<Rightarrow> bool" where
  "hash_rep s m \<longleftrightarrow> table_rep s (map snd m) \<and> (\<forall>p \<in> set m. key_of (hhs s) (snd p) = fst p)"

definition hash_full :: "hash_state \<Rightarrow> bool" where
  "hash_full s \<longleftrightarrow> tbl_head s \<noteq> None \<and> num_buckets (tbl s) = 2 ^ 31"

lemma hash_rep_pairs: "hash_rep s m \<Longrightarrow> map (\<lambda>e. (key_of (hhs s) e, e)) (map snd m) = m"
  by (auto simp: hash_rep_def intro!: map_idI)

lemma hash_rep_keys: "hash_rep s m \<Longrightarrow> map (key_of (hhs s)) (map snd m) = map fst m"
  by (auto simp: hash_rep_def)

lemma unat_length: "length k < 2 ^ 32 \<Longrightarrow> unat (of_nat (length k) :: u32) = length k"
  by (simp add: unat_of_nat take_bit_nat_eq_self)

lemma hash_find_law:
  assumes "hash_rep s m" and "distinct (map fst m)" and "length k < 2 ^ 32" and "take (length k) keyptr = k"
  shows "HASH_FIND s keyptr (of_nat (length k)) = Some (map_of m k)"
proof -
  have "table_rep s (map snd m)" using assms(1) by (simp add: hash_rep_def)
  moreover have "length k \<le> length keyptr" using arg_cong [OF assms(4), of length] by simp
  moreover have "distinct (map (key_of (hhs s)) (map snd m))" unfolding hash_rep_keys [OF assms(1)] by (rule assms(2))
  ultimately have "HASH_FIND s keyptr (of_nat (length k)) =
    Some (map_of (map (\<lambda>e. (key_of (hhs s) e, e)) (map snd m)) (take (unat (of_nat (length k) :: u32)) keyptr))"
    using HASH_FIND_ok unat_length [OF assms(3)] by simp
  then show ?thesis unfolding hash_rep_pairs [OF assms(1)] unat_length [OF assms(3)] assms(4) .
qed

definition few :: "hash_state \<Rightarrow> nat \<Rightarrow> bool" where
  "few s n \<longleftrightarrow> (n = 0 \<or> lean n (tbl s)) \<and> n \<le> 242"

lemma hash_add_cases:
  assumes rep: "hash_rep s m" and "e \<in> dom (hhs s)" and "e \<notin> snd ` set m" and "length k < 2 ^ 32" and "limited alloc"
  obtains (added) s' where "HASH_ADD_KEYPTR alloc k (of_nat (length k)) e s = ret s'" "hash_rep s' (m @ [(k, e)])" "dom (hhs s') = dom (hhs s)"
      "few s (length m) \<and> length m < 242 \<longrightarrow> few s' (Suc (length m))"
    | (full) "HASH_ADD_KEYPTR alloc k (of_nat (length k)) e s = Some (Exited (- 1))" "hash_full s" "few s (length m) \<longrightarrow> length m = 242"
proof -
  have t: "table_rep s (map snd m)" using rep by (simp add: hash_rep_def)
  have "e \<notin> set (map snd m)" using assms(3) by simp
  from add_keyptr_ok [OF t assms(2) this assms(5), of "of_nat (length k)" k] unat_length [OF assms(4)]
  consider s' where "HASH_ADD_KEYPTR alloc k (of_nat (length k)) e s = ret s'" "table_rep s' (map snd m @ [e])"
      "key_of (hhs s') e = k" "\<forall>x \<in> set (map snd m). key_of (hhs s') x = key_of (hhs s) x" "dom (hhs s') = dom (hhs s)"
      "(m = [] \<or> lean (length m) (tbl s)) \<and> length m < 2 ^ 20 \<longrightarrow> lean (Suc (length m)) (tbl s')"
    | "HASH_ADD_KEYPTR alloc k (of_nat (length k)) e s = Some (Exited (- 1))" "map snd m \<noteq> []" "num_buckets (tbl s) = 2 ^ 31"
      "lean (length m) (tbl s) \<and> length m < 2 ^ 20 \<longrightarrow> 242 \<le> length m"
    by auto
  then show ?thesis
  proof cases
    case 1
    have "hash_rep s' (m @ [(k, e)])" using 1(2-4) rep by (auto simp: hash_rep_def)
    moreover have "few s (length m) \<and> length m < 242 \<longrightarrow> few s' (Suc (length m))" using 1(6) by (auto simp: few_def)
    ultimately show ?thesis using 1(1,5) added by blast
  next
    case 2
    from 2(2) t have "tbl_head s \<noteq> None" by (auto simp: table_rep_def)
    then have "hash_full s" using 2(3) by (simp add: hash_full_def)
    moreover have "few s (length m) \<longrightarrow> length m = 242" using 2(2,4) by (auto simp: few_def)
    ultimately show ?thesis using 2(1) full by blast
  qed
qed

lemma hash_add_law:
  assumes "hash_rep s m" and "e \<in> dom (hhs s)" and "e \<notin> snd ` set m" and "length k < 2 ^ 32" and "limited alloc"
  shows "(\<exists>s'. HASH_ADD_KEYPTR alloc k (of_nat (length k)) e s = ret s' \<and> hash_rep s' (m @ [(k, e)]) \<and> dom (hhs s') = dom (hhs s)) \<or>
    HASH_ADD_KEYPTR alloc k (of_nat (length k)) e s = Some (Exited (- 1)) \<and> hash_full s"
  by (rule hash_add_cases [OF assms]) blast+

lemma hash_remove_law:
  assumes rep: "hash_rep s m" and "e \<in> snd ` set m"
  shows "\<exists>s'. HASH_DELETE e s = Some s' \<and> hash_rep s' (filter (\<lambda>p. snd p \<noteq> e) m) \<and> dom (hhs s') = dom (hhs s)"
proof -
  have t: "table_rep s (map snd m)" using rep by (simp add: hash_rep_def)
  have "e \<in> set (map snd m)" using assms(2) by simp
  from HASH_DELETE_ok [OF t this] obtain s' where s': "HASH_DELETE e s = Some s'" "table_rep s' (remove1 e (map snd m))"
    "dom (hhs s') = dom (hhs s)" "\<forall>x. key_of (hhs s') x = key_of (hhs s) x" by blast
  have "distinct (map snd m)" using t by (simp add: table_rep_def)
  then have "remove1 e (map snd m) = map snd (filter (\<lambda>p. snd p \<noteq> e) m)"
    by (simp add: distinct_remove1_removeAll removeAll_filter_not_eq filter_map comp_def eq_commute)
  with s' rep show ?thesis by (auto simp: hash_rep_def)
qed

interpretation ut: keyed_table hash_rep "\<lambda>s. dom (hhs s)" "\<lambda>k. length k < 2 ^ 32" hash_full
  "\<lambda>s k. HASH_FIND s k (of_nat (length k))" "\<lambda>k. HASH_ADD_KEYPTR (\<lambda>n. n < 2 ^ 36) k (of_nat (length k))" HASH_DELETE
proof unfold_locales
  fix s m and k :: "byte list" assume "hash_rep s m" "distinct (map fst m)" "length k < 2 ^ 32"
  then show "HASH_FIND s k (of_nat (length k)) = Some (map_of m k)" by (rule hash_find_law) simp
next
  fix s m e and k :: "byte list" assume "hash_rep s m" "e \<in> dom (hhs s)" "e \<notin> snd ` set m" "length k < 2 ^ 32"
  then show "(\<exists>s'. HASH_ADD_KEYPTR (\<lambda>n. n < 2 ^ 36) k (of_nat (length k)) e s = ret s' \<and> hash_rep s' (m @ [(k, e)]) \<and> dom (hhs s') = dom (hhs s)) \<or>
    HASH_ADD_KEYPTR (\<lambda>n. n < 2 ^ 36) k (of_nat (length k)) e s = Some (Exited (- 1)) \<and> hash_full s"
    by (rule hash_add_law) (simp add: limited_def)
next
  fix s m e assume "hash_rep s m" "e \<in> snd ` set m"
  then show "\<exists>s'. HASH_DELETE e s = Some s' \<and> hash_rep s' (filter (\<lambda>p. snd p \<noteq> e) m) \<and> dom (hhs s') = dom (hhs s)"
    by (rule hash_remove_law)
qed

text \<open>Adding entries one after the other: as long as there are at most 242, no addition fails.\<close>

lemma readd_ok:
  assumes "hash_rep s m" and "distinct (map snd (m @ ents))" and "snd ` set ents \<subseteq> dom (hhs s)" and "\<forall>p \<in> set ents. length (fst p) < 2 ^ 32"
    and "limited alloc" and "few s (length m)" and "length m + length ents \<le> 242"
  shows "\<exists>s'. readd_entries alloc ents s = ret s' \<and> hash_rep s' (m @ ents) \<and> dom (hhs s') = dom (hhs s)"
  using assms
proof (induction ents arbitrary: s m)
  case (Cons p ents)
  obtain k e where p: "p = (k, e)" by (cases p)
  have "e \<in> dom (hhs s)" "e \<notin> snd ` set m" "length k < 2 ^ 32" using Cons.prems(2-4) by (auto simp: p)
  from Cons.prems(1) this Cons.prems(5) show ?case
  proof (cases rule: hash_add_cases)
    case (added s1)
    have "few s1 (length (m @ [(k, e)]))" using added(4) Cons.prems(6,7) by simp
    from Cons.IH [OF added(2) _ _ _ Cons.prems(5) this] Cons.prems(2-4,7) added(1,3) show ?thesis by (auto simp: p)
  next
    case full
    with Cons.prems(6,7) show ?thesis by simp
  qed
qed simp

lemma takeWhile_cstring: "0 \<notin> set k \<Longrightarrow> takeWhile (\<lambda>c. c \<noteq> 0) (k @ 0 # rest) = (k :: byte list)"
  by (induction k) auto

lemma find_str_law:
  assumes "hash_rep s m" and "distinct (map fst m)" and "length k < 2 ^ 32" and "0 \<notin> set k"
  shows "HASH_FIND_STR s (k @ 0 # rest) = Some (map_of m k)"
  using hash_find_law [OF assms(1-3), of "k @ 0 # rest"] takeWhile_cstring [OF assms(4)] by (simp add: HASH_FIND_STR_def)

section \<open>Properties\<close>

text \<open>The table that \<^verbatim>\<open>sbev_reg_event\<close> builds anew after the array of events has moved is the map from names to entries: whatever the
  table held before, when it is cleared and up to 242 entries with different names are added, every addition returns, and then \<^verbatim>\<open>HASH_FIND_STR\<close> finds for
  every C string the entry of that name, or none. (Nine additions are needed for every doubling of the buckets, so that with more entries of badly
  chosen names the 27th doubling may ask for more memory than there is.)\<close>

theorem hash_rebuild_refines:
  assumes "distinct (map fst ents)" and "distinct (map snd ents)" and "snd ` set ents \<subseteq> dom (hhs s)" and "length ents \<le> 242"
    and "\<forall>p \<in> set ents. length (fst p) < 2 ^ 32" and "limited alloc"
  shows "\<exists>s'. readd_entries alloc ents (HASH_CLEAR s) = ret s' \<and>
    (\<forall>nom rest. 0 \<notin> set nom \<and> length nom < 2 ^ 32 \<longrightarrow> HASH_FIND_STR s' (nom @ 0 # rest) = Some (map_of ents nom))"
proof -
  have "hash_rep (HASH_CLEAR s) []" by (simp add: hash_rep_def table_rep_def HASH_CLEAR_def)
  moreover have "few (HASH_CLEAR s) 0" by (simp add: few_def)
  ultimately obtain s' where "readd_entries alloc ents (HASH_CLEAR s) = ret s'" "hash_rep s' ents"
    using readd_ok [of "HASH_CLEAR s" "[]" ents alloc] assms by (auto simp: HASH_CLEAR_def)
  with find_str_law [OF _ assms(1)] show ?thesis by blast
qed

definition two_handles :: hash_state where
  "two_handles = \<lparr>tbl_head = None, tbl = \<lparr>buckets = [], num_buckets = 0, log2_num_buckets = 0, num_items = 0, tbl_tail = None,
     ideal_chain_maxlen = 0, nonideal_items = 0, ineff_expands = 0, noexpand = 0\<rparr>,
     hhs = [1 \<mapsto> \<lparr>app_prev = None, app_next = None, hh_prev = None, hh_next = None, key = [], keylen = 0, hashv = 0\<rparr>,
       2 \<mapsto> \<lparr>app_prev = None, app_next = None, hh_prev = None, hh_next = None, key = [], keylen = 0, hashv = 0\<rparr>]\<rparr>"

lemma hash_rebuild_refines_witness:
  "\<exists>s'. readd_entries (\<lambda>n. n < 2 ^ 36) [([116], 1), ([117], 2)] (HASH_CLEAR two_handles) = ret s' \<and>
     HASH_FIND_STR s' [117, 0] = Some (Some 2) \<and> HASH_FIND_STR s' [118, 0] = Some None"
proof -
  obtain s' where s': "readd_entries (\<lambda>n. n < 2 ^ 36) [([116], 1), ([117], 2)] (HASH_CLEAR two_handles) = ret s'"
    "\<forall>nom rest. 0 \<notin> set nom \<and> length nom < 2 ^ 32 \<longrightarrow> HASH_FIND_STR s' (nom @ 0 # rest) = Some (map_of [([116], 1), ([117], 2)] nom)"
    using hash_rebuild_refines [of "[([116], 1), ([117], 2)]" two_handles "\<lambda>n. n < 2 ^ 36"] by (auto simp: two_handles_def limited_def)
  from s'(2) [rule_format, of "[117]" "[]"] s'(2) [rule_format, of "[118]" "[]"] have
    "HASH_FIND_STR s' [117, 0] = Some (Some 2)" "HASH_FIND_STR s' [118, 0] = Some None" by simp_all
  with s'(1) show ?thesis by blast
qed

text \<open>C22. The table is the map \<open>entries_map\<close> of the event core: for a core that holds the events \<open>es\<close>, at most 242 of them, with entry \<open>i\<close> at address
  \<open>f i\<close>, the additions of \<^verbatim>\<open>sbev_reg_event\<close> after the array has moved all return, and then \<^verbatim>\<open>HASH_FIND_STR\<close> returns for every C string the address of the
  entry to which the core's map leads, or \<open>NULL\<close>.\<close>

theorem entries_map_refined:
  assumes "ev_rep ev es" and "length es \<le> 242" and "inj_on f {..<length es}" and "f ` {..<length es} \<subseteq> dom (hhs s)"
    and "\<forall>e \<in> set es. length (nomen e) < 2 ^ 32" and "limited alloc"
  shows "\<exists>s'. readd_entries alloc (map (\<lambda>i. (nomen (es ! i), f i)) [0..<length es]) (HASH_CLEAR s) = ret s' \<and>
    (\<forall>nom rest. 0 \<notin> set nom \<and> length nom < 2 ^ 32 \<longrightarrow>
      HASH_FIND_STR s' (nom @ 0 # rest) = Some (map_option f (map_of (entries_map ev) nom)))"
proof -
  let ?ents = "map (\<lambda>i. (nomen (es ! i), f i)) [0..<length es]"
  have names: "map fst ?ents = map nomen es" by (rule nth_equalityI) simp_all
  have "?ents = map (\<lambda>(k, i). (k, f i)) (zip (map nomen es) [0..<length es])" by (rule nth_equalityI) simp_all
  then have m: "map_of ?ents = map_option f \<circ> map_of (entries_map ev)"
    using assms(1) by (simp only: map_of_map) (simp add: ev_rep_def index_map_def)
  have "distinct (map fst ?ents)" unfolding names using assms(1) by (simp add: ev_rep_def)
  moreover have "distinct (map snd ?ents)" using assms(3) by (simp add: distinct_map comp_def atLeast0LessThan)
  moreover have "snd ` set ?ents \<subseteq> dom (hhs s)" using assms(4) by (auto simp: atLeast0LessThan)
  ultimately show ?thesis
    using hash_rebuild_refines [of ?ents s alloc] assms(2,5,6) unfolding m by simp
qed

lemma entries_map_refined_witness:
  "\<exists>s'. readd_entries (\<lambda>n. n < 2 ^ 36) [(str_start, 0), (str_tick, 1), (str_kill, 2)]
       (HASH_CLEAR (two_handles\<lparr>hhs := \<lambda>_. hhs two_handles 1\<rparr>)) = ret s' \<and>
     HASH_FIND_STR s' (str_tick @ [0]) = Some (map_of (entries_map booted) str_tick)"
proof -
  let ?s = "two_handles\<lparr>hhs := \<lambda>_. hhs two_handles 1\<rparr>"
  from booted_ok(1) obtain es where es: "ev_rep booted es"
    "list_all2 (\<lambda>e r. nomen e = fst r \<and> entry_rep e (fst (snd r)) (snd (snd r))) es booted_view" unfolding core_rep_def by blast
  have names: "map nomen es = [str_start, str_tick, str_kill]" using core_rep_names [OF es(2)] by simp
  have l: "length es = 3" using arg_cong [OF names, of length] by simp
  have nm: "nomen (es ! 0) = str_start" "nomen (es ! 1) = str_tick" "nomen (es ! 2) = str_kill"
    using arg_cong [OF names, of "\<lambda>xs. xs ! 0"] arg_cong [OF names, of "\<lambda>xs. xs ! 1"] arg_cong [OF names, of "\<lambda>xs. xs ! 2"] l by simp_all
  have short: "\<forall>e \<in> set es. length (nomen e) < 2 ^ 32"
  proof
    fix e assume "e \<in> set es"
    then have "nomen e \<in> set [str_start, str_tick, str_kill]" unfolding names [symmetric] by simp
    then show "length (nomen e) < 2 ^ 32" by (auto simp: str_start_def str_tick_def str_kill_def)
  qed
  have ents: "map (\<lambda>i. (nomen (es ! i), id i)) [0..<length es] = [(str_start, 0), (str_tick, 1), (str_kill, 2)]"
    using nm by (simp add: l numeral_3_eq_3 numeral_2_eq_2)
  have h: "length es \<le> 242" "inj_on id {..<length es}" "id ` {..<length es} \<subseteq> dom (hhs ?s)" "limited (\<lambda>n. n < 2 ^ 36)"
    by (auto simp: l two_handles_def limited_def)
  obtain s' where s': "readd_entries (\<lambda>n. n < 2 ^ 36) [(str_start, 0), (str_tick, 1), (str_kill, 2)] (HASH_CLEAR ?s) = ret s'"
    "\<forall>nom rest. 0 \<notin> set nom \<and> length nom < 2 ^ 32 \<longrightarrow> HASH_FIND_STR s' (nom @ 0 # rest) = Some (map_option id (map_of (entries_map booted) nom))"
    using entries_map_refined [OF es(1) h(1-3) short h(4)] unfolding ents by blast
  have "0 \<notin> set str_tick \<and> length str_tick < 2 ^ 32" by (simp add: str_tick_def)
  with s'(2) have "HASH_FIND_STR s' (str_tick @ 0 # []) = Some (map_option id (map_of (entries_map booted) str_tick))" by blast
  with s'(1) show ?thesis by (auto simp: option.map_id)
qed

text \<open>C21. Adding to a table that holds the entries \<open>m\<close> under different keys an element under a new key returns, unless the table has grown to \<open>2\<^sup>3\<^sup>1\<close>
  buckets, and afterwards the new key leads to the element and every other key to what it led to before.\<close>

theorem hash_add_refines:
  assumes "hash_rep s m" and "distinct (map fst m)" and "e \<in> dom (hhs s)" and "e \<notin> snd ` set m" and "length k < 2 ^ 32" and "k \<notin> fst ` set m"
    and "\<not> hash_full s" and "limited alloc"
  shows "\<exists>s'. HASH_ADD_KEYPTR alloc k (of_nat (length k)) e s = ret s' \<and>
    (\<forall>k'. length k' < 2 ^ 32 \<longrightarrow> HASH_FIND s' k' (of_nat (length k')) = Some (if k' = k then Some e else map_of m k'))"
proof -
  have "alloc = (\<lambda>n. n < 2 ^ 36)" using assms(8) by (auto simp: limited_def)
  then show ?thesis using ut.find_after_add [OF assms(1-7)] by simp
qed

lemma hash_add_refines_witness:
  "\<exists>s'. HASH_ADD_KEYPTR (\<lambda>n. n < 2 ^ 36) [116] (of_nat (length [116 :: byte])) 2 two_handles = ret s' \<and>
     HASH_FIND s' [116] (of_nat (length [116 :: byte])) = Some (Some 2)"
proof -
  obtain s' where "HASH_ADD_KEYPTR (\<lambda>n. n < 2 ^ 36) [116] (of_nat (length [116 :: byte])) 2 two_handles = ret s'"
    "\<forall>k'. length k' < 2 ^ 32 \<longrightarrow> HASH_FIND s' k' (of_nat (length k')) = Some (if k' = [116] then Some 2 else map_of [] k')"
    using hash_add_refines [of two_handles "[]" 2 "[116]" "\<lambda>n. n < 2 ^ 36"]
    by (auto simp: two_handles_def limited_def hash_rep_def table_rep_def hash_full_def)
  then show ?thesis by (intro exI [of _ s'] conjI) (assumption, drule spec [of _ "[116]"], simp)
qed

text \<open>\<^verbatim>\<open>HASH_DELETE\<close> of an element of the table is defined and removes its key and no other.\<close>

theorem hash_delete_refines:
  assumes "hash_rep s m" and "distinct (map fst m)" and "(k, e) \<in> set m"
  shows "\<exists>s'. HASH_DELETE e s = Some s' \<and>
    (\<forall>k'. length k' < 2 ^ 32 \<longrightarrow> HASH_FIND s' k' (of_nat (length k')) = Some (if k' = k then None else map_of m k'))"
proof -
  have "distinct (map snd m)" using assms(1) by (simp add: hash_rep_def table_rep_def)
  from ut.find_after_remove [OF assms(1,2) this assms(3)] show ?thesis .
qed

lemma hash_delete_refines_witness:
  "\<exists>s s'. readd_entries (\<lambda>n. n < 2 ^ 36) [([116], 1), ([117], 2)] two_handles = ret s \<and> HASH_DELETE 1 s = Some s' \<and>
     HASH_FIND s' [116] (of_nat (length [116 :: byte])) = Some None \<and> HASH_FIND s' [117] (of_nat (length [117 :: byte])) = Some (Some 2)"
proof -
  have "hash_rep two_handles []" by (simp add: two_handles_def hash_rep_def table_rep_def)
  then obtain s where s: "readd_entries (\<lambda>n. n < 2 ^ 36) [([116], 1), ([117], 2)] two_handles = ret s" "hash_rep s [([116], 1), ([117], 2)]"
    using readd_ok [of two_handles "[]" "[([116], 1), ([117], 2)]" "\<lambda>n. n < 2 ^ 36"]
    by (auto simp: two_handles_def limited_def few_def)
  from hash_delete_refines [OF s(2), of "[116]" 1] obtain s' where s': "HASH_DELETE 1 s = Some s'"
    "\<forall>k'. length k' < 2 ^ 32 \<longrightarrow>
       HASH_FIND s' k' (of_nat (length k')) = Some (if k' = [116] then None else map_of [([116], 1), ([117], 2)] k')" by auto
  from s'(2) [rule_format, of "[116]"] s'(2) [rule_format, of "[117]"] s(1) s'(1) show ?thesis by auto
qed

end
