(* ===== verification/Spec2Isabelle.thy ===== *)
theory Spec2Isabelle
  imports ListHead Metadata Itemtag NbtCopy NbtAscii SdsText Startup Uthash
begin

text \<open>
  \<^bold>\<open>The program.\<close> cSpockBot is a client for the Minecraft protocol in C. Its parts are:

  \<^item> the wire layer (\<^verbatim>\<open>src/datautils.c\<close>): for every wire type up to four functions, \<^verbatim>\<open>walk_X\<close> (how many
    bytes of the receive buffer does a value take, negative if malformed or incomplete), \<^verbatim>\<open>dec_X\<close> (decode
    a value that was walked before), \<^verbatim>\<open>size_X\<close> (how many bytes must be allocated) and \<^verbatim>\<open>enc_X\<close> (write the
    value); the generated packet code calls them in the order walk, dec and size, enc;
  \<^item> the NBT library (\<^verbatim>\<open>src/cNBT\<close>), which the wire layer calls for trees of named binary tags: parser, binary writer
    and printer (\<^verbatim>\<open>nbt_parsing.c\<close>), tree operations (\<^verbatim>\<open>nbt_treeops.c\<close>, \<^verbatim>\<open>nbt_util.c\<close>), compressed files
    (\<^verbatim>\<open>nbt_loading.c\<close>), the growing output buffer (\<^verbatim>\<open>buffer.c\<close>) and the intrusive lists of children (\<^verbatim>\<open>list.h\<close>);
  \<^item> dynamic strings (\<^verbatim>\<open>src/sds.c\<close>), the representation of decoded strings;
  \<^item> a fiber scheduler (\<^verbatim>\<open>src/fibers\<close>) on a lock-free queue (\<^verbatim>\<open>queue.c\<close>): worker threads take fibers from three priority queues and
    resume them, and fibers wait for counters;
  \<^item> the event core (\<^verbatim>\<open>src/event/sb_event.c\<close>): named events, callbacks, and an emission that starts one fiber per callback;
  \<^item> the network plugin (\<^verbatim>\<open>src/net/sb_net.c\<close>): it cuts the received bytes into packets, decodes each and emits its event, and sends the login;
  \<^item> start-up, log and a test program.

  \<^bold>\<open>Conventions.\<close> Machine integers are words of their width (\<open>u8\<close>, \<open>u16\<close>, \<open>u32\<close>, \<open>u64\<close>), read with \<open>sint\<close>
  where C reads them signed. A C \<^verbatim>\<open>int\<close> that is only accumulated is an \<open>int\<close> and \<open>iadd\<close> is its addition:
  \<open>None\<close> on signed overflow. A value of an option type returned by an operation is \<open>None\<close> exactly where
  the C code has undefined behaviour (a read past the end of the object, a signed overflow, an
  oversized shift, a null or uninitialised pointer, a failed assertion) or where a loop does not end; reported errors are ordinary values (a negative
  length, \<open>Some (None, s)\<close> with \<^verbatim>\<open>errno\<close> in \<open>s\<close>, a non-zero status, \<open>Some None\<close> for a returned \<open>NULL\<close>), and \<open>Exited\<close> is a call of
  \<^verbatim>\<open>exit\<close>. A pointer into a buffer that is only read is the list of the bytes from it to the end of the object, so that advancing it
  drops bytes; memory that is written is a block of cells that may be unwritten. Calls of \<^verbatim>\<open>malloc\<close> and \<^verbatim>\<open>realloc\<close> ask an
  oracle (\<open>allocator\<close> or a predicate on the size), which may refuse any request; \<open>plenty\<close> and \<open>always\<close> never refuse.

  Code that is not part of the repository is an argument of the definitions that call it: zlib, the C streams, \<^verbatim>\<open>vsnprintf\<close> with \<^verbatim>\<open>%f\<close>,
  the arithmetic of \<^verbatim>\<open>double\<close>, the generated protocol, the callbacks of users, and the assembly routine \<^verbatim>\<open>vgc_make\<close>. What a theorem needs of it is a
  named hypothesis (\<open>zlib_inverts\<close>, \<open>file_keeps\<close>, \<open>serves\<close>) with a concrete instance in its witness. Calls of the locks of libuv are recorded
  in order and have no meaning of their own.

  \<^bold>\<open>Theories.\<close>
  \<^item> \<open>Prelude\<close>: reading memory, sizes and byte comparison, option and list lemmas, the named collections.
  \<^item> \<open>Codec\<close>: the locales of a codec (a wire image, an encoder that writes it, a decoder that reads
    it, a size, a walker that measures it) and what follows for every instance.
  \<^item> \<open>Fixed\<close>, \<open>Varint\<close>, \<open>Scalars\<close>: numbers of fixed width, varints and varlongs, strings, UUIDs and
    positions of \<^verbatim>\<open>datautils.c\<close>, each an interpretation of a codec locale.
  \<^item> \<open>Sds\<close>, \<open>SdsMem\<close>, \<open>SdsOps\<close>, \<open>SdsNum\<close>, \<open>SdsText\<close>: \<^verbatim>\<open>sds.c\<close>. \<open>Sds\<close> is the level of byte lists the codecs use; \<open>SdsMem\<close> has the packed headers
    and the allocation, and \<open>sds_rep\<close> abstracts a block to its text; the other three have the operations on texts (locale \<open>text_buffer\<close>),
    numbers and \<^verbatim>\<open>sdscatfmt\<close>, and quoting and splitting. Texts are below \<open>2\<^sup>6\<^sup>2\<close> bytes (\<open>2\<^sup>2\<^sup>9\<close> where an \<^verbatim>\<open>int\<close> counts).
  \<^item> \<open>Buffer\<close>: \<^verbatim>\<open>cNBT/buffer.c\<close> with its capacity loop, and the locale \<open>byte_sink\<close> of what the writer needs of it.
  \<^item> \<open>ListHead\<close>: \<^verbatim>\<open>list.h\<close> on a heap of links; its operations and iteration macros do to the sequence of entries what the other theories
    write as list operations, also when entries are freed during the iteration. The locale \<open>list_builder\<close> has both ends as instances.
  \<^item> \<open>NbtTree\<close>: \<^verbatim>\<open>struct nbt_node\<close> as a datatype, the wire image of a tree, \<^verbatim>\<open>size_nbt\<close>.
  \<^item> \<open>NbtDump\<close>: the binary writer of \<^verbatim>\<open>nbt_parsing.c\<close>; it writes the wire image into any sink.
  \<^item> \<open>NbtParse\<close>, \<open>NbtSafe\<close>: the parser of \<^verbatim>\<open>nbt_parsing.c\<close>; it inverts the writer, it never reads outside its
    input, and its recursion is bounded by the input.
  \<^item> \<open>NbtAscii\<close>: the printer of \<^verbatim>\<open>nbt_parsing.c\<close>; it prints the lines of the tree.
  \<^item> \<open>NbtLoad\<close>: \<^verbatim>\<open>nbt_loading.c\<close>; what is saved is loaded again, whatever zlib does as long as it inverts itself.
  \<^item> \<open>NbtQuery\<close>, \<open>NbtCopy\<close>: traversal, search, comparison, and the operations that allocate and release trees, with the set of live blocks.
  \<^item> \<open>NbtWalk\<close>, \<open>NbtCodec\<close>: the walkers and the NBT codec of \<^verbatim>\<open>datautils.c\<close>.
  \<^item> \<open>Slot\<close>, \<open>Particle\<close>, \<open>Itemtag\<close>, \<open>Metadata\<close>: the composite types of \<^verbatim>\<open>datautils.c\<close>.
  \<^item> \<open>Tickets\<close>, \<open>Ringbuf\<close>, \<open>Vqueue\<close>: the queue of \<^verbatim>\<open>queue.c\<close>. \<open>Ringbuf\<close> has every interleaving of the shared accesses of any number of threads
    (sequentially consistent, up to \<open>2\<^sup>6\<^sup>2\<close> pushes) and shows first-in first-out order, refinement of an abstract queue and the absence of data
    races; \<open>Tickets\<close> is the arithmetic of its invariant; \<open>Vqueue\<close> is the queue of one undisturbed thread, the instance of the locale \<open>bounded_queue\<close>
    which the scheduler uses.
  \<^item> \<open>Scheduler\<close>, \<open>SchedCycle\<close>: \<^verbatim>\<open>scheduler.c\<close> and \<^verbatim>\<open>fiber.c\<close>; jobs, counters, waiting and waking, the life of a fiber from the pool and back. \<open>fresh_fiber\<close> is the
    start state of a fiber: no counters, its stack, and an aligned base within the last 16 bytes of it.
  \<^item> \<open>Event\<close>, \<open>EventRun\<close>: \<^verbatim>\<open>sb_event.c\<close> and \<^verbatim>\<open>base.c\<close>; registration (locale \<open>event_registry\<close>) and emission on the scheduler, for fewer than \<open>2\<^sup>5\<^sup>0\<close> events.
    Registration may end the program only where \<open>short_of\<close> or \<open>refuses\<close> holds: the allocator refuses a request of at most the stated size, or the library refuses a
    lock; otherwise full arrays grow. Emission needs a free fiber and room in the middle queue for each callback, because \<^verbatim>\<open>sbev_emit_event\<close> drops the result of
    \<^verbatim>\<open>vgc_schedule_jobs\<close>; under these assumptions every callback gets a fiber in the state \<open>queued_callback\<close>, which runs \<^verbatim>\<open>sbev_trampoline\<close> on its arguments. \<open>parked\<close> is
    the fiber that emitted and waits.
  \<^item> \<open>Uthash\<close>: the hash table of \<^verbatim>\<open>uthash.h\<close> in which the event core keeps its names, with the Jenkins hash, chained buckets and their doubling. For the locale
    \<open>keyed_table\<close> it is a finite map, which is how \<open>Event\<close> writes it. Requests for less than \<open>2\<^sup>3\<^sup>6\<close> bytes are
    granted there, and then no addition fails up to 242 entries.
  \<^item> \<open>Net\<close>, \<open>NetRun\<close>: \<^verbatim>\<open>sb_net.c\<close>; the read buffer, the framing of packets in any segmentation of the stream (\<open>reassembly\<close>, on \<open>packets\<close>, the loop of \<^verbatim>\<open>sbnet_read_cb\<close>
    without its locks, decoding and events), and the plugin on the event core. \<open>read_round\<close> is the real body of the loop: the claims on the network rest on it. It delivers
    a packet that arrives whole (\<open>packet_delivered\<close>, for the state without compression), keeps the lock of the plugin after a packet that is cut off, and is
    undefined after a packet without callbacks.
  \<^item> \<open>Log\<close>: \<^verbatim>\<open>log.c\<close>; the line of a message, and threads that share the log through the lock of \<^verbatim>\<open>main.c\<close>.
  \<^item> \<open>Startup\<close>: \<^verbatim>\<open>main.c\<close>; the components put together, from \<^verbatim>\<open>main\<close> to the first callback.

  \<^bold>\<open>What is shown.\<close> Round trips and exact sizes of the codecs where they hold, and the exact set of values where they do not (metadata is decoded for every value, but measured only
  where \<open>measured\<close> holds: the walkers are wrong on every particle and on every present slot); memory safety and
  termination of the parser and the writer; equivalence of the tree operations with list functions on the nodes; invariants and refinement of the
  queue, the registry and the strings; progress of jobs and waiting fibers, and the way of the program from \<^verbatim>\<open>main\<close> to its first callback; error paths, among them those on which the code misbehaves.

  \<^bold>\<open>Fuel.\<close> The parser, the walkers and the metadata loops recurse on the input. They are modelled with
  fuel, and the fuel of the top-level functions is a function of the input length: \<open>parse_fuel\<close> (\<open>2 L + 3\<close>) is enough
  because every second level of the recursion consumes a byte, \<open>walk_fuel\<close> (\<open>2 L + 2\<close>) for the same reason, and the
  metadata loops consume at least one byte per round. \<open>nbt_parse2_fuel\<close> and \<open>walk_nbt_bounded\<close> state that
  more fuel changes nothing. The packet loop of the network plugin has fuel as well: one round per byte
  received is enough, because every packet takes at least one. Loops that need not end (capacity doubling, zlib and file loops, list iteration)
  are partial functions, and the theorems say when they end.

  \<^bold>\<open>Not modelled.\<close> The macros of \<^verbatim>\<open>uthash.h\<close> that the program does not use (other hash functions, Bloom filter, sorting, selection, replacement) are left out.
  The generated protocol does not exist before the build. The context switch is assembly. The creation of threads, \<^verbatim>\<open>test.c\<close>, \<^verbatim>\<open>sdsTest\<close> and the
  callbacks of the network plugin that only hand a buffer to libuv or print are glue without a state of the program.
\<close>

end
